(* ===== verification/Prelude.thy ===== *)
theory Prelude
  imports Main "HOL-Library.Monad_Syntax" "HOL-Library.Word"
begin

text \<open>
  What every component of the development shares: the reading of Rust's indexing and machine
  arithmetic, and generic lemmas on lists and options.

  A Rust panic (an index out of range, \<open>expect\<close> on \<open>None\<close>, an overflowing \<open>+\<close> or \<open>-\<close> in a
  build with overflow checks) is the value \<open>None\<close> of an outer \<open>option\<close>; a returned
  \<open>Result\<close> is the sum \<open>error + value\<close> inside it. Unsigned machine integers whose arithmetic is
  plain counting are \<open>nat\<close> with the width written out where the code checks, saturates or
  truncates it; values that are taken apart into bytes are words.
\<close>

named_theorems panic_simps \<open>unfolding of indexing and checked arithmetic\<close>

subsection \<open>Machine integers\<close>

type_synonym byte = "8 word"
type_synonym token = "32 word"

definition u32_max :: nat where
  "u32_max = 4294967295"

definition u64_max :: nat where
  "u64_max = 18446744073709551615"

text \<open>The engine's targets have 64-bit pointers, so \<open>usize\<close> has the range of \<open>u64\<close>.\<close>

definition usize_max :: nat where
  "usize_max = 18446744073709551615"

definition checked_add_u32 :: "nat \<Rightarrow> nat \<Rightarrow> nat option" where
  "checked_add_u32 a b = (if a + b \<le> u32_max then Some (a + b) else None)"

definition checked_add_u64 :: "nat \<Rightarrow> nat \<Rightarrow> nat option" where
  "checked_add_u64 a b = (if a + b \<le> u64_max then Some (a + b) else None)"

definition checked_mul_u64 :: "nat \<Rightarrow> nat \<Rightarrow> nat option" where
  "checked_mul_u64 a b = (if a * b \<le> u64_max then Some (a * b) else None)"

definition checked_sub :: "nat \<Rightarrow> nat \<Rightarrow> nat option" where
  "checked_sub a b = (if b \<le> a then Some (a - b) else None)"

definition add_usize :: "nat \<Rightarrow> nat \<Rightarrow> nat option" where
  "add_usize a b = (if a + b \<le> usize_max then Some (a + b) else None)"

definition saturating_add_u64 :: "nat \<Rightarrow> nat \<Rightarrow> nat" where
  "saturating_add_u64 a b = min (a + b) u64_max"

definition saturating_add_usize :: "nat \<Rightarrow> nat \<Rightarrow> nat" where
  "saturating_add_usize a b = min (a + b) usize_max"

definition saturating_mul_u32 :: "nat \<Rightarrow> nat \<Rightarrow> nat" where
  "saturating_mul_u32 a b = min (a * b) u32_max"

definition saturating_mul_u64 :: "nat \<Rightarrow> nat \<Rightarrow> nat" where
  "saturating_mul_u64 a b = min (a * b) u64_max"

text \<open>\<open>div_ceil\<close> as the standard library computes it: the quotient, plus one for a remainder.\<close>

definition div_ceil :: "nat \<Rightarrow> nat \<Rightarrow> nat" where
  "div_ceil a b = a div b + (if a mod b = 0 then 0 else 1)"

lemmas machine_defs = u32_max_def u64_max_def usize_max_def

lemma checked_add_u32_Some [panic_simps]:
  "checked_add_u32 a b = Some c \<longleftrightarrow> c = a + b \<and> a + b \<le> u32_max"
  by (auto simp: checked_add_u32_def)

lemma checked_add_u64_Some [panic_simps]:
  "checked_add_u64 a b = Some c \<longleftrightarrow> c = a + b \<and> a + b \<le> u64_max"
  by (auto simp: checked_add_u64_def)

lemma checked_mul_u64_Some [panic_simps]:
  "checked_mul_u64 a b = Some c \<longleftrightarrow> c = a * b \<and> a * b \<le> u64_max"
  by (auto simp: checked_mul_u64_def)

lemma checked_sub_Some [panic_simps]: "checked_sub a b = Some c \<longleftrightarrow> c = a - b \<and> b \<le> a"
  by (auto simp: checked_sub_def)

lemma add_usize_Some [panic_simps]:
  "add_usize a b = Some c \<longleftrightarrow> c = a + b \<and> a + b \<le> usize_max"
  by (auto simp: add_usize_def)

lemma div_ceil_0 [simp]: "div_ceil 0 b = 0"
  by (simp add: div_ceil_def)

lemma div_ceil_mult [simp]: "0 < b \<Longrightarrow> div_ceil (n * b) b = n"
  by (simp add: div_ceil_def)

lemma div_ceil_le_iff: "0 < b \<Longrightarrow> div_ceil a b \<le> n \<longleftrightarrow> a \<le> n * b"
proof -
  assume b: "0 < b"
  have split: "a = (a div b) * b + a mod b" by simp
  have lt: "a mod b < b" using b by simp
  show ?thesis
  proof (cases "a mod b = 0")
    case True
    then have "a = (a div b) * b" using split by simp
    then show ?thesis using True b by (metis Nat.add_0_right div_ceil_def mult_le_cancel2)
  next
    case False
    have "Suc (a div b) \<le> n \<longleftrightarrow> a < n * b"
      using b by (simp add: Suc_le_eq div_less_iff_less_mult)
    moreover have "a \<noteq> n * b" using False by auto
    ultimately show ?thesis using False by (auto simp: div_ceil_def)
  qed
qed

lemma less_div_ceil_iff: "0 < b \<Longrightarrow> n < div_ceil a b \<longleftrightarrow> n * b < a"
  using div_ceil_le_iff [of b a n] by (metis linorder_not_le)

lemma div_ceil_mono: "0 < b \<Longrightarrow> a \<le> c \<Longrightarrow> div_ceil a b \<le> div_ceil c b"
  by (metis div_ceil_le_iff le_refl le_trans)

lemma le_div_ceil_mult: "0 < b \<Longrightarrow> a \<le> div_ceil a b * b"
  using div_ceil_le_iff [of b a "div_ceil a b"] by simp

lemma div_less_div_ceil: "0 < b \<Longrightarrow> p < a \<Longrightarrow> p div b < div_ceil a b"
  by (metis div_times_less_eq_dividend less_div_ceil_iff le_less_trans)

lemma div_ceil_le: "0 < b \<Longrightarrow> div_ceil a b \<le> a"
  by (metis div_ceil_le_iff mult.right_neutral mult_le_mono2 One_nat_def Suc_leI)

subsection \<open>Indexing\<close>

definition list_get :: "'a list \<Rightarrow> nat \<Rightarrow> 'a option" where
  "list_get xs i = (if i < length xs then Some (xs ! i) else None)"

definition list_set :: "'a list \<Rightarrow> nat \<Rightarrow> 'a \<Rightarrow> 'a list option" where
  "list_set xs i v = (if i < length xs then Some (xs[i := v]) else None)"

lemma list_get_Some [panic_simps]: "list_get xs i = Some v \<longleftrightarrow> i < length xs \<and> v = xs ! i"
  by (auto simp: list_get_def)

lemma list_set_Some [panic_simps]:
  "list_set xs i v = Some ys \<longleftrightarrow> i < length xs \<and> ys = xs[i := v]"
  by (auto simp: list_set_def)

lemma list_get_in [simp]: "i < length xs \<Longrightarrow> list_get xs i = Some (xs ! i)"
  by (simp add: list_get_def)

lemma list_set_in [simp]: "i < length xs \<Longrightarrow> list_set xs i v = Some (xs[i := v])"
  by (simp add: list_set_def)

subsection \<open>Chunks\<close>

text \<open>\<open>chunks_exact\<close>: the consecutive pieces of exactly \<open>n\<close> elements, the remainder dropped.
  (\<open>n = 0\<close> panics in Rust; no caller passes it, and the model gives no chunk.)\<close>

function chunks_exact :: "nat \<Rightarrow> 'a list \<Rightarrow> 'a list list" where
  "chunks_exact n xs = (if n = 0 \<or> length xs < n then [] else take n xs # chunks_exact n (drop n xs))"
  by pat_completeness auto
termination
  by (relation "measure (\<lambda>(n, xs). length xs)") auto

declare chunks_exact.simps [simp del]

lemma chunks_exact_short [simp]: "length xs < n \<Longrightarrow> chunks_exact n xs = []"
  by (simp add: chunks_exact.simps)

lemma chunks_exact_Cons: "0 < n \<Longrightarrow> n \<le> length xs \<Longrightarrow>
    chunks_exact n xs = take n xs # chunks_exact n (drop n xs)"
  by (subst chunks_exact.simps) simp

lemma chunks_exact_append: "0 < n \<Longrightarrow> length c = n \<Longrightarrow>
    chunks_exact n (c @ xs) = c # chunks_exact n xs"
  by (subst chunks_exact.simps) simp

lemma length_chunks_exact: "0 < n \<Longrightarrow> length (chunks_exact n xs) = length xs div n"
proof (induction n xs rule: chunks_exact.induct)
  case (1 n xs)
  show ?case
  proof (cases "length xs < n")
    case True
    then show ?thesis by simp
  next
    case False
    then have "length xs div n = Suc ((length xs - n) div n)"
      using 1 by (simp add: le_div_geq)
    then show ?thesis using False 1 by (simp add: chunks_exact_Cons)
  qed
qed

lemma chunks_exact_length: "c \<in> set (chunks_exact n xs) \<Longrightarrow> length c = n"
proof (induction n xs rule: chunks_exact.induct)
  case (1 n xs)
  then show ?case
    by (cases "n = 0 \<or> length xs < n") (auto simp: chunks_exact.simps [of n xs])
qed

lemma concat_chunks_exact: "0 < n \<Longrightarrow> concat (chunks_exact n xs) = take (length xs div n * n) xs"
proof (induction n xs rule: chunks_exact.induct)
  case (1 n xs)
  show ?case
  proof (cases "length xs < n")
    case True
    then show ?thesis by simp
  next
    case False
    then have d: "length xs div n = Suc ((length xs - n) div n)"
      using 1 by (simp add: le_div_geq)
    show ?thesis using False 1 d by (simp add: chunks_exact_Cons take_add)
  qed
qed

lemma chunks_exact_take: "0 < n \<Longrightarrow> chunks_exact n (take (length xs div n * n) xs) = chunks_exact n xs"
proof (induction n xs rule: chunks_exact.induct)
  case (1 n xs)
  show ?case
  proof (cases "length xs < n")
    case True
    then show ?thesis using 1 by (simp add: div_less)
  next
    case False
    then have d: "length xs div n = Suc ((length xs - n) div n)"
      using 1 by (simp add: le_div_geq)
    have "take (length xs div n * n) xs = take n xs @ take ((length xs - n) div n * n) (drop n xs)"
      using d by (simp add: take_add)
    then show ?thesis using False 1
      by (simp add: chunks_exact_Cons chunks_exact_append)
  qed
qed

lemma chunks_exact_append_multiple:
  "0 < n \<Longrightarrow> n dvd length xs \<Longrightarrow> chunks_exact n (xs @ ys) = chunks_exact n xs @ chunks_exact n ys"
proof (induction n xs rule: chunks_exact.induct)
  case (1 n xs)
  show ?case
  proof (cases "length xs < n")
    case True
    then have "xs = []" using 1 by (metis dvd_imp_le leD length_greater_0_conv)
    then show ?thesis using 1 by simp
  next
    case False
    then have "n dvd length (drop n xs)" using 1 by (simp add: dvd_minus_self)
    then show ?thesis using False 1 by (simp add: chunks_exact_Cons)
  qed
qed

lemma length_take_blocks: "k \<le> length xs div n \<Longrightarrow> length (take (k * n) xs) = k * n"
  by (simp add: min_def) (metis div_times_less_eq_dividend le_antisym le_trans mult_le_mono1)

lemma chunks_exact_take_blocks:
  assumes n: "0 < n" and k: "k \<le> length xs div n"
  shows "chunks_exact n (take (k * n) xs) = take k (chunks_exact n xs)"
proof -
  have len: "length (take (k * n) xs) = k * n" by (rule length_take_blocks [OF k])
  have "chunks_exact n (take (k * n) xs @ drop (k * n) xs) =
      chunks_exact n (take (k * n) xs) @ chunks_exact n (drop (k * n) xs)"
    using n len by (intro chunks_exact_append_multiple) simp_all
  then have "take k (chunks_exact n xs) =
      take k (chunks_exact n (take (k * n) xs) @ chunks_exact n (drop (k * n) xs))" by simp
  also have "\<dots> = chunks_exact n (take (k * n) xs)"
    using n len length_chunks_exact [OF n, of "take (k * n) xs"] by simp
  finally show ?thesis by simp
qed

lemma chunks_exact_nth:
  "0 < n \<Longrightarrow> i < length xs div n \<Longrightarrow> chunks_exact n xs ! i = take n (drop (i * n) xs)"
proof (induction i arbitrary: xs)
  case 0
  then have "n \<le> length xs" by (metis div_less less_irrefl not_le)
  then show ?case using 0 by (simp add: chunks_exact_Cons)
next
  case (Suc i)
  then have le: "n \<le> length xs" by (metis div_less less_nat_zero_code not_le)
  then have "i < length (drop n xs) div n"
    using Suc.prems by (simp add: le_div_geq)
  then show ?case using Suc le by (simp add: chunks_exact_Cons add.commute)
qed

text \<open>\<open>chunks\<close>: as \<open>chunks_exact\<close>, with the remainder as a last, shorter piece.\<close>

function chunks :: "nat \<Rightarrow> 'a list \<Rightarrow> 'a list list" where
  "chunks n xs = (if n = 0 \<or> xs = [] then [] else take n xs # chunks n (drop n xs))"
  by pat_completeness auto
termination
  by (relation "measure (\<lambda>(n, xs). length xs)") auto

declare chunks.simps [simp del]

lemma concat_chunks: "0 < n \<Longrightarrow> concat (chunks n xs) = xs"
  by (induction n xs rule: chunks.induct) (subst chunks.simps, simp)

subsection \<open>The end of a list\<close>

text \<open>\<open>slice::last\<close>.\<close>

definition last_opt :: "'a list \<Rightarrow> 'a option" where
  "last_opt xs = (if xs = [] then None else Some (last xs))"

lemma last_opt_simps [simp]: "last_opt [] = None" "last_opt (xs @ [x]) = Some x"
  by (simp_all add: last_opt_def)

lemma last_opt_nth: "last_opt xs = (if xs = [] then None else Some (xs ! (length xs - 1)))"
  by (simp add: last_opt_def last_conv_nth)

definition mul_usize :: "nat \<Rightarrow> nat \<Rightarrow> nat option" where
  "mul_usize a b = (if a * b \<le> usize_max then Some (a * b) else None)"

lemma mul_usize_Some [panic_simps]:
  "mul_usize a b = Some c \<longleftrightarrow> c = a * b \<and> a * b \<le> usize_max"
  by (auto simp: mul_usize_def)

subsection \<open>Iteration with a step that may panic\<close>

fun opt_map :: "('a \<Rightarrow> 'b option) \<Rightarrow> 'a list \<Rightarrow> 'b list option" where
  "opt_map f [] = Some []"
| "opt_map f (x # xs) = do { y \<leftarrow> f x; ys \<leftarrow> opt_map f xs; Some (y # ys) }"

lemma opt_map_Some: "(\<And>x. x \<in> set xs \<Longrightarrow> f x = Some (g x)) \<Longrightarrow> opt_map f xs = Some (map g xs)"
  by (induction xs) simp_all

subsection \<open>Iterators\<close>

text \<open>\<open>Iterator::min_by_key\<close>: the first element whose key is least.\<close>

fun min_by_key :: "('a \<Rightarrow> nat) \<Rightarrow> 'a list \<Rightarrow> 'a option" where
  "min_by_key f [] = None"
| "min_by_key f (x # xs) =
     (case min_by_key f xs of
        None \<Rightarrow> Some x
      | Some y \<Rightarrow> if f y < f x then Some y else Some x)"

lemma min_by_key_None [simp]: "min_by_key f xs = None \<longleftrightarrow> xs = []"
  by (cases xs) (auto split: option.splits)

lemma min_by_key_in: "min_by_key f xs = Some x \<Longrightarrow> x \<in> set xs"
  by (induction xs arbitrary: x) (auto split: option.splits if_splits)

lemma min_by_key_le: "min_by_key f xs = Some x \<Longrightarrow> y \<in> set xs \<Longrightarrow> f x \<le> f y"
  by (induction xs arbitrary: x y) (fastforce split: option.splits if_splits)+

text \<open>\<open>Iterator::find_map\<close>.\<close>

fun find_map :: "('a \<Rightarrow> 'b option) \<Rightarrow> 'a list \<Rightarrow> 'b option" where
  "find_map f [] = None"
| "find_map f (x # xs) = (case f x of Some y \<Rightarrow> Some y | None \<Rightarrow> find_map f xs)"

section \<open>Powers of two\<close>

text \<open>\<open>count_ones\<close> and \<open>is_power_of_two\<close>.\<close>

fun count_ones :: "nat \<Rightarrow> nat" where
  "count_ones n = (if n = 0 then 0 else n mod 2 + count_ones (n div 2))"

declare count_ones.simps [simp del]

definition is_power_of_two :: "nat \<Rightarrow> bool" where
  "is_power_of_two n \<longleftrightarrow> count_ones n = 1"

lemma count_ones_0 [simp]: "count_ones 0 = 0"
  by (simp add: count_ones.simps)

lemma count_ones_double [simp]: "count_ones (2 * n) = count_ones n"
  by (cases "n = 0") (simp_all add: count_ones.simps [of "2 * n"])

lemma count_ones_zero_iff: "count_ones n = 0 \<longleftrightarrow> n = 0"
proof (induction n rule: count_ones.induct)
  case (1 n)
  show ?case
  proof (cases "n = 0")
    case False
    then have "n mod 2 = 0 \<and> n div 2 = 0 \<longleftrightarrow> False" by presburger
    then show ?thesis using 1 False by (simp add: count_ones.simps [of n])
  qed simp
qed

lemma is_power_of_two_iff: "is_power_of_two n \<longleftrightarrow> (\<exists>k. n = 2 ^ k)"
proof
  show "is_power_of_two n \<Longrightarrow> \<exists>k. n = 2 ^ k"
  proof (induction n rule: count_ones.induct)
    case (1 n)
    have n: "n \<noteq> 0" using 1(2) by (intro notI) (simp add: is_power_of_two_def)
    show ?case
    proof (cases "even n")
      case True
      then have "n = 2 * (n div 2)" by simp
      moreover have "is_power_of_two (n div 2)"
        using 1 True n by (simp add: is_power_of_two_def count_ones.simps [of n] even_iff_mod_2_eq_zero)
      then obtain k where "n div 2 = 2 ^ k" using 1 n by blast
      ultimately show ?thesis by (metis power_Suc)
    next
      case False
      then have "count_ones (n div 2) = 0"
        using 1 n by (simp add: is_power_of_two_def count_ones.simps [of n] odd_iff_mod_2_eq_one)
      then have "n div 2 = 0" by (simp add: count_ones_zero_iff)
      then have "n = 2 ^ 0" using n by simp
      then show ?thesis by blast
    qed
  qed
next
  assume "\<exists>k. n = 2 ^ k"
  then obtain k where "n = 2 ^ k" by blast
  moreover have "count_ones (2 ^ k) = 1"
    by (induction k) (simp_all add: count_ones.simps [of "Suc 0"])
  ultimately show "is_power_of_two n" by (simp add: is_power_of_two_def)
qed

end
