(* ===== verification/FreeQueue.thy ===== *)
theory FreeQueue
  imports Prelude
begin

text \<open>
  \<open>crates/core/engine/src/blocks/free_queue.rs\<close>: the intrusive doubly linked list of free KV
  blocks. The links are arrays indexed by block; \<open>fq_rep q n xs\<close> says that the arrays of \<open>q\<close>
  describe the list \<open>xs\<close> of blocks below \<open>n\<close>. The locale \<open>free_list\<close> is the interface the block
  pool relies on, interpreted here on the linked list.
\<close>

section \<open>The linked list\<close>

definition NIL :: nat where
  "NIL = u32_max"

record free_queue =
  fq_prev :: "nat list"
  fq_next :: "nat list"
  fq_queued :: "bool list"
  fq_head :: nat
  fq_tail :: nat
  fq_len :: nat

definition fq_contains :: "free_queue \<Rightarrow> nat \<Rightarrow> bool option" where
  "fq_contains q block = list_get (fq_queued q) block"

text \<open>Pushing a block that is queued already is the \<open>debug_assert\<close>.\<close>

definition fq_push_back :: "free_queue \<Rightarrow> nat \<Rightarrow> free_queue option" where
  "fq_push_back q block = do {
     present \<leftarrow> fq_contains q block;
     if present then None else do {
     prev \<leftarrow> list_set (fq_prev q) block (fq_tail q);
     next0 \<leftarrow> list_set (fq_next q) block NIL;
     (head, next1) \<leftarrow>
       (if fq_tail q = NIL then Some (block, next0)
        else map_option (Pair (fq_head q)) (list_set next0 (fq_tail q) block));
     queued \<leftarrow> list_set (fq_queued q) block True;
     Some (q\<lparr>fq_prev := prev, fq_next := next1, fq_queued := queued, fq_head := head,
             fq_tail := block, fq_len := fq_len q + 1\<rparr>) }
   }"

definition fq_push_front :: "free_queue \<Rightarrow> nat \<Rightarrow> free_queue option" where
  "fq_push_front q block = do {
     present \<leftarrow> fq_contains q block;
     if present then None else do {
     prev0 \<leftarrow> list_set (fq_prev q) block NIL;
     next \<leftarrow> list_set (fq_next q) block (fq_head q);
     (tail, prev1) \<leftarrow>
       (if fq_head q = NIL then Some (block, prev0)
        else map_option (Pair (fq_tail q)) (list_set prev0 (fq_head q) block));
     queued \<leftarrow> list_set (fq_queued q) block True;
     Some (q\<lparr>fq_prev := prev1, fq_next := next, fq_queued := queued, fq_head := block,
             fq_tail := tail, fq_len := fq_len q + 1\<rparr>) }
   }"

text \<open>\<open>remove\<close>: a block that is not queued is left alone.\<close>

definition fq_remove :: "free_queue \<Rightarrow> nat \<Rightarrow> free_queue option" where
  "fq_remove q block = do {
     is_queued \<leftarrow> list_get (fq_queued q) block;
     if \<not> is_queued then Some q
     else do {
       prev \<leftarrow> list_get (fq_prev q) block;
       next \<leftarrow> list_get (fq_next q) block;
       (head, next0) \<leftarrow>
         (if prev = NIL then Some (next, fq_next q)
          else map_option (Pair (fq_head q)) (list_set (fq_next q) prev next));
       (tail, prev0) \<leftarrow>
         (if next = NIL then Some (prev, fq_prev q)
          else map_option (Pair (fq_tail q)) (list_set (fq_prev q) next prev));
       prev1 \<leftarrow> list_set prev0 block NIL;
       next1 \<leftarrow> list_set next0 block NIL;
       queued \<leftarrow> list_set (fq_queued q) block False;
       len \<leftarrow> checked_sub (fq_len q) 1;
       Some \<lparr>fq_prev = prev1, fq_next = next1, fq_queued = queued, fq_head = head,
             fq_tail = tail, fq_len = len\<rparr>
     }
   }"

definition fq_pop_front :: "free_queue \<Rightarrow> (nat option \<times> free_queue) option" where
  "fq_pop_front q =
     (if fq_head q = NIL then Some (None, q)
      else map_option (\<lambda>q'. (Some (fq_head q), q')) (fq_remove q (fq_head q)))"

text \<open>\<open>FreeQueue::full\<close>: blocks \<open>0..blocks\<close> pushed in index order.\<close>

definition fq_empty :: "nat \<Rightarrow> free_queue" where
  "fq_empty blocks = \<lparr>fq_prev = replicate blocks NIL, fq_next = replicate blocks NIL,
     fq_queued = replicate blocks False, fq_head = NIL, fq_tail = NIL, fq_len = 0\<rparr>"

fun fq_push_all :: "free_queue \<Rightarrow> nat list \<Rightarrow> free_queue option" where
  "fq_push_all q [] = Some q"
| "fq_push_all q (b # bs) = fq_push_back q b \<bind> (\<lambda>q'. fq_push_all q' bs)"

definition fq_full :: "nat \<Rightarrow> free_queue option" where
  "fq_full blocks = fq_push_all (fq_empty blocks) [0..<blocks]"

text \<open>\<open>iter\<close> (compiled for tests): the blocks from the front; a walk around a cycle would be \<open>None\<close>.\<close>

partial_function (option) fq_walk :: "nat list \<Rightarrow> nat \<Rightarrow> nat list option" where
  "fq_walk next cursor =
     (if cursor = NIL then Some []
      else do { c \<leftarrow> list_get next cursor; rest \<leftarrow> fq_walk next c; Some (cursor # rest) })"

definition fq_iter :: "free_queue \<Rightarrow> nat list option" where
  "fq_iter q = fq_walk (fq_next q) (fq_head q)"

section \<open>Neighbours in a list\<close>

text \<open>\<open>after xs x\<close> is the element behind \<open>x\<close>, and \<open>NIL\<close> for the last one and for strangers.\<close>

fun after :: "nat list \<Rightarrow> nat \<Rightarrow> nat" where
  "after [] x = NIL"
| "after [y] x = NIL"
| "after (y # z # ys) x = (if x = y then z else after (z # ys) x)"

definition first :: "nat list \<Rightarrow> nat" where
  "first xs = (case xs of [] \<Rightarrow> NIL | x # _ \<Rightarrow> x)"

lemma first_simps [simp]: "first [] = NIL" "first (x # xs) = x"
  by (simp_all add: first_def)

lemma first_append [simp]: "first (xs @ ys) = (if xs = [] then first ys else first xs)"
  by (cases xs) simp_all

lemma after_notin [simp]: "x \<notin> set xs \<Longrightarrow> after xs x = NIL"
  by (induction xs x rule: after.induct) auto

lemma after_Cons: "after (y # xs) x = (if x = y then first xs else after xs x)" if "y \<notin> set xs"
  using that by (cases xs) auto

lemma after_snoc: "y \<notin> set xs \<Longrightarrow> distinct xs \<Longrightarrow>
    after (xs @ [y]) x = (if xs \<noteq> [] \<and> x = first (rev xs) then y else after xs x)"
proof (induction xs)
  case Nil
  then show ?case by simp
next
  case (Cons z zs)
  have z: "z \<notin> set (zs @ [y])" "z \<notin> set zs" using Cons.prems by auto
  have lst: "zs \<noteq> [] \<Longrightarrow> first (rev zs) \<in> set zs"
    by (cases zs rule: rev_cases) auto
  show ?case using Cons z lst
    by (cases "zs = []") (auto simp: after_Cons)
qed

lemma after_in: "after xs x \<noteq> NIL \<Longrightarrow> after xs x \<in> set xs"
  by (induction xs x rule: after.induct) (auto split: if_splits)

lemma after_not_self: "distinct xs \<Longrightarrow> NIL \<notin> set xs \<Longrightarrow> x \<in> set xs \<Longrightarrow> after xs x \<noteq> x"
  by (induction xs x rule: after.induct) (auto split: if_splits dest: after_in)

lemma first_in: "xs \<noteq> [] \<Longrightarrow> first xs \<in> set xs"
  by (cases xs) auto

lemma first_NIL_iff: "NIL \<notin> set xs \<Longrightarrow> first xs = NIL \<longleftrightarrow> xs = []"
  by (cases xs) auto

lemma after_remove1:
  assumes "distinct xs" "NIL \<notin> set xs" "b \<in> set xs"
  shows "after (remove1 b xs) x = (if x = b then NIL else if after xs x = b then after xs b else after xs x)"
  using assms
proof (induction xs)
  case Nil
  then show ?case by simp
next
  case (Cons y ys)
  have y: "y \<notin> set ys" "y \<notin> set (remove1 b ys)"
    using Cons.prems by (auto dest: notin_set_remove1)
  show ?case
  proof (cases "y = b")
    case True
    have "after ys x \<noteq> b"
      using True y Cons.prems(2) after_in [of ys x] by (cases "x \<in> set ys") auto
    then show ?thesis using True y by (auto simp: after_Cons)
  next
    case False
    then have IH: "after (remove1 b ys) x =
        (if x = b then NIL else if after ys x = b then after ys b else after ys x)"
      and b: "b \<in> set ys"
      using Cons by auto
    have fr: "first (remove1 b ys) = (if first ys = b then after ys b else first ys)"
      using b Cons.prems by (cases ys) (auto simp: after_Cons)
    show ?thesis using False y IH fr by (auto simp: after_Cons)
  qed
qed

lemma after_rev: "distinct xs \<Longrightarrow> NIL \<notin> set xs \<Longrightarrow> x \<in> set xs \<Longrightarrow> y \<in> set xs \<Longrightarrow>
    after (rev xs) x = y \<longleftrightarrow> after xs y = x"
proof (induction xs)
  case Nil
  then show ?case by simp
next
  case (Cons z zs)
  have z: "z \<notin> set zs" "z \<notin> set (rev zs)" and d: "distinct (rev zs)" using Cons.prems by auto
  have f: "first zs = NIL \<or> first zs \<in> set zs" by (cases zs) auto
  show ?case
  proof (cases "zs = []")
    case True
    then show ?thesis using Cons.prems by auto
  next
    case False
    have snoc: "after (rev zs @ [z]) x = (if x = first zs then z else after (rev zs) x)"
      using after_snoc [OF z(2) d, of x] False by simp
    have cons: "after (z # zs) y = (if y = z then first zs else after zs y)"
      using after_Cons [OF z(1)] by simp
    have in_zs: "after zs y \<noteq> z" using after_in [of zs y] z Cons.prems by auto
    have in_rev: "after (rev zs) x \<noteq> z" using after_in [of "rev zs" x] z Cons.prems by auto
    show ?thesis
    proof (cases "x = z \<or> y = z")
      case True
      have "z \<noteq> NIL" using Cons.prems by auto
      moreover have "first zs \<noteq> z" using first_in [OF False] z(1) by auto
      ultimately show ?thesis using True snoc cons in_zs in_rev Cons.prems z
        by (auto split: if_splits)
    next
      case ne: False
      then have mem: "x \<in> set zs" "y \<in> set zs" using Cons.prems by auto
      have IH: "after (rev zs) x = y \<longleftrightarrow> after zs y = x"
        using Cons mem by auto
      show ?thesis
      proof (cases "x = first zs")
        case True
        have "after zs y \<noteq> first zs"
        proof -
          obtain w ws where w: "zs = w # ws" using False by (cases zs) auto
          have "after ws y \<noteq> w" using after_in [of ws y] w Cons.prems by auto
          moreover have "first ws \<noteq> w" using w Cons.prems by (cases ws) auto
          ultimately show ?thesis using w Cons.prems by (simp add: after_Cons)
        qed
        then show ?thesis using True ne snoc cons mem by simp
      next
        case False
        then show ?thesis using ne snoc cons IH by simp
      qed
    qed
  qed
qed

section \<open>What the arrays represent\<close>

definition fq_rep :: "free_queue \<Rightarrow> nat \<Rightarrow> nat list \<Rightarrow> bool" where
  "fq_rep q n xs \<longleftrightarrow>
     n \<le> u32_max \<and> distinct xs \<and> set xs \<subseteq> {..<n} \<and>
     length (fq_prev q) = n \<and> length (fq_next q) = n \<and> length (fq_queued q) = n \<and>
     fq_head q = first xs \<and> fq_tail q = first (rev xs) \<and> fq_len q = length xs \<and>
     (\<forall>b<n. fq_queued q ! b = (b \<in> set xs) \<and> fq_next q ! b = after xs b \<and>
            fq_prev q ! b = after (rev xs) b)"

lemma fq_rep_NIL: "fq_rep q n xs \<Longrightarrow> NIL \<notin> set xs"
  by (auto simp: fq_rep_def NIL_def)

lemma fq_rep_first: "fq_rep q n xs \<Longrightarrow> xs \<noteq> [] \<Longrightarrow> first xs < n \<and> first (rev xs) < n"
  using first_in [of xs] first_in [of "rev xs"] by (auto simp: fq_rep_def)

lemma fq_push_back_rep:
  assumes rep: "fq_rep q n xs" and b: "b < n" "b \<notin> set xs"
  shows "\<exists>q'. fq_push_back q b = Some q' \<and> fq_rep q' n (xs @ [b])"
proof -
  have d: "distinct xs" using rep by (simp add: fq_rep_def)
  have tail: "fq_tail q = NIL \<longleftrightarrow> xs = []"
    using rep first_NIL_iff [of "rev xs"] fq_rep_NIL [OF rep] by (simp add: fq_rep_def)
  show ?thesis
  proof (cases "xs = []")
    case True
    then show ?thesis using rep b tail
      by (auto simp: fq_push_back_def fq_contains_def fq_rep_def nth_list_update NIL_def)
  next
    case False
    note fl = fq_rep_first [OF rep False]
    have aft: "after (xs @ [b]) x = (if x = first (rev xs) then b else after xs x)" for x
      using after_snoc [OF b(2) d] False by simp
    have bef: "after (b # rev xs) x = (if x = b then first (rev xs) else after (rev xs) x)" for x
      using b(2) by (simp add: after_Cons)
    have ne: "first (rev xs) \<noteq> b" using first_in [of "rev xs"] False b(2) by auto
    show ?thesis using rep b tail False fl ne
      by (auto simp: fq_push_back_def fq_contains_def fq_rep_def nth_list_update aft bef)
  qed
qed

lemma fq_push_front_rep:
  assumes rep: "fq_rep q n xs" and b: "b < n" "b \<notin> set xs"
  shows "\<exists>q'. fq_push_front q b = Some q' \<and> fq_rep q' n (b # xs)"
proof -
  have d: "distinct (rev xs)" "b \<notin> set (rev xs)" using rep b by (simp_all add: fq_rep_def)
  have head: "fq_head q = NIL \<longleftrightarrow> xs = []"
    using rep first_NIL_iff [of xs] fq_rep_NIL [OF rep] by (simp add: fq_rep_def)
  show ?thesis
  proof (cases "xs = []")
    case True
    then show ?thesis using rep b head
      by (auto simp: fq_push_front_def fq_contains_def fq_rep_def nth_list_update NIL_def)
  next
    case False
    note fl = fq_rep_first [OF rep False]
    have aft: "after (b # xs) x = (if x = b then first xs else after xs x)" for x
      using b(2) by (simp add: after_Cons)
    have bef: "after (rev xs @ [b]) x = (if x = first xs then b else after (rev xs) x)" for x
      using after_snoc [OF d(2) d(1)] False by simp
    have ne: "first xs \<noteq> b" using first_in [OF False] b(2) by auto
    show ?thesis using rep b head False fl ne
      by (auto simp: fq_push_front_def fq_contains_def fq_rep_def nth_list_update aft bef)
  qed
qed

lemma after_removeAll:
  assumes "distinct xs" "NIL \<notin> set xs" "b \<in> set xs"
  shows "after (removeAll b xs) x =
    (if x = b then NIL else if after xs x = b then after xs b else after xs x)"
  using after_remove1 [OF assms] assms(1) by (simp add: distinct_remove1_removeAll)

lemma first_removeAll:
  assumes "distinct xs" "b \<in> set xs"
  shows "first (removeAll b xs) = (if first xs = b then after xs b else first xs)"
  using assms by (cases xs) (auto simp: after_Cons)

lemma after_eq_NIL_iff:
  assumes "distinct xs" "NIL \<notin> set xs" "b \<in> set xs"
  shows "after xs b = NIL \<longleftrightarrow> first (rev xs) = b"
  using assms
proof (induction xs)
  case Nil
  then show ?case by simp
next
  case (Cons y ys)
  then show ?case
    using first_in [of "rev ys"] by (cases "ys = []") (auto simp: after_Cons first_NIL_iff)
qed

lemma fq_remove_rep:
  assumes rep: "fq_rep q n xs" and b: "b < n"
  shows "\<exists>q'. fq_remove q b = Some q' \<and> fq_rep q' n (removeAll b xs)"
proof (cases "b \<in> set xs")
  case False
  then show ?thesis using rep b by (auto simp: fq_remove_def fq_rep_def)
next
  case True
  have d: "distinct xs" "distinct (rev xs)" and nil: "NIL \<notin> set xs" "NIL \<notin> set (rev xs)"
    and br: "b \<in> set (rev xs)"
    using rep fq_rep_NIL [OF rep] True by (simp_all add: fq_rep_def)
  have q: "fq_queued q ! b" "fq_next q ! b = after xs b" "fq_prev q ! b = after (rev xs) b"
    using rep b True by (simp_all add: fq_rep_def)
  have rg: "after xs b = NIL \<or> after xs b < n" "after (rev xs) b = NIL \<or> after (rev xs) b < n"
    using after_in [of xs b] after_in [of "rev xs" b] rep by (auto simp: fq_rep_def)
  have len: "1 \<le> fq_len q" using rep True by (cases xs) (auto simp: fq_rep_def)
  have rv: "rev (removeAll b xs) = removeAll b (rev xs)" by (simp add: removeAll_filter_not_eq rev_filter)
  note an = after_removeAll [OF d(1) nil(1) True] and ap = after_removeAll [OF d(2) nil(2) br]
  note fh = first_removeAll [OF d(1) True] and ft = first_removeAll [OF d(2) br]
  have e1: "after xs b = NIL \<longleftrightarrow> first (rev xs) = b" by (rule after_eq_NIL_iff [OF d(1) nil(1) True])
  have e2: "after (rev xs) b = NIL \<longleftrightarrow> first xs = b"
    using after_eq_NIL_iff [OF d(2) nil(2) br] by simp
  have s1: "after xs x = b \<longleftrightarrow> after (rev xs) b = x" if "after (rev xs) b \<noteq> NIL \<or> x \<in> set xs" for x
  proof (cases "x \<in> set xs")
    case x: True
    show ?thesis using after_rev [OF d(1) nil(1) True x] by blast
  next
    case x: False
    then have "after xs x \<noteq> b" using nil True by auto
    moreover have "after (rev xs) b \<noteq> x" using that x after_in [of "rev xs" b] by auto
    ultimately show ?thesis by blast
  qed
  have s2: "after (rev xs) x = b \<longleftrightarrow> after xs b = x" if "after xs b \<noteq> NIL \<or> x \<in> set xs" for x
  proof (cases "x \<in> set xs")
    case x: True
    show ?thesis using after_rev [OF d(1) nil(1) x True] by blast
  next
    case x: False
    then have "after (rev xs) x \<noteq> b" using nil True by auto
    moreover have "after xs b \<noteq> x" using that x after_in [of xs b] by auto
    ultimately show ?thesis by blast
  qed
  have t1: "after xs x \<noteq> b" if "after (rev xs) b = NIL" for x
    using s1 [of x] that nil True by (cases "x \<in> set xs") auto
  have t2: "after (rev xs) x \<noteq> b" if "after xs b = NIL" for x
    using s2 [of x] that nil True by (cases "x \<in> set xs") auto
  have lr: "length (removeAll b xs) = length xs - 1"
    using d(1) True by (simp add: distinct_remove1_removeAll [symmetric] length_remove1)
  have sr: "set (removeAll b xs) = set xs - {b}" by simp
  define hd' where "hd' = (if after (rev xs) b = NIL then (after xs b, fq_next q)
     else (fq_head q, (fq_next q)[after (rev xs) b := after xs b]))"
  define tl' where "tl' = (if after xs b = NIL then (after (rev xs) b, fq_prev q)
     else (fq_tail q, (fq_prev q)[after xs b := after (rev xs) b]))"
  have res: "fq_remove q b = Some \<lparr>fq_prev = (snd tl')[b := NIL], fq_next = (snd hd')[b := NIL],
      fq_queued = (fq_queued q)[b := False], fq_head = fst hd', fq_tail = fst tl',
      fq_len = fq_len q - 1\<rparr>"
    using q b rep rg len
    by (auto simp: fq_remove_def fq_rep_def hd'_def tl'_def checked_sub_def)
  have nx: "(snd hd')[b := NIL] ! c = after (removeAll b xs) c" if "c < n" for c
    using that rep rg b s1 t1
    by (auto simp: an hd'_def nth_list_update fq_rep_def)
  have pv: "(snd tl')[b := NIL] ! c = after (removeAll b (rev xs)) c" if "c < n" for c
    using that rep rg b s2 t2
    by (auto simp: ap tl'_def nth_list_update fq_rep_def)
  have ends: "fst hd' = first (removeAll b xs)" "fst tl' = first (removeAll b (rev xs))"
    using rep e1 e2 by (auto simp: hd'_def tl'_def fh ft fq_rep_def)
  show ?thesis
    unfolding res using rep nx pv ends b True
    by (auto simp: fq_rep_def rv lr nth_list_update hd'_def tl'_def distinct_removeAll)
qed

lemma fq_pop_front_rep:
  assumes rep: "fq_rep q n xs"
  shows "\<exists>q'. fq_pop_front q = Some ((case xs of [] \<Rightarrow> None | b # _ \<Rightarrow> Some b), q') \<and> fq_rep q' n (tl xs)"
proof (cases xs)
  case Nil
  then show ?thesis using rep by (auto simp: fq_pop_front_def fq_rep_def)
next
  case (Cons b bs)
  have "b < n" "b \<notin> set bs" "fq_head q = b" "b \<noteq> NIL"
    using rep fq_rep_NIL [OF rep] Cons by (auto simp: fq_rep_def)
  then show ?thesis
    using fq_remove_rep [OF rep, of b] Cons by (auto simp: fq_pop_front_def)
qed

lemma fq_empty_rep: "n \<le> u32_max \<Longrightarrow> fq_rep (fq_empty n) n []"
  by (simp add: fq_empty_def fq_rep_def)

lemma fq_push_all_rep:
  "fq_rep q n xs \<Longrightarrow> set bs \<subseteq> {..<n} \<Longrightarrow> distinct (xs @ bs) \<Longrightarrow>
    \<exists>q'. fq_push_all q bs = Some q' \<and> fq_rep q' n (xs @ bs)"
proof (induction bs arbitrary: q xs)
  case Nil
  then show ?case by simp
next
  case (Cons b bs)
  then obtain q1 where q1: "fq_push_back q b = Some q1" "fq_rep q1 n (xs @ [b])"
    using fq_push_back_rep [of q n xs b] by auto
  then show ?case using Cons.IH [OF q1(2)] Cons.prems by auto
qed

lemma fq_full_rep: "n \<le> u32_max \<Longrightarrow> \<exists>q. fq_full n = Some q \<and> fq_rep q n [0..<n]"
  using fq_push_all_rep [OF fq_empty_rep, of n "[0..<n]"] by (auto simp: fq_full_def atLeast0LessThan)

lemma fq_walk_after:
  assumes "distinct (ys @ xs)" "NIL \<notin> set (ys @ xs)" "set (ys @ xs) \<subseteq> {..<length next}"
    and "\<And>b. b < length next \<Longrightarrow> next ! b = after (ys @ xs) b"
  shows "fq_walk next (first xs) = Some xs"
  using assms
proof (induction xs arbitrary: ys)
  case Nil
  then show ?case by (simp add: fq_walk.simps)
next
  case (Cons x xs)
  have "after (ys @ x # xs) x = first xs"
    using Cons.prems(1) by (induction ys) (auto simp: after_Cons)
  then have "next ! x = first xs" "x < length next" "x \<noteq> NIL"
    using Cons.prems(2-4) by auto
  moreover have "fq_walk next (first xs) = Some xs"
    using Cons.IH [of "ys @ [x]"] Cons.prems by simp
  ultimately show ?case by (subst fq_walk.simps) simp
qed

lemma fq_rep_iter:
  assumes rep: "fq_rep q n xs"
  shows "fq_iter q = Some xs"
  using rep fq_rep_NIL [OF rep] fq_walk_after [of "[]" xs "fq_next q"] by (auto simp: fq_iter_def fq_rep_def)

section \<open>The interface the pool relies on\<close>

text \<open>
  A list of free blocks below \<open>n\<close> without repetition. The laws are the ones the pool uses: what a
  push, a pop and a removal do to the list, and that they do not panic.
\<close>

locale free_list =
  fixes rep :: "'q \<Rightarrow> nat \<Rightarrow> nat list \<Rightarrow> bool"
    and push_back push_front remove :: "'q \<Rightarrow> nat \<Rightarrow> 'q option"
    and pop_front :: "'q \<Rightarrow> (nat option \<times> 'q) option"
    and len :: "'q \<Rightarrow> nat"
  assumes rep_distinct: "rep q n xs \<Longrightarrow> distinct xs"
    and rep_bound: "rep q n xs \<Longrightarrow> set xs \<subseteq> {..<n}"
    and rep_len: "rep q n xs \<Longrightarrow> len q = length xs"
    and rep_unique: "rep q n xs \<Longrightarrow> rep q n ys \<Longrightarrow> xs = ys"
    and push_back_law: "rep q n xs \<Longrightarrow> b < n \<Longrightarrow> b \<notin> set xs \<Longrightarrow>
      \<exists>q'. push_back q b = Some q' \<and> rep q' n (xs @ [b])"
    and push_front_law: "rep q n xs \<Longrightarrow> b < n \<Longrightarrow> b \<notin> set xs \<Longrightarrow>
      \<exists>q'. push_front q b = Some q' \<and> rep q' n (b # xs)"
    and remove_law: "rep q n xs \<Longrightarrow> b < n \<Longrightarrow> \<exists>q'. remove q b = Some q' \<and> rep q' n (removeAll b xs)"
    and pop_front_law: "rep q n xs \<Longrightarrow>
      \<exists>q'. pop_front q = Some ((case xs of [] \<Rightarrow> None | b # _ \<Rightarrow> Some b), q') \<and> rep q' n (tl xs)"
begin

lemma pop_front_Cons:
  assumes "rep q n (b # xs)"
  shows "\<exists>q'. pop_front q = Some (Some b, q') \<and> rep q' n xs"
  using pop_front_law [OF assms] by auto

lemma pop_front_Nil:
  assumes "rep q n []"
  shows "\<exists>q'. pop_front q = Some (None, q') \<and> rep q' n []"
  using pop_front_law [OF assms] by auto

lemma len_bound: "rep q n xs \<Longrightarrow> len q \<le> n"
  using card_mono [of "{..<n}" "set xs"]
  by (simp add: rep_len distinct_card [OF rep_distinct, symmetric] rep_bound)

lemma len_zero: "rep q n xs \<Longrightarrow> len q = 0 \<longleftrightarrow> xs = []"
  by (simp add: rep_len)

text \<open>A block pushed to the back is handed out after every block already queued, one pushed to
  the front next.\<close>

lemma push_front_then_pop:
  assumes "rep q n xs" "b < n" "b \<notin> set xs"
  shows "\<exists>q' q''. push_front q b = Some q' \<and> pop_front q' = Some (Some b, q'') \<and> rep q'' n xs"
  using push_front_law [OF assms] pop_front_Cons by blast

lemma push_back_then_remove:
  assumes "rep q n xs" "b < n" "b \<notin> set xs"
  shows "\<exists>q' q''. push_back q b = Some q' \<and> remove q' b = Some q'' \<and> rep q'' n xs"
proof -
  obtain q' where q': "push_back q b = Some q'" "rep q' n (xs @ [b])"
    using push_back_law [OF assms] by blast
  moreover obtain q'' where "remove q' b = Some q''" "rep q'' n (removeAll b (xs @ [b]))"
    using remove_law [OF q'(2) assms(2)] by blast
  ultimately show ?thesis using assms(3) by auto
qed

end

interpretation fq: free_list fq_rep fq_push_back fq_push_front fq_remove fq_pop_front fq_len
proof (unfold_locales, goal_cases)
  case (4 q n xs ys)
  then show ?case using fq_rep_iter [of q n xs] fq_rep_iter [of q n ys] by simp
qed (fact fq_push_back_rep fq_push_front_rep fq_remove_rep fq_pop_front_rep | simp add: fq_rep_def)+

end
