(* ===== verification/Bytes.thy ===== *)
theory Bytes
  imports Prelude
begin

text \<open>
  Little-endian byte strings (\<open>to_le_bytes\<close>, \<open>from_le_bytes\<close>), ASCII literals and
  length-prefixed fields, with the lemmas that make encodings built from them injective.
\<close>

section \<open>Little-endian integers\<close>

text \<open>\<open>le_bytes k n\<close> is the \<open>k\<close>-byte little-endian form of \<open>n\<close> modulo \<open>256 ^ k\<close>.\<close>

fun le_bytes :: "nat \<Rightarrow> nat \<Rightarrow> byte list" where
  "le_bytes 0 n = []"
| "le_bytes (Suc k) n = word_of_nat (n mod 256) # le_bytes k (n div 256)"

fun le_nat :: "byte list \<Rightarrow> nat" where
  "le_nat [] = 0"
| "le_nat (b # bs) = unat b + 256 * le_nat bs"

definition u32_le :: "token \<Rightarrow> byte list" where
  "u32_le t = le_bytes 4 (unat t)"

definition u64_le :: "nat \<Rightarrow> byte list" where
  "u64_le n = le_bytes 8 n"

definition ascii :: "string \<Rightarrow> byte list" where
  "ascii s = map of_char s"

lemma length_le_bytes [simp]: "length (le_bytes k n) = k"
  by (induction k arbitrary: n) simp_all

lemma length_u32_le [simp]: "length (u32_le t) = 4"
  by (simp add: u32_le_def)

lemma length_u64_le [simp]: "length (u64_le n) = 8"
  by (simp add: u64_le_def)

lemma length_ascii [simp]: "length (ascii s) = length s"
  by (simp add: ascii_def)

lemma unat_byte: "unat (b :: byte) < 256"
  using unsigned_less [of b] by simp

lemma unat_token: "unat (t :: token) < 256 ^ 4"
  using unsigned_less [of t] by simp

lemma le_nat_le_bytes: "le_nat (le_bytes k n) = n mod 256 ^ k"
proof (induction k arbitrary: n)
  case 0
  then show ?case by simp
next
  case (Suc k)
  have "unat (word_of_nat (n mod 256) :: byte) = n mod 256"
    by (simp add: unat_of_nat)
  then show ?case using Suc [of "n div 256"]
    by (simp add: mod_mult2_eq ac_simps)
qed

lemma le_bytes_le_nat: "length bs = k \<Longrightarrow> le_bytes k (le_nat bs) = bs"
proof (induction bs arbitrary: k)
  case Nil
  then show ?case by simp
next
  case (Cons b bs)
  have b: "unat b < 256" by (rule unat_byte)
  then have "(unat b + 256 * le_nat bs) mod 256 = unat b" "(unat b + 256 * le_nat bs) div 256 = le_nat bs"
    by simp_all
  then show ?case using Cons by (cases k) simp_all
qed

lemma le_nat_bound: "le_nat bs < 256 ^ length bs"
proof (induction bs)
  case Nil
  then show ?case by simp
next
  case (Cons b bs)
  have "unat b < 256" by (rule unat_byte)
  then show ?case using Cons by simp
qed

lemma le_bytes_inj: "n < 256 ^ k \<Longrightarrow> m < 256 ^ k \<Longrightarrow> le_bytes k n = le_bytes k m \<longleftrightarrow> n = m"
  by (metis le_nat_le_bytes mod_less)

lemma le_nat_u64_le: "n \<le> u64_max \<Longrightarrow> le_nat (u64_le n) = n"
  by (simp add: u64_le_def le_nat_le_bytes u64_max_def)

lemma u64_le_le_nat: "length bs = 8 \<Longrightarrow> u64_le (le_nat bs) = bs"
  by (simp add: u64_le_def le_bytes_le_nat)

lemma u64_le_inj: "n \<le> u64_max \<Longrightarrow> m \<le> u64_max \<Longrightarrow> u64_le n = u64_le m \<longleftrightarrow> n = m"
  by (metis le_nat_u64_le)

lemma le_nat_u32_le: "word_of_nat (le_nat (u32_le t)) = t"
proof -
  show ?thesis using unat_token [of t] by (simp add: u32_le_def le_nat_le_bytes)
qed

lemma u32_le_inj: "u32_le s = u32_le t \<longleftrightarrow> s = t"
  by (metis le_nat_u32_le)

section \<open>Fields\<close>

text \<open>The bytes of a token run, and a byte field with its length in front.\<close>

definition tokens_le :: "token list \<Rightarrow> byte list" where
  "tokens_le ts = concat (map u32_le ts)"

definition field :: "byte list \<Rightarrow> byte list" where
  "field bs = u64_le (length bs) @ bs"

lemma length_tokens_le [simp]: "length (tokens_le ts) = 4 * length ts"
  by (induction ts) (simp_all add: tokens_le_def)

lemma tokens_le_simps [simp]:
  "tokens_le [] = []" "tokens_le (t # ts) = u32_le t @ tokens_le ts"
  "tokens_le (ss @ ts) = tokens_le ss @ tokens_le ts"
  by (simp_all add: tokens_le_def)

lemma tokens_le_chunks:
  assumes "0 < n"
  shows "concat (map tokens_le (chunks n ts)) = tokens_le ts"
proof -
  have "concat (map tokens_le css) = tokens_le (concat css)" for css
    by (induction css) simp_all
  then show ?thesis using concat_chunks [OF assms] by metis
qed

lemma tokens_le_inj: "tokens_le ss = tokens_le ts \<longleftrightarrow> ss = ts"
proof
  assume eq: "tokens_le ss = tokens_le ts"
  have "4 * length ss = 4 * length ts" using arg_cong [OF eq, of length] by (simp only: length_tokens_le)
  then have "length ss = length ts" by simp
  then show "ss = ts" using eq
    by (induction ss ts rule: list_induct2) (simp_all add: u32_le_inj)
qed simp

text \<open>A length-prefixed run can be read off the front of any byte string.\<close>

lemma counted_append_inj:
  assumes "n \<le> u64_max" "m \<le> u64_max" "length xs = w * n" "length ys = w * m"
    and "u64_le n @ xs @ as = u64_le m @ ys @ bs"
  shows "n = m \<and> xs = ys \<and> as = bs"
proof -
  have "u64_le n = u64_le m" "xs @ as = ys @ bs"
    using assms(5) by simp_all
  then have "n = m" using u64_le_inj assms(1,2) by blast
  with \<open>xs @ as = ys @ bs\<close> assms(3,4) show ?thesis by simp
qed

lemma field_append_inj:
  assumes "length xs \<le> u64_max" "length ys \<le> u64_max" "field xs @ as = field ys @ bs"
  shows "xs = ys \<and> as = bs"
  using counted_append_inj [of "length xs" "length ys" xs 1 ys as bs] assms
  by (simp add: field_def)

definition field_list :: "byte list list \<Rightarrow> byte list" where
  "field_list bss = concat (map field bss)"

lemma field_list_append_inj:
  assumes "length xs = length ys" "\<forall>x\<in>set xs. length x \<le> u64_max" "\<forall>y\<in>set ys. length y \<le> u64_max"
    and "field_list xs @ as = field_list ys @ bs"
  shows "xs = ys \<and> as = bs"
  using assms
proof (induction xs ys rule: list_induct2)
  case Nil
  then show ?case by (simp add: field_list_def)
next
  case (Cons x xs y ys)
  then have "x = y \<and> field_list xs @ as = field_list ys @ bs"
    using field_append_inj [of x y "field_list xs @ as" "field_list ys @ bs"] by (simp add: field_list_def)
  then show ?case using Cons by simp
qed

section \<open>Strings\<close>

text \<open>A Rust string is its UTF-8 bytes. The check of \<open>String::from_utf8\<close>: shortest forms only, no surrogates, at most U+10FFFF.\<close>

definition utf8_tail :: "byte \<Rightarrow> bool" where
  "utf8_tail b \<longleftrightarrow> 0x80 \<le> b \<and> b \<le> 0xBF"

definition utf8_second :: "byte \<Rightarrow> byte \<Rightarrow> bool" where
  "utf8_second b c \<longleftrightarrow>
     (if b = 0xE0 then 0xA0 \<le> c \<and> c \<le> 0xBF
      else if b = 0xED then 0x80 \<le> c \<and> c \<le> 0x9F
      else if b = 0xF0 then 0x90 \<le> c \<and> c \<le> 0xBF
      else if b = 0xF4 then 0x80 \<le> c \<and> c \<le> 0x8F
      else utf8_tail c)"

fun utf8_valid :: "byte list \<Rightarrow> bool" where
  "utf8_valid [] \<longleftrightarrow> True"
| "utf8_valid (b # bs) \<longleftrightarrow>
     (if b < 0x80 then utf8_valid bs
      else if 0xC2 \<le> b \<and> b \<le> 0xDF then
        (case bs of c # cs \<Rightarrow> utf8_tail c \<and> utf8_valid cs | _ \<Rightarrow> False)
      else if 0xE0 \<le> b \<and> b \<le> 0xEF then
        (case bs of c # d # cs \<Rightarrow> utf8_second b c \<and> utf8_tail d \<and> utf8_valid cs | _ \<Rightarrow> False)
      else if 0xF0 \<le> b \<and> b \<le> 0xF4 then
        (case bs of c # d # e # cs \<Rightarrow>
           utf8_second b c \<and> utf8_tail d \<and> utf8_tail e \<and> utf8_valid cs | _ \<Rightarrow> False)
      else False)"

text \<open>A number written in decimal.\<close>

fun decimal :: "nat \<Rightarrow> string" where
  "decimal n = (if n < 10 then [char_of (48 + n)] else decimal (n div 10) @ [char_of (48 + n mod 10)])"

declare decimal.simps [simp del]

end
