(* ===== verification/BlockHash.thy ===== *)
theory BlockHash
  imports Bytes
begin

text \<open>
  \<open>crates/core/engine/src/blocks/hash.rs\<close>: the content keys of full KV blocks. SHA-256 comes from
  the \<open>sha2\<close> crate, so it is a parameter \<open>sha\<close> of the definitions; what is modelled is the byte
  string each key is the digest of and how keys chain. The lemmas show that the byte string
  determines its inputs, and that along chains whose inputs do not collide under \<open>sha\<close> a key
  determines the salt, the extra keys and every token up to its block.
\<close>

section \<open>Keys\<close>

type_synonym block_hash = "byte list"

record hash_keys =
  hk_salt :: "byte list option"
  hk_extras :: "byte list list"

definition new_keys :: hash_keys where
  "new_keys = \<lparr>hk_salt = None, hk_extras = []\<rparr>"

definition with_salt :: "hash_keys \<Rightarrow> byte list \<Rightarrow> hash_keys" where
  "with_salt k salt = k\<lparr>hk_salt := Some salt\<rparr>"

definition with_extra :: "hash_keys \<Rightarrow> byte list \<Rightarrow> hash_keys" where
  "with_extra k key = k\<lparr>hk_extras := hk_extras k @ [key]\<rparr>"

definition hash_domain :: "byte list" where
  "hash_domain = ascii ''metallix.kv-block.v1''"

text \<open>The hasher's \<open>update\<close> calls in order, for the first block (no parent) and later ones. The
  hash state after several updates is that of their concatenation.\<close>

definition parent_updates :: "block_hash option \<Rightarrow> hash_keys \<Rightarrow> byte list list" where
  "parent_updates parent keys =
     (case parent of
        None \<Rightarrow> [0] # (case hk_salt keys of None \<Rightarrow> [[0]]
                     | Some salt \<Rightarrow> [[1], u64_le (length salt), salt])
      | Some p \<Rightarrow> [[1], p])"

definition update_bytes :: "byte list \<Rightarrow> byte list list" where
  "update_bytes bytes = [u64_le (length bytes), bytes]"

definition block_updates :: "block_hash option \<Rightarrow> token list \<Rightarrow> hash_keys \<Rightarrow> byte list list" where
  "block_updates parent tokens keys =
     [hash_domain] @ parent_updates parent keys @ [u64_le (length tokens)] @
     map tokens_le (chunks 16 tokens) @ [u64_le (length (hk_extras keys))] @
     concat (map update_bytes (hk_extras keys))"

definition hash_block ::
  "(byte list \<Rightarrow> byte list) \<Rightarrow> block_hash option \<Rightarrow> token list \<Rightarrow> hash_keys \<Rightarrow> block_hash" where
  "hash_block sha parent tokens keys = sha (concat (block_updates parent tokens keys))"

definition push_hash ::
  "(byte list \<Rightarrow> byte list) \<Rightarrow> hash_keys \<Rightarrow> block_hash list \<Rightarrow> token list \<Rightarrow> block_hash list" where
  "push_hash sha keys hashes block = hashes @ [hash_block sha (last_opt hashes) block keys]"

definition block_hashes ::
  "(byte list \<Rightarrow> byte list) \<Rightarrow> token list \<Rightarrow> nat \<Rightarrow> hash_keys \<Rightarrow> block_hash list" where
  "block_hashes sha tokens block_tokens keys =
     (if block_tokens = 0 then []
      else foldl (push_hash sha keys) [] (chunks_exact block_tokens tokens))"

section \<open>The byte string determines its inputs\<close>

definition sized_keys :: "hash_keys \<Rightarrow> bool" where
  "sized_keys k \<longleftrightarrow> (case hk_salt k of None \<Rightarrow> True | Some s \<Rightarrow> length s \<le> u64_max) \<and>
     length (hk_extras k) \<le> u64_max \<and> (\<forall>e\<in>set (hk_extras k). length e \<le> u64_max)"

definition preimage :: "block_hash option \<Rightarrow> token list \<Rightarrow> hash_keys \<Rightarrow> byte list" where
  "preimage parent tokens keys = concat (block_updates parent tokens keys)"

lemma concat_update_bytes: "concat (concat (map update_bytes bss)) = field_list bss"
  by (induction bss) (simp_all add: update_bytes_def field_list_def field_def)

lemma preimage_eq:
  "preimage parent tokens keys = hash_domain @ concat (parent_updates parent keys) @
     u64_le (length tokens) @ tokens_le tokens @ u64_le (length (hk_extras keys)) @ field_list (hk_extras keys)"
  by (simp add: preimage_def block_updates_def tokens_le_chunks concat_update_bytes)

lemma parent_updates_inj:
  assumes len: "\<forall>p. parent = Some p \<longrightarrow> length p = 32" "\<forall>p. parent' = Some p \<longrightarrow> length p = 32"
    and sized: "sized_keys keys" "sized_keys keys'"
    and eq: "concat (parent_updates parent keys) @ as = concat (parent_updates parent' keys') @ bs"
  shows "parent = parent' \<and> (parent = None \<longrightarrow> hk_salt keys = hk_salt keys') \<and> as = bs"
proof (cases parent)
  case None
  then show ?thesis using sized eq
    using counted_append_inj [of "length s" "length s'" s 1 s' as bs for s s']
    by (auto simp: parent_updates_def sized_keys_def split: option.splits)
next
  case (Some p)
  then show ?thesis using len eq by (auto simp: parent_updates_def split: option.splits)
qed

lemma preimage_inj:
  assumes len: "\<forall>p. parent = Some p \<longrightarrow> length p = 32" "\<forall>p. parent' = Some p \<longrightarrow> length p = 32"
    and sized: "sized_keys keys" "sized_keys keys'"
    and tokens: "length tokens \<le> u64_max" "length tokens' \<le> u64_max"
    and eq: "preimage parent tokens keys = preimage parent' tokens' keys'"
  shows "parent = parent' \<and> tokens = tokens' \<and> hk_extras keys = hk_extras keys' \<and>
    (parent = None \<longrightarrow> keys = keys')"
proof -
  have "hash_domain @ concat (parent_updates parent keys) @ u64_le (length tokens) @ tokens_le tokens @
      u64_le (length (hk_extras keys)) @ field_list (hk_extras keys) =
    hash_domain @ concat (parent_updates parent' keys') @ u64_le (length tokens') @ tokens_le tokens' @
      u64_le (length (hk_extras keys')) @ field_list (hk_extras keys')"
    using eq by (simp only: preimage_eq)
  from parent_updates_inj [OF len sized this [unfolded same_append_eq]]
  have 1: "parent = parent' \<and> (parent = None \<longrightarrow> hk_salt keys = hk_salt keys') \<and>
      u64_le (length tokens) @ tokens_le tokens @ u64_le (length (hk_extras keys)) @ field_list (hk_extras keys) =
      u64_le (length tokens') @ tokens_le tokens' @ u64_le (length (hk_extras keys')) @ field_list (hk_extras keys')" .
  from counted_append_inj [OF tokens _ _ conjunct2 [OF conjunct2 [OF 1]], of 4]
  have 2: "tokens = tokens'"
    "u64_le (length (hk_extras keys)) @ field_list (hk_extras keys) =
      u64_le (length (hk_extras keys')) @ field_list (hk_extras keys')"
    by (simp_all add: tokens_le_inj)
  then have "u64_le (length (hk_extras keys)) = u64_le (length (hk_extras keys'))"
    and f: "field_list (hk_extras keys) = field_list (hk_extras keys')"
    by simp_all
  then have "length (hk_extras keys) = length (hk_extras keys')"
    using sized u64_le_inj [of "length (hk_extras keys)" "length (hk_extras keys')"]
    by (simp add: sized_keys_def)
  then have "hk_extras keys = hk_extras keys'"
    using field_list_append_inj [of "hk_extras keys" "hk_extras keys'" "[]" "[]"] sized f
    by (simp add: sized_keys_def)
  then show ?thesis using 1 2 by (cases keys; cases keys') simp
qed

section \<open>Chains\<close>

lemma push_hash_simps [simp]:
  "length (push_hash sha k hs b) = Suc (length hs)" "push_hash sha k hs b \<noteq> []"
  by (simp_all add: push_hash_def)

lemma length_foldl_push_hash [simp]:
  "length (foldl (push_hash sha k) hs bs) = length hs + length bs"
  by (induction bs arbitrary: hs) simp_all

lemma length_block_hashes: "0 < bt \<Longrightarrow> length (block_hashes sha ts bt k) = length ts div bt"
  by (simp add: block_hashes_def length_chunks_exact)

lemma foldl_push_hash_prefix: "\<exists>more. foldl (push_hash sha k) hs bs = hs @ more"
proof (induction bs arbitrary: hs)
  case Nil
  then show ?case by simp
next
  case (Cons b bs)
  then show ?case by (metis append.assoc foldl_Cons push_hash_def)
qed

lemma block_hashes_append:
  assumes "0 < bt" "bt dvd length ts"
  shows "block_hashes sha (ts @ us) bt k =
    foldl (push_hash sha k) (block_hashes sha ts bt k) (chunks_exact bt us)"
  using assms by (simp add: block_hashes_def chunks_exact_append_multiple)

lemma block_hashes_take:
  assumes "0 < bt"
  shows "block_hashes sha (take (length ts div bt * bt) ts) bt k = block_hashes sha ts bt k"
  using assms by (simp add: block_hashes_def chunks_exact_take)

lemma block_hashes_take_blocks:
  assumes bt: "0 < bt" and n: "n \<le> length ts div bt"
  shows "block_hashes sha (take (n * bt) ts) bt k = take n (block_hashes sha ts bt k)"
proof -
  have len: "n * bt \<le> length ts"
    using n by (metis div_times_less_eq_dividend le_trans mult_le_mono1)
  then have dv: "bt dvd length (take (n * bt) ts)" by simp
  have "block_hashes sha ts bt k =
      foldl (push_hash sha k) (block_hashes sha (take (n * bt) ts) bt k) (chunks_exact bt (drop (n * bt) ts))"
    using block_hashes_append [OF bt dv, of sha "drop (n * bt) ts" k] by simp
  then obtain more where "block_hashes sha ts bt k = block_hashes sha (take (n * bt) ts) bt k @ more"
    using foldl_push_hash_prefix by metis
  moreover have "length (block_hashes sha (take (n * bt) ts) bt k) = n"
    using bt len by (simp add: length_block_hashes)
  ultimately show ?thesis by simp
qed

lemma block_hashes_nth:
  assumes bt: "0 < bt" and i: "i < length ts div bt"
  shows "block_hashes sha ts bt k ! i =
    hash_block sha (last_opt (take i (block_hashes sha ts bt k))) (take bt (drop (i * bt) ts)) k"
proof -
  have len: "Suc i * bt \<le> length ts"
    using i by (metis Suc_leI div_times_less_eq_dividend le_trans mult_le_mono1)
  have tk: "take (Suc i * bt) ts = take (i * bt) ts @ take bt (drop (i * bt) ts)"
    by (metis add.commute mult_Suc take_add)
  have dv: "bt dvd length (take (i * bt) ts)" using len by simp
  have c: "chunks_exact bt (take bt (drop (i * bt) ts)) = [take bt (drop (i * bt) ts)]"
    using bt len by (simp add: chunks_exact_Cons)
  have "take (Suc i) (block_hashes sha ts bt k) = block_hashes sha (take (Suc i * bt) ts) bt k"
    using block_hashes_take_blocks [OF bt, of "Suc i" ts sha k] i by simp
  also have "\<dots> = push_hash sha k (block_hashes sha (take (i * bt) ts) bt k) (take bt (drop (i * bt) ts))"
    unfolding tk using block_hashes_append [OF bt dv] c by simp
  also have "block_hashes sha (take (i * bt) ts) bt k = take i (block_hashes sha ts bt k)"
    using block_hashes_take_blocks [OF bt, of i ts sha k] i by simp
  finally have eq: "take (Suc i) (block_hashes sha ts bt k) =
      take i (block_hashes sha ts bt k) @
      [hash_block sha (last_opt (take i (block_hashes sha ts bt k))) (take bt (drop (i * bt) ts)) k]"
    by (simp add: push_hash_def)
  have "i < length (block_hashes sha ts bt k)" using bt i by (simp add: length_block_hashes)
  then show ?thesis using eq by (simp add: take_Suc_conv_app_nth)
qed

text \<open>The byte strings hashed for a token list, and a hash that does not collide on those of a
  set \<open>U\<close> of (keys, tokens) contexts.\<close>

definition chain_input ::
  "(byte list \<Rightarrow> byte list) \<Rightarrow> nat \<Rightarrow> hash_keys \<Rightarrow> token list \<Rightarrow> nat \<Rightarrow> byte list" where
  "chain_input sha bt k ts i =
     preimage (last_opt (take i (block_hashes sha ts bt k))) (take bt (drop (i * bt) ts)) k"

definition chain_inputs ::
  "(byte list \<Rightarrow> byte list) \<Rightarrow> nat \<Rightarrow> hash_keys \<Rightarrow> token list \<Rightarrow> byte list list" where
  "chain_inputs sha bt k ts = map (chain_input sha bt k ts) [0..<length ts div bt]"

definition collision_free ::
  "(byte list \<Rightarrow> byte list) \<Rightarrow> nat \<Rightarrow> (hash_keys \<times> token list) set \<Rightarrow> bool" where
  "collision_free sha bt U \<longleftrightarrow>
     (\<forall>k ts. (k, ts) \<in> U \<longrightarrow> sized_keys k) \<and>
     inj_on sha (\<Union>(k, ts)\<in>U. set (chain_inputs sha bt k ts))"

lemma block_hashes_nth_sha:
  assumes "0 < bt" "i < length ts div bt"
  shows "block_hashes sha ts bt k ! i = sha (chain_input sha bt k ts i)"
  using block_hashes_nth [OF assms, of sha k]
  by (simp add: hash_block_def chain_input_def preimage_def)

lemma block_hashes_length32:
  assumes "\<forall>x. length (sha x) = 32" "0 < bt" "h \<in> set (block_hashes sha ts bt k)"
  shows "length h = 32"
proof -
  obtain i where "i < length ts div bt" "h = block_hashes sha ts bt k ! i"
    using assms(2,3) by (auto simp: in_set_conv_nth length_block_hashes)
  then show ?thesis using block_hashes_nth_sha [OF assms(2)] assms(1) by simp
qed

lemma chain_step:
  assumes sha: "\<forall>x. length (sha x) = 32" and bt: "0 < bt" "bt \<le> u64_max"
    and cf: "collision_free sha bt U" and U: "(k, ts) \<in> U" "(k', ts') \<in> U"
    and i: "i < length ts div bt" and j: "j < length ts' div bt"
    and eq: "block_hashes sha ts bt k ! i = block_hashes sha ts' bt k' ! j"
  shows "last_opt (take i (block_hashes sha ts bt k)) = last_opt (take j (block_hashes sha ts' bt k'))"
    and "take bt (drop (i * bt) ts) = take bt (drop (j * bt) ts')"
    and "last_opt (take i (block_hashes sha ts bt k)) = None \<Longrightarrow> k = k'"
proof -
  have l: "length p = 32" if "last_opt (take n (block_hashes sha us bt q)) = Some p" for n us q p
  proof -
    have ne: "take n (block_hashes sha us bt q) \<noteq> []" and p: "p = last (take n (block_hashes sha us bt q))"
      using that by (auto simp: last_opt_def split: if_splits)
    then have "p \<in> set (block_hashes sha us bt q)" using in_set_takeD [OF last_in_set [OF ne]] by simp
    then show ?thesis by (rule block_hashes_length32 [OF sha bt(1)])
  qed
  have inj: "inj_on sha (\<Union>(k, ts)\<in>U. set (chain_inputs sha bt k ts))"
    and sized: "sized_keys k" "sized_keys k'"
    using cf U by (auto simp: collision_free_def)
  have "sha (chain_input sha bt k ts i) = sha (chain_input sha bt k' ts' j)"
    using eq by (simp only: block_hashes_nth_sha [OF bt(1) i] block_hashes_nth_sha [OF bt(1) j])
  moreover have "chain_input sha bt k ts i \<in> set (chain_inputs sha bt k ts)"
    "chain_input sha bt k' ts' j \<in> set (chain_inputs sha bt k' ts')"
    using i j by (auto simp: chain_inputs_def)
  ultimately have "chain_input sha bt k ts i = chain_input sha bt k' ts' j"
    using inj_onD [OF inj, of "chain_input sha bt k ts i" "chain_input sha bt k' ts' j"] U by blast
  note pre = this [unfolded chain_input_def]
  have c: "length (take bt (drop (i * bt) ts)) \<le> u64_max" "length (take bt (drop (j * bt) ts')) \<le> u64_max"
    using bt by simp_all
  have *: "last_opt (take i (block_hashes sha ts bt k)) = last_opt (take j (block_hashes sha ts' bt k')) \<and>
      take bt (drop (i * bt) ts) = take bt (drop (j * bt) ts') \<and> hk_extras k = hk_extras k' \<and>
      (last_opt (take i (block_hashes sha ts bt k)) = None \<longrightarrow> k = k')"
    by (rule preimage_inj [OF _ _ sized c pre]) (use l in blast)+
  show "last_opt (take i (block_hashes sha ts bt k)) = last_opt (take j (block_hashes sha ts' bt k'))"
    and "take bt (drop (i * bt) ts) = take bt (drop (j * bt) ts')"
    and "last_opt (take i (block_hashes sha ts bt k)) = None \<Longrightarrow> k = k'"
    using * by blast+
qed

lemma take_Suc_block: "take (Suc n * bt) ts = take (n * bt) ts @ take bt (drop (n * bt) ts)"
  by (metis add.commute mult_Suc take_add)

lemma chain_inj:
  assumes sha: "\<forall>x. length (sha x) = 32" and bt: "0 < bt" "bt \<le> u64_max"
    and cf: "collision_free sha bt U" and U: "(k, ts) \<in> U" "(k', ts') \<in> U"
    and i: "i < length ts div bt" and j: "j < length ts' div bt"
    and eq: "block_hashes sha ts bt k ! i = block_hashes sha ts' bt k' ! j"
  shows "i = j \<and> take (Suc i * bt) ts = take (Suc i * bt) ts' \<and> k = k'"
  using i j eq
proof (induction i arbitrary: j)
  case (0 j)
  note st = chain_step [OF sha bt cf U 0]
  have "take j (block_hashes sha ts' bt k') = []"
    using st(1) by (simp add: last_opt_def split: if_splits)
  then have "j = 0" using "0"(2) bt by (auto simp: length_block_hashes dest!: arg_cong [of _ _ length])
  then show ?case using st(2,3) by (simp add: last_opt_def)
next
  case (Suc i)
  note st = chain_step [OF sha bt cf U Suc.prems]
  have Li: "i < length (block_hashes sha ts bt k)" and Lj: "j < length (block_hashes sha ts' bt k')"
    using Suc.prems bt by (simp_all add: length_block_hashes)
  have "last_opt (take (Suc i) (block_hashes sha ts bt k)) = Some (block_hashes sha ts bt k ! i)"
    using Li by (simp add: take_Suc_conv_app_nth)
  with st(1) have lj: "last_opt (take j (block_hashes sha ts' bt k')) = Some (block_hashes sha ts bt k ! i)"
    by simp
  then obtain j' where j': "j = Suc j'" by (cases j) auto
  then have "block_hashes sha ts' bt k' ! j' = block_hashes sha ts bt k ! i"
    using lj Lj by (simp add: take_Suc_conv_app_nth)
  then have eq': "block_hashes sha ts bt k ! i = block_hashes sha ts' bt k' ! j'" by simp
  have "i < length ts div bt" "j' < length ts' div bt" using Suc.prems(1,2) j' by simp_all
  note IHc = Suc.IH [OF this eq']
  note IH = conjunct1 [OF IHc] conjunct1 [OF conjunct2 [OF IHc]] conjunct2 [OF conjunct2 [OF IHc]]
  have "take (Suc (Suc i) * bt) ts = take (Suc (Suc i) * bt) ts'"
    unfolding take_Suc_block [of "Suc i"] using st(2) IH(1,2) j' by simp
  then show ?case using IH j' by blast
qed

end
