(* ===== verification/BlockConfig.thy ===== *)
theory BlockConfig
  imports Prelude
begin

text \<open>
  \<open>crates/core/engine/src/blocks.rs\<close>: the validated shape of a KV pool, block identifiers and
  token spans, and the errors of the block manager. The lemmas show which configurations are
  accepted and that a pool sized from a byte budget fits it and is as large as it can be.
\<close>

definition slab_blocks :: nat where
  "slab_blocks = 32"

section \<open>Errors\<close>

datatype block_config_error =
    BlockTokensError nat
  | ZeroSlabs
  | TooManySlabs nat
  | ZeroBytesPerToken
  | SlabBytesOverflow nat nat
  | BudgetBelowOneSlab nat nat

type_synonym seq_id = nat

datatype block_error =
    OutOfBlocks nat nat
  | UnknownSequence seq_id
  | SequenceExists seq_id
  | StalePrefixHit
  | Unresolved seq_id
  | Uncommitted seq_id
  | PositionOutOfRange nat nat

section \<open>Block width and pool shape\<close>

definition block_tokens_new :: "nat \<Rightarrow> block_config_error + nat" where
  "block_tokens_new tokens =
     (if tokens \<noteq> 0 \<and> is_power_of_two tokens then Inr tokens else Inl (BlockTokensError tokens))"

definition default_block_tokens :: nat where
  "default_block_tokens = 16"

text \<open>\<open>SlabFootprint::new\<close>: the bytes of one slab, every product checked against \<open>u64\<close>.\<close>

definition slab_footprint :: "nat \<Rightarrow> nat \<Rightarrow> block_config_error + nat" where
  "slab_footprint bytes_per_token block_tokens =
     (if bytes_per_token = 0 then Inl ZeroBytesPerToken
      else case checked_mul_u64 bytes_per_token block_tokens \<bind> (\<lambda>b. checked_mul_u64 b slab_blocks) of
             None \<Rightarrow> Inl (SlabBytesOverflow bytes_per_token block_tokens)
           | Some bytes \<Rightarrow> (if bytes = 0 then Inl ZeroBytesPerToken else Inr bytes))"

record pool_config =
  pc_block_tokens :: nat
  pc_slabs :: nat
  pc_prefix_caching :: bool

definition pool_config_new :: "nat \<Rightarrow> nat \<Rightarrow> block_config_error + pool_config" where
  "pool_config_new block_tokens slabs =
     (if slabs = 0 then Inl ZeroSlabs
      else if slabs \<ge> u32_max div slab_blocks then Inl (TooManySlabs slabs)
      else Inr \<lparr>pc_block_tokens = block_tokens, pc_slabs = slabs, pc_prefix_caching = True\<rparr>)"

definition from_budget :: "nat \<Rightarrow> nat \<Rightarrow> nat \<Rightarrow> block_config_error + pool_config" where
  "from_budget budget_bytes bytes_per_token block_tokens =
     (case slab_footprint bytes_per_token block_tokens of
        Inl e \<Rightarrow> Inl e
      | Inr slab_bytes \<Rightarrow>
          (let slabs = budget_bytes div slab_bytes in
           if slabs = 0 then Inl (BudgetBelowOneSlab budget_bytes slab_bytes)
           else if slabs > u32_max then Inl (TooManySlabs u32_max)
           else pool_config_new block_tokens slabs))"

definition with_prefix_caching :: "pool_config \<Rightarrow> bool \<Rightarrow> pool_config" where
  "with_prefix_caching c enabled = c\<lparr>pc_prefix_caching := enabled\<rparr>"

definition num_blocks :: "pool_config \<Rightarrow> nat" where
  "num_blocks c = pc_slabs c * slab_blocks"

definition token_capacity :: "pool_config \<Rightarrow> nat" where
  "token_capacity c = num_blocks c * pc_block_tokens c"

section \<open>Block identifiers and spans\<close>

definition slab_of :: "nat \<Rightarrow> nat" where
  "slab_of b = b div slab_blocks"

definition index_in_slab :: "nat \<Rightarrow> nat" where
  "index_in_slab b = b mod slab_blocks"

record token_span =
  ts_start :: nat
  ts_end :: nat

text \<open>\<open>TokenSpan::new\<close> panics when the end overflows \<open>usize\<close>.\<close>

definition span_new :: "nat \<Rightarrow> nat \<Rightarrow> token_span option" where
  "span_new start len = map_option (\<lambda>e. \<lparr>ts_start = start, ts_end = e\<rparr>) (add_usize start len)"

definition span_prefix :: "nat \<Rightarrow> token_span" where
  "span_prefix len = \<lparr>ts_start = 0, ts_end = len\<rparr>"

definition span_iter :: "token_span \<Rightarrow> nat list" where
  "span_iter s = [ts_start s..<ts_end s]"

section \<open>What is accepted\<close>

definition config_ok :: "pool_config \<Rightarrow> bool" where
  "config_ok c \<longleftrightarrow> 0 < pc_block_tokens c \<and> pc_block_tokens c \<le> u32_max \<and> 0 < pc_slabs c \<and>
     num_blocks c < u32_max"

lemma pool_config_new_ok:
  assumes "block_tokens_new t = Inr bt" "t \<le> u32_max" "pool_config_new bt slabs = Inr c"
  shows "config_ok c"
  using assms
  by (auto simp: block_tokens_new_def pool_config_new_def config_ok_def num_blocks_def slab_blocks_def
      u32_max_def split: if_splits)

lemma from_budget_exact:
  assumes "from_budget budget bpt bt = Inr c"
  shows "pc_block_tokens c = bt" "token_capacity c * bpt \<le> budget"
    "budget < (pc_slabs c + 1) * slab_blocks * bt * bpt" "num_blocks c < u32_max" "0 < pc_slabs c"
proof -
  obtain sb where sb: "slab_footprint bpt bt = Inr sb" and c: "pool_config_new bt (budget div sb) = Inr c"
    and nz: "budget div sb \<noteq> 0"
    using assms by (auto simp: from_budget_def Let_def split: sum.splits if_splits)
  have sb_eq: "sb = bpt * bt * slab_blocks" and "0 < sb"
    using sb by (auto simp: slab_footprint_def panic_simps split: if_splits option.splits Option.bind_splits)
  have slabs: "pc_slabs c = budget div sb" "pc_block_tokens c = bt" and nb: "num_blocks c < u32_max"
    using c by (auto simp: pool_config_new_def num_blocks_def slab_blocks_def u32_max_def split: if_splits)
  show "pc_block_tokens c = bt" "num_blocks c < u32_max" "0 < pc_slabs c" using slabs nb nz by simp_all
  have "token_capacity c * bpt = budget div sb * sb"
    using slabs sb_eq by (simp add: token_capacity_def num_blocks_def)
  then show "token_capacity c * bpt \<le> budget" by simp
  have "budget < (budget div sb + 1) * sb"
    using \<open>0 < sb\<close> by (simp add: dividend_less_div_times)
  then show "budget < (pc_slabs c + 1) * slab_blocks * bt * bpt"
    unfolding slabs sb_eq by (simp add: algebra_simps)
qed

lemma slab_index_roundtrip: "slab_of b * slab_blocks + index_in_slab b = b"
  by (simp add: slab_of_def index_in_slab_def)

lemma span_new_Some: "span_new s n = Some sp \<longleftrightarrow> sp = \<lparr>ts_start = s, ts_end = s + n\<rparr> \<and> s + n \<le> usize_max"
  by (auto simp: span_new_def panic_simps)

end
