(* ===== verification/BlockPool.thy ===== *)
theory BlockPool
  imports FreeQueue BlockHash BlockConfig "HOL-Library.Multiset"
begin

text \<open>
  \<open>Pool\<close> of \<open>crates/core/engine/src/blocks/manager.rs\<close>: reference counts, published prefix keys
  and the free queue of one KV pool, and the reservation of slots for one sequence. The
  references held by sequence tables are a multiset \<open>H\<close> of blocks; \<open>pool_ok p H\<close> says that the
  pool's bookkeeping agrees with \<open>H\<close>, and there is one lemma per operation.
\<close>

section \<open>State\<close>

record sequence =
  s_keys :: hash_keys
  s_table :: "nat list"
  s_scheduled :: nat
  s_computed :: nat
  s_hashes :: "block_hash list"
  s_unhashed :: "token list"
  s_unresolved :: nat

record kv_counters =
  c_prefix_queries :: nat
  c_prefix_hits :: nat
  c_evictions :: nat

record pool =
  p_block_tokens :: nat
  p_prefix_caching :: bool
  p_ref_counts :: "nat list"
  p_block_hashes :: "block_hash option list"
  p_free :: free_queue
  p_cached :: "block_hash \<rightharpoonup> nat"
  p_counters :: kv_counters
  p_published_tokens :: nat

record block_copy =
  bc_src :: nat
  bc_dst :: nat
  bc_tokens :: nat

record allocation =
  al_positions :: token_span
  al_copy :: "block_copy option"

section \<open>Operations\<close>

definition needs_copy :: "pool \<Rightarrow> sequence \<Rightarrow> bool option" where
  "needs_copy p s =
     (if s_scheduled s mod p_block_tokens p = 0 then Some False
      else case last_opt (s_table s) of
             None \<Rightarrow> Some False
           | Some block \<Rightarrow> map_option (\<lambda>r. r > 1) (list_get (p_ref_counts p) block))"

definition cost :: "pool \<Rightarrow> sequence \<Rightarrow> nat \<Rightarrow> nat option" where
  "cost p s tokens =
     (if tokens = 0 then Some 0
      else do {
        total \<leftarrow> add_usize (s_scheduled s) tokens;
        fresh \<leftarrow> checked_sub (div_ceil total (p_block_tokens p)) (length (s_table s));
        copy \<leftarrow> needs_copy p s;
        Some (fresh + (if copy then 1 else 0))
      })"

text \<open>\<open>take_free\<close>: the front free block, its cached key evicted. An empty queue is the \<open>expect\<close>, and a
  block that is still referenced the \<open>debug_assert\<close>.\<close>

definition take_free :: "pool \<Rightarrow> (nat \<times> pool) option" where
  "take_free p = do {
     (front, free) \<leftarrow> fq_pop_front (p_free p);
     block \<leftarrow> front;
     hash \<leftarrow> list_get (p_block_hashes p) block;
     hashes \<leftarrow> list_set (p_block_hashes p) block None;
     cnt \<leftarrow> list_get (p_ref_counts p) block;
     if cnt \<noteq> 0 then None else do {
     refs \<leftarrow> list_set (p_ref_counts p) block 1;
     let p1 = p\<lparr>p_free := free, p_block_hashes := hashes, p_ref_counts := refs\<rparr>;
     Some (block,
       case hash of
         None \<Rightarrow> p1
       | Some h \<Rightarrow> p1\<lparr>p_cached := (p_cached p)(h := None),
                      p_counters := (p_counters p)\<lparr>c_evictions :=
                        saturating_add_u64 (c_evictions (p_counters p)) 1\<rparr>\<rparr>)
     }
   }"

definition add_ref :: "pool \<Rightarrow> nat \<Rightarrow> pool option" where
  "add_ref p block = do {
     cnt \<leftarrow> list_get (p_ref_counts p) block;
     free \<leftarrow> (if cnt = 0 then fq_remove (p_free p) block else Some (p_free p));
     cnt' \<leftarrow> checked_add_u32 cnt 1;
     refs \<leftarrow> list_set (p_ref_counts p) block cnt';
     Some (p\<lparr>p_free := free, p_ref_counts := refs\<rparr>)
   }"

definition release :: "pool \<Rightarrow> nat \<Rightarrow> pool option" where
  "release p block = do {
     cnt \<leftarrow> list_get (p_ref_counts p) block;
     cnt' \<leftarrow> checked_sub cnt 1;
     refs \<leftarrow> list_set (p_ref_counts p) block cnt';
     if cnt' = 0
     then do {
       hash \<leftarrow> list_get (p_block_hashes p) block;
       free \<leftarrow> (case hash of Some _ \<Rightarrow> fq_push_back (p_free p) block
                       | None \<Rightarrow> fq_push_front (p_free p) block);
       Some (p\<lparr>p_ref_counts := refs, p_free := free\<rparr>)
     }
     else Some (p\<lparr>p_ref_counts := refs\<rparr>)
   }"

fun add_refs :: "pool \<Rightarrow> nat list \<Rightarrow> pool option" where
  "add_refs p [] = Some p"
| "add_refs p (b # bs) = add_ref p b \<bind> (\<lambda>p'. add_refs p' bs)"

fun releases :: "pool \<Rightarrow> nat list \<Rightarrow> pool option" where
  "releases p [] = Some p"
| "releases p (b # bs) = release p b \<bind> (\<lambda>p'. releases p' bs)"

text \<open>The \<open>while\<close> loop of \<open>reserve\<close>: new blocks until the table covers \<open>blocks\<close>.\<close>

function extend_table :: "nat \<Rightarrow> pool \<Rightarrow> nat list \<Rightarrow> (pool \<times> nat list) option" where
  "extend_table blocks p table =
     (if length table < blocks
      then take_free p \<bind> (\<lambda>(block, p'). extend_table blocks p' (table @ [block]))
      else Some (p, table))"
  by pat_completeness auto
termination
  by (relation "measure (\<lambda>(blocks, p, table). blocks - length table)") auto

declare extend_table.simps [simp del]

text \<open>The copy-on-write step of \<open>reserve\<close>: the shared tail is replaced by a fresh block.\<close>

definition copy_tail :: "pool \<Rightarrow> sequence \<Rightarrow> (pool \<times> nat list \<times> block_copy) option" where
  "copy_tail p s = do {
     l \<leftarrow> checked_sub (length (s_table s)) 1;
     src \<leftarrow> list_get (s_table s) l;
     (dst, p1) \<leftarrow> take_free p;
     table \<leftarrow> list_set (s_table s) l dst;
     p2 \<leftarrow> release p1 src;
     Some (p2, table, \<lparr>bc_src = src, bc_dst = dst, bc_tokens = s_scheduled s mod p_block_tokens p\<rparr>)
   }"

definition reserve :: "pool \<Rightarrow> sequence \<Rightarrow> nat \<Rightarrow> (allocation \<times> sequence \<times> pool) option" where
  "reserve p s cnt = do {
     copying \<leftarrow> (if cnt > 0 then needs_copy p s else Some False);
     (p1, table1, copy) \<leftarrow>
       (if copying then map_option (\<lambda>(p1, table, c). (p1, table, Some c)) (copy_tail p s)
        else Some (p, s_table s, None));
     total \<leftarrow> add_usize (s_scheduled s) cnt;
     (p2, table2) \<leftarrow> extend_table (div_ceil total (p_block_tokens p)) p1 table1;
     span \<leftarrow> span_new (s_scheduled s) cnt;
     Some (\<lparr>al_positions = span, al_copy = copy\<rparr>, s\<lparr>s_table := table2, s_scheduled := total\<rparr>, p2)
   }"

definition append_tokens :: "pool \<Rightarrow> sequence \<Rightarrow> token list \<Rightarrow> (allocation \<times> sequence \<times> pool) option" where
  "append_tokens p s tokens = do {
     (al, s', p') \<leftarrow> reserve p s (length tokens);
     Some (al, (if p_prefix_caching p then s'\<lparr>s_unhashed := s_unhashed s' @ tokens\<rparr> else s'), p')
   }"

section \<open>Agreement with the references held\<close>

definition pool_ok :: "pool \<Rightarrow> nat multiset \<Rightarrow> bool" where
  "pool_ok p H \<longleftrightarrow>
     0 < p_block_tokens p \<and>
     length (p_block_hashes p) = length (p_ref_counts p) \<and>
     set_mset H \<subseteq> {..<length (p_ref_counts p)} \<and>
     (\<forall>b<length (p_ref_counts p). p_ref_counts p ! b = count H b) \<and>
     (\<exists>xs. fq_rep (p_free p) (length (p_ref_counts p)) xs \<and>
           set xs = {..<length (p_ref_counts p)} - set_mset H) \<and>
     (\<forall>h b. p_cached p h = Some b \<longleftrightarrow>
        b < length (p_ref_counts p) \<and> p_block_hashes p ! b = Some h)"

text \<open>What no reservation changes: the pool's shape, and the keys of the blocks in \<open>K\<close>; other
  keys are at most dropped.\<close>

definition pool_frame :: "nat set \<Rightarrow> pool \<Rightarrow> pool \<Rightarrow> bool" where
  "pool_frame K p p' \<longleftrightarrow>
     p_block_tokens p' = p_block_tokens p \<and> p_prefix_caching p' = p_prefix_caching p \<and>
     length (p_ref_counts p') = length (p_ref_counts p) \<and>
     p_published_tokens p' = p_published_tokens p \<and>
     (\<forall>b\<in>K. p_block_hashes p' ! b = p_block_hashes p ! b) \<and>
     (\<forall>b. p_block_hashes p' ! b = p_block_hashes p ! b \<or> p_block_hashes p' ! b = None)"

lemma pool_frame_refl [simp]: "pool_frame K p p"
  by (simp add: pool_frame_def)

lemma pool_frame_trans: "pool_frame K p q \<Longrightarrow> pool_frame L q r \<Longrightarrow> M \<subseteq> K \<Longrightarrow> M \<subseteq> L \<Longrightarrow> pool_frame M p r"
  unfolding pool_frame_def by (metis subsetD)

lemma pool_frame_mono: "pool_frame K p q \<Longrightarrow> M \<subseteq> K \<Longrightarrow> pool_frame M p q"
  unfolding pool_frame_def by (metis subsetD)

lemma pool_ok_free:
  assumes "pool_ok p H"
  shows "fq_len (p_free p) + card (set_mset H) = length (p_ref_counts p)"
proof -
  obtain xs where xs: "fq_rep (p_free p) (length (p_ref_counts p)) xs"
    "set xs = {..<length (p_ref_counts p)} - set_mset H" and H: "set_mset H \<subseteq> {..<length (p_ref_counts p)}"
    using assms by (auto simp: pool_ok_def)
  have "fq_len (p_free p) = card (set xs)"
    using fq.rep_len [OF xs(1)] distinct_card [OF fq.rep_distinct [OF xs(1)]] by simp
  also have "\<dots> = length (p_ref_counts p) - card (set_mset H)"
    using xs(2) H by (simp add: card_Diff_subset)
  finally show ?thesis using card_mono [OF _ H] by simp
qed

lemma take_free_ok:
  assumes ok: "pool_ok p H" and room: "0 < fq_len (p_free p)"
  shows "\<exists>b p'. take_free p = Some (b, p') \<and> pool_ok p' (add_mset b H) \<and> b \<notin># H \<and>
    b < length (p_ref_counts p) \<and> p_block_hashes p' ! b = None \<and> pool_frame (set_mset H) p p' \<and>
    fq_len (p_free p') = fq_len (p_free p) - 1"
proof -
  let ?n = "length (p_ref_counts p)"
  obtain xs where xs: "fq_rep (p_free p) ?n xs" "set xs = {..<?n} - set_mset H"
    using ok by (auto simp: pool_ok_def)
  obtain b ys where ys: "xs = b # ys"
    using room fq.rep_len [OF xs(1)] by (cases xs) auto
  obtain free where free: "fq_pop_front (p_free p) = Some (Some b, free)" "fq_rep free ?n ys"
    using fq.pop_front_Cons xs(1) ys by blast
  have b: "b < ?n" "b \<notin># H" and d: "b \<notin> set ys"
    using xs ys fq.rep_distinct [OF xs(1)] by auto
  let ?p1 = "p\<lparr>p_free := free, p_block_hashes := (p_block_hashes p)[b := None],
    p_ref_counts := (p_ref_counts p)[b := 1]\<rparr>"
  define p' where "p' = (case p_block_hashes p ! b of None \<Rightarrow> ?p1
    | Some h \<Rightarrow> ?p1\<lparr>p_cached := (p_cached p)(h := None),
        p_counters := (p_counters p)\<lparr>c_evictions := saturating_add_u64 (c_evictions (p_counters p)) 1\<rparr>\<rparr>)"
  have tf: "take_free p = Some (b, p')"
    using free(1) b ok
    by (simp add: take_free_def p'_def pool_ok_def Let_def not_in_iff split: option.split)
  have f: "p_free p' = free" "p_block_hashes p' = (p_block_hashes p)[b := None]"
    "p_ref_counts p' = (p_ref_counts p)[b := 1]" "p_block_tokens p' = p_block_tokens p"
    "p_prefix_caching p' = p_prefix_caching p" "p_published_tokens p' = p_published_tokens p"
    "p_cached p' = (case p_block_hashes p ! b of None \<Rightarrow> p_cached p | Some h \<Rightarrow> (p_cached p)(h := None))"
    by (simp_all add: p'_def split: option.split)
  have cached: "p_cached p h = Some c \<longleftrightarrow> c < ?n \<and> p_block_hashes p ! c = Some h" for h c
    using ok by (simp add: pool_ok_def)
  have "p_cached p' h = Some c \<longleftrightarrow> c < ?n \<and> p_block_hashes p' ! c = Some h" for h c
  proof (cases "c = b")
    case True
    have "p_cached p h \<noteq> Some b" if "p_block_hashes p ! b \<noteq> Some h" using that cached by blast
    moreover have "p_cached p' h \<noteq> Some b" if "p_block_hashes p ! b = Some h" using that f by simp
    ultimately have "p_cached p' h \<noteq> Some b" using f(7) by (cases "p_block_hashes p ! b") (auto split: if_splits)
    then show ?thesis using True b f ok by (simp add: pool_ok_def)
  next
    case False
    have "p_cached p h' = Some b" if "p_block_hashes p ! b = Some h'" for h' using that cached b by blast
    then have "p_cached p' h = Some c \<longleftrightarrow> p_cached p h = Some c"
      using False f(7) by (cases "p_block_hashes p ! b") auto
    then show ?thesis using cached False f by simp
  qed
  moreover have "set ys = {..<?n} - set_mset (add_mset b H)"
    using xs(2) ys d by auto
  ultimately have "pool_ok p' (add_mset b H)"
    using ok f b free(2) xs by (auto simp: pool_ok_def nth_list_update not_in_iff)
  moreover have "pool_frame (set_mset H) p p'"
  proof -
    have "(p_block_hashes p)[b := None] ! c = (if c = b then None else p_block_hashes p ! c)" for c
      using b ok by (simp add: nth_list_update pool_ok_def)
    then show ?thesis using f b(2) by (auto simp: pool_frame_def)
  qed
  moreover have "fq_len free = fq_len (p_free p) - 1"
    using fq.rep_len [OF free(2)] fq.rep_len [OF xs(1)] ys by simp
  ultimately show ?thesis using tf b f ok by (auto simp: pool_ok_def)
qed

lemma add_ref_ok:
  assumes ok: "pool_ok p H" and b: "b < length (p_ref_counts p)" and cnt: "count H b < u32_max"
  shows "\<exists>p'. add_ref p b = Some p' \<and> pool_ok p' (add_mset b H) \<and> pool_frame UNIV p p' \<and>
    p_cached p' = p_cached p \<and> p_counters p' = p_counters p \<and> p_block_hashes p' = p_block_hashes p \<and>
    fq_len (p_free p') = fq_len (p_free p) - (if b \<in># H then 0 else 1)"
proof -
  let ?n = "length (p_ref_counts p)"
  obtain xs where xs: "fq_rep (p_free p) ?n xs" "set xs = {..<?n} - set_mset H"
    using ok by (auto simp: pool_ok_def)
  obtain free where free: "fq_remove (p_free p) b = Some free" "fq_rep free ?n (removeAll b xs)"
    using fq.remove_law [OF xs(1) b] by blast
  let ?free = "if b \<in># H then p_free p else free"
  let ?p' = "p\<lparr>p_free := ?free, p_ref_counts := (p_ref_counts p)[b := count H b + 1]\<rparr>"
  have rc: "p_ref_counts p ! b = count H b" using ok b by (simp add: pool_ok_def)
  have eq: "add_ref p b = Some ?p'"
  proof (cases "count H b = 0")
    case True
    then have "b \<notin># H" by (simp add: not_in_iff)
    then show ?thesis using b cnt free(1) rc True by (simp add: add_ref_def checked_add_u32_def)
  next
    case False
    then have "b \<in># H" by (simp add: not_in_iff [symmetric])
    then show ?thesis using False b cnt rc by (simp add: add_ref_def checked_add_u32_def count_eq_zero_iff)
  qed
  have rep: "fq_rep ?free ?n (if b \<in># H then xs else removeAll b xs)" using xs free by simp
  have "pool_ok ?p' (add_mset b H)"
    unfolding pool_ok_def
  proof (intro conjI)
    show "\<exists>xs. fq_rep (p_free ?p') (length (p_ref_counts ?p')) xs \<and>
        set xs = {..<length (p_ref_counts ?p')} - set_mset (add_mset b H)"
      using rep xs(2) by (intro exI [of _ "if b \<in># H then xs else removeAll b xs"]) auto
  qed (use ok b in \<open>auto simp: pool_ok_def nth_list_update\<close>)
  moreover have "fq_len free = fq_len (p_free p) - 1" if "b \<notin># H"
  proof -
    have "b \<in> set xs" "distinct xs" using that xs b fq.rep_distinct by auto
    then show ?thesis using fq.rep_len [OF free(2)] fq.rep_len [OF xs(1)]
      by (simp add: distinct_remove1_removeAll [symmetric] length_remove1)
  qed
  ultimately show ?thesis using eq by (auto simp: pool_frame_def)
qed

lemma release_ok:
  assumes ok: "pool_ok p H" and b: "b \<in># H"
  shows "\<exists>p'. release p b = Some p' \<and> pool_ok p' (H - {#b#}) \<and> pool_frame UNIV p p' \<and>
    p_cached p' = p_cached p \<and> p_counters p' = p_counters p \<and> p_block_hashes p' = p_block_hashes p \<and>
    fq_len (p_free p') = fq_len (p_free p) + (if count H b = 1 then 1 else 0)"
proof -
  let ?n = "length (p_ref_counts p)"
  have bn: "b < ?n" using ok b by (auto simp: pool_ok_def)
  have rc: "p_ref_counts p ! b = count H b" "0 < count H b" using ok bn b by (simp_all add: pool_ok_def)
  obtain xs where xs: "fq_rep (p_free p) ?n xs" "set xs = {..<?n} - set_mset H"
    using ok by (auto simp: pool_ok_def)
  have out: "b \<notin> set xs" using xs b by simp
  show ?thesis
  proof (cases "count H b = 1")
    case False
    let ?p' = "p\<lparr>p_ref_counts := (p_ref_counts p)[b := count H b - 1]\<rparr>"
    have "1 < count H b" using rc(2) False by linarith
    then have "release p b = Some ?p'" using bn rc(1) b by (simp add: release_def checked_sub_def)
    moreover have set: "set_mset (H - {#b#}) = set_mset H"
      using \<open>1 < count H b\<close>
      by (intro set_eqI) (auto simp: count_greater_zero_iff [symmetric] simp del: count_greater_zero_iff)
    have "pool_ok ?p' (H - {#b#})"
      unfolding pool_ok_def set using ok bn by (simp add: pool_ok_def nth_list_update)
    ultimately show ?thesis using False by (simp add: pool_frame_def)
  next
    case True
    obtain free ys where free: "(case p_block_hashes p ! b of Some _ \<Rightarrow> fq_push_back (p_free p) b
          | None \<Rightarrow> fq_push_front (p_free p) b) = Some free"
      "fq_rep free ?n ys" "set ys = insert b (set xs)"
      using fq.push_back_law [OF xs(1) bn out] fq.push_front_law [OF xs(1) bn out]
      by (cases "p_block_hashes p ! b") auto
    let ?p' = "p\<lparr>p_ref_counts := (p_ref_counts p)[b := 0], p_free := free\<rparr>"
    have "release p b = Some ?p'"
      using bn rc True free(1) ok b by (simp add: release_def checked_sub_def pool_ok_def)
    have set: "set_mset (H - {#b#}) = set_mset H - {b}"
      using True
      by (intro set_eqI) (auto simp: count_greater_zero_iff [symmetric] simp del: count_greater_zero_iff)
    have ys: "set ys = {..<?n} - (set_mset H - {b})" using free(3) xs(2) bn by auto
    have "pool_ok ?p' (H - {#b#})"
      unfolding pool_ok_def set
    proof (intro conjI)
      show "\<exists>xs. fq_rep (p_free ?p') (length (p_ref_counts ?p')) xs \<and>
          set xs = {..<length (p_ref_counts ?p')} - (set_mset H - {b})"
        using free(2) ys by (intro exI [of _ ys]) simp
    qed (use ok bn True in \<open>auto simp: pool_ok_def nth_list_update\<close>)
    note this \<open>release p b = Some ?p'\<close>
    moreover have "fq_len free = fq_len (p_free p) + 1"
      using fq.rep_len [OF free(2)] fq.rep_len [OF xs(1)] distinct_card [OF fq.rep_distinct [OF free(2)]]
        distinct_card [OF fq.rep_distinct [OF xs(1)]] free(3) out by simp
    ultimately show ?thesis using True by (auto simp: pool_frame_def)
  qed
qed

text \<open>Several references at once.\<close>

lemma add_refs_ok:
  assumes "pool_ok p H" "set bs \<subseteq> {..<length (p_ref_counts p)}"
    "\<And>b. b \<in> set bs \<Longrightarrow> count H b + length bs \<le> u32_max"
  shows "\<exists>p'. add_refs p bs = Some p' \<and> pool_ok p' (mset bs + H) \<and> pool_frame UNIV p p' \<and>
    p_cached p' = p_cached p \<and> p_counters p' = p_counters p \<and> p_block_hashes p' = p_block_hashes p"
  using assms
proof (induction bs arbitrary: p H)
  case (Cons b bs)
  have b: "b < length (p_ref_counts p)" "count H b < u32_max" using Cons.prems(2) Cons.prems(3) [of b] by auto
  obtain p1 where p1: "add_ref p b = Some p1" "pool_ok p1 (add_mset b H)" "pool_frame UNIV p p1"
    "p_cached p1 = p_cached p" "p_counters p1 = p_counters p" "p_block_hashes p1 = p_block_hashes p"
    using add_ref_ok [OF Cons.prems(1) b] by blast
  have "set bs \<subseteq> {..<length (p_ref_counts p1)}" using Cons.prems(2) p1(3) by (simp add: pool_frame_def)
  moreover have "count (add_mset b H) c + length bs \<le> u32_max" if "c \<in> set bs" for c
    using Cons.prems(3) [of c] that by simp
  ultimately obtain p2 where "add_refs p1 bs = Some p2" "pool_ok p2 (mset bs + add_mset b H)"
    "pool_frame UNIV p1 p2" "p_cached p2 = p_cached p1" "p_counters p2 = p_counters p1"
    "p_block_hashes p2 = p_block_hashes p1"
    using Cons.IH [OF p1(2)] by blast
  then show ?case using p1 by (auto intro: pool_frame_trans)
qed simp

lemma releases_ok:
  assumes "pool_ok p (mset bs + G)"
  shows "\<exists>p'. releases p bs = Some p' \<and> pool_ok p' G \<and> pool_frame UNIV p p' \<and>
    p_cached p' = p_cached p \<and> p_counters p' = p_counters p \<and> p_block_hashes p' = p_block_hashes p"
  using assms
proof (induction bs arbitrary: p)
  case (Cons b bs)
  obtain p1 where p1: "release p b = Some p1" "pool_ok p1 (mset bs + G)" "pool_frame UNIV p p1"
    "p_cached p1 = p_cached p" "p_counters p1 = p_counters p" "p_block_hashes p1 = p_block_hashes p"
    using release_ok [OF Cons.prems, of b] by auto
  then obtain p2 where "releases p1 bs = Some p2" "pool_ok p2 G" "pool_frame UNIV p1 p2"
    "p_cached p2 = p_cached p1" "p_counters p2 = p_counters p1" "p_block_hashes p2 = p_block_hashes p1"
    using Cons.IH by blast
  then show ?case using p1 by (auto intro: pool_frame_trans)
qed simp

section \<open>Reservations\<close>

lemma extend_table_ok:
  assumes "pool_ok p H" "blocks - length t \<le> fq_len (p_free p)"
  shows "\<exists>p' new. extend_table blocks p t = Some (p', t @ new) \<and> pool_ok p' (mset new + H) \<and>
    length new = blocks - length t \<and> distinct new \<and> set new \<inter> set_mset H = {} \<and>
    (\<forall>b\<in>set new. p_block_hashes p' ! b = None) \<and> pool_frame (set_mset H) p p'"
  using assms
proof (induction "blocks - length t" arbitrary: p t H)
  case 0
  then show ?case by (intro exI [of _ p] exI [of _ "[]"]) (simp add: extend_table.simps)
next
  case (Suc n)
  have lt: "length t < blocks" "0 < fq_len (p_free p)" using Suc(2,4) by simp_all
  obtain b p1 where p1: "take_free p = Some (b, p1)" "pool_ok p1 (add_mset b H)" "b \<notin># H"
    "p_block_hashes p1 ! b = None" "pool_frame (set_mset H) p p1"
    "fq_len (p_free p1) = fq_len (p_free p) - 1"
    using take_free_ok [OF Suc(3) lt(2)] by blast
  have "n = blocks - length (t @ [b])" "blocks - length (t @ [b]) \<le> fq_len (p_free p1)"
    using Suc(2,4) p1(6) by simp_all
  then obtain p2 new where p2: "extend_table blocks p1 (t @ [b]) = Some (p2, (t @ [b]) @ new)"
    "pool_ok p2 (mset new + add_mset b H)" "length new = blocks - length (t @ [b])" "distinct new"
    "set new \<inter> set_mset (add_mset b H) = {}" "\<forall>c\<in>set new. p_block_hashes p2 ! c = None"
    "pool_frame (set_mset (add_mset b H)) p1 p2"
    using Suc(1) [OF _ p1(2)] by blast
  have "extend_table blocks p t = Some (p2, t @ b # new)"
    using lt(1) p1(1) p2(1) by (simp add: extend_table.simps [of _ _ t])
  moreover have "pool_frame (set_mset H) p p2"
    using pool_frame_trans [OF p1(5) p2(7)] by auto
  moreover have "p_block_hashes p2 ! b = None" using p1(4) p2(7) by (simp add: pool_frame_def)
  ultimately show ?case
    using p1(3) p2 Suc(2) by (intro exI [of _ p2] exI [of _ "b # new"]) auto
qed

lemma copy_tail_ok:
  assumes ok: "pool_ok p (mset (s_table s) + G)" and t: "s_table s = us @ [l]"
    and shared: "1 < count (mset (s_table s) + G) l" and room: "0 < fq_len (p_free p)"
  shows "\<exists>p' d. copy_tail p s = Some (p', us @ [d],
      \<lparr>bc_src = l, bc_dst = d, bc_tokens = s_scheduled s mod p_block_tokens p\<rparr>) \<and>
    pool_ok p' (mset (us @ [d]) + G) \<and> d \<notin># mset (s_table s) + G \<and> p_block_hashes p' ! d = None \<and>
    pool_frame (set_mset (mset (s_table s) + G)) p p' \<and> fq_len (p_free p') = fq_len (p_free p) - 1"
proof -
  obtain d p1 where p1: "take_free p = Some (d, p1)" "pool_ok p1 (add_mset d (mset (s_table s) + G))"
    "d \<notin># mset (s_table s) + G" "p_block_hashes p1 ! d = None"
    "pool_frame (set_mset (mset (s_table s) + G)) p p1" "fq_len (p_free p1) = fq_len (p_free p) - 1"
    using take_free_ok [OF ok room] by blast
  have ne: "d \<noteq> l" using p1(3) t by auto
  have "l \<in># add_mset d (mset (s_table s) + G)" using t by simp
  from release_ok [OF p1(2) this] obtain p2 where p2: "release p1 l = Some p2"
    "pool_ok p2 (add_mset d (mset (s_table s) + G) - {#l#})" "pool_frame UNIV p1 p2"
    "p_block_hashes p2 = p_block_hashes p1"
    "fq_len (p_free p2) = fq_len (p_free p1) + (if count (add_mset d (mset (s_table s) + G)) l = 1 then 1 else 0)"
    by blast
  have "fq_len (p_free p2) = fq_len (p_free p1)" using p2(5) shared ne by simp
  moreover have "copy_tail p s = Some (p2, us @ [d],
      \<lparr>bc_src = l, bc_dst = d, bc_tokens = s_scheduled s mod p_block_tokens p\<rparr>)"
    using t p1(1) p2(1) by (simp add: copy_tail_def checked_sub_def)
  moreover have "add_mset d (mset (s_table s) + G) - {#l#} = mset (us @ [d]) + G" using t by simp
  moreover have "pool_frame (set_mset (mset (s_table s) + G)) p p2"
    by (rule pool_frame_trans [OF p1(5) p2(3)]) auto
  ultimately show ?thesis using p1 p2 by (intro exI [of _ p2] exI [of _ d]) auto
qed

text \<open>What a reservation of \<open>cnt\<close> slots promises, \<open>G\<close> being the references of the other tables: full
  blocks stay where they are, and every block a new position falls in is held once.\<close>

definition reserve_spec ::
  "pool \<Rightarrow> sequence \<Rightarrow> nat \<Rightarrow> nat multiset \<Rightarrow> allocation \<Rightarrow> nat list \<Rightarrow> pool \<Rightarrow> bool" where
  "reserve_spec p s cnt G al t' p' \<longleftrightarrow>
     (let bt = p_block_tokens p; k = s_scheduled s div bt; H = mset (s_table s) + G in
      length t' = div_ceil (s_scheduled s + cnt) bt \<and> take k t' = take k (s_table s) \<and>
      pool_ok p' (mset t' + G) \<and> pool_frame (set_mset H) p p' \<and>
      al_positions al = \<lparr>ts_start = s_scheduled s, ts_end = s_scheduled s + cnt\<rparr> \<and>
      (\<forall>i. k \<le> i \<longrightarrow> i < length t' \<longrightarrow>
         (0 < cnt \<longrightarrow> count (mset t' + G) (t' ! i) = 1) \<and>
         (i < length (s_table s) \<and> t' ! i = s_table s ! i \<or>
          t' ! i \<notin># H \<and> p_block_hashes p' ! (t' ! i) = None)) \<and>
      (case al_copy al of
         None \<Rightarrow> take (length (s_table s)) t' = s_table s
       | Some c \<Rightarrow> s_scheduled s mod bt \<noteq> 0 \<and> k < length (s_table s) \<and>
           c = \<lparr>bc_src = s_table s ! k, bc_dst = t' ! k, bc_tokens = s_scheduled s mod bt\<rparr> \<and>
           t' ! k \<notin># H))"

lemma count_new_block:
  "distinct new \<Longrightarrow> b \<in> set new \<Longrightarrow> b \<notin># H \<Longrightarrow> count (mset new + H) b = 1"
  by (simp add: distinct_count_atmost_1 not_in_iff)

lemma div_ceil_split:
  "0 < bt \<Longrightarrow> div_ceil n bt = n div bt + (if n mod bt = 0 then 0 else 1)"
  by (simp add: div_ceil_def)

lemma needs_copy_eq:
  assumes ok: "pool_ok p (mset (s_table s) + G)"
    and len: "length (s_table s) = div_ceil (s_scheduled s) (p_block_tokens p)"
  shows "needs_copy p s = Some (s_scheduled s mod p_block_tokens p \<noteq> 0 \<and>
    1 < count (mset (s_table s) + G) (s_table s ! (s_scheduled s div p_block_tokens p)))"
proof (cases "s_scheduled s mod p_block_tokens p = 0")
  case True
  then show ?thesis by (simp add: needs_copy_def)
next
  case False
  have bt: "0 < p_block_tokens p" using ok by (simp add: pool_ok_def)
  let ?k = "s_scheduled s div p_block_tokens p"
  have lk: "length (s_table s) = Suc ?k" using len False bt by (simp add: div_ceil_split)
  then have last: "last_opt (s_table s) = Some (s_table s ! ?k)"
    by (auto simp: last_opt_def last_conv_nth)
  have "s_table s ! ?k \<in># mset (s_table s) + G" using lk by simp
  then have "s_table s ! ?k < length (p_ref_counts p)" using ok unfolding pool_ok_def by blast
  then show ?thesis using False last ok by (simp add: needs_copy_def pool_ok_def)
qed

lemma cost_eq:
  assumes ok: "pool_ok p (mset (s_table s) + G)"
    and len: "length (s_table s) = div_ceil (s_scheduled s) (p_block_tokens p)"
    and fits: "s_scheduled s + cnt \<le> usize_max"
  shows "cost p s cnt = Some (if cnt = 0 then 0 else
    div_ceil (s_scheduled s + cnt) (p_block_tokens p) - length (s_table s) +
    (if s_scheduled s mod p_block_tokens p \<noteq> 0 \<and>
        1 < count (mset (s_table s) + G) (s_table s ! (s_scheduled s div p_block_tokens p)) then 1 else 0))"
proof -
  have "div_ceil (s_scheduled s) (p_block_tokens p) \<le> div_ceil (s_scheduled s + cnt) (p_block_tokens p)"
    using ok by (intro div_ceil_mono) (simp_all add: pool_ok_def)
  then show ?thesis using fits needs_copy_eq [OF ok len] len
    by (simp add: cost_def checked_sub_def add_usize_def)
qed

lemma reserve_step:
  assumes ok1: "pool_ok p1 (mset t1 + G)" and fr1: "pool_frame (set_mset (mset (s_table s) + G)) p p1"
    and bt: "0 < p_block_tokens p"
    and len: "length (s_table s) = div_ceil (s_scheduled s) (p_block_tokens p)" "length t1 = length (s_table s)"
    and room: "div_ceil (s_scheduled s + cnt) (p_block_tokens p) - length t1 \<le> fq_len (p_free p1)"
    and full: "take (s_scheduled s div p_block_tokens p) t1 = take (s_scheduled s div p_block_tokens p) (s_table s)"
    and tail: "s_scheduled s mod p_block_tokens p \<noteq> 0 \<Longrightarrow> 0 < cnt \<Longrightarrow>
      count (mset t1 + G) (t1 ! (s_scheduled s div p_block_tokens p)) = 1"
    and moved: "(copy = None \<and> t1 = s_table s \<or> s_scheduled s mod p_block_tokens p \<noteq> 0 \<and>
        copy = Some \<lparr>bc_src = s_table s ! (s_scheduled s div p_block_tokens p),
          bc_dst = t1 ! (s_scheduled s div p_block_tokens p), bc_tokens = s_scheduled s mod p_block_tokens p\<rparr> \<and>
        t1 ! (s_scheduled s div p_block_tokens p) \<notin># mset (s_table s) + G \<and>
        p_block_hashes p1 ! (t1 ! (s_scheduled s div p_block_tokens p)) = None)"
    and sub: "set (s_table s) \<subseteq> set t1 \<union> set_mset G"
  shows "\<exists>p' t'. extend_table (div_ceil (s_scheduled s + cnt) (p_block_tokens p)) p1 t1 = Some (p', t') \<and>
    reserve_spec p s cnt G \<lparr>al_positions = \<lparr>ts_start = s_scheduled s, ts_end = s_scheduled s + cnt\<rparr>,
      al_copy = copy\<rparr> t' p'"
proof -
  let ?bt = "p_block_tokens p" and ?H = "mset (s_table s) + G"
  let ?k = "s_scheduled s div ?bt" and ?need = "div_ceil (s_scheduled s + cnt) (p_block_tokens p)"
  obtain p2 new where p2: "extend_table ?need p1 t1 = Some (p2, t1 @ new)" "pool_ok p2 (mset new + (mset t1 + G))"
    "length new = ?need - length t1" "distinct new" "set new \<inter> set_mset (mset t1 + G) = {}"
    "\<forall>b\<in>set new. p_block_hashes p2 ! b = None" "pool_frame (set_mset (mset t1 + G)) p1 p2"
    using extend_table_ok [OF ok1 room] by blast
  have grow: "length t1 \<le> ?need" using bt len by (simp add: div_ceil_mono)
  have k: "length t1 = ?k + (if s_scheduled s mod ?bt = 0 then 0 else 1)"
    using len bt by (simp add: div_ceil_split)
  have HS: "set_mset ?H \<subseteq> set_mset (mset t1 + G)" using sub by auto
  have eqm: "mset (t1 @ new) + G = mset new + (mset t1 + G)" by simp
  have frame: "pool_frame (set_mset ?H) p p2" by (rule pool_frame_trans [OF fr1 p2(7)]) (use HS in auto)
  have at: "(0 < cnt \<longrightarrow> count (mset (t1 @ new) + G) ((t1 @ new) ! i) = 1) \<and>
      (i < length (s_table s) \<and> (t1 @ new) ! i = s_table s ! i \<or>
       (t1 @ new) ! i \<notin># ?H \<and> p_block_hashes p2 ! ((t1 @ new) ! i) = None)"
    if i: "?k \<le> i" "i < length (t1 @ new)" for i
  proof (cases "i < length t1")
    case True
    then have ik: "i = ?k" "s_scheduled s mod ?bt \<noteq> 0" using i k by (auto split: if_splits)
    have mem: "t1 ! ?k \<in># mset t1 + G" using True ik by simp
    then have "t1 ! ?k \<notin> set new" using p2(5) by blast
    then have "count (mset new) (t1 ! ?k) = 0" by simp
    then have e: "count (mset (t1 @ new) + G) (t1 ! ?k) = count (mset t1 + G) (t1 ! ?k)"
      by (simp only: mset_append count_union add_0_right)
    have nth: "(t1 @ new) ! i = t1 ! ?k" using True ik by (simp add: nth_append)
    have "t1 ! ?k = s_table s ! ?k \<or> t1 ! ?k \<notin># ?H \<and> p_block_hashes p2 ! (t1 ! ?k) = None"
    proof (cases "t1 = s_table s")
      case False
      then have "t1 ! ?k \<notin># ?H" "p_block_hashes p1 ! (t1 ! ?k) = None" using moved by blast+
      then show ?thesis using p2(7) mem unfolding pool_frame_def by metis
    qed simp
    then show ?thesis unfolding nth e using tail [OF ik(2)] True ik(1) len(2) by metis
  next
    case False
    then have mem: "(t1 @ new) ! i \<in> set new" using i by (auto simp: nth_append)
    then have out: "(t1 @ new) ! i \<notin># mset t1 + G" using p2(5) by blast
    then have "count (mset (t1 @ new) + G) ((t1 @ new) ! i) = 1"
      unfolding eqm by (rule count_new_block [OF p2(4) mem])
    then show ?thesis using out HS mem p2(6) by blast
  qed
  have "reserve_spec p s cnt G \<lparr>al_positions = \<lparr>ts_start = s_scheduled s, ts_end = s_scheduled s + cnt\<rparr>,
      al_copy = copy\<rparr> (t1 @ new) p2"
    unfolding reserve_spec_def Let_def
  proof (intro conjI)
    show "length (t1 @ new) = ?need" using p2(3) grow by simp
    show "take ?k (t1 @ new) = take ?k (s_table s)" using full k by simp
    show "pool_ok p2 (mset (t1 @ new) + G)" unfolding eqm by (rule p2(2))
    show "\<forall>i. ?k \<le> i \<longrightarrow> i < length (t1 @ new) \<longrightarrow>
         (0 < cnt \<longrightarrow> count (mset (t1 @ new) + G) ((t1 @ new) ! i) = 1) \<and>
         (i < length (s_table s) \<and> (t1 @ new) ! i = s_table s ! i \<or>
          (t1 @ new) ! i \<notin># ?H \<and> p_block_hashes p2 ! ((t1 @ new) ! i) = None)"
      using at by blast
    show "pool_frame (set_mset ?H) p p2" by (rule frame)
  qed (use moved k len in \<open>auto simp: nth_append split: option.splits\<close>)
  then show ?thesis using p2(1) by blast
qed

lemma reserve_ok:
  assumes ok: "pool_ok p (mset (s_table s) + G)"
    and len: "length (s_table s) = div_ceil (s_scheduled s) (p_block_tokens p)"
    and fits: "s_scheduled s + cnt \<le> usize_max"
    and room: "cost p s cnt = Some c" "c \<le> fq_len (p_free p)"
  shows "\<exists>al t' p'. reserve p s cnt =
      Some (al, s\<lparr>s_table := t', s_scheduled := s_scheduled s + cnt\<rparr>, p') \<and>
    reserve_spec p s cnt G al t' p'"
proof -
  let ?bt = "p_block_tokens p" and ?t = "s_table s"
  let ?k = "s_scheduled s div ?bt" and ?need = "div_ceil (s_scheduled s + cnt) (p_block_tokens p)"
  let ?shared = "s_scheduled s mod ?bt \<noteq> 0 \<and> 1 < count (mset ?t + G) (?t ! ?k)"
  have bt: "0 < ?bt" using ok by (simp add: pool_ok_def)
  have k: "length ?t = ?k + (if s_scheduled s mod ?bt = 0 then 0 else 1)"
    using len bt by (simp add: div_ceil_split)
  have c: "c = (if cnt = 0 then 0 else ?need - length ?t + (if ?shared then 1 else 0))"
    using room(1) cost_eq [OF ok len fits] by simp
  note nc = needs_copy_eq [OF ok len]
  show ?thesis
  proof (cases "0 < cnt \<and> ?shared")
    case True
    then have sh: "s_scheduled s mod ?bt \<noteq> 0" "1 < count (mset ?t + G) (?t ! ?k)" and cnt: "0 < cnt" by blast+
    have lk: "length ?t = Suc ?k" using k sh by simp
    then have t: "?t = take ?k ?t @ [?t ! ?k]"
      by (metis lessI order_refl take_Suc_conv_app_nth take_all)
    have "0 < fq_len (p_free p)" using c room(2) cnt sh by simp
    from copy_tail_ok [OF ok t sh(2) this] obtain p1 d where d:
      "copy_tail p s = Some (p1, take ?k ?t @ [d],
         \<lparr>bc_src = ?t ! ?k, bc_dst = d, bc_tokens = s_scheduled s mod ?bt\<rparr>)"
      "pool_ok p1 (mset (take ?k ?t @ [d]) + G)" "d \<notin># mset ?t + G" "p_block_hashes p1 ! d = None"
      "pool_frame (set_mset (mset ?t + G)) p p1" "fq_len (p_free p1) = fq_len (p_free p) - 1"
      by blast
    let ?t1 = "take ?k ?t @ [d]"
    have nth: "?t1 ! ?k = d" using lk by (simp add: nth_append)
    have "count (mset ?t) d = 0" "count G d = 0" using d(3) by (simp_all add: not_in_iff)
    then have "count (mset (take ?k ?t)) d = 0" using in_set_takeD by (fastforce simp: count_mset_0_iff)
    then have one: "count (mset ?t1 + G) (?t1 ! ?k) = 1" using nth \<open>count G d = 0\<close> by simp
    have "?t ! ?k \<in> set (take ?k ?t) \<union> set_mset G"
    proof (rule ccontr)
      assume "?t ! ?k \<notin> set (take ?k ?t) \<union> set_mset G"
      then have "count (mset (take ?k ?t @ [?t ! ?k]) + G) (?t ! ?k) \<le> 1" by (simp add: not_in_iff)
      then show False using sh(2) t by simp
    qed
    then have sub: "set ?t \<subseteq> set ?t1 \<union> set_mset G" by (subst t) auto
    have lt1: "length ?t1 = length ?t" using lk by simp
    have "?need - length ?t1 \<le> fq_len (p_free p1)"
      using c room(2) cnt sh d(6) lt1 by simp
    from reserve_step [OF d(2,5) bt len lt1 this _ _ _ sub,
        where copy = "Some \<lparr>bc_src = ?t ! ?k, bc_dst = d, bc_tokens = s_scheduled s mod ?bt\<rparr>"]
    obtain p' t' where "extend_table ?need p1 ?t1 = Some (p', t')"
      "reserve_spec p s cnt G \<lparr>al_positions = \<lparr>ts_start = s_scheduled s, ts_end = s_scheduled s + cnt\<rparr>,
        al_copy = Some \<lparr>bc_src = ?t ! ?k, bc_dst = d, bc_tokens = s_scheduled s mod ?bt\<rparr>\<rparr> t' p'"
      using one nth d(3,4) sh lk by auto
    moreover have "reserve p s cnt = Some (\<lparr>al_positions = \<lparr>ts_start = s_scheduled s, ts_end = s_scheduled s + cnt\<rparr>,
        al_copy = Some \<lparr>bc_src = ?t ! ?k, bc_dst = d, bc_tokens = s_scheduled s mod ?bt\<rparr>\<rparr>,
        s\<lparr>s_table := t', s_scheduled := s_scheduled s + cnt\<rparr>, p')"
      using calculation(1) d(1) cnt sh nc fits by (simp add: reserve_def add_usize_def span_new_def)
    ultimately show ?thesis by blast
  next
    case False
    have "?need - length ?t \<le> fq_len (p_free p)"
      using c room(2) len by (auto split: if_splits)
    moreover have "count (mset ?t + G) (?t ! ?k) = 1" if m: "s_scheduled s mod ?bt \<noteq> 0" "0 < cnt"
    proof -
      have "?t ! ?k \<in># mset ?t + G" using m(1) k by simp
      then have "0 < count (mset ?t + G) (?t ! ?k)" by (rule count_greater_zero_iff [THEN iffD2])
      moreover have "\<not> 1 < count (mset ?t + G) (?t ! ?k)" using False m by blast
      ultimately show ?thesis by linarith
    qed
    ultimately have "\<exists>p' t'. extend_table ?need p ?t = Some (p', t') \<and>
      reserve_spec p s cnt G \<lparr>al_positions = \<lparr>ts_start = s_scheduled s, ts_end = s_scheduled s + cnt\<rparr>,
        al_copy = None\<rparr> t' p'"
      by (intro reserve_step [OF ok _ bt len refl _ refl]) auto
    then obtain p' t' where st: "extend_table ?need p ?t = Some (p', t')"
      "reserve_spec p s cnt G \<lparr>al_positions = \<lparr>ts_start = s_scheduled s, ts_end = s_scheduled s + cnt\<rparr>,
        al_copy = None\<rparr> t' p'" by blast
    have "reserve p s cnt = Some (\<lparr>al_positions = \<lparr>ts_start = s_scheduled s, ts_end = s_scheduled s + cnt\<rparr>,
        al_copy = None\<rparr>, s\<lparr>s_table := t', s_scheduled := s_scheduled s + cnt\<rparr>, p')"
      using st(1) False nc fits by (auto simp: reserve_def add_usize_def span_new_def)
    then show ?thesis using st(2) by blast
  qed
qed

end
