(* ===== verification/BlockManager.thy ===== *)
theory BlockManager
  imports BlockPool
begin

text \<open>
  \<open>BlockManager\<close> of \<open>crates/core/engine/src/blocks/manager.rs\<close>: one definition per method. An
  operation returns \<open>None\<close> when the code panics and otherwise the \<open>Result\<close> (\<open>Inl\<close> the error) with
  the manager after the call. The invariant \<open>mgr_ok\<close> ties the reference counts, the free queue
  and the prefix map to the block tables; every operation preserves it, none panics on it, and an
  error leaves the manager as it was.
\<close>

section \<open>State\<close>

text \<open>\<open>PoolId\<close> is compared by the address of its allocation: a number that is fresh for every
  \<open>new\<close> and \<open>clone\<close>, given as an argument.\<close>

type_synonym pool_id = nat

record prefix_hit =
  h_owner :: pool_id
  h_keys :: hash_keys
  h_blocks :: "nat list"
  h_hashes :: "block_hash list"
  h_cached_tokens :: nat
  h_prompt_tokens :: nat

record manager =
  m_owner :: pool_id
  m_config :: pool_config
  m_pool :: pool
  m_sequences :: "seq_id \<rightharpoonup> sequence"

record slot =
  sl_block :: nat
  sl_offset :: nat

type_synonym 'a outcome = "((block_error + 'a) \<times> manager) option"

section \<open>Construction and queries\<close>

definition zero_counters :: kv_counters where
  "zero_counters = \<lparr>c_prefix_queries = 0, c_prefix_hits = 0, c_evictions = 0\<rparr>"

definition manager_new :: "pool_id \<Rightarrow> pool_config \<Rightarrow> manager option" where
  "manager_new owner config = do {
     free \<leftarrow> fq_full (num_blocks config);
     Some \<lparr>m_owner = owner, m_config = config,
       m_pool = \<lparr>p_block_tokens = pc_block_tokens config,
                 p_prefix_caching = pc_prefix_caching config,
                 p_ref_counts = replicate (num_blocks config) 0,
                 p_block_hashes = replicate (num_blocks config) None,
                 p_free = free, p_cached = Map.empty, p_counters = zero_counters,
                 p_published_tokens = 0\<rparr>,
       m_sequences = Map.empty\<rparr>
   }"

definition manager_clone :: "pool_id \<Rightarrow> manager \<Rightarrow> manager" where
  "manager_clone owner m = m\<lparr>m_owner := owner\<rparr>"

definition total_blocks :: "manager \<Rightarrow> nat" where
  "total_blocks m = length (p_ref_counts (m_pool m))"

definition chunk_end :: "manager \<Rightarrow> nat \<Rightarrow> nat \<Rightarrow> nat \<Rightarrow> nat" where
  "chunk_end m start len budget =
     (let stop = saturating_add_usize start budget in
      if stop \<ge> len then len
      else let aligned = stop div p_block_tokens (m_pool m) * p_block_tokens (m_pool m) in
           if aligned > start then aligned else start)"

definition free_blocks :: "manager \<Rightarrow> nat" where
  "free_blocks m = fq_len (p_free (m_pool m))"

definition ref_count :: "manager \<Rightarrow> nat \<Rightarrow> nat option" where
  "ref_count m b = list_get (p_ref_counts (m_pool m)) b"

definition cached_hash :: "manager \<Rightarrow> nat \<Rightarrow> block_hash option" where
  "cached_hash m b = list_get (p_block_hashes (m_pool m)) b \<bind> (\<lambda>h. h)"

definition sequence_of :: "manager \<Rightarrow> seq_id \<Rightarrow> block_error + sequence" where
  "sequence_of m sid = (case m_sequences m sid of None \<Rightarrow> Inl (UnknownSequence sid) | Some s \<Rightarrow> Inr s)"

definition block_table :: "manager \<Rightarrow> seq_id \<Rightarrow> block_error + nat list" where
  "block_table m sid = map_sum (\<lambda>e. e) s_table (sequence_of m sid)"

definition num_tokens :: "manager \<Rightarrow> seq_id \<Rightarrow> block_error + nat" where
  "num_tokens m sid = map_sum (\<lambda>e. e) s_scheduled (sequence_of m sid)"

definition num_unresolved :: "manager \<Rightarrow> seq_id \<Rightarrow> block_error + nat" where
  "num_unresolved m sid = map_sum (\<lambda>e. e) s_unresolved (sequence_of m sid)"

definition num_computed :: "manager \<Rightarrow> seq_id \<Rightarrow> block_error + nat" where
  "num_computed m sid = map_sum (\<lambda>e. e) s_computed (sequence_of m sid)"

text \<open>The lazily mapped slots, all of them taken.\<close>

definition slot_at :: "pool \<Rightarrow> sequence \<Rightarrow> nat \<Rightarrow> slot option" where
  "slot_at p s position = do {
     block \<leftarrow> list_get (s_table s) (position div p_block_tokens p);
     Some \<lparr>sl_block = block, sl_offset = position mod p_block_tokens p\<rparr>
   }"

definition slots :: "manager \<Rightarrow> seq_id \<Rightarrow> token_span \<Rightarrow> (block_error + slot list) option" where
  "slots m sid positions =
     (case sequence_of m sid of
        Inl e \<Rightarrow> Some (Inl e)
      | Inr s \<Rightarrow>
          if ts_end positions > s_scheduled s
          then Some (Inl (PositionOutOfRange (ts_end positions - 1) (s_scheduled s)))
          else map_option Inr (opt_map (slot_at (m_pool m) s) (span_iter positions)))"

definition slot_flat :: "nat \<Rightarrow> slot \<Rightarrow> nat" where
  "slot_flat block_tokens sl = sl_block sl * block_tokens + sl_offset sl"

section \<open>Prefix lookup and admission\<close>

text \<open>The loop over the prompt's chunks, stopped by the first key that is not cached.\<close>

fun lookup_loop ::
  "(byte list \<Rightarrow> byte list) \<Rightarrow> pool \<Rightarrow> hash_keys \<Rightarrow> token list list \<Rightarrow> nat list \<Rightarrow> block_hash list \<Rightarrow>
   nat list \<times> block_hash list" where
  "lookup_loop sha p keys [] blocks hashes = (blocks, hashes)"
| "lookup_loop sha p keys (tokens # rest) blocks hashes =
     (let hash = hash_block sha (last_opt hashes) tokens keys in
      case p_cached p hash of
        None \<Rightarrow> (blocks, hashes)
      | Some block \<Rightarrow> lookup_loop sha p keys rest (blocks @ [block]) (hashes @ [hash]))"

definition lookup_prefix ::
  "(byte list \<Rightarrow> byte list) \<Rightarrow> manager \<Rightarrow> token list \<Rightarrow> hash_keys \<Rightarrow> prefix_hit" where
  "lookup_prefix sha m prompt keys =
     (let p = m_pool m; bt = p_block_tokens p;
          max_blocks = (length prompt - 1) div bt;
          (blocks, hashes) =
            (if p_prefix_caching p
             then lookup_loop sha p keys (take max_blocks (chunks_exact bt prompt)) [] []
             else ([], []))
      in \<lparr>h_owner = m_owner m, h_keys = keys, h_blocks = blocks, h_hashes = hashes,
          h_cached_tokens = length blocks * bt, h_prompt_tokens = length prompt\<rparr>)"

text \<open>The \<open>any\<close> of \<open>validate_hit\<close>, short-circuiting; an index out of range panics.\<close>

fun hit_stale :: "pool \<Rightarrow> (nat \<times> block_hash) list \<Rightarrow> bool option" where
  "hit_stale p [] = Some False"
| "hit_stale p ((block, hash) # rest) = do {
     key \<leftarrow> list_get (p_block_hashes p) block;
     if key \<noteq> Some hash \<or> p_cached p hash \<noteq> Some block then Some True else hit_stale p rest
   }"

definition validate_hit :: "manager \<Rightarrow> prefix_hit \<Rightarrow> (block_error + unit) option" where
  "validate_hit m hit =
     (if m_owner m \<noteq> h_owner hit then Some (Inl StalePrefixHit)
      else map_option (\<lambda>stale. if stale then Inl StalePrefixHit else Inr ())
             (hit_stale (m_pool m) (zip (h_blocks hit) (h_hashes hit))))"

fun count_unreferenced :: "pool \<Rightarrow> nat list \<Rightarrow> nat option" where
  "count_unreferenced p [] = Some 0"
| "count_unreferenced p (block # rest) = do {
     r \<leftarrow> list_get (p_ref_counts p) block;
     n \<leftarrow> count_unreferenced p rest;
     Some (if r = 0 then Suc n else n)
   }"

definition admit_cost :: "manager \<Rightarrow> prefix_hit \<Rightarrow> nat \<Rightarrow> (block_error + nat) option" where
  "admit_cost m hit chunk_tokens = do {
     valid \<leftarrow> validate_hit m hit;
     case valid of
       Inl e \<Rightarrow> Some (Inl e)
     | Inr _ \<Rightarrow> do {
         pinned_free \<leftarrow> count_unreferenced (m_pool m) (h_blocks hit);
         total \<leftarrow> add_usize (h_cached_tokens hit) chunk_tokens;
         sum \<leftarrow> add_usize pinned_free (div_ceil total (p_block_tokens (m_pool m)));
         cost \<leftarrow> checked_sub sum (length (h_blocks hit));
         Some (Inr cost)
       }
   }"

definition count_query :: "prefix_hit \<Rightarrow> kv_counters \<Rightarrow> kv_counters" where
  "count_query hit c =
     c\<lparr>c_prefix_queries := saturating_add_u64 (c_prefix_queries c) (h_prompt_tokens hit),
       c_prefix_hits := saturating_add_u64 (c_prefix_hits c) (h_cached_tokens hit)\<rparr>"

definition admitted :: "prefix_hit \<Rightarrow> sequence" where
  "admitted hit = \<lparr>s_keys = h_keys hit, s_table = h_blocks hit, s_scheduled = h_cached_tokens hit,
     s_computed = h_cached_tokens hit, s_hashes = h_hashes hit, s_unhashed = [], s_unresolved = 0\<rparr>"

definition admit :: "manager \<Rightarrow> seq_id \<Rightarrow> prefix_hit \<Rightarrow> token list \<Rightarrow> allocation outcome" where
  "admit m sid hit chunk =
     (if m_sequences m sid \<noteq> None then Some (Inl (SequenceExists sid), m)
      else do {
        needed \<leftarrow> admit_cost m hit (length chunk);
        case needed of
          Inl e \<Rightarrow> Some (Inl e, m)
        | Inr needed \<Rightarrow>
            if needed > fq_len (p_free (m_pool m))
            then Some (Inl (OutOfBlocks needed (fq_len (p_free (m_pool m)))), m)
            else do {
              p1 \<leftarrow> add_refs (m_pool m) (h_blocks hit);
              (al, s, p2) \<leftarrow> append_tokens (p1\<lparr>p_counters := count_query hit (p_counters p1)\<rparr>) (admitted hit) chunk;
              Some (Inr al, m\<lparr>m_pool := p2, m_sequences := (m_sequences m)(sid \<mapsto> s)\<rparr>)
            }
      })"

section \<open>Appending, committing, forking, freeing\<close>

definition append_cost :: "manager \<Rightarrow> seq_id \<Rightarrow> nat \<Rightarrow> (block_error + nat) option" where
  "append_cost m sid tokens =
     (case sequence_of m sid of
        Inl e \<Rightarrow> Some (Inl e)
      | Inr s \<Rightarrow> map_option Inr (cost (m_pool m) s tokens))"

definition allocate :: "manager \<Rightarrow> seq_id \<Rightarrow> token list \<Rightarrow> allocation outcome" where
  "allocate m sid tokens =
     (case m_sequences m sid of
        None \<Rightarrow> Some (Inl (UnknownSequence sid), m)
      | Some s \<Rightarrow>
          if s_unresolved s > 0 then Some (Inl (Unresolved sid), m)
          else do {
            needed \<leftarrow> cost (m_pool m) s (length tokens);
            if needed > fq_len (p_free (m_pool m))
            then Some (Inl (OutOfBlocks needed (fq_len (p_free (m_pool m)))), m)
            else do {
              (al, s', p') \<leftarrow> append_tokens (m_pool m) s tokens;
              Some (Inr al, m\<lparr>m_pool := p', m_sequences := (m_sequences m)(sid \<mapsto> s')\<rparr>)
            }
          })"

definition allocate_unresolved :: "manager \<Rightarrow> seq_id \<Rightarrow> nat \<Rightarrow> allocation outcome" where
  "allocate_unresolved m sid cnt =
     (case m_sequences m sid of
        None \<Rightarrow> Some (Inl (UnknownSequence sid), m)
      | Some s \<Rightarrow> do {
          needed \<leftarrow> cost (m_pool m) s cnt;
          if needed > fq_len (p_free (m_pool m))
          then Some (Inl (OutOfBlocks needed (fq_len (p_free (m_pool m)))), m)
          else do {
            (al, s', p') \<leftarrow> reserve (m_pool m) s cnt;
            unresolved \<leftarrow> add_usize (s_unresolved s') cnt;
            Some (Inr al, m\<lparr>m_pool := p',
              m_sequences := (m_sequences m)(sid \<mapsto> s'\<lparr>s_unresolved := unresolved\<rparr>)\<rparr>)
          }
        })"

definition resolve :: "manager \<Rightarrow> seq_id \<Rightarrow> token list \<Rightarrow> unit outcome" where
  "resolve m sid tokens =
     (case m_sequences m sid of
        None \<Rightarrow> Some (Inl (UnknownSequence sid), m)
      | Some s \<Rightarrow>
          if length tokens > s_unresolved s then Some (Inl (Unresolved sid), m)
          else
            let s1 = s\<lparr>s_unresolved := s_unresolved s - length tokens\<rparr>;
                s2 = (if p_prefix_caching (m_pool m)
                      then s1\<lparr>s_unhashed := s_unhashed s1 @ tokens\<rparr> else s1)
            in Some (Inr (), m\<lparr>m_sequences := (m_sequences m)(sid \<mapsto> s2)\<rparr>))"

text \<open>The body of the loop of \<open>commit_through\<close>, and the loop.\<close>

definition publish :: "pool \<Rightarrow> nat \<Rightarrow> block_hash \<Rightarrow> pool option" where
  "publish p block hash = do {
     key \<leftarrow> list_get (p_block_hashes p) block;
     Some (if key = None \<and> p_cached p hash = None
           then p\<lparr>p_block_hashes := (p_block_hashes p)[block := Some hash],
                  p_cached := (p_cached p)(hash \<mapsto> block),
                  p_published_tokens := saturating_add_usize (p_published_tokens p) (p_block_tokens p)\<rparr>
           else p)
   }"

fun commit_loop ::
  "(byte list \<Rightarrow> byte list) \<Rightarrow> hash_keys \<Rightarrow> nat list \<Rightarrow> pool \<Rightarrow> block_hash list \<Rightarrow> nat \<Rightarrow> token list list \<Rightarrow>
   (pool \<times> block_hash list \<times> nat) option" where
  "commit_loop sha keys table p hashes hashed [] = Some (p, hashes, hashed)"
| "commit_loop sha keys table p hashes hashed (tokens # rest) = do {
     let hash = hash_block sha (last_opt hashes) tokens keys;
     block \<leftarrow> list_get table (length hashes);
     p' \<leftarrow> publish p block hash;
     commit_loop sha keys table p' (hashes @ [hash]) (hashed + p_block_tokens p) rest
   }"

definition commit_through :: "(byte list \<Rightarrow> byte list) \<Rightarrow> manager \<Rightarrow> seq_id \<Rightarrow> nat \<Rightarrow> unit outcome" where
  "commit_through sha m sid computed =
     (case m_sequences m sid of
        None \<Rightarrow> Some (Inl (UnknownSequence sid), m)
      | Some s \<Rightarrow>
          if computed > s_scheduled s
          then Some (Inl (PositionOutOfRange (computed - 1) (s_scheduled s)), m)
          else do {
            let done = max (s_computed s) computed;
            let bt = p_block_tokens (m_pool m);
            covered \<leftarrow> mul_usize (length (s_hashes s)) bt;
            let hashable = min (done - covered) (length (s_unhashed s));
            (p, hashes, hashed) \<leftarrow> commit_loop sha (s_keys s) (s_table s) (m_pool m) (s_hashes s) 0
                                    (chunks_exact bt (take hashable (s_unhashed s)));
            Some (Inr (), m\<lparr>m_pool := p,
              m_sequences := (m_sequences m)(sid \<mapsto> s\<lparr>s_computed := done, s_hashes := hashes,
                s_unhashed := drop hashed (s_unhashed s)\<rparr>)\<rparr>)
          })"

definition commit :: "(byte list \<Rightarrow> byte list) \<Rightarrow> manager \<Rightarrow> seq_id \<Rightarrow> unit outcome" where
  "commit sha m sid =
     (case num_tokens m sid of Inl e \<Rightarrow> Some (Inl e, m) | Inr scheduled \<Rightarrow> commit_through sha m sid scheduled)"

definition fork :: "manager \<Rightarrow> seq_id \<Rightarrow> seq_id \<Rightarrow> unit outcome" where
  "fork m parent child =
     (case sequence_of m parent of
        Inl e \<Rightarrow> Some (Inl e, m)
      | Inr source \<Rightarrow>
          if m_sequences m child \<noteq> None then Some (Inl (SequenceExists child), m)
          else if s_scheduled source \<noteq> s_computed source \<or> s_unresolved source > 0
          then Some (Inl (Uncommitted parent), m)
          else do {
            p \<leftarrow> add_refs (m_pool m) (s_table source);
            Some (Inr (), m\<lparr>m_pool := p, m_sequences := (m_sequences m)(child \<mapsto> source)\<rparr>)
          })"

definition free :: "manager \<Rightarrow> seq_id \<Rightarrow> unit outcome" where
  "free m sid =
     (case m_sequences m sid of
        None \<Rightarrow> Some (Inl (UnknownSequence sid), m)
      | Some s \<Rightarrow> do {
          p \<leftarrow> releases (m_pool m) (rev (s_table s));
          Some (Inr (), m\<lparr>m_pool := p, m_sequences := (m_sequences m)(sid := None)\<rparr>)
        })"

section \<open>Invariant\<close>

definition held_by :: "(seq_id \<rightharpoonup> sequence) \<Rightarrow> nat multiset" where
  "held_by seqs = (\<Sum>i\<in>dom seqs. mset (s_table (the (seqs i))))"

definition full_blocks :: "nat \<Rightarrow> sequence \<Rightarrow> nat list" where
  "full_blocks bt s = take (s_scheduled s div bt) (s_table s)"

definition tail_blocks :: "nat \<Rightarrow> sequence \<Rightarrow> nat list" where
  "tail_blocks bt s = drop (s_scheduled s div bt) (s_table s)"

definition seq_ok :: "nat \<Rightarrow> bool \<Rightarrow> sequence \<Rightarrow> bool" where
  "seq_ok bt caching s \<longleftrightarrow>
     length (s_table s) = div_ceil (s_scheduled s) bt \<and> s_computed s \<le> s_scheduled s \<and>
     s_scheduled s \<le> usize_max \<and> s_unresolved s \<le> s_scheduled s \<and>
     length (s_hashes s) * bt \<le> s_computed s \<and>
     (if caching then length (s_hashes s) * bt + length (s_unhashed s) + s_unresolved s = s_scheduled s
      else s_hashes s = [] \<and> s_unhashed s = [])"

text \<open>No block is full in one table and still being filled in another, and no block being filled
  has a published key.\<close>

definition seqs_ok :: "nat \<Rightarrow> bool \<Rightarrow> block_hash option list \<Rightarrow> (seq_id \<rightharpoonup> sequence) \<Rightarrow> bool" where
  "seqs_ok bt caching hashes seqs \<longleftrightarrow>
     finite (dom seqs) \<and>
     (\<forall>i s. seqs i = Some s \<longrightarrow> seq_ok bt caching s \<and> (\<forall>b\<in>set (tail_blocks bt s). hashes ! b = None)) \<and>
     (\<forall>i j s t. seqs i = Some s \<longrightarrow> seqs j = Some t \<longrightarrow>
        set (full_blocks bt s) \<inter> set (tail_blocks bt t) = {})"

definition mgr_ok :: "manager \<Rightarrow> bool" where
  "mgr_ok m \<longleftrightarrow>
     p_block_tokens (m_pool m) = pc_block_tokens (m_config m) \<and>
     p_prefix_caching (m_pool m) = pc_prefix_caching (m_config m) \<and>
     length (p_ref_counts (m_pool m)) = num_blocks (m_config m) \<and>
     pool_ok (m_pool m) (held_by (m_sequences m)) \<and>
     seqs_ok (p_block_tokens (m_pool m)) (p_prefix_caching (m_pool m)) (p_block_hashes (m_pool m)) (m_sequences m)"

definition outcome_ok :: "manager \<Rightarrow> 'a outcome \<Rightarrow> bool" where
  "outcome_ok m res \<longleftrightarrow> (\<exists>r m'. res = Some (r, m') \<and> mgr_ok m' \<and> (isl r \<longrightarrow> m' = m))"

lemma outcome_ok_error: "mgr_ok m \<Longrightarrow> outcome_ok m (Some (Inl e, m))"
  by (simp add: outcome_ok_def)

lemma held_by_empty [simp]: "held_by Map.empty = {#}"
  by (simp add: held_by_def)

lemma held_by_upd:
  assumes "finite (dom seqs)"
  shows "held_by (seqs(i \<mapsto> s)) = mset (s_table s) + held_by (seqs(i := None))"
proof -
  have "held_by (seqs(i \<mapsto> s)) = mset (s_table s) +
      (\<Sum>j\<in>dom seqs - {i}. mset (s_table (the ((seqs(i \<mapsto> s)) j))))"
    using assms by (simp add: held_by_def sum.insert_remove)
  also have "(\<Sum>j\<in>dom seqs - {i}. mset (s_table (the ((seqs(i \<mapsto> s)) j)))) =
      (\<Sum>j\<in>dom seqs - {i}. mset (s_table (the ((seqs(i := None)) j))))"
    by (rule sum.cong) auto
  also have "\<dots> = held_by (seqs(i := None))" by (simp add: held_by_def)
  finally show ?thesis .
qed

lemma held_by_at:
  assumes "finite (dom seqs)" "seqs i = Some s"
  shows "held_by seqs = mset (s_table s) + held_by (seqs(i := None))"
  using held_by_upd [OF assms(1), of i s] assms(2) by (simp add: map_upd_triv)

lemma in_held_by:
  assumes "finite (dom seqs)" "seqs i = Some s" "b \<in> set (s_table s)"
  shows "b \<in># held_by seqs"
  using held_by_at [OF assms(1,2)] assms(3) by simp

lemma not_held:
  assumes "finite (dom seqs)"
  shows "b \<notin># held_by (seqs(i := None)) \<longleftrightarrow> (\<forall>j t. j \<noteq> i \<longrightarrow> seqs j = Some t \<longrightarrow> b \<notin> set (s_table t))"
proof -
  have fin: "finite (dom (seqs(i := None)))" by (rule finite_subset [OF _ assms]) auto
  then have "set_mset (held_by (seqs(i := None))) = (\<Union>j\<in>dom (seqs(i := None)). set (s_table (the ((seqs(i := None)) j))))"
    unfolding held_by_def by (subst set_mset_sum) simp_all
  then show ?thesis by (auto split: if_splits) force
qed

lemma full_tail: "set (s_table s) = set (full_blocks bt s) \<union> set (tail_blocks bt s)"
  by (metis append_take_drop_id full_blocks_def set_append tail_blocks_def)

lemma seqs_ok_upd:
  assumes ok: "seqs_ok bt c hs seqs" and s: "seq_ok bt c s"
    and keep: "\<And>j t b. seqs j = Some t \<Longrightarrow> j \<noteq> i \<Longrightarrow> b \<in> set (tail_blocks bt t) \<Longrightarrow> hs' ! b = None"
    and tail: "\<And>b. b \<in> set (tail_blocks bt s) \<Longrightarrow> hs' ! b = None"
    and self: "set (full_blocks bt s) \<inter> set (tail_blocks bt s) = {}"
    and cross: "\<And>j t. seqs j = Some t \<Longrightarrow> j \<noteq> i \<Longrightarrow>
      set (full_blocks bt s) \<inter> set (tail_blocks bt t) = {} \<and> set (full_blocks bt t) \<inter> set (tail_blocks bt s) = {}"
  shows "seqs_ok bt c hs' (seqs(i \<mapsto> s))"
  unfolding seqs_ok_def
proof (intro conjI allI impI)
  show "finite (dom (seqs(i \<mapsto> s)))" using ok by (simp add: seqs_ok_def)
next
  fix j t assume "(seqs(i \<mapsto> s)) j = Some t"
  then show "seq_ok bt c t" using ok s by (auto simp: seqs_ok_def split: if_splits)
next
  fix j t assume "(seqs(i \<mapsto> s)) j = Some t"
  then show "\<forall>b\<in>set (tail_blocks bt t). hs' ! b = None"
    using keep [of j t] tail by (cases "j = i") auto
next
  fix j k t u assume "(seqs(i \<mapsto> s)) j = Some t" "(seqs(i \<mapsto> s)) k = Some u"
  then show "set (full_blocks bt t) \<inter> set (tail_blocks bt u) = {}"
    using ok self cross [of j t] cross [of k u] unfolding seqs_ok_def
    by (cases "j = i"; cases "k = i") (simp, simp, simp, metis fun_upd_other)
qed

lemma seqs_ok_del: "seqs_ok bt c hs seqs \<Longrightarrow> seqs_ok bt c hs (seqs(i := None))"
  unfolding seqs_ok_def
  by (auto split: if_splits intro: finite_subset [of _ "dom seqs"])

section \<open>Reservations keep the invariant\<close>

lemma twice_in_list:
  assumes "a < length t" "i < length t" "a \<noteq> i" "t ! a = t ! i"
  shows "1 < count (mset t + G) (t ! i)"
proof -
  have "{a, i} \<subseteq> {j. j < length t \<and> t ! j = t ! i}" using assms by auto
  from card_mono [OF _ this] have "2 \<le> count (mset t) (t ! i)"
    using assms(3) by (simp add: count_mset count_list_eq_length_filter length_filter_conv_card eq_commute)
  then show ?thesis by simp
qed

lemma reserve_spec_at:
  assumes spec: "reserve_spec p s cnt G al t' p'"
  shows "\<And>i. s_scheduled s div p_block_tokens p \<le> i \<Longrightarrow> i < length t' \<Longrightarrow>
      t' ! i \<in> set (tail_blocks (p_block_tokens p) s) \<or>
      t' ! i \<notin># mset (s_table s) + G \<and> p_block_hashes p' ! (t' ! i) = None"
    and "\<And>i. s_scheduled s div p_block_tokens p \<le> i \<Longrightarrow> i < length t' \<Longrightarrow> 0 < cnt \<Longrightarrow>
      count (mset t' + G) (t' ! i) = 1"
    and "\<And>i. i < s_scheduled s div p_block_tokens p \<Longrightarrow> i < length t' \<Longrightarrow>
      t' ! i \<in> set (full_blocks (p_block_tokens p) s)"
proof -
  let ?k = "s_scheduled s div p_block_tokens p"
  fix i
  show "t' ! i \<in> set (tail_blocks (p_block_tokens p) s) \<or>
      t' ! i \<notin># mset (s_table s) + G \<and> p_block_hashes p' ! (t' ! i) = None" if i: "?k \<le> i" "i < length t'"
  proof -
    have "s_table s ! i \<in> set (tail_blocks (p_block_tokens p) s)" if "i < length (s_table s)"
      using that i(1) unfolding tail_blocks_def in_set_conv_nth
      by (intro exI [of _ "i - ?k"]) auto
    then show ?thesis using spec i unfolding reserve_spec_def Let_def by metis
  qed
  show "count (mset t' + G) (t' ! i) = 1" if "?k \<le> i" "i < length t'" "0 < cnt"
    using spec that unfolding reserve_spec_def Let_def by blast
  show "t' ! i \<in> set (full_blocks (p_block_tokens p) s)" if "i < ?k" "i < length t'"
  proof -
    have "take ?k t' = take ?k (s_table s)" using spec unfolding reserve_spec_def Let_def by blast
    moreover have "t' ! i \<in> set (take ?k t')" using that by (auto simp: in_set_conv_nth)
    ultimately show ?thesis by (simp add: full_blocks_def)
  qed
qed

lemma reserve_seqs:
  assumes bt: "0 < p_block_tokens p"
    and ok: "seqs_ok (p_block_tokens p) c (p_block_hashes p) seqs" and at: "seqs i = Some s"
    and spec: "reserve_spec p s cnt (held_by (seqs(i := None))) al t' p'"
    and s': "seq_ok (p_block_tokens p) c s'" "s_table s' = t'" "s_scheduled s' = s_scheduled s + cnt"
  shows "seqs_ok (p_block_tokens p) c (p_block_hashes p') (seqs(i \<mapsto> s'))"
proof -
  let ?bt = "p_block_tokens p" and ?G = "held_by (seqs(i := None))"
  let ?k = "s_scheduled s div ?bt" and ?k' = "(s_scheduled s + cnt) div ?bt"
  have kk: "?k \<le> ?k'" by (simp add: div_le_mono)
  have fin: "finite (dom seqs)" using ok by (simp add: seqs_ok_def)
  have frame: "p_block_hashes p' ! b = p_block_hashes p ! b" if "b \<in># mset (s_table s) + ?G" for b
    using spec that unfolding reserve_spec_def Let_def pool_frame_def by blast
  note sp = reserve_spec_at [OF spec]
  have G: "b \<in># ?G" if "seqs j = Some t" "j \<noteq> i" "b \<in> set (s_table t)" for j t b
    using in_held_by [of "seqs(i := None)" j t b] fin that by simp
  have tailG: "b \<in># ?G" if "seqs j = Some t" "j \<noteq> i" "b \<in> set (tail_blocks ?bt t)" for j t b
    using G [OF that(1,2), of b] that(3) full_tail [of t ?bt] by blast
  have fullG: "b \<in># ?G" if "seqs j = Some t" "j \<noteq> i" "b \<in> set (full_blocks ?bt t)" for j t b
    using G [OF that(1,2), of b] that(3) full_tail [of t ?bt] by blast
  have tailN: "p_block_hashes p ! b = None" if "seqs j = Some t" "b \<in> set (tail_blocks ?bt t)" for j t b
    using ok that unfolding seqs_ok_def by blast
  have disj: "b \<notin> set (tail_blocks ?bt u)" if "seqs j = Some t" "seqs l = Some u" "b \<in> set (full_blocks ?bt t)" for j t l u b
    using ok that unfolding seqs_ok_def by blast
  have tl: "\<exists>a. ?k' \<le> a \<and> a < length t' \<and> b = t' ! a" if "b \<in> set (tail_blocks ?bt s')" for b
  proof -
    obtain a where "a < length (drop ?k' t')" "b = drop ?k' t' ! a"
      using \<open>b \<in> set (tail_blocks ?bt s')\<close> by (auto simp: tail_blocks_def s' in_set_conv_nth)
    then show ?thesis by (intro exI [of _ "?k' + a"]) auto
  qed
  have fl: "\<exists>a. a < ?k' \<and> a < length t' \<and> b = t' ! a" if "b \<in> set (full_blocks ?bt s')" for b
    using that by (auto simp: full_blocks_def s' in_set_conv_nth)
  show ?thesis
  proof (rule seqs_ok_upd [OF ok s'(1)])
    show "p_block_hashes p' ! b = None" if "seqs j = Some t" "j \<noteq> i" "b \<in> set (tail_blocks ?bt t)" for j t b
      using frame tailG [OF that] tailN [OF that(1,3)] by simp
    show "p_block_hashes p' ! b = None" if mem: "b \<in> set (tail_blocks ?bt s')" for b
    proof -
      obtain a where a: "?k' \<le> a" "a < length t'" "b = t' ! a" using tl [OF mem] by blast
      have "p_block_hashes p' ! b = None" if "b \<in> set (tail_blocks ?bt s)"
        using frame tailN [OF at that] that full_tail [of s ?bt] by simp
      then show ?thesis using sp(1) [of a] a kk by auto
    qed
    show "set (full_blocks ?bt s') \<inter> set (tail_blocks ?bt s') = {}"
    proof (intro equals0I, elim IntE)
      fix b assume b: "b \<in> set (full_blocks ?bt s')" "b \<in> set (tail_blocks ?bt s')"
      obtain x where x: "x < ?k'" "x < length t'" "b = t' ! x" using fl [OF b(1)] by blast
      obtain y where y: "?k' \<le> y" "y < length t'" "b = t' ! y" using tl [OF b(2)] by blast
      show False
      proof (cases "0 < cnt")
        case True
        have "1 < count (mset t' + ?G) (t' ! y)" by (rule twice_in_list) (use x y in auto)
        then show False using sp(2) [of y] y kk True by auto
      next
        case False
        then have f: "b \<in> set (full_blocks ?bt s)" using sp(3) [of x] x by simp
        then have "b \<in># mset (s_table s) + ?G" using full_tail [of s ?bt] by simp
        then show False using sp(1) [of y] y kk disj [OF at at f] by auto
      qed
    qed
    show "set (full_blocks ?bt s') \<inter> set (tail_blocks ?bt t) = {} \<and>
        set (full_blocks ?bt t) \<inter> set (tail_blocks ?bt s') = {}" if j: "seqs j = Some t" "j \<noteq> i" for j t
    proof (intro conjI equals0I; elim IntE)
      fix b assume b: "b \<in> set (full_blocks ?bt s')" "b \<in> set (tail_blocks ?bt t)"
      obtain x where x: "x < ?k'" "x < length t'" "b = t' ! x" using fl [OF b(1)] by blast
      show False
      proof (cases "x < ?k")
        case True
        then show False using sp(3) [of x] x disj [OF at j(1)] b(2) by blast
      next
        case False
        have "0 < cnt" using False x(1) by (intro gr0I) simp
        then have "count (mset t' + ?G) (t' ! x) = 1" using sp(2) [of x] False x(2) by simp
        then have "count (mset t') b + count ?G b = 1" using x(3) by simp
        moreover have m: "b \<in># mset t'" "b \<in># ?G" using x tailG [OF j b(2)] by simp_all
        note m(1) [THEN count_greater_zero_iff [THEN iffD2]] m(2) [THEN count_greater_zero_iff [THEN iffD2]]
        ultimately show False by linarith
      qed
    next
      fix b assume b: "b \<in> set (full_blocks ?bt t)" "b \<in> set (tail_blocks ?bt s')"
      obtain y where y: "?k' \<le> y" "y < length t'" "b = t' ! y" using tl [OF b(2)] by blast
      then show False using sp(1) [of y] kk disj [OF j(1) at b(1)] fullG [OF j b(1)] by auto
    qed
  qed
qed

lemma mgr_okD:
  assumes "mgr_ok m"
  shows "0 < p_block_tokens (m_pool m)" "finite (dom (m_sequences m))"
    "pool_ok (m_pool m) (held_by (m_sequences m))"
    "seqs_ok (p_block_tokens (m_pool m)) (p_prefix_caching (m_pool m)) (p_block_hashes (m_pool m)) (m_sequences m)"
    "m_sequences m i = Some s \<Longrightarrow> seq_ok (p_block_tokens (m_pool m)) (p_prefix_caching (m_pool m)) s"
    "m_sequences m i = Some s \<Longrightarrow> length (s_table s) = div_ceil (s_scheduled s) (p_block_tokens (m_pool m))"
    "m_sequences m i = Some s \<Longrightarrow> pool_ok (m_pool m) (mset (s_table s) + held_by ((m_sequences m)(i := None)))"
proof -
  note m = assms [unfolded mgr_ok_def]
  show p: "pool_ok (m_pool m) (held_by (m_sequences m))" using m by blast
  show q: "seqs_ok (p_block_tokens (m_pool m)) (p_prefix_caching (m_pool m)) (p_block_hashes (m_pool m)) (m_sequences m)"
    using m by blast
  show "0 < p_block_tokens (m_pool m)" using p unfolding pool_ok_def by blast
  show fin: "finite (dom (m_sequences m))" using q unfolding seqs_ok_def by blast
  assume at: "m_sequences m i = Some s"
  show so: "seq_ok (p_block_tokens (m_pool m)) (p_prefix_caching (m_pool m)) s"
    using q at unfolding seqs_ok_def by blast
  show "length (s_table s) = div_ceil (s_scheduled s) (p_block_tokens (m_pool m))"
    using so unfolding seq_ok_def by blast
  show "pool_ok (m_pool m) (mset (s_table s) + held_by ((m_sequences m)(i := None)))"
    using p unfolding held_by_at [OF fin at] .
qed

lemma cost_Some:
  assumes "mgr_ok m" "m_sequences m i = Some s" "s_scheduled s + cnt \<le> usize_max"
  obtains c where "cost (m_pool m) s cnt = Some c"
  using cost_eq [OF mgr_okD(7,6) [OF assms(1,2)] assms(3)] by blast

lemma reserve_mgr:
  assumes m: "mgr_ok m" and at: "m_sequences m i = Some s" and fits: "s_scheduled s + cnt \<le> usize_max"
    and room: "cost (m_pool m) s cnt = Some c" "c \<le> fq_len (p_free (m_pool m))"
  shows "\<exists>al t' p'. reserve (m_pool m) s cnt = Some (al, s\<lparr>s_table := t', s_scheduled := s_scheduled s + cnt\<rparr>, p') \<and>
    reserve_spec (m_pool m) s cnt (held_by ((m_sequences m)(i := None))) al t' p' \<and>
    length t' = div_ceil (s_scheduled s + cnt) (p_block_tokens (m_pool m)) \<and>
    p_prefix_caching p' = p_prefix_caching (m_pool m) \<and>
    (\<forall>s'. seq_ok (p_block_tokens (m_pool m)) (p_prefix_caching (m_pool m)) s' \<longrightarrow> s_table s' = t' \<longrightarrow>
       s_scheduled s' = s_scheduled s + cnt \<longrightarrow>
       mgr_ok (m\<lparr>m_pool := p', m_sequences := (m_sequences m)(i \<mapsto> s')\<rparr>))"
proof -
  let ?G = "held_by ((m_sequences m)(i := None))"
  obtain al t' p' where r: "reserve (m_pool m) s cnt =
      Some (al, s\<lparr>s_table := t', s_scheduled := s_scheduled s + cnt\<rparr>, p')"
    and spec: "reserve_spec (m_pool m) s cnt ?G al t' p'"
    using reserve_ok [OF mgr_okD(7,6) [OF m at] fits room] by blast
  have fr: "p_block_tokens p' = p_block_tokens (m_pool m)" "p_prefix_caching p' = p_prefix_caching (m_pool m)"
    "length (p_ref_counts p') = length (p_ref_counts (m_pool m))" and po: "pool_ok p' (mset t' + ?G)"
    and len: "length t' = div_ceil (s_scheduled s + cnt) (p_block_tokens (m_pool m))"
    using spec unfolding reserve_spec_def Let_def pool_frame_def by blast+
  have "mgr_ok (m\<lparr>m_pool := p', m_sequences := (m_sequences m)(i \<mapsto> s')\<rparr>)"
    if s': "seq_ok (p_block_tokens (m_pool m)) (p_prefix_caching (m_pool m)) s'" "s_table s' = t'"
      "s_scheduled s' = s_scheduled s + cnt" for s'
    using reserve_seqs [OF mgr_okD(1,4) [OF m] at spec s'] fr po m s'(2) held_by_upd [OF mgr_okD(2) [OF m], of i s']
    by (simp add: mgr_ok_def)
  then show ?thesis using r spec len fr by blast
qed

lemma seq_ok_append:
  assumes "seq_ok bt c s" "s_scheduled s + length ts \<le> usize_max"
    "length t' = div_ceil (s_scheduled s + length ts) bt" "s_unresolved s = 0"
    "s' = s\<lparr>s_table := t', s_scheduled := s_scheduled s + length ts,
      s_unhashed := (if c then s_unhashed s @ ts else s_unhashed s)\<rparr>"
  shows "seq_ok bt c s'"
  using assms by (auto simp: seq_ok_def split: if_splits)

lemma append_mgr:
  assumes m: "mgr_ok m" and at: "m_sequences m i = Some s" and un: "s_unresolved s = 0"
    and fits: "s_scheduled s + length ts \<le> usize_max"
    and room: "cost (m_pool m) s (length ts) = Some c" "c \<le> fq_len (p_free (m_pool m))"
  shows "\<exists>al s' p'. append_tokens (m_pool m) s ts = Some (al, s', p') \<and>
    s' = s\<lparr>s_table := s_table s', s_scheduled := s_scheduled s + length ts,
      s_unhashed := (if p_prefix_caching (m_pool m) then s_unhashed s @ ts else s_unhashed s)\<rparr> \<and>
    reserve_spec (m_pool m) s (length ts) (held_by ((m_sequences m)(i := None))) al (s_table s') p' \<and>
    mgr_ok (m\<lparr>m_pool := p', m_sequences := (m_sequences m)(i \<mapsto> s')\<rparr>)"
proof -
  obtain al t' p' where r: "reserve (m_pool m) s (length ts) =
      Some (al, s\<lparr>s_table := t', s_scheduled := s_scheduled s + length ts\<rparr>, p')"
    and spec: "reserve_spec (m_pool m) s (length ts) (held_by ((m_sequences m)(i := None))) al t' p'"
    and len: "length t' = div_ceil (s_scheduled s + length ts) (p_block_tokens (m_pool m))"
    and new: "\<And>s'. seq_ok (p_block_tokens (m_pool m)) (p_prefix_caching (m_pool m)) s' \<Longrightarrow> s_table s' = t' \<Longrightarrow>
       s_scheduled s' = s_scheduled s + length ts \<Longrightarrow>
       mgr_ok (m\<lparr>m_pool := p', m_sequences := (m_sequences m)(i \<mapsto> s')\<rparr>)"
    using reserve_mgr [OF m at fits room] by blast
  define s' where "s' = s\<lparr>s_table := t', s_scheduled := s_scheduled s + length ts,
      s_unhashed := (if p_prefix_caching (m_pool m) then s_unhashed s @ ts else s_unhashed s)\<rparr>"
  have "append_tokens (m_pool m) s ts = Some (al, s', p')"
    using r by (simp add: append_tokens_def s'_def)
  moreover have "seq_ok (p_block_tokens (m_pool m)) (p_prefix_caching (m_pool m)) s'"
    by (rule seq_ok_append [OF mgr_okD(5) [OF m at] fits len un s'_def])
  then have "mgr_ok (m\<lparr>m_pool := p', m_sequences := (m_sequences m)(i \<mapsto> s')\<rparr>)"
    by (rule new) (simp_all add: s'_def)
  ultimately show ?thesis using spec by (intro exI [of _ al] exI [of _ s'] exI [of _ p']) (simp add: s'_def)
qed

lemma allocate_ok:
  assumes m: "mgr_ok m" and fits: "\<And>s. m_sequences m i = Some s \<Longrightarrow> s_scheduled s + length ts \<le> usize_max"
  shows "outcome_ok m (allocate m i ts)"
proof (cases "m_sequences m i")
  case None
  then show ?thesis using m by (simp add: allocate_def outcome_ok_error)
next
  case at: (Some s)
  obtain c where c: "cost (m_pool m) s (length ts) = Some c" using cost_Some [OF m at fits [OF at]] .
  show ?thesis
  proof (cases "s_unresolved s > 0 \<or> c > fq_len (p_free (m_pool m))")
    case True
    then show ?thesis using at c m by (auto simp: allocate_def outcome_ok_error)
  next
    case False
    then show ?thesis using append_mgr [OF m at _ fits [OF at] c] at c by (auto simp: allocate_def outcome_ok_def)
  qed
qed

lemma allocate_unresolved_ok:
  assumes m: "mgr_ok m" and fits: "\<And>s. m_sequences m i = Some s \<Longrightarrow> s_scheduled s + cnt \<le> usize_max"
  shows "outcome_ok m (allocate_unresolved m i cnt)"
proof (cases "m_sequences m i")
  case None
  then show ?thesis using m by (simp add: allocate_unresolved_def outcome_ok_error)
next
  case at: (Some s)
  obtain c where c: "cost (m_pool m) s cnt = Some c" using cost_Some [OF m at fits [OF at]] .
  show ?thesis
  proof (cases "c > fq_len (p_free (m_pool m))")
    case True
    then show ?thesis using at c m by (auto simp: allocate_unresolved_def outcome_ok_error)
  next
    case False
    then have room: "c \<le> fq_len (p_free (m_pool m))" by simp
    obtain al t' p' where r: "reserve (m_pool m) s cnt =
        Some (al, s\<lparr>s_table := t', s_scheduled := s_scheduled s + cnt\<rparr>, p')"
      and len: "length t' = div_ceil (s_scheduled s + cnt) (p_block_tokens (m_pool m))"
      and new: "\<And>s'. seq_ok (p_block_tokens (m_pool m)) (p_prefix_caching (m_pool m)) s' \<Longrightarrow> s_table s' = t' \<Longrightarrow>
         s_scheduled s' = s_scheduled s + cnt \<Longrightarrow>
         mgr_ok (m\<lparr>m_pool := p', m_sequences := (m_sequences m)(i \<mapsto> s')\<rparr>)"
      using reserve_mgr [OF m at fits [OF at] c room] by blast
    define s' where "s' = s\<lparr>s_table := t', s_scheduled := s_scheduled s + cnt, s_unresolved := s_unresolved s + cnt\<rparr>"
    have so: "seq_ok (p_block_tokens (m_pool m)) (p_prefix_caching (m_pool m)) s" by (rule mgr_okD(5) [OF m at])
    then have "seq_ok (p_block_tokens (m_pool m)) (p_prefix_caching (m_pool m)) s'"
      using len fits [OF at] by (auto simp: seq_ok_def s'_def split: if_splits)
    then have "mgr_ok (m\<lparr>m_pool := p', m_sequences := (m_sequences m)(i \<mapsto> s')\<rparr>)"
      by (rule new) (simp_all add: s'_def)
    moreover have "s_unresolved s + cnt \<le> usize_max" using so fits [OF at] by (auto simp: seq_ok_def)
    then have "allocate_unresolved m i cnt =
        Some (Inr al, m\<lparr>m_pool := p', m_sequences := (m_sequences m)(i \<mapsto> s')\<rparr>)"
      using at c r room by (simp add: allocate_unresolved_def s'_def add_usize_def)
    ultimately show ?thesis by (simp add: outcome_ok_def)
  qed
qed

section \<open>Resolving and committing\<close>

lemma mgr_same_table:
  assumes m: "mgr_ok m" and at: "m_sequences m i = Some s"
    and s': "seq_ok (p_block_tokens (m_pool m)) (p_prefix_caching (m_pool m)) s'"
      "s_table s' = s_table s" "s_scheduled s' = s_scheduled s"
    and p': "pool_ok p' (held_by (m_sequences m))" "p_block_tokens p' = p_block_tokens (m_pool m)"
      "p_prefix_caching p' = p_prefix_caching (m_pool m)" "length (p_ref_counts p') = length (p_ref_counts (m_pool m))"
    and tails: "\<And>j t b. m_sequences m j = Some t \<Longrightarrow> b \<in> set (tail_blocks (p_block_tokens (m_pool m)) t) \<Longrightarrow>
      p_block_hashes p' ! b = None"
  shows "mgr_ok (m\<lparr>m_pool := p', m_sequences := (m_sequences m)(i \<mapsto> s')\<rparr>)"
proof -
  let ?bt = "p_block_tokens (m_pool m)"
  have same: "full_blocks ?bt s' = full_blocks ?bt s" "tail_blocks ?bt s' = tail_blocks ?bt s"
    using s' by (simp_all add: full_blocks_def tail_blocks_def)
  note so = mgr_okD(4) [OF m]
  have disj: "set (full_blocks ?bt t) \<inter> set (tail_blocks ?bt u) = {}"
    if "m_sequences m j = Some t" "m_sequences m k = Some u" for j k t u
    using so that unfolding seqs_ok_def by blast
  have "seqs_ok ?bt (p_prefix_caching (m_pool m)) (p_block_hashes p') ((m_sequences m)(i \<mapsto> s'))"
    by (rule seqs_ok_upd [OF so s'(1)]) (use tails [OF at] tails disj [OF at] disj [OF _ at] disj [OF at at] same in auto)
  moreover have "held_by ((m_sequences m)(i \<mapsto> s')) = held_by (m_sequences m)"
    using held_by_upd [OF mgr_okD(2) [OF m], of i s'] held_by_at [OF mgr_okD(2) [OF m] at] s'(2) by simp
  ultimately show ?thesis using m p' by (simp add: mgr_ok_def)
qed

lemma tails_unpublished:
  "mgr_ok m \<Longrightarrow> m_sequences m j = Some t \<Longrightarrow> b \<in> set (tail_blocks (p_block_tokens (m_pool m)) t) \<Longrightarrow>
    p_block_hashes (m_pool m) ! b = None"
  using mgr_okD(4) [of m] unfolding seqs_ok_def by blast

lemma resolve_ok:
  assumes m: "mgr_ok m"
  shows "outcome_ok m (resolve m i ts)"
proof (cases "m_sequences m i")
  case None
  then show ?thesis using m by (simp add: resolve_def outcome_ok_error)
next
  case at: (Some s)
  let ?bt = "p_block_tokens (m_pool m)" and ?c = "p_prefix_caching (m_pool m)"
  show ?thesis
  proof (cases "length ts > s_unresolved s")
    case True
    then show ?thesis using at m by (simp add: resolve_def outcome_ok_error)
  next
    case False
    define s' where "s' = s\<lparr>s_unresolved := s_unresolved s - length ts,
      s_unhashed := (if ?c then s_unhashed s @ ts else s_unhashed s)\<rparr>"
    have "seq_ok ?bt ?c s'"
      using mgr_okD(5) [OF m at] False by (auto simp: seq_ok_def s'_def split: if_splits)
    then have "mgr_ok (m\<lparr>m_pool := m_pool m, m_sequences := (m_sequences m)(i \<mapsto> s')\<rparr>)"
      by (rule mgr_same_table [OF m at])
        (use mgr_okD(3) [OF m] tails_unpublished [OF m] in \<open>simp_all add: s'_def\<close>)
    moreover have "resolve m i ts = Some (Inr (), m\<lparr>m_sequences := (m_sequences m)(i \<mapsto> s')\<rparr>)"
      using at False by (simp add: resolve_def Let_def s'_def)
    ultimately show ?thesis by (simp add: outcome_ok_def)
  qed
qed

lemma publish_ok:
  assumes ok: "pool_ok p H" and b: "b < length (p_ref_counts p)"
  shows "\<exists>p'. publish p b h = Some p' \<and> pool_ok p' H \<and> p_block_tokens p' = p_block_tokens p \<and>
    p_prefix_caching p' = p_prefix_caching p \<and> p_ref_counts p' = p_ref_counts p \<and> p_free p' = p_free p \<and>
    p_counters p' = p_counters p \<and>
    (\<forall>c. p_block_hashes p' ! c = p_block_hashes p ! c \<or>
       c = b \<and> p_block_hashes p ! c = None \<and> p_block_hashes p' ! c = Some h)"
proof (cases "p_block_hashes p ! b = None \<and> p_cached p h = None")
  case True
  let ?p' = "p\<lparr>p_block_hashes := (p_block_hashes p)[b := Some h], p_cached := (p_cached p)(h \<mapsto> b),
    p_published_tokens := saturating_add_usize (p_published_tokens p) (p_block_tokens p)\<rparr>"
  have len: "length (p_block_hashes p) = length (p_ref_counts p)" using ok by (simp add: pool_ok_def)
  have cached: "p_cached p h' = Some c \<longleftrightarrow> c < length (p_ref_counts p) \<and> p_block_hashes p ! c = Some h'" for h' c
    using ok by (simp add: pool_ok_def)
  have "p_cached ?p' h' = Some c \<longleftrightarrow> c < length (p_ref_counts ?p') \<and> p_block_hashes ?p' ! c = Some h'" for h' c
    using cached [of h' c] cached [of h c] True b len by (cases "c = b") (auto simp: nth_list_update)
  then have "pool_ok ?p' H" using ok by (simp add: pool_ok_def)
  moreover have "publish p b h = Some ?p'" using True b len by (simp add: publish_def)
  moreover have "(p_block_hashes p)[b := Some h] ! c = (if c = b then Some h else p_block_hashes p ! c)" for c
    using b len by (simp add: nth_list_update)
  ultimately show ?thesis using True by auto
next
  case False
  have "b < length (p_block_hashes p)" using ok b by (simp add: pool_ok_def)
  then have "publish p b h = Some p" using False by (auto simp: publish_def)
  then show ?thesis using ok by auto
qed

lemma commit_loop_ok:
  assumes "pool_ok p H" "length hashes + length cs \<le> length table" "set table \<subseteq> {..<length (p_ref_counts p)}"
  shows "\<exists>p'. commit_loop sha keys table p hashes hashed cs =
      Some (p', foldl (push_hash sha keys) hashes cs, hashed + length cs * p_block_tokens p) \<and>
    pool_ok p' H \<and> p_block_tokens p' = p_block_tokens p \<and> p_prefix_caching p' = p_prefix_caching p \<and>
    p_ref_counts p' = p_ref_counts p \<and> p_free p' = p_free p \<and> p_counters p' = p_counters p \<and>
    (\<forall>b. p_block_hashes p' ! b = p_block_hashes p ! b \<or> p_block_hashes p ! b = None \<and>
       (\<exists>j. length hashes \<le> j \<and> j < length hashes + length cs \<and> b = table ! j \<and>
            p_block_hashes p' ! b = Some (foldl (push_hash sha keys) hashes cs ! j)))"
  using assms
proof (induction cs arbitrary: p hashes hashed)
  case (Cons ts cs)
  let ?h = "hash_block sha (last_opt hashes) ts keys" and ?n = "length hashes"
  have n: "?n < length table" using Cons.prems(2) by simp
  have b: "table ! ?n < length (p_ref_counts p)" using Cons.prems(3) nth_mem [OF n] by auto
  obtain p1 where p1: "publish p (table ! ?n) ?h = Some p1" "pool_ok p1 H" "p_block_tokens p1 = p_block_tokens p"
    "p_prefix_caching p1 = p_prefix_caching p" "p_ref_counts p1 = p_ref_counts p" "p_free p1 = p_free p"
    "p_counters p1 = p_counters p"
    "\<forall>c. p_block_hashes p1 ! c = p_block_hashes p ! c \<or>
       c = table ! ?n \<and> p_block_hashes p ! c = None \<and> p_block_hashes p1 ! c = Some ?h"
    using publish_ok [OF Cons.prems(1) b] by blast
  let ?f = "foldl (push_hash sha keys) (hashes @ [?h]) cs"
  have f: "foldl (push_hash sha keys) hashes (ts # cs) = ?f" by (simp add: push_hash_def)
  have "length (hashes @ [?h]) + length cs \<le> length table" "set table \<subseteq> {..<length (p_ref_counts p1)}"
    using Cons.prems p1 by simp_all
  from Cons.IH [OF p1(2) this, of "hashed + p_block_tokens p"] obtain p2 where p2:
    "commit_loop sha keys table p1 (hashes @ [?h]) (hashed + p_block_tokens p) cs =
       Some (p2, ?f, hashed + p_block_tokens p + length cs * p_block_tokens p1)"
    "pool_ok p2 H" "p_block_tokens p2 = p_block_tokens p1" "p_prefix_caching p2 = p_prefix_caching p1"
    "p_ref_counts p2 = p_ref_counts p1" "p_free p2 = p_free p1" "p_counters p2 = p_counters p1"
    "\<forall>b. p_block_hashes p2 ! b = p_block_hashes p1 ! b \<or> p_block_hashes p1 ! b = None \<and>
       (\<exists>j. length (hashes @ [?h]) \<le> j \<and> j < length (hashes @ [?h]) + length cs \<and> b = table ! j \<and>
            p_block_hashes p2 ! b = Some (?f ! j))"
    by blast
  have fn: "?f ! ?n = ?h"
  proof -
    obtain more where "?f = (hashes @ [?h]) @ more" using foldl_push_hash_prefix by blast
    then show ?thesis by (simp add: nth_append)
  qed
  have "p_block_hashes p2 ! b = p_block_hashes p ! b \<or> p_block_hashes p ! b = None \<and>
      (\<exists>j. ?n \<le> j \<and> j < ?n + length (ts # cs) \<and> b = table ! j \<and> p_block_hashes p2 ! b = Some (?f ! j))" for b
  proof (cases "p_block_hashes p2 ! b = p_block_hashes p1 ! b")
    case True
    then consider "p_block_hashes p2 ! b = p_block_hashes p ! b"
      | "b = table ! ?n" "p_block_hashes p ! b = None" "p_block_hashes p2 ! b = Some ?h"
      using p1(8) by metis
    then show ?thesis
    proof cases
      case 2
      then show ?thesis using fn by (intro disjI2 conjI exI [of _ ?n]) auto
    qed blast
  next
    case False
    then obtain j where j: "p_block_hashes p1 ! b = None" "Suc ?n \<le> j" "j < Suc ?n + length cs" "b = table ! j"
      "p_block_hashes p2 ! b = Some (?f ! j)"
      using p2(8) by auto
    have "p_block_hashes p ! b = None" using j(1) p1(8) by (metis option.distinct(1))
    then show ?thesis using j by (intro disjI2 conjI exI [of _ j]) auto
  qed
  moreover have "commit_loop sha keys table p hashes hashed (ts # cs) =
      Some (p2, ?f, hashed + length (ts # cs) * p_block_tokens p)"
    using n p1(1,3) p2(1) by (simp add: Let_def add.assoc)
  ultimately show ?case unfolding f using p1 p2 by (intro exI [of _ p2]) simp
qed simp

text \<open>The blocks a commit hashes, and the result of a successful commit.\<close>

definition commit_chunks :: "manager \<Rightarrow> sequence \<Rightarrow> nat \<Rightarrow> token list list" where
  "commit_chunks m s computed =
     (let bt = p_block_tokens (m_pool m) in
      chunks_exact bt (take (min (max (s_computed s) computed - length (s_hashes s) * bt) (length (s_unhashed s)))
        (s_unhashed s)))"

lemma commit_chunks_bounds:
  assumes so: "seq_ok (p_block_tokens (m_pool m)) (p_prefix_caching (m_pool m)) s"
    and bt: "0 < p_block_tokens (m_pool m)" and c: "computed \<le> s_scheduled s"
  shows "(length (s_hashes s) + length (commit_chunks m s computed)) * p_block_tokens (m_pool m) \<le> max (s_computed s) computed"
    "length (commit_chunks m s computed) * p_block_tokens (m_pool m) \<le> length (s_unhashed s)"
    "length (s_hashes s) + length (commit_chunks m s computed) \<le> s_scheduled s div p_block_tokens (m_pool m)"
    "max (s_computed s) computed \<le> s_scheduled s"
proof -
  let ?bt = "p_block_tokens (m_pool m)"
  let ?h = "min (max (s_computed s) computed - length (s_hashes s) * ?bt) (length (s_unhashed s))"
  have "length (commit_chunks m s computed) = ?h div ?bt"
    using bt by (simp add: commit_chunks_def Let_def length_chunks_exact min_def)
  then have n: "length (commit_chunks m s computed) * ?bt \<le> ?h" by (simp only: div_times_less_eq_dividend)
  then show "length (commit_chunks m s computed) * ?bt \<le> length (s_unhashed s)" by simp
  show 1: "(length (s_hashes s) + length (commit_chunks m s computed)) * ?bt \<le> max (s_computed s) computed"
    using n so by (simp add: seq_ok_def add_mult_distrib) linarith
  show 2: "max (s_computed s) computed \<le> s_scheduled s" using so c by (auto simp: seq_ok_def)
  show "length (s_hashes s) + length (commit_chunks m s computed) \<le> s_scheduled s div ?bt"
    unfolding less_eq_div_iff_mult_less_eq [OF bt] by (rule le_trans [OF 1 2])
qed

lemma full_div_le: "0 < bt \<Longrightarrow> n div bt \<le> div_ceil n bt"
  by (simp add: div_ceil_def)

lemma commit_through_mgr:
  assumes m: "mgr_ok m" and at: "m_sequences m i = Some s" and c: "computed \<le> s_scheduled s"
  shows "\<exists>p'. commit_through sha m i computed =
      Some (Inr (), m\<lparr>m_pool := p', m_sequences := (m_sequences m)(i \<mapsto>
        s\<lparr>s_computed := max (s_computed s) computed,
          s_hashes := foldl (push_hash sha (s_keys s)) (s_hashes s) (commit_chunks m s computed),
          s_unhashed := drop (length (commit_chunks m s computed) * p_block_tokens (m_pool m)) (s_unhashed s)\<rparr>)\<rparr>) \<and>
    mgr_ok (m\<lparr>m_pool := p', m_sequences := (m_sequences m)(i \<mapsto>
        s\<lparr>s_computed := max (s_computed s) computed,
          s_hashes := foldl (push_hash sha (s_keys s)) (s_hashes s) (commit_chunks m s computed),
          s_unhashed := drop (length (commit_chunks m s computed) * p_block_tokens (m_pool m)) (s_unhashed s)\<rparr>)\<rparr>) \<and>
    p_block_tokens p' = p_block_tokens (m_pool m) \<and> p_prefix_caching p' = p_prefix_caching (m_pool m) \<and>
    p_ref_counts p' = p_ref_counts (m_pool m) \<and> p_free p' = p_free (m_pool m) \<and>
    (\<forall>b. p_block_hashes p' ! b = p_block_hashes (m_pool m) ! b \<or> p_block_hashes (m_pool m) ! b = None \<and>
       (\<exists>j. length (s_hashes s) \<le> j \<and> j < length (s_hashes s) + length (commit_chunks m s computed) \<and>
            b = s_table s ! j \<and> p_block_hashes p' ! b =
              Some (foldl (push_hash sha (s_keys s)) (s_hashes s) (commit_chunks m s computed) ! j)))"
    (is "\<exists>p'. _ = Some (_, ?m' p') \<and> _")
proof -
  let ?bt = "p_block_tokens (m_pool m)" and ?cs = "commit_chunks m s computed"
  let ?hs = "foldl (push_hash sha (s_keys s)) (s_hashes s) ?cs"
  let ?s' = "s\<lparr>s_computed := max (s_computed s) computed, s_hashes := ?hs,
    s_unhashed := drop (length ?cs * ?bt) (s_unhashed s)\<rparr>"
  note so = mgr_okD(5) [OF m at] and bt = mgr_okD(1) [OF m]
  note bd = commit_chunks_bounds [OF so bt c]
  have len: "length (s_hashes s) + length ?cs \<le> length (s_table s)"
    using bd(3) full_div_le [OF bt, of "s_scheduled s"] so by (simp add: seq_ok_def)
  have dom: "set (s_table s) \<subseteq> {..<length (p_ref_counts (m_pool m))}"
    using mgr_okD(7) [OF m at] by (auto simp: pool_ok_def)
  obtain p' where p': "commit_loop sha (s_keys s) (s_table s) (m_pool m) (s_hashes s) 0 ?cs =
      Some (p', ?hs, 0 + length ?cs * ?bt)" "pool_ok p' (held_by (m_sequences m))"
    "p_block_tokens p' = ?bt" "p_prefix_caching p' = p_prefix_caching (m_pool m)"
    "p_ref_counts p' = p_ref_counts (m_pool m)" "p_free p' = p_free (m_pool m)"
    "\<forall>b. p_block_hashes p' ! b = p_block_hashes (m_pool m) ! b \<or> p_block_hashes (m_pool m) ! b = None \<and>
       (\<exists>j. length (s_hashes s) \<le> j \<and> j < length (s_hashes s) + length ?cs \<and> b = s_table s ! j \<and>
            p_block_hashes p' ! b = Some (?hs ! j))"
    using commit_loop_ok [OF mgr_okD(3) [OF m] len dom] by blast
  have "seq_ok ?bt (p_prefix_caching (m_pool m)) ?s'"
  proof (cases "p_prefix_caching (m_pool m)")
    case True
    then show ?thesis using so bd by (simp add: seq_ok_def add_mult_distrib)
  next
    case False
    then have "?cs = []" using so bt by (simp add: seq_ok_def commit_chunks_def)
    then show ?thesis using so bd False by (simp add: seq_ok_def)
  qed
  then have "mgr_ok (?m' p')"
  proof (rule mgr_same_table [OF m at])
    fix j t b assume t: "m_sequences m j = Some t" "b \<in> set (tail_blocks ?bt t)"
    show "p_block_hashes p' ! b = None"
    proof (rule ccontr)
      assume "p_block_hashes p' ! b \<noteq> None"
      then obtain l where l: "l < length (s_hashes s) + length ?cs" "b = s_table s ! l"
        using p'(7) tails_unpublished [OF m t] by metis
      then have "l < s_scheduled s div ?bt" "l < length (s_table s)" using bd(3) len by simp_all
      then have "b \<in> set (full_blocks ?bt s)" using l(2) by (auto simp: full_blocks_def in_set_conv_nth)
      then show False using mgr_okD(4) [OF m] at t unfolding seqs_ok_def by blast
    qed
  qed (simp_all add: p')
  moreover have "length (s_hashes s) * ?bt \<le> usize_max" using so by (simp add: seq_ok_def)
  then have "commit_through sha m i computed = Some (Inr (), ?m' p')"
    using at c p'(1) by (simp add: commit_through_def mul_usize_def commit_chunks_def Let_def)
  ultimately show ?thesis using p' by blast
qed

lemma commit_through_ok:
  assumes m: "mgr_ok m"
  shows "outcome_ok m (commit_through sha m i computed)"
proof (cases "m_sequences m i")
  case None
  then show ?thesis using m by (simp add: commit_through_def outcome_ok_error)
next
  case at: (Some s)
  show ?thesis
  proof (cases "computed \<le> s_scheduled s")
    case True
    then show ?thesis using commit_through_mgr [OF m at True, of sha] by (auto simp: outcome_ok_def)
  next
    case False
    then show ?thesis using at m by (simp add: commit_through_def outcome_ok_error)
  qed
qed

lemma commit_ok: "mgr_ok m \<Longrightarrow> outcome_ok m (commit sha m i)"
  using commit_through_ok by (auto simp: commit_def outcome_ok_error split: sum.split)

section \<open>Forking, freeing, creating\<close>

lemma seq_disjoint:
  "mgr_ok m \<Longrightarrow> m_sequences m j = Some t \<Longrightarrow> m_sequences m k = Some u \<Longrightarrow>
    set (full_blocks (p_block_tokens (m_pool m)) t) \<inter> set (tail_blocks (p_block_tokens (m_pool m)) u) = {}"
  using mgr_okD(4) [of m] unfolding seqs_ok_def by blast

lemma fork_mgr:
  assumes m: "mgr_ok m" and at: "m_sequences m parent = Some s" and child: "m_sequences m child = None"
    and refs: "size (held_by (m_sequences m)) + length (s_table s) \<le> u32_max"
  shows "\<exists>p'. add_refs (m_pool m) (s_table s) = Some p' \<and>
    mgr_ok (m\<lparr>m_pool := p', m_sequences := (m_sequences m)(child \<mapsto> s)\<rparr>) \<and>
    p_block_tokens p' = p_block_tokens (m_pool m) \<and> p_prefix_caching p' = p_prefix_caching (m_pool m) \<and>
    p_block_hashes p' = p_block_hashes (m_pool m)"
proof -
  have dom: "set (s_table s) \<subseteq> {..<length (p_ref_counts (m_pool m))}"
    using mgr_okD(7) [OF m at] by (auto simp: pool_ok_def)
  have "count (held_by (m_sequences m)) b + length (s_table s) \<le> u32_max" for b
    using count_le_size [of "held_by (m_sequences m)" b] refs by linarith
  then obtain p' where p': "add_refs (m_pool m) (s_table s) = Some p'"
    "pool_ok p' (mset (s_table s) + held_by (m_sequences m))" "pool_frame UNIV (m_pool m) p'"
    "p_block_hashes p' = p_block_hashes (m_pool m)"
    using add_refs_ok [OF mgr_okD(3) [OF m] dom] by blast
  note disj = seq_disjoint [OF m]
  have "seqs_ok (p_block_tokens (m_pool m)) (p_prefix_caching (m_pool m)) (p_block_hashes (m_pool m))
      ((m_sequences m)(child \<mapsto> s))"
    by (rule seqs_ok_upd [OF mgr_okD(4) [OF m] mgr_okD(5) [OF m at]])
      (use tails_unpublished [OF m] at disj [OF at] disj [OF _ at] disj [OF at at] in auto)
  moreover have "held_by ((m_sequences m)(child \<mapsto> s)) = mset (s_table s) + held_by (m_sequences m)"
    using held_by_upd [OF mgr_okD(2) [OF m], of child s] child by (simp add: fun_upd_idem)
  ultimately show ?thesis using m p' by (simp add: mgr_ok_def pool_frame_def)
qed

lemma fork_ok:
  assumes m: "mgr_ok m"
    and refs: "\<And>s. m_sequences m parent = Some s \<Longrightarrow> size (held_by (m_sequences m)) + length (s_table s) \<le> u32_max"
  shows "outcome_ok m (fork m parent child)"
proof (cases "m_sequences m parent")
  case None
  then show ?thesis using m by (simp add: fork_def sequence_of_def outcome_ok_error)
next
  case at: (Some s)
  show ?thesis
  proof (cases "m_sequences m child = None \<and> s_scheduled s = s_computed s \<and> s_unresolved s = 0")
    case True
    then obtain p' where "add_refs (m_pool m) (s_table s) = Some p'"
      "mgr_ok (m\<lparr>m_pool := p', m_sequences := (m_sequences m)(child \<mapsto> s)\<rparr>)"
      using fork_mgr [OF m at _ refs [OF at]] by blast
    then show ?thesis using True at by (simp add: fork_def sequence_of_def outcome_ok_def)
  next
    case False
    then show ?thesis using at m by (auto simp: fork_def sequence_of_def outcome_ok_error)
  qed
qed

lemma free_mgr:
  assumes m: "mgr_ok m" and at: "m_sequences m i = Some s"
  shows "\<exists>p'. free m i = Some (Inr (), m\<lparr>m_pool := p', m_sequences := (m_sequences m)(i := None)\<rparr>) \<and>
    mgr_ok (m\<lparr>m_pool := p', m_sequences := (m_sequences m)(i := None)\<rparr>) \<and>
    p_block_tokens p' = p_block_tokens (m_pool m) \<and> p_prefix_caching p' = p_prefix_caching (m_pool m) \<and>
    p_block_hashes p' = p_block_hashes (m_pool m)"
proof -
  have "pool_ok (m_pool m) (mset (rev (s_table s)) + held_by ((m_sequences m)(i := None)))"
    using mgr_okD(7) [OF m at] by simp
  then obtain p' where p': "releases (m_pool m) (rev (s_table s)) = Some p'"
    "pool_ok p' (held_by ((m_sequences m)(i := None)))" "pool_frame UNIV (m_pool m) p'"
    "p_block_hashes p' = p_block_hashes (m_pool m)"
    using releases_ok by blast
  then show ?thesis using at m seqs_ok_del [OF mgr_okD(4) [OF m], of i]
    by (auto simp: free_def mgr_ok_def pool_frame_def)
qed

lemma free_ok: "mgr_ok m \<Longrightarrow> outcome_ok m (free m i)"
  using free_mgr [of m i] by (cases "m_sequences m i") (auto simp: outcome_ok_error outcome_ok_def free_def)

lemma manager_new_ok:
  assumes "0 < pc_block_tokens c" "num_blocks c \<le> u32_max"
  shows "\<exists>m. manager_new owner c = Some m \<and> mgr_ok m \<and> m_sequences m = Map.empty"
proof -
  obtain q where q: "fq_full (num_blocks c) = Some q" "fq_rep q (num_blocks c) [0..<num_blocks c]"
    using fq_full_rep [OF assms(2)] by blast
  then have "\<exists>xs. fq_rep q (num_blocks c) xs \<and> set xs = {..<num_blocks c}"
    by (intro exI [of _ "[0..<num_blocks c]"]) auto
  then show ?thesis using q(1) assms(1)
    by (auto simp: manager_new_def mgr_ok_def pool_ok_def seqs_ok_def)
qed

lemma manager_clone_ok: "mgr_ok m \<Longrightarrow> mgr_ok (manager_clone owner m)"
proof -
  have eqs: "m_pool (manager_clone owner m) = m_pool m" "m_config (manager_clone owner m) = m_config m"
    "m_sequences (manager_clone owner m) = m_sequences m" by (simp_all add: manager_clone_def)
  show "mgr_ok m \<Longrightarrow> ?thesis" unfolding mgr_ok_def eqs .
qed

section \<open>Hits and admission\<close>

text \<open>What a hit of the manager's own lookup looks like, whenever it was made.\<close>

definition hit_wf :: "manager \<Rightarrow> prefix_hit \<Rightarrow> bool" where
  "hit_wf m hit \<longleftrightarrow> (h_owner hit = m_owner m \<longrightarrow>
     length (h_hashes hit) = length (h_blocks hit) \<and>
     h_cached_tokens hit = length (h_blocks hit) * p_block_tokens (m_pool m) \<and>
     set (h_blocks hit) \<subseteq> {..<total_blocks m} \<and>
     (\<not> p_prefix_caching (m_pool m) \<longrightarrow> h_blocks hit = []))"

lemma lookup_loop_acc:
  "lookup_loop sha p keys cs blocks hashes = (bs, hs) \<Longrightarrow> \<exists>more hmore. bs = blocks @ more \<and> hs = hashes @ hmore \<and>
    length more = length hmore \<and> length more \<le> length cs \<and>
    (\<forall>j<length more. p_cached p (hmore ! j) = Some (more ! j)) \<and>
    hs = foldl (push_hash sha keys) hashes (take (length more) cs) \<and>
    (length more < length cs \<longrightarrow> p_cached p (hash_block sha (last_opt hs) (cs ! length more) keys) = None)"
proof (induction cs arbitrary: blocks hashes)
  case (Cons ts cs)
  let ?h = "hash_block sha (last_opt hashes) ts keys"
  show ?case
  proof (cases "p_cached p ?h")
    case None
    then show ?thesis using Cons.prems by (intro exI [of _ "[]"]) (auto simp: Let_def)
  next
    case (Some b)
    then have "lookup_loop sha p keys cs (blocks @ [b]) (hashes @ [?h]) = (bs, hs)"
      using Cons.prems by (simp add: Let_def)
    from Cons.IH [OF this] obtain more hmore where ih: "bs = (blocks @ [b]) @ more" "hs = (hashes @ [?h]) @ hmore"
      "length more = length hmore" "length more \<le> length cs"
      "\<forall>j<length more. p_cached p (hmore ! j) = Some (more ! j)"
      "hs = foldl (push_hash sha keys) (hashes @ [?h]) (take (length more) cs)"
      "length more < length cs \<longrightarrow> p_cached p (hash_block sha (last_opt hs) (cs ! length more) keys) = None"
      by blast
    have "\<forall>j<length (b # more). p_cached p ((?h # hmore) ! j) = Some ((b # more) ! j)"
      using ih(5) Some by (auto simp: nth_Cons split: nat.split)
    moreover have "hs = foldl (push_hash sha keys) hashes (take (length (b # more)) (ts # cs))"
      using ih(6) by (simp add: push_hash_def [of sha keys hashes])
    moreover have "length (b # more) < length (ts # cs) \<longrightarrow>
        p_cached p (hash_block sha (last_opt hs) ((ts # cs) ! length (b # more)) keys) = None"
      using ih(7) by simp
    ultimately show ?thesis using ih(1-4) by (intro exI [of _ "b # more"] exI [of _ "?h # hmore"]) simp
  qed
qed simp

lemma lookup_hit:
  fixes sha m prompt keys
  defines "hit \<equiv> lookup_prefix sha m prompt keys"
  defines "bt \<equiv> p_block_tokens (m_pool m)"
  assumes m: "mgr_ok m"
  shows "h_owner hit = m_owner m" "h_keys hit = keys" "h_prompt_tokens hit = length prompt"
    "length (h_blocks hit) \<le> (length prompt - 1) div bt"
    "h_cached_tokens hit = length (h_blocks hit) * bt"
    "h_hashes hit = block_hashes sha (take (h_cached_tokens hit) prompt) bt keys"
    "length (h_hashes hit) = length (h_blocks hit)"
    "\<And>j. j < length (h_blocks hit) \<Longrightarrow> p_cached (m_pool m) (h_hashes hit ! j) = Some (h_blocks hit ! j)"
    "p_prefix_caching (m_pool m) \<Longrightarrow> length (h_blocks hit) < (length prompt - 1) div bt \<Longrightarrow>
      p_cached (m_pool m) (block_hashes sha prompt bt keys ! length (h_blocks hit)) = None"
    "\<not> p_prefix_caching (m_pool m) \<Longrightarrow> h_blocks hit = []"
proof -
  let ?n = "(length prompt - 1) div bt" and ?c = "p_prefix_caching (m_pool m)"
  have bt: "0 < bt" using mgr_okD(1) [OF m] by (simp add: bt_def)
  have n: "?n \<le> length prompt div bt" by (simp add: div_le_mono)
  let ?cs = "take ?n (chunks_exact bt prompt)"
  have lcs: "length ?cs = ?n" using n bt by (simp add: length_chunks_exact)
  obtain bs hs where r: "lookup_loop sha (m_pool m) keys ?cs [] [] = (bs, hs)" by fastforce
  obtain more hmore where "bs = [] @ more" "hs = [] @ hmore" "length more = length hmore"
    "length more \<le> length ?cs" "\<forall>j<length more. p_cached (m_pool m) (hmore ! j) = Some (more ! j)"
    "hs = foldl (push_hash sha keys) [] (take (length more) ?cs)"
    "length more < length ?cs \<longrightarrow>
      p_cached (m_pool m) (hash_block sha (last_opt hs) (?cs ! length more) keys) = None"
    using lookup_loop_acc [OF r] by blast
  then have l: "length bs = length hs" "length bs \<le> ?n"
    "\<forall>j<length bs. p_cached (m_pool m) (hs ! j) = Some (bs ! j)"
    "hs = foldl (push_hash sha keys) [] (take (length bs) ?cs)"
    "length bs < ?n \<longrightarrow> p_cached (m_pool m) (hash_block sha (last_opt hs) (?cs ! length bs) keys) = None"
    unfolding lcs by simp_all
  have hit: "hit = \<lparr>h_owner = m_owner m, h_keys = keys, h_blocks = if ?c then bs else [],
      h_hashes = if ?c then hs else [], h_cached_tokens = (if ?c then length bs else 0) * bt,
      h_prompt_tokens = length prompt\<rparr>"
    using r by (simp add: hit_def lookup_prefix_def Let_def bt_def)
  show "h_owner hit = m_owner m" "h_keys hit = keys" "h_prompt_tokens hit = length prompt"
    "length (h_blocks hit) \<le> ?n" "h_cached_tokens hit = length (h_blocks hit) * bt"
    "length (h_hashes hit) = length (h_blocks hit)"
    "\<And>j. j < length (h_blocks hit) \<Longrightarrow> p_cached (m_pool m) (h_hashes hit ! j) = Some (h_blocks hit ! j)"
    "\<not> ?c \<Longrightarrow> h_blocks hit = []"
    using l by (simp_all add: hit split: if_splits)
  have tk: "block_hashes sha (take (k * bt) prompt) bt keys = foldl (push_hash sha keys) [] (take k (chunks_exact bt prompt))"
    if "k \<le> length prompt div bt" for k
  proof -
    have "chunks_exact bt (take (k * bt) prompt) = take k (chunks_exact bt prompt)"
      using bt that by (rule chunks_exact_take_blocks)
    then show ?thesis using bt by (simp add: block_hashes_def)
  qed
  have lb: "length bs \<le> length prompt div bt" using l(2) n by simp
  show h: "h_hashes hit = block_hashes sha (take (h_cached_tokens hit) prompt) bt keys"
  proof -
    have "take (length bs) ?cs = take (length bs) (chunks_exact bt prompt)" using l(2) by (simp add: min_def)
    then have "hs = block_hashes sha (take (length bs * bt) prompt) bt keys" using l(4) tk [OF lb] by simp
    moreover have "block_hashes sha [] bt keys = []" using bt by (simp add: block_hashes_def)
    ultimately show ?thesis by (simp add: hit)
  qed
  assume c: "?c" "length (h_blocks hit) < ?n"
  then have lt: "length bs < length prompt div bt" "length bs < ?n" using n by (simp_all add: hit)
  have hs: "hs = take (length bs) (block_hashes sha prompt bt keys)"
    using h c(1) block_hashes_take_blocks [OF bt lb] by (simp add: hit)
  have "?cs ! length bs = take bt (drop (length bs * bt) prompt)"
    using lt bt by (simp add: chunks_exact_nth)
  then have "block_hashes sha prompt bt keys ! length bs = hash_block sha (last_opt hs) (?cs ! length bs) keys"
    using block_hashes_nth [OF bt lt(1), of sha keys] hs by simp
  then show "p_cached (m_pool m) (block_hashes sha prompt bt keys ! length (h_blocks hit)) = None"
    using l(5) lt(2) c(1) by (simp add: hit)
qed

lemma hit_stale_result:
  assumes "set bs \<subseteq> {..<length (p_block_hashes p)}" "length hs = length bs"
  shows "hit_stale p (zip bs hs) = Some (\<not> (\<forall>j<length bs. p_block_hashes p ! (bs ! j) = Some (hs ! j) \<and>
    p_cached p (hs ! j) = Some (bs ! j)))"
  using assms(2,1)
proof (induction hs bs rule: list_induct2)
  case (Cons h hs b bs)
  then show ?case by (auto simp: All_less_Suc2)
qed simp

lemma count_unreferenced_result:
  "set bs \<subseteq> {..<length (p_ref_counts p)} \<Longrightarrow>
    count_unreferenced p bs = Some (length (filter (\<lambda>b. p_ref_counts p ! b = 0) bs))"
  by (induction bs) auto

text \<open>A hit is accepted when each of its blocks still carries the key it was found under.\<close>

definition hit_fresh :: "manager \<Rightarrow> prefix_hit \<Rightarrow> bool" where
  "hit_fresh m hit \<longleftrightarrow> h_owner hit = m_owner m \<and>
     (\<forall>j<length (h_blocks hit). p_block_hashes (m_pool m) ! (h_blocks hit ! j) = Some (h_hashes hit ! j))"

lemma validate_hit_result:
  assumes m: "mgr_ok m" and wf: "hit_wf m hit"
  shows "validate_hit m hit = Some (if hit_fresh m hit then Inr () else Inl StalePrefixHit)"
proof (cases "h_owner hit = m_owner m")
  case True
  have pl: "length (p_block_hashes (m_pool m)) = length (p_ref_counts (m_pool m))"
    and cached: "\<And>h b. p_cached (m_pool m) h = Some b \<longleftrightarrow>
      b < length (p_ref_counts (m_pool m)) \<and> p_block_hashes (m_pool m) ! b = Some h"
    using mgr_okD(3) [OF m] by (simp_all add: pool_ok_def)
  have sub: "set (h_blocks hit) \<subseteq> {..<length (p_block_hashes (m_pool m))}" "length (h_hashes hit) = length (h_blocks hit)"
    using wf True pl by (simp_all add: hit_wf_def total_blocks_def)
  have "h_blocks hit ! j < length (p_ref_counts (m_pool m))" if "j < length (h_blocks hit)" for j
    using sub(1) nth_mem [OF that] pl by auto
  then show ?thesis using hit_stale_result [OF sub] True cached
    by (auto simp: validate_hit_def hit_fresh_def)
next
  case False
  then show ?thesis by (auto simp: validate_hit_def hit_fresh_def)
qed

lemma admit_cost_result:
  assumes m: "mgr_ok m" and wf: "hit_wf m hit" and fr: "hit_fresh m hit"
    and fits: "h_cached_tokens hit + n + length (h_blocks hit) \<le> usize_max"
  shows "admit_cost m hit n = Some (Inr (length (filter (\<lambda>b. p_ref_counts (m_pool m) ! b = 0) (h_blocks hit)) +
    (div_ceil (h_cached_tokens hit + n) (p_block_tokens (m_pool m)) - length (h_blocks hit))))"
proof -
  let ?bt = "p_block_tokens (m_pool m)" and ?f = "filter (\<lambda>b. p_ref_counts (m_pool m) ! b = 0) (h_blocks hit)"
  have bt: "0 < ?bt" by (rule mgr_okD(1) [OF m])
  have wf': "set (h_blocks hit) \<subseteq> {..<length (p_ref_counts (m_pool m))}"
    "h_cached_tokens hit = length (h_blocks hit) * ?bt"
    using wf fr by (simp_all add: hit_wf_def hit_fresh_def total_blocks_def)
  have le: "length (h_blocks hit) \<le> div_ceil (h_cached_tokens hit + n) ?bt"
    using div_ceil_mono [OF bt, of "length (h_blocks hit) * ?bt" "h_cached_tokens hit + n"] bt wf'(2) by simp
  have "length ?f \<le> length (h_blocks hit)" by (rule length_filter_le)
  moreover have "div_ceil (h_cached_tokens hit + n) ?bt \<le> h_cached_tokens hit + n" by (rule div_ceil_le [OF bt])
  ultimately have "length ?f + div_ceil (h_cached_tokens hit + n) ?bt \<le> usize_max" using fits by linarith
  then show ?thesis using validate_hit_result [OF m wf] fr fits count_unreferenced_result [OF wf'(1)] le
    by (simp add: admit_cost_def add_usize_def checked_sub_def)
qed

lemma pool_ok_counters [simp]: "pool_ok (p\<lparr>p_counters := c\<rparr>) H = pool_ok p H"
  by (simp add: pool_ok_def)

lemma admit_mgr:
  assumes m: "mgr_ok m" and new: "m_sequences m i = None" and wf: "hit_wf m hit" and fr: "hit_fresh m hit"
    and fits: "h_cached_tokens hit + length chunk + length (h_blocks hit) \<le> usize_max"
    and refs: "size (held_by (m_sequences m)) + length (h_blocks hit) \<le> u32_max"
    and needed: "admit_cost m hit (length chunk) = Some (Inr needed)" "needed \<le> fq_len (p_free (m_pool m))"
  shows "\<exists>al s' p1 p'. admit m i hit chunk = Some (Inr al, m\<lparr>m_pool := p', m_sequences := (m_sequences m)(i \<mapsto> s')\<rparr>) \<and>
    mgr_ok (m\<lparr>m_pool := p', m_sequences := (m_sequences m)(i \<mapsto> s')\<rparr>) \<and>
    p_block_hashes p1 = p_block_hashes (m_pool m) \<and> p_block_tokens p1 = p_block_tokens (m_pool m) \<and>
    p_prefix_caching p1 = p_prefix_caching (m_pool m) \<and>
    p_counters p1 = count_query hit (p_counters (m_pool m)) \<and>
    mgr_ok (m\<lparr>m_pool := p1, m_sequences := (m_sequences m)(i \<mapsto> admitted hit)\<rparr>) \<and>
    s' = (admitted hit)\<lparr>s_table := s_table s', s_scheduled := h_cached_tokens hit + length chunk,
      s_unhashed := (if p_prefix_caching (m_pool m) then chunk else [])\<rparr> \<and>
    reserve_spec p1 (admitted hit) (length chunk) (held_by (m_sequences m)) al (s_table s') p'"
proof -
  let ?bt = "p_block_tokens (m_pool m)" and ?H = "held_by (m_sequences m)" and ?p = "m_pool m"
  let ?f = "filter (\<lambda>b. p_ref_counts ?p ! b = 0) (h_blocks hit)"
  have bt: "0 < ?bt" by (rule mgr_okD(1) [OF m])
  have ok: "pool_ok ?p ?H" by (rule mgr_okD(3) [OF m])
  have wf': "set (h_blocks hit) \<subseteq> {..<length (p_ref_counts ?p)}" "length (h_hashes hit) = length (h_blocks hit)"
    "h_cached_tokens hit = length (h_blocks hit) * ?bt" "\<not> p_prefix_caching ?p \<Longrightarrow> h_blocks hit = []"
    using wf fr by (simp_all add: hit_wf_def hit_fresh_def total_blocks_def)
  have "count ?H b + length (h_blocks hit) \<le> u32_max" for b
    using count_le_size [of ?H b] refs by linarith
  then obtain p0 where p0: "add_refs ?p (h_blocks hit) = Some p0" "pool_ok p0 (mset (h_blocks hit) + ?H)"
    "pool_frame UNIV ?p p0" "p_counters p0 = p_counters ?p" "p_block_hashes p0 = p_block_hashes ?p"
    using add_refs_ok [OF ok wf'(1)] by blast
  define p1 where "p1 = p0\<lparr>p_counters := count_query hit (p_counters p0)\<rparr>"
  have p1: "pool_ok p1 (mset (h_blocks hit) + ?H)" "p_block_tokens p1 = ?bt" "p_prefix_caching p1 = p_prefix_caching ?p"
    "length (p_ref_counts p1) = length (p_ref_counts ?p)" "p_block_hashes p1 = p_block_hashes ?p"
    "p_counters p1 = count_query hit (p_counters ?p)" "p_free p1 = p_free p0"
    using p0 by (simp_all add: p1_def pool_frame_def)
  let ?m1 = "m\<lparr>m_pool := p1, m_sequences := (m_sequences m)(i \<mapsto> admitted hit)\<rparr>"
  have published: "p_block_hashes ?p ! b \<noteq> None" if "b \<in> set (h_blocks hit)" for b
    using that fr by (auto simp: in_set_conv_nth hit_fresh_def)
  have tl: "tail_blocks ?bt (admitted hit) = []" and fl: "full_blocks ?bt (admitted hit) = h_blocks hit"
    using bt wf'(3) by (simp_all add: tail_blocks_def full_blocks_def admitted_def)
  have apart: "set (h_blocks hit) \<inter> set (tail_blocks ?bt t) = {}" if "m_sequences m j = Some t" for j t
  proof (rule equals0I, elim IntE)
    fix b assume "b \<in> set (h_blocks hit)" "b \<in> set (tail_blocks ?bt t)"
    then show False using published [of b] tails_unpublished [OF m that, of b] by simp
  qed
  have so: "seq_ok ?bt (p_prefix_caching ?p) (admitted hit)"
    using wf' bt fits by (auto simp: seq_ok_def admitted_def)
  have "seqs_ok ?bt (p_prefix_caching ?p) (p_block_hashes ?p) ((m_sequences m)(i \<mapsto> admitted hit))"
    by (rule seqs_ok_upd [OF mgr_okD(4) [OF m] so])
      (use tails_unpublished [OF m] apart in \<open>simp_all add: tl fl\<close>)
  moreover have del: "(m_sequences m)(i := None) = m_sequences m" using new by (simp add: fun_upd_idem)
  moreover have "held_by ((m_sequences m)(i \<mapsto> admitted hit)) = mset (h_blocks hit) + ?H"
    using held_by_upd [OF mgr_okD(2) [OF m], of i "admitted hit"] del by (simp add: admitted_def)
  ultimately have m1: "mgr_ok ?m1" using m p1 by (simp add: mgr_ok_def)
  have at: "m_sequences ?m1 i = Some (admitted hit)" and pool1: "m_pool ?m1 = p1" by simp_all
  have fits1: "s_scheduled (admitted hit) + length chunk \<le> usize_max" using fits by (simp add: admitted_def)
  obtain c where c: "cost (m_pool ?m1) (admitted hit) (length chunk) = Some c" using cost_Some [OF m1 at fits1] .
  have "c \<le> div_ceil (h_cached_tokens hit + length chunk) ?bt - length (h_blocks hit)"
    using c cost_eq [OF mgr_okD(7,6) [OF m1 at] fits1] p1(2) wf'(3)
    by (auto simp: admitted_def split: if_splits)
  moreover have "fq_len (p_free ?p) \<le> fq_len (p_free p1) + length ?f"
  proof -
    have un: "set_mset (mset (h_blocks hit) + ?H) = set_mset ?H \<union> set ?f"
    proof -
      have "p_ref_counts ?p ! b = count ?H b" if "b \<in> set (h_blocks hit)" for b
        using that wf'(1) ok unfolding pool_ok_def by blast
      then have "b \<in># ?H \<or> b \<in> set ?f" if "b \<in> set (h_blocks hit)" for b
        using that by (auto simp: not_in_iff)
      then show ?thesis by auto
    qed
    have "card (set_mset (mset (h_blocks hit) + ?H)) \<le> card (set_mset ?H) + length ?f"
      unfolding un using card_Un_le [of "set_mset ?H" "set ?f"] card_length [of ?f] by linarith
    then show ?thesis using pool_ok_free [OF ok] pool_ok_free [OF p1(1)] p1(4) by linarith
  qed
  moreover have "needed = length ?f + (div_ceil (h_cached_tokens hit + length chunk) ?bt - length (h_blocks hit))"
    using needed(1) admit_cost_result [OF m wf fr fits] by simp
  ultimately have room: "c \<le> fq_len (p_free (m_pool ?m1))" using needed(2) by simp
  have un: "s_unresolved (admitted hit) = 0" by (simp add: admitted_def)
  obtain al s' p' where a: "append_tokens (m_pool ?m1) (admitted hit) chunk = Some (al, s', p')"
    "s' = (admitted hit)\<lparr>s_table := s_table s', s_scheduled := s_scheduled (admitted hit) + length chunk,
      s_unhashed := (if p_prefix_caching (m_pool ?m1) then s_unhashed (admitted hit) @ chunk
        else s_unhashed (admitted hit))\<rparr>"
    "reserve_spec (m_pool ?m1) (admitted hit) (length chunk) (held_by ((m_sequences ?m1)(i := None))) al (s_table s') p'"
    "mgr_ok (?m1\<lparr>m_pool := p', m_sequences := (m_sequences ?m1)(i \<mapsto> s')\<rparr>)"
    using append_mgr [OF m1 at un fits1 c room] by blast
  have r: "append_tokens p1 (admitted hit) chunk = Some (al, s', p')"
    "reserve_spec p1 (admitted hit) (length chunk) ?H al (s_table s') p'"
    "mgr_ok (m\<lparr>m_pool := p', m_sequences := (m_sequences m)(i \<mapsto> s')\<rparr>)"
    using a(1,3,4) del by simp_all
  have s': "s' = (admitted hit)\<lparr>s_table := s_table s', s_scheduled := h_cached_tokens hit + length chunk,
      s_unhashed := (if p_prefix_caching ?p then chunk else [])\<rparr>"
    using p1(3) by (subst a(2)) (simp add: admitted_def)
  have "admit m i hit chunk = Some (Inr al, m\<lparr>m_pool := p', m_sequences := (m_sequences m)(i \<mapsto> s')\<rparr>)"
    using new needed p0(1) r(1) by (simp add: admit_def p1_def)
  then show ?thesis using r s' m1 p1
    by (intro exI [of _ al] exI [of _ s'] exI [of _ p1] exI [of _ p'] conjI) assumption+
qed

lemma admit_ok:
  assumes m: "mgr_ok m" and wf: "hit_wf m hit"
    and fits: "h_cached_tokens hit + length chunk + length (h_blocks hit) \<le> usize_max"
    and refs: "size (held_by (m_sequences m)) + length (h_blocks hit) \<le> u32_max"
  shows "outcome_ok m (admit m i hit chunk)"
proof (cases "m_sequences m i = None \<and> hit_fresh m hit")
  case True
  then obtain needed where n: "admit_cost m hit (length chunk) = Some (Inr needed)"
    using admit_cost_result [OF m wf _ fits] by blast
  show ?thesis
  proof (cases "needed \<le> fq_len (p_free (m_pool m))")
    case room: True
    then show ?thesis using admit_mgr [OF m conjunct1 [OF True] wf conjunct2 [OF True] fits refs n room]
      by (auto simp: outcome_ok_def)
  next
    case False
    then show ?thesis using True n m by (simp add: admit_def outcome_ok_error)
  qed
next
  case False
  then show ?thesis using m validate_hit_result [OF m wf]
    by (auto simp: admit_def admit_cost_def outcome_ok_error)
qed

lemma lookup_hit_wf: "mgr_ok m \<Longrightarrow> hit_wf m (lookup_prefix sha m prompt keys)"
proof -
  assume m: "mgr_ok m"
  let ?hit = "lookup_prefix sha m prompt keys"
  note l = lookup_hit [OF m, where sha = sha and prompt = prompt and keys = keys]
  have "b < total_blocks m" if b: "b \<in> set (h_blocks ?hit)" for b
  proof -
    obtain j where "j < length (h_blocks ?hit)" "b = h_blocks ?hit ! j" using b by (auto simp: in_set_conv_nth)
    then show ?thesis using l(8) [of j] mgr_okD(3) [OF m] by (auto simp: pool_ok_def total_blocks_def)
  qed
  then show ?thesis using l by (auto simp: hit_wf_def)
qed

lemma lookup_hit_fresh:
  assumes m: "mgr_ok m"
  shows "hit_fresh m (lookup_prefix sha m prompt keys)"
proof -
  have "p_cached (m_pool m) h = Some b \<Longrightarrow> p_block_hashes (m_pool m) ! b = Some h" for h b
    using mgr_okD(3) [OF m] by (simp add: pool_ok_def)
  then show ?thesis using lookup_hit(1,8) [OF m] by (simp add: hit_fresh_def)
qed

section \<open>Any call\<close>

text \<open>The methods that take \<open>&mut self\<close>, as one datatype.\<close>

datatype call =
    Admit seq_id prefix_hit "token list"
  | Allocate seq_id "token list"
  | AllocateUnresolved seq_id nat
  | Resolve seq_id "token list"
  | Commit seq_id
  | CommitThrough seq_id nat
  | Fork seq_id seq_id
  | Free seq_id

definition no_value :: "'a outcome \<Rightarrow> unit outcome" where
  "no_value = map_option (map_prod (map_sum (\<lambda>e. e) (\<lambda>_. ())) (\<lambda>m. m))"

fun run_call :: "(byte list \<Rightarrow> byte list) \<Rightarrow> manager \<Rightarrow> call \<Rightarrow> unit outcome" where
  "run_call sha m (Admit i hit chunk) = no_value (admit m i hit chunk)"
| "run_call sha m (Allocate i ts) = no_value (allocate m i ts)"
| "run_call sha m (AllocateUnresolved i n) = no_value (allocate_unresolved m i n)"
| "run_call sha m (Resolve i ts) = resolve m i ts"
| "run_call sha m (Commit i) = commit sha m i"
| "run_call sha m (CommitThrough i n) = commit_through sha m i n"
| "run_call sha m (Fork parent child) = fork m parent child"
| "run_call sha m (Free i) = free m i"

text \<open>What is asked of the caller: hits come from the manager's own lookup, token counts fit
  \<open>usize\<close>, and the tables hold fewer than \<open>2^32\<close> references in all.\<close>

fun call_ok :: "manager \<Rightarrow> call \<Rightarrow> bool" where
  "call_ok m (Admit i hit chunk) \<longleftrightarrow> hit_wf m hit \<and>
     h_cached_tokens hit + length chunk + length (h_blocks hit) \<le> usize_max \<and>
     size (held_by (m_sequences m)) + length (h_blocks hit) \<le> u32_max"
| "call_ok m (Allocate i ts) \<longleftrightarrow> (\<forall>s. m_sequences m i = Some s \<longrightarrow> s_scheduled s + length ts \<le> usize_max)"
| "call_ok m (AllocateUnresolved i n) \<longleftrightarrow> (\<forall>s. m_sequences m i = Some s \<longrightarrow> s_scheduled s + n \<le> usize_max)"
| "call_ok m (Fork parent child) \<longleftrightarrow>
     (\<forall>s. m_sequences m parent = Some s \<longrightarrow> size (held_by (m_sequences m)) + length (s_table s) \<le> u32_max)"
| "call_ok m _ \<longleftrightarrow> True"

lemma outcome_ok_no_value: "outcome_ok m r \<Longrightarrow> outcome_ok m (no_value r)"
  by (auto simp: outcome_ok_def no_value_def isl_map_sum)

lemma run_call_ok: "mgr_ok m \<Longrightarrow> call_ok m c \<Longrightarrow> outcome_ok m (run_call sha m c)"
  by (cases c)
    (simp_all add: outcome_ok_no_value admit_ok allocate_ok allocate_unresolved_ok resolve_ok commit_ok
      commit_through_ok fork_ok free_ok)

lemma run_call_same_owner:
  "run_call sha m c = Some (r, m') \<Longrightarrow> m_owner m' = m_owner m \<and> m_config m' = m_config m"
  by (cases c)
    (auto simp: no_value_def admit_def allocate_def allocate_unresolved_def resolve_def commit_def
      commit_through_def fork_def free_def Let_def
      split: option.splits if_splits sum.splits Option.bind_splits prod.splits)

lemma hit_wf_keep:
  "mgr_ok m \<Longrightarrow> mgr_ok m' \<Longrightarrow> m_owner m' = m_owner m \<Longrightarrow> m_config m' = m_config m \<Longrightarrow> hit_wf m hit \<Longrightarrow> hit_wf m' hit"
  by (auto simp: hit_wf_def mgr_ok_def total_blocks_def)

lemma manager_call_safe:
  assumes "mgr_ok m" "call_ok m c"
  shows "\<exists>r m'. run_call sha m c = Some (r, m') \<and> mgr_ok m' \<and> (isl r \<longrightarrow> m' = m) \<and>
    (\<forall>hit. hit_wf m hit \<longrightarrow> hit_wf m' hit)"
  using run_call_ok [OF assms, of sha] run_call_same_owner [of sha m c] hit_wf_keep [OF assms(1)]
  unfolding outcome_ok_def by metis

end
