(* ===== verification/BlockDevice.thy ===== *)
theory BlockDevice
  imports BlockManager
begin

text \<open>
  What the block manager is for: the K/V a sequence reads back through its block table is the K/V
  of its own tokens. As the \<open>Device\<close> of \<open>crates/core/engine/src/blocks/tests.rs\<close> does, the world
  below holds the manager, the logical tokens of every live sequence and a memory with one cell
  per slot. A cell holds what the K/V of a position depends on: the request's keys and the tokens
  up to and including the position. A step is one manager call, followed for a reservation by
  its block copy and by the forward that writes the reserved slots. Values of unresolved
  positions are known to the device (the logical tokens), not to the manager.
\<close>

type_synonym kv_memory = "(nat \<times> nat) \<rightharpoonup> (hash_keys \<times> token list)"

record world =
  w_mgr :: manager
  w_stream :: "seq_id \<rightharpoonup> token list"
  w_mem :: kv_memory

definition kv_copy :: "block_copy option \<Rightarrow> kv_memory \<Rightarrow> kv_memory" where
  "kv_copy c mem =
     (case c of
        None \<Rightarrow> mem
      | Some c \<Rightarrow> (\<lambda>(b, off). if b = bc_dst c \<and> off < bc_tokens c then mem (bc_src c, off) else mem (b, off)))"

definition kv_write :: "slot list \<Rightarrow> (hash_keys \<times> token list) list \<Rightarrow> kv_memory \<Rightarrow> kv_memory" where
  "kv_write sls vs mem = foldl (\<lambda>mem (sl, v). mem((sl_block sl, sl_offset sl) \<mapsto> v)) mem (zip sls vs)"

text \<open>The forward of an allocation: the copy, then one cell per reserved position.\<close>

definition forward_pass :: "hash_keys \<Rightarrow> token list \<Rightarrow> allocation \<Rightarrow> slot list \<Rightarrow> kv_memory \<Rightarrow> kv_memory" where
  "forward_pass keys stream al sls mem =
     kv_write sls (map (\<lambda>pos. (keys, take (Suc pos) stream)) (span_iter (al_positions al)))
       (kv_copy (al_copy al) mem)"

text \<open>The slots read back, for the first \<open>n\<close> positions of a sequence.\<close>

definition kv_read :: "world \<Rightarrow> seq_id \<Rightarrow> nat \<Rightarrow> (hash_keys \<times> token list) option list option" where
  "kv_read w i n =
     (case slots (w_mgr w) i (span_prefix n) of
        Some (Inr sls) \<Rightarrow> Some (map (\<lambda>sl. w_mem w (sl_block sl, sl_offset sl)) sls)
      | _ \<Rightarrow> None)"

section \<open>Slots\<close>

lemma slots_result:
  assumes m: "mgr_ok m" and at: "m_sequences m i = Some s" and sp: "ts_end sp \<le> s_scheduled s"
  shows "slots m i sp = Some (Inr (map (\<lambda>pos. \<lparr>sl_block = s_table s ! (pos div p_block_tokens (m_pool m)),
    sl_offset = pos mod p_block_tokens (m_pool m)\<rparr>) (span_iter sp)))"
proof -
  have "slot_at (m_pool m) s pos = Some \<lparr>sl_block = s_table s ! (pos div p_block_tokens (m_pool m)),
      sl_offset = pos mod p_block_tokens (m_pool m)\<rparr>" if "pos \<in> set (span_iter sp)" for pos
  proof -
    have "pos < s_scheduled s" using that sp by (simp add: span_iter_def)
    then have "pos div p_block_tokens (m_pool m) < length (s_table s)"
      using mgr_okD(6) [OF m at] div_less_div_ceil [OF mgr_okD(1) [OF m]] by simp
    then show ?thesis by (simp add: slot_at_def)
  qed
  from opt_map_Some [of "span_iter sp", OF this] show ?thesis
    using at sp by (simp add: slots_def sequence_of_def)
qed

section \<open>Memory\<close>

lemma kv_write_outside:
  "length sls = length vs \<Longrightarrow> \<forall>sl\<in>set sls. (sl_block sl, sl_offset sl) \<noteq> c \<Longrightarrow> kv_write sls vs mem c = mem c"
  by (induction sls vs arbitrary: mem rule: list_induct2) (auto simp: kv_write_def)

lemma kv_write_inside:
  assumes "distinct ps" "inj_on (\<lambda>p. (blk p, off p)) (set ps)" "p \<in> set ps"
  shows "kv_write (map (\<lambda>p. \<lparr>sl_block = blk p, sl_offset = off p\<rparr>) ps) (map v ps) mem (blk p, off p) = Some (v p)"
  using assms
proof (induction ps arbitrary: mem)
  case (Cons q ps)
  have step: "kv_write (map (\<lambda>p. \<lparr>sl_block = blk p, sl_offset = off p\<rparr>) (q # ps)) (map v (q # ps)) mem =
      kv_write (map (\<lambda>p. \<lparr>sl_block = blk p, sl_offset = off p\<rparr>) ps) (map v ps) (mem((blk q, off q) \<mapsto> v q))"
    by (simp add: kv_write_def)
  show ?case
  proof (cases "p \<in> set ps")
    case True
    then show ?thesis unfolding step using Cons by (simp add: inj_on_def)
  next
    case False
    then have pq: "p = q" using Cons.prems(3) by simp
    have "\<forall>sl\<in>set (map (\<lambda>p. \<lparr>sl_block = blk p, sl_offset = off p\<rparr>) ps). (sl_block sl, sl_offset sl) \<noteq> (blk p, off p)"
      using Cons.prems(1,2) pq by (auto simp: inj_on_def)
    then show ?thesis unfolding step by (subst kv_write_outside) (simp_all add: pq)
  qed
qed simp

lemma kv_copy_outside: "(\<And>d. c = Some d \<Longrightarrow> b \<noteq> bc_dst d) \<Longrightarrow> kv_copy c mem (b, off) = mem (b, off)"
  by (auto simp: kv_copy_def split: option.split)

text \<open>A reservation and its forward: the sequence reads its own tokens, and neither the blocks of
  other tables nor published blocks are touched.\<close>

lemma div_mod_eqI: "(p::nat) div b = q div b \<Longrightarrow> p mod b = q mod b \<Longrightarrow> p = q"
  by (metis div_mult_mod_eq)

text \<open>The blocks a reservation fills are held by nobody else and have no published key.\<close>

lemma reserve_private:
  fixes p s t'
  defines "bt \<equiv> p_block_tokens p"
  assumes bt: "0 < bt" and len: "length (s_table s) = div_ceil (s_scheduled s) bt"
    and spec: "reserve_spec p s cnt G al t' p'"
    and tails: "\<And>b. b \<in> set (tail_blocks bt s) \<Longrightarrow> p_block_hashes p ! b = None"
  shows "\<And>pos. s_scheduled s \<le> pos \<Longrightarrow> pos < s_scheduled s + cnt \<Longrightarrow>
      t' ! (pos div bt) \<notin># G \<and> p_block_hashes p' ! (t' ! (pos div bt)) = None"
    and "\<And>c. al_copy al = Some c \<Longrightarrow> bc_dst c \<notin># G \<and> p_block_hashes p' ! bc_dst c = None"
proof -
  let ?k = "s_scheduled s div bt" and ?H = "mset (s_table s) + G"
  note sp = reserve_spec_at [OF spec, folded bt_def]
  have lt': "length t' = div_ceil (s_scheduled s + cnt) bt" and frame: "pool_frame (set_mset ?H) p p'"
    and cp: "case al_copy al of None \<Rightarrow> take (length (s_table s)) t' = s_table s
       | Some c \<Rightarrow> s_scheduled s mod bt \<noteq> 0 \<and> ?k < length (s_table s) \<and>
           c = \<lparr>bc_src = s_table s ! ?k, bc_dst = t' ! ?k, bc_tokens = s_scheduled s mod bt\<rparr> \<and> t' ! ?k \<notin># ?H"
    using spec unfolding reserve_spec_def Let_def bt_def by (auto simp: span_iter_def)
  have unpublished: "p_block_hashes p' ! (t' ! a) = None" if a: "?k \<le> a" "a < length t'" for a
  proof -
    have "p_block_hashes p' ! b = None" if "b \<in> set (tail_blocks bt s)" for b
      using tails [OF that] frame unfolding pool_frame_def by metis
    then show ?thesis using sp(1) [OF a] by blast
  qed
  show "t' ! (pos div bt) \<notin># G \<and> p_block_hashes p' ! (t' ! (pos div bt)) = None"
    if pos: "s_scheduled s \<le> pos" "pos < s_scheduled s + cnt" for pos
  proof
    have at: "?k \<le> pos div bt" "pos div bt < length t'"
      using div_le_mono [OF pos(1)] lt' div_less_div_ceil [OF bt pos(2)] by simp_all
    show "p_block_hashes p' ! (t' ! (pos div bt)) = None" by (rule unpublished [OF at])
    have "count (mset t' + G) (t' ! (pos div bt)) = 1" by (rule sp(2) [OF at]) (use pos in simp)
    moreover have "t' ! (pos div bt) \<in># mset t'" using at(2) by simp
    note this [THEN count_greater_zero_iff [THEN iffD2]]
    ultimately have "count G (t' ! (pos div bt)) = 0" unfolding count_union by linarith
    then show "t' ! (pos div bt) \<notin># G" by (simp add: not_in_iff)
  qed
  show "bc_dst c \<notin># G \<and> p_block_hashes p' ! bc_dst c = None" if c: "al_copy al = Some c" for c
  proof -
    have "?k < length (s_table s)" "bc_dst c = t' ! ?k" "t' ! ?k \<notin># ?H" using cp c by auto
    moreover have "?k < length t'"
      using \<open>?k < length (s_table s)\<close> len lt' div_ceil_mono [OF bt, of "s_scheduled s" "s_scheduled s + cnt"] by simp
    ultimately show ?thesis using unpublished by auto
  qed
qed

lemma reserve_forward:
  fixes p s t'
  defines "bt \<equiv> p_block_tokens p"
  assumes bt: "0 < bt" and len: "length (s_table s) = div_ceil (s_scheduled s) bt"
    and spec: "reserve_spec p s cnt G al t' p'"
    and tails: "\<And>b. b \<in> set (tail_blocks bt s) \<Longrightarrow> p_block_hashes p ! b = None"
    and sls: "sls = map (\<lambda>pos. \<lparr>sl_block = t' ! (pos div bt), sl_offset = pos mod bt\<rparr>) (span_iter (al_positions al))"
    and mem': "mem' = forward_pass keys (stream @ ts) al sls mem"
    and stream: "length stream = s_scheduled s" "length ts = cnt"
    and reads: "\<And>pos. pos < s_scheduled s \<Longrightarrow>
      mem (s_table s ! (pos div bt), pos mod bt) = Some (keys, take (Suc pos) stream)"
  shows "\<And>pos. pos < s_scheduled s + cnt \<Longrightarrow>
      mem' (t' ! (pos div bt), pos mod bt) = Some (keys, take (Suc pos) (stream @ ts))"
    and "\<And>b off. b \<in># G \<Longrightarrow> mem' (b, off) = mem (b, off)"
    and "\<And>b h off. p_block_hashes p' ! b = Some h \<Longrightarrow> mem' (b, off) = mem (b, off) \<and> p_block_hashes p ! b = Some h"
proof -
  let ?k = "s_scheduled s div bt" and ?P = "[s_scheduled s..<s_scheduled s + cnt]" and ?H = "mset (s_table s) + G"
  let ?blk = "\<lambda>pos. t' ! (pos div bt)" and ?off = "\<lambda>pos. pos mod bt"
  note sp = reserve_spec_at [OF spec, folded bt_def]
  have span: "span_iter (al_positions al) = ?P" and lt': "length t' = div_ceil (s_scheduled s + cnt) bt"
    and full: "take ?k t' = take ?k (s_table s)" and frame: "pool_frame (set_mset ?H) p p'"
    and cp: "case al_copy al of None \<Rightarrow> take (length (s_table s)) t' = s_table s
       | Some c \<Rightarrow> s_scheduled s mod bt \<noteq> 0 \<and> ?k < length (s_table s) \<and>
           c = \<lparr>bc_src = s_table s ! ?k, bc_dst = t' ! ?k, bc_tokens = s_scheduled s mod bt\<rparr> \<and> t' ! ?k \<notin># ?H"
    using spec unfolding reserve_spec_def Let_def bt_def by (auto simp: span_iter_def)
  have idx: "pos div bt < length t'" if "pos < s_scheduled s + cnt" for pos
    using that lt' div_less_div_ceil [OF bt] by simp
  have kle: "?k \<le> pos div bt" if "s_scheduled s \<le> pos" for pos using that by (rule div_le_mono)
  have m': "mem' = kv_write (map (\<lambda>pos. \<lparr>sl_block = ?blk pos, sl_offset = ?off pos\<rparr>) ?P)
      (map (\<lambda>pos. (keys, take (Suc pos) (stream @ ts))) ?P) (kv_copy (al_copy al) mem)"
    unfolding mem' forward_pass_def sls span ..
  have once: "t' ! a = t' ! b \<Longrightarrow> a = b" if "?k \<le> a" "a < length t'" "b < length t'" "0 < cnt" for a b
    using twice_in_list [of b t' a G] sp(2) [of a] that by fastforce
  have dst: "t' ! ?k \<notin># ?H" "bc_dst c = t' ! ?k" "?k < length t'" if c: "al_copy al = Some c" for c
  proof -
    show "t' ! ?k \<notin># ?H" "bc_dst c = t' ! ?k" using cp c by auto
    have "?k < length (s_table s)" using cp c by simp
    then show "?k < length t'" using len lt' div_ceil_mono [OF bt, of "s_scheduled s" "s_scheduled s + cnt"] by simp
  qed
  have unwritten: "mem' (b, o') = kv_copy (al_copy al) mem (b, o')"
    if "\<And>pos. s_scheduled s \<le> pos \<Longrightarrow> pos < s_scheduled s + cnt \<Longrightarrow> b \<noteq> ?blk pos \<or> o' \<noteq> ?off pos" for b o'
    unfolding m'
  proof (rule kv_write_outside)
    show "\<forall>sl\<in>set (map (\<lambda>pos. \<lparr>sl_block = ?blk pos, sl_offset = ?off pos\<rparr>) ?P). (sl_block sl, sl_offset sl) \<noteq> (b, o')"
      using that by fastforce
  qed simp
  show "mem' (t' ! (pos div bt), pos mod bt) = Some (keys, take (Suc pos) (stream @ ts))"
    if pos: "pos < s_scheduled s + cnt" for pos
  proof (cases "s_scheduled s \<le> pos")
    case True
    have "inj_on (\<lambda>p. (?blk p, ?off p)) (set ?P)"
    proof (rule inj_onI)
      fix x y assume xy: "x \<in> set ?P" "y \<in> set ?P" "(?blk x, ?off x) = (?blk y, ?off y)"
      then have "x div bt = y div bt"
        using once [of "x div bt" "y div bt"] idx kle by auto
      then show "x = y" using xy(3) by (intro div_mod_eqI [of x bt y]) auto
    qed
    then show ?thesis unfolding m' by (intro kv_write_inside) (use pos True in auto)
  next
    case False
    then have old: "pos < s_scheduled s" by simp
    have "pos div bt \<le> ?k" using old by (simp add: div_le_mono)
    have keep: "b \<noteq> ?blk q \<or> ?off pos \<noteq> ?off q" if q: "s_scheduled s \<le> q" "q < s_scheduled s + cnt" and b: "b = ?blk pos" for q b
    proof (rule ccontr)
      assume "\<not> (b \<noteq> ?blk q \<or> ?off pos \<noteq> ?off q)"
      then have "?blk q = ?blk pos" "?off q = ?off pos" using b by auto
      moreover have "q div bt = pos div bt"
        by (rule once) (use calculation q kle idx pos in auto)
      ultimately show False using div_mod_eqI [of q bt pos] q(1) old by simp
    qed
    have "mem' (?blk pos, ?off pos) = kv_copy (al_copy al) mem (?blk pos, ?off pos)"
      using unwritten keep by blast
    also have "\<dots> = mem (s_table s ! (pos div bt), ?off pos)"
    proof (cases "pos div bt < ?k")
      case True
      have "?k \<le> length (s_table s)" using len full_div_le [OF bt] by simp
      then have "?blk pos = s_table s ! (pos div bt)" "pos div bt < length (s_table s)"
        using nth_take [OF True, of t'] nth_take [OF True, of "s_table s"] full True by simp_all
      then have "?blk pos = s_table s ! (pos div bt)" "?blk pos \<in> set (s_table s)" by simp_all
      then show ?thesis using dst by (subst kv_copy_outside) auto
    next
      case False
      then have k: "pos div bt = ?k" using \<open>pos div bt \<le> ?k\<close> by simp
      have offs: "?off pos < s_scheduled s mod bt"
        using k old by (metis add_less_cancel_left div_mult_mod_eq)
      have lk: "?k < length (s_table s)" using len div_less_div_ceil [OF bt old] k by simp
      show ?thesis
      proof (cases "al_copy al")
        case None
        then have "take (length (s_table s)) t' = s_table s" using cp by simp
        then have "t' ! ?k = s_table s ! ?k" using nth_take [OF lk, of t'] by simp
        then show ?thesis using None k by (simp add: kv_copy_def)
      next
        case (Some c)
        then show ?thesis using cp k offs by (simp add: kv_copy_def)
      qed
    qed
    also have "\<dots> = Some (keys, take (Suc pos) (stream @ ts))"
      using reads [OF old] stream old by simp
    finally show ?thesis .
  qed
  show "mem' (b, off) = mem (b, off)" if b: "b \<in># G" for b off
  proof -
    have "b \<noteq> ?blk q" if q: "s_scheduled s \<le> q" "q < s_scheduled s + cnt" for q
    proof
      assume e: "b = ?blk q"
      have "count (mset t' + G) b = 1" unfolding e
        by (rule sp(2)) (use q kle idx in auto)
      then have "count (mset t') b + count G b = 1" by simp
      moreover have mm: "b \<in># mset t'" using idx [OF q(2)] e by simp
      note mm [THEN count_greater_zero_iff [THEN iffD2]] b [THEN count_greater_zero_iff [THEN iffD2]]
      ultimately show False by linarith
    qed
    then have "mem' (b, off) = kv_copy (al_copy al) mem (b, off)" by (intro unwritten) auto
    then show ?thesis using kv_copy_outside [of "al_copy al" b mem off] dst b by auto
  qed
  have free: "p_block_hashes p' ! (t' ! a) = None" if a: "?k \<le> a" "a < length t'" for a
  proof -
    have "p_block_hashes p' ! b = None" if "b \<in> set (tail_blocks bt s)" for b
      using tails [OF that] frame unfolding pool_frame_def by metis
    then show ?thesis using sp(1) [OF a] by blast
  qed
  show "mem' (b, off) = mem (b, off) \<and> p_block_hashes p ! b = Some h" if b: "p_block_hashes p' ! b = Some h" for b h off
  proof
    have "b \<noteq> ?blk q" if q: "s_scheduled s \<le> q" "q < s_scheduled s + cnt" for q
      using free [of "q div bt"] q kle idx b by auto
    then have "mem' (b, off) = kv_copy (al_copy al) mem (b, off)" by (intro unwritten) auto
    moreover have "b \<noteq> t' ! ?k" if "al_copy al = Some c" for c
      using free [OF order_refl dst(3) [OF that]] b by auto
    ultimately show "mem' (b, off) = mem (b, off)" using kv_copy_outside [of "al_copy al" b mem off] dst(2) by auto
    show "p_block_hashes p ! b = Some h" using b frame unfolding pool_frame_def by (metis option.distinct(1))
  qed
qed

section \<open>Worlds\<close>

text \<open>A hit as an earlier lookup of the same manager returned it for \<open>prompt\<close>.\<close>

definition hit_of :: "(byte list \<Rightarrow> byte list) \<Rightarrow> manager \<Rightarrow> token list \<Rightarrow> prefix_hit \<Rightarrow> bool" where
  "hit_of sha m prompt hit \<longleftrightarrow>
     hit_wf m hit \<and> h_cached_tokens hit \<le> length prompt \<and>
     h_hashes hit = block_hashes sha (take (h_cached_tokens hit) prompt) (p_block_tokens (m_pool m)) (h_keys hit)"

definition room_for :: "manager \<Rightarrow> nat \<Rightarrow> nat \<Rightarrow> bool" where
  "room_for m blocks tokens \<longleftrightarrow>
     size (held_by (m_sequences m)) + blocks \<le> u32_max \<and> tokens + blocks \<le> usize_max"

text \<open>\<open>U\<close> holds the requests' keys with their prompts and token streams: the contexts whose hashed
  bytes must not collide.\<close>

inductive world_step ::
  "(byte list \<Rightarrow> byte list) \<Rightarrow> (hash_keys \<times> token list) set \<Rightarrow> world \<Rightarrow> world \<Rightarrow> bool"
  for sha U where
  admit_step:
    "hit_of sha (w_mgr w) prompt hit \<Longrightarrow> (h_keys hit, prompt) \<in> U \<Longrightarrow>
     st = take (h_cached_tokens hit) prompt @ chunk \<Longrightarrow> (h_keys hit, st) \<in> U \<Longrightarrow>
     room_for (w_mgr w) (length (h_blocks hit)) (length st) \<Longrightarrow>
     admit (w_mgr w) i hit chunk = Some (Inr al, m) \<Longrightarrow> slots m i (al_positions al) = Some (Inr sls) \<Longrightarrow>
     world_step sha U w \<lparr>w_mgr = m, w_stream = (w_stream w)(i \<mapsto> st),
       w_mem = forward_pass (h_keys hit) st al sls (w_mem w)\<rparr>"
| allocate_step:
    "m_sequences (w_mgr w) i = Some s \<Longrightarrow> w_stream w i = Some st \<Longrightarrow> (s_keys s, st @ ts) \<in> U \<Longrightarrow>
     room_for (w_mgr w) 0 (length (st @ ts)) \<Longrightarrow>
     allocate (w_mgr w) i ts = Some (Inr al, m) \<Longrightarrow> slots m i (al_positions al) = Some (Inr sls) \<Longrightarrow>
     world_step sha U w \<lparr>w_mgr = m, w_stream = (w_stream w)(i \<mapsto> st @ ts),
       w_mem = forward_pass (s_keys s) (st @ ts) al sls (w_mem w)\<rparr>"
| allocate_unresolved_step:
    "m_sequences (w_mgr w) i = Some s \<Longrightarrow> w_stream w i = Some st \<Longrightarrow> (s_keys s, st @ ts) \<in> U \<Longrightarrow>
     room_for (w_mgr w) 0 (length (st @ ts)) \<Longrightarrow>
     allocate_unresolved (w_mgr w) i (length ts) = Some (Inr al, m) \<Longrightarrow>
     slots m i (al_positions al) = Some (Inr sls) \<Longrightarrow>
     world_step sha U w \<lparr>w_mgr = m, w_stream = (w_stream w)(i \<mapsto> st @ ts),
       w_mem = forward_pass (s_keys s) (st @ ts) al sls (w_mem w)\<rparr>"
| resolve_step:
    "m_sequences (w_mgr w) i = Some s \<Longrightarrow> w_stream w i = Some st \<Longrightarrow>
     ts = take (length ts) (drop (s_scheduled s - s_unresolved s) st) \<Longrightarrow>
     resolve (w_mgr w) i ts = Some (Inr (), m) \<Longrightarrow> world_step sha U w (w\<lparr>w_mgr := m\<rparr>)"
| commit_step:
    "commit_through sha (w_mgr w) i computed = Some (Inr (), m) \<Longrightarrow> world_step sha U w (w\<lparr>w_mgr := m\<rparr>)"
| fork_step:
    "m_sequences (w_mgr w) parent = Some s \<Longrightarrow> room_for (w_mgr w) (length (s_table s)) 0 \<Longrightarrow>
     fork (w_mgr w) parent child = Some (Inr (), m) \<Longrightarrow>
     world_step sha U w (w\<lparr>w_mgr := m, w_stream := (w_stream w)(child := w_stream w parent)\<rparr>)"
| free_step:
    "free (w_mgr w) i = Some (Inr (), m) \<Longrightarrow>
     world_step sha U w (w\<lparr>w_mgr := m, w_stream := (w_stream w)(i := None)\<rparr>)"

inductive world_reach ::
  "(byte list \<Rightarrow> byte list) \<Rightarrow> (hash_keys \<times> token list) set \<Rightarrow> manager \<Rightarrow> world \<Rightarrow> bool"
  for sha U m where
  start: "world_reach sha U m \<lparr>w_mgr = m, w_stream = Map.empty, w_mem = Map.empty\<rparr>"
| step: "world_reach sha U m w \<Longrightarrow> world_step sha U w w' \<Longrightarrow> world_reach sha U m w'"

definition stream_ok ::
  "(byte list \<Rightarrow> byte list) \<Rightarrow> (hash_keys \<times> token list) set \<Rightarrow> nat \<Rightarrow> bool \<Rightarrow> kv_memory \<Rightarrow> sequence \<Rightarrow> token list \<Rightarrow> bool"
  where
  "stream_ok sha U bt caching mem s st \<longleftrightarrow>
     length st = s_scheduled s \<and> (s_keys s, st) \<in> U \<and>
     s_hashes s = take (length (s_hashes s)) (block_hashes sha st bt (s_keys s)) \<and>
     (caching \<longrightarrow> s_unhashed s = drop (length (s_hashes s) * bt) (take (s_scheduled s - s_unresolved s) st)) \<and>
     (\<forall>pos < s_scheduled s. mem (s_table s ! (pos div bt), pos mod bt) = Some (s_keys s, take (Suc pos) st))"

definition published_ok ::
  "(byte list \<Rightarrow> byte list) \<Rightarrow> (hash_keys \<times> token list) set \<Rightarrow> nat \<Rightarrow> kv_memory \<Rightarrow> block_hash option list \<Rightarrow> bool"
  where
  "published_ok sha U bt mem hashes \<longleftrightarrow>
     (\<forall>b h. b < length hashes \<longrightarrow> hashes ! b = Some h \<longrightarrow>
        (\<exists>k ts j. (k, ts) \<in> U \<and> j < length ts div bt \<and> h = block_hashes sha ts bt k ! j \<and>
           (\<forall>off<bt. mem (b, off) = Some (k, take (Suc (j * bt + off)) ts))))"

definition world_ok :: "(byte list \<Rightarrow> byte list) \<Rightarrow> (hash_keys \<times> token list) set \<Rightarrow> world \<Rightarrow> bool" where
  "world_ok sha U w \<longleftrightarrow>
     mgr_ok (w_mgr w) \<and> dom (w_stream w) = dom (m_sequences (w_mgr w)) \<and>
     (\<forall>i s st. m_sequences (w_mgr w) i = Some s \<longrightarrow> w_stream w i = Some st \<longrightarrow>
        stream_ok sha U (p_block_tokens (m_pool (w_mgr w))) (p_prefix_caching (m_pool (w_mgr w))) (w_mem w) s st) \<and>
     published_ok sha U (p_block_tokens (m_pool (w_mgr w))) (w_mem w) (p_block_hashes (m_pool (w_mgr w)))"

lemma lookup_hit_of: "mgr_ok m \<Longrightarrow> hit_of sha m prompt (lookup_prefix sha m prompt keys)"
proof -
  assume m: "mgr_ok m"
  let ?hit = "lookup_prefix sha m prompt keys" and ?bt = "p_block_tokens (m_pool m)"
  note l = lookup_hit [OF m, where sha = sha and prompt = prompt and keys = keys]
  have "h_cached_tokens ?hit \<le> (length prompt - 1) div ?bt * ?bt" using l(4,5) by simp
  also have "\<dots> \<le> length prompt" by (metis diff_le_self div_times_less_eq_dividend le_trans)
  finally show ?thesis using l(2,6) lookup_hit_wf [OF m] by (simp add: hit_of_def)
qed

lemma block_hashes_prefix:
  assumes "0 < bt" "n * bt \<le> length st"
  shows "take n (block_hashes sha (st @ ts) bt k) = take n (block_hashes sha st bt k)"
proof -
  have "n \<le> length st div bt" using assms by (simp add: less_eq_div_iff_mult_less_eq)
  moreover have "length st div bt \<le> length (st @ ts) div bt" by (simp add: div_le_mono)
  ultimately show ?thesis
    using block_hashes_take_blocks [OF assms(1), of n st sha k]
      block_hashes_take_blocks [OF assms(1), of n "st @ ts" sha k] assms(2) by simp
qed

lemma published_ok_keep:
  assumes "published_ok sha U bt mem hs" "length hs' = length hs"
    and "\<And>b h off. b < length hs \<Longrightarrow> hs' ! b = Some h \<Longrightarrow> mem' (b, off) = mem (b, off) \<and> hs ! b = Some h"
  shows "published_ok sha U bt mem' hs'"
  unfolding published_ok_def
proof (intro allI impI)
  fix b h assume b: "b < length hs'" "hs' ! b = Some h"
  then have old: "hs ! b = Some h" "\<And>off. mem' (b, off) = mem (b, off)" using assms(2,3) by auto
  show "\<exists>k ts j. (k, ts) \<in> U \<and> j < length ts div bt \<and> h = block_hashes sha ts bt k ! j \<and>
           (\<forall>off<bt. mem' (b, off) = Some (k, take (Suc (j * bt + off)) ts))"
    using assms(1,2) b(1) old unfolding published_ok_def by simp
qed

lemma pool_ok_lengths: "pool_ok p H \<Longrightarrow> length (p_block_hashes p) = length (p_ref_counts p)"
  by (simp add: pool_ok_def)

lemma reserve_world:
  fixes w i s st ts al t' p' s'
  defines "m' \<equiv> (w_mgr w)\<lparr>m_pool := p', m_sequences := (m_sequences (w_mgr w))(i \<mapsto> s')\<rparr>"
  defines "bt \<equiv> p_block_tokens (m_pool (w_mgr w))"
  assumes w: "world_ok sha U w" and at: "m_sequences (w_mgr w) i = Some s" "w_stream w i = Some st"
    and spec: "reserve_spec (m_pool (w_mgr w)) s (length ts) (held_by ((m_sequences (w_mgr w))(i := None))) al t' p'"
    and s': "s_keys s' = s_keys s" "s_table s' = t'" "s_scheduled s' = s_scheduled s + length ts"
      "s_hashes s' = s_hashes s"
    and un: "p_prefix_caching (m_pool (w_mgr w)) \<Longrightarrow>
      s_unhashed s' = drop (length (s_hashes s) * bt) (take (s_scheduled s' - s_unresolved s') (st @ ts))"
    and m': "mgr_ok m'" and U: "(s_keys s, st @ ts) \<in> U"
    and sls: "slots m' i (al_positions al) = Some (Inr sls)"
  shows "world_ok sha U \<lparr>w_mgr = m', w_stream = (w_stream w)(i \<mapsto> st @ ts),
    w_mem = forward_pass (s_keys s) (st @ ts) al sls (w_mem w)\<rparr>"
proof -
  let ?m = "w_mgr w" and ?G = "held_by ((m_sequences (w_mgr w))(i := None))"
  let ?mem' = "forward_pass (s_keys s) (st @ ts) al sls (w_mem w)"
  have m: "mgr_ok ?m" and dom: "dom (w_stream w) = dom (m_sequences ?m)"
    and pub: "published_ok sha U bt (w_mem w) (p_block_hashes (m_pool ?m))"
    and str: "\<And>j t st. m_sequences ?m j = Some t \<Longrightarrow> w_stream w j = Some st \<Longrightarrow>
      stream_ok sha U bt (p_prefix_caching (m_pool ?m)) (w_mem w) t st"
    using w unfolding world_ok_def bt_def by blast+
  note so = str [OF at]
  have bt: "0 < bt" using mgr_okD(1) [OF m] by (simp add: bt_def)
  have fr: "p_block_tokens p' = bt" "p_prefix_caching p' = p_prefix_caching (m_pool ?m)"
    "length (p_ref_counts p') = length (p_ref_counts (m_pool ?m))" "pool_ok p' (mset t' + ?G)"
    and sp: "al_positions al = \<lparr>ts_start = s_scheduled s, ts_end = s_scheduled s + length ts\<rparr>"
    using spec unfolding reserve_spec_def Let_def pool_frame_def bt_def by blast+
  have at': "m_sequences m' i = Some s'" and pool': "m_pool m' = p'" by (simp_all add: m'_def)
  have sl: "sls = map (\<lambda>pos. \<lparr>sl_block = t' ! (pos div bt), sl_offset = pos mod bt\<rparr>) (span_iter (al_positions al))"
    using slots_result [OF m' at', of "al_positions al"] sls sp s' pool' fr(1) by simp
  have st: "length st = s_scheduled s" and reads: "\<And>pos. pos < s_scheduled s \<Longrightarrow>
      w_mem w (s_table s ! (pos div bt), pos mod bt) = Some (s_keys s, take (Suc pos) st)"
    using so unfolding stream_ok_def by blast+
  note fwd = reserve_forward [OF _ _ spec _ _ refl st refl, folded bt_def, where keys = "s_keys s" and mem = "w_mem w",
      OF bt _ _ sl reads]
  have len: "length (s_table s) = div_ceil (s_scheduled s) bt" using mgr_okD(6) [OF m at(1)] by (simp add: bt_def)
  have tails: "p_block_hashes (m_pool ?m) ! b = None" if "b \<in> set (tail_blocks bt s)" for b
    using tails_unpublished [OF m at(1)] that by (simp add: bt_def)
  have fin: "finite (dom (m_sequences ?m))" by (rule mgr_okD(2) [OF m])
  have hs: "length (s_hashes s) * bt \<le> s_scheduled s"
    using mgr_okD(5) [OF m at(1)] by (simp add: seq_ok_def bt_def)
  have "stream_ok sha U bt (p_prefix_caching p') ?mem' s' (st @ ts)"
    unfolding stream_ok_def s'(1,2,3,4)
  proof (intro conjI impI allI)
    show "s_hashes s = take (length (s_hashes s)) (block_hashes sha (st @ ts) bt (s_keys s))"
      using so hs st block_hashes_prefix [OF bt, of "length (s_hashes s)" st] by (simp add: stream_ok_def)
    show "s_unhashed s' = drop (length (s_hashes s) * bt) (take (s_scheduled s + length ts - s_unresolved s') (st @ ts))"
      if "p_prefix_caching p'" using un fr(2) that s'(3) by simp
    show "?mem' (t' ! (pos div bt), pos mod bt) = Some (s_keys s, take (Suc pos) (st @ ts))"
      if "pos < s_scheduled s + length ts" for pos by (rule fwd(1) [OF len tails _ that]) simp_all
  qed (use st U in simp_all)
  moreover have "stream_ok sha U bt (p_prefix_caching p') ?mem' t u"
    if j: "j \<noteq> i" "m_sequences ?m j = Some t" "w_stream w j = Some u" for j t u
  proof -
    have old: "stream_ok sha U bt (p_prefix_caching p') (w_mem w) t u" using str [OF j(2,3)] fr(2) by simp
    have lt: "length (s_table t) = div_ceil (s_scheduled t) bt" using mgr_okD(6) [OF m j(2)] by (simp add: bt_def)
    have "?mem' (s_table t ! (pos div bt), pos mod bt) = w_mem w (s_table t ! (pos div bt), pos mod bt)"
      if "pos < s_scheduled t" for pos
    proof (rule fwd(2) [OF len tails])
      have "s_table t ! (pos div bt) \<in> set (s_table t)" using div_less_div_ceil [OF bt that] lt by simp
      then show "s_table t ! (pos div bt) \<in># ?G"
        using in_held_by [of "(m_sequences ?m)(i := None)" j t] j fin by simp
    qed simp_all
    then show ?thesis using old by (simp add: stream_ok_def)
  qed
  moreover have "published_ok sha U bt ?mem' (p_block_hashes p')"
  proof (rule published_ok_keep [OF pub])
    show "length (p_block_hashes p') = length (p_block_hashes (m_pool ?m))"
      using pool_ok_lengths [OF fr(4)] pool_ok_lengths [OF mgr_okD(3) [OF m]] fr(3) by simp
    show "?mem' (b, off) = w_mem w (b, off) \<and> p_block_hashes (m_pool ?m) ! b = Some h"
      if "b < length (p_block_hashes (m_pool ?m))" "p_block_hashes p' ! b = Some h" for b h off
      by (rule fwd(3) [OF len tails _ that(2)]) simp_all
  qed
  moreover have "dom ((w_stream w)(i \<mapsto> st @ ts)) = dom (m_sequences m')" using dom by (simp add: m'_def)
  ultimately show ?thesis using m' fr(1) unfolding world_ok_def m'_def by (simp split: if_splits)
qed

section \<open>Steps keep the world right\<close>

lemma world_okD:
  assumes "world_ok sha U w"
  shows "mgr_ok (w_mgr w)" "dom (w_stream w) = dom (m_sequences (w_mgr w))"
    "m_sequences (w_mgr w) i = Some s \<Longrightarrow> w_stream w i = Some st \<Longrightarrow>
      stream_ok sha U (p_block_tokens (m_pool (w_mgr w))) (p_prefix_caching (m_pool (w_mgr w))) (w_mem w) s st"
    "published_ok sha U (p_block_tokens (m_pool (w_mgr w))) (w_mem w) (p_block_hashes (m_pool (w_mgr w)))"
  using assms unfolding world_ok_def by blast+

lemma allocate_world:
  assumes w: "world_ok sha U w" and at: "m_sequences (w_mgr w) i = Some s" "w_stream w i = Some st"
    and U: "(s_keys s, st @ ts) \<in> U" and room: "length (st @ ts) \<le> usize_max"
    and al: "allocate (w_mgr w) i ts = Some (Inr al, m')" and sls: "slots m' i (al_positions al) = Some (Inr sls)"
  shows "world_ok sha U \<lparr>w_mgr = m', w_stream = (w_stream w)(i \<mapsto> st @ ts),
    w_mem = forward_pass (s_keys s) (st @ ts) al sls (w_mem w)\<rparr>"
proof -
  let ?m = "w_mgr w"
  note m = world_okD(1) [OF w] and so = world_okD(3) [OF w at]
  have fits: "s_scheduled s + length ts \<le> usize_max"
    using room so by (simp add: stream_ok_def)
  obtain c where c: "cost (m_pool ?m) s (length ts) = Some c" using cost_Some [OF m at(1) fits] .
  have un: "s_unresolved s = 0" and c2: "c \<le> fq_len (p_free (m_pool ?m))"
    using al at c by (auto simp: allocate_def split: if_splits)
  from append_mgr [OF m at(1) un fits c c2] obtain al' s' p' where r:
    "append_tokens (m_pool ?m) s ts = Some (al', s', p')"
    "s' = s\<lparr>s_table := s_table s', s_scheduled := s_scheduled s + length ts,
      s_unhashed := (if p_prefix_caching (m_pool ?m) then s_unhashed s @ ts else s_unhashed s)\<rparr>"
    "reserve_spec (m_pool ?m) s (length ts) (held_by ((m_sequences ?m)(i := None))) al' (s_table s') p'"
    "mgr_ok (?m\<lparr>m_pool := p', m_sequences := (m_sequences ?m)(i \<mapsto> s')\<rparr>)"
    by blast
  have eq: "al' = al" "m' = ?m\<lparr>m_pool := p', m_sequences := (m_sequences ?m)(i \<mapsto> s')\<rparr>"
    using al at un c c2 r(1) by (auto simp: allocate_def)
  have f: "s_keys s' = s_keys s" "s_scheduled s' = s_scheduled s + length ts" "s_hashes s' = s_hashes s"
    "s_unresolved s' = 0" "p_prefix_caching (m_pool ?m) \<Longrightarrow> s_unhashed s' = s_unhashed s @ ts"
    by (subst r(2), simp add: un)+
  have hs: "length (s_hashes s) * p_block_tokens (m_pool ?m) \<le> s_scheduled s" "length st = s_scheduled s"
    using mgr_okD(5) [OF m at(1)] so by (simp_all add: seq_ok_def stream_ok_def)
  show ?thesis unfolding eq(2)
  proof (rule reserve_world [OF w at r(3) [unfolded eq(1)] f(1) refl f(2,3) _ r(4) U sls [unfolded eq(2)]])
    assume "p_prefix_caching (m_pool ?m)"
    then show "s_unhashed s' = drop (length (s_hashes s) * p_block_tokens (m_pool ?m))
        (take (s_scheduled s' - s_unresolved s') (st @ ts))"
      using so f un hs by (simp add: stream_ok_def)
  qed
qed

lemma allocate_unresolved_world:
  assumes w: "world_ok sha U w" and at: "m_sequences (w_mgr w) i = Some s" "w_stream w i = Some st"
    and U: "(s_keys s, st @ ts) \<in> U" and room: "room_for (w_mgr w) 0 (length (st @ ts))"
    and al: "allocate_unresolved (w_mgr w) i (length ts) = Some (Inr al, m')"
    and sls: "slots m' i (al_positions al) = Some (Inr sls)"
  shows "world_ok sha U \<lparr>w_mgr = m', w_stream = (w_stream w)(i \<mapsto> st @ ts),
    w_mem = forward_pass (s_keys s) (st @ ts) al sls (w_mem w)\<rparr>"
proof -
  let ?m = "w_mgr w" and ?bt = "p_block_tokens (m_pool (w_mgr w))" and ?c = "p_prefix_caching (m_pool (w_mgr w))"
  note m = world_okD(1) [OF w] and so = world_okD(3) [OF w at]
  have fits: "s_scheduled s + length ts \<le> usize_max"
    using room so by (simp add: room_for_def stream_ok_def)
  obtain c where c: "cost (m_pool ?m) s (length ts) = Some c" using cost_Some [OF m at(1) fits] .
  have c2: "c \<le> fq_len (p_free (m_pool ?m))"
    using al at c by (auto simp: allocate_unresolved_def split: if_splits)
  from reserve_mgr [OF m at(1) fits c c2] obtain al' t' p' where r:
    "reserve (m_pool ?m) s (length ts) = Some (al', s\<lparr>s_table := t', s_scheduled := s_scheduled s + length ts\<rparr>, p')"
    "reserve_spec (m_pool ?m) s (length ts) (held_by ((m_sequences ?m)(i := None))) al' t' p'"
    "length t' = div_ceil (s_scheduled s + length ts) ?bt"
    and new: "\<And>s'. seq_ok ?bt ?c s' \<Longrightarrow> s_table s' = t' \<Longrightarrow> s_scheduled s' = s_scheduled s + length ts \<Longrightarrow>
       mgr_ok (?m\<lparr>m_pool := p', m_sequences := (m_sequences ?m)(i \<mapsto> s')\<rparr>)"
    by blast
  define s' where "s' = s\<lparr>s_table := t', s_scheduled := s_scheduled s + length ts, s_unresolved := s_unresolved s + length ts\<rparr>"
  have sq: "seq_ok ?bt ?c s" by (rule mgr_okD(5) [OF m at(1)])
  then have "seq_ok ?bt ?c s'" using r(3) fits by (auto simp: seq_ok_def s'_def split: if_splits)
  then have m': "mgr_ok (?m\<lparr>m_pool := p', m_sequences := (m_sequences ?m)(i \<mapsto> s')\<rparr>)"
    by (rule new) (simp_all add: s'_def)
  have "s_unresolved s + length ts \<le> usize_max" using sq fits by (simp add: seq_ok_def)
  then have eq: "al' = al" "m' = ?m\<lparr>m_pool := p', m_sequences := (m_sequences ?m)(i \<mapsto> s')\<rparr>"
    using al at c c2 r(1) by (auto simp: allocate_unresolved_def add_usize_def s'_def)
  have st: "length st = s_scheduled s" "s_unresolved s \<le> s_scheduled s"
    using so sq by (simp_all add: stream_ok_def seq_ok_def)
  show ?thesis unfolding eq(2)
  proof (rule reserve_world [OF w at r(2) [unfolded eq(1)] _ _ _ _ _ m' U sls [unfolded eq(2)]])
    assume "?c"
    then have "s_unhashed s = drop (length (s_hashes s) * ?bt) (take (s_scheduled s - s_unresolved s) st)"
      using so by (simp add: stream_ok_def)
    then show "s_unhashed s' = drop (length (s_hashes s) * ?bt) (take (s_scheduled s' - s_unresolved s') (st @ ts))"
      using st by (simp add: s'_def)
  qed (simp_all add: s'_def)
qed

lemma take_eq_le: "n \<le> k \<Longrightarrow> take k xs = take k ys \<Longrightarrow> take n xs = take n ys"
  by (metis min.absorb1 take_take)

lemma admit_world:
  assumes w: "world_ok sha U w" and sha: "\<forall>x. length (sha x) = 32"
    and bt64: "p_block_tokens (m_pool (w_mgr w)) \<le> u64_max"
    and cf: "collision_free sha (p_block_tokens (m_pool (w_mgr w))) U"
    and hit: "hit_of sha (w_mgr w) prompt hit" and prompt: "(h_keys hit, prompt) \<in> U"
    and st: "st = take (h_cached_tokens hit) prompt @ chunk" and U: "(h_keys hit, st) \<in> U"
    and room: "room_for (w_mgr w) (length (h_blocks hit)) (length st)"
    and al: "admit (w_mgr w) i hit chunk = Some (Inr al, m')" and sls: "slots m' i (al_positions al) = Some (Inr sls)"
    and U0: "(h_keys hit, take (h_cached_tokens hit) prompt) \<in> U"
  shows "world_ok sha U \<lparr>w_mgr = m', w_stream = (w_stream w)(i \<mapsto> st),
    w_mem = forward_pass (h_keys hit) st al sls (w_mem w)\<rparr>"
proof -
  let ?m = "w_mgr w" and ?bt = "p_block_tokens (m_pool (w_mgr w))" and ?c = "p_prefix_caching (m_pool (w_mgr w))"
  let ?pre = "take (h_cached_tokens hit) prompt"
  note m = world_okD(1) [OF w]
  have bt: "0 < ?bt" by (rule mgr_okD(1) [OF m])
  have wf: "hit_wf ?m hit" and cl: "h_cached_tokens hit \<le> length prompt"
    and hh: "h_hashes hit = block_hashes sha ?pre ?bt (h_keys hit)"
    using hit by (simp_all add: hit_of_def)
  have new: "m_sequences ?m i = None" using al by (auto simp: admit_def split: if_splits)
  have fr: "hit_fresh ?m hit"
    using al new validate_hit_result [OF m wf] by (auto simp: admit_def admit_cost_def split: if_splits)
  have bl: "h_cached_tokens hit = length (h_blocks hit) * ?bt" "length (h_hashes hit) = length (h_blocks hit)"
    "set (h_blocks hit) \<subseteq> {..<total_blocks ?m}"
    using wf fr by (simp_all add: hit_wf_def hit_fresh_def)
  have fits: "h_cached_tokens hit + length chunk + length (h_blocks hit) \<le> usize_max"
    and refs: "size (held_by (m_sequences ?m)) + length (h_blocks hit) \<le> u32_max"
    using room st cl by (simp_all add: room_for_def)
  obtain needed where n: "admit_cost ?m hit (length chunk) = Some (Inr needed)"
    using admit_cost_result [OF m wf fr fits] by blast
  have n2: "needed \<le> fq_len (p_free (m_pool ?m))" using al new n by (auto simp: admit_def split: if_splits)
  from admit_mgr [OF m new wf fr fits refs n n2] obtain al' s' p1 p' where r:
    "admit ?m i hit chunk = Some (Inr al', ?m\<lparr>m_pool := p', m_sequences := (m_sequences ?m)(i \<mapsto> s')\<rparr>)"
    "mgr_ok (?m\<lparr>m_pool := p', m_sequences := (m_sequences ?m)(i \<mapsto> s')\<rparr>)"
    "p_block_hashes p1 = p_block_hashes (m_pool ?m)" "p_block_tokens p1 = ?bt" "p_prefix_caching p1 = ?c"
    "mgr_ok (?m\<lparr>m_pool := p1, m_sequences := (m_sequences ?m)(i \<mapsto> admitted hit)\<rparr>)"
    "s' = (admitted hit)\<lparr>s_table := s_table s', s_scheduled := h_cached_tokens hit + length chunk,
      s_unhashed := (if ?c then chunk else [])\<rparr>"
    "reserve_spec p1 (admitted hit) (length chunk) (held_by (m_sequences ?m)) al' (s_table s') p'"
    by blast
  let ?m1 = "?m\<lparr>m_pool := p1, m_sequences := (m_sequences ?m)(i \<mapsto> admitted hit)\<rparr>"
  let ?w1 = "\<lparr>w_mgr = ?m1, w_stream = (w_stream w)(i \<mapsto> ?pre), w_mem = w_mem w\<rparr>"
  have lp: "length ?pre = h_cached_tokens hit" using cl by simp
  have blen: "length (h_blocks hit) = length ?pre div ?bt" using lp bl(1) bt by simp
  have cell: "w_mem w (h_blocks hit ! (pos div ?bt), pos mod ?bt) = Some (h_keys hit, take (Suc pos) ?pre)"
    if pos: "pos < h_cached_tokens hit" for pos
  proof -
    let ?j = "pos div ?bt"
    have j: "?j < length (h_blocks hit)" using pos bl(1) bt by (simp add: div_less_iff_less_mult)
    have h: "p_block_hashes (m_pool ?m) ! (h_blocks hit ! ?j) = Some (block_hashes sha ?pre ?bt (h_keys hit) ! ?j)"
      using fr j hh by (simp add: hit_fresh_def)
    have "h_blocks hit ! ?j < length (p_block_hashes (m_pool ?m))"
      using subsetD [OF bl(3) nth_mem [OF j]] pool_ok_lengths [OF mgr_okD(3) [OF m]] by (simp add: total_blocks_def)
    then obtain k ts l where l: "(k, ts) \<in> U" "l < length ts div ?bt"
      "block_hashes sha ?pre ?bt (h_keys hit) ! ?j = block_hashes sha ts ?bt k ! l"
      "\<forall>off<?bt. w_mem w (h_blocks hit ! ?j, off) = Some (k, take (Suc (l * ?bt + off)) ts)"
      using world_okD(4) [OF w] h unfolding published_ok_def by blast
    have jl: "?j < length ?pre div ?bt" using j blen by simp
    note inj = chain_inj [OF sha bt bt64 cf U0 l(1) jl l(2,3)]
    have lj: "l = ?j" and kk: "k = h_keys hit" and eq: "take (Suc ?j * ?bt) ?pre = take (Suc ?j * ?bt) ts"
      using conjunct1 [OF inj] conjunct2 [OF conjunct2 [OF inj]] conjunct1 [OF conjunct2 [OF inj]] by simp_all
    have off: "pos mod ?bt < ?bt" using bt by simp
    have "Suc pos \<le> Suc ?j * ?bt"
      using off div_mult_mod_eq [of pos ?bt] unfolding mult_Suc by linarith
    then have "take (Suc pos) ts = take (Suc pos) ?pre" by (intro take_eq_le [OF _ eq [symmetric]])
    then show ?thesis using l(4) off lj kk by simp
  qed
  have "stream_ok sha U ?bt ?c (w_mem w) (admitted hit) ?pre"
    using hh bl lp U0 cell by (simp add: stream_ok_def admitted_def)
  then have w1: "world_ok sha U ?w1"
    using w r(3-6) unfolding world_ok_def by (auto split: if_splits)
  have eq: "al' = al" "m' = ?m\<lparr>m_pool := p', m_sequences := (m_sequences ?m)(i \<mapsto> s')\<rparr>"
    using al r(1) by auto
  have f: "s_keys s' = h_keys hit" "s_scheduled s' = h_cached_tokens hit + length chunk" "s_hashes s' = h_hashes hit"
    "s_unresolved s' = 0" "s_unhashed s' = (if ?c then chunk else [])"
    by (subst r(7), simp add: admitted_def)+
  have del: "(m_sequences ?m1)(i := None) = m_sequences ?m" using new by (auto simp: fun_eq_iff)
  have mm: "?m1\<lparr>m_pool := p', m_sequences := (m_sequences ?m1)(i \<mapsto> s')\<rparr> = m'" using eq(2) by simp
  have "world_ok sha U \<lparr>w_mgr = (w_mgr ?w1)\<lparr>m_pool := p', m_sequences := (m_sequences (w_mgr ?w1))(i \<mapsto> s')\<rparr>,
      w_stream = (w_stream ?w1)(i \<mapsto> ?pre @ chunk),
      w_mem = forward_pass (s_keys (admitted hit)) (?pre @ chunk) al sls (w_mem ?w1)\<rparr>"
  proof (rule reserve_world [OF w1, where s = "admitted hit" and t' = "s_table s'"])
    show "reserve_spec (m_pool (w_mgr ?w1)) (admitted hit) (length chunk)
        (held_by ((m_sequences (w_mgr ?w1))(i := None))) al (s_table s') p'"
      using r(8) eq(1) del by simp
    show "slots ((w_mgr ?w1)\<lparr>m_pool := p', m_sequences := (m_sequences (w_mgr ?w1))(i \<mapsto> s')\<rparr>) i (al_positions al) = Some (Inr sls)"
      using sls mm by simp
    show "mgr_ok ((w_mgr ?w1)\<lparr>m_pool := p', m_sequences := (m_sequences (w_mgr ?w1))(i \<mapsto> s')\<rparr>)"
      using r(2) eq mm by simp
    show "s_unhashed s' = drop (length (s_hashes (admitted hit)) * p_block_tokens (m_pool (w_mgr ?w1)))
        (take (s_scheduled s' - s_unresolved s') (?pre @ chunk))" if "p_prefix_caching (m_pool (w_mgr ?w1))"
      using that f r(4,5) bl lp by (simp add: admitted_def)
    show "(s_keys (admitted hit), ?pre @ chunk) \<in> U" using U st by (simp add: admitted_def)
  qed (use f in \<open>simp_all add: admitted_def\<close>)
  then show ?thesis using mm st by (simp add: admitted_def)
qed

lemma resolve_world:
  assumes w: "world_ok sha U w" and at: "m_sequences (w_mgr w) i = Some s" "w_stream w i = Some st"
    and ts: "ts = take (length ts) (drop (s_scheduled s - s_unresolved s) st)"
    and r: "resolve (w_mgr w) i ts = Some (Inr (), m')"
  shows "world_ok sha U (w\<lparr>w_mgr := m'\<rparr>)"
proof -
  let ?m = "w_mgr w" and ?c = "p_prefix_caching (m_pool (w_mgr w))"
  note m = world_okD(1) [OF w] and so = world_okD(3) [OF w at]
  define s' where "s' = s\<lparr>s_unresolved := s_unresolved s - length ts,
    s_unhashed := (if ?c then s_unhashed s @ ts else s_unhashed s)\<rparr>"
  have le: "length ts \<le> s_unresolved s" and m': "m' = ?m\<lparr>m_sequences := (m_sequences ?m)(i \<mapsto> s')\<rparr>"
    using r at(1) by (auto simp: resolve_def Let_def s'_def split: if_splits)
  have ok': "mgr_ok m'" using resolve_ok [OF m, of i ts] r by (simp add: outcome_ok_def)
  have sq: "seq_ok (p_block_tokens (m_pool ?m)) ?c s" by (rule mgr_okD(5) [OF m at(1)])
  have "drop n (take (s_scheduled s - s_unresolved s) st) @ ts = drop n (take (s_scheduled s - (s_unresolved s - length ts)) st)"
    if "n \<le> s_scheduled s - s_unresolved s" for n
  proof -
    let ?a = "s_scheduled s - s_unresolved s"
    have "s_scheduled s - (s_unresolved s - length ts) = ?a + length ts" using le sq by (simp add: seq_ok_def)
    moreover have "take ?a st @ ts = take (?a + length ts) st" by (subst ts) (simp add: take_add)
    moreover have "drop n (take ?a st) @ ts = drop n (take ?a st @ ts)"
      using that so by (simp add: stream_ok_def)
    ultimately show ?thesis by simp
  qed
  then have "stream_ok sha U (p_block_tokens (m_pool ?m)) ?c (w_mem w) s' st"
    using so sq by (auto simp: stream_ok_def seq_ok_def s'_def)
  then show ?thesis using w ok' at m' unfolding world_ok_def by (auto split: if_splits)
qed

lemma commit_world:
  assumes w: "world_ok sha U w" and r: "commit_through sha (w_mgr w) i computed = Some (Inr (), m')"
  shows "world_ok sha U (w\<lparr>w_mgr := m'\<rparr>)"
proof -
  let ?m = "w_mgr w" and ?bt = "p_block_tokens (m_pool (w_mgr w))" and ?c = "p_prefix_caching (m_pool (w_mgr w))"
  note m = world_okD(1) [OF w]
  have bt: "0 < ?bt" by (rule mgr_okD(1) [OF m])
  obtain s where at: "m_sequences ?m i = Some s" and le: "computed \<le> s_scheduled s"
    using r by (auto simp: commit_through_def split: option.splits if_splits)
  obtain st where st: "w_stream w i = Some st" using world_okD(2) [OF w] at by blast
  note so = world_okD(3) [OF w at st] and sq = mgr_okD(5) [OF m at]
  let ?cs = "commit_chunks ?m s computed" and ?n = "length (s_hashes s)"
  let ?hs = "foldl (push_hash sha (s_keys s)) (s_hashes s) ?cs"
  let ?s' = "s\<lparr>s_computed := max (s_computed s) computed, s_hashes := ?hs,
    s_unhashed := drop (length ?cs * ?bt) (s_unhashed s)\<rparr>"
  note bd = commit_chunks_bounds [OF sq bt le]
  from commit_through_mgr [OF m at le, of sha] obtain p' where p':
    "commit_through sha ?m i computed = Some (Inr (), ?m\<lparr>m_pool := p', m_sequences := (m_sequences ?m)(i \<mapsto> ?s')\<rparr>)"
    "mgr_ok (?m\<lparr>m_pool := p', m_sequences := (m_sequences ?m)(i \<mapsto> ?s')\<rparr>)"
    "p_block_tokens p' = ?bt" "p_prefix_caching p' = ?c" "p_ref_counts p' = p_ref_counts (m_pool ?m)"
    "\<forall>b. p_block_hashes p' ! b = p_block_hashes (m_pool ?m) ! b \<or> p_block_hashes (m_pool ?m) ! b = None \<and>
       (\<exists>j. ?n \<le> j \<and> j < ?n + length ?cs \<and> b = s_table s ! j \<and> p_block_hashes p' ! b = Some (?hs ! j))"
    by blast
  have m': "m' = ?m\<lparr>m_pool := p', m_sequences := (m_sequences ?m)(i \<mapsto> ?s')\<rparr>" using r p'(1) by simp
  have lst: "length st = s_scheduled s" using so by (simp add: stream_ok_def)
  have hs: "?hs = take (?n + length ?cs) (block_hashes sha st ?bt (s_keys s))"
  proof (cases "?cs = []")
    case True
    then show ?thesis using so by (simp add: stream_ok_def)
  next
    case False
    have "?cs = []" if "\<not> ?c" using that sq bt by (simp add: seq_ok_def commit_chunks_def)
    then have c: "?c" using False by blast
    let ?h = "min (max (s_computed s) computed - ?n * ?bt) (length (s_unhashed s))"
    let ?us = "take ?h (s_unhashed s)"
    have cs: "?cs = chunks_exact ?bt ?us" by (simp add: commit_chunks_def Let_def)
    have un: "s_unhashed s = drop (?n * ?bt) (take (s_scheduled s - s_unresolved s) st)"
      using so c by (simp add: stream_ok_def)
    have nb: "?n * ?bt \<le> length st" "bt dvd ?n * bt" for bt
      using sq lst by (simp_all add: seq_ok_def)
    have tk: "take (?n * ?bt) st @ ?us = take (?n * ?bt + ?h) st"
    proof -
      have "?h \<le> s_scheduled s - s_unresolved s - ?n * ?bt" using un lst by simp
      then have "?us = take ?h (drop (?n * ?bt) st)" unfolding un by (simp add: drop_take min_def)
      then show ?thesis by (simp add: take_add)
    qed
    have n1: "?n \<le> length st div ?bt" using nb(1) bt by (simp add: less_eq_div_iff_mult_less_eq)
    have "block_hashes sha (take (?n * ?bt) st) ?bt (s_keys s) = s_hashes s"
      using block_hashes_take_blocks [OF bt n1] so by (simp add: stream_ok_def)
    then have 1: "?hs = block_hashes sha (take (?n * ?bt + ?h) st) ?bt (s_keys s)"
      using block_hashes_append [OF bt, of "take (?n * ?bt) st" sha ?us "s_keys s"] nb tk cs by simp
    have "?h \<le> length st - ?n * ?bt" using un lst by simp
    then have l: "length (take (?n * ?bt + ?h) st) = ?n * ?bt + ?h" using nb(1) by simp
    have q: "(?n * ?bt + ?h) div ?bt = ?n + length ?cs"
      using bt cs by (simp add: length_chunks_exact)
    have "take (?n + length ?cs) (block_hashes sha st ?bt (s_keys s)) =
        take (?n + length ?cs) (block_hashes sha (take (?n * ?bt + ?h) st @ drop (?n * ?bt + ?h) st) ?bt (s_keys s))"
      by simp
    also have "\<dots> = take (?n + length ?cs) (block_hashes sha (take (?n * ?bt + ?h) st) ?bt (s_keys s))"
      by (rule block_hashes_prefix [OF bt]) (metis l q div_times_less_eq_dividend)
    also have "\<dots> = block_hashes sha (take (?n * ?bt + ?h) st) ?bt (s_keys s)"
      using l q bt by (simp add: length_block_hashes)
    finally show ?thesis using 1 by simp
  qed
  have lhs: "length ?hs = ?n + length ?cs" by simp
  have "stream_ok sha U ?bt ?c (w_mem w) ?s' st"
    using so hs lhs by (auto simp: stream_ok_def add_mult_distrib add.commute)
  moreover have "published_ok sha U ?bt (w_mem w) (p_block_hashes p')"
    unfolding published_ok_def
  proof (intro allI impI)
    fix b h assume b: "b < length (p_block_hashes p')" "p_block_hashes p' ! b = Some h"
    have lb: "b < length (p_block_hashes (m_pool ?m))"
      using b(1) pool_ok_lengths [OF mgr_okD(3) [OF m]] pool_ok_lengths [OF mgr_okD(3) [OF p'(2)]] p'(5) by simp
    show "\<exists>k ts j. (k, ts) \<in> U \<and> j < length ts div ?bt \<and> h = block_hashes sha ts ?bt k ! j \<and>
        (\<forall>off<?bt. w_mem w (b, off) = Some (k, take (Suc (j * ?bt + off)) ts))"
    proof (cases "p_block_hashes p' ! b = p_block_hashes (m_pool ?m) ! b")
      case True
      then show ?thesis using world_okD(4) [OF w] lb b(2) unfolding published_ok_def by simp
    next
      case False
      then obtain j where j: "j < ?n + length ?cs" "b = s_table s ! j" "h = ?hs ! j"
        using p'(6) b(2) by (metis option.inject)
      have jl: "j < length st div ?bt" using j(1) bd(3) lst by simp
      have "w_mem w (b, off) = Some (s_keys s, take (Suc (j * ?bt + off)) st)" if "off < ?bt" for off
      proof -
        have "Suc j \<le> s_scheduled s div ?bt" using jl lst by simp
        then have "Suc j * ?bt \<le> s_scheduled s" using less_eq_div_iff_mult_less_eq [OF bt] by blast
        then have "j * ?bt + off < s_scheduled s" using that by simp
        moreover have "(j * ?bt + off) div ?bt = j" "(j * ?bt + off) mod ?bt = off" using that by simp_all
        ultimately show ?thesis using so j(2) unfolding stream_ok_def by metis
      qed
      then show ?thesis using so j(1,3) jl hs unfolding stream_ok_def
        by (intro exI [of _ "s_keys s"] exI [of _ st] exI [of _ j]) simp
    qed
  qed
  ultimately show ?thesis using w p'(2-4) at st unfolding world_ok_def m' by (auto split: if_splits)
qed

lemma fork_world:
  assumes w: "world_ok sha U w" and at: "m_sequences (w_mgr w) parent = Some s"
    and room: "room_for (w_mgr w) (length (s_table s)) 0" and r: "fork (w_mgr w) parent child = Some (Inr (), m')"
  shows "world_ok sha U (w\<lparr>w_mgr := m', w_stream := (w_stream w)(child := w_stream w parent)\<rparr>)"
proof -
  let ?m = "w_mgr w"
  note m = world_okD(1) [OF w]
  have new: "m_sequences ?m child = None"
    using r at by (auto simp: fork_def sequence_of_def split: if_splits)
  obtain p' where p': "add_refs (m_pool ?m) (s_table s) = Some p'"
    "mgr_ok (?m\<lparr>m_pool := p', m_sequences := (m_sequences ?m)(child \<mapsto> s)\<rparr>)"
    "p_block_tokens p' = p_block_tokens (m_pool ?m)" "p_prefix_caching p' = p_prefix_caching (m_pool ?m)"
    "p_block_hashes p' = p_block_hashes (m_pool ?m)"
    using fork_mgr [OF m at new] room by (auto simp: room_for_def)
  have m': "m' = ?m\<lparr>m_pool := p', m_sequences := (m_sequences ?m)(child \<mapsto> s)\<rparr>"
    using r at p'(1) by (auto simp: fork_def sequence_of_def split: if_splits)
  obtain st where st: "w_stream w parent = Some st" using world_okD(2) [OF w] at by blast
  then show ?thesis using w p' world_okD(3) [OF w at st] unfolding world_ok_def m' by (auto split: if_splits)
qed

lemma free_world:
  assumes w: "world_ok sha U w" and r: "free (w_mgr w) i = Some (Inr (), m')"
  shows "world_ok sha U (w\<lparr>w_mgr := m', w_stream := (w_stream w)(i := None)\<rparr>)"
proof -
  let ?m = "w_mgr w"
  obtain s where at: "m_sequences ?m i = Some s" using r by (auto simp: free_def split: option.splits)
  obtain p' where p': "free ?m i = Some (Inr (), ?m\<lparr>m_pool := p', m_sequences := (m_sequences ?m)(i := None)\<rparr>)"
    "mgr_ok (?m\<lparr>m_pool := p', m_sequences := (m_sequences ?m)(i := None)\<rparr>)"
    "p_block_tokens p' = p_block_tokens (m_pool ?m)" "p_prefix_caching p' = p_prefix_caching (m_pool ?m)"
    "p_block_hashes p' = p_block_hashes (m_pool ?m)"
    using free_mgr [OF world_okD(1) [OF w] at] by blast
  have m': "m' = ?m\<lparr>m_pool := p', m_sequences := (m_sequences ?m)(i := None)\<rparr>" using r p'(1) by simp
  show ?thesis using w p' unfolding world_ok_def m' by (auto split: if_splits)
qed

section \<open>Reachable worlds\<close>

definition contexts_ok :: "(byte list \<Rightarrow> byte list) \<Rightarrow> nat \<Rightarrow> (hash_keys \<times> token list) set \<Rightarrow> bool" where
  "contexts_ok sha bt U \<longleftrightarrow>
     (\<forall>x. length (sha x) = 32) \<and> bt \<le> u64_max \<and> collision_free sha bt U \<and>
     (\<forall>k ts n. (k, ts) \<in> U \<longrightarrow> (k, take n ts) \<in> U)"

lemma world_step_ok:
  assumes "world_step sha U w w'" "world_ok sha U w"
    "contexts_ok sha (p_block_tokens (m_pool (w_mgr w))) U"
  shows "world_ok sha U w'"
  using assms
proof cases
  case (admit_step prompt hit st chunk i al m sls)
  then show ?thesis using assms(2,3)
    by (auto simp: contexts_ok_def intro: admit_world)
next
  case (allocate_step i s st ts al m sls)
  then show ?thesis using allocate_world [OF assms(2)] by (simp add: room_for_def)
next
  case (allocate_unresolved_step i s st ts al m sls)
  then show ?thesis using allocate_unresolved_world [OF assms(2)] by blast
next
  case (resolve_step i s st ts m)
  then show ?thesis using resolve_world [OF assms(2)] by blast
next
  case (commit_step i computed m)
  then show ?thesis using commit_world [OF assms(2)] by blast
next
  case (fork_step parent s child m)
  then show ?thesis using fork_world [OF assms(2)] by blast
next
  case (free_step i m)
  then show ?thesis using free_world [OF assms(2)] by blast
qed

end
