(* ===== verification/BlockDemo.thy ===== *)
theory BlockDemo
  imports BlockDevice
begin

text \<open>
  A concrete pool of one slab, 32 blocks of four tokens, with its free list written out, and a short
  run of the manager on it: a request of five tokens is admitted and committed, forked, and the
  fork takes a token of its own, so that the two sequences share a published block and each own a tail.
\<close>

definition demo_config :: pool_config where
  "demo_config = \<lparr>pc_block_tokens = 4, pc_slabs = 1, pc_prefix_caching = True\<rparr>"

definition demo_sha :: "byte list \<Rightarrow> byte list" where
  "demo_sha x = replicate 32 0"

section \<open>The free list\<close>

lemma list_update_numeral: "(x # xs)[numeral k := v] = x # xs[pred_numeral k := v]"
  by (simp add: numeral_eq_Suc)

lemma replicate_same [simp]: "(replicate n x)[i := x] = replicate n x"
  by (induction n arbitrary: i) (auto split: nat.split)

lemma replicate_32: "replicate 32 x =
  [x, x, x, x, x, x, x, x, x, x, x, x, x, x, x, x, x, x, x, x, x, x, x, x, x, x, x, x, x, x, x, x]"
  by (simp add: numeral_eq_Suc)

lemma upt_32: "[0..<32] =
  [0, 1, 2, 3, 4, 5, 6, 7, 8, 9, 10, 11, 12, 13, 14, 15, 16, 17, 18, 19, 20, 21, 22, 23, 24, 25, 26, 27, 28, 29,
   30, 31]"
  by (simp add: upt_rec)

lemma upt_small: "[0..<2] = [0, 1]" "[0..<3] = [0, 1, 2]" "[0..<4] = [0, 1, 2, 3]" "[0..<8] = [0, 1, 2, 3, 4, 5, 6, 7]"
  by (simp_all add: upt_rec)

text \<open>The free list once the first \<open>n\<close> blocks are taken.\<close>

definition demo_queue :: "nat \<Rightarrow> free_queue" where
  "demo_queue n = \<lparr>fq_prev = map (\<lambda>b. if b \<le> n then NIL else b - 1) [0..<32],
     fq_next = map (\<lambda>b. if b < n \<or> b = 31 then NIL else b + 1) [0..<32], fq_queued = map (\<lambda>b. n \<le> b) [0..<32],
     fq_head = n, fq_tail = 31, fq_len = 32 - n\<rparr>"

lemma demo_queue_full: "fq_full 32 = Some (demo_queue 0)"
  by (simp add: fq_full_def fq_empty_def upt_32 demo_queue_def replicate_32)
    (simp add: fq_push_back_def fq_contains_def NIL_def u32_max_def list_update_numeral list_get_def list_set_def)

lemma demo_queue_pop: "fq_pop_front (demo_queue 0) = Some (Some 0, demo_queue (Suc 0))"
  "fq_pop_front (demo_queue (Suc 0)) = Some (Some (Suc 0), demo_queue 2)"
  "fq_pop_front (demo_queue 2) = Some (Some 2, demo_queue 3)"
  by (simp_all add: fq_pop_front_def fq_remove_def demo_queue_def upt_32 NIL_def u32_max_def list_update_numeral
    list_get_def list_set_def checked_sub_def)

lemma demo_queue_len [simp]: "fq_len (demo_queue n) = 32 - n"
  by (simp add: demo_queue_def)

lemma demo_queue_rep: "n \<le> 3 \<Longrightarrow> fq_rep (demo_queue n) 32 [n..<32]"
proof -
  have 0: "fq_rep (demo_queue 0) 32 [0..<32]" using fq_full_rep [of 32] demo_queue_full by (simp add: u32_max_def)
  have 1: "fq_rep (demo_queue (Suc 0)) 32 [Suc 0..<32]"
    using fq.pop_front_law [OF 0] by (simp add: demo_queue_pop tl_upt)
  have 2: "fq_rep (demo_queue 2) 32 [2..<32]"
    using fq.pop_front_law [OF 1] by (simp add: demo_queue_pop tl_upt numeral_2_eq_2 [symmetric])
  have 3: "fq_rep (demo_queue 3) 32 [3..<32]"
    using fq.pop_front_law [OF 2] by (simp add: demo_queue_pop tl_upt)
  show "n \<le> 3 \<Longrightarrow> fq_rep (demo_queue n) 32 [n..<32]"
    using 0 1 2 3 by (auto simp: le_Suc_eq numeral_3_eq_3 numeral_2_eq_2)
qed

section \<open>Two sequences that share a block\<close>

definition demo_block_key :: block_hash where
  "demo_block_key = replicate 32 0"

definition demo_state ::
  "nat \<Rightarrow> nat list \<Rightarrow> block_hash option list \<Rightarrow> nat \<Rightarrow> (seq_id \<rightharpoonup> sequence) \<Rightarrow> manager" where
  "demo_state queries refs hashes n seqs = \<lparr>m_owner = 0, m_config = demo_config,
     m_pool = \<lparr>p_block_tokens = 4, p_prefix_caching = True, p_ref_counts = refs, p_block_hashes = hashes, p_free = demo_queue n,
       p_cached = (if hashes ! 0 = None then Map.empty else [demo_block_key \<mapsto> 0]),
       p_counters = \<lparr>c_prefix_queries = queries, c_prefix_hits = 0, c_evictions = 0\<rparr>,
       p_published_tokens = (if hashes ! 0 = None then 0 else 4)\<rparr>,
     m_sequences = seqs\<rparr>"

definition demo_five :: sequence where
  "demo_five = \<lparr>s_keys = new_keys, s_table = [0, 1], s_scheduled = 5, s_computed = 5, s_hashes = [demo_block_key], s_unhashed = [11],
     s_unresolved = 0\<rparr>"

definition demo_six :: sequence where
  "demo_six = demo_five\<lparr>s_table := [0, 2], s_scheduled := 6, s_unhashed := [11, 12]\<rparr>"

definition demo_vacant :: manager where
  "demo_vacant = demo_state 0 (replicate 32 0) (replicate 32 None) 0 Map.empty"

definition demo_entered :: manager where
  "demo_entered = demo_state 5 ((replicate 32 0)[0 := 1, 1 := 1]) (replicate 32 None) 2
     [1 \<mapsto> demo_five\<lparr>s_computed := 0, s_hashes := [], s_unhashed := [7, 8, 9, 10, 11]\<rparr>]"

definition demo_hashes :: "block_hash option list" where
  "demo_hashes = (replicate 32 None)[0 := Some demo_block_key]"

definition demo_committed :: manager where
  "demo_committed = demo_state 5 ((replicate 32 0)[0 := 1, 1 := 1]) demo_hashes 2 [1 \<mapsto> demo_five]"

definition demo_twins :: manager where
  "demo_twins = demo_state 5 ((replicate 32 0)[0 := 2, 1 := 2]) demo_hashes 2 [1 \<mapsto> demo_five, 2 \<mapsto> demo_five]"

definition demo_shared :: manager where
  "demo_shared = demo_state 5 ((replicate 32 0)[0 := 2, 1 := 1, 2 := 1]) demo_hashes 3 [1 \<mapsto> demo_five, 2 \<mapsto> demo_six]"

lemmas demo_managers = demo_state_def demo_five_def demo_six_def demo_vacant_def demo_entered_def demo_committed_def
  demo_twins_def demo_shared_def demo_hashes_def demo_config_def

lemmas demo_manager_eval = BlockManager.admit_def admit_cost_def validate_hit_def add_usize_def usize_max_def div_ceil_def
  checked_sub_def append_tokens_def reserve_def extend_table.simps take_free_def span_new_def demo_queue_pop admitted_def
  lookup_prefix_def count_query_def saturating_add_u64_def u64_max_def needs_copy_def last_opt_def num_tokens_def sequence_of_def
  commit_def commit_through_def mul_usize_def chunks_exact.simps Let_def

lemma demo_empty_new: "manager_new 0 demo_config = Some demo_vacant"
  by (simp add: manager_new_def num_blocks_def slab_blocks_def demo_queue_full zero_counters_def demo_managers)

lemma demo_enter: "\<exists>al. BlockManager.admit demo_vacant 1 (lookup_prefix demo_sha demo_vacant [7, 8, 9, 10, 11] new_keys) [7, 8, 9, 10, 11] =
    Some (Inr al, demo_entered)"
  by (simp add: demo_managers demo_manager_eval) (simp add: numeral_eq_Suc)

lemma demo_commit: "commit demo_sha demo_entered 1 = Some (Inr (), demo_committed)"
  by (simp add: demo_managers demo_manager_eval commit_loop.simps publish_def hash_block_def demo_sha_def demo_block_key_def
    saturating_add_usize_def)

lemma demo_twin: "fork demo_committed 1 2 = Some (Inr (), demo_twins)"
  by (simp add: demo_managers fork_def sequence_of_def add_ref_def checked_add_u32_def u32_max_def list_get_def list_set_def)
    (simp add: replicate_32 list_update_numeral numeral_2_eq_2)

lemma demo_part: "\<exists>al. allocate demo_twins 2 [12] = Some (Inr al, demo_shared)"
  by (simp add: demo_managers demo_manager_eval allocate_def cost_def copy_tail_def release_def)
    (simp add: replicate_32 list_update_numeral)

lemma demo_size: "size (held_by [1 \<mapsto> demo_five]) = 2" "held_by Map.empty = {#}"
  using held_by_upd [of Map.empty 1 demo_five] by (simp_all add: demo_five_def)

lemma demo_empty_ok: "mgr_ok demo_vacant" and demo_committed_ok: "mgr_ok demo_committed" and demo_shared_ok: "mgr_ok demo_shared"
proof -
  show 0: "mgr_ok demo_vacant"
    using manager_new_ok [of demo_config 0] demo_empty_new by (simp add: demo_config_def num_blocks_def slab_blocks_def u32_max_def)
  let ?hit = "lookup_prefix demo_sha demo_vacant [7, 8, 9, 10, 11] new_keys"
  have "h_cached_tokens ?hit = 0" "h_blocks ?hit = []"
    by (simp_all add: demo_managers lookup_prefix_def chunks_exact.simps Let_def)
  then have 1: "mgr_ok demo_entered"
    using admit_ok [OF 0 lookup_hit_wf [OF 0], of demo_sha "[7, 8, 9, 10, 11]" new_keys "[7, 8, 9, 10, 11]" 1] demo_enter
    by (auto simp: outcome_ok_def usize_max_def u32_max_def demo_vacant_def demo_state_def)
  then show 2: "mgr_ok demo_committed"
    using commit_ok [OF 1, of demo_sha 1] demo_commit by (simp add: outcome_ok_def)
  have "mgr_ok demo_twins"
    using fork_ok [OF 2, of 1 2] demo_twin demo_size
    by (auto simp: outcome_ok_def u32_max_def demo_committed_def demo_state_def demo_five_def)
  then show "mgr_ok demo_shared"
    using allocate_ok [of demo_twins 2 "[12]"] demo_part
    by (auto simp: outcome_ok_def usize_max_def demo_twins_def demo_state_def demo_five_def)
qed

end
