(* ===== verification/BlockTheorems.thy ===== *)
theory BlockTheorems
  imports BlockDemo
begin

text \<open>
  What the block manager promises to the scheduler that calls it, stated over its methods, with a
  small concrete pool (one slab of four-token blocks) on which each promise is exercised.
\<close>

section \<open>Lemmas\<close>

lemma slot_flat_inj:
  "0 < bt \<Longrightarrow> sl_offset a < bt \<Longrightarrow> sl_offset b < bt \<Longrightarrow> slot_flat bt a = slot_flat bt b \<Longrightarrow>
    sl_block a = sl_block b \<and> sl_offset a = sl_offset b"
  unfolding slot_flat_def
  by (metis add.commute div_less div_mult_self3 add_cancel_right_left mod_less mod_mult_self3 not_less_zero)

lemma reserve_slots:
  fixes bt p
  defines "bt \<equiv> p_block_tokens p"
  assumes m': "mgr_ok m'" and at: "m_sequences m' i = Some s'" and bt': "p_block_tokens (m_pool m') = bt"
    and spec: "reserve_spec p s cnt G al (s_table s') (m_pool m')" and sch: "s_scheduled s' = s_scheduled s + cnt"
    and bt: "0 < bt" and tails: "\<And>b. b \<in> set (tail_blocks bt s) \<Longrightarrow> p_block_hashes p ! b = None"
  shows "\<exists>sls. slots m' i (al_positions al) = Some (Inr sls) \<and> length sls = cnt \<and>
    distinct (map (slot_flat bt) sls) \<and>
    (\<forall>sl\<in>set sls. sl_offset sl < bt \<and> ref_count m' (sl_block sl) = Some 1 \<and> cached_hash m' (sl_block sl) = None)"
proof -
  let ?t = "s_table s'" and ?k = "s_scheduled s div bt"
  let ?P = "[s_scheduled s..<s_scheduled s + cnt]"
  let ?sl = "\<lambda>pos. \<lparr>sl_block = ?t ! (pos div bt), sl_offset = pos mod bt\<rparr>"
  note sp = reserve_spec_at [OF spec, folded bt_def]
  have ap: "al_positions al = \<lparr>ts_start = s_scheduled s, ts_end = s_scheduled s + cnt\<rparr>"
    and po: "pool_ok (m_pool m') (mset ?t + G)" and lt: "length ?t = div_ceil (s_scheduled s + cnt) bt"
    and frame: "pool_frame (set_mset (mset (s_table s) + G)) p (m_pool m')"
    using spec unfolding reserve_spec_def Let_def bt_def by blast+
  have r: "slots m' i (al_positions al) = Some (Inr (map ?sl ?P))"
    using slots_result [OF m' at, of "al_positions al"] ap sch bt' by (simp add: span_iter_def)
  have idx: "?k \<le> pos div bt" "pos div bt < length ?t" "0 < cnt" if "pos \<in> set ?P" for pos
    using that lt div_less_div_ceil [OF bt] by (auto simp: div_le_mono)
  have priv: "sl_offset (?sl pos) < bt \<and> ref_count m' (sl_block (?sl pos)) = Some 1 \<and>
      cached_hash m' (sl_block (?sl pos)) = None" if pos: "pos \<in> set ?P" for pos
  proof -
    let ?b = "?t ! (pos div bt)"
    have "?b \<in># mset ?t + G" using idx(2) [OF pos] by simp
    then have b: "?b < length (p_ref_counts (m_pool m'))" using po unfolding pool_ok_def by blast
    moreover have "p_ref_counts (m_pool m') ! ?b = count (mset ?t + G) ?b" using po b unfolding pool_ok_def by blast
    then have "p_ref_counts (m_pool m') ! ?b = 1" using sp(2) [OF idx [OF pos]] by simp
    moreover have "p_block_hashes (m_pool m') ! c = None" if "c \<in> set (tail_blocks bt s)" for c
      using tails [OF that] frame unfolding pool_frame_def by metis
    then have "p_block_hashes (m_pool m') ! ?b = None" using sp(1) [OF idx(1,2) [OF pos]] by blast
    ultimately show ?thesis using bt pool_ok_lengths [OF po] by (simp add: ref_count_def cached_hash_def)
  qed
  have "inj_on (slot_flat bt \<circ> ?sl) (set ?P)"
  proof (rule inj_onI)
    fix x y assume xy: "x \<in> set ?P" "y \<in> set ?P" "(slot_flat bt \<circ> ?sl) x = (slot_flat bt \<circ> ?sl) y"
    have "?t ! (x div bt) = ?t ! (y div bt) \<and> x mod bt = y mod bt"
      using slot_flat_inj [OF bt, of "?sl x" "?sl y"] xy(3) bt by simp
    moreover have "x div bt = y div bt" if "?t ! (x div bt) = ?t ! (y div bt)"
      using twice_in_list [of "x div bt" ?t "y div bt" G] idx [OF xy(1)] idx [OF xy(2)] that
        sp(2) [OF idx [OF xy(2)]] by fastforce
    ultimately show "x = y" by (intro div_mod_eqI [of x bt y]) auto
  qed
  then have "distinct (map (slot_flat bt) (map ?sl ?P))" by (simp add: distinct_map)
  then show ?thesis using r priv by (intro exI [of _ "map ?sl ?P"]) (simp add: o_def)
qed




lemma block_hash_bt_le: "config_ok c \<Longrightarrow> pc_block_tokens c \<le> u64_max"
  by (simp add: config_ok_def u32_max_def u64_max_def)

lemma run_call_config:
  assumes "run_call sha m c = Some (r, m')"
  shows "m_config m' = m_config m"
  using run_call_same_owner [OF assms] by simp

lemma world_step_config:
  assumes "world_step sha U w w'"
  shows "m_config (w_mgr w') = m_config (w_mgr w)"
  using assms
proof cases
  case (admit_step prompt hit st chunk i al m sls)
  then show ?thesis using run_call_config [of sha "w_mgr w" "Admit i hit chunk"] by (simp add: no_value_def)
next
  case (allocate_step i s st ts al m sls)
  then show ?thesis using run_call_config [of sha "w_mgr w" "Allocate i ts"] by (simp add: no_value_def)
next
  case (allocate_unresolved_step i s st ts al m sls)
  then show ?thesis using run_call_config [of sha "w_mgr w" "AllocateUnresolved i (length ts)"]
    by (simp add: no_value_def)
next
  case (resolve_step i s st ts m)
  then show ?thesis using run_call_config [of sha "w_mgr w" "Resolve i ts"] by simp
next
  case (commit_step i computed m)
  then show ?thesis using run_call_config [of sha "w_mgr w" "CommitThrough i computed"] by simp
next
  case (fork_step parent s child m)
  then show ?thesis using run_call_config [of sha "w_mgr w" "Fork parent child"] by simp
next
  case (free_step i m)
  then show ?thesis using run_call_config [of sha "w_mgr w" "Free i"] by simp
qed

lemma world_reach_ok:
  assumes "world_reach sha U m w" "mgr_ok m" "m_sequences m = Map.empty" "p_cached (m_pool m) = Map.empty"
    "contexts_ok sha (p_block_tokens (m_pool m)) U"
  shows "world_ok sha U w \<and> p_block_tokens (m_pool (w_mgr w)) = p_block_tokens (m_pool m)"
  using assms
proof induction
  case start
  have "p_block_hashes (m_pool m) ! b \<noteq> Some h" if "b < length (p_block_hashes (m_pool m))" for b h
  proof
    assume "p_block_hashes (m_pool m) ! b = Some h"
    then have "p_cached (m_pool m) h = Some b"
      using mgr_okD(3) [OF start(1)] that by (simp add: pool_ok_def)
    then show False using start(3) by simp
  qed
  then show ?case using start by (simp add: world_ok_def published_ok_def)
next
  case (step w w')
  then have ok: "world_ok sha U w" "p_block_tokens (m_pool (w_mgr w)) = p_block_tokens (m_pool m)" by simp_all
  then have ok': "world_ok sha U w'" using world_step_ok [OF step(2) ok(1)] step.prems(4) by simp
  have "m_config (w_mgr w') = m_config (w_mgr w)" by (rule world_step_config [OF step(2)])
  then have "p_block_tokens (m_pool (w_mgr w')) = p_block_tokens (m_pool (w_mgr w))"
    using world_okD(1) [OF ok'] world_okD(1) [OF ok(1)] by (simp add: mgr_ok_def)
  then show ?case using ok' ok by simp
qed

lemma kv_read_result:
  assumes w: "world_ok sha U w" and at: "m_sequences (w_mgr w) i = Some s" "w_stream w i = Some st"
  shows "kv_read w i (length st) = Some (map (\<lambda>n. Some (s_keys s, take (Suc n) st)) [0..<length st])"
proof -
  note so = world_okD(3) [OF w at]
  have "slots (w_mgr w) i (span_prefix (length st)) =
    Some (Inr (map (\<lambda>pos. \<lparr>sl_block = s_table s ! (pos div p_block_tokens (m_pool (w_mgr w))),
      sl_offset = pos mod p_block_tokens (m_pool (w_mgr w))\<rparr>) [0..<length st]))"
    using slots_result [OF world_okD(1) [OF w] at(1), of "span_prefix (length st)"] so
    by (simp add: stream_ok_def span_prefix_def span_iter_def)
  then show ?thesis using so by (simp add: kv_read_def stream_ok_def)
qed

section \<open>A concrete pool\<close>

text \<open>One slab of 32 four-token blocks, a digest that is constant, and one request of five tokens
  with its prefixes as the contexts seen. One chain input occurs, so the digest does not collide.\<close>

definition demo_tokens :: "token list" where
  "demo_tokens = [7, 8, 9, 10, 11]"

definition demo_manager :: manager where
  "demo_manager = (case manager_new 0 demo_config of Some m \<Rightarrow> m
     | None \<Rightarrow> \<lparr>m_owner = 0, m_config = demo_config, m_pool = undefined, m_sequences = Map.empty\<rparr>)"

definition demo_hit :: prefix_hit where
  "demo_hit = lookup_prefix demo_sha demo_manager demo_tokens new_keys"

text \<open>Sequence 1 admitted with all five tokens.\<close>

definition demo_admitted :: manager where
  "demo_admitted = (case admit demo_manager 1 demo_hit demo_tokens of Some (Inr _, m) \<Rightarrow> m | _ \<Rightarrow> demo_manager)"

definition demo_contexts :: "(hash_keys \<times> token list) set" where
  "demo_contexts = (\<lambda>n. (new_keys, take n demo_tokens)) ` UNIV"

lemma demo_config_ok: "config_ok demo_config"
  by (simp add: config_ok_def demo_config_def num_blocks_def slab_blocks_def u32_max_def)

lemma demo_new: "manager_new 0 demo_config = Some demo_manager"
  and demo_manager_ok: "mgr_ok demo_manager" and demo_manager_empty: "m_sequences demo_manager = Map.empty"
proof -
  obtain m where m: "manager_new 0 demo_config = Some m" "mgr_ok m" "m_sequences m = Map.empty"
    using manager_new_ok [of demo_config 0] demo_config_ok by (auto simp: config_ok_def)
  then show "manager_new 0 demo_config = Some demo_manager" "mgr_ok demo_manager"
    "m_sequences demo_manager = Map.empty"
    by (simp_all add: demo_manager_def)
qed

lemma demo_manager_pool:
  "p_block_tokens (m_pool demo_manager) = 4" "p_prefix_caching (m_pool demo_manager)"
  "p_cached (m_pool demo_manager) = Map.empty" "p_block_hashes (m_pool demo_manager) = replicate 32 None"
  "p_ref_counts (m_pool demo_manager) = replicate 32 0" "m_owner demo_manager = 0"
  "fq_len (p_free (m_pool demo_manager)) = 32" "m_config demo_manager = demo_config"
proof -
  obtain q where q: "fq_full 32 = Some q" "fq_rep q 32 [0..<32]"
    using fq_full_rep [of 32] by (auto simp: u32_max_def)
  have n: "num_blocks demo_config = 32" by (simp add: num_blocks_def demo_config_def slab_blocks_def)
  have m: "demo_manager = \<lparr>m_owner = 0, m_config = demo_config, m_pool = \<lparr>p_block_tokens = 4, p_prefix_caching = True,
      p_ref_counts = replicate 32 0, p_block_hashes = replicate 32 None, p_free = q, p_cached = Map.empty,
      p_counters = zero_counters, p_published_tokens = 0\<rparr>, m_sequences = Map.empty\<rparr>"
    using demo_new q(1) n by (simp add: manager_new_def demo_config_def)
  show "p_block_tokens (m_pool demo_manager) = 4" "p_prefix_caching (m_pool demo_manager)"
    "p_cached (m_pool demo_manager) = Map.empty" "p_block_hashes (m_pool demo_manager) = replicate 32 None"
    "p_ref_counts (m_pool demo_manager) = replicate 32 0" "m_owner demo_manager = 0"
    "fq_len (p_free (m_pool demo_manager)) = 32" "m_config demo_manager = demo_config"
    using fq.rep_len [OF q(2)] by (simp_all add: m)
qed

lemma demo_hit_fields: "h_blocks demo_hit = []" "h_cached_tokens demo_hit = 0" "h_keys demo_hit = new_keys"
  "h_owner demo_hit = 0"
proof -
  note l = lookup_hit [OF demo_manager_ok, where sha = demo_sha and prompt = demo_tokens and keys = new_keys,
      folded demo_hit_def]
  show bl: "h_blocks demo_hit = []" using l(8) [of 0] demo_manager_pool(3) by (cases "h_blocks demo_hit") auto
  show "h_cached_tokens demo_hit = 0" "h_keys demo_hit = new_keys" "h_owner demo_hit = 0"
    using l(1,2,5) bl demo_manager_pool(6) by simp_all
qed

lemma demo_admit:
  "\<exists>al s sls. admit demo_manager 1 demo_hit demo_tokens = Some (Inr al, demo_admitted) \<and>
    mgr_ok demo_admitted \<and> m_sequences demo_admitted = [1 \<mapsto> s] \<and> s_keys s = new_keys \<and>
    s_scheduled s = 5 \<and> s_unresolved s = 0 \<and>
    slots demo_admitted 1 (al_positions al) = Some (Inr sls) \<and>
    (\<forall>b\<in>set (s_table s). count (held_by (m_sequences demo_admitted)) b = 1)"
proof -
  have fr: "hit_fresh demo_manager demo_hit" and wf: "hit_wf demo_manager demo_hit"
    using lookup_hit_fresh [OF demo_manager_ok] lookup_hit_wf [OF demo_manager_ok] by (simp_all add: demo_hit_def)
  have len: "length demo_tokens = 5" by (simp add: demo_tokens_def)
  have ac: "admit_cost demo_manager demo_hit (length demo_tokens) = Some (Inr 2)"
    using admit_cost_result [OF demo_manager_ok wf fr, of 5] demo_hit_fields
    by (simp add: len demo_manager_pool usize_max_def div_ceil_def)
  have held: "held_by (m_sequences demo_manager) = {#}" by (simp add: demo_manager_empty)
  obtain al s' p1 p' where r:
    "admit demo_manager 1 demo_hit demo_tokens = Some (Inr al, demo_manager\<lparr>m_pool := p',
       m_sequences := (m_sequences demo_manager)(1 \<mapsto> s')\<rparr>)"
    "mgr_ok (demo_manager\<lparr>m_pool := p', m_sequences := (m_sequences demo_manager)(1 \<mapsto> s')\<rparr>)"
    "p_block_tokens p1 = p_block_tokens (m_pool demo_manager)"
    "s' = (admitted demo_hit)\<lparr>s_table := s_table s', s_scheduled := h_cached_tokens demo_hit + length demo_tokens,
      s_unhashed := (if p_prefix_caching (m_pool demo_manager) then demo_tokens else [])\<rparr>"
    "reserve_spec p1 (admitted demo_hit) (length demo_tokens) (held_by (m_sequences demo_manager)) al (s_table s') p'"
    using admit_mgr [OF demo_manager_ok _ wf fr _ _ ac, of 1] demo_hit_fields
    by (auto simp: demo_manager_empty demo_manager_pool len usize_max_def u32_max_def)
  have m: "demo_admitted = demo_manager\<lparr>m_pool := p', m_sequences := (m_sequences demo_manager)(1 \<mapsto> s')\<rparr>"
    using r(1) by (simp add: demo_admitted_def)
  have sq: "m_sequences demo_admitted = [1 \<mapsto> s']" by (simp add: m demo_manager_empty)
  have f: "s_keys s' = new_keys" "s_scheduled s' = 5" "s_unresolved s' = 0"
    by (subst r(4), simp add: admitted_def demo_hit_fields len)+
  have ap: "al_positions al = \<lparr>ts_start = 0, ts_end = 5\<rparr>"
    using r(5) demo_hit_fields by (simp add: reserve_spec_def Let_def admitted_def len)
  have ok: "mgr_ok demo_admitted" using r(2) m by simp
  have "\<exists>sls. slots demo_admitted 1 (al_positions al) = Some (Inr sls)"
    using slots_result [OF ok, of 1 s' "al_positions al"] sq f ap by simp
  moreover have "held_by (m_sequences demo_admitted) = mset (s_table s')"
    using held_by_upd [of Map.empty 1 s'] by (simp add: sq)
  moreover have "count (mset (s_table s')) b = 1" if b: "b \<in> set (s_table s')" for b
  proof -
    obtain a where "a < length (s_table s')" "b = s_table s' ! a" using b by (auto simp: in_set_conv_nth)
    then show ?thesis using reserve_spec_at(2) [OF r(5), of a] held demo_hit_fields
      by (simp add: admitted_def len)
  qed
  ultimately show ?thesis using r(1) m ok sq f by auto
qed

lemma demo_admitted_ok: "mgr_ok demo_admitted"
  using demo_admit by blast

lemma demo_admitted_config: "m_config demo_admitted = demo_config"
  using run_call_same_owner [of demo_sha demo_manager "Admit 1 demo_hit demo_tokens"] demo_admit
    demo_manager_pool(8)
  by (auto simp: no_value_def)

lemma demo_contexts_ok: "contexts_ok demo_sha 4 demo_contexts"
proof -
  have "x = preimage None (take 4 demo_tokens) new_keys"
    if "(k, ts) \<in> demo_contexts" "x \<in> set (chain_inputs demo_sha 4 k ts)" for k ts x
  proof -
    from that(1) obtain n where n: "k = new_keys" "ts = take n demo_tokens" unfolding demo_contexts_def by blast
    have l: "length ts = min n 5" using n by (simp add: demo_tokens_def min.commute)
    then have "length ts div 4 = 0 \<or> length ts div 4 = 1 \<and> 4 \<le> n" by (auto simp: min_def)
    then show ?thesis using that(2) n
      by (auto simp: chain_inputs_def chain_input_def min_def)
  qed
  then have "inj_on demo_sha (\<Union>(k, ts)\<in>demo_contexts. set (chain_inputs demo_sha 4 k ts))"
    by (intro inj_onI) blast
  moreover have "sized_keys k" if "(k, ts) \<in> demo_contexts" for k ts
    using that by (auto simp: demo_contexts_def sized_keys_def new_keys_def)
  moreover have "(k, take n ts) \<in> demo_contexts" if "(k, ts) \<in> demo_contexts" for k ts n
    using that by (auto simp: demo_contexts_def take_take)
  ultimately show ?thesis
    by (auto simp: contexts_ok_def collision_free_def demo_sha_def u64_max_def)
qed

section \<open>Promises\<close>

text \<open>C1: Prefix caching, sharing and copy-on-write never mix up K/V. Start a manager over an
  accepted configuration, apply any sequence of admissions (of hits looked up earlier),
  reservations, resolutions, commits, forks and frees, and let the device run each reservation's
  block copy and forward. Then every live sequence reads back, at each of its positions, the K/V
  of its own keys and its own tokens up to that position, provided SHA-256 does not collide on the
  hashed inputs of the requests seen.\<close>

theorem sequences_read_their_own_tokens:
  assumes "config_ok c" "manager_new owner c = Some m" "contexts_ok sha (pc_block_tokens c) U"
    and "world_reach sha U m w" "m_sequences (w_mgr w) i = Some s" "w_stream w i = Some st"
  shows "kv_read w i (length st) = Some (map (\<lambda>n. Some (s_keys s, take (Suc n) st)) [0..<length st])"
proof -
  have m: "mgr_ok m" "m_sequences m = Map.empty"
    using manager_new_ok [of c owner] assms(1,2) by (auto simp: config_ok_def)
  have "p_cached (m_pool m) = Map.empty" "p_block_tokens (m_pool m) = pc_block_tokens c"
    using assms(2) by (auto simp: manager_new_def split: Option.bind_splits)
  then have "world_ok sha U w" using world_reach_ok [OF assms(4) m] assms(3) by simp
  then show ?thesis using assms(5,6) by (rule kv_read_result)
qed

lemma sequences_read_their_own_tokens_witness:
  "\<exists>w. w_stream w 1 = Some demo_tokens \<and>
    kv_read w 1 (length demo_tokens) =
      Some (map (\<lambda>n. Some (new_keys, take (Suc n) demo_tokens)) [0..<length demo_tokens])"
proof -
  obtain al s sls where a: "admit demo_manager 1 demo_hit demo_tokens = Some (Inr al, demo_admitted)"
    "m_sequences demo_admitted = [1 \<mapsto> s]" "s_keys s = new_keys"
    "slots demo_admitted 1 (al_positions al) = Some (Inr sls)"
    using demo_admit by blast
  let ?init = "\<lparr>w_mgr = demo_manager, w_stream = Map.empty, w_mem = Map.empty\<rparr>"
  let ?w = "\<lparr>w_mgr = demo_admitted, w_stream = (w_stream ?init)(1 \<mapsto> demo_tokens),
    w_mem = forward_pass (h_keys demo_hit) demo_tokens al sls (w_mem ?init)\<rparr>"
  have U: "(new_keys, demo_tokens) \<in> demo_contexts"
    by (auto simp: demo_contexts_def intro: image_eqI [where x = 5] simp: demo_tokens_def)
  have "world_step demo_sha demo_contexts ?init ?w"
  proof (rule admit_step [where prompt = demo_tokens and chunk = demo_tokens])
    show "hit_of demo_sha (w_mgr ?init) demo_tokens demo_hit"
      using lookup_hit_of [OF demo_manager_ok] by (simp add: demo_hit_def)
    show "room_for (w_mgr ?init) (length (h_blocks demo_hit)) (length demo_tokens)"
      by (simp add: room_for_def demo_hit_fields demo_manager_empty demo_tokens_def usize_max_def)
  qed (use U a in \<open>simp_all add: demo_hit_fields\<close>)
  then have "world_reach demo_sha demo_contexts demo_manager ?w" by (rule step [OF start])
  from sequences_read_their_own_tokens [OF demo_config_ok demo_new _ this, of 1 s demo_tokens]
  have "kv_read ?w 1 (length demo_tokens) =
      Some (map (\<lambda>n. Some (new_keys, take (Suc n) demo_tokens)) [0..<length demo_tokens])"
    using demo_contexts_ok a by (simp add: demo_config_def)
  then show ?thesis by (intro exI [of _ ?w]) simp
qed

text \<open>C5: No method of the manager that changes it panics, breaks the bookkeeping, or changes the
  manager when it returns an error, and hits obtained before the call stay well formed. The
  caller's obligations (\<open>call_ok\<close>) are that hits come from the manager's lookups, that token
  counts fit \<open>usize\<close>, and that fewer than \<open>2^32\<close> table entries exist.\<close>

theorem manager_calls_are_safe:
  assumes "mgr_ok m" "call_ok m c"
  shows "\<exists>r m'. run_call sha m c = Some (r, m') \<and> mgr_ok m' \<and> (isl r \<longrightarrow> m' = m) \<and>
    (\<forall>hit. hit_wf m hit \<longrightarrow> hit_wf m' hit)"
  using assms by (rule manager_call_safe)

lemma manager_calls_are_safe_witness:
  "\<exists>r m'. run_call demo_sha demo_manager (Admit 1 demo_hit demo_tokens) = Some (r, m') \<and> mgr_ok m'"
proof -
  have "call_ok demo_manager (Admit 1 demo_hit demo_tokens)"
    using lookup_hit_wf [OF demo_manager_ok]
    by (simp add: demo_hit_fields demo_manager_empty demo_tokens_def usize_max_def u32_max_def)
      (simp add: demo_hit_def)
  from manager_calls_are_safe [OF demo_manager_ok this, of demo_sha] show ?thesis by blast
qed

text \<open>C8: A manager made for a configuration that \<open>PoolConfig::new\<close> accepts does not panic, satisfies
  the bookkeeping invariant, has every block free, and takes them in index order.\<close>

theorem new_manager_is_consistent:
  assumes "block_tokens_new t = Inr bt" "t \<le> u32_max" "pool_config_new bt n = Inr c"
  shows "\<exists>m. manager_new owner c = Some m \<and> mgr_ok m \<and> free_blocks m = total_blocks m \<and>
    fq_iter (p_free (m_pool m)) = Some [0..<num_blocks c]"
proof -
  have c: "config_ok c" by (rule pool_config_new_ok [OF assms])
  then have nb: "num_blocks c \<le> u32_max" "0 < pc_block_tokens c" by (simp_all add: config_ok_def)
  obtain m where m: "manager_new owner c = Some m" "mgr_ok m" using manager_new_ok [OF nb(2,1)] by blast
  obtain q where q: "fq_full (num_blocks c) = Some q" "fq_rep q (num_blocks c) [0..<num_blocks c]"
    using fq_full_rep [OF nb(1)] by blast
  then show ?thesis using m fq_rep_iter [OF q(2)] fq.rep_len [OF q(2)]
    by (auto simp: manager_new_def free_blocks_def total_blocks_def)
qed

lemma new_manager_is_consistent_witness:
  "\<exists>m. manager_new 0 demo_config = Some m \<and> mgr_ok m \<and> free_blocks m = total_blocks m \<and>
    fq_iter (p_free (m_pool m)) = Some [0..<num_blocks demo_config]"
proof (rule new_manager_is_consistent [of 4 4 1])
  have "is_power_of_two 4" unfolding is_power_of_two_iff by (rule exI [of _ 2]) simp
  then show "block_tokens_new 4 = Inr 4" by (simp add: block_tokens_new_def)
qed (simp_all add: pool_config_new_def demo_config_def slab_blocks_def u32_max_def)

text \<open>C9: \<open>lookup_prefix\<close> returns the longest run of cached blocks at the start of the prompt that
  leaves the last prompt token out: each block found is the cached block of the prompt's chain
  key, and the run ends at the limit or at a key that is not cached. The hit is accepted by the
  manager as long as nothing else changes it.\<close>

theorem lookup_finds_longest_run:
  assumes "mgr_ok m" "prompt \<noteq> []"
  shows "let bt = p_block_tokens (m_pool m); hit = lookup_prefix sha m prompt keys;
             chain = block_hashes sha prompt bt keys; n = length (h_blocks hit) in
    h_cached_tokens hit = n * bt \<and> h_cached_tokens hit < length prompt \<and>
    h_hashes hit = take n chain \<and>
    (\<forall>j\<in>{..<n}. p_cached (m_pool m) (chain ! j) = Some (h_blocks hit ! j)) \<and>
    (n = (if p_prefix_caching (m_pool m) then (length prompt - 1) div bt else 0) \<or>
     p_cached (m_pool m) (chain ! n) = None) \<and>
    validate_hit m hit = Some (Inr ())"
proof -
  let ?bt = "p_block_tokens (m_pool m)" and ?hit = "lookup_prefix sha m prompt keys"
  let ?n = "length (h_blocks ?hit)" and ?chain = "block_hashes sha prompt (p_block_tokens (m_pool m)) keys"
  have bt: "0 < ?bt" by (rule mgr_okD(1) [OF assms(1)])
  note l = lookup_hit [OF assms(1), where sha = sha and prompt = prompt and keys = keys]
  have "?n * ?bt \<le> length prompt - 1" using l(4) bt by (simp add: less_eq_div_iff_mult_less_eq)
  then have lt: "h_cached_tokens ?hit < length prompt" using assms(2) l(5) by (cases prompt) auto
  have "?n \<le> length prompt div ?bt" using l(4) by (meson diff_le_self div_le_mono le_trans)
  then have hs: "h_hashes ?hit = take ?n ?chain" using l(5,6) block_hashes_take_blocks [OF bt] by simp
  have "\<forall>j\<in>{..<?n}. p_cached (m_pool m) (?chain ! j) = Some (h_blocks ?hit ! j)"
    using l(8) by (simp add: hs)
  moreover have "?n = (if p_prefix_caching (m_pool m) then (length prompt - 1) div ?bt else 0) \<or>
     p_cached (m_pool m) (?chain ! ?n) = None"
    using l(4,9,10) by (metis le_neq_implies_less list.size(3))
  ultimately show ?thesis
    using l(5) lt hs validate_hit_result [OF assms(1) lookup_hit_wf [OF assms(1)]] lookup_hit_fresh [OF assms(1)]
    by (simp add: Let_def)
qed

lemma lookup_finds_longest_run_witness:
  "validate_hit demo_admitted (lookup_prefix demo_sha demo_admitted demo_tokens new_keys) = Some (Inr ())"
  using lookup_finds_longest_run [OF demo_admitted_ok, of demo_tokens demo_sha new_keys]
  by (simp add: demo_tokens_def Let_def)

text \<open>C10: The slots an allocation reserves are its own: \<open>slots\<close> gives one per token, no two are the
  same pool index, and each lies in a block that exactly one table entry references and that
  has no published key. So a forward never writes a shared or a cached block.\<close>

theorem allocated_slots_are_private:
  assumes "mgr_ok m" "call_ok m (Allocate i ts)" "allocate m i ts = Some (Inr al, m')"
  shows "\<exists>sls. slots m' i (al_positions al) = Some (Inr sls) \<and> length sls = length ts \<and>
    distinct (map (slot_flat (p_block_tokens (m_pool m))) sls) \<and>
    (\<forall>sl\<in>set sls. sl_offset sl < p_block_tokens (m_pool m) \<and> ref_count m' (sl_block sl) = Some 1 \<and>
       cached_hash m' (sl_block sl) = None)"
proof -
  note m = assms(1)
  obtain s where at: "m_sequences m i = Some s" and un: "s_unresolved s = 0"
    using assms(3) by (auto simp: allocate_def split: option.splits if_splits)
  have fits: "s_scheduled s + length ts \<le> usize_max" using assms(2) at by simp
  obtain c where c: "cost (m_pool m) s (length ts) = Some c" using cost_Some [OF m at fits] .
  have c2: "c \<le> fq_len (p_free (m_pool m))"
    using assms(3) at c un by (auto simp: allocate_def split: if_splits)
  from append_mgr [OF m at un fits c c2] obtain al' s' p' where r:
    "append_tokens (m_pool m) s ts = Some (al', s', p')"
    "s' = s\<lparr>s_table := s_table s', s_scheduled := s_scheduled s + length ts,
      s_unhashed := (if p_prefix_caching (m_pool m) then s_unhashed s @ ts else s_unhashed s)\<rparr>"
    "reserve_spec (m_pool m) s (length ts) (held_by ((m_sequences m)(i := None))) al' (s_table s') p'"
    "mgr_ok (m\<lparr>m_pool := p', m_sequences := (m_sequences m)(i \<mapsto> s')\<rparr>)"
    by blast
  have eq: "al' = al" "m' = m\<lparr>m_pool := p', m_sequences := (m_sequences m)(i \<mapsto> s')\<rparr>"
    using assms(3) at un c c2 r(1) by (auto simp: allocate_def)
  have sch: "s_scheduled s' = s_scheduled s + length ts" by (subst r(2)) simp
  have "p_block_tokens p' = p_block_tokens (m_pool m)"
    using r(3) unfolding reserve_spec_def Let_def pool_frame_def by blast
  then show ?thesis
    using reserve_slots [of m' i s' "m_pool m" s "length ts" _ al] r(3,4) eq sch mgr_okD(1) [OF m]
      tails_unpublished [OF m at] by simp
qed

lemma allocated_slots_are_private_witness:
  "\<exists>al m' sl. allocate demo_admitted 1 [12] = Some (Inr al, m') \<and>
    slots m' 1 (al_positions al) = Some (Inr [sl]) \<and> ref_count m' (sl_block sl) = Some 1"
proof -
  obtain s where s: "m_sequences demo_admitted = [1 \<mapsto> s]" "s_scheduled s = 5" "s_unresolved s = 0"
    "\<forall>b\<in>set (s_table s). count (held_by (m_sequences demo_admitted)) b = 1"
    using demo_admit by blast
  note m = demo_admitted_ok
  have at: "m_sequences demo_admitted 1 = Some s" using s by simp
  have bt: "p_block_tokens (m_pool demo_admitted) = 4"
    using m demo_admitted_config by (simp add: mgr_ok_def demo_config_def)
  have fits: "s_scheduled s + length [12] \<le> usize_max" using s by (simp add: usize_max_def)
  have "length (s_table s) = 2" using mgr_okD(6) [OF m at] bt s by (simp add: div_ceil_def)
  moreover note s(4)
  moreover have "held_by (m_sequences demo_admitted) = mset (s_table s) + held_by ((m_sequences demo_admitted)(1 := None))"
    by (rule held_by_at [OF mgr_okD(2) [OF m] at])
  ultimately have c: "cost (m_pool demo_admitted) s (length [12]) = Some 0"
    using cost_eq [OF mgr_okD(7,6) [OF m at] fits] bt s by (simp add: div_ceil_def)
  obtain al m' where a: "allocate demo_admitted 1 [12] = Some (Inr al, m')"
    using append_mgr [OF m at s(3) fits c] at s(3) c by (auto simp: allocate_def)
  have "call_ok demo_admitted (Allocate 1 [12])" using at fits by simp
  from allocated_slots_are_private [OF m this a] obtain sls where sls:
    "slots m' 1 (al_positions al) = Some (Inr sls)" "length sls = 1" "\<forall>sl\<in>set sls. ref_count m' (sl_block sl) = Some 1"
    by auto
  then obtain sl where "sls = [sl]" by (auto simp: length_Suc_conv)
  then show ?thesis using a sls by auto
qed

text \<open>C11: A hit that no longer matches the cache, or that another manager (a clone included) made, is
  refused with \<open>StalePrefixHit\<close> by \<open>admit_cost\<close> and \<open>admit\<close>, and nothing changes.\<close>

theorem stale_hits_are_refused:
  assumes "mgr_ok m" "hit_wf m hit" "m_sequences m i = None"
    and "h_owner hit \<noteq> m_owner m \<or>
      (\<exists>j<length (h_blocks hit). p_block_hashes (m_pool m) ! (h_blocks hit ! j) \<noteq> Some (h_hashes hit ! j))"
  shows "admit_cost m hit n = Some (Inl StalePrefixHit) \<and> admit m i hit chunk = Some (Inl StalePrefixHit, m)"
proof -
  have "\<not> hit_fresh m hit" using assms(4) by (auto simp: hit_fresh_def)
  then have "admit_cost m hit n = Some (Inl StalePrefixHit)" for n
    using validate_hit_result [OF assms(1,2)] by (simp add: admit_cost_def)
  then show ?thesis using assms(3) by (simp add: admit_def)
qed

lemma stale_hits_are_refused_witness:
  "admit demo_manager 1 (demo_hit\<lparr>h_owner := 1\<rparr>) [7] = Some (Inl StalePrefixHit, demo_manager)"
  using stale_hits_are_refused [OF demo_manager_ok, of "demo_hit\<lparr>h_owner := 1\<rparr>" 1 1 "[7]"]
  by (simp add: hit_wf_def demo_manager_pool demo_manager_empty)




text \<open>C13: Along the chains of the contexts seen, a block key determines everything the block's K/V
  depends on: two equal keys are keys of the same block index, of requests with the same salt and
  extra keys, whose tokens agree up to the end of that block.\<close>

theorem equal_keys_mean_equal_prefixes:
  assumes "contexts_ok sha bt U" "0 < bt" "(k, ts) \<in> U" "(k', ts') \<in> U"
    and "i < length (block_hashes sha ts bt k)" "j < length (block_hashes sha ts' bt k')"
    and "block_hashes sha ts bt k ! i = block_hashes sha ts' bt k' ! j"
  shows "i = j \<and> take (Suc i * bt) ts = take (Suc i * bt) ts' \<and> k = k'"
proof (rule chain_inj)
  show "collision_free sha bt U" "\<forall>x. length (sha x) = 32" "bt \<le> u64_max"
    using assms(1) by (simp_all add: contexts_ok_def)
qed (use assms in \<open>simp_all add: length_block_hashes\<close>)

lemma equal_keys_mean_equal_prefixes_witness:
  "take (Suc 0 * 4) demo_tokens = take (Suc 0 * 4) (take 4 demo_tokens)"
proof -
  have U: "(new_keys, take n demo_tokens) \<in> demo_contexts" for n by (auto simp: demo_contexts_def)
  have l: "length demo_tokens = 5" by (simp add: demo_tokens_def)
  then have eq: "block_hashes demo_sha demo_tokens 4 new_keys ! 0 = block_hashes demo_sha (take 4 demo_tokens) 4 new_keys ! 0"
    by (simp add: block_hashes_nth_sha demo_sha_def)
  show ?thesis
    using equal_keys_mean_equal_prefixes [OF demo_contexts_ok _ U [of 5] U [of 4], of 0 0] eq l
    by (simp add: length_block_hashes)
qed

text \<open>C14: The byte string \<open>hash_block\<close> feeds to SHA-256 determines the parent key, the tokens, the
  extra keys and, for a first block, the salt: no two different blocks are hashed from the same
  bytes, whatever the lengths of salt and extra keys.\<close>

theorem hashed_bytes_determine_block:
  assumes "\<forall>p. parent = Some p \<longrightarrow> length p = 32" "\<forall>p. parent' = Some p \<longrightarrow> length p = 32"
    and "sized_keys keys" "sized_keys keys'" "length tokens \<le> u64_max" "length tokens' \<le> u64_max"
    and "concat (block_updates parent tokens keys) = concat (block_updates parent' tokens' keys')"
  shows "parent = parent' \<and> tokens = tokens' \<and> hk_extras keys = hk_extras keys' \<and> (parent = None \<longrightarrow> keys = keys')"
  using assms preimage_inj [of parent parent' keys keys' tokens tokens'] unfolding preimage_def by blast

lemma hashed_bytes_determine_block_witness:
  "concat (block_updates None [7] new_keys) \<noteq> concat (block_updates None [8] new_keys)"
  using hashed_bytes_determine_block [of None None new_keys new_keys "[7]" "[8]"]
  by (auto simp: sized_keys_def new_keys_def u64_max_def)

text \<open>C15: A pool sized from a byte budget has the requested block width, at least one slab and block
  IDs below the reserved one, fits the budget, and could not have one slab more; no intermediate
  product overflows.\<close>

theorem budget_pool_is_exact:
  assumes "from_budget budget bytes_per_token bt = Inr c"
  shows "pc_block_tokens c = bt \<and> 0 < pc_slabs c \<and> num_blocks c < NIL \<and>
    token_capacity c * bytes_per_token \<le> budget \<and>
    budget < (pc_slabs c + 1) * slab_blocks * bt * bytes_per_token"
  using from_budget_exact [OF assms] by (simp add: NIL_def)

lemma budget_pool_is_exact_witness:
  "\<exists>c. from_budget 1000000 100 16 = Inr c \<and> token_capacity c * 100 \<le> 1000000"
proof -
  have "from_budget 1000000 100 16 = Inr \<lparr>pc_block_tokens = 16, pc_slabs = 19, pc_prefix_caching = True\<rparr>"
    by (simp add: from_budget_def slab_footprint_def checked_mul_u64_def pool_config_new_def slab_blocks_def
        u32_max_def u64_max_def Let_def)
  from this budget_pool_is_exact [OF this] show ?thesis by blast
qed

text \<open>A prefill chunk never goes back, never passes the prompt's end and never exceeds its budget;
  it ends at the prompt's end, at a block boundary, or where it started, and it makes progress
  whenever the budget covers a block.\<close>

theorem chunk_end_is_bounded:
  assumes "mgr_ok m" "start \<le> len" "len \<le> usize_max"
  shows "let stop = chunk_end m start len budget; bt = p_block_tokens (m_pool m) in
    start \<le> stop \<and> stop \<le> len \<and> stop \<le> start + budget \<and>
    (stop = len \<or> stop = start \<or> bt dvd stop) \<and> (bt \<le> budget \<longrightarrow> stop = len \<or> start < stop) \<and>
    (len \<le> start + budget \<longrightarrow> stop = len)"
proof -
  let ?bt = "p_block_tokens (m_pool m)" and ?e = "saturating_add_usize start budget"
  have bt: "0 < ?bt" by (rule mgr_okD(1) [OF assms(1)])
  define A where "A = ?e div ?bt * ?bt"
  have al: "A \<le> ?e" "?bt dvd A" by (simp_all add: A_def)
  have e: "?e \<le> start + budget" "len \<le> start + budget \<Longrightarrow> len \<le> ?e"
    using assms(3) by (auto simp: saturating_add_usize_def)
  have prog: "start < A" if "?bt \<le> budget" "\<not> len \<le> ?e"
  proof -
    have "?e = start + budget" using that(2) assms(3) by (auto simp: saturating_add_usize_def min_def split: if_splits)
    then have "start + ?bt \<le> ?e" using that(1) by simp
    moreover have "?e < A + ?bt" using dividend_less_div_times [OF bt, of ?e] by (simp add: A_def add.commute)
    ultimately show ?thesis by linarith
  qed
  show ?thesis
  proof (cases "len \<le> ?e")
    case True
    then show ?thesis using assms(2) e(1) by (simp add: chunk_end_def Let_def)
  next
    case False
    then have "chunk_end m start len budget = (if A > start then A else start)"
      by (simp add: chunk_end_def A_def Let_def)
    then show ?thesis using False al e prog assms(2) by (auto simp: Let_def)
  qed
qed

lemma chunk_end_is_bounded_witness:
  "1 \<le> chunk_end demo_manager 1 20 10 \<and> chunk_end demo_manager 1 20 10 \<le> 11"
  using chunk_end_is_bounded [OF demo_manager_ok, of 1 20 10] by (simp add: usize_max_def Let_def)

text \<open>C16: The intrusive free queue is a list of distinct block IDs: on a queue that represents \<open>xs\<close>,
  none of its operations reads or writes out of range, and pushing, popping and removing from the
  middle do to the queue what they do to \<open>xs\<close>.\<close>

theorem free_queue_implements_list:
  assumes "fq_rep q n xs" "b < n"
  shows "fq_iter q = Some xs \<and> fq_len q = length xs \<and> fq_contains q b = Some (b \<in> set xs) \<and>
    (b \<notin> set xs \<longrightarrow> (\<exists>q'. fq_push_back q b = Some q' \<and> fq_rep q' n (xs @ [b]))) \<and>
    (b \<notin> set xs \<longrightarrow> (\<exists>q'. fq_push_front q b = Some q' \<and> fq_rep q' n (b # xs))) \<and>
    (\<exists>q'. fq_remove q b = Some q' \<and> fq_rep q' n (removeAll b xs)) \<and>
    (\<exists>q'. fq_pop_front q = Some (case xs of [] \<Rightarrow> None | x # _ \<Rightarrow> Some x, q') \<and> fq_rep q' n (tl xs))"
proof -
  have "\<exists>q'. fq_pop_front q = Some (case xs of [] \<Rightarrow> None | x # _ \<Rightarrow> Some x, q') \<and> fq_rep q' n (tl xs)"
    using fq.pop_front_Cons [of q n] fq.pop_front_Nil [of q n] assms(1) by (cases xs) auto
  moreover have "fq_contains q b = Some (b \<in> set xs)"
    using assms by (simp add: fq_contains_def fq_rep_def)
  ultimately show ?thesis
    using fq_rep_iter [OF assms(1)] fq.rep_len [OF assms(1)] fq.push_back_law [OF assms]
      fq.push_front_law [OF assms] fq.remove_law [OF assms] by blast
qed

lemma free_queue_implements_list_witness:
  "\<exists>q q'. fq_full 3 = Some q \<and> fq_remove q 1 = Some q' \<and> fq_iter q' = Some [0, 2]"
proof -
  obtain q where q: "fq_full 3 = Some q" "fq_rep q 3 [0..<3]"
    using fq_full_rep [of 3] by (auto simp: u32_max_def)
  obtain q' where "fq_remove q 1 = Some q'" "fq_rep q' 3 (removeAll 1 [0..<3])"
    using free_queue_implements_list [OF q(2), of 1] by auto
  then show ?thesis using q(1) fq_rep_iter [of q' 3] by (auto simp: upt_rec)
qed

end
