(* ===== verification/Admission.thy ===== *)
theory Admission
  imports Prelude
begin

text \<open>
  The small bookkeeping parts of \<open>crates/core/engine/src\<close>: request limits (\<open>lib.rs\<close>), the logical
  page plan (\<open>kv.rs\<close>), the admission pool over it (\<open>admission.rs\<close>) and the phases of a model
  (\<open>lifecycle.rs\<close>). The pool's invariant ties the pages in use to the reservations held; from it
  follow that reserving never loops, never overflows and hands out unused identifiers.
\<close>

section \<open>Request limits\<close>

datatype limit_error = LimitZero

record request_limits =
  rl_max_context_tokens :: nat
  rl_max_output_tokens :: nat

definition output_token_limit_new :: "nat \<Rightarrow> limit_error + nat" where
  "output_token_limit_new tokens = (if tokens = 0 then Inl LimitZero else Inr tokens)"

definition request_limits_new :: "nat \<Rightarrow> nat \<Rightarrow> limit_error + request_limits" where
  "request_limits_new max_context max_output =
     (if max_context = 0 then Inl LimitZero
      else case output_token_limit_new max_output of
             Inl e \<Rightarrow> Inl e
           | Inr out \<Rightarrow> Inr \<lparr>rl_max_context_tokens = max_context, rl_max_output_tokens = out\<rparr>)"

section \<open>Page plan\<close>

datatype kv_plan_error = ZeroPageWidth | ZeroPageCount

record kv_page_plan =
  pp_page_tokens :: nat
  pp_page_count :: nat

definition kv_page_tokens_new :: "nat \<Rightarrow> kv_plan_error + nat" where
  "kv_page_tokens_new tokens = (if tokens = 0 then Inl ZeroPageWidth else Inr tokens)"

definition kv_page_plan_new :: "nat \<Rightarrow> nat \<Rightarrow> kv_plan_error + kv_page_plan" where
  "kv_page_plan_new page_tokens page_count =
     (if page_count = 0 then Inl ZeroPageCount
      else Inr \<lparr>pp_page_tokens = page_tokens, pp_page_count = page_count\<rparr>)"

definition pages_for :: "kv_page_plan \<Rightarrow> nat \<Rightarrow> nat" where
  "pages_for p tokens = div_ceil tokens (pp_page_tokens p)"

definition can_admit :: "kv_page_plan \<Rightarrow> nat \<Rightarrow> bool" where
  "can_admit p tokens \<longleftrightarrow> pages_for p tokens \<le> pp_page_count p"

definition plan_token_capacity :: "kv_page_plan \<Rightarrow> nat" where
  "plan_token_capacity p = saturating_mul_u32 (pp_page_tokens p) (pp_page_count p)"

section \<open>Admission pool\<close>

datatype kv_admission_error =
    ZeroTokenRequest
  | InsufficientCapacity nat nat
  | UnknownReservation nat
  | AccountingOverflow
  | AccountingInvariantViolation

record kv_reservation =
  kr_id :: nat
  kr_page_count :: nat

record admission_pool =
  ap_plan :: kv_page_plan
  ap_used_pages :: nat
  ap_next_reservation :: nat
  ap_reservations :: "nat \<rightharpoonup> nat"

definition admission_pool_new :: "kv_page_plan \<Rightarrow> admission_pool" where
  "admission_pool_new p =
     \<lparr>ap_plan = p, ap_used_pages = 0, ap_next_reservation = 1, ap_reservations = Map.empty\<rparr>"

definition available_pages :: "admission_pool \<Rightarrow> nat" where
  "available_pages a = pp_page_count (ap_plan a) - ap_used_pages a"

text \<open>The counter after one step: past \<open>u64::MAX\<close> it starts again at 1.\<close>

definition next_id :: "nat \<Rightarrow> nat" where
  "next_id v = (case checked_add_u64 v 1 of Some w \<Rightarrow> w | None \<Rightarrow> 1)"

text \<open>The \<open>loop\<close> of \<open>allocate_id\<close>; not returning is \<open>None\<close>.\<close>

partial_function (option) allocate_id :: "(nat \<rightharpoonup> nat) \<Rightarrow> nat \<Rightarrow> (nat \<times> nat) option" where
  "allocate_id reservations v =
     (if v = 0 then allocate_id reservations (next_id v)
      else if reservations v = None then Some (v, next_id v)
      else allocate_id reservations (next_id v))"

text \<open>\<open>allocate_id\<close> advances the counter before the overflow check of \<open>reserve_tokens\<close> runs.\<close>

definition reserve_tokens ::
  "admission_pool \<Rightarrow> nat \<Rightarrow> ((kv_admission_error + kv_reservation) \<times> admission_pool) option" where
  "reserve_tokens a tokens =
     (if tokens = 0 then Some (Inl ZeroTokenRequest, a)
      else let requested = pages_for (ap_plan a) tokens; available = available_pages a in
        if requested > available then Some (Inl (InsufficientCapacity requested available), a)
        else do {
          (i, next) \<leftarrow> allocate_id (ap_reservations a) (ap_next_reservation a);
          let a1 = a\<lparr>ap_next_reservation := next\<rparr>;
          case checked_add_u32 (ap_used_pages a) requested of
            None \<Rightarrow> Some (Inl AccountingOverflow, a1)
          | Some used \<Rightarrow>
              Some (Inr \<lparr>kr_id = i, kr_page_count = requested\<rparr>,
                a1\<lparr>ap_used_pages := used, ap_reservations := (ap_reservations a1)(i \<mapsto> requested)\<rparr>)
        })"

definition release_reservation ::
  "admission_pool \<Rightarrow> nat \<Rightarrow> (kv_admission_error + unit) \<times> admission_pool" where
  "release_reservation a i =
     (case ap_reservations a i of
        None \<Rightarrow> (Inl (UnknownReservation i), a)
      | Some page_count \<Rightarrow>
          (case checked_sub (ap_used_pages a) page_count of
             None \<Rightarrow> (Inl AccountingInvariantViolation, a)
           | Some used \<Rightarrow>
               (Inr (), a\<lparr>ap_reservations := (ap_reservations a)(i := None), ap_used_pages := used\<rparr>)))"

section \<open>Model lifecycle\<close>

datatype model_phase = Unloaded | Loading | Warming | Ready | Failed

datatype lifecycle_error = InvalidTransition model_phase model_phase

definition accepts_requests :: "model_phase \<Rightarrow> bool" where
  "accepts_requests p \<longleftrightarrow> p = Ready"

text \<open>A \<open>ModelLifecycle\<close> is its phase. Each method returns its result and the phase after it.\<close>

definition transition ::
  "model_phase \<Rightarrow> model_phase \<Rightarrow> model_phase list \<Rightarrow> (lifecycle_error + unit) \<times> model_phase" where
  "transition phase next allowed =
     (if phase \<notin> set allowed then (Inl (InvalidTransition phase next), phase) else (Inr (), next))"

definition lifecycle_new :: model_phase where
  "lifecycle_new = Unloaded"

definition start_loading :: "model_phase \<Rightarrow> (lifecycle_error + unit) \<times> model_phase" where
  "start_loading p = transition p Loading [Unloaded, Failed]"

definition start_warming :: "model_phase \<Rightarrow> (lifecycle_error + unit) \<times> model_phase" where
  "start_warming p = transition p Warming [Loading]"

definition mark_ready :: "model_phase \<Rightarrow> (lifecycle_error + unit) \<times> model_phase" where
  "mark_ready p = transition p Ready [Warming]"

definition lifecycle_fail :: "model_phase \<Rightarrow> (lifecycle_error + unit) \<times> model_phase" where
  "lifecycle_fail p = transition p Failed [Loading, Warming]"

definition unload :: "model_phase \<Rightarrow> model_phase" where
  "unload p = Unloaded"

text \<open>One successful call, and the phases visited by a run of successful calls.\<close>

inductive lifecycle_step :: "model_phase \<Rightarrow> model_phase \<Rightarrow> bool" where
  load: "start_loading p = (Inr (), q) \<Longrightarrow> lifecycle_step p q"
| warm: "start_warming p = (Inr (), q) \<Longrightarrow> lifecycle_step p q"
| ready: "mark_ready p = (Inr (), q) \<Longrightarrow> lifecycle_step p q"
| fails: "lifecycle_fail p = (Inr (), q) \<Longrightarrow> lifecycle_step p q"
| unloads: "lifecycle_step p (unload p)"

inductive_cases lifecycle_stepE: "lifecycle_step p q"

inductive lifecycle_run :: "model_phase list \<Rightarrow> bool" where
  created: "lifecycle_run [lifecycle_new]"
| step: "lifecycle_run (ps @ [p]) \<Longrightarrow> lifecycle_step p q \<Longrightarrow> lifecycle_run (ps @ [p, q])"

section \<open>The pool's invariant\<close>

definition plan_ok :: "kv_page_plan \<Rightarrow> bool" where
  "plan_ok p \<longleftrightarrow> 0 < pp_page_tokens p \<and> 0 < pp_page_count p \<and> pp_page_count p \<le> u32_max"

definition pages_held :: "(nat \<rightharpoonup> nat) \<Rightarrow> nat" where
  "pages_held r = (\<Sum>i\<in>dom r. the (r i))"

definition admission_ok :: "admission_pool \<Rightarrow> bool" where
  "admission_ok a \<longleftrightarrow>
     plan_ok (ap_plan a) \<and> finite (dom (ap_reservations a)) \<and>
     ap_used_pages a = pages_held (ap_reservations a) \<and> ap_used_pages a \<le> pp_page_count (ap_plan a) \<and>
     ap_next_reservation a \<in> {1..u64_max} \<and> (\<forall>i n. ap_reservations a i = Some n \<longrightarrow> 0 < n)"

lemma next_id_range: "v \<in> {1..u64_max} \<Longrightarrow> next_id v = (if v = u64_max then 1 else v + 1)"
  by (auto simp: next_id_def checked_add_u64_def)

lemma allocate_id_taken: "v \<noteq> 0 \<Longrightarrow> r v \<noteq> None \<Longrightarrow> allocate_id r v = allocate_id r (next_id v)"
  by (subst allocate_id.simps) auto

lemma allocate_id_free: "v \<noteq> 0 \<Longrightarrow> r v = None \<Longrightarrow> allocate_id r v = Some (v, next_id v)"
  by (subst allocate_id.simps) simp

text \<open>Distance from \<open>v\<close> to \<open>f\<close> around the circle of identifiers \<open>1..u64_max\<close>.\<close>

definition id_gap :: "nat \<Rightarrow> nat \<Rightarrow> nat" where
  "id_gap f v = (if v \<le> f then f - v else u64_max - v + f)"

lemma id_gap_next:
  "f \<in> {1..u64_max} \<Longrightarrow> v \<in> {1..u64_max} \<Longrightarrow> v \<noteq> f \<Longrightarrow> id_gap f (next_id v) < id_gap f v"
  by (auto simp: id_gap_def next_id_range)

lemma allocate_id_returns:
  assumes "r f = None" "f \<in> {1..u64_max}" "v \<in> {1..u64_max}"
  shows "\<exists>i. allocate_id r v = Some (i, next_id i) \<and> r i = None \<and> i \<in> {1..u64_max}"
  using assms(3)
proof (induction "id_gap f v" arbitrary: v rule: less_induct)
  case less
  show ?case
  proof (cases "r v = None")
    case True
    then show ?thesis using less.prems allocate_id_free [of v r] by auto
  next
    case False
    then have "v \<noteq> f" using assms(1) by auto
    then have "id_gap f (next_id v) < id_gap f v" using id_gap_next assms(2) less.prems by blast
    moreover have "next_id v \<in> {1..u64_max}" using less.prems by (auto simp: next_id_range)
    ultimately have "\<exists>i. allocate_id r (next_id v) = Some (i, next_id i) \<and> r i = None \<and> i \<in> {1..u64_max}"
      by (rule less.hyps)
    then show ?thesis using allocate_id_taken [of v r] False less.prems by auto
  qed
qed

lemma pages_held_upd:
  assumes "finite (dom r)" "r i = None"
  shows "pages_held (r(i \<mapsto> n)) = pages_held r + n"
proof -
  have "i \<notin> dom r" using assms(2) by blast
  then have "pages_held (r(i \<mapsto> n)) = n + (\<Sum>j\<in>dom r. the ((r(i \<mapsto> n)) j))"
    using assms(1) by (simp add: pages_held_def)
  also have "(\<Sum>j\<in>dom r. the ((r(i \<mapsto> n)) j)) = pages_held r"
    unfolding pages_held_def using assms(2) by (intro sum.cong) auto
  finally show ?thesis by (simp only: add.commute)
qed

lemma pages_held_del:
  assumes "finite (dom r)" "r i = Some n"
  shows "pages_held r = pages_held (r(i := None)) + n"
  using pages_held_upd [of "r(i := None)" i n] assms by (simp add: map_upd_triv)

lemma reservations_bounded:
  assumes "admission_ok a"
  shows "card (dom (ap_reservations a)) \<le> ap_used_pages a"
proof -
  have "(\<Sum>i\<in>dom (ap_reservations a). 1) \<le> (\<Sum>i\<in>dom (ap_reservations a). the (ap_reservations a i))"
    using assms by (intro sum_mono) (force simp: admission_ok_def Suc_le_eq)
  then show ?thesis using assms by (simp add: admission_ok_def pages_held_def)
qed

lemma free_id_exists:
  assumes "admission_ok a"
  shows "\<exists>f\<in>{1..u64_max}. ap_reservations a f = None"
proof (rule ccontr)
  assume "\<not> ?thesis"
  then have "{1..u64_max} \<subseteq> dom (ap_reservations a)" by (meson domIff subsetI)
  then have "u64_max \<le> card (dom (ap_reservations a))"
    using assms card_mono [of "dom (ap_reservations a)" "{1..u64_max}"] by (simp add: admission_ok_def)
  then show False using reservations_bounded [OF assms] assms
    by (simp add: admission_ok_def plan_ok_def u32_max_def u64_max_def)
qed

lemma pages_for_pos: "plan_ok p \<Longrightarrow> 0 < t \<Longrightarrow> 0 < pages_for p t"
  using less_div_ceil_iff [of "pp_page_tokens p" 0 t] by (simp add: plan_ok_def pages_for_def)

lemma reserve_tokens_ok:
  assumes a: "admission_ok a" and t: "0 < tokens" and fits: "pages_for (ap_plan a) tokens \<le> available_pages a"
  shows "\<exists>i a'. reserve_tokens a tokens = Some (Inr \<lparr>kr_id = i, kr_page_count = pages_for (ap_plan a) tokens\<rparr>, a') \<and>
    ap_reservations a i = None \<and> ap_reservations a' = (ap_reservations a)(i \<mapsto> pages_for (ap_plan a) tokens) \<and>
    ap_used_pages a' = ap_used_pages a + pages_for (ap_plan a) tokens \<and> ap_plan a' = ap_plan a \<and> admission_ok a'"
proof -
  let ?n = "pages_for (ap_plan a) tokens"
  obtain f where f: "f \<in> {1..u64_max}" "ap_reservations a f = None" using free_id_exists [OF a] by blast
  have nx: "ap_next_reservation a \<in> {1..u64_max}" using a by (simp add: admission_ok_def)
  obtain i where i: "allocate_id (ap_reservations a) (ap_next_reservation a) = Some (i, next_id i)"
    "ap_reservations a i = None" "i \<in> {1..u64_max}"
    using allocate_id_returns [where r = "ap_reservations a", OF f(2,1) nx] by blast
  have le: "ap_used_pages a + ?n \<le> pp_page_count (ap_plan a)"
    using fits a unfolding available_pages_def admission_ok_def by linarith
  then have "ap_used_pages a + ?n \<le> u32_max" using a by (simp add: admission_ok_def plan_ok_def)
  then have eq: "reserve_tokens a tokens = Some (Inr \<lparr>kr_id = i, kr_page_count = ?n\<rparr>,
      a\<lparr>ap_next_reservation := next_id i, ap_used_pages := ap_used_pages a + ?n,
        ap_reservations := (ap_reservations a)(i \<mapsto> ?n)\<rparr>)"
    using t fits i(1) by (simp add: reserve_tokens_def Let_def checked_add_u32_def)
  moreover have "0 < ?n" using pages_for_pos a t by (simp add: admission_ok_def)
  then have "admission_ok (a\<lparr>ap_next_reservation := next_id i, ap_used_pages := ap_used_pages a + ?n,
      ap_reservations := (ap_reservations a)(i \<mapsto> ?n)\<rparr>)"
    using a le i pages_held_upd [of "ap_reservations a" i ?n]
    by (auto simp: admission_ok_def next_id_range split: if_splits)
  ultimately show ?thesis using i(2)
    by (intro exI [of _ i] exI conjI) auto
qed

lemma release_reservation_ok:
  assumes a: "admission_ok a" and i: "ap_reservations a i = Some n"
  shows "\<exists>a'. release_reservation a i = (Inr (), a') \<and> ap_reservations a' = (ap_reservations a)(i := None) \<and>
    ap_used_pages a' + n = ap_used_pages a \<and> ap_plan a' = ap_plan a \<and> admission_ok a'"
proof -
  have u: "ap_used_pages a = pages_held ((ap_reservations a)(i := None)) + n"
    using a i pages_held_del by (simp add: admission_ok_def)
  then have eq: "release_reservation a i = (Inr (), a\<lparr>ap_reservations := (ap_reservations a)(i := None),
      ap_used_pages := ap_used_pages a - n\<rparr>)"
    using i by (simp add: release_reservation_def checked_sub_def)
  have "admission_ok (a\<lparr>ap_reservations := (ap_reservations a)(i := None), ap_used_pages := ap_used_pages a - n\<rparr>)"
    using a u by (auto simp: admission_ok_def split: if_splits)
  then show ?thesis using eq u by auto
qed

section \<open>Runs of the pool\<close>

text \<open>A pool after any calls of \<open>reserve_tokens\<close> and \<open>release\<close>, for any tokens and identifiers, refused
  calls included.\<close>

inductive admission_run :: "kv_page_plan \<Rightarrow> admission_pool \<Rightarrow> bool" for p where
  opened: "admission_run p (admission_pool_new p)"
| reserved: "admission_run p a \<Longrightarrow> reserve_tokens a tokens = Some (r, a') \<Longrightarrow> admission_run p a'"
| released: "admission_run p a \<Longrightarrow> release_reservation a i = (r, a') \<Longrightarrow> admission_run p a'"

lemma admission_pool_new_ok: "plan_ok p \<Longrightarrow> admission_ok (admission_pool_new p)"
  by (simp add: admission_ok_def admission_pool_new_def pages_held_def u64_max_def)

text \<open>The three outcomes of \<open>reserve_tokens\<close>.\<close>

lemma reserve_tokens_cases:
  assumes "admission_ok a"
  obtains "tokens = 0" "reserve_tokens a tokens = Some (Inl ZeroTokenRequest, a)"
  | "0 < tokens" "available_pages a < pages_for (ap_plan a) tokens"
    "reserve_tokens a tokens = Some (Inl (InsufficientCapacity (pages_for (ap_plan a) tokens) (available_pages a)), a)"
  | i a' where "0 < tokens" "pages_for (ap_plan a) tokens \<le> available_pages a"
    "reserve_tokens a tokens = Some (Inr \<lparr>kr_id = i, kr_page_count = pages_for (ap_plan a) tokens\<rparr>, a')"
    "ap_reservations a i = None" "ap_reservations a' = (ap_reservations a)(i \<mapsto> pages_for (ap_plan a) tokens)"
    "ap_used_pages a' = ap_used_pages a + pages_for (ap_plan a) tokens" "ap_plan a' = ap_plan a" "admission_ok a'"
proof -
  consider "tokens = 0" | "0 < tokens" "available_pages a < pages_for (ap_plan a) tokens"
    | "0 < tokens" "pages_for (ap_plan a) tokens \<le> available_pages a" by linarith
  then show thesis
  proof cases
    case 3
    then show thesis using reserve_tokens_ok [OF assms 3] that(3) by blast
  qed (use that in \<open>simp_all add: reserve_tokens_def Let_def\<close>)
qed

lemma admission_run_ok: "admission_run p a \<Longrightarrow> plan_ok p \<Longrightarrow> admission_ok a \<and> ap_plan a = p"
proof (induction rule: admission_run.induct)
  case opened
  then show ?case using admission_pool_new_ok by (simp add: admission_pool_new_def)
next
  case (reserved a tokens r a')
  then have ok: "admission_ok a" and "ap_plan a = p" by simp_all
  then show ?case using reserved.hyps(2) by (cases rule: reserve_tokens_cases [OF ok, of tokens]) auto
next
  case (released a i r a')
  then show ?case using release_reservation_ok [of a i]
    by (cases "ap_reservations a i") (auto simp: release_reservation_def)
qed

lemma opened_plan_ok:
  "kv_page_tokens_new page_tokens = Inr w \<Longrightarrow> kv_page_plan_new w page_count = Inr p \<Longrightarrow> page_count \<le> u32_max \<Longrightarrow>
   plan_ok p \<and> pp_page_tokens p = page_tokens \<and> pp_page_count p = page_count"
  by (auto simp: kv_page_tokens_new_def kv_page_plan_new_def plan_ok_def split: if_splits)

section \<open>Properties\<close>

text \<open>C17: Over any sequence of reservations and releases from a new pool, in any order and for any
  identifiers, the pages in use are the sum of the pages of the reservations held and never more than the
  pool has. In every state so reached \<open>reserve_tokens\<close> returns: zero tokens and a demand above the free pages
  are refused with the pool unchanged, any other demand is granted its rounded-up pages under an
  identifier that is not in use, and the accounting-overflow error never occurs. Releasing a reservation that is held
  gives back exactly its pages, releasing any other identifier is refused with the pool unchanged, and the
  accounting-invariant error never occurs.\<close>

theorem reservations_never_overcommit:
  assumes "kv_page_tokens_new page_tokens = Inr w" "kv_page_plan_new w page_count = Inr p" "page_count \<le> u32_max"
    and "admission_run p a"
  shows "ap_used_pages a = (\<Sum>i\<in>dom (ap_reservations a). the (ap_reservations a i)) \<and> ap_used_pages a \<le> page_count \<and>
    ((tokens = 0 \<and> reserve_tokens a tokens = Some (Inl ZeroTokenRequest, a)) \<or>
     (0 < tokens \<and> page_count < ap_used_pages a + div_ceil tokens page_tokens \<and>
      reserve_tokens a tokens = Some (Inl (InsufficientCapacity (div_ceil tokens page_tokens) (page_count - ap_used_pages a)), a)) \<or>
     (\<exists>i n a'. reserve_tokens a tokens = Some (Inr \<lparr>kr_id = i, kr_page_count = n\<rparr>, a') \<and> 0 < tokens \<and>
        n = div_ceil tokens page_tokens \<and> ap_used_pages a + n \<le> page_count \<and> ap_reservations a i = None \<and>
        ap_reservations a' = (ap_reservations a)(i \<mapsto> n) \<and> ap_used_pages a' = ap_used_pages a + n)) \<and>
    release_reservation a j =
      (case ap_reservations a j of
         None \<Rightarrow> (Inl (UnknownReservation j), a)
       | Some n \<Rightarrow> (Inr (), a\<lparr>ap_reservations := (ap_reservations a)(j := None), ap_used_pages := ap_used_pages a - n\<rparr>))"
proof -
  have p: "plan_ok p" "pp_page_tokens p = page_tokens" "pp_page_count p = page_count"
    using opened_plan_ok [OF assms(1-3)] by simp_all
  have a: "admission_ok a" "ap_plan a = p" using admission_run_ok [OF assms(4) p(1)] by simp_all
  then have used: "ap_used_pages a = (\<Sum>i\<in>dom (ap_reservations a). the (ap_reservations a i))" "ap_used_pages a \<le> page_count"
    "finite (dom (ap_reservations a))" using p(3) by (simp_all add: admission_ok_def pages_held_def)
  have "release_reservation a j =
      (case ap_reservations a j of
         None \<Rightarrow> (Inl (UnknownReservation j), a)
       | Some n \<Rightarrow> (Inr (), a\<lparr>ap_reservations := (ap_reservations a)(j := None), ap_used_pages := ap_used_pages a - n\<rparr>))"
    using pages_held_del [OF used(3)] used(1)
    by (auto simp: release_reservation_def checked_sub_def pages_held_def split: option.split)
  moreover have "pages_for (ap_plan a) tokens = div_ceil tokens page_tokens" "available_pages a = page_count - ap_used_pages a"
    using p a(2) by (simp_all add: pages_for_def available_pages_def)
  note demand = this
  have "(tokens = 0 \<and> reserve_tokens a tokens = Some (Inl ZeroTokenRequest, a)) \<or>
     (0 < tokens \<and> page_count < ap_used_pages a + div_ceil tokens page_tokens \<and>
      reserve_tokens a tokens = Some (Inl (InsufficientCapacity (div_ceil tokens page_tokens) (page_count - ap_used_pages a)), a)) \<or>
     (\<exists>i n a'. reserve_tokens a tokens = Some (Inr \<lparr>kr_id = i, kr_page_count = n\<rparr>, a') \<and> 0 < tokens \<and>
        n = div_ceil tokens page_tokens \<and> ap_used_pages a + n \<le> page_count \<and> ap_reservations a i = None \<and>
        ap_reservations a' = (ap_reservations a)(i \<mapsto> n) \<and> ap_used_pages a' = ap_used_pages a + n)"
    by (cases rule: reserve_tokens_cases [OF a(1), of tokens]) (use demand used(2) in auto)
  ultimately show ?thesis using used by blast
qed

text \<open>Three pages of 16 tokens: 17 tokens take two, 33 more are refused, and an identifier nobody holds
  is not released.\<close>

lemma reservations_never_overcommit_witness:
  "\<exists>p a. kv_page_plan_new 16 3 = Inr p \<and> admission_run p a \<and> ap_used_pages a = 2 \<and>
     reserve_tokens a 33 = Some (Inl (InsufficientCapacity 3 1), a) \<and> release_reservation a 9 = (Inl (UnknownReservation 9), a)"
proof -
  let ?p = "\<lparr>pp_page_tokens = 16, pp_page_count = 3\<rparr>"
  have new: "kv_page_tokens_new 16 = Inr 16" "kv_page_plan_new 16 3 = Inr ?p" "3 \<le> u32_max"
    by (simp_all add: kv_page_tokens_new_def kv_page_plan_new_def u32_max_def)
  let ?a = "\<lparr>ap_plan = ?p, ap_used_pages = 2, ap_next_reservation = 2, ap_reservations = [1 \<mapsto> 2]\<rparr>"
  have "allocate_id Map.empty 1 = Some (1, next_id 1)" by (rule allocate_id_free) simp_all
  then have "reserve_tokens (admission_pool_new ?p) 17 = Some (Inr \<lparr>kr_id = 1, kr_page_count = 2\<rparr>, ?a)"
    by (simp add: reserve_tokens_def admission_pool_new_def pages_for_def div_ceil_def available_pages_def next_id_def
      checked_add_u64_def checked_add_u32_def u64_max_def u32_max_def) (simp add: numeral_2_eq_2)
  then have run: "admission_run ?p ?a" by (rule admission_run.reserved [OF opened])
  then show ?thesis
    using reservations_never_overcommit [OF new run, of 33 9] new(2)
    by (intro exI [of _ ?p] exI [of _ ?a]) (auto simp: div_ceil_def)
qed

lemma lifecycle_run_last:
  "lifecycle_run qs \<Longrightarrow> (last qs = Warming \<longrightarrow> (\<exists>ps. qs = ps @ [Loading, Warming])) \<and>
    (last qs = Ready \<longrightarrow> (\<exists>ps. qs = ps @ [Loading, Warming, Ready]))"
proof (induction rule: lifecycle_run.induct)
  case created
  then show ?case by (simp add: lifecycle_new_def)
next
  case (step ps p q)
  from step(2) have q: "(q = Warming \<longrightarrow> p = Loading) \<and> (q = Ready \<longrightarrow> p = Warming)"
    by cases (auto simp: start_loading_def start_warming_def mark_ready_def lifecycle_fail_def unload_def
        transition_def split: if_splits)
  then show ?case using step(3) by auto
qed

text \<open>A model accepts requests only after it was loaded and then warmed: in any run of successful
  lifecycle calls from creation, a phase that accepts requests is directly preceded by \<open>Loading\<close>
  and \<open>Warming\<close>, and the calls that would skip a phase return an error that leaves the phase.\<close>

theorem ready_only_after_warming:
  assumes "lifecycle_run qs" "accepts_requests (last qs)" "p \<noteq> Warming" "q \<noteq> Loading"
  shows "(\<exists>ps. qs = ps @ [Loading, Warming, Ready]) \<and>
    mark_ready p = (Inl (InvalidTransition p Ready), p) \<and>
    start_warming q = (Inl (InvalidTransition q Warming), q)"
  using lifecycle_run_last [OF assms(1)] assms(2-4)
  by (simp add: accepts_requests_def mark_ready_def start_warming_def transition_def)

lemma ready_only_after_warming_witness:
  "lifecycle_run [Unloaded, Loading, Warming, Ready] \<and> \<not> isl (fst (mark_ready Warming)) \<and>
   mark_ready Loading = (Inl (InvalidTransition Loading Ready), Loading)"
proof -
  have s: "lifecycle_step Unloaded Loading" "lifecycle_step Loading Warming" "lifecycle_step Warming Ready"
    by (intro lifecycle_step.load lifecycle_step.warm lifecycle_step.ready;
        simp add: start_loading_def start_warming_def mark_ready_def transition_def)+
  have "lifecycle_run ([] @ [Unloaded])" using created by (simp add: lifecycle_new_def)
  then have "lifecycle_run ([Unloaded] @ [Loading])" using step [OF _ s(1), of "[]"] by simp
  then have "lifecycle_run ([Unloaded, Loading] @ [Warming])" using step [OF _ s(2), of "[Unloaded]"] by simp
  then have run: "lifecycle_run [Unloaded, Loading, Warming, Ready]"
    using step [OF _ s(3), of "[Unloaded, Loading]"] by simp
  then show ?thesis using ready_only_after_warming [OF run, of Loading Unloaded]
    by (simp add: accepts_requests_def mark_ready_def transition_def)
qed

end
