(* ===== verification/AdmissionQueue.thy ===== *)
theory AdmissionQueue
  imports Prelude
begin

text \<open>
  \<open>crates/app/cli/src/admission_queue.rs\<close>: the per-model first-come-first-served queue in front of
  a model. The scheduler's transitions are functions on its state; \<open>ModelQueue::admit\<close> is the
  sequence of its critical sections, one for arrival and one for each wake-up, so that several
  clients interleave as steps over one scheduler. Times are nanoseconds. The sum of queue times
  (a float that only metrics read) is not modelled; its counter is.
\<close>

section \<open>Durations\<close>

definition duration_max :: nat where
  "duration_max = 18446744073709551616 * 1000000000 - 1"

definition duration_mul :: "nat \<Rightarrow> nat \<Rightarrow> nat option" where
  "duration_mul d k = (if d * k \<le> duration_max then Some (d * k) else None)"

definition duration_add :: "nat \<Rightarrow> nat \<Rightarrow> nat option" where
  "duration_add d e = (if d + e \<le> duration_max then Some (d + e) else None)"

section \<open>Scheduler\<close>

record queue_settings =
  qs_depth :: nat
  qs_wait :: nat
  qs_max_running :: nat

definition queue_settings_default :: queue_settings where
  "queue_settings_default = \<lparr>qs_depth = 8, qs_wait = 60 * 1000000000, qs_max_running = 1\<rparr>"

datatype refusal = Full | Expired | Gone

record queue_metrics =
  qm_num_requests_waiting :: nat
  qm_num_requests_running :: nat
  qm_queue_time_count :: nat
  qm_refused_full :: nat
  qm_refused_expired :: nat
  qm_refused_gone :: nat

record waiting =
  wt_ticket :: nat
  wt_arrived :: nat

record scheduler =
  sc_waiting :: "waiting list"
  sc_running :: nat
  sc_max_running :: nat
  sc_next_ticket :: nat
  sc_service :: "nat option"
  sc_metrics :: queue_metrics

definition zero_metrics :: queue_metrics where
  "zero_metrics = \<lparr>qm_num_requests_waiting = 0, qm_num_requests_running = 0, qm_queue_time_count = 0,
     qm_refused_full = 0, qm_refused_expired = 0, qm_refused_gone = 0\<rparr>"

definition scheduler_new :: "nat \<Rightarrow> scheduler" where
  "scheduler_new max_running =
     \<lparr>sc_waiting = [], sc_running = 0, sc_max_running = max_running, sc_next_ticket = 0,
      sc_service = None, sc_metrics = zero_metrics\<rparr>"

definition sched_started :: "scheduler \<Rightarrow> scheduler option" where
  "sched_started s = do {
     running \<leftarrow> add_usize (sc_running s) 1;
     started \<leftarrow> checked_add_u64 (qm_queue_time_count (sc_metrics s)) 1;
     Some (s\<lparr>sc_running := running, sc_metrics := (sc_metrics s)\<lparr>qm_queue_time_count := started\<rparr>\<rparr>)
   }"

definition start_now :: "scheduler \<Rightarrow> (bool \<times> scheduler) option" where
  "start_now s =
     (if sc_waiting s = [] \<and> sc_running s < sc_max_running s
      then map_option (Pair True) (sched_started s) else Some (False, s))"

definition count_refusal :: "refusal \<Rightarrow> queue_metrics \<Rightarrow> queue_metrics option" where
  "count_refusal r q =
     (case r of
        Full \<Rightarrow> map_option (\<lambda>n. q\<lparr>qm_refused_full := n\<rparr>) (checked_add_u64 (qm_refused_full q) 1)
      | Expired \<Rightarrow> map_option (\<lambda>n. q\<lparr>qm_refused_expired := n\<rparr>) (checked_add_u64 (qm_refused_expired q) 1)
      | Gone \<Rightarrow> map_option (\<lambda>n. q\<lparr>qm_refused_gone := n\<rparr>) (checked_add_u64 (qm_refused_gone q) 1))"

definition enqueue :: "scheduler \<Rightarrow> nat \<Rightarrow> nat \<Rightarrow> ((nat \<times> nat) option \<times> scheduler) option" where
  "enqueue s depth arrived =
     (if length (sc_waiting s) \<ge> depth
      then map_option (\<lambda>q. (None, s\<lparr>sc_metrics := q\<rparr>)) (count_refusal Full (sc_metrics s))
      else do {
        next \<leftarrow> checked_add_u64 (sc_next_ticket s) 1;
        let queue = sc_waiting s @ [\<lparr>wt_ticket = sc_next_ticket s, wt_arrived = arrived\<rparr>];
        Some (Some (sc_next_ticket s, length queue), s\<lparr>sc_next_ticket := next, sc_waiting := queue\<rparr>)
      })"

definition try_start :: "scheduler \<Rightarrow> nat \<Rightarrow> (bool \<times> scheduler) option" where
  "try_start s ticket =
     (case sc_waiting s of
        [] \<Rightarrow> Some (False, s)
      | first # rest \<Rightarrow>
          if wt_ticket first \<noteq> ticket \<or> sc_running s \<ge> sc_max_running s then Some (False, s)
          else map_option (Pair True) (sched_started (s\<lparr>sc_waiting := rest\<rparr>)))"

definition cancel :: "scheduler \<Rightarrow> nat \<Rightarrow> refusal \<Rightarrow> scheduler option" where
  "cancel s ticket r =
     map_option (\<lambda>q. s\<lparr>sc_waiting := filter (\<lambda>w. wt_ticket w \<noteq> ticket) (sc_waiting s), sc_metrics := q\<rparr>)
       (count_refusal r (sc_metrics s))"

definition finish :: "scheduler \<Rightarrow> nat \<Rightarrow> scheduler option" where
  "finish s held = do {
     running \<leftarrow> checked_sub (sc_running s) 1;
     service \<leftarrow> (case sc_service s of
        None \<Rightarrow> Some held
      | Some old \<Rightarrow> do { d \<leftarrow> duration_mul old 3; d \<leftarrow> duration_add d held; Some (d div 4) });
     Some (s\<lparr>sc_running := running, sc_service := Some service\<rparr>)
   }"

definition max_retry_after_secs :: nat where
  "max_retry_after_secs = 60"

definition retry_after_secs :: "scheduler \<Rightarrow> nat" where
  "retry_after_secs s =
     (let secs = (case sc_service s of
        None \<Rightarrow> 1
      | Some service \<Rightarrow> min (div_ceil (service div 1000000) (1000 * sc_max_running s)) u64_max)
      in max 1 (min secs max_retry_after_secs))"

definition sched_metrics :: "scheduler \<Rightarrow> queue_metrics" where
  "sched_metrics s = (sc_metrics s)\<lparr>qm_num_requests_waiting := length (sc_waiting s),
     qm_num_requests_running := sc_running s\<rparr>"

section \<open>\<open>ModelQueue\<close>\<close>

record refused =
  rf_refusal :: refusal
  rf_waited :: nat
  rf_retry_after_secs :: nat

datatype admit_result =
    Admitted nat
  | Refused refused
  | Parked nat nat

definition model_queue_new :: "queue_settings \<Rightarrow> scheduler" where
  "model_queue_new q = scheduler_new (max (qs_max_running q) 1)"

text \<open>The loop body up to its return or its wait: \<open>arrived\<close>, \<open>deadline\<close> and \<open>now\<close> are instants.\<close>

definition admit_iterate ::
  "scheduler \<Rightarrow> nat \<Rightarrow> nat \<Rightarrow> nat \<Rightarrow> nat \<Rightarrow> nat \<Rightarrow> (admit_result \<times> scheduler) option" where
  "admit_iterate s ticket depth arrived deadline now = do {
     (started, s1) \<leftarrow> try_start s ticket;
     if started then Some (Admitted depth, s1)
     else if now \<ge> deadline then do {
       s2 \<leftarrow> cancel s1 ticket Expired;
       Some (Refused \<lparr>rf_refusal = Expired, rf_waited = now - arrived, rf_retry_after_secs = retry_after_secs s2\<rparr>, s2)
     }
     else Some (Parked ticket depth, s1)
   }"

text \<open>The first critical section of \<open>admit\<close>, and the one after each wait: the client left, or the
  loop goes round.\<close>

definition admit_arrive ::
  "queue_settings \<Rightarrow> scheduler \<Rightarrow> nat \<Rightarrow> nat \<Rightarrow> (admit_result \<times> scheduler) option" where
  "admit_arrive q s arrived now = do {
     (started, s1) \<leftarrow> start_now s;
     if started then Some (Admitted 0, s1)
     else do {
       (slot, s2) \<leftarrow> enqueue s1 (qs_depth q) arrived;
       case slot of
         None \<Rightarrow> Some (Refused \<lparr>rf_refusal = Full, rf_waited = 0, rf_retry_after_secs = retry_after_secs s2\<rparr>, s2)
       | Some (ticket, depth) \<Rightarrow> admit_iterate s2 ticket depth arrived (arrived + qs_wait q) now
     }
   }"

definition admit_wake ::
  "queue_settings \<Rightarrow> scheduler \<Rightarrow> nat \<Rightarrow> nat \<Rightarrow> nat \<Rightarrow> bool \<Rightarrow> nat \<Rightarrow> (admit_result \<times> scheduler) option" where
  "admit_wake q s ticket depth arrived left now =
     (if left then do {
        s2 \<leftarrow> cancel s ticket Gone;
        Some (Refused \<lparr>rf_refusal = Gone, rf_waited = now - arrived, rf_retry_after_secs = retry_after_secs s2\<rparr>, s2)
      }
      else admit_iterate s ticket depth arrived (arrived + qs_wait q) now)"

text \<open>Clients between their critical sections, and the steps they take. A step exists for every
  call that returns; \<open>Drop for Admitted\<close> is \<open>leave\<close>.\<close>

datatype client = Waits nat nat nat | Runs

record queue_system =
  q_sched :: scheduler
  q_clients :: "nat \<rightharpoonup> client"

definition after_section :: "nat \<Rightarrow> nat \<Rightarrow> admit_result \<Rightarrow> (nat \<rightharpoonup> client) \<Rightarrow> (nat \<rightharpoonup> client)" where
  "after_section c arrived r clients =
     (case r of
        Admitted _ \<Rightarrow> clients(c \<mapsto> Runs)
      | Refused _ \<Rightarrow> clients(c := None)
      | Parked ticket depth \<Rightarrow> clients(c \<mapsto> Waits ticket depth arrived))"

inductive queue_step :: "queue_settings \<Rightarrow> queue_system \<Rightarrow> queue_system \<Rightarrow> bool" for q where
  arrive: "q_clients y c = None \<Longrightarrow> admit_arrive q (q_sched y) arrived now = Some (r, s) \<Longrightarrow>
    queue_step q y \<lparr>q_sched = s, q_clients = after_section c arrived r (q_clients y)\<rparr>"
| wake: "q_clients y c = Some (Waits ticket depth arrived) \<Longrightarrow>
    admit_wake q (q_sched y) ticket depth arrived left now = Some (r, s) \<Longrightarrow>
    queue_step q y \<lparr>q_sched = s, q_clients = after_section c arrived r (q_clients y)\<rparr>"
| leave: "q_clients y c = Some Runs \<Longrightarrow> finish (q_sched y) held = Some s \<Longrightarrow>
    queue_step q y \<lparr>q_sched = s, q_clients = (q_clients y)(c := None)\<rparr>"

inductive queue_reach :: "queue_settings \<Rightarrow> queue_system \<Rightarrow> bool" for q where
  start: "queue_reach q \<lparr>q_sched = model_queue_new q, q_clients = Map.empty\<rparr>"
| step: "queue_reach q y \<Longrightarrow> queue_step q y y' \<Longrightarrow> queue_reach q y'"

section \<open>Invariant\<close>

definition running_clients :: "(nat \<rightharpoonup> client) \<Rightarrow> nat set" where
  "running_clients cs = {c. cs c = Some Runs}"

definition parked_clients :: "(nat \<rightharpoonup> client) \<Rightarrow> (nat \<times> nat) set" where
  "parked_clients cs = {(c, t). \<exists>d a. cs c = Some (Waits t d a)}"

definition sched_inv :: "queue_settings \<Rightarrow> scheduler \<Rightarrow> (nat \<rightharpoonup> client) \<Rightarrow> bool" where
  "sched_inv q s cs \<longleftrightarrow>
     finite (dom cs) \<and> sc_max_running s = max (qs_max_running q) 1 \<and>
     sc_running s = card (running_clients cs) \<and> sc_running s \<le> sc_max_running s \<and>
     sorted_wrt (<) (map wt_ticket (sc_waiting s)) \<and> (\<forall>w\<in>set (sc_waiting s). wt_ticket w < sc_next_ticket s) \<and>
     length (sc_waiting s) \<le> qs_depth q \<and>
     wt_ticket ` set (sc_waiting s) = snd ` parked_clients cs \<and> inj_on snd (parked_clients cs)"

definition queue_ok :: "queue_settings \<Rightarrow> queue_system \<Rightarrow> bool" where
  "queue_ok q y \<longleftrightarrow> sched_inv q (q_sched y) (q_clients y)"

lemma running_clients_upd [simp]:
  "running_clients (cs(c \<mapsto> Runs)) = insert c (running_clients cs)"
  "running_clients (cs(c := None)) = running_clients cs - {c}"
  "running_clients (cs(c \<mapsto> Waits t d a)) = running_clients cs - {c}"
  by (auto simp: running_clients_def)

lemma parked_clients_upd [simp]:
  "parked_clients (cs(c \<mapsto> Runs)) = {p \<in> parked_clients cs. fst p \<noteq> c}"
  "parked_clients (cs(c := None)) = {p \<in> parked_clients cs. fst p \<noteq> c}"
  "parked_clients (cs(c \<mapsto> Waits t d a)) = insert (c, t) {p \<in> parked_clients cs. fst p \<noteq> c}"
  by (auto simp: parked_clients_def split: if_splits)

lemma parked_not: "cs c = None \<or> cs c = Some Runs \<Longrightarrow> {p \<in> parked_clients cs. fst p \<noteq> c} = parked_clients cs"
  by (auto simp: parked_clients_def)

lemma not_running: "cs c \<noteq> Some Runs \<Longrightarrow> running_clients cs - {c} = running_clients cs \<and> c \<notin> running_clients cs"
  by (auto simp: running_clients_def)

lemma parked_without:
  assumes "inj_on snd (parked_clients cs)" "cs c = Some (Waits t d a)"
  shows "snd ` {p \<in> parked_clients cs. fst p \<noteq> c} = snd ` parked_clients cs - {t}"
proof -
  have ct: "(c, t) \<in> parked_clients cs" using assms(2) by (auto simp: parked_clients_def)
  have "p = (c, t) \<longleftrightarrow> fst p = c" if "p \<in> parked_clients cs" for p
    using that assms(2) by (auto simp: parked_clients_def)
  then have "{p \<in> parked_clients cs. fst p \<noteq> c} = parked_clients cs - {(c, t)}" by blast
  then show ?thesis using inj_on_image_set_diff [OF assms(1), of "parked_clients cs" "{(c, t)}"] ct by auto
qed

lemma finite_running: "finite (dom cs) \<Longrightarrow> finite (running_clients cs)"
  by (rule finite_subset [of _ "dom cs"]) (auto simp: running_clients_def)

lemma count_refusal_same:
  "count_refusal r q = Some q' \<Longrightarrow> qm_num_requests_waiting q' = qm_num_requests_waiting q"
  by (auto simp: count_refusal_def split: refusal.splits)

lemma sched_started_Some:
  "sched_started s = Some s' \<Longrightarrow> sc_waiting s' = sc_waiting s \<and> sc_running s' = sc_running s + 1 \<and>
    sc_max_running s' = sc_max_running s \<and> sc_next_ticket s' = sc_next_ticket s"
  by (auto simp: sched_started_def panic_simps split: Option.bind_splits)

lemma start_now_inv:
  assumes inv: "sched_inv q s cs" and c: "cs c = None" and st: "start_now s = Some (True, s')"
  shows "sched_inv q s' (cs(c \<mapsto> Runs))"
proof -
  have f: "sc_waiting s = []" "sc_running s < sc_max_running s" "sched_started s = Some s'"
    using st by (auto simp: start_now_def split: if_splits)
  have "c \<notin> running_clients cs" using not_running [of cs c] c by simp
  then show ?thesis using inv c f sched_started_Some [OF f(3)] finite_running [of cs] parked_not [of cs c]
    unfolding sched_inv_def by simp
qed

lemma try_start_True:
  assumes "try_start s t = Some (True, s')"
  shows "\<exists>w rest. sc_waiting s = w # rest \<and> wt_ticket w = t \<and> sc_waiting s' = rest \<and>
    sc_running s < sc_max_running s \<and> sc_running s' = sc_running s + 1 \<and>
    sc_max_running s' = sc_max_running s \<and> sc_next_ticket s' = sc_next_ticket s"
  using assms sched_started_Some by (fastforce simp: try_start_def split: list.splits if_splits)

lemma try_start_inv:
  assumes inv: "sched_inv q s cs" and c: "cs c = Some (Waits t d a)" and st: "try_start s t = Some (True, s')"
  shows "sched_inv q s' (cs(c \<mapsto> Runs))"
proof -
  obtain w rest where w: "sc_waiting s = w # rest" "wt_ticket w = t" "sc_waiting s' = rest"
    "sc_running s < sc_max_running s" "sc_running s' = sc_running s + 1"
    "sc_max_running s' = sc_max_running s" "sc_next_ticket s' = sc_next_ticket s"
    using try_start_True [OF st] by blast
  have i: "inj_on snd (parked_clients cs)" "wt_ticket ` set (w # rest) = snd ` parked_clients cs"
    and srt: "sorted_wrt (<) (map wt_ticket (w # rest))"
    using inv unfolding sched_inv_def w(1) by blast+
  have "t \<notin> wt_ticket ` set rest" using srt w(2) by auto
  then have "wt_ticket ` set rest = snd ` {p \<in> parked_clients cs. fst p \<noteq> c}"
    using i(2) w(2) unfolding parked_without [OF i(1) c] by (metis Diff_insert_absorb image_insert list.simps(15))
  moreover have "inj_on snd {p \<in> parked_clients cs. fst p \<noteq> c}" by (rule inj_on_subset [OF i(1)]) auto
  moreover have "c \<notin> running_clients cs" using not_running [of cs c] c by simp
  ultimately show ?thesis using inv w finite_running [of cs] unfolding sched_inv_def by simp
qed

lemma cancel_inv:
  assumes inv: "sched_inv q s cs" and c: "cs c = Some (Waits t d a)" and cn: "cancel s t r = Some s'"
  shows "sched_inv q s' (cs(c := None))"
proof -
  have e: "sc_waiting s' = filter (\<lambda>w. wt_ticket w \<noteq> t) (sc_waiting s)" "sc_running s' = sc_running s"
    "sc_max_running s' = sc_max_running s" "sc_next_ticket s' = sc_next_ticket s"
    using cn by (auto simp: cancel_def)
  have i: "inj_on snd (parked_clients cs)" "wt_ticket ` set (sc_waiting s) = snd ` parked_clients cs"
    using inv unfolding sched_inv_def by blast+
  have "sorted_wrt (<) (map wt_ticket (sc_waiting s'))"
    using inv unfolding e(1) sched_inv_def sorted_wrt_map by (blast intro: sorted_wrt_filter)
  moreover have "length (sc_waiting s') \<le> length (sc_waiting s)" using e(1) by simp
  then have "length (sc_waiting s') \<le> qs_depth q" using inv unfolding sched_inv_def by linarith
  moreover have "wt_ticket ` set (sc_waiting s') = snd ` {p \<in> parked_clients cs. fst p \<noteq> c}"
    using i(2) e(1) parked_without [OF i(1) c] by auto
  moreover have "inj_on snd {p \<in> parked_clients cs. fst p \<noteq> c}" by (rule inj_on_subset [OF i(1)]) auto
  moreover have "running_clients cs - {c} = running_clients cs" using not_running [of cs c] c by simp
  moreover have "\<forall>w\<in>set (sc_waiting s'). wt_ticket w < sc_next_ticket s'"
    using inv e(1,4) unfolding sched_inv_def by simp
  ultimately show ?thesis using inv e(2,3) unfolding sched_inv_def by simp
qed

lemma enqueue_inv:
  assumes inv: "sched_inv q s cs" and c: "cs c = None" and en: "enqueue s (qs_depth q) arrived = Some (Some (t, d), s')"
  shows "sched_inv q s' (cs(c \<mapsto> Waits t d a))" "sc_waiting s' = sc_waiting s @ [\<lparr>wt_ticket = t, wt_arrived = arrived\<rparr>]"
    "t = sc_next_ticket s" "sc_max_running s' = sc_max_running s" "sc_running s' = sc_running s"
proof -
  have e: "t = sc_next_ticket s" "length (sc_waiting s) < qs_depth q"
    "sc_waiting s' = sc_waiting s @ [\<lparr>wt_ticket = t, wt_arrived = arrived\<rparr>]"
    "sc_next_ticket s' = sc_next_ticket s + 1" "sc_running s' = sc_running s" "sc_max_running s' = sc_max_running s"
    using en by (auto simp: enqueue_def panic_simps Let_def split: if_splits Option.bind_splits)
  then show "sc_waiting s' = sc_waiting s @ [\<lparr>wt_ticket = t, wt_arrived = arrived\<rparr>]" "t = sc_next_ticket s"
    "sc_max_running s' = sc_max_running s" "sc_running s' = sc_running s" by simp_all
  have lt: "\<forall>w\<in>set (sc_waiting s). wt_ticket w < t"
    and i: "inj_on snd (parked_clients cs)" "wt_ticket ` set (sc_waiting s) = snd ` parked_clients cs"
    and srt: "sorted_wrt (<) (map wt_ticket (sc_waiting s))"
    using inv e(1) unfolding sched_inv_def by blast+
  have new: "t \<notin> snd ` parked_clients cs" using lt unfolding i(2) [symmetric] by auto
  have "sorted_wrt (<) (map wt_ticket (sc_waiting s'))" using srt lt e(3) by (simp add: sorted_wrt_append)
  moreover have "wt_ticket ` set (sc_waiting s') = insert t (snd ` parked_clients cs)" using i(2) e(3) by simp
  moreover have "inj_on snd (insert (c, t) (parked_clients cs))" using i(1) new by (auto simp: inj_on_insert)
  moreover have "\<forall>w\<in>set (sc_waiting s'). wt_ticket w < sc_next_ticket s'" using lt e(1,3,4) by auto
  moreover have "running_clients cs - {c} = running_clients cs" using not_running [of cs c] c by simp
  ultimately show "sched_inv q s' (cs(c \<mapsto> Waits t d a))"
    using inv e(2,3,5,6) parked_not [of cs c] c unfolding sched_inv_def by simp
qed

lemma finish_inv:
  assumes inv: "sched_inv q s cs" and c: "cs c = Some Runs" and fi: "finish s held = Some s'"
  shows "sched_inv q s' (cs(c := None))"
proof -
  have e: "sc_waiting s' = sc_waiting s" "sc_running s' = sc_running s - 1"
    "sc_max_running s' = sc_max_running s" "sc_next_ticket s' = sc_next_ticket s"
    using fi by (auto simp: finish_def panic_simps split: Option.bind_splits)
  have "c \<in> running_clients cs" using c by (simp add: running_clients_def)
  then have "card (running_clients cs - {c}) = card (running_clients cs) - 1" by simp
  moreover have "sc_running s' \<le> sc_max_running s'" using inv e unfolding sched_inv_def by linarith
  ultimately show ?thesis using inv e parked_not [of cs c] c unfolding sched_inv_def by simp
qed

lemma try_start_False: "try_start s t = Some (False, s') \<Longrightarrow> s' = s"
  by (auto simp: try_start_def split: list.splits if_splits)

lemma start_now_False: "start_now s = Some (False, s') \<Longrightarrow> s' = s"
  by (auto simp: start_now_def split: if_splits)

lemma admit_iterate_inv:
  assumes inv: "sched_inv q s cs" and c: "cs c = Some (Waits t d a)"
    and it: "admit_iterate s t d a deadline now = Some (r, s')"
  shows "sched_inv q s' (after_section c a r cs)"
proof -
  obtain b s1 where ts: "try_start s t = Some (b, s1)" using it by (auto simp: admit_iterate_def split: Option.bind_splits)
  show ?thesis
  proof (cases b)
    case True
    then show ?thesis using it ts try_start_inv [OF inv c, of s1] by (auto simp: admit_iterate_def after_section_def)
  next
    case False
    then have "try_start s t = Some (False, s1)" using ts by simp
    then have "s1 = s" by (rule try_start_False)
    then show ?thesis using it ts False inv c cancel_inv [OF inv c]
      by (auto simp: admit_iterate_def after_section_def map_upd_triv split: if_splits Option.bind_splits)
  qed
qed

lemma refuse_full_inv:
  assumes inv: "sched_inv q s cs" and c: "cs c = None" and en: "enqueue s depth arrived = Some (None, s')"
  shows "sched_inv q s' (cs(c := None))"
proof -
  have "sc_waiting s' = sc_waiting s" "sc_running s' = sc_running s" "sc_max_running s' = sc_max_running s"
    "sc_next_ticket s' = sc_next_ticket s"
    using en by (auto simp: enqueue_def Let_def split: if_splits Option.bind_splits)
  moreover have "cs(c := None) = cs" using c by (simp add: fun_upd_idem)
  ultimately show ?thesis using inv unfolding sched_inv_def by simp
qed

lemma queue_step_ok:
  assumes "queue_step q y y'" "queue_ok q y"
  shows "queue_ok q y'"
  using assms(1)
proof cases
  case (arrive c arrived now r s)
  note inv = assms(2) [unfolded queue_ok_def]
  obtain b s1 where sn: "start_now (q_sched y) = Some (b, s1)"
    using arrive(3) by (auto simp: admit_arrive_def split: Option.bind_splits)
  show ?thesis
  proof (cases b)
    case True
    then show ?thesis using arrive sn start_now_inv [OF inv arrive(2), of s1]
      by (auto simp: admit_arrive_def after_section_def queue_ok_def)
  next
    case False
    then have "start_now (q_sched y) = Some (False, s1)" using sn by simp
    then have s1: "s1 = q_sched y" by (rule start_now_False)
    obtain slot s2 where en: "enqueue (q_sched y) (qs_depth q) arrived = Some (slot, s2)"
      using arrive(3) sn False s1 by (auto simp: admit_arrive_def split: Option.bind_splits)
    show ?thesis
    proof (cases slot)
      case None
      then show ?thesis using arrive sn False s1 en refuse_full_inv [OF inv arrive(2)]
        by (auto simp: admit_arrive_def after_section_def queue_ok_def)
    next
      case (Some td)
      obtain t d where td: "td = (t, d)" by fastforce
      have i2: "sched_inv q s2 ((q_clients y)(c \<mapsto> Waits t d arrived))"
        using enqueue_inv(1) [OF inv arrive(2)] en Some td by blast
      have it: "admit_iterate s2 t d arrived (arrived + qs_wait q) now = Some (r, s)"
        using arrive(3) sn False s1 en Some td by (simp add: admit_arrive_def)
      have "sched_inv q s (after_section c arrived r ((q_clients y)(c \<mapsto> Waits t d arrived)))"
        by (rule admit_iterate_inv [OF i2 _ it]) simp
      moreover have "after_section c arrived r ((q_clients y)(c \<mapsto> Waits t d arrived)) = after_section c arrived r (q_clients y)"
        by (auto simp: after_section_def split: admit_result.split)
      ultimately show ?thesis using arrive(1) by (simp add: queue_ok_def)
    qed
  qed
next
  case (wake c ticket depth arrived left now r s)
  note inv = assms(2) [unfolded queue_ok_def]
  show ?thesis
  proof (cases left)
    case True
    then obtain s2 where "cancel (q_sched y) ticket Gone = Some s2" "s = s2" "r = Refused \<lparr>rf_refusal = Gone,
        rf_waited = now - arrived, rf_retry_after_secs = retry_after_secs s2\<rparr>"
      using wake(3) by (auto simp: admit_wake_def split: Option.bind_splits)
    then show ?thesis using wake(1) cancel_inv [OF inv wake(2)] by (simp add: queue_ok_def after_section_def)
  next
    case False
    then show ?thesis using wake admit_iterate_inv [OF inv wake(2)] by (simp add: queue_ok_def admit_wake_def)
  qed
next
  case (leave c held s)
  then show ?thesis using finish_inv assms(2) by (auto simp: queue_ok_def)
qed

lemma queue_start_ok: "queue_ok q \<lparr>q_sched = model_queue_new q, q_clients = Map.empty\<rparr>"
  by (simp add: queue_ok_def sched_inv_def model_queue_new_def scheduler_new_def running_clients_def parked_clients_def)

lemma queue_reach_ok: "queue_reach q y \<Longrightarrow> queue_ok q y"
  by (induction rule: queue_reach.induct) (auto intro: queue_start_ok queue_step_ok)

lemma try_start_head:
  assumes "sc_waiting s = w # rest" "wt_ticket w = t" "sc_running s < sc_max_running s"
    and "sc_running s < usize_max" "qm_queue_time_count (sc_metrics s) < u64_max"
  shows "\<exists>s'. try_start s t = Some (True, s')"
  using assms by (simp add: try_start_def sched_started_def add_usize_def checked_add_u64_def)

lemma admit_iterate_Admitted:
  assumes "admit_iterate s t d a deadline now = Some (Admitted d', s')"
  shows "d' = d \<and> try_start s t = Some (True, s')"
  using assms by (auto simp: admit_iterate_def split: Option.bind_splits if_splits)

lemma arrive_behind_others:
  assumes inv: "sched_inv q s cs" and w: "sc_waiting s \<noteq> []"
  shows "admit_arrive q s arrived now \<noteq> Some (Admitted d, s')"
proof
  assume ar: "admit_arrive q s arrived now = Some (Admitted d, s')"
  have "start_now s = Some (False, s)" using w by (simp add: start_now_def)
  then obtain t e s2 where en: "enqueue s (qs_depth q) arrived = Some (Some (t, e), s2)"
    and it: "admit_iterate s2 t e arrived (arrived + qs_wait q) now = Some (Admitted d, s')"
    using ar by (auto simp: admit_arrive_def split: Option.bind_splits option.splits)
  have "sc_waiting s2 = sc_waiting s @ [\<lparr>wt_ticket = t, wt_arrived = arrived\<rparr>]" "t = sc_next_ticket s"
    using en by (auto simp: enqueue_def panic_simps Let_def split: if_splits Option.bind_splits)
  moreover have "wt_ticket (hd (sc_waiting s)) < sc_next_ticket s"
    using inv w hd_in_set [OF w] unfolding sched_inv_def by blast
  moreover have "\<exists>v rest. sc_waiting s2 = v # rest \<and> wt_ticket v = t"
    using try_start_True [of s2 t s'] admit_iterate_Admitted [OF it] by blast
  ultimately show False using w by (cases "sc_waiting s") auto
qed

section \<open>Properties\<close>

text \<open>C18: However clients arrive, wake, give up and leave, a model runs at most \<open>max_running\<close>
  requests at once (at least one being allowed), the scheduler's count is the number of clients
  holding a slot, at most \<open>depth\<close> clients wait, the queue holds exactly the waiting clients in
  ticket order, and the reported metrics are those numbers.\<close>

theorem queue_respects_limits:
  assumes "queue_reach q y"
  shows "card (running_clients (q_clients y)) \<le> max (qs_max_running q) 1 \<and>
    sc_running (q_sched y) = card (running_clients (q_clients y)) \<and>
    card (parked_clients (q_clients y)) \<le> qs_depth q \<and>
    wt_ticket ` set (sc_waiting (q_sched y)) = snd ` parked_clients (q_clients y) \<and>
    sorted_wrt (<) (map wt_ticket (sc_waiting (q_sched y))) \<and>
    qm_num_requests_running (sched_metrics (q_sched y)) = card (running_clients (q_clients y)) \<and>
    qm_num_requests_waiting (sched_metrics (q_sched y)) = card (parked_clients (q_clients y))"
proof -
  let ?s = "q_sched y" and ?cs = "q_clients y"
  have inv: "sched_inv q ?s ?cs" using queue_reach_ok [OF assms] by (simp add: queue_ok_def)
  then have srt: "sorted_wrt (<) (map wt_ticket (sc_waiting ?s))"
    and tk: "wt_ticket ` set (sc_waiting ?s) = snd ` parked_clients ?cs" "inj_on snd (parked_clients ?cs)"
    unfolding sched_inv_def by blast+
  have "distinct (map wt_ticket (sc_waiting ?s))" using srt strict_sorted_iff by blast
  then have "length (sc_waiting ?s) = card (set (map wt_ticket (sc_waiting ?s)))"
    using distinct_card by fastforce
  also have "\<dots> = card (parked_clients ?cs)" using tk by (simp add: card_image)
  finally show ?thesis using inv srt tk(1) unfolding sched_inv_def by (simp add: sched_metrics_def)
qed

lemma queue_respects_limits_witness:
  "\<exists>y. queue_reach queue_settings_default y \<and> card (running_clients (q_clients y)) = 1 \<and>
     sc_running (q_sched y) = card (running_clients (q_clients y))"
proof -
  let ?q = queue_settings_default and ?init = "model_queue_new queue_settings_default"
  have "admit_arrive ?q ?init 0 0 = Some (Admitted 0, ?init\<lparr>sc_running := 1,
      sc_metrics := zero_metrics\<lparr>qm_queue_time_count := 1\<rparr>\<rparr>)"
    by (simp add: admit_arrive_def start_now_def sched_started_def model_queue_new_def scheduler_new_def
        queue_settings_default_def add_usize_def checked_add_u64_def usize_max_def u64_max_def zero_metrics_def)
  from arrive [where y = "\<lparr>q_sched = ?init, q_clients = Map.empty\<rparr>" and c = 7, simplified, OF this]
  obtain y where y: "queue_step ?q \<lparr>q_sched = ?init, q_clients = Map.empty\<rparr> y" "q_clients y = [7 \<mapsto> Runs]"
    by (auto simp: after_section_def)
  have r: "queue_reach ?q y" by (rule step [OF start y(1)])
  then show ?thesis using queue_respects_limits [OF r] y(2)
    by (intro exI [of _ y]) (simp add: running_clients_def)
qed

text \<open>C19: The queue is first come, first served. A waiting client is admitted only when no client with
  an earlier ticket is still waiting; an arriving client is never admitted while others wait; and
  when a slot is free the client at the head of the queue is admitted at its next wake-up, whatever
  its deadline.\<close>

theorem queue_is_first_come_first_served:
  assumes "queue_reach q y" "q_clients y c = Some (Waits t d a)"
  shows "(\<forall>now s c' t' d' a'. admit_wake q (q_sched y) t d a left now = Some (Admitted d', s) \<longrightarrow>
      q_clients y c' = Some (Waits t' d' a') \<longrightarrow> t \<le> t') \<and>
    (\<forall>arrived now d' s. admit_arrive q (q_sched y) arrived now \<noteq> Some (Admitted d', s)) \<and>
    (wt_ticket (hd (sc_waiting (q_sched y))) = t \<and> sc_running (q_sched y) < sc_max_running (q_sched y) \<and>
     sc_running (q_sched y) < usize_max \<and> qm_queue_time_count (sc_metrics (q_sched y)) < u64_max \<longrightarrow>
     (\<forall>now. \<exists>s. admit_wake q (q_sched y) t d a False now = Some (Admitted d, s)))"
proof -
  let ?s = "q_sched y"
  have inv: "sched_inv q ?s (q_clients y)" using queue_reach_ok [OF assms(1)] by (simp add: queue_ok_def)
  have mem: "t' \<in> wt_ticket ` set (sc_waiting ?s)" if "q_clients y c' = Some (Waits t' d' a')" for c' t' d' a'
    using inv that unfolding sched_inv_def parked_clients_def by force
  have ne: "sc_waiting ?s \<noteq> []" using mem [OF assms(2)] by auto
  have "t \<le> t'"
    if ad: "admit_wake q ?s t d a left now = Some (Admitted d', s)" and c': "q_clients y c' = Some (Waits t' d' a')"
    for now s c' t' d' a'
  proof -
    have "admit_iterate ?s t d a (a + qs_wait q) now = Some (Admitted d', s)"
      using ad by (auto simp: admit_wake_def split: if_splits Option.bind_splits)
    then obtain w rest where w: "sc_waiting ?s = w # rest" "wt_ticket w = t"
      using try_start_True admit_iterate_Admitted by blast
    have "sorted_wrt (<) (map wt_ticket (w # rest))" using inv w(1) unfolding sched_inv_def by metis
    moreover have "t' \<in> wt_ticket ` set (w # rest)" using mem [OF c'] w(1) by simp
    ultimately show ?thesis using w(2) by auto
  qed
  moreover have "admit_arrive q ?s arrived now \<noteq> Some (Admitted d', s)" for arrived now d' s
    by (rule arrive_behind_others [OF inv ne])
  moreover have "\<exists>s. admit_wake q ?s t d a False now = Some (Admitted d, s)"
    if h: "wt_ticket (hd (sc_waiting ?s)) = t" "sc_running ?s < sc_max_running ?s"
      "sc_running ?s < usize_max" "qm_queue_time_count (sc_metrics ?s) < u64_max" for now
  proof -
    obtain w rest where w: "sc_waiting ?s = w # rest" using ne by (cases "sc_waiting ?s") auto
    obtain s' where "try_start ?s t = Some (True, s')"
      using try_start_head [OF w _ h(2-4)] h(1) w by auto
    then show ?thesis by (simp add: admit_wake_def admit_iterate_def)
  qed
  ultimately show ?thesis by blast
qed

lemma queue_is_first_come_first_served_witness:
  "\<exists>y t d a. queue_reach queue_settings_default y \<and> q_clients y 8 = Some (Waits t d a) \<and>
     (\<forall>arrived now d' s. admit_arrive queue_settings_default (q_sched y) arrived now \<noteq> Some (Admitted d', s))"
proof -
  let ?q = queue_settings_default and ?init = "model_queue_new queue_settings_default"
  let ?s1 = "?init\<lparr>sc_running := Suc 0, sc_metrics := zero_metrics\<lparr>qm_queue_time_count := Suc 0\<rparr>\<rparr>"
  note defs = admit_arrive_def start_now_def sched_started_def model_queue_new_def scheduler_new_def enqueue_def
    queue_settings_default_def add_usize_def checked_add_u64_def usize_max_def u64_max_def zero_metrics_def
    admit_iterate_def try_start_def Let_def
  have "admit_arrive ?q ?init 0 0 = Some (Admitted 0, ?s1)" by (simp add: defs)
  from arrive [where y = "\<lparr>q_sched = ?init, q_clients = Map.empty\<rparr>" and c = 7, simplified, OF this]
  have r1: "queue_reach ?q \<lparr>q_sched = ?s1, q_clients = [7 \<mapsto> Runs]\<rparr>"
    using step [OF start] by (simp add: after_section_def)
  have "\<exists>s. admit_arrive ?q ?s1 0 0 = Some (Parked 0 (Suc 0), s)" by (simp add: defs)
  then obtain s2 where "admit_arrive ?q ?s1 0 0 = Some (Parked 0 (Suc 0), s2)" by blast
  from arrive [where y = "\<lparr>q_sched = ?s1, q_clients = [7 \<mapsto> Runs]\<rparr>" and c = 8, simplified, OF this]
  have "queue_step ?q \<lparr>q_sched = ?s1, q_clients = [7 \<mapsto> Runs]\<rparr>
      \<lparr>q_sched = s2, q_clients = [7 \<mapsto> Runs, 8 \<mapsto> Waits 0 (Suc 0) 0]\<rparr>"
    by (simp add: after_section_def)
  then have r2: "queue_reach ?q \<lparr>q_sched = s2, q_clients = [7 \<mapsto> Runs, 8 \<mapsto> Waits 0 (Suc 0) 0]\<rparr>"
    by (rule step [OF r1])
  from queue_is_first_come_first_served [OF r2, of 8] show ?thesis using r2
    by (intro exI [of _ "\<lparr>q_sched = s2, q_clients = [7 \<mapsto> Runs, 8 \<mapsto> Waits 0 (Suc 0) 0]\<rparr>"] exI [of _ 0] exI [of _ 1]) auto
qed

end
