(* ===== verification/PrefixFormat.thy ===== *)
theory PrefixFormat
  imports Bytes
begin

text \<open>
  The entry files of \<open>crates/app/cli/src/prefix_store.rs\<close>: how an entry is named, encoded and read
  back. A file is the list of its bytes; \<open>EntryReader\<close> is the unread part of it with the length
  it may still read. SHA-256 (the \<open>sha2\<close> crate) is the parameter \<open>sha\<close>. An I/O error is its
  message. Reading is shown to accept exactly the encodings, so that a file that is truncated,
  extended or of another identity is always refused.
\<close>

type_synonym store_key = "byte list"
type_synonym io_error = string

section \<open>Text\<close>

text \<open>The \<open>02x\<close> digits of every byte.\<close>

definition hex_digit :: "nat \<Rightarrow> char" where
  "hex_digit d = (if d < 10 then char_of (48 + d) else char_of (87 + d))"

definition hex_byte :: "byte \<Rightarrow> string" where
  "hex_byte b = [hex_digit (unat b div 16), hex_digit (unat b mod 16)]"

definition hex :: "byte list \<Rightarrow> string" where
  "hex bs = foldl (\<lambda>text b. text @ hex_byte b) [] bs"

section \<open>Entries\<close>

definition magic :: "byte list" where
  "magic = ascii ''MXPFXKV'' @ [0]"

definition version :: token where
  "version = 1"

definition salt_updates :: "byte list option \<Rightarrow> byte list list" where
  "salt_updates salt =
     (case salt of None \<Rightarrow> [[0]] | Some s \<Rightarrow> [[1], u64_le (length s), s])"

definition entry_key :: "(byte list \<Rightarrow> byte list) \<Rightarrow> store_key \<Rightarrow> byte list option \<Rightarrow> token list \<Rightarrow> store_key" where
  "entry_key sha identity salt tokens =
     sha (concat ([identity] @ salt_updates salt @ [u64_le (length tokens)] @ map u32_le tokens))"

definition encode_entry ::
  "store_key \<Rightarrow> byte list option \<Rightarrow> token list \<Rightarrow> byte \<Rightarrow> byte list \<Rightarrow> byte list" where
  "encode_entry identity salt tokens role snapshot =
     magic @ u32_le version @ identity @ [role] @
     (case salt of None \<Rightarrow> [0] | Some s \<Rightarrow> [1] @ u64_le (length s) @ s) @
     u64_le (length tokens) @ concat (map u32_le tokens) @
     u64_le (length snapshot) @ snapshot"

record entry_reader =
  er_file :: "byte list"
  er_remaining :: nat

text \<open>\<open>read_exact\<close> fills the buffer from the file or fails with \<open>UnexpectedEof\<close>.\<close>

definition read_exact :: "byte list \<Rightarrow> nat \<Rightarrow> io_error + (byte list \<times> byte list)" where
  "read_exact file n =
     (if length file < n then Inl ''failed to fill whole buffer'' else Inr (take n file, drop n file))"

definition reader_bytes :: "entry_reader \<Rightarrow> nat \<Rightarrow> io_error + (byte list \<times> entry_reader)" where
  "reader_bytes r n =
     (if er_remaining r < n then Inl ''shorter than its header says''
      else if usize_max < n then Inl ''length''
      else case read_exact (er_file r) n of
             Inl e \<Rightarrow> Inl e
           | Inr (buffer, file) \<Rightarrow>
               Inr (buffer, r\<lparr>er_file := file, er_remaining := er_remaining r - n\<rparr>))"

definition reader_u64 :: "entry_reader \<Rightarrow> io_error + (nat \<times> entry_reader)" where
  "reader_u64 r =
     (case reader_bytes r 8 of Inl e \<Rightarrow> Inl e | Inr (b, r') \<Rightarrow> Inr (le_nat b, r'))"

type_synonym entry = "byte list option \<times> token list \<times> byte \<times> byte list option"

definition read_salt :: "entry_reader \<Rightarrow> byte \<Rightarrow> io_error + (byte list option \<times> entry_reader)" where
  "read_salt r flag =
     (if flag = 0 then Inr (None, r)
      else if flag = 1 then
        (case reader_u64 r of
           Inl e \<Rightarrow> Inl e
         | Inr (len, r1) \<Rightarrow>
             (case reader_bytes r1 len of
                Inl e \<Rightarrow> Inl e
              | Inr (s, r2) \<Rightarrow>
                  if utf8_valid s then Inr (Some s, r2) else Inl ''salt is not UTF-8''))
      else Inl ''salt flag'')"

definition read_tokens :: "entry_reader \<Rightarrow> io_error + (token list \<times> entry_reader)" where
  "read_tokens r =
     (case reader_u64 r of
        Inl e \<Rightarrow> Inl e
      | Inr (n, r1) \<Rightarrow>
          (case reader_bytes r1 (saturating_mul_u64 n 4) of
             Inl e \<Rightarrow> Inl e
           | Inr (b, r2) \<Rightarrow> Inr (map (\<lambda>t. word_of_nat (le_nat t)) (chunks_exact 4 b), r2)))"

definition read_snapshot :: "entry_reader \<Rightarrow> bool \<Rightarrow> io_error + byte list option" where
  "read_snapshot r with_snapshot =
     (case reader_u64 r of
        Inl e \<Rightarrow> Inl e
      | Inr (len, r1) \<Rightarrow>
          if len \<noteq> er_remaining r1 then Inl ''length does not match the header''
          else if with_snapshot then
            (case reader_bytes r1 len of Inl e \<Rightarrow> Inl e | Inr (s, _) \<Rightarrow> Inr (Some s))
          else Inr None)"

text \<open>\<open>read_entry\<close> on what opening the path gave: no bytes for a missing file.\<close>

definition read_entry :: "byte list option \<Rightarrow> store_key \<Rightarrow> bool \<Rightarrow> io_error + entry" where
  "read_entry contents identity with_snapshot =
     (case contents of
        None \<Rightarrow> Inl ''No such file''
      | Some file \<Rightarrow>
          (case reader_bytes \<lparr>er_file = file, er_remaining = length file\<rparr> (8 + 4 + 32 + 1 + 1) of
             Inl e \<Rightarrow> Inl e
           | Inr (fixed, r) \<Rightarrow>
               if take 8 fixed \<noteq> magic \<or> take 4 (drop 8 fixed) \<noteq> u32_le version
                 \<or> take 32 (drop 12 fixed) \<noteq> identity
               then Inl ''another format or identity''
               else
                 (case read_salt r (fixed ! 45) of
                    Inl e \<Rightarrow> Inl e
                  | Inr (salt, r1) \<Rightarrow>
                      (case read_tokens r1 of
                         Inl e \<Rightarrow> Inl e
                       | Inr (tokens, r2) \<Rightarrow>
                           (case read_snapshot r2 with_snapshot of
                              Inl e \<Rightarrow> Inl e
                            | Inr snapshot \<Rightarrow> Inr (salt, tokens, fixed ! 44, snapshot))))))"

section \<open>Reading accepts exactly the encodings\<close>

text \<open>A reader over a whole file: what it may still read is what is left.\<close>

definition whole :: "byte list \<Rightarrow> entry_reader" where
  "whole file = \<lparr>er_file = file, er_remaining = length file\<rparr>"

lemma reader_bytes_iff:
  "length file \<le> usize_max \<Longrightarrow>
   reader_bytes (whole file) n = Inr (b, r) \<longleftrightarrow> (\<exists>rest. file = b @ rest \<and> length b = n \<and> r = whole rest)"
  by (auto simp: reader_bytes_def whole_def read_exact_def intro: exI [of _ "drop n file"])

lemma le_nat_u64: "length b = 8 \<Longrightarrow> le_nat b \<le> u64_max"
  using le_nat_bound [of b] by (simp add: u64_max_def)

lemma reader_u64_iff:
  assumes "length file \<le> usize_max"
  shows "reader_u64 (whole file) = Inr (n, r) \<longleftrightarrow>
    n \<le> u64_max \<and> (\<exists>rest. file = u64_le n @ rest \<and> r = whole rest)" (is "?l \<longleftrightarrow> ?r")
proof
  assume ?l
  then obtain b where b: "reader_bytes (whole file) 8 = Inr (b, r)" "n = le_nat b"
    by (auto simp: reader_u64_def split: sum.splits)
  then show ?r using reader_bytes_iff [OF assms] le_nat_u64 u64_le_le_nat by metis
next
  assume ?r
  then obtain rest where "n \<le> u64_max" "file = u64_le n @ rest" "r = whole rest" by auto
  moreover from this have "reader_bytes (whole file) 8 = Inr (u64_le n, r)"
    using reader_bytes_iff [OF assms] by simp
  ultimately show ?l by (simp add: reader_u64_def le_nat_u64_le)
qed

lemma read_tokens_iff:
  assumes "length file \<le> usize_max"
  shows "read_tokens (whole file) = Inr (ts, r) \<longleftrightarrow>
    (\<exists>rest. file = u64_le (length ts) @ tokens_le ts @ rest \<and> r = whole rest)" (is "?l \<longleftrightarrow> ?r")
proof
  assume ?l
  then obtain n r1 b where n: "reader_u64 (whole file) = Inr (n, r1)"
    and b: "reader_bytes r1 (saturating_mul_u64 n 4) = Inr (b, r)"
    and ts: "ts = map (\<lambda>t. word_of_nat (le_nat t)) (chunks_exact 4 b)"
    by (auto simp: read_tokens_def split: sum.splits)
  obtain rest1 where f: "n \<le> u64_max" "file = u64_le n @ rest1" "r1 = whole rest1"
    using n reader_u64_iff [OF assms] by blast
  then have len: "length rest1 < usize_max - 7" using assms by (simp add: usize_max_def)
  then obtain rest where rest: "rest1 = b @ rest" "length b = saturating_mul_u64 n 4" "r = whole rest"
    using b f reader_bytes_iff [of rest1] by auto
  have lb: "length b = 4 * n"
    using rest len by (auto simp: saturating_mul_u64_def u64_max_def usize_max_def min_def split: if_splits)
  have lt: "length ts = n" using ts lb by (simp add: length_chunks_exact)
  have "tokens_le ts = concat (map (\<lambda>t. u32_le (word_of_nat (le_nat t))) (chunks_exact 4 b))"
    using ts by (simp add: tokens_le_def comp_def)
  also have "map (\<lambda>t. u32_le (word_of_nat (le_nat t))) (chunks_exact 4 b) = map (\<lambda>t. t) (chunks_exact 4 b)"
  proof (rule map_cong [OF refl])
    fix t assume "t \<in> set (chunks_exact 4 b)"
    then have t: "length t = 4" by (rule chunks_exact_length)
    then have "unat (word_of_nat (le_nat t) :: token) = le_nat t"
      using le_nat_bound [of t] by (simp add: unat_of_nat)
    then show "u32_le (word_of_nat (le_nat t)) = t" using t by (simp add: u32_le_def le_bytes_le_nat)
  qed
  also have "concat (map (\<lambda>t. t) (chunks_exact 4 b)) = b" using lb by (simp add: concat_chunks_exact)
  finally show ?r using f rest lt by auto
next
  assume ?r
  then obtain rest where f: "file = u64_le (length ts) @ tokens_le ts @ rest" and r: "r = whole rest" by auto
  have len: "length (tokens_le ts @ rest) < usize_max - 7" using assms f by (simp add: usize_max_def)
  then have n: "4 * length ts \<le> u64_max" "length ts \<le> u64_max"
    by (simp_all add: usize_max_def u64_max_def)
  have 1: "reader_u64 (whole file) = Inr (length ts, whole (tokens_le ts @ rest))"
    using reader_u64_iff [OF assms] f n by auto
  have sat: "saturating_mul_u64 (length ts) 4 = length (tokens_le ts)"
    using n by (simp add: saturating_mul_u64_def min_def)
  have 2: "reader_bytes (whole (tokens_le ts @ rest)) (saturating_mul_u64 (length ts) 4) = Inr (tokens_le ts, r)"
    using reader_bytes_iff [of "tokens_le ts @ rest"] len r sat by simp
  have "map (\<lambda>t. word_of_nat (le_nat t)) (chunks_exact 4 (tokens_le ts)) = ts"
    by (induction ts) (simp_all add: chunks_exact_append le_nat_u32_le)
  then show ?l using 1 2 by (simp add: read_tokens_def)
qed

lemma read_salt_iff:
  assumes "length file \<le> usize_max"
  shows "read_salt (whole file) flag = Inr (salt, r) \<longleftrightarrow>
    (case salt of None \<Rightarrow> flag = 0 \<and> r = whole file
     | Some s \<Rightarrow> flag = 1 \<and> utf8_valid s \<and>
         (\<exists>rest. file = u64_le (length s) @ s @ rest \<and> r = whole rest))" (is "?l \<longleftrightarrow> ?r")
proof (cases "flag = 1")
  case False
  then show ?thesis by (auto simp: read_salt_def split: option.splits)
next
  case True
  show ?thesis
  proof
    assume ?l
    then obtain n r1 s where n: "reader_u64 (whole file) = Inr (n, r1)"
      and s: "reader_bytes r1 n = Inr (s, r)" "utf8_valid s" "salt = Some s"
      using True by (auto simp: read_salt_def split: sum.splits if_splits)
    obtain rest1 where f: "file = u64_le n @ rest1" "r1 = whole rest1"
      using n reader_u64_iff [OF assms] by blast
    then have "length rest1 \<le> usize_max" using assms by simp
    then obtain rest where "rest1 = s @ rest" "length s = n" "r = whole rest"
      using s f reader_bytes_iff by auto
    then show ?r using True s f by auto
  next
    assume ?r
    then obtain s rest where s: "salt = Some s" "utf8_valid s"
      and f: "file = u64_le (length s) @ s @ rest" and r: "r = whole rest"
      using True by (auto split: option.splits)
    have len: "length (s @ rest) \<le> usize_max" using assms f by simp
    then have "length s \<le> u64_max" by (simp add: usize_max_def u64_max_def)
    then have "reader_u64 (whole file) = Inr (length s, whole (s @ rest))"
      using reader_u64_iff [OF assms] f by auto
    moreover have "reader_bytes (whole (s @ rest)) (length s) = Inr (s, r)"
      using reader_bytes_iff [OF len] r by auto
    ultimately show ?l using True s by (simp add: read_salt_def)
  qed
qed

lemma read_snapshot_iff:
  assumes "length file \<le> usize_max"
  shows "read_snapshot (whole file) w = Inr snapshot \<longleftrightarrow>
    (\<exists>s. file = u64_le (length s) @ s \<and> snapshot = (if w then Some s else None))" (is "?l \<longleftrightarrow> ?r")
proof
  assume l: ?l
  then obtain n r1 where n: "reader_u64 (whole file) = Inr (n, r1)"
    by (auto simp: read_snapshot_def split: sum.splits)
  obtain rest where f: "file = u64_le n @ rest" "r1 = whole rest"
    using n reader_u64_iff [OF assms] by blast
  have len: "length rest \<le> usize_max" using assms f by simp
  have eq: "n = length rest" using l n f by (auto simp: read_snapshot_def whole_def split: if_splits)
  have "reader_bytes (whole rest) n = Inr (rest, whole [])"
    using reader_bytes_iff [OF len] eq by simp
  then show ?r using l n f eq by (auto simp: read_snapshot_def split: if_splits)
next
  assume ?r
  then obtain s where f: "file = u64_le (length s) @ s" and sn: "snapshot = (if w then Some s else None)"
    by auto
  have len: "length s \<le> usize_max" using assms f by simp
  then have "length s \<le> u64_max" by (simp add: usize_max_def u64_max_def)
  then have "reader_u64 (whole file) = Inr (length s, whole s)"
    using reader_u64_iff [OF assms] f by auto
  moreover have "reader_bytes (whole s) (length s) = Inr (s, whole [])"
    using reader_bytes_iff [OF len] by simp
  ultimately show ?l using sn by (simp add: read_snapshot_def whole_def)
qed

lemma length_magic [simp]: "length magic = 8"
  by (simp add: magic_def)

lemma append3_inj:
  "a @ b @ c @ d = a' @ b' @ c' @ d' \<Longrightarrow> length a = length a' \<Longrightarrow> length b = length b' \<Longrightarrow>
   length c = length c' \<Longrightarrow> a = a' \<and> b = b' \<and> c = c'"
  by simp

text \<open>The fixed part: magic, version, identity, role and the salt flag.\<close>

lemma fixed_part:
  assumes "length f = 46" "length identity = 32"
  shows "take 8 f = magic \<and> take 4 (drop 8 f) = u32_le version \<and> take 32 (drop 12 f) = identity \<longleftrightarrow>
    f = magic @ u32_le version @ identity @ [f ! 44, f ! 45]"
proof -
  have "drop 44 f = [f ! 44, f ! 45]"
    using assms(1) by (simp add: list_eq_iff_nth_eq less_Suc_eq numeral_2_eq_2)
  moreover have "drop 12 f = take 32 (drop 12 f) @ drop 44 f"
    using append_take_drop_id [of 32 "drop 12 f"] by simp
  moreover have "drop 8 f = take 4 (drop 8 f) @ drop 12 f"
    using append_take_drop_id [of 4 "drop 8 f"] by simp
  ultimately have split: "f = take 8 f @ take 4 (drop 8 f) @ take 32 (drop 12 f) @ [f ! 44, f ! 45]"
    by (metis append_take_drop_id)
  have len: "length (take 8 f) = 8" "length (take 4 (drop 8 f)) = 4" "length (take 32 (drop 12 f)) = 32"
    using assms by simp_all
  show ?thesis
  proof
    assume "take 8 f = magic \<and> take 4 (drop 8 f) = u32_le version \<and> take 32 (drop 12 f) = identity"
    then show "f = magic @ u32_le version @ identity @ [f ! 44, f ! 45]" using split by simp
  next
    assume "f = magic @ u32_le version @ identity @ [f ! 44, f ! 45]"
    then have "take 8 f @ take 4 (drop 8 f) @ take 32 (drop 12 f) @ [f ! 44, f ! 45] =
        magic @ u32_le version @ identity @ [f ! 44, f ! 45]" using split by simp
    then show "take 8 f = magic \<and> take 4 (drop 8 f) = u32_le version \<and> take 32 (drop 12 f) = identity"
      using len assms(2) by (intro append3_inj) simp_all
  qed
qed

text \<open>The contents a request may find: any salt that is text.\<close>

definition salt_text :: "byte list option \<Rightarrow> bool" where
  "salt_text salt \<longleftrightarrow> (case salt of None \<Rightarrow> True | Some s \<Rightarrow> utf8_valid s)"

definition salt_field :: "byte list option \<Rightarrow> byte list" where
  "salt_field salt = (case salt of None \<Rightarrow> [0] | Some s \<Rightarrow> [1] @ u64_le (length s) @ s)"

lemma encode_entry_fields:
  "encode_entry identity salt tokens role snapshot =
     (magic @ u32_le version @ identity @ [role]) @ salt_field salt @
     u64_le (length tokens) @ tokens_le tokens @ u64_le (length snapshot) @ snapshot"
  by (simp add: encode_entry_def salt_field_def tokens_le_def)

lemma read_after_fixed:
  assumes "length file \<le> usize_max"
  shows "(\<exists>r1 r2. read_salt (whole file) flag = Inr (salt, r1) \<and> read_tokens r1 = Inr (tokens, r2) \<and>
      read_snapshot r2 w = Inr snapshot) \<longleftrightarrow>
    salt_text salt \<and> (\<exists>s. flag # file = salt_field salt @
        u64_le (length tokens) @ tokens_le tokens @ u64_le (length s) @ s \<and>
        snapshot = (if w then Some s else None))" (is "?l \<longleftrightarrow> ?r")
proof
  assume ?l
  then obtain r1 r2 where r: "read_salt (whole file) flag = Inr (salt, r1)" "read_tokens r1 = Inr (tokens, r2)"
      "read_snapshot r2 w = Inr snapshot" by auto
  obtain rest where rest: "flag # file = salt_field salt @ rest" "r1 = whole rest" "salt_text salt"
    using r(1) read_salt_iff [OF assms]
    by (auto simp: salt_field_def salt_text_def split: option.splits)
  then have len: "length rest \<le> usize_max"
    using assms arg_cong [OF rest(1), of length]
    by (auto simp: salt_field_def split: option.splits)
  then obtain rest2 where rest2: "rest = u64_le (length tokens) @ tokens_le tokens @ rest2" "r2 = whole rest2"
    using r(2) rest read_tokens_iff by blast
  then have "length rest2 \<le> usize_max" using len by simp
  then show ?r using r(3) rest rest2 read_snapshot_iff by auto
next
  assume r: ?r
  then obtain s where s: "flag # file = salt_field salt @ u64_le (length tokens) @ tokens_le tokens @ u64_le (length s) @ s"
    and sn: "snapshot = (if w then Some s else None)" by auto
  define rest where "rest = u64_le (length tokens) @ tokens_le tokens @ u64_le (length s) @ s"
  have 1: "read_salt (whole file) flag = Inr (salt, whole rest)"
    using s r read_salt_iff [OF assms, of flag salt "whole rest"]
    by (auto simp: salt_field_def salt_text_def rest_def split: option.splits)
  have len: "length rest \<le> usize_max"
    using assms arg_cong [OF s, of length]
    by (auto simp: salt_field_def rest_def split: option.splits)
  have 2: "read_tokens (whole rest) = Inr (tokens, whole (u64_le (length s) @ s))"
    using read_tokens_iff [OF len] by (auto simp: rest_def)
  have "length (u64_le (length s) @ s) \<le> usize_max" using len by (simp add: rest_def)
  then have "read_snapshot (whole (u64_le (length s) @ s)) w = Inr snapshot"
    using read_snapshot_iff sn by auto
  then show ?l using 1 2 by auto
qed

lemma encode_append:
  assumes "f = magic @ u32_le version @ identity @ [role, flag]"
  shows "f @ rest = (magic @ u32_le version @ identity @ [role']) @ others \<longleftrightarrow> role' = role \<and> flag # rest = others"
  using assms by auto

lemma length_encode_entry: "length identity = 32 \<Longrightarrow> 46 \<le> length (encode_entry identity salt tokens role snapshot)"
  by (auto simp: encode_entry_def split: option.splits)

lemma read_entry_any_iff:
  assumes id32: "length identity = 32" and len: "length file \<le> usize_max"
  shows "read_entry (Some file) identity w = Inr (salt, tokens, role, snapshot) \<longleftrightarrow>
    salt_text salt \<and> (\<exists>s. file = encode_entry identity salt tokens role s \<and>
       snapshot = (if w then Some s else None))" (is "?l \<longleftrightarrow> ?r")
proof (cases "length file < 46")
  case True
  then show ?thesis using length_encode_entry [OF id32]
    by (auto simp: read_entry_def reader_bytes_def not_less [symmetric])
next
  case False
  define f rest where "f = take 46 file" and "rest = drop 46 file"
  have split: "file = f @ rest" and lf: "length f = 46" using False by (simp_all add: f_def rest_def)
  have lr: "length rest \<le> usize_max" using len by (simp add: rest_def)
  have start: "reader_bytes \<lparr>er_file = file, er_remaining = length file\<rparr> (8 + 4 + 32 + 1 + 1) =
      Inr (f, whole rest)"
    using reader_bytes_iff [OF len, of 46 f "whole rest"] split lf by (simp add: whole_def)
  define ok where "ok \<longleftrightarrow> f = magic @ u32_le version @ identity @ [f ! 44, f ! 45]"
  have fixed: "take 8 f \<noteq> magic \<or> take 4 (drop 8 f) \<noteq> u32_le version \<or> take 32 (drop 12 f) \<noteq> identity \<longleftrightarrow> \<not> ok"
    using fixed_part [OF lf id32] by (auto simp: ok_def)
  have "?l \<longleftrightarrow> ok \<and> role = f ! 44 \<and> (\<exists>r1 r2. read_salt (whole rest) (f ! 45) = Inr (salt, r1) \<and>
      read_tokens r1 = Inr (tokens, r2) \<and> read_snapshot r2 w = Inr snapshot)"
    unfolding read_entry_def option.case start sum.case prod.case fixed
    by (auto split: sum.splits)
  also have "\<dots> \<longleftrightarrow> ok \<and> role = f ! 44 \<and> salt_text salt \<and> (\<exists>s. f ! 45 # rest = salt_field salt @
        u64_le (length tokens) @ tokens_le tokens @ u64_le (length s) @ s \<and>
        snapshot = (if w then Some s else None))"
    using read_after_fixed [OF lr] by blast
  also have "\<dots> \<longleftrightarrow> ?r"
  proof (cases ok)
    case True
    then show ?thesis
      unfolding encode_entry_fields split
      using encode_append [of f identity "f ! 44" "f ! 45" rest role] by (auto simp: ok_def)
  next
    case bad: False
    have "file \<noteq> encode_entry identity salt tokens role s" for s
    proof
      assume eq: "file = encode_entry identity salt tokens role s"
      have "f = take 46 (encode_entry identity salt tokens role s)" using eq by (simp add: f_def)
      also have "\<dots> = magic @ u32_le version @ identity @ [role, if salt = None then 0 else 1]"
        using id32 by (auto simp: encode_entry_def split: option.splits)
      finally have "f = magic @ u32_le version @ identity @ [role, if salt = None then 0 else 1]" .
      moreover from this have "f ! 44 = role" "f ! 45 = (if salt = None then 0 else 1)"
        using id32 by (simp_all add: nth_append)
      ultimately show False using bad by (simp add: ok_def)
    qed
    then show ?thesis using bad by blast
  qed
  finally show ?thesis .
qed

section \<open>Keys\<close>

definition key_bytes :: "store_key \<Rightarrow> byte list option \<Rightarrow> token list \<Rightarrow> byte list" where
  "key_bytes identity salt tokens =
     concat ([identity] @ salt_updates salt @ [u64_le (length tokens)] @ map u32_le tokens)"

lemma entry_key_bytes: "entry_key sha identity salt tokens = sha (key_bytes identity salt tokens)"
  by (simp add: entry_key_def key_bytes_def)

lemma key_bytes_fields:
  "key_bytes identity salt tokens = identity @ salt_field salt @ u64_le (length tokens) @ tokens_le tokens"
  by (auto simp: key_bytes_def salt_updates_def salt_field_def tokens_le_def split: option.splits)

lemma salt_field_append_inj:
  assumes "salt_field a @ as = salt_field b @ bs"
    and "a = Some x \<Longrightarrow> length x \<le> u64_max" "b = Some y \<Longrightarrow> length y \<le> u64_max"
    and "a = Some x \<or> a = None" "b = Some y \<or> b = None"
  shows "a = b \<and> as = bs"
  using assms field_append_inj [of x y as bs]
  by (auto simp: salt_field_def field_def)

text \<open>The hashed bytes tell the salt and the tokens, so that under one identity the keys of two
  prefixes differ unless SHA-256 collides.\<close>

lemma key_bytes_inj:
  assumes "key_bytes identity salt tokens = key_bytes identity salt' tokens'"
    and "\<And>s. salt = Some s \<Longrightarrow> length s \<le> u64_max" "\<And>s. salt' = Some s \<Longrightarrow> length s \<le> u64_max"
    and "length tokens \<le> u64_max" "length tokens' \<le> u64_max"
  shows "salt = salt' \<and> tokens = tokens'"
proof -
  have "salt_field salt @ u64_le (length tokens) @ tokens_le tokens =
      salt_field salt' @ u64_le (length tokens') @ tokens_le tokens'"
    using assms(1) by (simp add: key_bytes_fields)
  then have 1: "salt = salt' \<and> u64_le (length tokens) @ tokens_le tokens = u64_le (length tokens') @ tokens_le tokens'"
    using salt_field_append_inj [where a = salt and b = salt' and x = "the salt" and y = "the salt'"] assms(2,3)
    by (cases salt; cases salt') auto
  then have "tokens_le tokens = tokens_le tokens'"
    using u64_le_inj assms(4,5) by simp
  then show ?thesis using 1 tokens_le_inj by blast
qed

section \<open>The property of the format\<close>

text \<open>C20: The two readers of an entry file accept exactly the encodings of entries under the store's own
  identity, and read back what was encoded: a file that was truncated, extended, damaged in its
  layout or written under another identity or version is refused, and the header-only reader used
  when a store opens agrees with the full one.\<close>

theorem entry_files_are_exactly_the_encodings:
  assumes "length identity = 32" "length bytes \<le> usize_max"
  shows "(read_entry (Some bytes) identity True = Inr (salt, tokens, role, Some snapshot) \<longleftrightarrow>
      bytes = encode_entry identity salt tokens role snapshot \<and> (\<forall>s. salt = Some s \<longrightarrow> utf8_valid s)) \<and>
    (read_entry (Some bytes) identity False = Inr (salt, tokens, role, None) \<longleftrightarrow>
      (\<exists>s. read_entry (Some bytes) identity True = Inr (salt, tokens, role, Some s)))"
  using read_entry_any_iff [OF assms, where w = True] read_entry_any_iff [OF assms, where w = False]
  by (auto simp: salt_text_def split: option.splits)

lemma entry_files_are_exactly_the_encodings_witness:
  "read_entry (Some (encode_entry (replicate 32 7) (Some (ascii ''tenant'')) [5, -1] 2 [9, 8]))
     (replicate 32 7) True = Inr (Some (ascii ''tenant''), [5, -1], 2, Some [9, 8])"
  by (rule entry_files_are_exactly_the_encodings [THEN conjunct1, THEN iffD2])
    (auto simp: encode_entry_def usize_max_def ascii_def)

end
