(* ===== verification/PrefixTheorems.thy ===== *)
theory PrefixTheorems
  imports PrefixStore "HOL-Library.Multiset"
begin

text \<open>
  The lemmas of the prefix store. The first part is about a directory anybody may have
  changed: whatever the files hold, lookups stay safe. The second part runs the store's own steps
  (saves, lookups, the two sections of the writer, crashes and restarts) in every interleaving,
  with the set of everything saved so far, and shows that the files and the index always agree
  with it.
\<close>

section \<open>Names\<close>

lemma hex_concat: "hex bs = concat (map hex_byte bs)"
proof -
  have "foldl (\<lambda>text b. text @ hex_byte b) t bs = t @ concat (map hex_byte bs)" for t
    by (induction bs arbitrary: t) simp_all
  then show ?thesis by (simp add: hex_def)
qed

lemma hex_digit_inj: "i < 16 \<Longrightarrow> j < 16 \<Longrightarrow> hex_digit i = hex_digit j \<longleftrightarrow> i = j"
  by (auto simp: hex_digit_def char_of_eq_iff take_bit_eq_mod split: if_splits)

lemma hex_digit_not_dot: "i < 16 \<Longrightarrow> hex_digit i \<noteq> CHR ''.''"
  by (auto simp: hex_digit_def char_of_eq_iff take_bit_eq_mod split: if_splits)

lemma hex_byte_inj: "hex_byte b = hex_byte c \<longleftrightarrow> b = c"
proof
  assume "hex_byte b = hex_byte c"
  moreover have "unat b div 16 < 16" "unat c div 16 < 16"
    using unat_byte [of b] unat_byte [of c] by simp_all
  ultimately have "unat b div 16 = unat c div 16" "unat b mod 16 = unat c mod 16"
    by (simp_all add: hex_byte_def hex_digit_inj)
  then have "unat b = unat c" by (metis div_mult_mod_eq)
  then show "b = c" by (simp add: word_unat_eq_iff)
qed simp

lemma hex_inj: "hex bs = hex cs \<longleftrightarrow> bs = cs"
proof
  assume "hex bs = hex cs"
  then show "bs = cs"
  proof (induction bs arbitrary: cs)
    case Nil
    then show ?case by (cases cs) (simp_all add: hex_concat hex_byte_def)
  next
    case (Cons b bs)
    then obtain c cs' where cs: "cs = c # cs'" by (cases cs) (auto simp: hex_concat hex_byte_def)
    have "length (hex_byte b) = length (hex_byte c)" by (simp add: hex_byte_def)
    then have "hex_byte b = hex_byte c" "hex bs = hex cs'"
      using Cons.prems cs by (simp_all add: hex_concat)
    then show ?case using Cons.IH cs hex_byte_inj by simp
  qed
qed simp

lemma entry_file_inj: "entry_file k = entry_file k' \<longleftrightarrow> k = k'"
  by (simp add: entry_file_def hex_inj)

lemma entry_file_extension: "k \<noteq> [] \<Longrightarrow> path_extension (entry_file k) = Some entry_extension"
proof -
  assume "k \<noteq> []"
  then have "hex k \<noteq> []" by (cases k) (simp_all add: hex_concat hex_byte_def)
  moreover have "takeWhile (\<lambda>c. c \<noteq> CHR ''.'') (rev (entry_file k)) = rev entry_extension"
    by (simp add: entry_file_def entry_extension_def)
  moreover have "length (entry_file k) = length (hex k) + 4" "take (length (hex k)) (entry_file k) = hex k"
    by (simp_all add: entry_file_def entry_extension_def)
  moreover have "entry_extension \<noteq> entry_file k"
    by (rule notI, drule arg_cong [of _ _ length]) (simp add: entry_file_def entry_extension_def)
  ultimately show ?thesis
    by (auto simp: path_extension_def Let_def entry_extension_def)
qed

lemma entry_file_not_temporary: "k \<noteq> [] \<Longrightarrow> \<not> prefix temporary_prefix (entry_file k)"
proof -
  assume "k \<noteq> []"
  then obtain b bs where k: "k = b # bs" by (cases k) auto
  have "unat b div 16 < 16" using unat_byte [of b] by simp
  then have "hex_digit (unat b div 16) \<noteq> CHR ''.''" by (rule hex_digit_not_dot)
  then show ?thesis
    by (auto simp: temporary_prefix_def entry_file_def hex_concat hex_byte_def k)
qed

lemma temporary_file_prefix: "prefix temporary_prefix (temporary_file pid n)"
  by (simp add: temporary_file_def)

section \<open>Whatever the files hold\<close>

lemma map_of_Some_counted: "counted ix \<Longrightarrow> map_of (ix_entries ix) k = Some e \<longleftrightarrow> (k, e) \<in> set (ix_entries ix)"
  by (simp add: counted_def)

lemma forget_counted:
  assumes ok: "counted ix"
  shows "\<exists>d'. forget ix d key = Some (ix\<lparr>ix_entries := AList.delete key (ix_entries ix),
      ix_used_bytes := entries_bytes (AList.delete key (ix_entries ix))\<rparr>, d') \<and>
    d' = without_files d {x \<in> set (ix_entries ix). fst x = key} \<and>
    counted (ix\<lparr>ix_entries := AList.delete key (ix_entries ix),
      ix_used_bytes := entries_bytes (AList.delete key (ix_entries ix))\<rparr>)"
proof (cases "map_of (ix_entries ix) key")
  case None
  then have same: "AList.delete key (ix_entries ix) = ix_entries ix"
    by (simp add: delete_id map_of_eq_None_iff)
  have none: "{x \<in> set (ix_entries ix). fst x = key} = {}"
    using None by (auto simp: map_of_eq_None_iff) (metis fst_conv image_eqI)
  have "ix\<lparr>ix_entries := ix_entries ix, ix_used_bytes := entries_bytes (ix_entries ix)\<rparr> = ix"
    using ok by (simp add: counted_def)
  moreover have "without_files d {x \<in> set (ix_entries ix). fst x = key} = d"
    unfolding none by (simp add: without_files_def)
  ultimately show ?thesis using None ok same by (simp add: forget_def)
next
  case (Some e)
  then have mem: "(key, e) \<in> set (ix_entries ix)" using ok by (simp add: map_of_Some_counted)
  have "{x \<in> set (ix_entries ix). fst x = key} = {(key, e)}"
    using ok mem by (auto simp: counted_def dest: eq_key_imp_eq_value)
  then show ?thesis
    using Some counted_delete [OF ok mem] by (auto simp: forget_def without_files_def)
qed

text \<open>What a lookup is allowed to return, and what it may do to the index.\<close>

definition found_in ::
  "store_key \<Rightarrow> byte list option \<Rightarrow> token list \<Rightarrow> store_index \<Rightarrow> directory \<Rightarrow> stored_prefix \<Rightarrow> bool" where
  "found_in identity salt prompt ix d sp \<longleftrightarrow>
     prefix (sp_tokens sp) prompt \<and>
     (\<exists>(key, e) \<in> set (ix_entries ix). matches salt prompt e \<and>
        read_entry (d (ie_path e)) identity True =
          Inr (salt, sp_tokens sp, sp_role sp, Some (sp_snapshot sp)))"

lemma update_keys: "map_of es k = Some e0 \<Longrightarrow> map fst (AList.update k e es) = map fst es"
  by (induction es) auto

lemma update_bytes:
  "map_of es k = Some e0 \<Longrightarrow> ie_bytes e = ie_bytes e0 \<Longrightarrow> entries_bytes (AList.update k e es) = entries_bytes es"
  by (induction es) (auto split: if_splits)

lemma update_set:
  "distinct (map fst es) \<Longrightarrow> set (AList.update k e es) = insert (k, e) {x \<in> set es. fst x \<noteq> k}"
proof (induction es)
  case Nil
  then show ?case by simp
next
  case (Cons x xs)
  have "{y \<in> set xs. fst y \<noteq> k} = set xs" if "fst x = k"
    using Cons.prems that by auto (metis fst_conv image_eqI)
  then show ?case using Cons by (cases x) auto
qed

lemma update_subset: "set (AList.update k e es) \<subseteq> insert (k, e) (set es)"
  by (induction es) auto

lemma update_clocks:
  assumes "map_of es k = Some e0" "distinct (map (\<lambda>x. ie_last_used (snd x)) es)"
    and "\<forall>x\<in>set es. ie_last_used (snd x) < ie_last_used e"
  shows "distinct (map (\<lambda>x. ie_last_used (snd x)) (AList.update k e es))"
  using assms
proof (induction es)
  case Nil
  then show ?case by simp
next
  case (Cons x xs)
  have new: "ie_last_used (snd x) \<noteq> ie_last_used e" "\<forall>y\<in>set xs. ie_last_used e \<noteq> ie_last_used (snd y)"
    using Cons.prems(3) by auto
  show ?case
  proof (cases "fst x = k")
    case True
    then show ?thesis using Cons.prems new by (cases x) (auto simp: image_iff)
  next
    case False
    have "set (AList.update k e xs) \<subseteq> insert (k, e) (set xs)"
      by (rule update_subset)
    then show ?thesis using Cons False new by (cases x) (auto simp: image_iff)
  qed
qed

lemma counted_touch:
  assumes ok: "counted ix" and e: "map_of (ix_entries ix) key = Some e" and clock: "clock = ix_clock ix + 1"
  shows "counted (ix\<lparr>ix_clock := clock,
      ix_entries := AList.update key (e\<lparr>ie_last_used := clock\<rparr>) (ix_entries ix)\<rparr>)"
  unfolding counted_def
proof (intro conjI)
  let ?es = "AList.update key (e\<lparr>ie_last_used := clock\<rparr>) (ix_entries ix)"
  have dist: "distinct (map fst (ix_entries ix))" using ok by (simp add: counted_def)
  show "distinct (map fst (ix_entries (ix\<lparr>ix_clock := clock, ix_entries := ?es\<rparr>)))"
    using dist update_keys [OF e] by simp
  show "distinct (map (\<lambda>x. ie_last_used (snd x)) (ix_entries (ix\<lparr>ix_clock := clock, ix_entries := ?es\<rparr>)))"
    using update_clocks [OF e, of "e\<lparr>ie_last_used := clock\<rparr>"] ok clock
    by (auto simp: counted_def less_Suc_eq_le)
  show "\<forall>x\<in>set (ix_entries (ix\<lparr>ix_clock := clock, ix_entries := ?es\<rparr>)).
      ie_last_used (snd x) \<le> ix_clock (ix\<lparr>ix_clock := clock, ix_entries := ?es\<rparr>)"
    using ok clock by (auto simp: counted_def update_set [OF dist])
  show "ix_used_bytes (ix\<lparr>ix_clock := clock, ix_entries := ?es\<rparr>) =
      entries_bytes (ix_entries (ix\<lparr>ix_clock := clock, ix_entries := ?es\<rparr>))"
    using ok update_bytes [OF e, of "e\<lparr>ie_last_used := clock\<rparr>"] by (simp add: counted_def)
qed (use ok in \<open>simp_all add: counted_def\<close>)

text \<open>The candidates are the keys of matching entries, each once, longest first.\<close>

lemma candidates_set:
  "set (candidates ix salt prompt) =
     {(length (ie_tokens e), k) | k e. (k, e) \<in> set (ix_entries ix) \<and> matches salt prompt e}"
  by (force simp: candidates_def)

lemma candidates_sorted: "sorted (rev (candidates ix salt prompt))"
  by (simp add: candidates_def)

lemma candidates_distinct:
  assumes "distinct (map fst (ix_entries ix))"
  shows "distinct (map snd (candidates ix salt prompt))"
proof -
  let ?es = "filter (\<lambda>(key, e). matches salt prompt e) (ix_entries ix)"
  let ?f = "\<lambda>(key, e). (length (ie_tokens e), key)"
  have "distinct (map fst ?es)" using assms by (rule distinct_map_filter)
  then have "distinct (map snd (map ?f ?es))" by (simp add: comp_def case_prod_unfold)
  moreover have "mset (map snd (candidates ix salt prompt)) = mset (map snd (map ?f ?es))"
    by (simp only: candidates_def rev_map [symmetric] mset_rev mset_map mset_sort)
  ultimately show ?thesis by (metis mset_eq_imp_distinct_iff)
qed

lemma lookup_candidates_safe:
  assumes "counted ix" "ix_clock ix < u64_max"
    and "\<forall>(n, k) \<in> set ks. \<exists>e. map_of (ix_entries ix) k = Some e \<and> matches salt prompt e"
    and "distinct (map snd ks)"
  shows "\<exists>hit ix' d'. lookup_candidates identity salt prompt ix d ks = Some (hit, ix', d') \<and> counted ix' \<and>
    ix_budget_bytes ix' = ix_budget_bytes ix \<and> set (map fst (ix_entries ix')) \<subseteq> set (map fst (ix_entries ix)) \<and>
    (\<forall>p b. d' p = Some b \<longrightarrow> d p = Some b) \<and>
    (\<forall>sp. hit = Some sp \<longrightarrow> found_in identity salt prompt ix d sp)"
  using assms
proof (induction ks arbitrary: ix d)
  case Nil
  then show ?case by simp
next
  case (Cons nk ks)
  obtain n k where nk: "nk = (n, k)" by force
  obtain e where e: "map_of (ix_entries ix) k = Some e" "matches salt prompt e"
    using Cons.prems(3) nk by auto
  have mem: "(k, e) \<in> set (ix_entries ix)" using Cons.prems(1) e by (simp add: map_of_Some_counted)
  let ?ix = "ix\<lparr>ix_entries := AList.delete k (ix_entries ix),
      ix_used_bytes := entries_bytes (AList.delete k (ix_entries ix))\<rparr>"
  obtain d1 where d1: "forget ix d k = Some (?ix, d1)" "counted ?ix"
      "d1 = without_files d {x \<in> set (ix_entries ix). fst x = k}"
    using forget_counted [OF Cons.prems(1)] by blast
  have rest: "\<exists>hit ix' d'. lookup_candidates identity salt prompt ?ix d1 ks = Some (hit, ix', d') \<and> counted ix' \<and>
      ix_budget_bytes ix' = ix_budget_bytes ?ix \<and> set (map fst (ix_entries ix')) \<subseteq> set (map fst (ix_entries ?ix)) \<and>
      (\<forall>p b. d' p = Some b \<longrightarrow> d1 p = Some b) \<and>
      (\<forall>sp. hit = Some sp \<longrightarrow> found_in identity salt prompt ?ix d1 sp)"
  proof (rule Cons.IH [OF d1(2)])
    show "ix_clock ?ix < u64_max" using Cons.prems(2) by simp
    show "\<forall>(n, k') \<in> set ks. \<exists>e. map_of (ix_entries ?ix) k' = Some e \<and> matches salt prompt e"
    proof clarify
      fix m k' assume mk: "(m, k') \<in> set ks"
      then have "k' \<noteq> k" using Cons.prems(4) nk by (metis distinct.simps(2) image_eqI list.set_map list.simps(9) snd_conv)
      then show "\<exists>e. map_of (ix_entries ?ix) k' = Some e \<and> matches salt prompt e"
        using Cons.prems(3) mk by (auto simp: delete_conv)
    qed
    show "distinct (map snd ks)" using Cons.prems(4) by simp
  qed
  have weaken: "found_in identity salt prompt ix d sp" if "found_in identity salt prompt ?ix d1 sp" for sp
    using that d1(3)
    by (auto simp: found_in_def delete_filter without_files_def read_entry_def split: if_splits)
  have again: "\<exists>hit ix' d'. (do { (ix, d) \<leftarrow> forget ix d k; lookup_candidates identity salt prompt ix d ks }) = Some (hit, ix', d') \<and> counted ix' \<and>
    ix_budget_bytes ix' = ix_budget_bytes ix \<and> set (map fst (ix_entries ix')) \<subseteq> set (map fst (ix_entries ix)) \<and>
    (\<forall>p b. d' p = Some b \<longrightarrow> d p = Some b) \<and>
    (\<forall>sp. hit = Some sp \<longrightarrow> found_in identity salt prompt ix d sp)"
  proof -
    obtain hit ix' d' where r: "lookup_candidates identity salt prompt ?ix d1 ks = Some (hit, ix', d')" "counted ix'"
      "ix_budget_bytes ix' = ix_budget_bytes ?ix" "set (map fst (ix_entries ix')) \<subseteq> set (map fst (ix_entries ?ix))"
      "\<forall>p b. d' p = Some b \<longrightarrow> d1 p = Some b"
      "\<forall>sp. hit = Some sp \<longrightarrow> found_in identity salt prompt ?ix d1 sp"
      using rest by blast
    have "set (map fst (ix_entries ix')) \<subseteq> set (map fst (ix_entries ix))"
      using r(4) by (auto simp: delete_filter)
    moreover have "\<forall>p b. d' p = Some b \<longrightarrow> d p = Some b"
    proof (intro allI impI)
      fix p b assume "d' p = Some b"
      then have "d1 p = Some b" using r(5) by blast
      then show "d p = Some b" using d1(3) by (simp add: without_files_def split: if_splits)
    qed
    ultimately show ?thesis
      using r(1,2,3,6) weaken by (simp add: d1(1))
  qed
  have go: "lookup_candidates identity salt prompt ix d (nk # ks) =
    (case read_entry (d (ie_path e)) identity True of
       Inr (stored_salt, tokens, role, Some snapshot) \<Rightarrow>
         if stored_salt = salt \<and> prefix tokens prompt then do {
           clock \<leftarrow> checked_add_u64 (ix_clock ix) 1;
           Some (Some \<lparr>sp_tokens = tokens, sp_role = role, sp_snapshot = snapshot\<rparr>,
             ix\<lparr>ix_clock := clock,
                ix_entries := AList.update k (e\<lparr>ie_last_used := clock\<rparr>) (ix_entries ix)\<rparr>, d) }
         else (do { (ix, d) \<leftarrow> forget ix d k; lookup_candidates identity salt prompt ix d ks })
     | _ \<Rightarrow> (do { (ix, d) \<leftarrow> forget ix d k; lookup_candidates identity salt prompt ix d ks }))"
    unfolding nk lookup_candidates.simps using e by (simp add: Let_def)
  show ?case
  proof (cases "\<exists>tokens role snapshot.
      read_entry (d (ie_path e)) identity True = Inr (salt, tokens, role, Some snapshot) \<and> prefix tokens prompt")
    case True
    then obtain tokens role snapshot where
      hit: "read_entry (d (ie_path e)) identity True = Inr (salt, tokens, role, Some snapshot)" "prefix tokens prompt"
      by blast
    let ?ix' = "ix\<lparr>ix_clock := ix_clock ix + 1,
        ix_entries := AList.update k (e\<lparr>ie_last_used := ix_clock ix + 1\<rparr>) (ix_entries ix)\<rparr>"
    have add: "checked_add_u64 (ix_clock ix) 1 = Some (ix_clock ix + 1)"
      using Cons.prems(2) by (simp add: panic_simps)
    have "lookup_candidates identity salt prompt ix d (nk # ks) =
        Some (Some \<lparr>sp_tokens = tokens, sp_role = role, sp_snapshot = snapshot\<rparr>, ?ix', d)"
      unfolding go using hit add by simp
    moreover have "counted ?ix'" by (rule counted_touch [OF Cons.prems(1) e(1) refl])
    moreover have "set (map fst (ix_entries ?ix')) = set (map fst (ix_entries ix))"
      using arg_cong [OF update_keys [OF e(1), of "e\<lparr>ie_last_used := ix_clock ix + 1\<rparr>"], of set] by simp
    moreover have "found_in identity salt prompt ix d \<lparr>sp_tokens = tokens, sp_role = role, sp_snapshot = snapshot\<rparr>"
      unfolding found_in_def using hit mem e(2) by auto
    ultimately show ?thesis by simp
  next
    case False
    then have "lookup_candidates identity salt prompt ix d (nk # ks) =
        (do { (ix, d) \<leftarrow> forget ix d k; lookup_candidates identity salt prompt ix d ks })"
      unfolding go by (auto split: sum.splits prod.splits option.splits)
    then show ?thesis using again by simp
  qed
qed

lemma lookup_safe:
  assumes "counted (ps_index s)" "ix_clock (ps_index s) < u64_max"
  shows "\<exists>hit ix' d'. lookup s salt prompt = Some (hit, s\<lparr>ps_index := ix', ps_dir := d'\<rparr>) \<and> counted ix' \<and>
    ix_budget_bytes ix' = ix_budget_bytes (ps_index s) \<and>
    set (map fst (ix_entries ix')) \<subseteq> set (map fst (ix_entries (ps_index s))) \<and>
    (\<forall>p b. d' p = Some b \<longrightarrow> ps_dir s p = Some b) \<and>
    (\<forall>sp. hit = Some sp \<longrightarrow> found_in (ps_identity s) salt prompt (ps_index s) (ps_dir s) sp)"
proof -
  have "\<forall>(n, k) \<in> set (candidates (ps_index s) salt prompt).
      \<exists>e. map_of (ix_entries (ps_index s)) k = Some e \<and> matches salt prompt e"
    using map_of_Some_counted [OF assms(1)] by (auto simp: candidates_set)
  moreover have "distinct (map snd (candidates (ps_index s) salt prompt))"
    using assms(1) by (intro candidates_distinct) (simp add: counted_def)
  ultimately obtain hit ix' d' where r:
    "lookup_candidates (ps_identity s) salt prompt (ps_index s) (ps_dir s) (candidates (ps_index s) salt prompt)
       = Some (hit, ix', d')" "counted ix'" "ix_budget_bytes ix' = ix_budget_bytes (ps_index s)"
    "set (map fst (ix_entries ix')) \<subseteq> set (map fst (ix_entries (ps_index s)))"
    "\<forall>p b. d' p = Some b \<longrightarrow> ps_dir s p = Some b"
    "\<forall>sp. hit = Some sp \<longrightarrow> found_in (ps_identity s) salt prompt (ps_index s) (ps_dir s) sp"
    using lookup_candidates_safe [OF assms] by blast
  from r(1) have "lookup s salt prompt = Some (hit, s\<lparr>ps_index := ix', ps_dir := d'\<rparr>)"
    by (simp add: lookup_def)
  then show ?thesis using r(2-) by blast
qed

section \<open>The store's own steps\<close>

type_synonym saved = "(byte list option \<times> token list \<times> byte \<times> byte list) set"

definition saved_bytes :: "store_key \<Rightarrow> byte list option \<times> token list \<times> byte \<times> byte list \<Rightarrow> byte list" where
  "saved_bytes identity = (\<lambda>(salt, tokens, role, snapshot). encode_entry identity salt tokens role snapshot)"

text \<open>What a crash may leave of the directory: whole files (any of them may be lost), temporary files
  with any contents, and the file in flight, if its rename happened.\<close>

definition crash_leaves :: "prefix_store \<Rightarrow> directory \<Rightarrow> bool" where
  "crash_leaves s d \<longleftrightarrow> finite (dom d) \<and>
     (\<forall>p b. d p = Some b \<longrightarrow> prefix temporary_prefix p \<or> ps_dir s p = Some b \<or>
       (\<exists>j. ps_writing s = Some j \<and> p = entry_file (wj_key j) \<and> b = job_bytes (ps_identity s) j))"

inductive store_step ::
  "(byte list \<Rightarrow> byte list) \<Rightarrow> byte list \<Rightarrow> nat \<Rightarrow> saved \<times> prefix_store \<Rightarrow> saved \<times> prefix_store \<Rightarrow> bool"
  for sha identity_record pid where
  Save: "save sha s salt tokens role snapshot = (ok, s') \<Longrightarrow> salt_text salt \<Longrightarrow>
    store_step sha identity_record pid (S, s)
      (if ok then insert (salt, tokens, role, snapshot) S else S, s')"
| Lookup: "lookup s salt prompt = Some (hit, s') \<Longrightarrow> store_step sha identity_record pid (S, s) (S, s')"
| Take: "ps_writing s = None \<Longrightarrow> writer_take s = Some s' \<Longrightarrow> store_step sha identity_record pid (S, s) (S, s')"
| Store: "writer_store pid s outcome = Some s' \<Longrightarrow> store_step sha identity_record pid (S, s) (S, s')"
| Restart: "crash_leaves s d \<Longrightarrow> set (map fst names) = dom d \<Longrightarrow> distinct (map fst names) \<Longrightarrow>
    length names \<le> u64_max \<Longrightarrow> budget \<le> max_budget \<Longrightarrow> open_store sha identity_record budget names d = Some s' \<Longrightarrow>
    store_step sha identity_record pid (S, s) (S, s')"

text \<open>Entry files in the directory are whole encodings of something saved, under their own names.\<close>

definition dir_ok :: "(byte list \<Rightarrow> byte list) \<Rightarrow> store_key \<Rightarrow> saved \<Rightarrow> directory \<Rightarrow> bool" where
  "dir_ok sha identity S d \<longleftrightarrow>
     (\<forall>p b. d p = Some b \<longrightarrow> \<not> prefix temporary_prefix p \<longrightarrow> path_extension p = Some entry_extension \<longrightarrow>
       (\<exists>salt tokens role snapshot. (salt, tokens, role, snapshot) \<in> S \<and> salt_text salt \<and>
          p = entry_file (entry_key sha identity salt tokens) \<and>
          b = encode_entry identity salt tokens role snapshot \<and> length b \<le> max_budget))"

definition entry_ok :: "(byte list \<Rightarrow> byte list) \<Rightarrow> store_key \<Rightarrow> saved \<Rightarrow> directory \<Rightarrow> store_key \<times> index_entry \<Rightarrow> bool" where
  "entry_ok sha identity S d x \<longleftrightarrow>
     fst x = entry_key sha identity (ie_salt (snd x)) (ie_tokens (snd x)) \<and>
     ie_path (snd x) = entry_file (fst x) \<and>
     (\<exists>role snapshot. (ie_salt (snd x), ie_tokens (snd x), role, snapshot) \<in> S \<and> salt_text (ie_salt (snd x)) \<and>
        d (ie_path (snd x)) = Some (encode_entry identity (ie_salt (snd x)) (ie_tokens (snd x)) role snapshot) \<and>
        ie_bytes (snd x) = length (encode_entry identity (ie_salt (snd x)) (ie_tokens (snd x)) role snapshot))"

definition entries_ok :: "(byte list \<Rightarrow> byte list) \<Rightarrow> store_key \<Rightarrow> saved \<Rightarrow> store_index \<Rightarrow> directory \<Rightarrow> bool" where
  "entries_ok sha identity S ix d \<longleftrightarrow>
     counted ix \<and> dir_ok sha identity S d \<and> (\<forall>x\<in>set (ix_entries ix). entry_ok sha identity S d x)"

definition job_ok :: "(byte list \<Rightarrow> byte list) \<Rightarrow> store_key \<Rightarrow> saved \<Rightarrow> write_job \<Rightarrow> bool" where
  "job_ok sha identity S j \<longleftrightarrow>
     (wj_salt j, wj_tokens j, wj_role j, wj_snapshot j) \<in> S \<and> salt_text (wj_salt j) \<and>
     wj_key j = entry_key sha identity (wj_salt j) (wj_tokens j)"

definition store_ok :: "(byte list \<Rightarrow> byte list) \<Rightarrow> byte list \<Rightarrow> saved \<Rightarrow> prefix_store \<Rightarrow> bool" where
  "store_ok sha identity_record S s \<longleftrightarrow>
     ps_identity s = sha identity_record \<and>
     entries_ok sha (ps_identity s) S (ps_index s) (ps_dir s) \<and>
     (\<forall>j\<in>set (ps_jobs s). job_ok sha (ps_identity s) S j) \<and>
     (\<forall>j. ps_writing s = Some j \<longrightarrow> job_ok sha (ps_identity s) S j \<and>
        wj_key j \<notin> set (map fst (ix_entries (ps_index s))) \<and>
        length (job_bytes (ps_identity s) j) \<le> ix_budget_bytes (ps_index s))"

lemma entry_ok_mono: "entry_ok sha identity S d x \<Longrightarrow> S \<subseteq> T \<Longrightarrow> entry_ok sha identity T d x"
  unfolding entry_ok_def by blast

lemma dir_ok_mono: "dir_ok sha identity S d \<Longrightarrow> S \<subseteq> T \<Longrightarrow> dir_ok sha identity T d"
  unfolding dir_ok_def by (meson subset_iff)

lemma dir_ok_less: "dir_ok sha identity S d \<Longrightarrow> (\<And>p b. d' p = Some b \<Longrightarrow> prefix temporary_prefix p \<or> d p = Some b) \<Longrightarrow>
    dir_ok sha identity S d'"
  unfolding dir_ok_def by meson

lemma entry_ok_dir: "entry_ok sha identity S d x \<Longrightarrow> d' (ie_path (snd x)) = d (ie_path (snd x)) \<Longrightarrow> entry_ok sha identity S d' x"
proof -
  assume ok: "entry_ok sha identity S d x" and eq: "d' (ie_path (snd x)) = d (ie_path (snd x))"
  from ok show ?thesis unfolding entry_ok_def eq .
qed

text \<open>Dropping entries together with their files keeps the rest.\<close>

lemma entries_ok_drop:
  assumes ok: "entries_ok sha identity S ix d" and sub: "set es \<subseteq> set (ix_entries ix)"
    and cnt: "counted (ix\<lparr>ix_entries := es, ix_used_bytes := used\<rparr>)"
  shows "entries_ok sha identity S (ix\<lparr>ix_entries := es, ix_used_bytes := used\<rparr>)
    (without_files d (set (ix_entries ix) - set es))"
  unfolding entries_ok_def
proof (intro conjI cnt ballI)
  let ?d = "without_files d (set (ix_entries ix) - set es)"
  show "dir_ok sha identity S ?d"
    by (rule dir_ok_less [where d = d]) (use ok in \<open>auto simp: entries_ok_def without_files_def split: if_splits\<close>)
  fix x assume "x \<in> set (ix_entries (ix\<lparr>ix_entries := es, ix_used_bytes := used\<rparr>))"
  then have x: "x \<in> set es" "x \<in> set (ix_entries ix)" using sub by auto
  have paths: "ie_path (snd y) = entry_file (fst y)" if "y \<in> set (ix_entries ix)" for y
    using ok that by (simp add: entries_ok_def entry_ok_def)
  have "ie_path (snd x) \<noteq> ie_path (snd y)" if y: "y \<in> set (ix_entries ix) - set es" for y
  proof
    assume "ie_path (snd x) = ie_path (snd y)"
    then have "fst x = fst y" using paths x(2) y by (simp add: entry_file_inj)
    moreover have "distinct (map fst (ix_entries ix))" using ok by (simp add: entries_ok_def counted_def)
    ultimately have "x = y"
      using x(2) y inj_onD [of fst "set (ix_entries ix)" x y] by (auto simp: distinct_map)
    then show False using x(1) y by simp
  qed
  then have "ie_path (snd x) \<notin> (\<lambda>x. ie_path (snd x)) ` (set (ix_entries ix) - set es)" by blast
  then have same: "?d (ie_path (snd x)) = d (ie_path (snd x))" by (simp add: without_files_def)
  have "entry_ok sha identity S d x" using ok x(2) by (simp add: entries_ok_def)
  from this same show "entry_ok sha identity S ?d x" by (rule entry_ok_dir)
qed

lemma make_room_entries_ok:
  assumes ok: "entries_ok sha identity S ix d" and size: "incoming \<le> max_file"
  shows "\<exists>ix' d'. make_room ix d incoming = Some (ix', d') \<and> entries_ok sha identity S ix' d' \<and>
    ix_budget_bytes ix' = ix_budget_bytes ix \<and> ix_clock ix' = ix_clock ix \<and>
    (ix_used_bytes ix' + incoming \<le> ix_budget_bytes ix \<or> ix_entries ix' = []) \<and>
    set (ix_entries ix') \<subseteq> set (ix_entries ix) \<and>
    (\<forall>p. d' p = d p \<or> d' p = None \<and> (\<exists>x\<in>set (ix_entries ix). ie_path (snd x) = p))"
proof -
  have "counted ix" using ok by (simp add: entries_ok_def)
  then obtain ix' d' where r: "make_room ix d incoming = Some (ix', d')" "room_made ix d incoming ix' d'" "counted ix'"
    using make_room_result size by blast
  then obtain c where ix': "ix' = ix\<lparr>ix_entries := recent c (ix_entries ix),
        ix_used_bytes := entries_bytes (recent c (ix_entries ix))\<rparr>"
    and d': "d' = without_files d (set (ix_entries ix) - set (recent c (ix_entries ix)))"
    and fits: "entries_bytes (recent c (ix_entries ix)) + incoming \<le> ix_budget_bytes ix \<or> recent c (ix_entries ix) = []"
    by (auto simp: room_made_def)
  have sub: "set (recent c (ix_entries ix)) \<subseteq> set (ix_entries ix)" by (auto simp: recent_def)
  have "entries_ok sha identity S ix' d'"
    using entries_ok_drop [OF ok sub] r(3) ix' d' by simp
  moreover have "\<forall>p. d' p = d p \<or> d' p = None \<and> (\<exists>x\<in>set (ix_entries ix). ie_path (snd x) = p)"
    using d' by (auto simp: without_files_def)
  ultimately show ?thesis using r(1) ix' fits sub by (intro exI [of _ ix'] exI [of _ d']) simp
qed

text \<open>A new entry whose file is in place.\<close>

lemma update_new: "k \<notin> set (map fst es) \<Longrightarrow> AList.update k e es = es @ [(k, e)]"
  by (induction es) auto

lemma insert_entry_ok:
  assumes ok: "entries_ok sha identity S ix d" and new: "key \<notin> set (map fst (ix_entries ix))"
    and key: "key = entry_key sha identity salt tokens" "salt_text salt"
    and saved: "(salt, tokens, role, snapshot) \<in> S"
    and placed: "d (entry_file key) = Some (encode_entry identity salt tokens role snapshot)"
    and size: "sz = length (encode_entry identity salt tokens role snapshot)"
    and fits: "ix_used_bytes ix + sz \<le> ix_budget_bytes ix"
    and e: "e = \<lparr>ie_path = entry_file key, ie_tokens = tokens, ie_salt = salt, ie_bytes = sz, ie_last_used = ix_clock ix + 1\<rparr>"
  shows "entries_ok sha identity S
    (ix\<lparr>ix_clock := ix_clock ix + 1, ix_used_bytes := ix_used_bytes ix + sz,
        ix_entries := AList.update key e (ix_entries ix)\<rparr>) d"
proof -
  have cnt: "counted ix" using ok by (simp add: entries_ok_def)
  have "\<forall>x\<in>set (ix_entries ix). ie_last_used (snd x) < ie_last_used e"
    using cnt e by (auto simp: counted_def less_Suc_eq_le)
  then have "counted (ix\<lparr>ix_clock := ix_clock ix + 1, ix_used_bytes := ix_used_bytes ix + sz,
        ix_entries := ix_entries ix @ [(key, e)]\<rparr>)"
    using cnt new e fits by (auto simp: counted_def)
  moreover have "entry_ok sha identity S d (key, e)"
    using key saved placed size e by (auto simp: entry_ok_def)
  ultimately show ?thesis
    using ok new by (auto simp: entries_ok_def update_new)
qed

lemma entries_bytes_member: "(k, e) \<in> set es \<Longrightarrow> ie_bytes e \<le> entries_bytes es"
  by (induction es) (auto simp: trans_le_add2)

lemma key_of: "(k, e) \<in> es \<Longrightarrow> k \<in> fst ` es"
  by force

lemma entries_ok_mono: "entries_ok sha identity S ix d \<Longrightarrow> S \<subseteq> T \<Longrightarrow> entries_ok sha identity T ix d"
  using dir_ok_mono [of sha identity S d T] entry_ok_mono [of sha identity S d _ T]
  by (simp add: entries_ok_def)

text \<open>What the scan of a well-kept directory finds.\<close>

definition found_ok :: "(byte list \<Rightarrow> byte list) \<Rightarrow> store_key \<Rightarrow> saved \<Rightarrow> directory \<Rightarrow> found_entry \<Rightarrow> bool" where
  "found_ok sha identity S d t \<longleftrightarrow>
     (case t of (modified, path, salt, tokens, bytes) \<Rightarrow>
        path = entry_file (entry_key sha identity salt tokens) \<and> salt_text salt \<and>
        (\<exists>role snapshot. (salt, tokens, role, snapshot) \<in> S \<and>
           d path = Some (encode_entry identity salt tokens role snapshot) \<and>
           bytes = length (encode_entry identity salt tokens role snapshot) \<and> bytes \<le> max_budget))"

abbreviation is_entry_file :: "string \<Rightarrow> bool" where
  "is_entry_file p \<equiv> \<not> prefix temporary_prefix p \<and> path_extension p = Some entry_extension"

lemma found_ok_dir:
  assumes "found_ok sha identity S d t" "d' (fst (snd t)) = d (fst (snd t))"
  shows "found_ok sha identity S d' t"
proof -
  obtain modified path salt tokens bytes where t: "t = (modified, path, salt, tokens, bytes)" by (cases t)
  have eq: "d' path = d path" using assms(2) t by simp
  from assms(1) show ?thesis unfolding found_ok_def t prod.case eq .
qed

definition indexed :: "store_index \<Rightarrow> found_entry \<Rightarrow> bool" where
  "indexed ix t \<longleftrightarrow>
     (case t of (modified, path, salt, tokens, bytes) \<Rightarrow>
        \<exists>x\<in>set (ix_entries ix). ie_path (snd x) = path \<and> ie_salt (snd x) = salt \<and> ie_tokens (snd x) = tokens)"

definition found_bytes :: "found_entry \<Rightarrow> nat" where
  "found_bytes t = (case t of (modified, path, salt, tokens, bytes) \<Rightarrow> bytes)"

definition dir_bytes :: "(string \<times> nat) list \<Rightarrow> directory \<Rightarrow> nat" where
  "dir_bytes names d = (\<Sum>p\<leftarrow>filter is_entry_file (map fst names). length (the (d p)))"

section \<open>The steps keep the store\<close>

text \<open>A SHA-256 digest has 32 bytes.\<close>

definition digest32 :: "(byte list \<Rightarrow> byte list) \<Rightarrow> bool" where
  "digest32 sha \<longleftrightarrow> (\<forall>x. length (sha x) = 32)"

lemma digest32_length: "digest32 sha \<Longrightarrow> length (sha x) = 32"
  by (simp add: digest32_def)

lemma key_not_Nil:
  assumes sha: "digest32 sha"
  shows "entry_key sha identity salt tokens \<noteq> []"
proof -
  have "length (entry_key sha identity salt tokens) = 32" by (simp add: entry_key_bytes digest32_length [OF sha])
  then show ?thesis by auto
qed

lemma save_ok:
  assumes ok: "store_ok sha identity_record S s" and step: "save sha s salt tokens role snapshot = (r, s')"
    and utf8: "salt_text salt"
  shows "store_ok sha identity_record (if r then insert (salt, tokens, role, snapshot) S else S) s'"
proof (cases r)
  case False
  then have "s' = s" using step by (auto simp: save_def split: if_splits)
  then show ?thesis using False ok by simp
next
  case True
  let ?T = "insert (salt, tokens, role, snapshot) S"
  have s': "s' = s\<lparr>ps_jobs := ps_jobs s @ [\<lparr>wj_key = entry_key sha (ps_identity s) salt tokens, wj_salt = salt,
      wj_tokens = tokens, wj_role = role, wj_snapshot = snapshot\<rparr>]\<rparr>"
    using True step by (auto simp: save_def split: if_splits)
  have mono: "job_ok sha i S j \<Longrightarrow> job_ok sha i ?T j" for i j by (auto simp: job_ok_def)
  have "entries_ok sha (ps_identity s) ?T (ps_index s) (ps_dir s)"
    by (rule entries_ok_mono [where S = S]) (use ok in \<open>auto simp: store_ok_def\<close>)
  moreover have "job_ok sha (ps_identity s) ?T \<lparr>wj_key = entry_key sha (ps_identity s) salt tokens, wj_salt = salt,
      wj_tokens = tokens, wj_role = role, wj_snapshot = snapshot\<rparr>"
    using utf8 by (simp add: job_ok_def)
  moreover have "\<forall>j\<in>set (ps_jobs s). job_ok sha (ps_identity s) ?T j"
    using ok mono by (auto simp: store_ok_def)
  moreover have "\<forall>j. ps_writing s = Some j \<longrightarrow> job_ok sha (ps_identity s) ?T j \<and>
        wj_key j \<notin> set (map fst (ix_entries (ps_index s))) \<and>
        length (job_bytes (ps_identity s) j) \<le> ix_budget_bytes (ps_index s)"
    using ok mono unfolding store_ok_def by blast
  moreover have "ps_identity s = sha identity_record" using ok by (simp add: store_ok_def)
  ultimately show ?thesis using True unfolding store_ok_def s' by simp
qed

lemma take_ok:
  assumes ok: "store_ok sha identity_record S s" and idle: "ps_writing s = None" and step: "writer_take s = Some s'"
  shows "store_ok sha identity_record S s'"
proof (cases "ps_jobs s")
  case Nil
  then show ?thesis using ok step by (simp add: writer_take_def)
next
  case (Cons j js)
  have "job_ok sha (ps_identity s) S j" using ok Cons by (auto simp: store_ok_def)
  then show ?thesis
    using ok step Cons idle
    by (auto simp: writer_take_def store_ok_def Let_def map_of_eq_None_iff bind_eq_Some_conv
        dest: key_of split: if_splits)
qed

lemma store_write_ok:
  assumes sha: "digest32 sha"
    and ok: "store_ok sha identity_record S s" and step: "writer_store pid s outcome = Some s'"
  shows "store_ok sha identity_record S s'"
proof (cases "ps_writing s")
  case None
  then show ?thesis using ok step by (simp add: writer_store_def)
next
  case (Some j)
  let ?id = "ps_identity s"
  define bytes where "bytes = job_bytes ?id j"
  define path where "path = entry_file (wj_key j)"
  define temporary where "temporary = temporary_file pid (ps_sequence s)"
  have job: "job_ok sha ?id S j" and new: "wj_key j \<notin> set (map fst (ix_entries (ps_index s)))"
    and size: "length bytes \<le> ix_budget_bytes (ps_index s)"
    using ok Some by (auto simp: store_ok_def bytes_def)
  have entries: "entries_ok sha ?id S (ps_index s) (ps_dir s)" using ok by (auto simp: store_ok_def)
  have key: "wj_key j \<noteq> []" using job key_not_Nil [OF sha] by (simp add: job_ok_def)
  have budget: "ix_budget_bytes (ps_index s) \<le> max_budget"
    using entries by (simp add: entries_ok_def counted_def)
  have tp: "prefix temporary_prefix temporary" by (simp add: temporary_def temporary_file_prefix)
  have np: "\<not> prefix temporary_prefix path" unfolding path_def by (rule entry_file_not_temporary [OF key])
  have entry_np: "\<not> prefix temporary_prefix (ie_path (snd x)) \<and> ie_path (snd x) \<noteq> path"
    if "x \<in> set (ix_entries (ps_index s))" for x
  proof -
    have x: "fst x = entry_key sha ?id (ie_salt (snd x)) (ie_tokens (snd x))" "ie_path (snd x) = entry_file (fst x)"
      using entries that by (simp_all add: entries_ok_def entry_ok_def)
    then have "fst x \<noteq> []" using key_not_Nil [OF sha] by simp
    moreover have "fst x \<noteq> wj_key j" using new imageI [OF that, of fst] by (metis list.set_map)
    ultimately show ?thesis using x(2) entry_file_not_temporary by (simp add: path_def entry_file_inj)
  qed
  have temp_only: "entries_ok sha ?id S (ps_index s) ((ps_dir s)(temporary := partial))" for partial
    unfolding entries_ok_def
  proof (intro conjI ballI)
    show "counted (ps_index s)" using entries by (simp add: entries_ok_def)
    show "dir_ok sha ?id S ((ps_dir s)(temporary := partial))"
      by (rule dir_ok_less [where d = "ps_dir s"]) (use entries tp in \<open>auto simp: entries_ok_def split: if_splits\<close>)
    fix x assume x: "x \<in> set (ix_entries (ps_index s))"
    then have eo: "entry_ok sha ?id S (ps_dir s) x" using entries by (simp add: entries_ok_def)
    have "ie_path (snd x) \<noteq> temporary" using entry_np [OF x] tp by auto
    then show "entry_ok sha ?id S ((ps_dir s)(temporary := partial)) x"
      by (intro entry_ok_dir [OF eo]) simp
  qed
  have placed: "entries_ok sha ?id S (ps_index s) ((ps_dir s)(temporary := None, path \<mapsto> bytes))"
    unfolding entries_ok_def
  proof (intro conjI ballI)
    show "counted (ps_index s)" using entries by (simp add: entries_ok_def)
    have "(wj_salt j, wj_tokens j, wj_role j, wj_snapshot j) \<in> S \<and> salt_text (wj_salt j) \<and>
       path = entry_file (entry_key sha ?id (wj_salt j) (wj_tokens j)) \<and>
       bytes = encode_entry ?id (wj_salt j) (wj_tokens j) (wj_role j) (wj_snapshot j) \<and> length bytes \<le> max_budget"
      using job size budget by (simp add: job_ok_def path_def bytes_def job_bytes_def)
    then show "dir_ok sha ?id S ((ps_dir s)(temporary := None, path \<mapsto> bytes))"
      using temp_only [of None] unfolding entries_ok_def dir_ok_def by (metis fun_upd_apply option.inject)
    fix x assume x: "x \<in> set (ix_entries (ps_index s))"
    then have eo: "entry_ok sha ?id S ((ps_dir s)(temporary := None)) x"
      using temp_only [of None] by (simp add: entries_ok_def)
    show "entry_ok sha ?id S ((ps_dir s)(temporary := None, path \<mapsto> bytes)) x"
      by (rule entry_ok_dir [OF eo]) (use entry_np [OF x] in simp)
  qed
  show ?thesis
  proof (cases outcome)
    case (NotRenamed partial)
    then have "s' = s\<lparr>ps_writing := None, ps_dir := (ps_dir s)(temporary := None)\<rparr>"
      using step Some by (simp add: writer_store_def Let_def write_atomically_def temporary_def)
    then show ?thesis using ok temp_only [of None] by (auto simp: store_ok_def)
  next
    case NotSynced
    then have "s' = s\<lparr>ps_writing := None, ps_dir := ((ps_dir s)(temporary := None, path \<mapsto> bytes))(temporary := None)\<rparr>"
      using step Some by (simp add: writer_store_def Let_def write_atomically_def temporary_def path_def bytes_def)
    moreover have "((ps_dir s)(temporary := None, path \<mapsto> bytes))(temporary := None) =
        (ps_dir s)(temporary := None, path \<mapsto> bytes)"
      using tp np by (auto simp: fun_eq_iff)
    ultimately show ?thesis using ok placed by (auto simp: store_ok_def)
  next
    case Written
    have "length bytes \<le> max_file" using size budget by (simp add: max_budget_def max_file_def)
    then obtain ix' d' where mr: "make_room (ps_index s) ((ps_dir s)(temporary := None, path \<mapsto> bytes)) (length bytes) = Some (ix', d')"
      and ok': "entries_ok sha ?id S ix' d'" and same: "ix_budget_bytes ix' = ix_budget_bytes (ps_index s)"
      and fits: "ix_used_bytes ix' + length bytes \<le> ix_budget_bytes (ps_index s) \<or> ix_entries ix' = []"
      and sub: "set (ix_entries ix') \<subseteq> set (ix_entries (ps_index s))"
      and dir: "\<forall>p. d' p = ((ps_dir s)(temporary := None, path \<mapsto> bytes)) p \<or> d' p = None \<and>
        (\<exists>x\<in>set (ix_entries (ps_index s)). ie_path (snd x) = p)"
      using make_room_entries_ok [OF placed] by blast
    have in_place: "d' path = Some bytes" using dir [rule_format, of path] entry_np by auto
    have fits': "ix_used_bytes ix' + length bytes \<le> ix_budget_bytes ix'"
      using fits same size ok' by (auto simp: entries_ok_def counted_def)
    have new': "wj_key j \<notin> set (map fst (ix_entries ix'))" using new sub by auto
    have "s' = s\<lparr>ps_writing := None, ps_index := ix'\<lparr>ix_clock := ix_clock ix' + 1,
        ix_used_bytes := ix_used_bytes ix' + length bytes,
        ix_entries := AList.update (wj_key j) \<lparr>ie_path = entry_file (wj_key j), ie_tokens = wj_tokens j,
          ie_salt = wj_salt j, ie_bytes = length bytes, ie_last_used = ix_clock ix' + 1\<rparr> (ix_entries ix')\<rparr>, ps_dir := d'\<rparr>"
      using step Some Written mr
      by (simp add: writer_store_def Let_def write_atomically_def temporary_def path_def bytes_def
          panic_simps bind_eq_Some_conv)
    moreover have "entries_ok sha ?id S (ix'\<lparr>ix_clock := ix_clock ix' + 1,
        ix_used_bytes := ix_used_bytes ix' + length bytes,
        ix_entries := AList.update (wj_key j) \<lparr>ie_path = entry_file (wj_key j), ie_tokens = wj_tokens j,
          ie_salt = wj_salt j, ie_bytes = length bytes, ie_last_used = ix_clock ix' + 1\<rparr> (ix_entries ix')\<rparr>) d'"
      by (rule insert_entry_ok [OF ok' new' _ _ _ _ _ fits' refl])
        (use job in_place in \<open>auto simp: job_ok_def path_def bytes_def job_bytes_def\<close>)
    ultimately show ?thesis using ok by (auto simp: store_ok_def)
  qed
qed

lemma entry_readable:
  assumes sha: "digest32 sha"
    and ok: "entries_ok sha (sha identity_record) S ix d" and x: "(k, e) \<in> set (ix_entries ix)"
  shows "\<exists>role snapshot. (ie_salt e, ie_tokens e, role, snapshot) \<in> S \<and>
    read_entry (d (ie_path e)) (sha identity_record) True = Inr (ie_salt e, ie_tokens e, role, Some snapshot)"
proof -
  let ?id = "sha identity_record"
  obtain role snapshot where r: "(ie_salt e, ie_tokens e, role, snapshot) \<in> S" "salt_text (ie_salt e)"
    "d (ie_path e) = Some (encode_entry ?id (ie_salt e) (ie_tokens e) role snapshot)"
    "ie_bytes e = length (encode_entry ?id (ie_salt e) (ie_tokens e) role snapshot)"
    using ok x by (auto simp: entries_ok_def entry_ok_def)
  have "ie_bytes e \<le> entries_bytes (ix_entries ix)"
    using x by (rule entries_bytes_member)
  also have "\<dots> \<le> max_budget" using ok by (simp add: entries_ok_def counted_def)
  finally have "length (encode_entry ?id (ie_salt e) (ie_tokens e) role snapshot) \<le> usize_max"
    using r(4) by (simp add: max_budget_def usize_max_def)
  then have "read_entry (d (ie_path e)) ?id True = Inr (ie_salt e, ie_tokens e, role, Some snapshot)"
    unfolding r(3) using read_entry_any_iff [where w = True] digest32_length [OF sha] r(2) by auto
  then show ?thesis using r(1) by blast
qed

lemma entry_ok_touch: "entry_ok sha identity S d (k, e\<lparr>ie_last_used := t\<rparr>) \<longleftrightarrow> entry_ok sha identity S d (k, e)"
  by (simp add: entry_ok_def)

lemma touch_ok:
  assumes ok: "entries_ok sha identity S ix d" and e: "map_of (ix_entries ix) k = Some e"
  shows "entries_ok sha identity S (ix\<lparr>ix_clock := ix_clock ix + 1,
      ix_entries := AList.update k (e\<lparr>ie_last_used := ix_clock ix + 1\<rparr>) (ix_entries ix)\<rparr>) d"
proof -
  have cnt: "counted ix" using ok by (simp add: entries_ok_def)
  then have dist: "distinct (map fst (ix_entries ix))" by (simp add: counted_def)
  have "(k, e) \<in> set (ix_entries ix)" using e dist by simp
  then have "entry_ok sha identity S d (k, e)" using ok by (simp add: entries_ok_def)
  then have "entry_ok sha identity S d (k, e\<lparr>ie_last_used := ix_clock ix + 1\<rparr>)"
    by (simp only: entry_ok_touch)
  then show ?thesis
    using ok counted_touch [OF cnt e refl] by (auto simp: entries_ok_def update_set [OF dist])
qed

text \<open>With the files in place the first candidate answers.\<close>

lemma lookup_first:
  assumes sha: "digest32 sha"
    and ok: "store_ok sha identity_record S s" and clock: "ix_clock (ps_index s) < u64_max"
    and c: "candidates (ps_index s) salt prompt = (n, k) # rest"
  shows "\<exists>e role snapshot. map_of (ix_entries (ps_index s)) k = Some e \<and> matches salt prompt e \<and>
    n = length (ie_tokens e) \<and> (salt, ie_tokens e, role, snapshot) \<in> S \<and>
    lookup s salt prompt = Some (Some \<lparr>sp_tokens = ie_tokens e, sp_role = role, sp_snapshot = snapshot\<rparr>,
      s\<lparr>ps_index := (ps_index s)\<lparr>ix_clock := ix_clock (ps_index s) + 1,
          ix_entries := AList.update k (e\<lparr>ie_last_used := ix_clock (ps_index s) + 1\<rparr>)
            (ix_entries (ps_index s))\<rparr>\<rparr>)"
proof -
  have id_eq: "ps_identity s = sha identity_record"
    and entries: "entries_ok sha (sha identity_record) S (ps_index s) (ps_dir s)"
    using ok by (auto simp: store_ok_def)
  have "(n, k) \<in> set (candidates (ps_index s) salt prompt)" by (simp add: c)
  then obtain e where e: "(k, e) \<in> set (ix_entries (ps_index s))" "matches salt prompt e" "n = length (ie_tokens e)"
    by (auto simp: candidates_set)
  then have got: "map_of (ix_entries (ps_index s)) k = Some e"
    using entries by (simp add: entries_ok_def map_of_Some_counted)
  obtain role snapshot where r: "(ie_salt e, ie_tokens e, role, snapshot) \<in> S"
    "read_entry (ps_dir s (ie_path e)) (sha identity_record) True = Inr (ie_salt e, ie_tokens e, role, Some snapshot)"
    using entry_readable [OF sha entries e(1)] by blast
  have salt: "ie_salt e = salt" "prefix (ie_tokens e) prompt" using e(2) by (simp_all add: matches_def)
  have "checked_add_u64 (ix_clock (ps_index s)) 1 = Some (ix_clock (ps_index s) + 1)"
    using clock by (simp add: panic_simps)
  then have "lookup_candidates (ps_identity s) salt prompt (ps_index s) (ps_dir s) ((n, k) # rest) =
      Some (Some \<lparr>sp_tokens = ie_tokens e, sp_role = role, sp_snapshot = snapshot\<rparr>,
        (ps_index s)\<lparr>ix_clock := ix_clock (ps_index s) + 1,
          ix_entries := AList.update k (e\<lparr>ie_last_used := ix_clock (ps_index s) + 1\<rparr>) (ix_entries (ps_index s))\<rparr>,
        ps_dir s)"
    using got r(2) salt by (simp add: id_eq)
  then have "lookup s salt prompt = Some (Some \<lparr>sp_tokens = ie_tokens e, sp_role = role, sp_snapshot = snapshot\<rparr>,
      s\<lparr>ps_index := (ps_index s)\<lparr>ix_clock := ix_clock (ps_index s) + 1,
          ix_entries := AList.update k (e\<lparr>ie_last_used := ix_clock (ps_index s) + 1\<rparr>)
            (ix_entries (ps_index s))\<rparr>\<rparr>)"
    by (simp add: lookup_def c)
  then show ?thesis using got e r(1) salt by blast
qed

lemma lookup_nothing: "candidates (ps_index s) salt prompt = [] \<Longrightarrow> lookup s salt prompt = Some (None, s)"
  by (simp add: lookup_def)

lemma lookup_ok:
  assumes sha: "digest32 sha"
    and ok: "store_ok sha identity_record S s" and step: "lookup s salt prompt = Some (hit, s')"
  shows "store_ok sha identity_record S s' \<and>
    (\<forall>sp. hit = Some sp \<longrightarrow> (salt, sp_tokens sp, sp_role sp, sp_snapshot sp) \<in> S)"
proof (cases "candidates (ps_index s) salt prompt")
  case Nil
  then show ?thesis using lookup_nothing ok step by simp
next
  case (Cons nk rest)
  obtain n k where nk: "nk = (n, k)" by force
  have entries: "entries_ok sha (sha identity_record) S (ps_index s) (ps_dir s)"
    and id_eq: "ps_identity s = sha identity_record" using ok by (auto simp: store_ok_def)
  have clock: "ix_clock (ps_index s) < u64_max"
  proof (rule ccontr)
    assume full: "\<not> ix_clock (ps_index s) < u64_max"
    have "(n, k) \<in> set (candidates (ps_index s) salt prompt)" by (simp add: Cons nk)
    then obtain e where e: "(k, e) \<in> set (ix_entries (ps_index s))" "matches salt prompt e"
      by (auto simp: candidates_set)
    then have "map_of (ix_entries (ps_index s)) k = Some e"
      using entries by (simp add: entries_ok_def map_of_Some_counted)
    moreover obtain role snapshot where
      "read_entry (ps_dir s (ie_path e)) (sha identity_record) True = Inr (ie_salt e, ie_tokens e, role, Some snapshot)"
      using entry_readable [OF sha entries e(1)] by blast
    moreover have "checked_add_u64 (ix_clock (ps_index s)) (Suc 0) = None"
      using full by (simp add: checked_add_u64_def)
    ultimately show False using step e(2)
      by (simp add: lookup_def Cons nk id_eq matches_def)
  qed
  obtain e role snapshot where r: "map_of (ix_entries (ps_index s)) k = Some e"
    "(salt, ie_tokens e, role, snapshot) \<in> S"
    and l: "lookup s salt prompt = Some (Some \<lparr>sp_tokens = ie_tokens e, sp_role = role, sp_snapshot = snapshot\<rparr>,
      s\<lparr>ps_index := (ps_index s)\<lparr>ix_clock := ix_clock (ps_index s) + 1,
          ix_entries := AList.update k (e\<lparr>ie_last_used := ix_clock (ps_index s) + 1\<rparr>)
            (ix_entries (ps_index s))\<rparr>\<rparr>)"
    using lookup_first [OF sha ok clock] Cons nk by blast
  have keys: "map fst (AList.update k (e\<lparr>ie_last_used := Suc (ix_clock (ps_index s))\<rparr>) (ix_entries (ps_index s))) =
      map fst (ix_entries (ps_index s))"
    using update_keys [OF r(1)] .
  have same: "ps_identity s' = ps_identity s" "ps_jobs s' = ps_jobs s" "ps_writing s' = ps_writing s"
    "ps_dir s' = ps_dir s" "ix_budget_bytes (ps_index s') = ix_budget_bytes (ps_index s)"
    using step l by auto
  have keys': "map fst (ix_entries (ps_index s')) = map fst (ix_entries (ps_index s))"
    using step l keys by auto
  have "entries_ok sha (ps_identity s) S (ps_index s') (ps_dir s)"
    using step l touch_ok [OF entries r(1)] id_eq by auto
  then have "store_ok sha identity_record S s'"
    using ok unfolding store_ok_def same keys' by blast
  then show ?thesis using step l r(2) by auto
qed

lemma scan_result:
  assumes sha: "digest32 sha"
    and "dir_ok sha (sha rec) S d" "set (map fst names) \<subseteq> dom d" "distinct (map fst names)"
    and "\<forall>t\<in>set found. found_ok sha (sha rec) S d t \<and> is_entry_file (fst (snd t))"
  shows "\<exists>found'. open_scan (sha rec) d names found =
      (found', \<lambda>p. if p \<in> set (map fst names) \<and> prefix temporary_prefix p then None else d p) \<and>
    (\<forall>t\<in>set found'. found_ok sha (sha rec) S d t \<and> is_entry_file (fst (snd t))) \<and>
    map (fst \<circ> snd) found' = map (fst \<circ> snd) found @ filter is_entry_file (map fst names)"
  using assms(2-)
proof (induction names arbitrary: d found)
  case Nil
  then show ?case by simp
next
  case (Cons nm names)
  obtain name modified where nm: "nm = (name, modified)" by force
  have dist: "distinct (map fst names)" using Cons.prems(3) by simp
  have names: "set (map fst names) \<subseteq> dom d" using Cons.prems(2) by simp
  consider (temp) "prefix temporary_prefix name" | (other) "\<not> prefix temporary_prefix name" "path_extension name \<noteq> Some entry_extension"
    | (entry) "is_entry_file name" by blast
  then show ?case
  proof cases
    case temp
    have dok: "dir_ok sha (sha rec) S (d(name := None))"
      by (rule dir_ok_less [OF Cons.prems(1)]) (auto split: if_splits)
    have dom: "set (map fst names) \<subseteq> dom (d(name := None))" using Cons.prems(2,3) nm by auto
    have fok: "\<forall>t\<in>set found. found_ok sha (sha rec) S (d(name := None)) t \<and> is_entry_file (fst (snd t))"
    proof
      fix t assume "t \<in> set found"
      then have t: "found_ok sha (sha rec) S d t \<and> is_entry_file (fst (snd t))" using Cons.prems(4) by blast
      then have "fst (snd t) \<noteq> name" using temp by auto
      then show "found_ok sha (sha rec) S (d(name := None)) t \<and> is_entry_file (fst (snd t))"
        using t found_ok_dir [of sha "sha rec" S d t "d(name := None)"] by simp
    qed
    obtain found' where r: "open_scan (sha rec) (d(name := None)) names found =
      (found', \<lambda>p. if p \<in> set (map fst names) \<and> prefix temporary_prefix p then None else (d(name := None)) p)"
      "\<forall>t\<in>set found'. found_ok sha (sha rec) S (d(name := None)) t \<and> is_entry_file (fst (snd t))"
      "map (fst \<circ> snd) found' = map (fst \<circ> snd) found @ filter is_entry_file (map fst names)"
      using Cons.IH [OF dok dom dist fok] by blast
    have "\<forall>t\<in>set found'. found_ok sha (sha rec) S d t \<and> is_entry_file (fst (snd t))"
    proof
      fix t assume "t \<in> set found'"
      then have t: "found_ok sha (sha rec) S (d(name := None)) t \<and> is_entry_file (fst (snd t))" using r(2) by blast
      then have "fst (snd t) \<noteq> name" using temp by auto
      then show "found_ok sha (sha rec) S d t \<and> is_entry_file (fst (snd t))"
        using t found_ok_dir [of sha "sha rec" S "d(name := None)" t d] by simp
    qed
    moreover have "(\<lambda>p. if p \<in> set (map fst names) \<and> prefix temporary_prefix p then None else (d(name := None)) p) =
        (\<lambda>p. if p \<in> set (map fst (nm # names)) \<and> prefix temporary_prefix p then None else d p)"
      using temp nm by (auto simp: fun_eq_iff)
    ultimately show ?thesis using r(1,3) temp nm by (intro exI [of _ found']) (simp add: comp_def)
  next
    case other
    obtain found' where r: "open_scan (sha rec) d names found =
      (found', \<lambda>p. if p \<in> set (map fst names) \<and> prefix temporary_prefix p then None else d p)"
      "\<forall>t\<in>set found'. found_ok sha (sha rec) S d t \<and> is_entry_file (fst (snd t))"
      "map (fst \<circ> snd) found' = map (fst \<circ> snd) found @ filter is_entry_file (map fst names)"
      using Cons.IH [OF Cons.prems(1) names dist Cons.prems(4)] by blast
    moreover have "(\<lambda>p. if p \<in> set (map fst names) \<and> prefix temporary_prefix p then None else d p) =
        (\<lambda>p. if p \<in> set (map fst (nm # names)) \<and> prefix temporary_prefix p then None else d p)"
      using other nm by (auto simp: fun_eq_iff)
    ultimately show ?thesis using other nm by (intro exI [of _ found']) (simp add: comp_def)
  next
    case entry
    obtain b where b: "d name = Some b" using Cons.prems(2) nm by auto
    obtain salt tokens role snapshot where e: "(salt, tokens, role, snapshot) \<in> S" "salt_text salt"
      "name = entry_file (entry_key sha (sha rec) salt tokens)"
      "b = encode_entry (sha rec) salt tokens role snapshot" "length b \<le> max_budget"
      using Cons.prems(1) b entry unfolding dir_ok_def by metis
    have "length b \<le> usize_max" using e(5) by (simp add: max_budget_def usize_max_def)
    then have read: "read_entry (d name) (sha rec) False = Inr (salt, tokens, role, None)"
      unfolding b using read_entry_any_iff [where w = False] digest32_length [OF sha] e by auto
    let ?t = "(modified, name, salt, tokens, length b)"
    have t: "found_ok sha (sha rec) S d ?t"
      unfolding found_ok_def using e b by auto
    have found: "\<forall>t\<in>set (found @ [?t]). found_ok sha (sha rec) S d t \<and> is_entry_file (fst (snd t))"
      using t entry Cons.prems(4) by auto
    obtain found' where r: "open_scan (sha rec) d names (found @ [?t]) =
      (found', \<lambda>p. if p \<in> set (map fst names) \<and> prefix temporary_prefix p then None else d p)"
      "\<forall>t\<in>set found'. found_ok sha (sha rec) S d t \<and> is_entry_file (fst (snd t))"
      "map (fst \<circ> snd) found' = map (fst \<circ> snd) (found @ [?t]) @ filter is_entry_file (map fst names)"
      using Cons.IH [OF Cons.prems(1) names dist found] by blast
    moreover have "(\<lambda>p. if p \<in> set (map fst names) \<and> prefix temporary_prefix p then None else d p) =
        (\<lambda>p. if p \<in> set (map fst (nm # names)) \<and> prefix temporary_prefix p then None else d p)"
      using entry nm by (auto simp: fun_eq_iff)
    moreover have "open_scan (sha rec) d (nm # names) found = open_scan (sha rec) d names (found @ [?t])"
      using entry read b by (simp add: nm)
    ultimately show ?thesis using entry nm by (intro exI [of _ found']) (simp add: comp_def)
  qed
qed

lemma make_room_fits:
  "counted ix \<Longrightarrow> ix_used_bytes ix + incoming \<le> ix_budget_bytes ix \<Longrightarrow> make_room ix d incoming = Some (ix, d)"
  by (subst make_room.simps)
    (simp add: counted_def checked_add_u64_def max_budget_def u64_max_def)

lemma insert_result:
  assumes "entries_ok sha identity S ix d" "ix_clock ix + length found \<le> u64_max"
    and "\<forall>t\<in>set found. found_ok sha identity S d t" "distinct (map (fst \<circ> snd) found)"
    and "\<forall>t\<in>set found. \<forall>x\<in>set (ix_entries ix). ie_path (snd x) \<noteq> fst (snd t)"
  shows "\<exists>ix' d'. open_insert sha identity ix d found = Some (ix', d') \<and> entries_ok sha identity S ix' d' \<and>
    (ix_used_bytes ix + (\<Sum>t\<leftarrow>found. found_bytes t) \<le> ix_budget_bytes ix \<longrightarrow>
       d' = d \<and> set (ix_entries ix) \<subseteq> set (ix_entries ix') \<and> (\<forall>t\<in>set found. indexed ix' t))"
  using assms
proof (induction found arbitrary: ix d)
  case Nil
  then show ?case by simp
next
  case (Cons t found)
  obtain modified path salt tokens bytes where t: "t = (modified, path, salt, tokens, bytes)" by (cases t)
  obtain role snapshot where f: "path = entry_file (entry_key sha identity salt tokens)" "salt_text salt"
    "(salt, tokens, role, snapshot) \<in> S" "d path = Some (encode_entry identity salt tokens role snapshot)"
    "bytes = length (encode_entry identity salt tokens role snapshot)" "bytes \<le> max_budget"
    using Cons.prems(3) t by (auto simp: found_ok_def)
  have cnt: "counted ix" using Cons.prems(1) by (simp add: entries_ok_def)
  have "bytes \<le> max_file" using f(6) by (simp add: max_budget_def max_file_def)
  then obtain ix1 d1 where m: "make_room ix d bytes = Some (ix1, d1)"
    and ok1: "entries_ok sha identity S ix1 d1" and same: "ix_budget_bytes ix1 = ix_budget_bytes ix" "ix_clock ix1 = ix_clock ix"
    and fits: "ix_used_bytes ix1 + bytes \<le> ix_budget_bytes ix \<or> ix_entries ix1 = []"
    and sub: "set (ix_entries ix1) \<subseteq> set (ix_entries ix)"
    and dir: "\<forall>p. d1 p = d p \<or> d1 p = None \<and> (\<exists>x\<in>set (ix_entries ix). ie_path (snd x) = p)"
    using make_room_entries_ok [OF Cons.prems(1)] by blast
  have files: "d1 (fst (snd t')) = d (fst (snd t'))" if "t' \<in> set (t # found)" for t'
    using dir Cons.prems(5) that by blast
  have f1: "\<forall>t\<in>set found. found_ok sha identity S d1 t"
  proof
    fix t' assume t': "t' \<in> set found"
    show "found_ok sha identity S d1 t'"
      by (rule found_ok_dir [where d = d]) (use Cons.prems(3) files t' in simp_all)
  qed
  have paths: "fst (snd t') \<noteq> path" if "t' \<in> set found" for t'
    using Cons.prems(4) t that by force
  have dist: "distinct (map (fst \<circ> snd) found)" using Cons.prems(4) by (simp add: comp_def)
  show ?case
  proof (cases "ix_budget_bytes ix < bytes")
    case True
    have ok2: "entries_ok sha identity S ix1 (d1(path := None))"
      unfolding entries_ok_def
    proof (intro conjI ballI)
      show "counted ix1" using ok1 by (simp add: entries_ok_def)
      show "dir_ok sha identity S (d1(path := None))"
        by (rule dir_ok_less [where d = d1]) (use ok1 in \<open>auto simp: entries_ok_def split: if_splits\<close>)
      fix x assume x: "x \<in> set (ix_entries ix1)"
      then have "ie_path (snd x) \<noteq> path" using sub Cons.prems(5) t by auto
      then show "entry_ok sha identity S (d1(path := None)) x"
        using x ok1 by (intro entry_ok_dir [where d = d1 and d' = "d1(path := None)"]) (simp_all add: entries_ok_def)
    qed
    have f2: "\<forall>t\<in>set found. found_ok sha identity S (d1(path := None)) t"
    proof
      fix t' assume t': "t' \<in> set found"
      show "found_ok sha identity S (d1(path := None)) t'"
        by (rule found_ok_dir [where d = d1]) (use f1 paths t' in simp_all)
    qed
    have clock1: "ix_clock ix1 + length found \<le> u64_max" using Cons.prems(2) same by simp
    have disj1: "\<forall>t\<in>set found. \<forall>x\<in>set (ix_entries ix1). ie_path (snd x) \<noteq> fst (snd t)"
      using sub Cons.prems(5) by (meson list.set_intros(2) subset_iff)
    obtain ix' d' where r: "open_insert sha identity ix1 (d1(path := None)) found = Some (ix', d')"
      "entries_ok sha identity S ix' d'"
      using Cons.IH [OF ok2 clock1 f2 dist disj1] by blast
    have "open_insert sha identity ix d (t # found) = Some (ix', d')"
      using m True same r(1) by (simp add: t)
    moreover have "\<not> ix_used_bytes ix + (\<Sum>t\<leftarrow>t # found. found_bytes t) \<le> ix_budget_bytes ix"
      using True by (simp add: found_bytes_def t)
    ultimately show ?thesis using r(2) by blast
  next
    case False
    let ?key = "entry_key sha identity salt tokens"
    let ?e = "\<lparr>ie_path = path, ie_tokens = tokens, ie_salt = salt, ie_bytes = bytes, ie_last_used = ix_clock ix1 + 1\<rparr>"
    let ?ix = "ix1\<lparr>ix_clock := ix_clock ix1 + 1, ix_used_bytes := ix_used_bytes ix1 + bytes,
        ix_entries := AList.update ?key ?e (ix_entries ix1)\<rparr>"
    have fits': "ix_used_bytes ix1 + bytes \<le> ix_budget_bytes ix1"
      using fits False same ok1 by (auto simp: entries_ok_def counted_def)
    have new: "?key \<notin> set (map fst (ix_entries ix1))"
    proof
      assume "?key \<in> set (map fst (ix_entries ix1))"
      then obtain x where x: "x \<in> set (ix_entries ix1)" "fst x = ?key" by auto
      then have "ie_path (snd x) = path" using ok1 f(1) by (simp add: entries_ok_def entry_ok_def)
      then show False using x(1) sub Cons.prems(5) t by auto
    qed
    have ok2: "entries_ok sha identity S ?ix d1"
      by (rule insert_entry_ok [OF ok1 new refl f(2,3) _ f(5) fits'])
        (use files [of t] f(1,4) t in \<open>simp_all\<close>)
    have entries: "set (ix_entries ?ix) = insert (?key, ?e) (set (ix_entries ix1))"
      using new by (simp add: update_new)
    have disj: "\<forall>t\<in>set found. \<forall>x\<in>set (ix_entries ?ix). ie_path (snd x) \<noteq> fst (snd t)"
      unfolding entries using paths sub Cons.prems(5) by fastforce
    have clock: "ix_clock ?ix + length found \<le> u64_max" using Cons.prems(2) same by simp
    obtain ix' d' where r: "open_insert sha identity ?ix d1 found = Some (ix', d')"
      "entries_ok sha identity S ix' d'"
      and all: "ix_used_bytes ?ix + (\<Sum>t\<leftarrow>found. found_bytes t) \<le> ix_budget_bytes ?ix \<longrightarrow>
         d' = d1 \<and> set (ix_entries ?ix) \<subseteq> set (ix_entries ix') \<and> (\<forall>t\<in>set found. indexed ix' t)"
      using Cons.IH [OF ok2 clock f1 dist disj] by blast
    have a: "checked_add_u64 (ix_clock ix1) (Suc 0) = Some (Suc (ix_clock ix1))"
      "checked_add_u64 (ix_used_bytes ix1) bytes = Some (ix_used_bytes ix1 + bytes)"
      using Cons.prems(2) same fits' ok1
      by (auto simp: panic_simps entries_ok_def counted_def max_budget_def u64_max_def)
    have "open_insert sha identity ix d (t # found) = Some (ix', d')"
      using m False same r(1) a by (simp add: t)
    moreover have "d' = d \<and> set (ix_entries ix) \<subseteq> set (ix_entries ix') \<and> (\<forall>t\<in>set (t # found). indexed ix' t)"
      if total: "ix_used_bytes ix + (\<Sum>t\<leftarrow>t # found. found_bytes t) \<le> ix_budget_bytes ix"
    proof -
      have "ix_used_bytes ix + bytes \<le> ix_budget_bytes ix" using total by (simp add: found_bytes_def t)
      then have "ix1 = ix" "d1 = d" using make_room_fits [OF cnt, of bytes d] m by simp_all
      moreover from this have "ix_used_bytes ?ix + (\<Sum>t\<leftarrow>found. found_bytes t) \<le> ix_budget_bytes ?ix"
        using total by (simp add: found_bytes_def t)
      moreover have "indexed ix' t" if "(?key, ?e) \<in> set (ix_entries ix')"
        unfolding indexed_def t using that by force
      ultimately show ?thesis using all entries by simp
    qed
    ultimately show ?thesis using r(2) by blast
  qed
qed

lemma found_bytes_sum:
  assumes "\<forall>t\<in>set found. found_ok sha identity S d t"
  shows "(\<Sum>t\<leftarrow>found. found_bytes t) = (\<Sum>p\<leftarrow>map (fst \<circ> snd) found. length (the (d p)))"
  using assms by (induction found) (auto simp: found_ok_def found_bytes_def)

lemma open_ok:
  assumes sha: "digest32 sha"
    and dir: "dir_ok sha (sha identity_record) S d" and names: "set (map fst names) = dom d" "distinct (map fst names)"
    and budget: "budget \<le> max_budget" and few: "length names \<le> u64_max"
  shows "\<exists>s'. open_store sha identity_record budget names d = Some s' \<and> store_ok sha identity_record S s' \<and>
    (dir_bytes names d \<le> budget \<longrightarrow>
       (\<forall>p. is_entry_file p \<longrightarrow> ps_dir s' p = d p) \<and>
       (\<forall>p\<in>dom d. is_entry_file p \<longrightarrow> (\<exists>x\<in>set (ix_entries (ps_index s')). ie_path (snd x) = p)))"
proof -
  let ?d = "\<lambda>p. if p \<in> set (map fst names) \<and> prefix temporary_prefix p then None else d p"
  obtain found where scan: "open_scan (sha identity_record) d names [] = (found, ?d)"
    and fok: "\<forall>t\<in>set found. found_ok sha (sha identity_record) S d t \<and> is_entry_file (fst (snd t))"
    and paths: "map (fst \<circ> snd) found = filter is_entry_file (map fst names)"
    using scan_result [OF sha dir, of names "[]"] names by auto
  let ?found = "sort_key fst found"
  let ?ix = "\<lparr>ix_entries = [], ix_used_bytes = 0, ix_budget_bytes = budget, ix_clock = 0\<rparr>"
  have dir2: "dir_ok sha (sha identity_record) S ?d"
    by (rule dir_ok_less [OF dir]) (auto split: if_splits)
  have ok: "entries_ok sha (sha identity_record) S ?ix ?d"
    using dir2 budget by (simp add: entries_ok_def counted_def)
  have fok2: "\<forall>t\<in>set ?found. found_ok sha (sha identity_record) S ?d t"
  proof
    fix t assume "t \<in> set ?found"
    then have t: "found_ok sha (sha identity_record) S d t" "is_entry_file (fst (snd t))" using fok by simp_all
    show "found_ok sha (sha identity_record) S ?d t"
      by (rule found_ok_dir [OF t(1)]) (use t(2) in simp)
  qed
  have same: "mset (map (fst \<circ> snd) ?found) = mset (map (fst \<circ> snd) found)"
    by (simp only: mset_map mset_sort)
  have "distinct (map (fst \<circ> snd) found)" unfolding paths using names(2) by (rule distinct_filter)
  then have dist: "distinct (map (fst \<circ> snd) ?found)"
    by (rule mset_eq_imp_distinct_iff [OF same, THEN iffD2])
  have "length found = length (filter is_entry_file (map fst names))"
    using arg_cong [OF paths, of length] by (simp only: length_map)
  also have "\<dots> \<le> length names" by (metis length_filter_le length_map)
  finally have clock: "ix_clock ?ix + length ?found \<le> u64_max" using few by simp
  have none: "\<forall>t\<in>set ?found. \<forall>x\<in>set (ix_entries ?ix). ie_path (snd x) \<noteq> fst (snd t)" by simp
  obtain ix' d' where ins: "open_insert sha (sha identity_record) ?ix ?d ?found = Some (ix', d')"
    and ok': "entries_ok sha (sha identity_record) S ix' d'"
    and all: "ix_used_bytes ?ix + (\<Sum>t\<leftarrow>?found. found_bytes t) \<le> ix_budget_bytes ?ix \<longrightarrow>
       d' = ?d \<and> set (ix_entries ?ix) \<subseteq> set (ix_entries ix') \<and> (\<forall>t\<in>set ?found. indexed ix' t)"
    using insert_result [OF ok clock fok2 dist none] by blast
  let ?s = "\<lparr>ps_identity = sha identity_record, ps_index = ix', ps_jobs = [], ps_sequence = 0,
      ps_writing = None, ps_dir = d'\<rparr>"
  have "open_store sha identity_record budget names d = Some ?s"
    using scan ins by (simp add: open_store_def Let_def)
  moreover have "store_ok sha identity_record S ?s" using ok' by (simp add: store_ok_def)
  moreover have "(\<forall>p. is_entry_file p \<longrightarrow> ps_dir ?s p = d p) \<and>
       (\<forall>p\<in>dom d. is_entry_file p \<longrightarrow> (\<exists>x\<in>set (ix_entries (ps_index ?s)). ie_path (snd x) = p))"
    if small: "dir_bytes names d \<le> budget"
  proof -
    have "(\<Sum>t\<leftarrow>?found. found_bytes t) = (\<Sum>t\<leftarrow>found. found_bytes t)"
      by (metis mset_map mset_sort sum_mset_sum_list)
    also have "\<dots> = dir_bytes names d"
      using found_bytes_sum [of found sha "sha identity_record" S d] fok paths by (simp add: dir_bytes_def)
    finally have "d' = ?d" and ind: "\<forall>t\<in>set ?found. indexed ix' t" using small all by simp_all
    then have 1: "\<forall>p. is_entry_file p \<longrightarrow> ps_dir ?s p = d p" by simp
    have 2: "\<exists>x\<in>set (ix_entries (ps_index ?s)). ie_path (snd x) = p" if p: "p \<in> dom d" "is_entry_file p" for p
    proof -
      have "p \<in> set (map (fst \<circ> snd) found)" unfolding paths using p names by simp
      then obtain t where t: "t \<in> set found" "p = fst (snd t)" by auto
      then have "indexed ix' t" using ind by simp
      then show ?thesis using t(2) by (cases t) (auto simp: indexed_def)
    qed
    show ?thesis using 1 2 by blast
  qed
  ultimately show ?thesis by blast
qed

lemma crash_dir_ok:
  assumes ok: "store_ok sha identity_record S s" and crash: "crash_leaves s d"
  shows "dir_ok sha (sha identity_record) S d"
  unfolding dir_ok_def
proof (intro allI impI)
  fix p b assume p: "d p = Some b" "\<not> prefix temporary_prefix p" "path_extension p = Some entry_extension"
  have id_eq: "ps_identity s = sha identity_record" using ok by (simp add: store_ok_def)
  consider (kept) "ps_dir s p = Some b"
    | (writing) j where "ps_writing s = Some j" "p = entry_file (wj_key j)" "b = job_bytes (ps_identity s) j"
    using crash p unfolding crash_leaves_def by metis
  then show "\<exists>salt tokens role snapshot. (salt, tokens, role, snapshot) \<in> S \<and> salt_text salt \<and>
          p = entry_file (entry_key sha (sha identity_record) salt tokens) \<and>
          b = encode_entry (sha identity_record) salt tokens role snapshot \<and> length b \<le> max_budget"
  proof cases
    case kept
    have "dir_ok sha (sha identity_record) S (ps_dir s)"
      using ok by (auto simp: store_ok_def entries_ok_def)
    then show ?thesis using kept p(2,3) unfolding dir_ok_def by blast
  next
    case writing
    then have "job_ok sha (sha identity_record) S j" "length b \<le> ix_budget_bytes (ps_index s)"
      "ix_budget_bytes (ps_index s) \<le> max_budget"
      using ok by (auto simp: store_ok_def entries_ok_def counted_def)
    then show ?thesis using writing(2,3) id_eq
      by (intro exI [of _ "wj_salt j"] exI [of _ "wj_tokens j"] exI [of _ "wj_role j"] exI [of _ "wj_snapshot j"])
        (auto simp: job_ok_def job_bytes_def)
  qed
qed

lemma step_ok:
  assumes sha: "digest32 sha"
    and "store_step sha identity_record pid x y" and ok: "store_ok sha identity_record (fst x) (snd x)"
  shows "store_ok sha identity_record (fst y) (snd y)"
  using assms(2,3)
proof cases
  case (Save s salt tokens role snapshot r s' S)
  then show ?thesis using save_ok ok by simp
next
  case (Lookup s salt prompt hit s' S)
  then show ?thesis using lookup_ok [OF sha] ok by simp
next
  case (Take s s' S)
  then show ?thesis using take_ok ok by simp
next
  case (Store s outcome s' S)
  then show ?thesis using store_write_ok [OF sha] ok by simp
next
  case (Restart s d names budget s' S)
  have "dir_ok sha (sha identity_record) S d" using crash_dir_ok Restart ok by simp
  then obtain s'' where "open_store sha identity_record budget names d = Some s''" "store_ok sha identity_record S s''"
    using open_ok [OF sha] Restart by blast
  then show ?thesis using Restart by simp
qed

end
