(* ===== verification/PrefixProperties.thy ===== *)
theory PrefixProperties
  imports PrefixTheorems
begin

text \<open>
  The properties of the prefix store, with a small run of it as their witness: an empty directory
  is opened, one prefix is saved, written and looked up, and the store is opened again.
\<close>

section \<open>Runs\<close>

inductive store_reach ::
  "(byte list \<Rightarrow> byte list) \<Rightarrow> byte list \<Rightarrow> nat \<Rightarrow> saved \<times> prefix_store \<Rightarrow> bool"
  for sha identity_record pid where
  Start: "(\<And>p. p \<in> dom d \<Longrightarrow> \<not> is_entry_file p) \<Longrightarrow> set (map fst names) = dom d \<Longrightarrow> distinct (map fst names) \<Longrightarrow>
    length names \<le> u64_max \<Longrightarrow> budget \<le> max_budget \<Longrightarrow>
    open_store sha identity_record budget names d = Some s \<Longrightarrow> store_reach sha identity_record pid ({}, s)"
| Step: "store_reach sha identity_record pid x \<Longrightarrow> store_step sha identity_record pid x y \<Longrightarrow>
    store_reach sha identity_record pid y"

inductive_cases store_stepE: "store_step sha identity_record pid x y"

lemma reach_ok:
  assumes sha: "digest32 sha" and r: "store_reach sha identity_record pid x"
  shows "store_ok sha identity_record (fst x) (snd x)"
  using r
proof induction
  case (Start d names budget s)
  have "dir_ok sha (sha identity_record) {} d"
    using Start(1) by (auto simp: dir_ok_def)
  then obtain s' where "open_store sha identity_record budget names d = Some s'" "store_ok sha identity_record {} s'"
    using open_ok [OF sha] Start(2-5) by blast
  then show ?case using Start(6) by simp
next
  case (Step x y)
  then show ?case using step_ok [OF sha] by blast
qed

text \<open>The length of the first candidate is the greatest length of a match.\<close>

lemma fold_max_ge: "(x :: nat) \<in> set xs \<Longrightarrow> x \<le> fold max xs a"
  by (simp add: Max.set_eq_fold [symmetric])

lemma fold_max_in: "fold max xs (a :: nat) = a \<or> fold max xs a \<in> set xs"
  using Max_in [of "set (a # xs)"] by (simp add: Max.set_eq_fold [symmetric])

lemma matching_lengths:
  "set (map (\<lambda>e. length (ie_tokens e)) (filter (matches salt prompt) (map snd (ix_entries ix)))) =
   fst ` set (candidates ix salt prompt)"
  by (force simp: candidates_set image_iff)

lemma longest_candidates:
  "longest s salt prompt =
     (case candidates (ps_index s) salt prompt of [] \<Rightarrow> None | (n, k) # rest \<Rightarrow> Some n)"
proof -
  let ?lens = "map (\<lambda>e. length (ie_tokens e)) (filter (matches salt prompt) (map snd (ix_entries (ps_index s))))"
  show ?thesis
  proof (cases "candidates (ps_index s) salt prompt")
    case Nil
    then have "?lens = []" using matching_lengths [of salt prompt "ps_index s"]
      unfolding set_empty [symmetric] by simp
    then show ?thesis using Nil by (simp add: longest_def Let_def)
  next
    case (Cons nk rest)
    obtain n k where nk: "nk = (n, k)" by force
    have lens: "set ?lens = fst ` set ((n, k) # rest)"
      using matching_lengths [of salt prompt "ps_index s"] Cons nk by simp
    have "n \<in> set ?lens" unfolding lens by simp
    then have ne: "?lens \<noteq> []" by (metis list.set(1) empty_iff)
    have top: "m \<le> n" if "m \<in> set ?lens" for m
    proof -
      have "m \<in> fst ` set ((n, k) # rest)" using that unfolding lens .
      then obtain x where x: "x \<in> set ((n, k) # rest)" "m = fst x" by blast
      have "sorted (rev ((n, k) # rest))" using candidates_sorted [of "ps_index s" salt prompt] Cons nk by simp
      then have "x \<le> (n, k)" using x(1) by (auto simp: sorted_append)
      then show ?thesis using x(2) by (auto simp: less_eq_prod_def)
    qed
    from \<open>n \<in> set ?lens\<close> have "n \<le> fold max ?lens 0" using fold_max_ge by blast
    moreover have "fold max ?lens 0 \<le> n" using fold_max_in [of ?lens 0] top by (metis le0)
    ultimately show ?thesis using Cons nk ne by (simp add: longest_def Let_def)
  qed
qed

section \<open>Properties\<close>

text \<open>C22: A lookup is safe whatever has happened to the directory: it never panics, keeps the index
  counted within its budget, only removes files, and a prefix it returns was read from a file that
  is a whole encoding under the store's identity and the request's salt, and is a prefix of the
  prompt.\<close>

theorem lookup_never_returns_foreign_state:
  assumes "counted (ps_index s)" "ix_clock (ps_index s) < u64_max"
    and "length (ps_identity s) = 32" "\<forall>p b. ps_dir s p = Some b \<longrightarrow> length b \<le> usize_max"
  shows "\<exists>hit s'. lookup s salt prompt = Some (hit, s') \<and> counted (ps_index s') \<and>
    (\<forall>p b. ps_dir s' p = Some b \<longrightarrow> ps_dir s p = Some b) \<and>
    (\<forall>sp. hit = Some sp \<longrightarrow> prefix (sp_tokens sp) prompt \<and>
       (\<exists>p. ps_dir s p =
          Some (encode_entry (ps_identity s) salt (sp_tokens sp) (sp_role sp) (sp_snapshot sp))))"
proof -
  obtain hit ix' d' where r: "lookup s salt prompt = Some (hit, s\<lparr>ps_index := ix', ps_dir := d'\<rparr>)" "counted ix'"
    "\<forall>p b. d' p = Some b \<longrightarrow> ps_dir s p = Some b"
    "\<forall>sp. hit = Some sp \<longrightarrow> found_in (ps_identity s) salt prompt (ps_index s) (ps_dir s) sp"
    using lookup_safe [OF assms(1,2)] by blast
  have "prefix (sp_tokens sp) prompt \<and>
       (\<exists>p. ps_dir s p = Some (encode_entry (ps_identity s) salt (sp_tokens sp) (sp_role sp) (sp_snapshot sp)))"
    if "hit = Some sp" for sp
  proof -
    have found: "found_in (ps_identity s) salt prompt (ps_index s) (ps_dir s) sp" using r(4) that by blast
    then obtain p where p: "read_entry (ps_dir s p) (ps_identity s) True =
        Inr (salt, sp_tokens sp, sp_role sp, Some (sp_snapshot sp))"
      by (auto simp: found_in_def)
    then obtain b where b: "ps_dir s p = Some b" by (cases "ps_dir s p") (auto simp: read_entry_def)
    then have "b = encode_entry (ps_identity s) salt (sp_tokens sp) (sp_role sp) (sp_snapshot sp)"
      using p read_entry_any_iff [OF assms(3), of b True] assms(4) by auto
    then show ?thesis using b found by (auto simp: found_in_def)
  qed
  then show ?thesis using r(1,2,3) by simp
qed

text \<open>C23: Making room evicts strictly by recency and no more than needed: what stays is the largest set
  of most recently used entries that leaves room for the incoming bytes (nothing stays when even
  an empty index does not), exactly the files of what went are removed, and the byte count stays
  exact and within the budget.\<close>

theorem make_room_evicts_least_recently_used:
  assumes "counted ix" "incoming \<le> max_file"
  shows "\<exists>ix' d'. make_room ix d incoming = Some (ix', d') \<and> room_made ix d incoming ix' d' \<and> counted ix'"
  using make_room_result [OF assms] .

text \<open>C21: Along every run of the store (saves, lookups, the writer, crashes and restarts interleaved at
  will) a lookup that has room on the clock returns exactly one of the snapshots that were saved,
  for a proper prefix of the prompt under the same salt, and the longest one the index holds; it
  returns nothing only when no stored prefix matches.\<close>

theorem saved_prefixes_come_back_unchanged:
  assumes "digest32 sha" "store_reach sha identity_record pid (S, s)" "ix_clock (ps_index s) < u64_max"
  shows "\<exists>hit s'. lookup s salt prompt = Some (hit, s') \<and>
    (case hit of
       None \<Rightarrow> longest s salt prompt = None
     | Some sp \<Rightarrow> (salt, sp_tokens sp, sp_role sp, sp_snapshot sp) \<in> S \<and>
         strict_prefix (sp_tokens sp) prompt \<and> longest s salt prompt = Some (length (sp_tokens sp)))"
proof -
  have ok: "store_ok sha identity_record S s" using reach_ok [OF assms(1,2)] by simp
  show ?thesis
  proof (cases "candidates (ps_index s) salt prompt")
    case Nil
    then show ?thesis using lookup_nothing longest_candidates by simp
  next
    case (Cons nk rest)
    obtain n k where nk: "nk = (n, k)" by force
    obtain e role snapshot where e: "matches salt prompt e" "n = length (ie_tokens e)"
      "(salt, ie_tokens e, role, snapshot) \<in> S"
      and l: "lookup s salt prompt = Some (Some \<lparr>sp_tokens = ie_tokens e, sp_role = role, sp_snapshot = snapshot\<rparr>,
      s\<lparr>ps_index := (ps_index s)\<lparr>ix_clock := ix_clock (ps_index s) + 1,
          ix_entries := AList.update k (e\<lparr>ie_last_used := ix_clock (ps_index s) + 1\<rparr>)
            (ix_entries (ps_index s))\<rparr>\<rparr>)"
      using lookup_first [OF assms(1) ok assms(3)] Cons nk by blast
    have "strict_prefix (ie_tokens e) prompt" using e(1) by (auto simp: matches_def strict_prefix_def)
    then show ?thesis using l e(2,3) Cons nk longest_candidates by simp
  qed
qed

text \<open>C24: The disk budget holds along every run: what the index counts is the size of the files it
  points to, and it never exceeds the budget.\<close>

theorem store_stays_in_budget:
  assumes "digest32 sha" "store_reach sha identity_record pid (S, s)"
  shows "(\<Sum>(key, e)\<leftarrow>ix_entries (ps_index s). length (the (ps_dir s (ie_path e)))) = ix_used_bytes (ps_index s) \<and>
    ix_used_bytes (ps_index s) \<le> ix_budget_bytes (ps_index s) \<and>
    distinct (map (\<lambda>(key, e). ie_path e) (ix_entries (ps_index s)))"
proof -
  have "store_ok sha identity_record S s" using reach_ok [OF assms] by simp
  then have ok: "entries_ok sha (sha identity_record) S (ps_index s) (ps_dir s)" by (auto simp: store_ok_def)
  have size: "length (the (ps_dir s (ie_path (snd x)))) = ie_bytes (snd x)"
    and path: "ie_path (snd x) = entry_file (fst x)"
    if "x \<in> set (ix_entries (ps_index s))" for x
    using ok that by (auto simp: entries_ok_def entry_ok_def)
  have "map (\<lambda>(key, e). length (the (ps_dir s (ie_path e)))) (ix_entries (ps_index s)) =
      map (\<lambda>x. ie_bytes (snd x)) (ix_entries (ps_index s))"
    by (intro map_cong refl) (simp add: case_prod_unfold size)
  then have "(\<Sum>(key, e)\<leftarrow>ix_entries (ps_index s). length (the (ps_dir s (ie_path e)))) = entries_bytes (ix_entries (ps_index s))"
    unfolding entries_bytes_def by (rule arg_cong [of _ _ sum_list])
  moreover have "map (\<lambda>(key, e). ie_path e) (ix_entries (ps_index s)) = map entry_file (map fst (ix_entries (ps_index s)))"
    using path by (auto simp: comp_def)
  then have "distinct (map (\<lambda>(key, e). ie_path e) (ix_entries (ps_index s)))"
    using ok by (simp only: distinct_map [of entry_file "map fst _"])
      (auto simp: entries_ok_def counted_def inj_on_def entry_file_inj)
  ultimately show ?thesis using ok by (simp add: entries_ok_def counted_def)
qed

text \<open>C25: A restart forgets nothing that fits: when the entry files a crash left fit the budget, opening
  the directory again succeeds, keeps every one of them, and knows the prefix each was saved for.\<close>

theorem restart_keeps_what_fits:
  assumes "digest32 sha" "store_reach sha identity_record pid (S, s)" "crash_leaves s d"
    and "set (map fst names) = dom d" "distinct (map fst names)" "length names \<le> u64_max"
    and "budget \<le> max_budget" "dir_bytes names d \<le> budget"
    and "(salt, tokens, role, snapshot) \<in> S" "d (entry_file (entry_key sha (sha identity_record) salt tokens)) \<noteq> None"
  shows "\<exists>s'. open_store sha identity_record budget names d = Some s' \<and> contains sha s' salt tokens \<and>
    (\<forall>p. is_entry_file p \<longrightarrow> ps_dir s' p = d p)"
proof -
  let ?k = "entry_key sha (sha identity_record) salt tokens"
  have "dir_ok sha (sha identity_record) S d"
    using crash_dir_ok [OF _ assms(3)] reach_ok [OF assms(1,2)] by simp
  then obtain s' where s': "open_store sha identity_record budget names d = Some s'" "store_ok sha identity_record S s'"
    "\<forall>p. is_entry_file p \<longrightarrow> ps_dir s' p = d p"
    "\<forall>p\<in>dom d. is_entry_file p \<longrightarrow> (\<exists>x\<in>set (ix_entries (ps_index s')). ie_path (snd x) = p)"
    using open_ok [OF assms(1) _ assms(4,5,7,6)] assms(8) by blast
  have "is_entry_file (entry_file ?k)"
    using key_not_Nil [OF assms(1)] entry_file_extension entry_file_not_temporary by simp
  moreover have "entry_file ?k \<in> dom d" using assms(10) by auto
  ultimately obtain x where x: "x \<in> set (ix_entries (ps_index s'))" "ie_path (snd x) = entry_file ?k" using s'(4) by blast
  have "entry_ok sha (sha identity_record) S (ps_dir s') x" and id_eq: "ps_identity s' = sha identity_record"
    using s'(2) x(1) by (auto simp: store_ok_def entries_ok_def)
  then have "fst x = ?k" using x(2) by (auto simp: entry_ok_def entry_file_inj)
  then have "contains sha s' salt tokens" using map_of_member [OF x(1)] id_eq by (simp add: contains_def)
  then show ?thesis using s'(1,3) by blast
qed

section \<open>A run\<close>

definition demo_digest :: "byte list \<Rightarrow> byte list" where
  "demo_digest x = take 32 (rev x @ replicate 32 0)"

lemma demo_digest32: "digest32 demo_digest"
  by (auto simp: digest32_def demo_digest_def)

lemma length_demo_digest [simp]: "length (demo_digest x) = 32"
  using demo_digest32 by (rule digest32_length)

definition demo_empty :: prefix_store where
  "demo_empty = \<lparr>ps_identity = demo_digest [],
     ps_index = \<lparr>ix_entries = [], ix_used_bytes = 0, ix_budget_bytes = 1000, ix_clock = 0\<rparr>,
     ps_jobs = [], ps_sequence = 0, ps_writing = None, ps_dir = Map.empty\<rparr>"

definition demo_bytes :: "byte list" where
  "demo_bytes = encode_entry (demo_digest []) None [1, 2] 0 [7]"

definition demo_key :: store_key where
  "demo_key = entry_key demo_digest (demo_digest []) None [1, 2]"

definition demo_entry :: index_entry where
  "demo_entry = \<lparr>ie_path = entry_file demo_key, ie_tokens = [1, 2], ie_salt = None, ie_bytes = 71, ie_last_used = 1\<rparr>"

definition demo_job :: write_job where
  "demo_job = \<lparr>wj_key = demo_key, wj_salt = None, wj_tokens = [1, 2], wj_role = 0, wj_snapshot = [7]\<rparr>"

definition demo_stored :: prefix_store where
  "demo_stored = demo_empty\<lparr>ps_index := \<lparr>ix_entries = [(demo_key, demo_entry)], ix_used_bytes = 71,
       ix_budget_bytes = 1000, ix_clock = 1\<rparr>, ps_sequence := 1,
     ps_dir := [entry_file demo_key \<mapsto> demo_bytes]\<rparr>"

lemma length_demo_bytes [simp]: "length demo_bytes = 71"
  by (simp add: demo_bytes_def encode_entry_def)

lemma demo_open: "open_store demo_digest [] 1000 [] Map.empty = Some demo_empty"
  by (simp add: open_store_def demo_empty_def)

lemma demo_save:
  "save demo_digest demo_empty None [1, 2] 0 [7] = (True, demo_empty\<lparr>ps_jobs := [demo_job]\<rparr>)"
  by (simp add: save_def contains_def demo_empty_def max_queued_def demo_job_def demo_key_def)

lemma demo_take:
  "writer_take (demo_empty\<lparr>ps_jobs := [demo_job]\<rparr>) = Some (demo_empty\<lparr>ps_sequence := 1, ps_writing := Some demo_job\<rparr>)"
proof -
  have "job_bytes (demo_digest []) demo_job = demo_bytes"
    by (simp add: job_bytes_def demo_job_def demo_bytes_def)
  then show ?thesis
    by (simp add: writer_take_def demo_empty_def checked_add_u64_def u64_max_def)
qed

lemma demo_write:
  "writer_store 5 (demo_empty\<lparr>ps_sequence := 1, ps_writing := Some demo_job\<rparr>) Written = Some demo_stored"
proof -
  have bytes: "job_bytes (demo_digest []) demo_job = demo_bytes"
    by (simp add: job_bytes_def demo_job_def demo_bytes_def)
  have job: "wj_key demo_job = demo_key" "wj_tokens demo_job = [1, 2]" "wj_salt demo_job = None"
    by (simp_all add: demo_job_def)
  have room: "make_room (ps_index demo_empty) d 71 = Some (ps_index demo_empty, d)" for d
    by (rule make_room_fits) (simp_all add: demo_empty_def counted_def max_budget_def)
  show ?thesis
    using room bytes job
    by (simp add: writer_store_def demo_stored_def demo_empty_def demo_entry_def checked_add_u64_def
        u64_max_def write_atomically_def Let_def fun_eq_iff)
qed

lemma demo_reach: "store_reach demo_digest [] 5 ({(None, [1, 2], 0, [7])}, demo_stored)"
proof -
  have 0: "store_reach demo_digest [] 5 ({}, demo_empty)"
    by (rule Start [of Map.empty "[]" 1000]) (simp_all add: demo_open max_budget_def)
  have 1: "store_reach demo_digest [] 5 ({(None, [1, 2], 0, [7])}, demo_empty\<lparr>ps_jobs := [demo_job]\<rparr>)"
    using store_reach.Step [OF 0 store_step.Save [OF demo_save]] by (simp add: salt_text_def)
  have 2: "store_reach demo_digest [] 5
      ({(None, [1, 2], 0, [7])}, demo_empty\<lparr>ps_sequence := 1, ps_writing := Some demo_job\<rparr>)"
    by (rule store_reach.Step [OF 1 store_step.Take [OF _ demo_take]]) (simp add: demo_empty_def)
  show ?thesis by (rule store_reach.Step [OF 2 store_step.Store [OF demo_write]])
qed

lemma demo_candidates: "candidates (ps_index demo_stored) None [1, 2, 3] = [(2, demo_key)]"
  by (simp add: candidates_def demo_stored_def demo_entry_def matches_def)

lemma demo_counted: "counted (ps_index demo_stored)"
  by (simp add: demo_stored_def counted_def demo_entry_def max_budget_def)

lemma demo_clock: "ix_clock (ps_index demo_stored) < u64_max"
  by (simp add: demo_stored_def u64_max_def)

lemma saved_prefixes_come_back_unchanged_witness:
  "\<exists>sp s'. lookup demo_stored None [1, 2, 3] = Some (Some sp, s') \<and>
     (None :: byte list option, sp_tokens sp, sp_role sp, sp_snapshot sp) \<in> {(None, [1, 2], 0, [7])}"
proof -
  have longest: "longest demo_stored None [1, 2, 3] = Some 2"
    by (simp add: longest_candidates demo_candidates)
  obtain hit s' where r: "lookup demo_stored None [1, 2, 3] = Some (hit, s')"
    and h: "case hit of None \<Rightarrow> longest demo_stored None [1, 2, 3] = None
     | Some sp \<Rightarrow> (None :: byte list option, sp_tokens sp, sp_role sp, sp_snapshot sp) \<in> {(None, [1, 2], 0, [7])} \<and>
         strict_prefix (sp_tokens sp) [1, 2, 3] \<and> longest demo_stored None [1, 2, 3] = Some (length (sp_tokens sp))"
    using saved_prefixes_come_back_unchanged [OF demo_digest32 demo_reach demo_clock, of None "[1, 2, 3]"]
    by (elim exE conjE) (rule that)
  then show ?thesis using longest by (cases hit) auto
qed

lemma store_stays_in_budget_witness:
  "(\<Sum>(key, e)\<leftarrow>ix_entries (ps_index demo_stored). length (the (ps_dir demo_stored (ie_path e)))) = 71 \<and>
   71 \<le> ix_budget_bytes (ps_index demo_stored)"
  using store_stays_in_budget [OF demo_digest32 demo_reach] by (simp add: demo_stored_def)

lemma demo_is_entry_file: "is_entry_file (entry_file demo_key)"
  using key_not_Nil [OF demo_digest32] entry_file_extension entry_file_not_temporary
  by (simp add: demo_key_def)

lemma restart_keeps_what_fits_witness:
  "\<exists>s'. open_store demo_digest [] 500 [(entry_file demo_key, 3)] (ps_dir demo_stored) = Some s' \<and>
     contains demo_digest s' None [1, 2]"
proof -
  have "crash_leaves demo_stored (ps_dir demo_stored)"
    by (simp add: crash_leaves_def demo_stored_def)
  moreover have "dir_bytes [(entry_file demo_key, 3)] (ps_dir demo_stored) \<le> 500"
    using demo_is_entry_file by (simp add: dir_bytes_def demo_stored_def)
  moreover have "ps_dir demo_stored (entry_file (entry_key demo_digest (demo_digest []) None [1, 2])) \<noteq> None"
    by (simp add: demo_stored_def demo_key_def)
  ultimately show ?thesis
    using restart_keeps_what_fits [OF demo_digest32 demo_reach, of "ps_dir demo_stored" "[(entry_file demo_key, 3)]" 500
        None "[1, 2]" 0 "[7]"]
    by (auto simp: demo_stored_def max_budget_def u64_max_def)
qed

lemma lookup_never_returns_foreign_state_witness:
  "\<exists>hit s'. lookup (demo_stored\<lparr>ps_dir := [entry_file demo_key \<mapsto> [1, 2, 3]]\<rparr>) None [1, 2, 3] = Some (hit, s') \<and>
     counted (ps_index s') \<and> (\<forall>sp. hit = Some sp \<longrightarrow> prefix (sp_tokens sp) [1, 2, 3])"
proof -
  let ?s = "demo_stored\<lparr>ps_dir := [entry_file demo_key \<mapsto> [1, 2, 3]]\<rparr>"
  have "counted (ps_index ?s)" "ix_clock (ps_index ?s) < u64_max" using demo_counted demo_clock by simp_all
  moreover have "length (ps_identity ?s) = 32" by (simp add: demo_stored_def demo_empty_def)
  moreover have "\<forall>p b. ps_dir ?s p = Some b \<longrightarrow> length b \<le> usize_max" by (simp add: usize_max_def)
  ultimately show ?thesis
    using lookup_never_returns_foreign_state [of ?s None "[1, 2, 3]"] by blast
qed

lemma make_room_evicts_least_recently_used_witness:
  "\<exists>ix' d'. make_room (ps_index demo_stored) (ps_dir demo_stored) 950 = Some (ix', d') \<and>
     room_made (ps_index demo_stored) (ps_dir demo_stored) 950 ix' d' \<and> counted ix'"
  by (rule make_room_evicts_least_recently_used [OF demo_counted]) (simp add: max_file_def)

end
