(* ===== verification/PrefixCache.thy ===== *)
theory PrefixCache
  imports Bytes "HOL-Library.AList" "HOL-Library.Sublist"
begin

text \<open>
  The in-memory cache of prefilled K/V for exact prompt prefixes (\<open>PrefixCache\<close> in
  \<open>crates/app/cli/src/qwen_prefix_cache.rs\<close>). Values are a type parameter. \<open>HashMap\<close> is an
  association list whose order is the unspecified iteration order; SHA-256 is the parameter
  \<open>sha\<close>. The invariant says that the byte count is exact and within the budget, that every
  parent is present, a proper prefix of its children under the same salt, and counts them.
\<close>

section \<open>Entries\<close>

type_synonym prefix_key = "byte list"
type_synonym salt = "byte list option"

datatype prefix_role = Preamble | Conversation

definition role_code :: "prefix_role \<Rightarrow> byte" where
  "role_code r = (case r of Preamble \<Rightarrow> 0 | Conversation \<Rightarrow> 1)"

definition role_from_code :: "byte \<Rightarrow> prefix_role" where
  "role_from_code code = (if code = 0 then Preamble else Conversation)"

record 'v cache_entry =
  ce_tokens :: "token list"
  ce_salt :: salt
  ce_value :: 'v
  ce_bytes :: nat
  ce_last_used :: nat
  ce_role :: prefix_role
  ce_parent :: "prefix_key option"
  ce_children :: nat

record cache_stats =
  cs_queries :: nat
  cs_hits :: nat
  cs_hit_tokens :: nat
  cs_evictions :: nat
  cs_superseded :: nat
  cs_entries :: nat
  cs_bytes :: nat
  cs_budget_bytes :: nat

record 'v prefix_cache =
  pc_identity :: "byte list"
  pc_budget_bytes :: nat
  pc_used_bytes :: nat
  pc_clock :: nat
  pc_entries :: "(prefix_key \<times> 'v cache_entry) list"
  pc_queries :: nat
  pc_hits :: nat
  pc_hit_tokens :: nat
  pc_evictions :: nat
  pc_superseded :: nat

definition cache_new :: "byte list \<Rightarrow> nat \<Rightarrow> 'v prefix_cache" where
  "cache_new identity budget_bytes =
     \<lparr>pc_identity = identity, pc_budget_bytes = budget_bytes, pc_used_bytes = 0, pc_clock = 0,
      pc_entries = [], pc_queries = 0, pc_hits = 0, pc_hit_tokens = 0, pc_evictions = 0,
      pc_superseded = 0\<rparr>"

definition cache_key :: "(byte list \<Rightarrow> byte list) \<Rightarrow> byte list \<Rightarrow> salt \<Rightarrow> token list \<Rightarrow> prefix_key" where
  "cache_key sha identity salt tokens =
     sha (concat ([u64_le (length identity), identity] @
       (case salt of None \<Rightarrow> [[0]] | Some s \<Rightarrow> [[1], u64_le (length s), s]) @
       [u64_le (length tokens)] @ map u32_le tokens))"

definition entry_matches :: "'v cache_entry \<Rightarrow> salt \<Rightarrow> token list \<Rightarrow> bool" where
  "entry_matches e salt tokens \<longleftrightarrow> ce_salt e = salt \<and> ce_tokens e = tokens"

section \<open>Looking up\<close>

definition cache_longest ::
  "(byte list \<Rightarrow> byte list) \<Rightarrow> 'v prefix_cache \<Rightarrow> salt \<Rightarrow> token list \<Rightarrow> prefix_key option" where
  "cache_longest sha c salt prompt =
     (let lengths = filter (\<lambda>n. n < length prompt) (map (\<lambda>e. length (ce_tokens e))
                      (filter (\<lambda>e. ce_salt e = salt) (map snd (pc_entries c))));
          lengths = remdups_adj (rev (sort lengths))
      in find_map (\<lambda>n.
           let key = cache_key sha (pc_identity c) salt (take n prompt)
           in case map_of (pc_entries c) key of
                None \<Rightarrow> None
              | Some e \<Rightarrow> if entry_matches e salt (take n prompt) then Some key else None) lengths)"

definition cache_lookup ::
  "(byte list \<Rightarrow> byte list) \<Rightarrow> 'v prefix_cache \<Rightarrow> salt \<Rightarrow> token list \<Rightarrow>
   ((nat \<times> 'v) option \<times> 'v prefix_cache) option" where
  "cache_lookup sha c salt prompt = do {
     queries \<leftarrow> checked_add_u64 (pc_queries c) 1;
     let c = c\<lparr>pc_queries := queries\<rparr>
     in case cache_longest sha c salt prompt of
          None \<Rightarrow> Some (None, c)
        | Some key \<Rightarrow> do {
            clock \<leftarrow> checked_add_u64 (pc_clock c) 1;
            let c = c\<lparr>pc_clock := clock\<rparr>
            in case map_of (pc_entries c) key of
                 None \<Rightarrow> Some (None, c)
               | Some entry \<Rightarrow>
                   let es = AList.map_entry key (\<lambda>e. e\<lparr>ce_last_used := clock\<rparr>) (pc_entries c);
                       es = (case ce_parent entry of
                               None \<Rightarrow> es
                             | Some parent \<Rightarrow> AList.map_entry parent (\<lambda>e. e\<lparr>ce_last_used := clock\<rparr>) es)
                   in do {
                     hits \<leftarrow> checked_add_u64 (pc_hits c) 1;
                     hit_tokens \<leftarrow> checked_add_u64 (pc_hit_tokens c) (length (ce_tokens entry));
                     let c = c\<lparr>pc_entries := es, pc_hits := hits, pc_hit_tokens := hit_tokens\<rparr>
                     in case map_of es key of
                          None \<Rightarrow> Some (None, c)
                        | Some e \<Rightarrow> Some (Some (length (ce_tokens entry), ce_value e), c) } } }"

definition cache_peek ::
  "(byte list \<Rightarrow> byte list) \<Rightarrow> 'v prefix_cache \<Rightarrow> salt \<Rightarrow> token list \<Rightarrow> 'v option" where
  "cache_peek sha c salt prompt =
     (case cache_longest sha c salt prompt of
        None \<Rightarrow> None
      | Some key \<Rightarrow> map_option ce_value (map_of (pc_entries c) key))"

definition cache_get ::
  "(byte list \<Rightarrow> byte list) \<Rightarrow> 'v prefix_cache \<Rightarrow> salt \<Rightarrow> token list \<Rightarrow> 'v option" where
  "cache_get sha c salt tokens =
     (case map_of (pc_entries c) (cache_key sha (pc_identity c) salt tokens) of
        None \<Rightarrow> None
      | Some e \<Rightarrow> if entry_matches e salt tokens then Some (ce_value e) else None)"

definition cache_longest_tokens :: "'v prefix_cache \<Rightarrow> salt \<Rightarrow> token list \<Rightarrow> nat option" where
  "cache_longest_tokens c salt prompt =
     (let lens = map (\<lambda>e. length (ce_tokens e))
        (filter (\<lambda>e. ce_salt e = salt \<and> length (ce_tokens e) < length prompt \<and> prefix (ce_tokens e) prompt)
          (map snd (pc_entries c)))
      in if lens = [] then None else Some (fold max lens 0))"

definition cache_contains ::
  "(byte list \<Rightarrow> byte list) \<Rightarrow> 'v prefix_cache \<Rightarrow> salt \<Rightarrow> token list \<Rightarrow> bool" where
  "cache_contains sha c salt tokens \<longleftrightarrow>
     (case map_of (pc_entries c) (cache_key sha (pc_identity c) salt tokens) of
        None \<Rightarrow> False
      | Some e \<Rightarrow> entry_matches e salt tokens)"

section \<open>Inserting\<close>

definition saturating_mul_usize :: "nat \<Rightarrow> nat \<Rightarrow> nat" where
  "saturating_mul_usize a b = min (a * b) usize_max"

text \<open>The bytes an entry counts: its value and its tokens, at \<open>size_of::<i32>()\<close> each.\<close>

definition entry_bytes :: "nat \<Rightarrow> token list \<Rightarrow> nat" where
  "entry_bytes value_bytes tokens =
     saturating_add_usize value_bytes (saturating_mul_usize (length tokens) 4)"

definition cache_admits ::
  "(byte list \<Rightarrow> byte list) \<Rightarrow> 'v prefix_cache \<Rightarrow> salt \<Rightarrow> token list \<Rightarrow> nat \<Rightarrow> bool" where
  "cache_admits sha c salt tokens value_bytes \<longleftrightarrow>
     tokens \<noteq> [] \<and> entry_bytes value_bytes tokens \<le> pc_budget_bytes c \<and> \<not> cache_contains sha c salt tokens"

text \<open>Removing an entry releases its hold on its parent.\<close>

definition cache_remove :: "'v prefix_cache \<Rightarrow> prefix_key \<Rightarrow> (bool \<times> 'v prefix_cache) option" where
  "cache_remove c key =
     (case map_of (pc_entries c) key of
        None \<Rightarrow> Some (False, c)
      | Some removed \<Rightarrow> do {
          used \<leftarrow> checked_sub (pc_used_bytes c) (ce_bytes removed);
          let es = AList.delete key (pc_entries c)
          in case Option.bind (ce_parent removed) (map_of es) of
               None \<Rightarrow> Some (True, c\<lparr>pc_used_bytes := used, pc_entries := es\<rparr>)
             | Some parent \<Rightarrow> do {
                 children \<leftarrow> checked_sub (ce_children parent) 1;
                 Some (True, c\<lparr>pc_used_bytes := used,
                   pc_entries := AList.map_entry (the (ce_parent removed))
                     (\<lambda>e. e\<lparr>ce_children := children\<rparr>) es\<rparr>) } })"

text \<open>Entries nothing shares, other than the new entry's parent.\<close>

definition evictable :: "'v prefix_cache \<Rightarrow> prefix_key option \<Rightarrow> (prefix_key \<times> 'v cache_entry) option" where
  "evictable c parent =
     min_by_key (\<lambda>x. ce_last_used (snd x))
       (filter (\<lambda>(key, e). ce_children e = 0 \<and> Some key \<noteq> parent) (pc_entries c))"

lemma evictable_in:
  "evictable c parent = Some (k, e) \<Longrightarrow> (k, e) \<in> set (pc_entries c) \<and> ce_children e = 0 \<and> parent \<noteq> Some k"
  by (auto simp: evictable_def dest!: min_by_key_in)

lemma map_entry_length [simp]: "length (AList.map_entry k f es) = length es"
  by (induction es) auto

lemma map_entry_keys [simp]: "map fst (AList.map_entry k f es) = map fst es"
  by (induction es) auto

lemma cache_remove_shrinks:
  assumes "(k, e) \<in> set (pc_entries c)" "cache_remove c k = Some (r, c')"
  shows "r \<and> length (pc_entries c') < length (pc_entries c)"
proof -
  have del: "length (AList.delete k (pc_entries c)) < length (pc_entries c)"
    unfolding AList.delete_eq using assms(1) by (intro length_filter_less) auto
  have "map_of (pc_entries c) k \<noteq> None" using assms(1) by (metis map_of_eq_None_iff fst_conv image_eqI)
  then show ?thesis using assms(2) del
    by (auto simp: cache_remove_def Let_def bind_eq_Some_conv split: option.splits)
qed

text \<open>The eviction loop: \<open>False\<close> when nothing more can go.\<close>

function cache_make_room ::
  "'v prefix_cache \<Rightarrow> prefix_key option \<Rightarrow> nat \<Rightarrow> (bool \<times> 'v prefix_cache) option" where
  "cache_make_room c parent bytes =
     (case add_usize (pc_used_bytes c) bytes of
        None \<Rightarrow> None
      | Some needed \<Rightarrow>
          if needed \<le> pc_budget_bytes c then Some (True, c)
          else case evictable c parent of
                 None \<Rightarrow> Some (False, c)
               | Some (key, e) \<Rightarrow>
                   (case cache_remove c key of
                      None \<Rightarrow> None
                    | Some (removed, c') \<Rightarrow>
                        if removed then
                          (case checked_add_u64 (pc_evictions c') 1 of
                             None \<Rightarrow> None
                           | Some n \<Rightarrow> cache_make_room (c'\<lparr>pc_evictions := n\<rparr>) parent bytes)
                        else cache_make_room c' parent bytes))"
  by pat_completeness auto

termination cache_make_room
proof (relation "measure (\<lambda>(c, p, n). length (pc_entries c))")
  show "wf (measure (\<lambda>(c :: 'v prefix_cache, p :: prefix_key option, n :: nat). length (pc_entries c)))" by simp
qed (auto dest!: evictable_in cache_remove_shrinks)

declare cache_make_room.simps [simp del]

fun cache_remove_all :: "'v prefix_cache \<Rightarrow> prefix_key list \<Rightarrow> 'v prefix_cache option" where
  "cache_remove_all c [] = Some c"
| "cache_remove_all c (key # keys) = do {
     (removed, c) \<leftarrow> cache_remove c key;
     if removed then do {
       n \<leftarrow> checked_add_u64 (pc_superseded c) 1;
       cache_remove_all (c\<lparr>pc_superseded := n\<rparr>) keys }
     else cache_remove_all c keys }"

definition superseded_keys :: "'v prefix_cache \<Rightarrow> salt \<Rightarrow> token list \<Rightarrow> prefix_key list" where
  "superseded_keys c salt tokens =
     map fst (filter (\<lambda>(key, e). ce_role e = Conversation \<and> ce_salt e = salt \<and>
       length (ce_tokens e) < length tokens \<and> prefix (ce_tokens e) tokens) (pc_entries c))"

text \<open>The checks on the parent: its key, or nothing when the insertion is refused.\<close>

definition parent_key ::
  "(byte list \<Rightarrow> byte list) \<Rightarrow> 'v prefix_cache \<Rightarrow> salt \<Rightarrow> token list \<Rightarrow> nat \<Rightarrow> token list option \<Rightarrow>
   prefix_key option option" where
  "parent_key sha c salt tokens bytes parent =
     (case parent of
        None \<Rightarrow> Some None
      | Some parent \<Rightarrow>
          let key = cache_key sha (pc_identity c) salt parent
          in case map_of (pc_entries c) key of
               None \<Rightarrow> None
             | Some e \<Rightarrow>
                 if \<not> entry_matches e salt parent then None
                 else if length tokens \<le> length parent \<or> \<not> prefix parent tokens
                   \<or> pc_budget_bytes c < saturating_add_usize (ce_bytes e) bytes then None
                 else Some (Some key))"

definition cache_insert ::
  "(byte list \<Rightarrow> byte list) \<Rightarrow> 'v prefix_cache \<Rightarrow> salt \<Rightarrow> token list \<Rightarrow> 'v \<Rightarrow> nat \<Rightarrow> prefix_role \<Rightarrow>
   token list option \<Rightarrow> (bool \<times> 'v prefix_cache) option" where
  "cache_insert sha c salt tokens v value_bytes role parent =
     (if \<not> cache_admits sha c salt tokens value_bytes then Some (False, c)
      else
        let bytes = entry_bytes value_bytes tokens
        in case parent_key sha c salt tokens bytes parent of
             None \<Rightarrow> Some (False, c)
           | Some parent \<Rightarrow> do {
               c \<leftarrow> (if role = Conversation then cache_remove_all c (superseded_keys c salt tokens)
                     else Some c);
               (room, c) \<leftarrow> cache_make_room c parent bytes;
               if \<not> room then Some (False, c)
               else do {
                 es \<leftarrow> (case Option.bind parent (map_of (pc_entries c)) of
                         None \<Rightarrow> Some (pc_entries c)
                       | Some e \<Rightarrow> do {
                           n \<leftarrow> add_usize (ce_children e) 1;
                           Some (AList.map_entry (the parent) (\<lambda>e. e\<lparr>ce_children := n\<rparr>) (pc_entries c)) });
                 clock \<leftarrow> checked_add_u64 (pc_clock c) 1;
                 used \<leftarrow> add_usize (pc_used_bytes c) bytes;
                 let key = cache_key sha (pc_identity c) salt tokens;
                     e = \<lparr>ce_tokens = tokens, ce_salt = salt, ce_value = v, ce_bytes = bytes,
                          ce_last_used = clock, ce_role = role, ce_parent = parent, ce_children = 0\<rparr>
                 in Some (True, c\<lparr>pc_clock := clock, pc_used_bytes := used,
                      pc_entries := AList.update key e es\<rparr>) } })"

definition cache_stats_of :: "'v prefix_cache \<Rightarrow> cache_stats" where
  "cache_stats_of c =
     \<lparr>cs_queries = pc_queries c, cs_hits = pc_hits c, cs_hit_tokens = pc_hit_tokens c,
      cs_evictions = pc_evictions c, cs_superseded = pc_superseded c,
      cs_entries = length (pc_entries c), cs_bytes = pc_used_bytes c,
      cs_budget_bytes = pc_budget_bytes c\<rparr>"

end
