(* ===== verification/PrefixCacheLemmas.thy ===== *)
theory PrefixCacheLemmas
  imports PrefixCache
begin

text \<open>
  The invariant of the in-memory prefix cache and what each operation does to it: removal of an
  entry nothing shares, eviction, superseding, insertion and the touch of a lookup.
\<close>

section \<open>Association lists\<close>

lemma map_entry_map:
  "distinct (map fst es) \<Longrightarrow>
   AList.map_entry k f es = map (\<lambda>x. (fst x, if fst x = k then f (snd x) else snd x)) es"
proof (induction es)
  case Nil
  then show ?case by simp
next
  case (Cons x xs)
  have "map (\<lambda>y. (fst y, if fst y = k then f (snd y) else snd y)) xs = xs" if "fst x = k"
    using Cons.prems that by (intro map_idI) (auto, metis fst_conv image_eqI)
  then show ?case using Cons by (cases x) auto
qed

lemma delete_as_filter: "AList.delete k es = filter (\<lambda>x. fst x \<noteq> k) es"
  unfolding AList.delete_eq by (rule filter_cong) auto

lemma filter_delete:
  "distinct (map fst es) \<Longrightarrow> (k, e) \<in> set es \<Longrightarrow>
   length (filter P es) = length (filter P (AList.delete k es)) + (if P (k, e) then 1 else 0)"
proof (induction es)
  case Nil
  then show ?case by simp
next
  case (Cons x xs)
  show ?case
  proof (cases "fst x = k")
    case True
    then have "x = (k, e)" using Cons.prems by (auto simp: image_iff)
    moreover have "AList.delete k xs = xs" using Cons.prems True by (simp add: delete_id)
    ultimately show ?thesis by simp
  next
    case False
    then show ?thesis using Cons by (cases x) auto
  qed
qed

lemma sum_delete:
  "distinct (map fst es) \<Longrightarrow> (k, e) \<in> set es \<Longrightarrow>
   (\<Sum>x\<leftarrow>AList.delete k es. (f x :: nat)) + f (k, e) = (\<Sum>x\<leftarrow>es. f x)"
proof (induction es)
  case Nil
  then show ?case by simp
next
  case (Cons x xs)
  show ?case
  proof (cases "fst x = k")
    case True
    then have "x = (k, e)" using Cons.prems by (auto simp: image_iff)
    moreover have "AList.delete k xs = xs" using Cons.prems True by (simp add: delete_id)
    ultimately show ?thesis by simp
  next
    case False
    then show ?thesis using Cons by (cases x) auto
  qed
qed

section \<open>The invariant\<close>

abbreviation children_of :: "prefix_key \<Rightarrow> (prefix_key \<times> 'v cache_entry) list \<Rightarrow> nat" where
  "children_of k es \<equiv> length (filter (\<lambda>x. ce_parent (snd x) = Some k) es)"

definition cache_entry_ok ::
  "(byte list \<Rightarrow> byte list) \<Rightarrow> 'v prefix_cache \<Rightarrow> prefix_key \<Rightarrow> 'v cache_entry \<Rightarrow> bool" where
  "cache_entry_ok sha c k e \<longleftrightarrow>
     k = cache_key sha (pc_identity c) (ce_salt e) (ce_tokens e) \<and> 0 < ce_bytes e \<and>
     ce_last_used e \<le> pc_clock c \<and> ce_children e = children_of k (pc_entries c) \<and>
     (0 < ce_children e \<longrightarrow> ce_role e = Preamble) \<and> (ce_role e = Preamble \<longrightarrow> ce_parent e = None) \<and>
     (\<forall>p. ce_parent e = Some p \<longrightarrow> (\<exists>pe. (p, pe) \<in> set (pc_entries c) \<and> ce_salt pe = ce_salt e \<and>
        strict_prefix (ce_tokens pe) (ce_tokens e)))"

definition cache_ok :: "(byte list \<Rightarrow> byte list) \<Rightarrow> 'v prefix_cache \<Rightarrow> bool" where
  "cache_ok sha c \<longleftrightarrow>
     distinct (map fst (pc_entries c)) \<and>
     (\<forall>(k, e) \<in> set (pc_entries c). cache_entry_ok sha c k e) \<and>
     pc_used_bytes c = (\<Sum>x\<leftarrow>pc_entries c. ce_bytes (snd x)) \<and>
     pc_used_bytes c \<le> pc_budget_bytes c \<and> pc_budget_bytes c \<le> usize_max div 2"

lemma cache_okD:
  "cache_ok sha c \<Longrightarrow> (k, e) \<in> set (pc_entries c) \<Longrightarrow> cache_entry_ok sha c k e"
  by (auto simp: cache_ok_def)

lemma cache_ok_distinct: "cache_ok sha c \<Longrightarrow> distinct (map fst (pc_entries c))"
  by (simp add: cache_ok_def)

lemma cache_ok_lookup:
  "cache_ok sha c \<Longrightarrow> map_of (pc_entries c) k = Some e \<longleftrightarrow> (k, e) \<in> set (pc_entries c)"
  by (simp add: cache_ok_def)

lemma cache_new_ok: "budget \<le> usize_max div 2 \<Longrightarrow> cache_ok sha (cache_new identity budget)"
  by (simp add: cache_ok_def cache_new_def)

lemma children_of_pos: "(k, e) \<in> set es \<Longrightarrow> ce_parent e = Some p \<Longrightarrow> 0 < children_of p es"
  by (force simp: filter_empty_conv)

text \<open>Entries compared up to the two fields that operations change in place.\<close>

definition same_core :: "'v cache_entry \<Rightarrow> 'v cache_entry \<Rightarrow> bool" where
  "same_core a b \<longleftrightarrow> a\<lparr>ce_children := 0, ce_last_used := 0\<rparr> = b\<lparr>ce_children := 0, ce_last_used := 0\<rparr>"

lemma same_core_fields:
  "same_core a b \<Longrightarrow> ce_tokens a = ce_tokens b \<and> ce_salt a = ce_salt b \<and> ce_value a = ce_value b \<and>
     ce_bytes a = ce_bytes b \<and> ce_role a = ce_role b \<and> ce_parent a = ce_parent b"
  by (cases a; cases b) (simp add: same_core_def)

lemma same_core_refl [simp]: "same_core a a"
  "same_core (a\<lparr>ce_children := n\<rparr>) a" "same_core (a\<lparr>ce_last_used := n\<rparr>) a"
  by (simp_all add: same_core_def)

lemma same_core_trans: "same_core a b \<Longrightarrow> same_core b c \<Longrightarrow> same_core a c"
  by (simp add: same_core_def)

text \<open>What stays the same when entries are only dropped: the frame of removals.\<close>

definition dropped :: "'v prefix_cache \<Rightarrow> 'v prefix_cache \<Rightarrow> bool" where
  "dropped c c' \<longleftrightarrow>
     pc_identity c' = pc_identity c \<and> pc_budget_bytes c' = pc_budget_bytes c \<and> pc_clock c' = pc_clock c \<and>
     pc_queries c' = pc_queries c \<and> pc_hits c' = pc_hits c \<and> pc_hit_tokens c' = pc_hit_tokens c \<and>
     length (pc_entries c') + pc_evictions c' \<le> length (pc_entries c) + pc_evictions c \<and>
     length (pc_entries c') + pc_superseded c' \<le> length (pc_entries c) + pc_superseded c \<and>
     (\<forall>(k, e) \<in> set (pc_entries c'). \<exists>e0. (k, e0) \<in> set (pc_entries c) \<and> same_core e e0 \<and>
        ce_last_used e = ce_last_used e0)"

lemma dropped_refl: "dropped c c"
  by (auto simp: dropped_def intro: same_core_refl)

lemma dropped_entry:
  "dropped c c' \<Longrightarrow> (k, e) \<in> set (pc_entries c') \<Longrightarrow>
   \<exists>e0. (k, e0) \<in> set (pc_entries c) \<and> same_core e e0 \<and> ce_last_used e = ce_last_used e0"
  by (auto simp: dropped_def)

lemma dropped_trans:
  assumes "dropped a b" "dropped b c"
  shows "dropped a c"
proof -
  have "\<exists>e0. (k, e0) \<in> set (pc_entries a) \<and> same_core e e0 \<and> ce_last_used e = ce_last_used e0"
    if m: "(k, e) \<in> set (pc_entries c)" for k e
  proof -
    obtain e1 where e1: "(k, e1) \<in> set (pc_entries b)" "same_core e e1" "ce_last_used e = ce_last_used e1"
      using dropped_entry [OF assms(2) m] by blast
    obtain e0 where e0: "(k, e0) \<in> set (pc_entries a)" "same_core e1 e0" "ce_last_used e1 = ce_last_used e0"
      using dropped_entry [OF assms(1) e1(1)] by blast
    have "same_core e e0" using e1(2) e0(2) by (rule same_core_trans)
    then show ?thesis using e0(1,3) e1(3) by auto
  qed
  then have "\<forall>(k, e) \<in> set (pc_entries c). \<exists>e0. (k, e0) \<in> set (pc_entries a) \<and> same_core e e0 \<and>
      ce_last_used e = ce_last_used e0" by blast
  moreover have "length (pc_entries c) + pc_evictions c \<le> length (pc_entries a) + pc_evictions a"
    "length (pc_entries c) + pc_superseded c \<le> length (pc_entries a) + pc_superseded a"
    using assms unfolding dropped_def by linarith+
  ultimately show ?thesis using assms unfolding dropped_def by simp
qed

section \<open>Removal\<close>

lemma remove_entry_ok:
  assumes ok: "cache_ok sha c" and mem: "(k, e) \<in> set (pc_entries c)" and free: "ce_children e = 0"
  shows "\<exists>c'. cache_remove c k = Some (True, c') \<and> cache_ok sha c' \<and> dropped c c' \<and>
    pc_evictions c' = pc_evictions c \<and> pc_superseded c' = pc_superseded c \<and>
    length (pc_entries c') < length (pc_entries c) \<and>
    set (map fst (pc_entries c')) = set (map fst (pc_entries c)) - {k}"
proof -
  define es where "es = pc_entries c"
  define es1 where "es1 = AList.delete k es"
  have dist: "distinct (map fst es)" using ok by (simp add: cache_ok_def es_def)
  have dist1: "distinct (map fst es1)"
    using dist by (simp add: es1_def delete_as_filter distinct_map_filter)
  have got: "map_of (pc_entries c) k = Some e" using ok mem by (simp add: cache_ok_lookup)
  have sub: "x \<in> set es1 \<longleftrightarrow> x \<in> set es \<and> fst x \<noteq> k" for x
    by (auto simp: es1_def delete_as_filter)
  have eok: "cache_entry_ok sha c k' e'" if "(k', e') \<in> set es" for k' e'
    using ok that by (simp add: cache_okD es_def)
  have no_child: "ce_parent e' \<noteq> Some k" if "(k', e') \<in> set es" for k' e'
    using children_of_pos [OF that, of k] eok [of k e] mem free by (auto simp: cache_entry_ok_def es_def)
  have counts: "children_of k' es = children_of k' es1 + (if ce_parent e = Some k' then 1 else 0)" for k'
    using filter_delete [OF dist, of k e "\<lambda>x. ce_parent (snd x) = Some k'"] mem by (simp add: es1_def es_def)
  have sum: "(\<Sum>x\<leftarrow>es1. ce_bytes (snd x)) + ce_bytes e = pc_used_bytes c"
    using sum_delete [OF dist, of k e "\<lambda>x. ce_bytes (snd x)"] mem ok by (simp add: es1_def es_def cache_ok_def)
  have sub_used: "checked_sub (pc_used_bytes c) (ce_bytes e) = Some (\<Sum>x\<leftarrow>es1. ce_bytes (snd x))"
    using sum by (auto simp: panic_simps)
  define es2 where "es2 = (case ce_parent e of None \<Rightarrow> es1 | Some p \<Rightarrow>
      AList.map_entry p (\<lambda>x. x\<lparr>ce_children := children_of p es1\<rparr>) es1)"
  have es2_map: "es2 = map (\<lambda>x. (fst x, if ce_parent e = Some (fst x)
      then (snd x)\<lparr>ce_children := children_of (fst x) es1\<rparr> else snd x)) es1"
  proof (cases "ce_parent e")
    case None
    then show ?thesis by (simp add: es2_def)
  next
    case (Some p)
    then show ?thesis unfolding es2_def using map_entry_map [OF dist1]
      by (auto intro!: map_cong)
  qed
  have es2_mem: "\<exists>e0. (k', e0) \<in> set es1 \<and> e' = (if ce_parent e = Some k' then e0\<lparr>ce_children := children_of k' es1\<rparr> else e0)"
    if "(k', e') \<in> set es2" for k' e'
    using that by (force simp: es2_map)
  have es2_keys: "map fst es2 = map fst es1" by (simp add: es2_map comp_def)
  have es2_children: "children_of k' es2 = children_of k' es1" for k'
    by (simp add: es2_map filter_map comp_def)
  have es2_bytes: "map (\<lambda>x. ce_bytes (snd x)) es2 = map (\<lambda>x. ce_bytes (snd x)) es1"
    by (simp add: es2_map)
  define c' where "c' = c\<lparr>pc_used_bytes := \<Sum>x\<leftarrow>es1. ce_bytes (snd x), pc_entries := es2\<rparr>"
  have res: "cache_remove c k = Some (True, c')"
  proof (cases "ce_parent e")
    case None
    then show ?thesis using got sub_used
      by (simp add: cache_remove_def c'_def es2_def es1_def es_def Let_def)
  next
    case (Some p)
    obtain pe where pe: "(p, pe) \<in> set es" using eok [of k e] mem Some by (auto simp: cache_entry_ok_def es_def)
    have "p \<noteq> k" using no_child [of k e] mem Some by (auto simp: es_def)
    then have p1: "map_of es1 p = Some pe" using pe dist1 sub by simp
    have "checked_sub (ce_children pe) 1 = Some (children_of p es1)"
      using eok [OF pe] counts [of p] Some by (auto simp: cache_entry_ok_def es_def panic_simps)
    then show ?thesis using got sub_used Some p1
      by (simp add: cache_remove_def c'_def es2_def es1_def es_def Let_def)
  qed
  have each: "cache_entry_ok sha c' k' e'" if m: "(k', e') \<in> set es2" for k' e'
  proof -
    obtain e0 where e0: "(k', e0) \<in> set es1"
      and e': "e' = (if ce_parent e = Some k' then e0\<lparr>ce_children := children_of k' es1\<rparr> else e0)"
      using es2_mem [OF m] by blast
    have m0: "(k', e0) \<in> set es" "k' \<noteq> k" using e0 sub by auto
    have ok0: "cache_entry_ok sha c k' e0" by (rule eok [OF m0(1)])
    have core: "same_core e' e0" using e' by simp
    have children: "ce_children e' = children_of k' es2"
      using ok0 e' counts [of k'] es2_children by (auto simp: cache_entry_ok_def es_def)
    have le: "ce_children e' \<le> ce_children e0" using children ok0 counts [of k'] es2_children
      by (simp add: cache_entry_ok_def es_def)
    have parents: "\<exists>pe. (p, pe) \<in> set es2 \<and> ce_salt pe = ce_salt e0 \<and> strict_prefix (ce_tokens pe) (ce_tokens e0)"
      if p: "ce_parent e0 = Some p" for p
    proof -
      obtain pe where pe: "(p, pe) \<in> set es" "ce_salt pe = ce_salt e0" "strict_prefix (ce_tokens pe) (ce_tokens e0)"
        using ok0 p by (auto simp: cache_entry_ok_def es_def)
      have "p \<noteq> k" using no_child [OF m0(1)] p by auto
      then have "(p, pe) \<in> set es1" using pe(1) sub by simp
      then have in2: "(p, if ce_parent e = Some p then pe\<lparr>ce_children := children_of p es1\<rparr> else pe) \<in> set es2"
        unfolding es2_map by force
      show ?thesis by (rule exI, rule conjI [OF in2]) (use pe(2,3) in simp)
    qed
    note f = same_core_fields [OF core]
    have used: "ce_last_used e' = ce_last_used e0" using e' by simp
    have "k' = cache_key sha (pc_identity c) (ce_salt e') (ce_tokens e') \<and> 0 < ce_bytes e' \<and>
        ce_last_used e' \<le> pc_clock c" "ce_role e' = Preamble \<longrightarrow> ce_parent e' = None"
      using ok0 f used by (simp_all add: cache_entry_ok_def)
    moreover have "0 < ce_children e' \<longrightarrow> ce_role e' = Preamble"
      using ok0 le f by (auto simp: cache_entry_ok_def)
    moreover have "\<forall>p. ce_parent e' = Some p \<longrightarrow> (\<exists>pe. (p, pe) \<in> set es2 \<and> ce_salt pe = ce_salt e' \<and>
        strict_prefix (ce_tokens pe) (ce_tokens e'))"
      using parents f by simp
    ultimately show ?thesis
      using children unfolding cache_entry_ok_def c'_def by simp
  qed
  have ok': "cache_ok sha c'"
    unfolding cache_ok_def
  proof (intro conjI)
    show "distinct (map fst (pc_entries c'))" using es2_keys dist1 by (simp add: c'_def)
    show "\<forall>(k, e) \<in> set (pc_entries c'). cache_entry_ok sha c' k e"
      using each by (simp add: c'_def split_beta)
    show "pc_used_bytes c' = (\<Sum>x\<leftarrow>pc_entries c'. ce_bytes (snd x))"
      unfolding c'_def using es2_bytes by simp
    have le: "pc_used_bytes c' \<le> pc_used_bytes c" using sum by (simp add: c'_def)
    show "pc_used_bytes c' \<le> pc_budget_bytes c'"
      using le ok by (simp add: c'_def cache_ok_def)
    show "pc_budget_bytes c' \<le> usize_max div 2"
      using ok by (simp add: c'_def cache_ok_def)
  qed
  have short: "length es2 < length es"
    using filter_delete [OF dist, of k e "\<lambda>_. True"] mem by (simp add: es2_map es1_def es_def)
  have old: "\<exists>e0. (k', e0) \<in> set es \<and> same_core e' e0 \<and> ce_last_used e' = ce_last_used e0"
    if m: "(k', e') \<in> set es2" for k' e'
  proof -
    obtain e0 where e0: "(k', e0) \<in> set es1"
      "e' = (if ce_parent e = Some k' then e0\<lparr>ce_children := children_of k' es1\<rparr> else e0)"
      using es2_mem [OF m] by blast
    show ?thesis by (rule exI [of _ e0]) (use e0 sub in simp)
  qed
  have drop: "dropped c c'"
    unfolding dropped_def using short old by (simp add: c'_def es_def split_beta)
  have keys: "set (map fst es2) = set (map fst es) - {k}"
    unfolding es2_keys using sub by (auto simp: image_iff)
  show ?thesis
    by (rule exI [of _ c'], intro conjI res ok' drop)
      (use short keys in \<open>simp_all add: c'_def es_def\<close>)
qed

text \<open>Removing entries nothing shares, one after the other.\<close>

lemma remove_all_ok:
  assumes "cache_ok sha c" "distinct ks" "length ks + pc_superseded c \<le> u64_max"
    and "\<forall>k\<in>set ks. \<exists>e. (k, e) \<in> set (pc_entries c) \<and> ce_role e = Conversation"
  shows "\<exists>c'. cache_remove_all c ks = Some c' \<and> cache_ok sha c' \<and> dropped c c' \<and>
    pc_evictions c' = pc_evictions c \<and> set (map fst (pc_entries c')) = set (map fst (pc_entries c)) - set ks"
  using assms
proof (induction ks arbitrary: c)
  case Nil
  then show ?case by (simp add: dropped_refl)
next
  case (Cons k ks)
  obtain e where e: "(k, e) \<in> set (pc_entries c)" "ce_role e = Conversation" using Cons.prems(4) by auto
  have "ce_children e = 0" using cache_okD [OF Cons.prems(1) e(1)] e(2) by (auto simp: cache_entry_ok_def)
  then obtain c1 where c1: "cache_remove c k = Some (True, c1)" "cache_ok sha c1" "dropped c c1"
    "pc_evictions c1 = pc_evictions c" "pc_superseded c1 = pc_superseded c"
    "length (pc_entries c1) < length (pc_entries c)"
    "set (map fst (pc_entries c1)) = set (map fst (pc_entries c)) - {k}"
    using remove_entry_ok [OF Cons.prems(1) e(1)] by blast
  let ?c = "c1\<lparr>pc_superseded := Suc (pc_superseded c1)\<rparr>"
  have ok2: "cache_ok sha ?c" using c1(2) by (simp add: cache_ok_def cache_entry_ok_def)
  have keep: "\<exists>e. (k', e) \<in> set (pc_entries ?c) \<and> ce_role e = Conversation" if k': "k' \<in> set ks" for k'
  proof -
    obtain e' where e': "(k', e') \<in> set (pc_entries c)" "ce_role e' = Conversation"
      using Cons.prems(4) k' by (meson list.set_intros(2))
    have "k' \<noteq> k" using Cons.prems(2) k' by auto
    then have "k' \<in> set (map fst (pc_entries c1))" unfolding c1(7) using e'(1) by force
    then obtain e1 where e1: "(k', e1) \<in> set (pc_entries c1)" by auto
    then obtain e0 where "(k', e0) \<in> set (pc_entries c)" "same_core e1 e0"
      using dropped_entry [OF c1(3)] by blast
    then have "ce_role e1 = Conversation"
      using e' cache_ok_distinct [OF Cons.prems(1)] same_core_fields by (metis eq_key_imp_eq_value)
    then show ?thesis using e1 by auto
  qed
  have "length ks + pc_superseded ?c \<le> u64_max" using Cons.prems(3) c1(5) by simp
  then obtain c' where c': "cache_remove_all ?c ks = Some c'" "cache_ok sha c'" "dropped ?c c'"
    "pc_evictions c' = pc_evictions ?c" "set (map fst (pc_entries c')) = set (map fst (pc_entries ?c)) - set ks"
    using Cons.IH [OF ok2] Cons.prems(2) keep by auto
  have add: "checked_add_u64 (pc_superseded c1) (Suc 0) = Some (Suc (pc_superseded c1))"
    using Cons.prems(3) c1(5) by (simp add: panic_simps)
  have "dropped c ?c" using c1(3,5,6) by (auto simp: dropped_def)
  then have "dropped c c'" using c'(3) by (rule dropped_trans)
  moreover have "set (map fst (pc_entries c')) = set (map fst (pc_entries c)) - set (k # ks)"
    using c'(5) c1(7) by auto
  ultimately show ?case using c' c1 add by simp
qed

text \<open>When nothing can be evicted only the parent is left.\<close>

lemma nothing_evictable:
  assumes ok: "cache_ok sha c" and none: "evictable c parent = None" and mem: "(k, e) \<in> set (pc_entries c)"
    and parent: "\<And>p pe. parent = Some p \<Longrightarrow> (p, pe) \<in> set (pc_entries c) \<Longrightarrow> ce_role pe = Preamble"
  shows "parent = Some k"
proof (rule ccontr)
  assume other: "parent \<noteq> Some k"
  have stuck: "0 < ce_children e' \<or> parent = Some k'" if "(k', e') \<in> set (pc_entries c)" for k' e'
    using none that by (auto simp: evictable_def filter_empty_conv)
  then have "0 < ce_children e" using mem other by blast
  then have "filter (\<lambda>x. ce_parent (snd x) = Some k) (pc_entries c) \<noteq> []"
    using cache_okD [OF ok mem] by (auto simp: cache_entry_ok_def)
  then obtain ck ce where c: "(ck, ce) \<in> set (pc_entries c)" "ce_parent ce = Some k"
    by (auto simp: filter_empty_conv)
  have "ce_role ce = Conversation"
    using cache_okD [OF ok c(1)] c(2) by (cases "ce_role ce") (auto simp: cache_entry_ok_def)
  then have "ce_children ce = 0" "parent \<noteq> Some ck"
    using cache_okD [OF ok c(1)] c(1) parent by (auto simp: cache_entry_ok_def)
  then show False using stuck [OF c(1)] by simp
qed

lemma make_room_cache_ok:
  assumes "cache_ok sha c" "length (pc_entries c) + pc_evictions c \<le> u64_max" "bytes \<le> pc_budget_bytes c"
    and "\<And>p. parent = Some p \<Longrightarrow> \<exists>pe. (p, pe) \<in> set (pc_entries c) \<and> ce_role pe = Preamble \<and>
      saturating_add_usize (ce_bytes pe) bytes \<le> pc_budget_bytes c"
  shows "\<exists>c'. cache_make_room c parent bytes = Some (True, c') \<and> cache_ok sha c' \<and> dropped c c' \<and>
    pc_superseded c' = pc_superseded c \<and> pc_used_bytes c' + bytes \<le> pc_budget_bytes c' \<and>
    (\<forall>p. parent = Some p \<longrightarrow> p \<in> set (map fst (pc_entries c')))"
  using assms
proof (induction c parent bytes rule: cache_make_room.induct)
  case (1 c parent bytes)
  have ok: "cache_ok sha c" using 1(3) .
  have add: "add_usize (pc_used_bytes c) bytes = Some (pc_used_bytes c + bytes)"
    using ok 1(5) by (auto simp: panic_simps cache_ok_def)
  show ?case
  proof (cases "pc_used_bytes c + bytes \<le> pc_budget_bytes c")
    case True
    moreover have "\<forall>p. parent = Some p \<longrightarrow> p \<in> set (map fst (pc_entries c))" using 1(6) by force
    ultimately show ?thesis using add ok by (simp add: cache_make_room.simps [of c] dropped_refl)
  next
    case False
    show ?thesis
    proof (cases "evictable c parent")
      case None
      have only: "x = (k, e)" if p: "parent = Some k" "(k, e) \<in> set (pc_entries c)" "x \<in> set (pc_entries c)" for x k e
        using nothing_evictable [OF ok None, of "fst x" "snd x"] 1(6) p cache_ok_distinct [OF ok]
        by (metis eq_key_imp_eq_value option.inject prod.collapse)
      show ?thesis
      proof (cases "pc_entries c")
        case Nil
        then show ?thesis using False ok 1(5) by (simp add: cache_ok_def)
      next
        case (Cons x xs)
        have "parent = Some (fst x)"
          using nothing_evictable [OF ok None, of "fst x" "snd x"] 1(6) cache_ok_distinct [OF ok] Cons
          by (metis eq_key_imp_eq_value list.set_intros(1) prod.collapse)
        moreover have "xs = []"
        proof (rule ccontr)
          assume "xs \<noteq> []"
          then obtain y where y: "y \<in> set xs" by (cases xs) auto
          then have "y = x" using only [of "fst x" "snd x" y] calculation Cons by simp
          then show False using y cache_ok_distinct [OF ok] Cons by auto
        qed
        ultimately have "saturating_add_usize (ce_bytes (snd x)) bytes \<le> pc_budget_bytes c"
          "pc_used_bytes c = ce_bytes (snd x)"
          using 1(6) [of "fst x"] ok Cons by (auto simp: cache_ok_def)
        then show ?thesis using False ok 1(5)
          by (auto simp: cache_ok_def saturating_add_usize_def min_def split: if_splits)
      qed
    next
      case (Some ke)
      obtain k e where ke: "ke = (k, e)" by force
      have e: "(k, e) \<in> set (pc_entries c)" "ce_children e = 0" "parent \<noteq> Some k"
        using evictable_in Some ke by blast+
      obtain c1 where c1: "cache_remove c k = Some (True, c1)" "cache_ok sha c1" "dropped c c1"
        "pc_evictions c1 = pc_evictions c" "pc_superseded c1 = pc_superseded c"
        "length (pc_entries c1) < length (pc_entries c)"
        "set (map fst (pc_entries c1)) = set (map fst (pc_entries c)) - {k}"
        using remove_entry_ok [OF ok e(1,2)] by blast
      let ?c = "c1\<lparr>pc_evictions := Suc (pc_evictions c1)\<rparr>"
      have ok2: "cache_ok sha ?c" using c1(2) by (simp add: cache_ok_def cache_entry_ok_def)
      have add1: "checked_add_u64 (pc_evictions c1) 1 = Some (Suc (pc_evictions c1))"
        using c1(4,6) 1(4) by (simp add: panic_simps)
      have few: "length (pc_entries ?c) + pc_evictions ?c \<le> u64_max" using c1(4,6) 1(4) by simp
      have budget: "bytes \<le> pc_budget_bytes ?c" using c1(3) 1(5) by (simp add: dropped_def)
      have par: "\<exists>pe. (p, pe) \<in> set (pc_entries ?c) \<and> ce_role pe = Preamble \<and>
          saturating_add_usize (ce_bytes pe) bytes \<le> pc_budget_bytes ?c" if p: "parent = Some p" for p
      proof -
        obtain pe where pe: "(p, pe) \<in> set (pc_entries c)" "ce_role pe = Preamble"
          "saturating_add_usize (ce_bytes pe) bytes \<le> pc_budget_bytes c" using 1(6) [OF p] by blast
        have "p \<in> set (map fst (pc_entries c1))" unfolding c1(7) using pe(1) e(3) p by force
        then obtain p1 where p1: "(p, p1) \<in> set (pc_entries c1)" by auto
        then obtain p0 where "(p, p0) \<in> set (pc_entries c)" "same_core p1 p0"
          using dropped_entry [OF c1(3)] by blast
        moreover from this have "p0 = pe" using pe(1) cache_ok_distinct [OF ok] by (metis eq_key_imp_eq_value)
        ultimately show ?thesis using p1 pe(2,3) same_core_fields [of p1 p0] c1(3)
          by (auto simp: dropped_def)
      qed
      have "\<exists>c'. cache_make_room ?c parent bytes = Some (True, c') \<and> cache_ok sha c' \<and> dropped ?c c' \<and>
          pc_superseded c' = pc_superseded ?c \<and> pc_used_bytes c' + bytes \<le> pc_budget_bytes c' \<and>
          (\<forall>p. parent = Some p \<longrightarrow> p \<in> set (map fst (pc_entries c')))"
        using 1(1) [OF add False Some ke [symmetric] c1(1) refl TrueI add1 ok2 few budget par] by simp
      then obtain c' where c': "cache_make_room ?c parent bytes = Some (True, c')" "cache_ok sha c'" "dropped ?c c'"
        "pc_superseded c' = pc_superseded ?c" "pc_used_bytes c' + bytes \<le> pc_budget_bytes c'"
        "\<forall>p. parent = Some p \<longrightarrow> p \<in> set (map fst (pc_entries c'))" by blast
      have "cache_make_room c parent bytes = Some (True, c')"
        using add False Some ke c1(1) add1 c'(1) by (simp add: cache_make_room.simps [of c])
      moreover have "dropped c ?c" using c1(3,4,6) by (auto simp: dropped_def)
      then have "dropped c c'" using c'(3) by (rule dropped_trans)
      ultimately show ?thesis using c' c1(5) by simp
    qed
  qed
qed

section \<open>Insertion\<close>

lemma alist_update_new: "k \<notin> set (map fst es) \<Longrightarrow> AList.update k e es = es @ [(k, e)]"
  by (induction es) auto

lemma entries_bounded:
  assumes "cache_ok sha c"
  shows "length (pc_entries c) \<le> pc_used_bytes c"
proof -
  have "length es \<le> (\<Sum>x\<leftarrow>es. ce_bytes (snd x))" if "\<forall>x\<in>set es. 0 < ce_bytes (snd x)"
    for es :: "(prefix_key \<times> 'a cache_entry) list"
    using that by (induction es) force+
  moreover have "\<forall>x\<in>set (pc_entries c). 0 < ce_bytes (snd x)"
    using cache_okD [OF assms] by (force simp: cache_entry_ok_def)
  ultimately show ?thesis using assms by (simp add: cache_ok_def)
qed

definition counted_parent :: "prefix_key option \<Rightarrow> (prefix_key \<times> 'v cache_entry) list \<Rightarrow> (prefix_key \<times> 'v cache_entry) list" where
  "counted_parent parent es =
     map (\<lambda>x. (fst x, if parent = Some (fst x) then (snd x)\<lparr>ce_children := Suc (ce_children (snd x))\<rparr> else snd x)) es"

lemma counted_parent_simps [simp]:
  "map fst (counted_parent parent es) = map fst es"
  "(\<Sum>x\<leftarrow>counted_parent parent es. ce_bytes (snd x)) = (\<Sum>x\<leftarrow>es. ce_bytes (snd x))"
  "children_of k (counted_parent parent es) = children_of k es"
  "length (counted_parent parent es) = length es"
  by (simp_all add: counted_parent_def comp_def filter_map if_distrib [of ce_bytes] if_distrib [of ce_parent] cong: if_cong)

lemma counted_parent_mem:
  "(k, e) \<in> set (counted_parent parent es) \<Longrightarrow>
   \<exists>e0. (k, e0) \<in> set es \<and> e = (if parent = Some k then e0\<lparr>ce_children := Suc (ce_children e0)\<rparr> else e0)"
  by (force simp: counted_parent_def)

lemma counted_parent_memI:
  "(k, e0) \<in> set es \<Longrightarrow>
   (k, if parent = Some k then e0\<lparr>ce_children := Suc (ce_children e0)\<rparr> else e0) \<in> set (counted_parent parent es)"
  by (force simp: counted_parent_def)

lemma add_entry_ok:
  assumes ok: "cache_ok sha c" and new: "key \<notin> set (map fst (pc_entries c))"
    and key: "key = cache_key sha (pc_identity c) salt tokens" and pos: "0 < bytes"
    and fits: "pc_used_bytes c + bytes \<le> pc_budget_bytes c"
    and role: "role = Preamble \<Longrightarrow> parent = None"
    and par: "\<And>p. parent = Some p \<Longrightarrow> \<exists>pe. (p, pe) \<in> set (pc_entries c) \<and> ce_role pe = Preamble \<and>
      ce_salt pe = salt \<and> strict_prefix (ce_tokens pe) tokens"
    and e: "e = \<lparr>ce_tokens = tokens, ce_salt = salt, ce_value = v, ce_bytes = bytes,
      ce_last_used = Suc (pc_clock c), ce_role = role, ce_parent = parent, ce_children = 0\<rparr>"
  shows "cache_ok sha (c\<lparr>pc_clock := Suc (pc_clock c), pc_used_bytes := pc_used_bytes c + bytes,
      pc_entries := counted_parent parent (pc_entries c) @ [(key, e)]\<rparr>)" (is "cache_ok sha ?c")
proof -
  let ?es = "counted_parent parent (pc_entries c)"
  have not_parent: "ce_parent e' \<noteq> Some key" if "(k, e') \<in> set (pc_entries c)" for k e'
    using cache_okD [OF ok that] new by (force simp: cache_entry_ok_def)
  have none: "children_of key (pc_entries c) = 0"
    using not_parent by (auto simp: filter_empty_conv)
  have parent_key: "parent \<noteq> Some key" using par new by force
  have old: "cache_entry_ok sha ?c k e1" if m: "(k, e1) \<in> set ?es" for k e1
  proof -
    obtain e0 where e0: "(k, e0) \<in> set (pc_entries c)"
      and e1: "e1 = (if parent = Some k then e0\<lparr>ce_children := Suc (ce_children e0)\<rparr> else e0)"
      using counted_parent_mem [OF m] by blast
    have ok0: "cache_entry_ok sha c k e0" by (rule cache_okD [OF ok e0])
    have core: "same_core e1 e0" "ce_last_used e1 = ce_last_used e0" using e1 by simp_all
    note f = same_core_fields [OF core(1)]
    have "k = cache_key sha (pc_identity c) (ce_salt e1) (ce_tokens e1) \<and> 0 < ce_bytes e1 \<and>
        ce_last_used e1 \<le> Suc (pc_clock c)" "ce_role e1 = Preamble \<longrightarrow> ce_parent e1 = None"
      using ok0 f core(2) by (simp_all add: cache_entry_ok_def)
    moreover have "ce_children e1 = children_of k (?es @ [(key, e)])"
      using ok0 e1 e by (auto simp: cache_entry_ok_def)
    moreover have "0 < ce_children e1 \<longrightarrow> ce_role e1 = Preamble"
    proof (cases "parent = Some k")
      case True
      then obtain pe where "(k, pe) \<in> set (pc_entries c)" "ce_role pe = Preamble" using par by blast
      then have "ce_role e0 = Preamble" using e0 cache_ok_distinct [OF ok] by (metis eq_key_imp_eq_value)
      then show ?thesis using f by simp
    next
      case False
      then show ?thesis using ok0 e1 by (simp add: cache_entry_ok_def)
    qed
    moreover have "\<exists>pe. (p, pe) \<in> set (?es @ [(key, e)]) \<and> ce_salt pe = ce_salt e1 \<and>
        strict_prefix (ce_tokens pe) (ce_tokens e1)" if p: "ce_parent e1 = Some p" for p
    proof -
      obtain pe where pe: "(p, pe) \<in> set (pc_entries c)" "ce_salt pe = ce_salt e0"
        "strict_prefix (ce_tokens pe) (ce_tokens e0)"
        using ok0 p f by (auto simp: cache_entry_ok_def)
      have in2: "(p, if parent = Some p then pe\<lparr>ce_children := Suc (ce_children pe)\<rparr> else pe) \<in> set (?es @ [(key, e)])"
        using counted_parent_memI [OF pe(1)] by simp
      show ?thesis by (rule exI, rule conjI [OF in2]) (use pe(2,3) f in simp)
    qed
    ultimately show ?thesis unfolding cache_entry_ok_def by simp
  qed
  have fresh: "cache_entry_ok sha ?c key e"
  proof -
    have "\<exists>pe. (p, pe) \<in> set (?es @ [(key, e)]) \<and> ce_salt pe = salt \<and> strict_prefix (ce_tokens pe) tokens"
      if p: "parent = Some p" for p
    proof -
      obtain pe where pe: "(p, pe) \<in> set (pc_entries c)" "ce_salt pe = salt" "strict_prefix (ce_tokens pe) tokens"
        using par [OF p] by blast
      have in2: "(p, if parent = Some p then pe\<lparr>ce_children := Suc (ce_children pe)\<rparr> else pe) \<in> set (?es @ [(key, e)])"
        using counted_parent_memI [OF pe(1)] by simp
      show ?thesis by (rule exI, rule conjI [OF in2]) (use pe(2,3) in simp)
    qed
    then show ?thesis
      unfolding cache_entry_ok_def using e key pos none parent_key role by auto
  qed
  have "distinct (map fst (?es @ [(key, e)]))" using cache_ok_distinct [OF ok] new by simp
  moreover have "\<forall>(k, e') \<in> set (?es @ [(key, e)]). cache_entry_ok sha ?c k e'" using old fresh by auto
  moreover have "pc_used_bytes c + bytes = (\<Sum>x\<leftarrow>?es @ [(key, e)]. ce_bytes (snd x))"
    using ok e by (simp add: cache_ok_def)
  ultimately show ?thesis using fits ok unfolding cache_ok_def by simp
qed

text \<open>An insertion: refused without a change, or done.\<close>

definition insert_allowed ::
  "(byte list \<Rightarrow> byte list) \<Rightarrow> 'v prefix_cache \<Rightarrow> salt \<Rightarrow> token list \<Rightarrow> nat \<Rightarrow> token list option \<Rightarrow> bool" where
  "insert_allowed sha c salt tokens value_bytes parent \<longleftrightarrow>
     cache_admits sha c salt tokens value_bytes \<and>
     parent_key sha c salt tokens (entry_bytes value_bytes tokens) parent \<noteq> None"

text \<open>How the sessions use parents: only a conversation has one, and it is a preamble.\<close>

definition parent_usage ::
  "(byte list \<Rightarrow> byte list) \<Rightarrow> 'v prefix_cache \<Rightarrow> salt \<Rightarrow> prefix_role \<Rightarrow> token list option \<Rightarrow> bool" where
  "parent_usage sha c salt role parent \<longleftrightarrow>
     (\<forall>p. parent = Some p \<longrightarrow> role = Conversation \<and>
       (\<forall>e. map_of (pc_entries c) (cache_key sha (pc_identity c) salt p) = Some e \<longrightarrow> ce_role e = Preamble))"

definition no_collision ::
  "(byte list \<Rightarrow> byte list) \<Rightarrow> 'v prefix_cache \<Rightarrow> salt \<Rightarrow> token list \<Rightarrow> bool" where
  "no_collision sha c salt tokens \<longleftrightarrow>
     (\<forall>(k, e) \<in> set (pc_entries c). k = cache_key sha (pc_identity c) salt tokens \<longrightarrow> entry_matches e salt tokens)"

text \<open>The counters have room.\<close>

definition cache_room :: "'v prefix_cache \<Rightarrow> bool" where
  "cache_room c \<longleftrightarrow> pc_clock c < u64_max \<and> length (pc_entries c) + pc_evictions c \<le> u64_max \<and>
     length (pc_entries c) + pc_superseded c \<le> u64_max \<and> pc_queries c < u64_max \<and> pc_hits c < u64_max"

definition supersedes :: "prefix_role \<Rightarrow> salt \<Rightarrow> token list \<Rightarrow> 'v cache_entry \<Rightarrow> bool" where
  "supersedes role salt tokens e \<longleftrightarrow>
     role = Conversation \<and> ce_role e = Conversation \<and> ce_salt e = salt \<and> strict_prefix (ce_tokens e) tokens"

lemma entry_bytes_pos: "tokens \<noteq> [] \<Longrightarrow> 0 < entry_bytes value_bytes tokens"
  by (simp add: entry_bytes_def saturating_add_usize_def saturating_mul_usize_def usize_max_def)

lemma strict_prefix_iff: "strict_prefix xs ys \<longleftrightarrow> length xs < length ys \<and> prefix xs ys"
  by (auto simp: strict_prefix_def prefix_def)

lemma superseded_step:
  assumes ok: "cache_ok sha c" and room: "cache_room c"
  shows "\<exists>c'. (if role = Conversation then cache_remove_all c (superseded_keys c salt tokens) else Some c) = Some c' \<and>
    cache_ok sha c' \<and> dropped c c' \<and> pc_evictions c' = pc_evictions c \<and>
    (\<forall>(k, e) \<in> set (pc_entries c'). \<not> supersedes role salt tokens e) \<and>
    (\<forall>(k, e) \<in> set (pc_entries c). \<not> supersedes role salt tokens e \<longrightarrow> k \<in> set (map fst (pc_entries c')))"
proof (cases "role = Conversation")
  case False
  moreover have "k \<in> set (map fst (pc_entries c))" if "(k, e) \<in> set (pc_entries c)" for k e
    using that by force
  ultimately show ?thesis using ok dropped_refl [of c] by (simp add: supersedes_def case_prod_unfold)
next
  case True
  let ?ks = "superseded_keys c salt tokens"
  have ks: "k \<in> set ?ks \<longleftrightarrow> (\<exists>e. (k, e) \<in> set (pc_entries c) \<and> supersedes role salt tokens e)" for k
    using True by (force simp: superseded_keys_def supersedes_def strict_prefix_iff)
  have "distinct ?ks"
    unfolding superseded_keys_def using cache_ok_distinct [OF ok] by (rule distinct_map_filter)
  moreover have "length ?ks \<le> length (pc_entries c)" by (simp add: superseded_keys_def)
  then have "length ?ks + pc_superseded c \<le> u64_max" using room by (simp add: cache_room_def)
  moreover have "\<forall>k\<in>set ?ks. \<exists>e. (k, e) \<in> set (pc_entries c) \<and> ce_role e = Conversation"
    using ks by (meson supersedes_def)
  ultimately obtain c' where c': "cache_remove_all c ?ks = Some c'" "cache_ok sha c'" "dropped c c'"
    "pc_evictions c' = pc_evictions c" "set (map fst (pc_entries c')) = set (map fst (pc_entries c)) - set ?ks"
    using remove_all_ok [OF ok] by blast
  have "\<not> supersedes role salt tokens e" if m: "(k, e) \<in> set (pc_entries c')" for k e
  proof
    assume sup: "supersedes role salt tokens e"
    obtain e0 where e0: "(k, e0) \<in> set (pc_entries c)" "same_core e e0" using dropped_entry [OF c'(3) m] by blast
    then have "supersedes role salt tokens e0" using sup same_core_fields [OF e0(2)] by (simp add: supersedes_def)
    then have "k \<in> set ?ks" using ks e0(1) by blast
    moreover have "k \<in> set (map fst (pc_entries c'))" using m by force
    ultimately show False using c'(5) by blast
  qed
  moreover have "k \<in> set (map fst (pc_entries c'))"
    if m: "(k, e) \<in> set (pc_entries c)" "\<not> supersedes role salt tokens e" for k e
  proof -
    have "e' = e" if "(k, e') \<in> set (pc_entries c)" for e'
      using eq_key_imp_eq_value [OF cache_ok_distinct [OF ok] m(1) that] by simp
    then have "k \<notin> set ?ks" using ks m(2) by blast
    then show ?thesis unfolding c'(5) using m(1) by force
  qed
  ultimately show ?thesis using True c' by auto
qed

text \<open>What a successful insertion leaves.\<close>

definition inserted_state ::
  "'v prefix_cache \<Rightarrow> prefix_key \<Rightarrow> salt \<Rightarrow> token list \<Rightarrow> 'v \<Rightarrow> nat \<Rightarrow> prefix_role \<Rightarrow> 'v prefix_cache \<Rightarrow> bool" where
  "inserted_state c key salt tokens v bytes role c' \<longleftrightarrow>
     pc_identity c' = pc_identity c \<and> pc_budget_bytes c' = pc_budget_bytes c \<and>
     (\<exists>e. (key, e) \<in> set (pc_entries c') \<and> ce_tokens e = tokens \<and> ce_salt e = salt \<and> ce_value e = v \<and>
        ce_bytes e = bytes \<and> ce_role e = role) \<and>
     (\<forall>(k, e) \<in> set (pc_entries c'). k = key \<or>
        (\<not> supersedes role salt tokens e \<and> (\<exists>e0. (k, e0) \<in> set (pc_entries c) \<and> same_core e e0)))"

lemma parent_key_some:
  assumes ok: "cache_ok sha c" and pk: "parent_key sha c salt tokens bytes parent = Some (Some p)"
  shows "\<exists>pt pe. parent = Some pt \<and> p = cache_key sha (pc_identity c) salt pt \<and> (p, pe) \<in> set (pc_entries c) \<and>
    ce_salt pe = salt \<and> ce_tokens pe = pt \<and> strict_prefix pt tokens \<and>
    saturating_add_usize (ce_bytes pe) bytes \<le> pc_budget_bytes c"
  using pk cache_ok_lookup [OF ok]
  by (auto simp: parent_key_def Let_def entry_matches_def strict_prefix_iff split: option.splits if_splits)

lemma cache_insert_done:
  assumes ok: "cache_ok sha c" and room: "cache_room c" and coll: "no_collision sha c salt tokens"
    and usage: "parent_usage sha c salt role parent"
    and allowed: "insert_allowed sha c salt tokens value_bytes parent"
  shows "\<exists>c'. cache_insert sha c salt tokens v value_bytes role parent = Some (True, c') \<and> cache_ok sha c' \<and>
    inserted_state c (cache_key sha (pc_identity c) salt tokens) salt tokens v (entry_bytes value_bytes tokens) role c'"
proof -
  let ?bytes = "entry_bytes value_bytes tokens"
  let ?key = "cache_key sha (pc_identity c) salt tokens"
  have adm: "cache_admits sha c salt tokens value_bytes" using allowed by (simp add: insert_allowed_def)
  obtain pk where pk: "parent_key sha c salt tokens ?bytes parent = Some pk"
    using allowed by (auto simp: insert_allowed_def)
  have budget: "?bytes \<le> pc_budget_bytes c" and ne: "tokens \<noteq> []" using adm by (simp_all add: cache_admits_def)
  have absent: "?key \<notin> set (map fst (pc_entries c))"
  proof
    assume "?key \<in> set (map fst (pc_entries c))"
    then obtain e where e: "(?key, e) \<in> set (pc_entries c)" by auto
    then have "entry_matches e salt tokens" using coll by (auto simp: no_collision_def)
    moreover have "map_of (pc_entries c) ?key = Some e" using e cache_ok_lookup [OF ok] by blast
    ultimately show False using adm by (simp add: cache_admits_def cache_contains_def)
  qed
  have par: "\<exists>pe. (p, pe) \<in> set (pc_entries c) \<and> ce_role pe = Preamble \<and> ce_salt pe = salt \<and>
      strict_prefix (ce_tokens pe) tokens \<and> saturating_add_usize (ce_bytes pe) ?bytes \<le> pc_budget_bytes c \<and>
      role = Conversation"
    if p: "pk = Some p" for p
  proof -
    obtain pt pe where t: "parent = Some pt" "p = cache_key sha (pc_identity c) salt pt" "(p, pe) \<in> set (pc_entries c)"
      "ce_salt pe = salt" "ce_tokens pe = pt" "strict_prefix pt tokens"
      "saturating_add_usize (ce_bytes pe) ?bytes \<le> pc_budget_bytes c"
      using parent_key_some [OF ok] pk p by blast
    then have "map_of (pc_entries c) p = Some pe" using cache_ok_lookup [OF ok] by simp
    then have "ce_role pe = Preamble \<and> role = Conversation" using usage t by (auto simp: parent_usage_def)
    then show ?thesis using t by blast
  qed
  obtain c1 where c1: "(if role = Conversation then cache_remove_all c (superseded_keys c salt tokens) else Some c) = Some c1"
    "cache_ok sha c1" "dropped c c1" "pc_evictions c1 = pc_evictions c"
    and gone: "\<forall>(k, e) \<in> set (pc_entries c1). \<not> supersedes role salt tokens e"
    and kept: "\<forall>(k, e) \<in> set (pc_entries c). \<not> supersedes role salt tokens e \<longrightarrow> k \<in> set (map fst (pc_entries c1))"
    using superseded_step [OF ok room] by blast
  have old: "\<exists>e0. (k, e0) \<in> set (pc_entries c) \<and> same_core e e0" if "(k, e) \<in> set (pc_entries c1)" for k e
    using dropped_entry [OF c1(3) that] by blast
  have par1: "\<exists>pe. (p, pe) \<in> set (pc_entries c1) \<and> ce_role pe = Preamble \<and> ce_salt pe = salt \<and>
      strict_prefix (ce_tokens pe) tokens \<and> saturating_add_usize (ce_bytes pe) ?bytes \<le> pc_budget_bytes c1"
    if p: "pk = Some p" for p
  proof -
    obtain pe where pe: "(p, pe) \<in> set (pc_entries c)" "ce_role pe = Preamble" "ce_salt pe = salt"
      "strict_prefix (ce_tokens pe) tokens" "saturating_add_usize (ce_bytes pe) ?bytes \<le> pc_budget_bytes c"
      using par [OF p] by blast
    have "p \<in> set (map fst (pc_entries c1))" using kept pe(1,2) by (auto simp: supersedes_def)
    then obtain p1 where p1: "(p, p1) \<in> set (pc_entries c1)" by auto
    then obtain p0 where p0: "(p, p0) \<in> set (pc_entries c)" "same_core p1 p0" using old by blast
    then have "p0 = pe" using pe(1) cache_ok_distinct [OF ok] by (metis eq_key_imp_eq_value)
    then show ?thesis using p1 pe same_core_fields [OF p0(2)] c1(3) by (auto simp: dropped_def)
  qed
  have "length (pc_entries c1) + pc_evictions c1 \<le> u64_max" "?bytes \<le> pc_budget_bytes c1"
    using c1(3) room budget by (simp_all add: dropped_def cache_room_def)
  then obtain c2 where c2: "cache_make_room c1 pk ?bytes = Some (True, c2)" "cache_ok sha c2" "dropped c1 c2"
    "pc_used_bytes c2 + ?bytes \<le> pc_budget_bytes c2" "\<forall>p. pk = Some p \<longrightarrow> p \<in> set (map fst (pc_entries c2))"
    using make_room_cache_ok [OF c1(2), of ?bytes pk] par1 by blast
  have old2: "\<exists>e0. (k, e0) \<in> set (pc_entries c1) \<and> same_core e e0" if "(k, e) \<in> set (pc_entries c2)" for k e
    using dropped_entry [OF c2(3) that] by blast
  have frame: "pc_identity c2 = pc_identity c" "pc_clock c2 = pc_clock c" "pc_budget_bytes c2 = pc_budget_bytes c"
    using c1(3) c2(3) by (simp_all add: dropped_def)
  have absent2: "?key \<notin> set (map fst (pc_entries c2))"
    using absent old old2 by (force simp: image_iff)
  have par2: "\<exists>pe. (p, pe) \<in> set (pc_entries c2) \<and> ce_role pe = Preamble \<and> ce_salt pe = salt \<and>
      strict_prefix (ce_tokens pe) tokens" if p: "pk = Some p" for p
  proof -
    obtain pe where pe: "(p, pe) \<in> set (pc_entries c1)" "ce_role pe = Preamble" "ce_salt pe = salt"
      "strict_prefix (ce_tokens pe) tokens" using par1 [OF p] by blast
    obtain p2 where p2: "(p, p2) \<in> set (pc_entries c2)" using c2(5) p by auto
    then obtain p1 where p1: "(p, p1) \<in> set (pc_entries c1)" "same_core p2 p1" using old2 by blast
    then have "p1 = pe" using pe(1) cache_ok_distinct [OF c1(2)] by (metis eq_key_imp_eq_value)
    then show ?thesis using p2 pe same_core_fields [OF p1(2)] by auto
  qed
  let ?e = "\<lparr>ce_tokens = tokens, ce_salt = salt, ce_value = v, ce_bytes = ?bytes, ce_last_used = Suc (pc_clock c2),
      ce_role = role, ce_parent = pk, ce_children = 0\<rparr>"
  let ?c = "c2\<lparr>pc_clock := Suc (pc_clock c2), pc_used_bytes := pc_used_bytes c2 + ?bytes,
      pc_entries := counted_parent pk (pc_entries c2) @ [(?key, ?e)]\<rparr>"
  have no_parent: "pk = None" if "role = Preamble" using par that by (cases pk) auto
  have ok3: "cache_ok sha ?c"
    by (rule add_entry_ok [OF c2(2) absent2 _ entry_bytes_pos [OF ne] c2(4) _ par2 refl])
      (use frame no_parent in auto)
  have counted: "(case Option.bind pk (map_of (pc_entries c2)) of
        None \<Rightarrow> Some (pc_entries c2)
      | Some e \<Rightarrow> do { n \<leftarrow> add_usize (ce_children e) 1;
          Some (AList.map_entry (the pk) (\<lambda>e. e\<lparr>ce_children := n\<rparr>) (pc_entries c2)) }) =
      Some (counted_parent pk (pc_entries c2))"
  proof (cases pk)
    case None
    then show ?thesis by (simp add: counted_parent_def map_idI)
  next
    case (Some p)
    obtain pe where pe: "(p, pe) \<in> set (pc_entries c2)" using par2 [OF Some] by blast
    then have got: "map_of (pc_entries c2) p = Some pe" using cache_ok_lookup [OF c2(2)] by simp
    have "ce_children pe \<le> length (pc_entries c2)"
      using cache_okD [OF c2(2) pe] by (simp add: cache_entry_ok_def)
    also have "\<dots> \<le> usize_max div 2"
      using entries_bounded [OF c2(2)] c2(2) by (simp add: cache_ok_def)
    finally have "add_usize (ce_children pe) 1 = Some (Suc (ce_children pe))"
      by (simp add: panic_simps usize_max_def)
    moreover have "AList.map_entry p (\<lambda>e. e\<lparr>ce_children := Suc (ce_children pe)\<rparr>) (pc_entries c2) =
        counted_parent pk (pc_entries c2)"
      unfolding map_entry_map [OF cache_ok_distinct [OF c2(2)]] counted_parent_def Some
      using pe cache_ok_distinct [OF c2(2)] by (intro map_cong refl) (auto dest: eq_key_imp_eq_value)
    ultimately show ?thesis using Some got by simp
  qed
  have adds: "checked_add_u64 (pc_clock c2) 1 = Some (Suc (pc_clock c2))"
    "add_usize (pc_used_bytes c2) ?bytes = Some (pc_used_bytes c2 + ?bytes)"
    using room frame c2(2,4) by (auto simp: panic_simps cache_room_def cache_ok_def)
  have upd: "AList.update ?key ?e (counted_parent pk (pc_entries c2)) = counted_parent pk (pc_entries c2) @ [(?key, ?e)]"
    by (rule alist_update_new) (use absent2 in simp)
  have res: "cache_insert sha c salt tokens v value_bytes role parent = Some (True, ?c)"
    unfolding cache_insert_def Let_def using adm pk c1(1) c2(1) counted adds upd frame by simp
  have "inserted_state c ?key salt tokens v ?bytes role ?c"
    unfolding inserted_state_def
  proof (intro conjI)
    show "pc_identity ?c = pc_identity c" "pc_budget_bytes ?c = pc_budget_bytes c" using frame by simp_all
    show "\<exists>e. (?key, e) \<in> set (pc_entries ?c) \<and> ce_tokens e = tokens \<and> ce_salt e = salt \<and> ce_value e = v \<and>
        ce_bytes e = ?bytes \<and> ce_role e = role"
      by (rule exI [of _ ?e]) simp
    have "\<not> supersedes role salt tokens e \<and> (\<exists>e0. (k, e0) \<in> set (pc_entries c) \<and> same_core e e0)"
      if m: "(k, e) \<in> set (counted_parent pk (pc_entries c2))" for k e
    proof -
      obtain e2 where e2: "(k, e2) \<in> set (pc_entries c2)" "same_core e e2"
        using counted_parent_mem [OF m] by (metis same_core_refl(1,2))
      then obtain e1 where e1: "(k, e1) \<in> set (pc_entries c1)" "same_core e2 e1" using old2 by blast
      then obtain e0 where e0: "(k, e0) \<in> set (pc_entries c)" "same_core e1 e0" using old by blast
      have "same_core e e1" using e2(2) e1(2) by (rule same_core_trans)
      moreover from this have "same_core e e0" using e0(2) by (rule same_core_trans)
      moreover have "\<not> supersedes role salt tokens e1" using gone e1(1) by auto
      ultimately show ?thesis using e0(1) same_core_fields [of e e1] by (auto simp: supersedes_def)
    qed
    then show "\<forall>(k, e) \<in> set (pc_entries ?c). k = ?key \<or>
        (\<not> supersedes role salt tokens e \<and> (\<exists>e0. (k, e0) \<in> set (pc_entries c) \<and> same_core e e0))"
      by auto
  qed
  then show ?thesis using res ok3 by blast
qed

lemma cache_insert_refused:
  assumes "\<not> insert_allowed sha c salt tokens value_bytes parent"
  shows "cache_insert sha c salt tokens v value_bytes role parent = Some (False, c)"
  using assms by (auto simp: insert_allowed_def cache_insert_def Let_def)

end
