(* ===== verification/PrefixCacheLookup.thy ===== *)
theory PrefixCacheLookup
  imports PrefixCacheLemmas
begin

text \<open>
  Lookups in the in-memory prefix cache: the key found belongs to the longest entry that is a
  proper prefix of the prompt, and touching it keeps the invariant.
\<close>

lemma find_map_desc:
  assumes "sorted_wrt (\<ge>) (ns :: nat list)"
  shows "find_map (\<lambda>n. if P n then Some (g n) else None) ns =
    (if \<exists>n\<in>set ns. P n then Some (g (Max {n \<in> set ns. P n})) else None)"
  using assms
proof (induction ns)
  case Nil
  then show ?case by simp
next
  case (Cons m ns)
  show ?case
  proof (cases "P m")
    case True
    have "Max {n \<in> set (m # ns). P n} = m"
      using Cons.prems True by (intro Max_eqI) auto
    then show ?thesis using True by auto
  next
    case False
    then have "{n \<in> set (m # ns). P n} = {n \<in> set ns. P n}" by auto
    then show ?thesis using Cons False by auto
  qed
qed

lemma sorted_desc: "sorted_wrt (\<ge>) (remdups_adj (rev (sort ns)))" for ns :: "nat list"
proof -
  have "sorted_wrt P ns \<Longrightarrow> sorted_wrt P (remdups_adj ns)" for P :: "nat \<Rightarrow> nat \<Rightarrow> bool" and ns
    by (induction ns rule: remdups_adj.induct) auto
  moreover have "sorted_wrt (\<ge>) (rev (sort ns))" by (simp add: sorted_wrt_rev)
  ultimately show ?thesis by blast
qed

section \<open>The longest cached proper prefix\<close>

definition covers :: "salt \<Rightarrow> token list \<Rightarrow> 'v cache_entry \<Rightarrow> bool" where
  "covers salt prompt e \<longleftrightarrow>
     ce_salt e = salt \<and> length (ce_tokens e) < length prompt \<and> prefix (ce_tokens e) prompt"

lemma covers_take:
  "covers salt prompt e \<longleftrightarrow>
   ce_salt e = salt \<and> length (ce_tokens e) < length prompt \<and> ce_tokens e = take (length (ce_tokens e)) prompt"
  by (auto simp: covers_def prefix_def) (metis append_take_drop_id)

lemma longest_tokens_Max:
  "cache_longest_tokens c salt prompt =
     (let ns = (\<lambda>x. length (ce_tokens (snd x))) ` {x \<in> set (pc_entries c). covers salt prompt (snd x)}
      in if ns = {} then None else Some (Max ns))"
proof -
  define lens where "lens = map (\<lambda>e. length (ce_tokens e)) (filter (covers salt prompt) (map snd (pc_entries c)))"
  have "set lens = (\<lambda>x. length (ce_tokens (snd x))) ` {x \<in> set (pc_entries c). covers salt prompt (snd x)}"
    by (force simp: lens_def)
  moreover have "fold max lens 0 = Max (set lens)" if "lens \<noteq> []"
  proof -
    have "fold max lens 0 = Max (set (0 # lens))" by (simp only: Max.set_eq_fold)
    also have "\<dots> = Max (set lens)" using that by simp
    finally show ?thesis .
  qed
  moreover have "cache_longest_tokens c salt prompt = (if lens = [] then None else Some (fold max lens 0))"
    unfolding cache_longest_tokens_def lens_def covers_def [abs_def] Let_def ..
  ultimately show ?thesis unfolding Let_def by (metis set_empty)
qed

lemma longest_key:
  assumes ok: "cache_ok sha c"
  shows "cache_longest sha c salt prompt =
    map_option (\<lambda>n. cache_key sha (pc_identity c) salt (take n prompt)) (cache_longest_tokens c salt prompt)"
proof -
  define key where "key n = cache_key sha (pc_identity c) salt (take n prompt)" for n
  define P where "P n \<longleftrightarrow> (\<exists>e. (key n, e) \<in> set (pc_entries c) \<and> entry_matches e salt (take n prompt))" for n
  define ns where "ns = remdups_adj (rev (sort (filter (\<lambda>n. n < length prompt) (map (\<lambda>e. length (ce_tokens e))
                      (filter (\<lambda>e. ce_salt e = salt) (map snd (pc_entries c)))))))"
  define cov where "cov = (\<lambda>x. length (ce_tokens (snd x))) ` {x \<in> set (pc_entries c). covers salt prompt (snd x)}"
  have step: "(case map_of (pc_entries c) (key n) of None \<Rightarrow> None
      | Some e \<Rightarrow> if entry_matches e salt (take n prompt) then Some (key n) else None) =
      (if P n then Some (key n) else None)" for n
  proof (cases "map_of (pc_entries c) (key n)")
    case None
    then have "\<not> P n" unfolding P_def by (metis cache_ok_lookup [OF ok] option.distinct(1))
    then show ?thesis using None by simp
  next
    case (Some e)
    then have "P n \<longleftrightarrow> entry_matches e salt (take n prompt)"
      unfolding P_def using cache_ok_lookup [OF ok, of "key n"] by (metis option.inject)
    then show ?thesis using Some by simp
  qed
  have "cache_longest sha c salt prompt = find_map (\<lambda>n. if P n then Some (key n) else None) ns"
    unfolding cache_longest_def Let_def ns_def step [unfolded key_def, symmetric] key_def ..
  also have "\<dots> = (if \<exists>n\<in>set ns. P n then Some (key (Max {n \<in> set ns. P n})) else None)"
    unfolding ns_def by (rule find_map_desc [OF sorted_desc])
  also have "{n \<in> set ns. P n} = cov"
  proof (intro equalityI subsetI)
    fix n
    assume "n \<in> {n \<in> set ns. P n}"
    then obtain e where e: "n < length prompt" "(key n, e) \<in> set (pc_entries c)" "entry_matches e salt (take n prompt)"
      by (auto simp: ns_def P_def)
    then have "covers salt prompt e" "length (ce_tokens e) = n"
      by (auto simp: covers_take entry_matches_def)
    then show "n \<in> cov" unfolding cov_def using e(2) by force
  next
    fix n
    assume "n \<in> cov"
    then obtain k e where e: "(k, e) \<in> set (pc_entries c)" "covers salt prompt e" "n = length (ce_tokens e)"
      by (auto simp: cov_def)
    then have m: "entry_matches e salt (take n prompt)" by (simp add: covers_take entry_matches_def)
    have "k = key n" using cache_okD [OF ok e(1)] m by (simp add: cache_entry_ok_def key_def entry_matches_def)
    then have "P n" unfolding P_def using e(1) m by blast
    moreover have "n \<in> set ns" unfolding ns_def using e by (force simp: covers_def)
    ultimately show "n \<in> {n \<in> set ns. P n}" by simp
  qed
  also have "(\<exists>n\<in>set ns. P n) \<longleftrightarrow> cov \<noteq> {}"
    using \<open>{n \<in> set ns. P n} = cov\<close> by blast
  finally show ?thesis
    unfolding longest_tokens_Max cov_def Let_def key_def by simp
qed

lemma longest_tokens_some:
  assumes "cache_longest_tokens c salt prompt = Some n"
  shows "(\<exists>k e. (k, e) \<in> set (pc_entries c) \<and> covers salt prompt e \<and> length (ce_tokens e) = n) \<and>
    (\<forall>(k, e) \<in> set (pc_entries c). covers salt prompt e \<longrightarrow> length (ce_tokens e) \<le> n)"
proof -
  define ns where "ns = (\<lambda>x. length (ce_tokens (snd x))) ` {x \<in> set (pc_entries c). covers salt prompt (snd x)}"
  have ns: "ns \<noteq> {}" "n = Max ns" "finite ns"
    using assms by (auto simp: longest_tokens_Max ns_def Let_def split: if_splits)
  then have "n \<in> ns" by simp
  moreover have "\<forall>(k, e) \<in> set (pc_entries c). covers salt prompt e \<longrightarrow> length (ce_tokens e) \<in> ns"
    by (force simp: ns_def)
  ultimately show ?thesis using ns by (fastforce simp: ns_def)
qed

lemma longest_tokens_none:
  "cache_longest_tokens c salt prompt = None \<longleftrightarrow> (\<forall>(k, e) \<in> set (pc_entries c). \<not> covers salt prompt e)"
  by (auto simp: longest_tokens_Max Let_def)

section \<open>Touching\<close>

definition touched :: "'v prefix_cache \<Rightarrow> 'v prefix_cache \<Rightarrow> bool" where
  "touched c c' \<longleftrightarrow>
     pc_identity c' = pc_identity c \<and> pc_budget_bytes c' = pc_budget_bytes c \<and>
     pc_used_bytes c' = pc_used_bytes c \<and> pc_clock c \<le> pc_clock c' \<and>
     (\<exists>P. pc_entries c' =
        map (\<lambda>x. (fst x, if P (fst x) then (snd x)\<lparr>ce_last_used := pc_clock c'\<rparr> else snd x)) (pc_entries c))"

lemma touched_ok:
  assumes ok: "cache_ok sha c" and t: "touched c c'"
  shows "cache_ok sha c'"
proof -
  obtain P where es': "pc_entries c' =
      map (\<lambda>x. (fst x, if P (fst x) then (snd x)\<lparr>ce_last_used := pc_clock c'\<rparr> else snd x)) (pc_entries c)"
    using t by (auto simp: touched_def)
  have frame: "pc_identity c' = pc_identity c" "pc_budget_bytes c' = pc_budget_bytes c"
      "pc_used_bytes c' = pc_used_bytes c" "pc_clock c \<le> pc_clock c'"
    using t by (simp_all add: touched_def)
  have children: "children_of k (pc_entries c') = children_of k (pc_entries c)" for k
    by (simp add: es' filter_map comp_def if_distrib [of ce_parent] cong: if_cong)
  have each: "cache_entry_ok sha c' k e" if m: "(k, e) \<in> set (pc_entries c')" for k e
  proof -
    obtain e0 where e0: "(k, e0) \<in> set (pc_entries c)" "e = (if P k then e0\<lparr>ce_last_used := pc_clock c'\<rparr> else e0)"
      using m by (auto simp: es')
    have ok0: "cache_entry_ok sha c k e0" by (rule cache_okD [OF ok e0(1)])
    have "same_core e e0" using e0(2) by simp
    note f = same_core_fields [OF this]
    have g: "ce_children e = ce_children e0" "ce_last_used e \<le> pc_clock c'"
      using e0(2) ok0 frame(4) by (simp_all add: cache_entry_ok_def)
    have "\<exists>pe. (p, pe) \<in> set (pc_entries c') \<and> ce_salt pe = ce_salt e \<and> strict_prefix (ce_tokens pe) (ce_tokens e)"
      if p: "ce_parent e = Some p" for p
    proof -
      obtain pe where pe: "(p, pe) \<in> set (pc_entries c)" "ce_salt pe = ce_salt e0" "strict_prefix (ce_tokens pe) (ce_tokens e0)"
        using ok0 p f by (auto simp: cache_entry_ok_def)
      have in2: "(p, if P p then pe\<lparr>ce_last_used := pc_clock c'\<rparr> else pe) \<in> set (pc_entries c')"
        unfolding es' using pe(1) by force
      show ?thesis by (rule exI, rule conjI [OF in2]) (use pe(2,3) f in simp)
    qed
    then show ?thesis
      using ok0 f g children frame(1) unfolding cache_entry_ok_def by simp
  qed
  have "map fst (pc_entries c') = map fst (pc_entries c)"
    "map (\<lambda>x. ce_bytes (snd x)) (pc_entries c') = map (\<lambda>x. ce_bytes (snd x)) (pc_entries c)"
    by (simp_all add: es')
  then show ?thesis using each ok frame unfolding cache_ok_def by (auto simp del: map_map)
qed

lemma touch_two:
  assumes "distinct (map fst es)"
  shows "AList.map_entry a (\<lambda>e. e\<lparr>ce_last_used := t\<rparr>) es =
      map (\<lambda>x. (fst x, if fst x = a then (snd x)\<lparr>ce_last_used := t\<rparr> else snd x)) es \<and>
    AList.map_entry b (\<lambda>e. e\<lparr>ce_last_used := t\<rparr>) (AList.map_entry a (\<lambda>e. e\<lparr>ce_last_used := t\<rparr>) es) =
      map (\<lambda>x. (fst x, if fst x = a \<or> fst x = b then (snd x)\<lparr>ce_last_used := t\<rparr> else snd x)) es"
  using assms by (simp add: map_entry_map comp_def)

text \<open>What a lookup does: count, and touch the entry found and its parent.\<close>

lemma cache_lookup_result:
  assumes ok: "cache_ok sha c" and room: "cache_room c" "pc_hit_tokens c + length prompt \<le> u64_max"
  shows "\<exists>hit c'. cache_lookup sha c salt prompt = Some (hit, c') \<and> cache_ok sha c' \<and> touched c c' \<and>
    (case cache_longest_tokens c salt prompt of
       None \<Rightarrow> hit = None
     | Some n \<Rightarrow> \<exists>e. (cache_key sha (pc_identity c) salt (take n prompt), e) \<in> set (pc_entries c) \<and>
         ce_salt e = salt \<and> ce_tokens e = take n prompt \<and> n < length prompt \<and> hit = Some (n, ce_value e))"
proof (cases "cache_longest_tokens c salt prompt")
  case None
  let ?c = "c\<lparr>pc_queries := Suc (pc_queries c)\<rparr>"
  have t: "touched c ?c" unfolding touched_def by (auto intro: exI [of _ "\<lambda>_. False"])
  have "cache_longest sha ?c salt prompt = None"
    using longest_key [OF touched_ok [OF ok t]] None by (simp add: cache_longest_tokens_def)
  moreover have "checked_add_u64 (pc_queries c) 1 = Some (Suc (pc_queries c))"
    using room(1) by (simp add: cache_room_def panic_simps)
  ultimately have "cache_lookup sha c salt prompt = Some (None, ?c)"
    by (simp add: cache_lookup_def)
  then show ?thesis using None t touched_ok [OF ok t] by simp
next
  case (Some n)
  obtain k e where e: "(k, e) \<in> set (pc_entries c)" "covers salt prompt e" "length (ce_tokens e) = n"
    using longest_tokens_some [OF Some] by blast
  have et: "ce_tokens e = take n prompt" "ce_salt e = salt" "n < length prompt"
    using e(2,3) by (simp_all add: covers_take)
  have k: "k = cache_key sha (pc_identity c) salt (take n prompt)"
    using cache_okD [OF ok e(1)] et by (simp add: cache_entry_ok_def)
  let ?q = "c\<lparr>pc_queries := Suc (pc_queries c)\<rparr>"
  have tq: "touched c ?q" unfolding touched_def by (auto intro: exI [of _ "\<lambda>_. False"])
  have key: "cache_longest sha ?q salt prompt = Some k"
    using longest_key [OF touched_ok [OF ok tq]] Some k by (simp add: cache_longest_tokens_def)
  let ?t = "Suc (pc_clock c)"
  define P where "P k' \<longleftrightarrow> k' = k \<or> ce_parent e = Some k'" for k'
  define es where "es = map (\<lambda>x. (fst x, if P (fst x) then (snd x)\<lparr>ce_last_used := ?t\<rparr> else snd x)) (pc_entries c)"
  have dist: "distinct (map fst (pc_entries c))" by (rule cache_ok_distinct [OF ok])
  have got: "map_of (pc_entries c) k = Some e" using e(1) dist by simp
  have es: "(case ce_parent e of None \<Rightarrow> AList.map_entry k (\<lambda>e. e\<lparr>ce_last_used := ?t\<rparr>) (pc_entries c)
      | Some p \<Rightarrow> AList.map_entry p (\<lambda>e. e\<lparr>ce_last_used := ?t\<rparr>)
          (AList.map_entry k (\<lambda>e. e\<lparr>ce_last_used := ?t\<rparr>) (pc_entries c))) = es"
  proof (cases "ce_parent e")
    case None
    then show ?thesis using touch_two [OF dist, of k ?t] by (simp add: es_def P_def)
  next
    case (Some p)
    then show ?thesis using touch_two [OF dist, of k ?t p, THEN conjunct2]
      by (simp add: es_def P_def eq_commute [of p])
  qed
  have in_es: "(k, e\<lparr>ce_last_used := ?t\<rparr>) \<in> set es" unfolding es_def using e(1) by (force simp: P_def)
  moreover have "distinct (map fst es)" using dist by (simp add: es_def comp_def)
  ultimately have got': "map_of es k = Some (e\<lparr>ce_last_used := ?t\<rparr>)" by simp
  let ?c = "c\<lparr>pc_queries := Suc (pc_queries c), pc_clock := ?t, pc_entries := es, pc_hits := Suc (pc_hits c),
      pc_hit_tokens := pc_hit_tokens c + n\<rparr>"
  have adds: "checked_add_u64 (pc_queries c) 1 = Some (Suc (pc_queries c))"
    "checked_add_u64 (pc_clock c) 1 = Some ?t" "checked_add_u64 (pc_hits c) 1 = Some (Suc (pc_hits c))"
    "checked_add_u64 (pc_hit_tokens c) n = Some (pc_hit_tokens c + n)"
    using room et(3) by (simp_all add: cache_room_def panic_simps)
  have "cache_lookup sha c salt prompt = Some (Some (n, ce_value e), ?c)"
    using adds key got es got' e(3) unfolding cache_lookup_def Let_def by (cases "ce_parent e") simp_all
  moreover have t: "touched c ?c" unfolding touched_def es_def by auto
  ultimately show ?thesis using Some touched_ok [OF ok t] e(1) et k by auto
qed

end
