(* ===== verification/PrefixCacheProperties.thy ===== *)
theory PrefixCacheProperties
  imports PrefixCacheLookup
begin

text \<open>
  The in-memory prefix cache as a bounded partial map from salted token lists to values: inserting
  and looking up refine the map, along every run a lookup returns what was inserted last for
  exactly those tokens and salt, and no operation can overflow or underflow its accounting.
\<close>

section \<open>The map a cache stands for\<close>

definition cache_map :: "'v prefix_cache \<Rightarrow> salt \<times> token list \<rightharpoonup> 'v" where
  "cache_map c = map_of (map (\<lambda>x. ((ce_salt (snd x), ce_tokens (snd x)), ce_value (snd x))) (pc_entries c))"

lemma cache_map_Some:
  assumes "cache_ok sha c"
  shows "cache_map c (salt, tokens) = Some v \<longleftrightarrow>
    (\<exists>k e. (k, e) \<in> set (pc_entries c) \<and> ce_salt e = salt \<and> ce_tokens e = tokens \<and> ce_value e = v)"
proof -
  have inj: "x = y" if "x \<in> set (pc_entries c)" "y \<in> set (pc_entries c)"
    "ce_salt (snd x) = ce_salt (snd y)" "ce_tokens (snd x) = ce_tokens (snd y)" for x y
  proof -
    have "fst x = fst y"
      using cache_okD [OF assms, of "fst x" "snd x"] cache_okD [OF assms, of "fst y" "snd y"] that
      by (simp add: cache_entry_ok_def)
    then show ?thesis using that eq_key_imp_eq_value [OF cache_ok_distinct [OF assms]] by (metis prod.collapse)
  qed
  have "distinct (pc_entries c)" using cache_ok_distinct [OF assms] by (simp add: distinct_map)
  then have "distinct (map (\<lambda>x. (ce_salt (snd x), ce_tokens (snd x))) (pc_entries c))"
    using inj by (auto simp: distinct_map inj_on_def)
  then have "distinct (map fst (map (\<lambda>x. ((ce_salt (snd x), ce_tokens (snd x)), ce_value (snd x))) (pc_entries c)))"
    by (simp add: comp_def)
  then show ?thesis unfolding cache_map_def by (simp only: map_of_eq_Some_iff) force
qed

lemma cache_map_in:
  "cache_ok sha c \<Longrightarrow> (k, e) \<in> set (pc_entries c) \<Longrightarrow> cache_map c (ce_salt e, ce_tokens e) = Some (ce_value e)"
  using cache_map_Some [of sha c "ce_salt e" "ce_tokens e" "ce_value e"] by blast

lemma cache_map_covers:
  assumes "cache_ok sha c" "strict_prefix tokens prompt" "cache_map c (salt, tokens) = Some v"
  shows "\<exists>k e. (k, e) \<in> set (pc_entries c) \<and> covers salt prompt e \<and> ce_tokens e = tokens"
  using assms(2,3) cache_map_Some [OF assms(1), of salt tokens v]
  by (auto simp: covers_def strict_prefix_iff)

lemma touched_map: "touched c c' \<Longrightarrow> cache_map c' = cache_map c"
  unfolding touched_def cache_map_def
  by (auto simp: comp_def if_distrib [of ce_salt] if_distrib [of ce_tokens] if_distrib [of ce_value] cong: if_cong)

lemma inserted_map:
  assumes ok: "cache_ok sha c" "cache_ok sha c'"
    and ins: "inserted_state c (cache_key sha (pc_identity c) salt tokens) salt tokens v bytes role c'"
  shows "cache_map c' \<subseteq>\<^sub>m (cache_map c)((salt, tokens) \<mapsto> v) \<and> cache_map c' (salt, tokens) = Some v"
proof -
  let ?key = "cache_key sha (pc_identity c) salt tokens"
  obtain e where e: "(?key, e) \<in> set (pc_entries c')" "ce_tokens e = tokens" "ce_salt e = salt" "ce_value e = v"
    using ins by (auto simp: inserted_state_def)
  have new: "cache_map c' (salt, tokens) = Some v" using cache_map_in [OF ok(2) e(1)] e by simp
  have "((cache_map c)((salt, tokens) \<mapsto> v)) (s, t) = Some w" if w: "cache_map c' (s, t) = Some w" for s t w
  proof (cases "(s, t) = (salt, tokens)")
    case True
    then show ?thesis using new w by simp
  next
    case False
    obtain k e' where e': "(k, e') \<in> set (pc_entries c')" "ce_salt e' = s" "ce_tokens e' = t" "ce_value e' = w"
      using w cache_map_Some [OF ok(2)] by blast
    have "k \<noteq> ?key"
      using eq_key_imp_eq_value [OF cache_ok_distinct [OF ok(2)] e(1), of e'] e' e(2,3) False by auto
    then obtain e0 where e0: "(k, e0) \<in> set (pc_entries c)" "same_core e' e0"
      using ins e'(1) unfolding inserted_state_def by fast
    then have "cache_map c (s, t) = Some w"
      using cache_map_in [OF ok(1) e0(1)] same_core_fields [OF e0(2)] e' by simp
    then show ?thesis using False by auto
  qed
  then have "((cache_map c)((salt, tokens) \<mapsto> v)) x = Some w" if "cache_map c' x = Some w" for x w
    using that by (cases x) blast
  then have "cache_map c' \<subseteq>\<^sub>m (cache_map c)((salt, tokens) \<mapsto> v)"
    unfolding map_le_def by (metis domD)
  then show ?thesis using new by simp
qed

text \<open>The specification of a lookup: the longest proper prefix of the prompt the map knows.\<close>

definition spec_lookup :: "(salt \<times> token list \<rightharpoonup> 'v) \<Rightarrow> salt \<Rightarrow> token list \<Rightarrow> (nat \<times> 'v) option" where
  "spec_lookup m salt prompt =
     find_map (\<lambda>n. map_option (Pair n) (m (salt, take n prompt))) (rev [0..<length prompt])"

lemma find_map_descending:
  "(\<forall>m. n < m \<and> m < N \<longrightarrow> f m = None) \<Longrightarrow> n < N \<Longrightarrow> f n = Some y \<Longrightarrow> find_map f (rev [0..<N]) = Some y"
proof (induction N)
  case 0
  then show ?case by simp
next
  case (Suc N)
  show ?case
  proof (cases "n = N")
    case True
    then show ?thesis using Suc.prems(3) by simp
  next
    case False
    then have "f N = None" "n < N" using Suc.prems(1,2) by auto
    then show ?thesis using Suc by simp
  qed
qed

lemma find_map_none: "(\<forall>n\<in>set ns. f n = None) \<Longrightarrow> find_map f ns = None"
  by (induction ns) auto

lemma spec_lookup_longest:
  assumes ok: "cache_ok sha c"
  shows "spec_lookup (cache_map c) salt prompt =
    map_option (\<lambda>n. (n, the (cache_map c (salt, take n prompt)))) (cache_longest_tokens c salt prompt)"
proof (cases "cache_longest_tokens c salt prompt")
  case None
  have "cache_map c (salt, take n prompt) = None" if "n < length prompt" for n
  proof (rule ccontr)
    assume "cache_map c (salt, take n prompt) \<noteq> None"
    then obtain v where v: "cache_map c (salt, take n prompt) = Some v" by blast
    have "strict_prefix (take n prompt) prompt" using that by (simp add: strict_prefix_iff take_is_prefix)
    then show False using cache_map_covers [OF ok _ v] None by (auto simp: longest_tokens_none)
  qed
  then show ?thesis using None unfolding spec_lookup_def by (simp add: find_map_none)
next
  case (Some n)
  obtain k e where e: "(k, e) \<in> set (pc_entries c)" "covers salt prompt e" "length (ce_tokens e) = n"
    and top: "\<forall>(k, e) \<in> set (pc_entries c). covers salt prompt e \<longrightarrow> length (ce_tokens e) \<le> n"
    using longest_tokens_some [OF Some] by blast
  have n: "n < length prompt" and et: "ce_salt e = salt" "ce_tokens e = take n prompt"
    using e(2,3) by (simp_all add: covers_take)
  have v: "cache_map c (salt, take n prompt) = Some (ce_value e)" using cache_map_in [OF ok e(1)] et by simp
  have "cache_map c (salt, take m prompt) = None" if m: "n < m" "m < length prompt" for m
  proof (rule ccontr)
    assume "cache_map c (salt, take m prompt) \<noteq> None"
    then obtain w where w: "cache_map c (salt, take m prompt) = Some w" by blast
    have "strict_prefix (take m prompt) prompt" using m(2) by (simp add: strict_prefix_iff take_is_prefix)
    then obtain k' e' where "(k', e') \<in> set (pc_entries c)" "covers salt prompt e'" "ce_tokens e' = take m prompt"
      using cache_map_covers [OF ok _ w] by blast
    then have "m \<le> n" using top m(2) by fastforce
    then show False using m(1) by simp
  qed
  then have "spec_lookup (cache_map c) salt prompt = Some (n, ce_value e)"
    unfolding spec_lookup_def by (intro find_map_descending [of n]) (use n v in auto)
  then show ?thesis using Some v by simp
qed

lemma cache_lookup_spec:
  assumes "cache_ok sha c" "cache_room c" "pc_hit_tokens c + length prompt \<le> u64_max"
  shows "\<exists>c'. cache_lookup sha c salt prompt = Some (spec_lookup (cache_map c) salt prompt, c') \<and>
    cache_ok sha c' \<and> touched c c'"
proof -
  obtain hit c' where r: "cache_lookup sha c salt prompt = Some (hit, c')" "cache_ok sha c'" "touched c c'"
    and h: "case cache_longest_tokens c salt prompt of None \<Rightarrow> hit = None
     | Some n \<Rightarrow> \<exists>e. (cache_key sha (pc_identity c) salt (take n prompt), e) \<in> set (pc_entries c) \<and>
         ce_salt e = salt \<and> ce_tokens e = take n prompt \<and> n < length prompt \<and> hit = Some (n, ce_value e)"
    using cache_lookup_result [OF assms] by blast
  have "hit = spec_lookup (cache_map c) salt prompt"
  proof (cases "cache_longest_tokens c salt prompt")
    case None
    then show ?thesis using h spec_lookup_longest [OF assms(1)] by simp
  next
    case (Some n)
    then obtain e where e: "(cache_key sha (pc_identity c) salt (take n prompt), e) \<in> set (pc_entries c)"
      "ce_salt e = salt" "ce_tokens e = take n prompt" "hit = Some (n, ce_value e)" using h by auto
    then have "cache_map c (salt, take n prompt) = Some (ce_value e)"
      using cache_map_in [OF assms(1) e(1)] by simp
    then show ?thesis using e(4) Some spec_lookup_longest [OF assms(1)] by simp
  qed
  then show ?thesis using r by blast
qed

lemma cache_contains_map:
  assumes "cache_ok sha c"
  shows "cache_contains sha c salt tokens \<longleftrightarrow> cache_map c (salt, tokens) \<noteq> None"
    and "cache_get sha c salt tokens = cache_map c (salt, tokens)"
proof -
  let ?key = "cache_key sha (pc_identity c) salt tokens"
  have get: "cache_get sha c salt tokens = Some v \<longleftrightarrow> cache_map c (salt, tokens) = Some v" for v
  proof
    assume "cache_get sha c salt tokens = Some v"
    then obtain e where "map_of (pc_entries c) ?key = Some e" "entry_matches e salt tokens" "ce_value e = v"
      by (auto simp: cache_get_def split: option.splits if_splits)
    moreover from this have "(?key, e) \<in> set (pc_entries c)" using cache_ok_lookup [OF assms] by simp
    ultimately show "cache_map c (salt, tokens) = Some v"
      using cache_map_Some [OF assms] by (auto simp: entry_matches_def)
  next
    assume "cache_map c (salt, tokens) = Some v"
    then obtain k e where e: "(k, e) \<in> set (pc_entries c)" "ce_salt e = salt" "ce_tokens e = tokens" "ce_value e = v"
      using cache_map_Some [OF assms] by blast
    moreover have "k = ?key" using cache_okD [OF assms e(1)] e by (simp add: cache_entry_ok_def)
    ultimately have "map_of (pc_entries c) ?key = Some e" using cache_ok_lookup [OF assms] by simp
    then show "cache_get sha c salt tokens = Some v" using e by (simp add: cache_get_def entry_matches_def)
  qed
  then show *: "cache_get sha c salt tokens = cache_map c (salt, tokens)"
    by (metis option.exhaust)
  show "cache_contains sha c salt tokens \<longleftrightarrow> cache_map c (salt, tokens) \<noteq> None"
    unfolding * [symmetric] by (auto simp: cache_get_def cache_contains_def split: option.splits)
qed

lemma parent_key_iff:
  assumes ok: "cache_ok sha c"
  shows "parent_key sha c salt tokens bytes parent \<noteq> None \<longleftrightarrow>
    (\<forall>p. parent = Some p \<longrightarrow> strict_prefix p tokens \<and>
       (\<exists>k e. (k, e) \<in> set (pc_entries c) \<and> ce_salt e = salt \<and> ce_tokens e = p \<and>
          saturating_add_usize (ce_bytes e) bytes \<le> pc_budget_bytes c))"
proof (cases parent)
  case None
  then show ?thesis by (simp add: parent_key_def)
next
  case (Some p)
  let ?key = "cache_key sha (pc_identity c) salt p"
  have key: "k = ?key" if "(k, e) \<in> set (pc_entries c)" "ce_salt e = salt" "ce_tokens e = p" for k e
    using cache_okD [OF ok that(1)] that by (simp add: cache_entry_ok_def)
  show ?thesis
  proof (cases "map_of (pc_entries c) ?key")
    case None
    then have "(?key, e) \<notin> set (pc_entries c)" for e using cache_ok_lookup [OF ok, of ?key e] by simp
    then show ?thesis using None Some key by (auto simp: parent_key_def)
  next
    case e: (Some e)
    then have m: "(?key, e) \<in> set (pc_entries c)" using cache_ok_lookup [OF ok] by simp
    have only: "e' = e" if "(k, e') \<in> set (pc_entries c)" "ce_salt e' = salt" "ce_tokens e' = p" for k e'
      using key [OF that] that(1) m eq_key_imp_eq_value [OF cache_ok_distinct [OF ok]] by blast
    have "parent_key sha c salt tokens bytes parent \<noteq> None \<longleftrightarrow> entry_matches e salt p \<and> strict_prefix p tokens \<and>
        saturating_add_usize (ce_bytes e) bytes \<le> pc_budget_bytes c"
      using Some e by (auto simp: parent_key_def strict_prefix_iff)
    then show ?thesis using Some m only by (auto simp: entry_matches_def)
  qed
qed

lemma inserted_longest:
  assumes "cache_ok sha c'" "inserted_state c (cache_key sha (pc_identity c) salt tokens) salt tokens v bytes role c'"
    and m: "(k, e) \<in> set (pc_entries c')" "ce_role e = Conversation" "ce_salt e = salt" "role = Conversation"
  shows "\<not> strict_prefix (ce_tokens e) tokens"
proof (cases "k = cache_key sha (pc_identity c) salt tokens")
  case True
  then obtain e' where "(k, e') \<in> set (pc_entries c')" "ce_tokens e' = tokens"
    using assms(2) by (auto simp: inserted_state_def)
  then have "ce_tokens e = tokens"
    using eq_key_imp_eq_value [OF cache_ok_distinct [OF assms(1)] m(1)] by auto
  then show ?thesis by simp
next
  case False
  then have "\<not> supersedes role salt tokens e"
    using assms(2) m(1) unfolding inserted_state_def by fast
  then show ?thesis using m by (simp add: supersedes_def)
qed

lemma spec_lookup_hit:
  assumes "spec_lookup m salt prompt = Some (n, v)"
  shows "m (salt, take n prompt) = Some v \<and> n < length prompt"
proof -
  have "find_map (\<lambda>n. map_option (Pair n) (m (salt, take n prompt))) ns = Some (n, v) \<Longrightarrow>
      n \<in> set ns \<and> m (salt, take n prompt) = Some v" for ns
    by (induction ns) (auto split: option.splits)
  from this [OF assms [unfolded spec_lookup_def]] show ?thesis by simp
qed

lemma cache_peek_spec:
  assumes ok: "cache_ok sha c"
  shows "cache_peek sha c salt prompt = map_option snd (spec_lookup (cache_map c) salt prompt)"
proof (cases "cache_longest_tokens c salt prompt")
  case None
  then show ?thesis using spec_lookup_longest [OF ok] longest_key [OF ok] by (simp add: cache_peek_def)
next
  case (Some n)
  obtain k e where e: "(k, e) \<in> set (pc_entries c)" "covers salt prompt e" "length (ce_tokens e) = n"
    using longest_tokens_some [OF Some] by blast
  have et: "ce_salt e = salt" "ce_tokens e = take n prompt" using e(2,3) by (simp_all add: covers_take)
  have "k = cache_key sha (pc_identity c) salt (take n prompt)"
    using cache_okD [OF ok e(1)] et by (simp add: cache_entry_ok_def)
  then have "map_of (pc_entries c) (cache_key sha (pc_identity c) salt (take n prompt)) = Some e"
    using e(1) cache_ok_lookup [OF ok] by blast
  moreover have "cache_map c (salt, take n prompt) = Some (ce_value e)" using cache_map_in [OF ok e(1)] et by simp
  ultimately show ?thesis using Some spec_lookup_longest [OF ok] longest_key [OF ok] by (simp add: cache_peek_def)
qed

section \<open>Runs\<close>

text \<open>
  A run of the cache together with what it was told: \<open>told\<close> maps salted tokens to the value of
  the last insertion that reported success. Callers insert only without hash collisions among
  what the cache holds, and with preambles as parents of conversations.
\<close>

inductive cache_run ::
  "(byte list \<Rightarrow> byte list) \<Rightarrow> byte list \<Rightarrow> nat \<Rightarrow> (salt \<times> token list \<rightharpoonup> 'v) \<times> 'v prefix_cache \<Rightarrow> bool"
  for sha identity_bytes budget where
  New: "budget \<le> usize_max div 2 \<Longrightarrow>
    cache_run sha identity_bytes budget (Map.empty, cache_new identity_bytes budget)"
| Insert: "cache_run sha identity_bytes budget (told, c) \<Longrightarrow> cache_room c \<Longrightarrow> no_collision sha c salt tokens \<Longrightarrow>
    parent_usage sha c salt role parent \<Longrightarrow>
    cache_insert sha c salt tokens v value_bytes role parent = Some (success, c') \<Longrightarrow>
    cache_run sha identity_bytes budget (if success then told((salt, tokens) \<mapsto> v) else told, c')"
| Lookup: "cache_run sha identity_bytes budget (told, c) \<Longrightarrow> cache_room c \<Longrightarrow>
    pc_hit_tokens c + length prompt \<le> u64_max \<Longrightarrow> cache_lookup sha c salt prompt = Some (hit, c') \<Longrightarrow>
    cache_run sha identity_bytes budget (told, c')"

lemma cache_insert_cases:
  assumes "cache_ok sha c" "cache_room c" "no_collision sha c salt tokens" "parent_usage sha c salt role parent"
    and r: "cache_insert sha c salt tokens v value_bytes role parent = Some (success, c')"
  shows "cache_ok sha c' \<and> pc_identity c' = pc_identity c \<and> pc_budget_bytes c' = pc_budget_bytes c \<and>
    (success \<longleftrightarrow> insert_allowed sha c salt tokens value_bytes parent) \<and> (\<not> success \<longrightarrow> c' = c) \<and>
    (success \<longrightarrow> cache_map c' \<subseteq>\<^sub>m (cache_map c)((salt, tokens) \<mapsto> v) \<and> cache_map c' (salt, tokens) = Some v)"
proof (cases "insert_allowed sha c salt tokens value_bytes parent")
  case True
  have res: "success" "cache_ok sha c'"
    and ins: "inserted_state c (cache_key sha (pc_identity c) salt tokens) salt tokens v
      (entry_bytes value_bytes tokens) role c'"
    using cache_insert_done [OF assms(1-4) True, of v] r by auto
  show ?thesis using res True inserted_map [OF assms(1) res(2) ins] ins by (simp add: inserted_state_def)
next
  case False
  then show ?thesis using cache_insert_refused [OF False, of v role] r assms(1) by simp
qed

lemma run_ok:
  assumes "cache_run sha identity_bytes budget x"
  shows "cache_ok sha (snd x) \<and> cache_map (snd x) \<subseteq>\<^sub>m fst x \<and> pc_budget_bytes (snd x) = budget"
  using assms
proof induction
  case New
  then show ?case using cache_new_ok by (simp add: cache_map_def cache_new_def)
next
  case (Insert told c salt tokens role parent v value_bytes success c')
  have step: "cache_ok sha c' \<and> pc_identity c' = pc_identity c \<and> pc_budget_bytes c' = pc_budget_bytes c \<and>
    (success \<longleftrightarrow> insert_allowed sha c salt tokens value_bytes parent) \<and> (\<not> success \<longrightarrow> c' = c) \<and>
    (success \<longrightarrow> cache_map c' \<subseteq>\<^sub>m (cache_map c)((salt, tokens) \<mapsto> v) \<and> cache_map c' (salt, tokens) = Some v)"
    by (rule cache_insert_cases [OF _ Insert.hyps(2-5)]) (use Insert.IH in simp)
  have "cache_map c' \<subseteq>\<^sub>m told((salt, tokens) \<mapsto> v)" if success
  proof -
    have "cache_map c \<subseteq>\<^sub>m told" using Insert.IH by simp
    then have "(cache_map c)((salt, tokens) \<mapsto> v) \<subseteq>\<^sub>m told((salt, tokens) \<mapsto> v)" by (rule map_le_upd)
    then show ?thesis using step that map_le_trans by blast
  qed
  then show ?case using step Insert.IH by simp
next
  case (Lookup told c prompt salt hit c')
  have "\<exists>c''. cache_lookup sha c salt prompt = Some (spec_lookup (cache_map c) salt prompt, c'') \<and>
    cache_ok sha c'' \<and> touched c c''"
    by (rule cache_lookup_spec [OF _ Lookup.hyps(2,3)]) (use Lookup.IH in simp)
  then have t: "cache_ok sha c'" "touched c c'" using Lookup.hyps(4) by auto
  show ?case using Lookup.IH t(1) touched_map [OF t(2)] t(2) by (simp add: touched_def)
qed

section \<open>Properties\<close>

text \<open>C26: Inserting refines the update of a bounded partial map, for inserts as the callers make them:
  only a conversation entry names a parent, and the parent it names, if cached, is a preamble entry (\<open>parent_usage\<close>; a
  conversation entry as parent would be superseded by its own child), the counters have room and no
  cached entry of another context has the new key. Such an insert never panics (no byte or child count wraps), it reports success exactly when the entry is new, nonempty and within the budget
  and its parent, when it names one, is a cached proper prefix that fits beside it; a refusal
  changes nothing; a success leaves the value under its salt and tokens, never invents or alters
  another entry, removes every shorter turn the new conversation entry extends, and keeps the
  invariant.\<close>

theorem insert_refines_map_update:
  assumes "cache_ok sha c" "cache_room c" "no_collision sha c salt tokens" "parent_usage sha c salt role parent"
  shows "\<exists>success c'. cache_insert sha c salt tokens v value_bytes role parent = Some (success, c') \<and> cache_ok sha c' \<and>
    (success \<longleftrightarrow> tokens \<noteq> [] \<and> entry_bytes value_bytes tokens \<le> pc_budget_bytes c \<and>
       cache_map c (salt, tokens) = None \<and>
       (\<forall>p. parent = Some p \<longrightarrow> strict_prefix p tokens \<and>
          (\<exists>k e. (k, e) \<in> set (pc_entries c) \<and> ce_salt e = salt \<and> ce_tokens e = p \<and>
             saturating_add_usize (ce_bytes e) (entry_bytes value_bytes tokens) \<le> pc_budget_bytes c))) \<and>
    (\<not> success \<longrightarrow> c' = c) \<and>
    (success \<longrightarrow> cache_map c' \<subseteq>\<^sub>m (cache_map c)((salt, tokens) \<mapsto> v) \<and> cache_map c' (salt, tokens) = Some v \<and>
       (role = Conversation \<longrightarrow> (\<forall>(k, e) \<in> set (pc_entries c').
          ce_role e = Conversation \<and> ce_salt e = salt \<longrightarrow> \<not> strict_prefix (ce_tokens e) tokens)))"
proof -
  let ?bytes = "entry_bytes value_bytes tokens"
  let ?fits = "\<lambda>p. strict_prefix p tokens \<and> (\<exists>k e. (k, e) \<in> set (pc_entries c) \<and> ce_salt e = salt \<and> ce_tokens e = p \<and>
      saturating_add_usize (ce_bytes e) ?bytes \<le> pc_budget_bytes c)"
  have parent: "parent_key sha c salt tokens ?bytes parent \<noteq> None \<longleftrightarrow> (\<forall>p. parent = Some p \<longrightarrow> ?fits p)"
    using parent_key_iff [OF assms(1)] .
  have allowed: "insert_allowed sha c salt tokens value_bytes parent \<longleftrightarrow> tokens \<noteq> [] \<and> ?bytes \<le> pc_budget_bytes c \<and>
      cache_map c (salt, tokens) = None \<and> (\<forall>p. parent = Some p \<longrightarrow> ?fits p)"
    unfolding insert_allowed_def cache_admits_def parent cache_contains_map(1) [OF assms(1)] by simp
  show ?thesis
  proof (cases "insert_allowed sha c salt tokens value_bytes parent")
    case True
    then obtain c' where c': "cache_insert sha c salt tokens v value_bytes role parent = Some (True, c')" "cache_ok sha c'"
      "inserted_state c (cache_key sha (pc_identity c) salt tokens) salt tokens v ?bytes role c'"
      using cache_insert_done [OF assms] by blast
    have "\<not> strict_prefix (ce_tokens e) tokens"
      if m: "(k, e) \<in> set (pc_entries c')" "ce_role e = Conversation" "ce_salt e = salt" "role = Conversation" for k e
      by (rule inserted_longest [OF c'(2,3) m])
    then show ?thesis using c' True inserted_map [OF assms(1) c'(2,3)] unfolding allowed by auto
  next
    case False
    then show ?thesis using cache_insert_refused [OF False, of v role] assms(1) unfolding allowed by auto
  qed
qed

text \<open>C27: A lookup, which probes the hash of one candidate length after the other, agrees with the
  specification that scans every proper prefix of the prompt from the longest down: it returns the
  longest one cached under the salt with its length, leaves at least one token, touches only
  recency, changes no entry's contents, and never panics.\<close>

theorem lookup_finds_longest_proper_prefix:
  assumes "cache_ok sha c" "cache_room c" "pc_hit_tokens c + length prompt \<le> u64_max"
  shows "\<exists>c'. cache_lookup sha c salt prompt = Some (spec_lookup (cache_map c) salt prompt, c') \<and>
    cache_map c' = cache_map c \<and> cache_ok sha c' \<and> cache_peek sha c salt prompt = map_option snd (spec_lookup (cache_map c) salt prompt) \<and>
    cache_longest_tokens c salt prompt = map_option fst (spec_lookup (cache_map c) salt prompt)"
proof -
  have "cache_longest_tokens c salt prompt = map_option fst (spec_lookup (cache_map c) salt prompt)"
    unfolding spec_lookup_longest [OF assms(1)] by (simp add: option.map_comp comp_def option.map_ident)
  then show ?thesis using cache_lookup_spec [OF assms] touched_map cache_peek_spec [OF assms(1)] by blast
qed

text \<open>C28: Along every run of the cache a hit is the value of the last successful insertion for exactly
  those tokens under exactly that salt, it is a proper prefix of the prompt, and what is held
  stays within the budget; one tenant's prefixes never answer another's prompt.\<close>

theorem hits_are_what_was_inserted:
  assumes "cache_run sha identity_bytes budget (told, c)"
    and "cache_lookup sha c salt prompt = Some (Some (n, v), c')" "cache_room c" "pc_hit_tokens c + length prompt \<le> u64_max"
  shows "told (salt, take n prompt) = Some v \<and> n < length prompt \<and>
    (\<Sum>x\<leftarrow>pc_entries c. ce_bytes (snd x)) \<le> budget"
proof -
  have ok: "cache_ok sha c" "cache_map c \<subseteq>\<^sub>m told" "pc_budget_bytes c = budget"
    using run_ok [OF assms(1)] by simp_all
  have "spec_lookup (cache_map c) salt prompt = Some (n, v)"
    using cache_lookup_spec [OF ok(1) assms(3,4), of salt] assms(2) by auto
  then have "cache_map c (salt, take n prompt) = Some v \<and> n < length prompt" by (rule spec_lookup_hit)
  moreover from this have "told (salt, take n prompt) = Some v" using ok(2) by (auto simp: map_le_def dom_def)
  ultimately show ?thesis using ok by (simp add: cache_ok_def)
qed

section \<open>A run\<close>

definition demo_preamble :: "nat cache_entry" where
  "demo_preamble = \<lparr>ce_tokens = [1, 2], ce_salt = None, ce_value = 7, ce_bytes = 18, ce_last_used = 1,
     ce_role = Preamble, ce_parent = None, ce_children = 0\<rparr>"

definition demo_preamble_key :: prefix_key where
  "demo_preamble_key = cache_key id [9] None [1, 2]"

definition demo_cache :: "nat prefix_cache" where
  "demo_cache = (cache_new [9] 50)\<lparr>pc_used_bytes := 18, pc_clock := 1,
     pc_entries := [(demo_preamble_key, demo_preamble)]\<rparr>"

lemma demo_insert: "cache_insert id (cache_new [9] 50) None [1, 2] 7 10 Preamble None = Some (True, demo_cache)"
  by (simp add: cache_insert_def cache_admits_def cache_contains_def cache_new_def entry_bytes_def
      saturating_add_usize_def saturating_mul_usize_def usize_max_def u64_max_def parent_key_def cache_make_room.simps
      add_usize_def checked_add_u64_def demo_cache_def demo_preamble_def demo_preamble_key_def Let_def)

lemma demo_run: "cache_run id [9] 50 ([(None, [1, 2]) \<mapsto> 7], demo_cache)"
proof -
  have "cache_run id [9] 50 (Map.empty, cache_new [9] 50 :: nat prefix_cache)"
    by (rule cache_run.New) (simp add: usize_max_def)
  from cache_run.Insert [OF this _ _ _ demo_insert] show ?thesis
    by (simp add: cache_room_def cache_new_def no_collision_def parent_usage_def u64_max_def)
qed

lemma demo_cache_ok: "cache_ok id demo_cache"
  using run_ok [OF demo_run] by simp

lemma demo_room: "cache_room demo_cache" "pc_hit_tokens demo_cache = 0"
  by (simp_all add: demo_cache_def cache_room_def cache_new_def u64_max_def)

lemma demo_map: "cache_map demo_cache = [(None, [1, 2]) \<mapsto> 7]"
  by (simp add: cache_map_def demo_cache_def demo_preamble_def)

lemma insert_refines_map_update_witness:
  "\<exists>c'. cache_insert id demo_cache None [1, 2, 3] 8 10 Conversation (Some [1, 2]) = Some (True, c') \<and>
     cache_map c' (None, [1, 2, 3]) = Some 8"
proof -
  have "length demo_preamble_key \<noteq> length (cache_key id [9] None [1, 2, 3])"
    by (simp add: demo_preamble_key_def cache_key_def)
  then have "no_collision id demo_cache None [1, 2, 3]"
    by (auto simp: no_collision_def demo_cache_def cache_new_def)
  moreover have "parent_usage id demo_cache None Conversation (Some [1, 2])"
    by (simp add: parent_usage_def demo_cache_def demo_preamble_def)
  moreover have "pc_budget_bytes demo_cache = 50" "entry_bytes 10 [1, 2, 3] = 22"
    by (simp_all add: demo_cache_def cache_new_def entry_bytes_def saturating_add_usize_def
        saturating_mul_usize_def usize_max_def)
  moreover have "\<exists>k e. (k, e) \<in> set (pc_entries demo_cache) \<and> ce_salt e = None \<and> ce_tokens e = [1, 2] \<and>
      saturating_add_usize (ce_bytes e) 22 \<le> 50"
    by (simp add: demo_cache_def demo_preamble_def saturating_add_usize_def usize_max_def)
  ultimately show ?thesis
    using insert_refines_map_update [OF demo_cache_ok demo_room(1), of None "[1, 2, 3]" Conversation "Some [1, 2]" 8 10]
    by (simp add: demo_map strict_prefix_iff) (elim exE conjE, auto)
qed

lemma lookup_finds_longest_proper_prefix_witness:
  "\<exists>c'. cache_lookup id demo_cache None [1, 2, 3] = Some (Some (2, 7), c') \<and> cache_map c' = cache_map demo_cache"
proof -
  have "spec_lookup (cache_map demo_cache) None [1, 2, 3] = Some (2, 7)"
    by (simp add: spec_lookup_def demo_map upt_rec)
  then show ?thesis
    using lookup_finds_longest_proper_prefix [OF demo_cache_ok demo_room(1), of "[1, 2, 3]" None] demo_room(2)
    by (auto simp: u64_max_def)
qed

lemma hits_are_what_was_inserted_witness:
  "[(None :: salt, [1, 2 :: 32 word]) \<mapsto> (7 :: nat)] (None, take 2 [1, 2, 3]) = Some 7 \<and>
   (\<exists>c'. cache_lookup id demo_cache None [1, 2, 3] = Some (Some (2, 7), c'))"
proof -
  have "spec_lookup (cache_map demo_cache) None [1, 2, 3] = Some (2, 7)"
    by (simp add: spec_lookup_def demo_map upt_rec)
  then obtain c' where c': "cache_lookup id demo_cache None [1, 2, 3] = Some (Some (2, 7), c')"
    using cache_lookup_spec [OF demo_cache_ok demo_room(1), of "[1, 2, 3]" None] demo_room(2)
    by (auto simp: u64_max_def)
  show ?thesis
    using hits_are_what_was_inserted [OF demo_run c' demo_room(1)] demo_room(2) c' by (auto simp: u64_max_def)
qed

text \<open>
  Where callers must be careful: a parent that is itself a conversation is superseded by its own
  child, which then refers to an entry that is gone.
\<close>

lemma conversation_parent_is_dropped:
  "\<exists>c c'. cache_insert id (cache_new [9] 50) None [1, 2] (7 :: nat) 10 Conversation None = Some (True, c) \<and>
     cache_insert id c None [1, 2, 3] 8 10 Conversation (Some [1, 2]) = Some (True, c') \<and>
     \<not> cache_contains id c' None [1, 2]"
proof -
  have len: "cache_key id [9] None [1, 2] \<noteq> cache_key id [9] None [1, 2, 3]"
    by (rule notI, drule arg_cong [of _ _ length]) (simp add: cache_key_def)
  show ?thesis
    using len
    by (simp add: cache_insert_def cache_admits_def cache_contains_def cache_new_def entry_bytes_def
      saturating_add_usize_def saturating_mul_usize_def usize_max_def u64_max_def parent_key_def cache_make_room.simps
      add_usize_def checked_add_u64_def Let_def entry_matches_def superseded_keys_def cache_remove_def checked_sub_def)
qed

end
