(* ===== verification/Speculative.thy ===== *)
theory Speculative
  imports Prelude
begin

text \<open>
  Speculative decoding (\<open>crates/core/engine/src/speculative.rs\<close>): the logit rows of a
  verification pass, the draft-and-verify steps with their acceptance walk and rollback, the
  prompt-lookup drafter, the request's preference and the counters. The target model is a record
  of the trait's functions over an arbitrary state, the picker a state-passing function; logits
  are an arbitrary type. Counts of cached and emitted tokens are \<open>nat\<close>: they are lengths of
  sequences in memory.
\<close>

section \<open>Logit rows\<close>

record 'l position_logits =
  pl_values :: "'l list"
  pl_vocabulary :: nat

datatype ('t, 'p) speculation_error =
    Target 't
  | PickFailed 'p
  | RowCount nat nat
  | LogitShape
  | Probabilities
  | TokenOutOfRange token
  | InvalidUniform

definition logits_new :: "'l list \<Rightarrow> nat \<Rightarrow> ('t, 'p) speculation_error + 'l position_logits" where
  "logits_new values vocabulary =
     (if vocabulary = 0 \<or> values = [] \<or> \<not> vocabulary dvd length values then Inl LogitShape
      else Inr \<lparr>pl_values = values, pl_vocabulary = vocabulary\<rparr>)"

text \<open>The vocabulary is never zero by construction, so the division is exact.\<close>

definition positions :: "'l position_logits \<Rightarrow> nat" where
  "positions logits = length (pl_values logits) div pl_vocabulary logits"

definition logits_row :: "'l position_logits \<Rightarrow> nat \<Rightarrow> 'l list option" where
  "logits_row logits index = do {
     start \<leftarrow> mul_usize index (pl_vocabulary logits);
     end \<leftarrow> add_usize start (pl_vocabulary logits);
     if end \<le> length (pl_values logits)
     then Some (take (pl_vocabulary logits) (drop start (pl_values logits)))
     else None }"

section \<open>A step\<close>

record pick =
  pk_token :: token
  pk_stop :: bool

record step_outcome =
  so_emitted :: "token list"
  so_drafted :: nat
  so_accepted :: nat
  so_stopped :: bool

text \<open>\<open>SpeculativeTarget\<close>: the functions of the trait on an implementation's state.\<close>

record ('s, 'l, 'e) target =
  tg_cached_tokens :: "'s \<Rightarrow> nat"
  tg_verify :: "'s \<Rightarrow> token list \<Rightarrow> ('e + 'l position_logits) \<times> 's"
  tg_truncate :: "'s \<Rightarrow> nat \<Rightarrow> ('e + unit) \<times> 's"

text \<open>The loop over the scored rows: until a pick leaves the draft or stops.\<close>

fun accept_walk ::
  "(nat \<Rightarrow> 'p \<Rightarrow> ('x + pick) \<times> 'p) \<Rightarrow> token list \<Rightarrow> nat list \<Rightarrow> token list \<Rightarrow> nat \<Rightarrow> 'p \<Rightarrow>
   ('x + token list \<times> nat \<times> bool) \<times> 'p" where
  "accept_walk pick_at draft [] emitted accepted p = (Inr (emitted, accepted, False), p)"
| "accept_walk pick_at draft (index # indexes) emitted accepted p =
     (case pick_at index p of
        (Inl e, p) \<Rightarrow> (Inl e, p)
      | (Inr picked, p) \<Rightarrow>
          let emitted = emitted @ [pk_token picked];
              matches_draft = (list_get draft index = Some (pk_token picked));
              accepted = (if matches_draft then accepted + 1 else accepted)
          in if pk_stop picked then (Inr (emitted, accepted, True), p)
             else if \<not> matches_draft then (Inr (emitted, accepted, False), p)
             else accept_walk pick_at draft indexes emitted accepted p)"

definition accept_and_roll_back ::
  "('s, 'l, 'e) target \<Rightarrow> 's \<Rightarrow> nat \<Rightarrow> token list \<Rightarrow>
   (nat \<Rightarrow> 'p \<Rightarrow> (('e, 'q) speculation_error + pick) \<times> 'p) \<Rightarrow> 'p \<Rightarrow>
   (('e, 'q) speculation_error + step_outcome) \<times> 's \<times> 'p" where
  "accept_and_roll_back tg s base draft pick_at p =
     (case accept_walk pick_at draft [0..<Suc (length draft)] [] 0 p of
        (Inl e, p) \<Rightarrow> (Inl e, s, p)
      | (Inr (emitted, accepted, stopped), p) \<Rightarrow>
          (case tg_truncate tg s (base + length emitted) of
             (Inl e, s) \<Rightarrow> (Inl (Target e), s, p)
           | (Inr _, s) \<Rightarrow>
               (Inr \<lparr>so_emitted = emitted, so_drafted = length draft, so_accepted = accepted,
                     so_stopped = stopped\<rparr>, s, p)))"

definition speculative_step ::
  "('s, 'l, 'e) target \<Rightarrow> 's \<Rightarrow> token \<Rightarrow> token list \<Rightarrow> ('l list \<Rightarrow> 'p \<Rightarrow> ('q + pick) \<times> 'p) \<Rightarrow> 'p \<Rightarrow>
   (('e, 'q) speculation_error + step_outcome) \<times> 's \<times> 'p" where
  "speculative_step tg s last_token draft pick p =
     (let base = tg_cached_tokens tg s;
          input = last_token # draft
      in case tg_verify tg s input of
           (Inl e, s) \<Rightarrow> (Inl (Target e), s, p)
         | (Inr logits, s) \<Rightarrow>
             if positions logits \<noteq> length input
             then (Inl (RowCount (length input) (positions logits)), s, p)
             else accept_and_roll_back tg s base draft
               (\<lambda>index p. case logits_row logits index of
                  None \<Rightarrow> (Inl LogitShape, p)
                | Some row \<Rightarrow>
                    (case pick row p of
                       (Inl e, p) \<Rightarrow> (Inl (PickFailed e), p)
                     | (Inr picked, p) \<Rightarrow> (Inr picked, p))) p)"

text \<open>\<open>GreedySpeculativeTarget::verify_greedy\<close> is a further argument.\<close>

definition greedy_speculative_step ::
  "('s, 'l, 'e) target \<Rightarrow> ('s \<Rightarrow> token list \<Rightarrow> ('e + token list) \<times> 's) \<Rightarrow> 's \<Rightarrow> token \<Rightarrow> token list \<Rightarrow>
   (token \<Rightarrow> 'p \<Rightarrow> bool \<times> 'p) \<Rightarrow> 'p \<Rightarrow> (('e, 'q) speculation_error + step_outcome) \<times> 's \<times> 'p" where
  "greedy_speculative_step tg verify_greedy s last_token draft is_stop p =
     (let base = tg_cached_tokens tg s;
          input = last_token # draft
      in case verify_greedy s input of
           (Inl e, s) \<Rightarrow> (Inl (Target e), s, p)
         | (Inr picks, s) \<Rightarrow>
             if length picks \<noteq> length input
             then (Inl (RowCount (length input) (length picks)), s, p)
             else accept_and_roll_back tg s base draft
               (\<lambda>index p. let token = picks ! index; (stop, p) = is_stop token p
                          in (Inr \<lparr>pk_token = token, pk_stop = stop\<rparr>, p)) p)"

definition accept_verified ::
  "('s, 'l, 'e) target \<Rightarrow> 's \<Rightarrow> nat \<Rightarrow> token list \<Rightarrow> (nat \<Rightarrow> 'p \<Rightarrow> ('q + pick) \<times> 'p) \<Rightarrow> 'p \<Rightarrow>
   (('e, 'q) speculation_error + step_outcome) \<times> 's \<times> 'p" where
  "accept_verified tg s base draft pick_at p =
     accept_and_roll_back tg s base draft
       (\<lambda>index p. case pick_at index p of
          (Inl e, p) \<Rightarrow> (Inl (PickFailed e), p)
        | (Inr picked, p) \<Rightarrow> (Inr picked, p)) p"

section \<open>Prompt lookup\<close>

record prompt_lookup =
  pl_min_ngram :: nat
  pl_max_ngram :: nat

datatype config_error = NgramRange | DraftRange | VerifyCost

definition prompt_lookup_new :: "nat \<Rightarrow> nat \<Rightarrow> config_error + prompt_lookup" where
  "prompt_lookup_new min_ngram max_ngram =
     (if min_ngram = 0 \<or> min_ngram > max_ngram then Inl NgramRange
      else Inr \<lparr>pl_min_ngram = min_ngram, pl_max_ngram = max_ngram\<rparr>)"

definition prompt_lookup_default :: prompt_lookup where
  "prompt_lookup_default = \<lparr>pl_min_ngram = 2, pl_max_ngram = 4\<rparr>"

definition lookup_propose :: "prompt_lookup \<Rightarrow> token list \<Rightarrow> nat \<Rightarrow> token list" where
  "lookup_propose pl history limit =
     (if limit = 0 then []
      else
        let len = length history
        in case find_map (\<lambda>n.
             let suffix = drop (len - n) history
             in find_map (\<lambda>start.
                  if take n (drop start history) = suffix then
                    let from = start + n;
                        to = min (saturating_add_usize from limit) len
                    in Some (take (to - from) (drop from history))
                  else None) (rev [0..<len - n]))
             (rev [pl_min_ngram pl..<Suc (min (pl_max_ngram pl) (len - 1))]) of
             None \<Rightarrow> []
           | Some draft \<Rightarrow> draft)"

record draft =
  dr_tokens :: "token list"

text \<open>The drafter built on it gives no acceptance estimates (they are floats, and empty).\<close>

definition drafter_propose :: "prompt_lookup \<Rightarrow> token list \<Rightarrow> nat \<Rightarrow> draft" where
  "drafter_propose pl history limit = \<lparr>dr_tokens = lookup_propose pl history limit\<rparr>"

section \<open>Preferences and counters\<close>

datatype speculation_request = Automatic | Enabled | Disabled

fun speculation_allows :: "speculation_request \<Rightarrow> nat \<Rightarrow> nat \<Rightarrow> bool" where
  "speculation_allows Automatic other_active queued \<longleftrightarrow> other_active = 0 \<and> queued = 0"
| "speculation_allows Enabled other_active queued \<longleftrightarrow> True"
| "speculation_allows Disabled other_active queued \<longleftrightarrow> False"

record speculation_stats =
  ss_verify_steps :: nat
  ss_drafted_tokens :: nat
  ss_accepted_tokens :: nat

definition stats_record :: "speculation_stats \<Rightarrow> step_outcome \<Rightarrow> speculation_stats option" where
  "stats_record stats outcome =
     (if so_drafted outcome > 0 then do {
        verify_steps \<leftarrow> add_usize (ss_verify_steps stats) 1;
        drafted_tokens \<leftarrow> add_usize (ss_drafted_tokens stats) (so_drafted outcome);
        accepted_tokens \<leftarrow> add_usize (ss_accepted_tokens stats) (so_accepted outcome);
        Some \<lparr>ss_verify_steps = verify_steps, ss_drafted_tokens = drafted_tokens,
              ss_accepted_tokens = accepted_tokens\<rparr> }
      else Some stats)"

end
