(* ===== verification/SpeculativeLemmas.thy ===== *)
theory SpeculativeLemmas
  imports Speculative
begin

text \<open>
  Speculation against plain decoding. Plain decoding picks from the row after everything so far
  and appends the pick; the acceptance walk over a verified draft does the same on the rows of
  one pass, so the two agree on tokens, picker state and cache up to the laws of the target.
\<close>

section \<open>Plain decoding\<close>

fun plain_decode ::
  "(token list \<Rightarrow> 'l list) \<Rightarrow> ('l list \<Rightarrow> 'p \<Rightarrow> ('q + pick) \<times> 'p) \<Rightarrow> nat \<Rightarrow> token list \<Rightarrow> 'p \<Rightarrow>
   ('q + token list \<times> bool) \<times> 'p" where
  "plain_decode row pick 0 ctx p = (Inr ([], False), p)"
| "plain_decode row pick (Suc n) ctx p =
     (case pick (row ctx) p of
        (Inl e, p) \<Rightarrow> (Inl e, p)
      | (Inr picked, p) \<Rightarrow>
          if pk_stop picked then (Inr ([pk_token picked], True), p)
          else (case plain_decode row pick n (ctx @ [pk_token picked]) p of
                  (Inl e, p) \<Rightarrow> (Inl e, p)
                | (Inr (tokens, stopped), p) \<Rightarrow> (Inr (pk_token picked # tokens, stopped), p)))"

text \<open>Decoding in two parts is decoding at once.\<close>

lemma plain_decode_append:
  assumes "plain_decode row pick m ctx p = (Inr (ts, False), p1)"
  shows "plain_decode row pick (m + n) ctx p =
    (case plain_decode row pick n (ctx @ ts) p1 of
       (Inl e, p) \<Rightarrow> (Inl e, p)
     | (Inr (us, stopped), p) \<Rightarrow> (Inr (ts @ us, stopped), p))"
  using assms
proof (induction m arbitrary: ctx p ts)
  case 0
  then show ?case by (auto split: prod.splits sum.splits)
next
  case (Suc m)
  then obtain picked p2 us where pick: "pick (row ctx) p = (Inr picked, p2)" "\<not> pk_stop picked"
    and rest: "plain_decode row pick m (ctx @ [pk_token picked]) p2 = (Inr (us, False), p1)" "ts = pk_token picked # us"
    by (auto split: prod.splits sum.splits if_splits)
  show ?case using Suc.IH [OF rest(1)] pick rest(2) by (simp split: prod.splits sum.splits)
qed

lemma plain_decode_stopped:
  "plain_decode row pick m ctx p = (Inr (ts, True), p1) \<Longrightarrow>
   plain_decode row pick (m + n) ctx p = (Inr (ts, True), p1)"
  by (induction m arbitrary: ctx p ts) (auto split: prod.splits sum.splits if_splits)

lemma plain_decode_length:
  "plain_decode row pick n ctx p = (Inr (ts, stopped), p') \<Longrightarrow>
   length ts \<le> n \<and> (\<not> stopped \<longrightarrow> length ts = n) \<and> (0 < n \<longrightarrow> ts \<noteq> [])"
  by (induction n arbitrary: ctx p ts) (fastforce split: prod.splits sum.splits if_splits)+

section \<open>The acceptance walk\<close>

text \<open>What the walk did, compared with the draft.\<close>

definition walked :: "token list \<Rightarrow> token list \<Rightarrow> nat \<Rightarrow> bool \<Rightarrow> bool" where
  "walked draft emitted accepted stopped \<longleftrightarrow>
     emitted \<noteq> [] \<and> accepted \<le> length draft \<and> take accepted emitted = take accepted draft \<and>
     (length emitted = Suc accepted \<or> (length emitted = accepted \<and> stopped)) \<and>
     (length emitted = Suc accepted \<and> accepted < length draft \<longrightarrow> last emitted \<noteq> draft ! accepted)"

lemma accept_walk_plain:
  assumes "i \<le> length draft"
    and rows: "\<And>j p. j \<le> length draft \<Longrightarrow> pick_at j p =
      (case pick (row (ctx @ take j draft)) p of (Inl e, p) \<Rightarrow> (Inl (err e), p) | (Inr picked, p) \<Rightarrow> (Inr picked, p))"
  shows "case accept_walk pick_at draft [i..<Suc (length draft)] (take i draft) i p of
      (Inr (emitted, accepted, stopped), p') \<Rightarrow> (\<exists>ts. emitted = take i draft @ ts \<and>
        plain_decode row pick (length ts) (ctx @ take i draft) p = (Inr (ts, stopped), p') \<and>
        walked draft emitted accepted stopped)
    | (Inl x, p') \<Rightarrow> \<exists>e k. x = err e \<and> i + k \<le> length draft \<and>
        plain_decode row pick (Suc k) (ctx @ take i draft) p = (Inl e, p')"
  using assms(1)
proof (induction "length draft - i" arbitrary: i p)
  case 0
  then have i: "i = length draft" by simp
  show ?case
  proof (cases "pick (row (ctx @ take i draft)) p")
    case (Pair r p1)
    show ?thesis
    proof (cases r)
      case (Inl e)
      then show ?thesis using Pair rows [of i p] i by (auto intro!: exI [of _ 0])
    next
      case (Inr picked)
      have "walked draft (draft @ [pk_token picked]) (length draft) stopped" for stopped
        by (simp add: walked_def)
      then show ?thesis using Inr Pair rows [of i p] i
        by (cases "pk_stop picked") (simp_all add: list_get_def Let_def)
    qed
  qed
next
  case (Suc d)
  then have i: "i < length draft" by simp
  have upt: "[i..<Suc (length draft)] = i # [Suc i..<Suc (length draft)]"
    using i by (simp add: upt_rec)
  obtain r p1 where pick: "pick (row (ctx @ take i draft)) p = (r, p1)" by force
  show ?case
  proof (cases r)
    case (Inl e)
    then show ?thesis unfolding upt using pick rows [of i p] i by (auto intro!: exI [of _ 0])
  next
    case (Inr picked)
    show ?thesis
    proof (cases "pk_stop picked \<or> draft ! i \<noteq> pk_token picked")
      case True
      have "walked draft (take i draft @ [pk_token picked])
          (if draft ! i = pk_token picked then Suc i else i) (pk_stop picked)"
        using True i by (auto simp: walked_def take_Suc_conv_app_nth)
      then show ?thesis unfolding upt using Inr pick rows [of i p] i True
        by (cases "pk_stop picked"; cases "draft ! i = pk_token picked") (simp_all add: list_get_def Let_def)
    next
      case False
      have next_take: "take i draft @ [pk_token picked] = take (Suc i) draft"
        using False i by (simp add: take_Suc_conv_app_nth)
      let ?w = "accept_walk pick_at draft [Suc i..<Suc (length draft)] (take (Suc i) draft) (Suc i) p1"
      have step: "accept_walk pick_at draft [i..<Suc (length draft)] (take i draft) i p = ?w"
        unfolding upt using Inr pick rows [of i p] i False next_take by (simp add: list_get_def Let_def)
      have IH: "case ?w of
          (Inr (emitted, accepted, stopped), p') \<Rightarrow> (\<exists>ts. emitted = take (Suc i) draft @ ts \<and>
            plain_decode row pick (length ts) (ctx @ take (Suc i) draft) p1 = (Inr (ts, stopped), p') \<and>
            walked draft emitted accepted stopped)
        | (Inl x, p') \<Rightarrow> \<exists>e k. x = err e \<and> Suc i + k \<le> length draft \<and>
            plain_decode row pick (Suc k) (ctx @ take (Suc i) draft) p1 = (Inl e, p')"
        by (rule Suc.hyps(1)) (use Suc.hyps(2) i in simp_all)
      have one: "plain_decode row pick (Suc n) (ctx @ take i draft) p =
          (case plain_decode row pick n (ctx @ take (Suc i) draft) p1 of
             (Inl e, p) \<Rightarrow> (Inl e, p) | (Inr (ts, st), p) \<Rightarrow> (Inr (pk_token picked # ts, st), p))" for n
        using pick Inr False next_take [symmetric] by simp
      obtain w p' where w: "?w = (w, p')" by force
      show ?thesis
      proof (cases w)
        case (Inl x)
        then obtain e k where e: "x = err e" "Suc i + k \<le> length draft"
          "plain_decode row pick (Suc k) (ctx @ take (Suc i) draft) p1 = (Inl e, p')"
          using IH w by auto
        have "plain_decode row pick (Suc (Suc k)) (ctx @ take i draft) p = (Inl e, p')"
          unfolding one [of "Suc k"] e(3) by simp
        then show ?thesis unfolding step w Inl using e(1,2) by (auto intro!: exI [of _ "Suc k"] simp del: plain_decode.simps)
      next
        case (Inr y)
        then obtain emitted accepted stopped ts where y: "y = (emitted, accepted, stopped)"
          and ts: "emitted = take (Suc i) draft @ ts" "walked draft emitted accepted stopped"
            "plain_decode row pick (length ts) (ctx @ take (Suc i) draft) p1 = (Inr (ts, stopped), p')"
          using IH w by (cases y) auto
        have "plain_decode row pick (Suc (length ts)) (ctx @ take i draft) p = (Inr (pk_token picked # ts, stopped), p')"
          unfolding one [of "length ts"] ts(3) by simp
        moreover have "emitted = take i draft @ pk_token picked # ts" using ts(1) next_take [symmetric] by simp
        ultimately show ?thesis unfolding step w Inr y using ts(2)
          by (auto intro!: exI [of _ "pk_token picked # ts"] simp del: plain_decode.simps)
      qed
    qed
  qed
qed

lemma walked_butlast:
  assumes "walked draft emitted accepted stopped"
  shows "butlast emitted = take (length emitted - 1) draft"
proof -
  have "length emitted - 1 \<le> accepted" "take accepted emitted = take accepted draft"
    using assms by (auto simp: walked_def)
  then have "take (length emitted - 1) emitted = take (length emitted - 1) draft"
    by (metis min.absorb1 take_take)
  then show ?thesis by (simp add: butlast_conv_take)
qed

section \<open>The laws of a target\<close>

text \<open>
  What the trait documents, for an implementation with room for \<open>capacity\<close> positions: the cache
  is a sequence of tokens, verification appends and scores every appended position with the row
  that the tokens so far determine, truncation drops positions.
\<close>

definition exact_target ::
  "('s, 'l, 'e) target \<Rightarrow> ('s \<Rightarrow> token list) \<Rightarrow> (token list \<Rightarrow> 'l list) \<Rightarrow> nat \<Rightarrow> nat \<Rightarrow> bool" where
  "exact_target tg cache row vocabulary capacity \<longleftrightarrow>
     0 < vocabulary \<and> (\<forall>ts. length (row ts) = vocabulary) \<and> capacity * vocabulary \<le> usize_max \<and>
     (\<forall>s. tg_cached_tokens tg s = length (cache s)) \<and>
     (\<forall>s ts. ts \<noteq> [] \<longrightarrow> length (cache s) + length ts \<le> capacity \<longrightarrow>
        (\<exists>logits s'. tg_verify tg s ts = (Inr logits, s') \<and> cache s' = cache s @ ts \<and>
           pl_vocabulary logits = vocabulary \<and>
           pl_values logits = concat (map (\<lambda>i. row (cache s @ take (Suc i) ts)) [0..<length ts]))) \<and>
     (\<forall>s n. n \<le> length (cache s) \<longrightarrow> (\<exists>s'. tg_truncate tg s n = (Inr (), s') \<and> cache s' = take n (cache s)))"

lemma exact_truncate:
  "exact_target tg cache row vocabulary capacity \<Longrightarrow> n \<le> length (cache s) \<Longrightarrow>
   \<exists>s'. tg_truncate tg s n = (Inr (), s') \<and> cache s' = take n (cache s)"
  by (simp add: exact_target_def)

lemma length_rows:
  "(\<And>i. length (f i) = v) \<Longrightarrow> length (concat (map f [0..<n])) = n * v"
  by (induction n) (simp_all add: add.commute)

lemma concat_row:
  assumes "\<And>i. length (f i) = v" "i < n"
  shows "take v (drop (i * v) (concat (map f [0..<n]))) = f i"
  using assms(2)
proof (induction n)
  case 0
  then show ?case by simp
next
  case (Suc n)
  have len: "length (concat (map f [0..<n])) = n * v" by (rule length_rows) (rule assms(1))
  show ?case
  proof (cases "i = n")
    case True
    then show ?thesis using len assms(1) by simp
  next
    case False
    then have "i < n" using Suc.prems by simp
    then have "i * v + v \<le> n * v" by (metis add.commute mult_Suc Suc_leI mult_le_mono1)
    then show ?thesis using Suc.IH [OF \<open>i < n\<close>] len by simp
  qed
qed

lemma logits_row_rows:
  assumes "pl_vocabulary logits = v" "pl_values logits = concat (map f [0..<n])" "\<And>i. length (f i) = v"
    and "i < n" "n * v \<le> usize_max"
  shows "logits_row logits i = Some (f i)"
proof -
  have "i * v + v \<le> n * v" using assms(4) by (metis add.commute mult_Suc Suc_leI mult_le_mono1)
  then have "mul_usize i v = Some (i * v)" "add_usize (i * v) v = Some (i * v + v)" "i * v + v \<le> n * v"
    using assms(5) by (simp_all add: panic_simps)
  then show ?thesis
    using assms(1,2) concat_row [of f v, OF assms(3,4)] length_rows [of f v n, OF assms(3)]
    by (simp add: logits_row_def)
qed

lemma speculative_step_plain:
  fixes tg :: "('s, 'l, 'e) target" and pick :: "'l list \<Rightarrow> 'p \<Rightarrow> ('q + pick) \<times> 'p"
  assumes tg: "exact_target tg cache row vocabulary capacity"
    and room: "length (cache s) + Suc (length draft) \<le> capacity"
  shows "case speculative_step tg s last_token draft pick p of
      (Inr out, s', p') \<Rightarrow>
        plain_decode row pick (length (so_emitted out)) (cache s @ [last_token]) p =
          (Inr (so_emitted out, so_stopped out), p') \<and>
        walked draft (so_emitted out) (so_accepted out) (so_stopped out) \<and> so_drafted out = length draft \<and>
        cache s' = cache s @ last_token # butlast (so_emitted out)
    | (Inl x, s', p') \<Rightarrow> \<exists>e k. x = PickFailed e \<and> k \<le> length draft \<and>
        plain_decode row pick (Suc k) (cache s @ [last_token]) p = (Inl e, p')"
proof -
  let ?input = "last_token # draft"
  let ?f = "\<lambda>i. row (cache s @ take (Suc i) ?input)"
  obtain logits s1 where v: "tg_verify tg s ?input = (Inr logits, s1)" "cache s1 = cache s @ ?input"
    "pl_vocabulary logits = vocabulary" "pl_values logits = concat (map ?f [0..<length ?input])"
    using tg room unfolding exact_target_def by (metis length_Cons list.distinct(1))
  have len: "length (?f i) = vocabulary" "0 < vocabulary" for i using tg by (simp_all add: exact_target_def)
  have bound: "length ?input * vocabulary \<le> usize_max"
  proof -
    have "length ?input * vocabulary \<le> capacity * vocabulary" by (rule mult_le_mono1) (use room in simp)
    then show ?thesis using tg by (simp add: exact_target_def)
  qed
  have pos: "positions logits = length ?input"
    unfolding positions_def v(3,4) length_rows [of ?f, OF len(1)] using len(2) by simp
  define pick_at :: "nat \<Rightarrow> 'p \<Rightarrow> (('e, 'q) speculation_error + pick) \<times> 'p" where
    "pick_at = (\<lambda>index p. case logits_row logits index of
      None \<Rightarrow> (Inl LogitShape, p)
    | Some row \<Rightarrow> (case pick row p of (Inl e, p) \<Rightarrow> (Inl (PickFailed e), p) | (Inr picked, p) \<Rightarrow> (Inr picked, p)))"
  have rows: "pick_at j p = (case pick (row ((cache s @ [last_token]) @ take j draft)) p of
      (Inl e, p) \<Rightarrow> (Inl (PickFailed e), p) | (Inr picked, p) \<Rightarrow> (Inr picked, p))" if "j \<le> length draft" for j p
    using logits_row_rows [of logits vocabulary ?f "length ?input" j] v(3,4) len(1) bound that by (simp add: pick_at_def)
  obtain w p1 where w: "accept_walk pick_at draft [0..<Suc (length draft)] [] 0 p = (w, p1)" by force
  have step: "speculative_step tg s last_token draft pick p =
      accept_and_roll_back tg s1 (length (cache s)) draft pick_at p"
    using v(1) pos tg by (simp add: speculative_step_def exact_target_def pick_at_def)
  note walk = accept_walk_plain [where i = 0 and draft = draft and pick_at = pick_at and pick = pick and row = row
      and ctx = "cache s @ [last_token]" and err = PickFailed and p = p, OF _ rows, unfolded take_0 w append_Nil2, OF le0]
  show ?thesis
  proof (cases w)
    case (Inl x)
    then show ?thesis using walk unfolding step accept_and_roll_back_def w by simp
  next
    case (Inr y)
    obtain emitted accepted stopped where y: "y = (emitted, accepted, stopped)" by (cases y) auto
    have plain: "plain_decode row pick (length emitted) (cache s @ [last_token]) p = (Inr (emitted, stopped), p1)"
      and walked: "walked draft emitted accepted stopped"
      using walk Inr y by simp_all
    have short: "length emitted \<le> Suc (length draft)" and some: "emitted \<noteq> []"
      using walked by (auto simp: walked_def)
    then have le: "length (cache s) + length emitted \<le> length (cache s1)" using v(2) by simp
    obtain s2 where s2: "tg_truncate tg s1 (length (cache s) + length emitted) = (Inr (), s2)"
      "cache s2 = take (length (cache s) + length emitted) (cache s1)"
      using exact_truncate [OF tg le] by blast
    have "butlast emitted = take (length emitted - 1) draft"
      by (rule walked_butlast [OF walked])
    then have "cache s2 = cache s @ last_token # butlast emitted"
      using s2(2) v(2) some by (cases "length emitted") simp_all
    then show ?thesis using plain walked s2(1) Inr y unfolding step accept_and_roll_back_def w by simp
  qed
qed

end
