(* ===== verification/SpeculativeTheorems.thy ===== *)
theory SpeculativeTheorems
  imports SpeculativeLemmas
begin

text \<open>
  The properties of speculative decoding: any sequence of drafts emits exactly what plain
  decoding emits with the same draws, a step's outcome is consistent with its draft whatever the
  target does, device picks agree with host picks, and prompt lookup proposes what followed the
  most recent occurrence of the longest matching suffix, within its limit.
\<close>

section \<open>Many steps\<close>

fun decode_drafts ::
  "('s, 'l, 'e) target \<Rightarrow> ('l list \<Rightarrow> 'p \<Rightarrow> ('q + pick) \<times> 'p) \<Rightarrow> token list list \<Rightarrow> 's \<Rightarrow> token \<Rightarrow> 'p \<Rightarrow>
   (('e, 'q) speculation_error + token list \<times> bool) \<times> 's \<times> 'p" where
  "decode_drafts tg pick [] s last_token p = (Inr ([], False), s, p)"
| "decode_drafts tg pick (draft # drafts) s last_token p =
     (case speculative_step tg s last_token draft pick p of
        (Inl e, s, p) \<Rightarrow> (Inl e, s, p)
      | (Inr out, s, p) \<Rightarrow>
          if so_stopped out then (Inr (so_emitted out, True), s, p)
          else (case decode_drafts tg pick drafts s (last (so_emitted out)) p of
                  (Inl e, s, p) \<Rightarrow> (Inl e, s, p)
                | (Inr (tokens, stopped), s, p) \<Rightarrow> (Inr (so_emitted out @ tokens, stopped), s, p)))"

lemma decode_drafts_plain:
  assumes tg: "exact_target tg cache row vocabulary capacity"
  shows "length (cache s) + sum_list (map (\<lambda>d. Suc (length d)) drafts) \<le> capacity \<Longrightarrow>
    (case decode_drafts tg pick drafts s last_token p of
       (Inr (tokens, stopped), s', p') \<Rightarrow>
         plain_decode row pick (length tokens) (cache s @ [last_token]) p = (Inr (tokens, stopped), p') \<and>
         cache s' @ [last (last_token # tokens)] = cache s @ [last_token] @ tokens \<and>
         (\<not> stopped \<longrightarrow> length drafts \<le> length tokens)
     | (Inl x, s', p') \<Rightarrow> \<exists>e n. x = PickFailed e \<and>
         plain_decode row pick n (cache s @ [last_token]) p = (Inl e, p'))"
proof (induction drafts arbitrary: s last_token p)
  case Nil
  then show ?case by simp
next
  case (Cons draft drafts)
  obtain r s1 p1 where r: "speculative_step tg s last_token draft pick p = (r, s1, p1)" by (metis prod_cases3)
  note step = speculative_step_plain [OF tg, where s = s and draft = draft and last_token = last_token and pick = pick and p = p, unfolded r]
  show ?case
  proof (cases r)
    case (Inl x)
    then show ?thesis using step r Cons.prems by (auto simp del: plain_decode.simps)
  next
    case (Inr out)
    have out: "plain_decode row pick (length (so_emitted out)) (cache s @ [last_token]) p =
          (Inr (so_emitted out, so_stopped out), p1)"
      "walked draft (so_emitted out) (so_accepted out) (so_stopped out)"
      "cache s1 = cache s @ last_token # butlast (so_emitted out)"
      using step Inr Cons.prems by simp_all
    have some: "so_emitted out \<noteq> []" using out(2) by (simp add: walked_def)
    have cache1: "cache s1 @ [last (so_emitted out)] = cache s @ [last_token] @ so_emitted out"
      using out(3) some by simp
    show ?thesis
    proof (cases "so_stopped out")
      case True
      then show ?thesis using r Inr out(1) cache1 some by simp
    next
      case False
      have "length (so_emitted out) \<le> Suc (length draft)" using out(2) by (auto simp: walked_def)
      then have "length (cache s1) + sum_list (map (\<lambda>d. Suc (length d)) drafts) \<le> capacity"
        using Cons.prems out(3) some by simp
      note IH = Cons.IH [OF this, where last_token = "last (so_emitted out)" and p = p1]
      obtain w s2 p2 where w: "decode_drafts tg pick drafts s1 (last (so_emitted out)) p1 = (w, s2, p2)"
        by (metis prod_cases3)
      have first: "plain_decode row pick (length (so_emitted out)) (cache s @ [last_token]) p = (Inr (so_emitted out, False), p1)"
        using out(1) False by simp
      note both = plain_decode_append [OF first]
      show ?thesis
      proof (cases w)
        case (Inl x)
        then obtain e n where e: "x = PickFailed e"
          "plain_decode row pick n ((cache s @ [last_token]) @ so_emitted out) p1 = (Inl e, p2)"
          using IH [unfolded w cache1] by auto
        then have "plain_decode row pick (length (so_emitted out) + n) (cache s @ [last_token]) p = (Inl e, p2)"
          unfolding both [of n] by simp
        then show ?thesis using r Inr False w Inl e(1) by auto
      next
        case y: (Inr y)
        obtain tokens stopped where t: "y = (tokens, stopped)" by force
        have rest: "plain_decode row pick (length tokens) ((cache s @ [last_token]) @ so_emitted out) p1 = (Inr (tokens, stopped), p2)"
          "cache s2 @ [last (last (so_emitted out) # tokens)] = cache s @ [last_token] @ so_emitted out @ tokens"
          "\<not> stopped \<longrightarrow> length drafts \<le> length tokens"
          using IH [unfolded w cache1] y t cache1 by simp_all
        have "plain_decode row pick (length (so_emitted out) + length tokens) (cache s @ [last_token]) p =
            (Inr (so_emitted out @ tokens, stopped), p2)"
          unfolding both [of "length tokens"] rest(1) by simp
        moreover have "last (last (so_emitted out) # tokens) = last (last_token # so_emitted out @ tokens)"
          using some by simp
        moreover have "Suc (length drafts) \<le> length (so_emitted out) + length tokens" if "\<not> stopped"
          using rest(3) that some by (cases "so_emitted out") auto
        ultimately show ?thesis using r Inr False w y t rest(2,3) by auto
      qed
    qed
  qed
qed

section \<open>Any target\<close>

lemma accept_walk_walked:
  assumes "accept_walk pick_at draft [0..<Suc (length draft)] [] 0 p = (Inr (emitted, accepted, stopped), p')"
  shows "walked draft emitted accepted stopped"
proof -
  have "case accept_walk pick_at draft [0..<Suc (length draft)] (take 0 draft) 0 p of
      (Inr (emitted, accepted, stopped), p') \<Rightarrow> (\<exists>ts. emitted = take 0 draft @ ts \<and>
        plain_decode (\<lambda>ts. replicate (length ts) ()) (\<lambda>r. pick_at (length r)) (length ts) ([] @ take 0 draft) p = (Inr (ts, stopped), p') \<and>
        walked draft emitted accepted stopped)
    | (Inl x, p') \<Rightarrow> \<exists>e k. x = id e \<and> 0 + k \<le> length draft \<and>
        plain_decode (\<lambda>ts. replicate (length ts) ()) (\<lambda>r. pick_at (length r)) (Suc k) ([] @ take 0 draft) p = (Inl e, p')"
    by (rule accept_walk_plain) (auto split: prod.splits sum.splits)
  then show ?thesis using assms by simp
qed

lemma roll_back_walked:
  assumes "accept_and_roll_back tg s base draft pick_at p = (Inr out, s', p')"
  shows "walked draft (so_emitted out) (so_accepted out) (so_stopped out) \<and> so_drafted out = length draft \<and>
    tg_truncate tg s (base + length (so_emitted out)) = (Inr (), s')"
  using assms accept_walk_walked [of pick_at draft p]
  by (auto simp: accept_and_roll_back_def simp del: upt_Suc split: prod.splits sum.splits)

section \<open>Prompt lookup\<close>

text \<open>An earlier occurrence of the last \<open>n\<close> tokens.\<close>

definition occurs :: "token list \<Rightarrow> nat \<Rightarrow> nat \<Rightarrow> bool" where
  "occurs history n start \<longleftrightarrow>
     start + n < length history \<and> take n (drop start history) = drop (length history - n) history"

lemma find_map_down:
  "find_map f (rev [a..<b]) = Some y \<longleftrightarrow>
   (\<exists>n. a \<le> n \<and> n < b \<and> f n = Some y \<and> (\<forall>m. n < m \<and> m < b \<longrightarrow> f m = None))"
proof (induction b)
  case 0
  then show ?case by simp
next
  case (Suc b)
  show ?case
  proof (cases "a \<le> b")
    case True
    show ?thesis
    proof (cases "f b")
      case None
      then show ?thesis using Suc True by (auto simp: less_Suc_eq)
    next
      case (Some z)
      then show ?thesis using True by (auto simp: less_Suc_eq)
    qed
  next
    case False
    then show ?thesis by auto
  qed
qed

lemma find_map_down_None:
  "find_map f (rev [a..<b]) = None \<longleftrightarrow> (\<forall>n. a \<le> n \<and> n < b \<longrightarrow> f n = None)"
proof (induction b)
  case 0
  then show ?case by simp
next
  case (Suc b)
  then show ?case by (cases "a \<le> b"; cases "f b") (auto simp: less_Suc_eq)
qed

definition continuation :: "token list \<Rightarrow> nat \<Rightarrow> nat \<Rightarrow> token list" where
  "continuation history from limit = take (min limit (length history - from)) (drop from history)"

lemma propose_from:
  assumes "length history \<le> usize_max" "from \<le> length history"
  shows "take (min (saturating_add_usize from limit) (length history) - from) (drop from history) =
    continuation history from limit"
  using assms by (simp add: continuation_def saturating_add_usize_def min_def)

lemma find_map_cong:
  "(\<And>x. x \<in> set xs \<Longrightarrow> f x = g x) \<Longrightarrow> find_map f xs = find_map g xs"
  by (induction xs) (auto split: option.splits)

lemma inner_search:
  assumes "length history \<le> usize_max" "n \<le> length history"
  shows "find_map (\<lambda>start. if take n (drop start history) = drop (length history - n) history then
      (let from = start + n; to = min (saturating_add_usize from limit) (length history)
       in Some (take (to - from) (drop from history))) else None) (rev [0..<length history - n]) =
    (if \<exists>start. occurs history n start
     then Some (continuation history (Max {start. occurs history n start} + n) limit) else None)"
proof -
  let ?f = "\<lambda>start. if take n (drop start history) = drop (length history - n) history then
      (let from = start + n; to = min (saturating_add_usize from limit) (length history)
       in Some (take (to - from) (drop from history))) else None"
  have f: "?f start = (if occurs history n start then Some (continuation history (start + n) limit) else None)"
    if "start < length history - n" for start
    using propose_from [OF assms(1), of "start + n" limit] that by (auto simp: occurs_def Let_def)
  have fin: "finite {start. occurs history n start}"
    by (rule finite_subset [of _ "{..<length history}"]) (auto simp: occurs_def)
  show ?thesis
  proof (cases "\<exists>start. occurs history n start")
    case True
    let ?m = "Max {start. occurs history n start}"
    have m: "occurs history n ?m" using Max_in [OF fin] True by blast
    then have lt: "?m < length history - n" by (auto simp: occurs_def)
    have "?f start = None" if "?m < start" "start < length history - n" for start
      using f [OF that(2)] Max_ge [OF fin, of start] that(1) by auto
    then have "find_map ?f (rev [0..<length history - n]) = Some (continuation history (?m + n) limit)"
      unfolding find_map_down using f [OF lt] m lt by (intro exI [of _ ?m]) simp
    then show ?thesis using True by simp
  next
    case False
    then have "find_map ?f (rev [0..<length history - n]) = None"
      unfolding find_map_down_None using f by simp
    then show ?thesis using False by simp
  qed
qed

lemma lookup_propose_cases:
  assumes "length history \<le> usize_max" "0 < limit"
  shows "(\<exists>n start. pl_min_ngram pl \<le> n \<and> n \<le> pl_max_ngram pl \<and> occurs history n start \<and>
      (\<forall>m start'. n < m \<and> m \<le> pl_max_ngram pl \<longrightarrow> \<not> occurs history m start') \<and>
      (\<forall>start'>start. \<not> occurs history n start') \<and>
      lookup_propose pl history limit = continuation history (start + n) limit) \<or>
    (lookup_propose pl history limit = [] \<and>
      (\<forall>n start. pl_min_ngram pl \<le> n \<and> n \<le> pl_max_ngram pl \<longrightarrow> \<not> occurs history n start))"
proof -
  define g where "g n = (if \<exists>start. occurs history n start
     then Some (continuation history (Max {start. occurs history n start} + n) limit) else None)" for n
  define top where "top = Suc (min (pl_max_ngram pl) (length history - 1))"
  have fin: "finite {start. occurs history n start}" for n
    by (rule finite_subset [of _ "{..<length history}"]) (auto simp: occurs_def)
  have search: "find_map (\<lambda>n. find_map (\<lambda>start. if take n (drop start history) = drop (length history - n) history then
      (let from = start + n; to = min (saturating_add_usize from limit) (length history)
       in Some (take (to - from) (drop from history))) else None) (rev [0..<length history - n]))
      (rev [pl_min_ngram pl..<top]) = find_map g (rev [pl_min_ngram pl..<top])"
  proof (rule find_map_cong)
    fix n assume "n \<in> set (rev [pl_min_ngram pl..<top])"
    then have "n \<le> length history" by (auto simp: top_def)
    then show "find_map (\<lambda>start. if take n (drop start history) = drop (length history - n) history then
      (let from = start + n; to = min (saturating_add_usize from limit) (length history)
       in Some (take (to - from) (drop from history))) else None) (rev [0..<length history - n]) = g n"
      unfolding g_def by (rule inner_search [OF assms(1)])
  qed
  have in_range: "n < top" if "occurs history n start" "n \<le> pl_max_ngram pl" for n start
    using that by (auto simp: occurs_def top_def)
  have res: "lookup_propose pl history limit =
      (case find_map g (rev [pl_min_ngram pl..<top]) of None \<Rightarrow> [] | Some d \<Rightarrow> d)"
    using assms(2) search by (simp add: lookup_propose_def Let_def top_def)
  show ?thesis
  proof (cases "find_map g (rev [pl_min_ngram pl..<top])")
    case None
    then have "\<forall>n. pl_min_ngram pl \<le> n \<and> n < top \<longrightarrow> g n = None" unfolding find_map_down_None .
    then have "\<not> occurs history n start" if "pl_min_ngram pl \<le> n" "n \<le> pl_max_ngram pl" for n start
      using in_range that by (fastforce simp: g_def split: if_splits)
    then show ?thesis using res None by simp
  next
    case (Some d)
    then obtain n where n: "pl_min_ngram pl \<le> n" "n < top" "g n = Some d" "\<forall>m. n < m \<and> m < top \<longrightarrow> g m = None"
      unfolding find_map_down by blast
    let ?start = "Max {start. occurs history n start}"
    have some: "\<exists>start. occurs history n start" and d: "d = continuation history (?start + n) limit"
      using n(3) by (auto simp: g_def split: if_splits)
    have "occurs history n ?start" using Max_in [OF fin [of n]] some by blast
    moreover have "\<forall>start'>?start. \<not> occurs history n start'" using Max_ge [OF fin [of n]] by fastforce
    moreover have "\<not> occurs history m start'" if m: "n < m" "m \<le> pl_max_ngram pl" for m start'
    proof
      assume o: "occurs history m start'"
      then have "g m = None" using n(4) m in_range by blast
      then show False using o by (auto simp: g_def split: if_splits)
    qed
    moreover have "n \<le> pl_max_ngram pl" using n(2) by (simp add: top_def)
    moreover have "lookup_propose pl history limit = continuation history (?start + n) limit"
      using res Some d by simp
    ultimately show ?thesis using n(1)
      by (intro disjI1 exI [of _ n] exI [of _ ?start] conjI allI impI) simp_all
  qed
qed

lemma continuation_bounds:
  "length (continuation history from limit) \<le> limit"
  "from < length history \<Longrightarrow> 0 < limit \<Longrightarrow> continuation history from limit \<noteq> []"
  by (simp_all add: continuation_def)

lemma find_map_result: "find_map f xs = Some y \<Longrightarrow> \<exists>x\<in>set xs. f x = Some y"
  by (induction xs) (auto split: option.splits)

lemma taken_le_limit: "length (take (min (saturating_add_usize from limit) n - from) xs) \<le> limit"
  by (auto simp: saturating_add_usize_def min_def)

lemma lookup_propose_length: "length (lookup_propose pl history limit) \<le> limit"
  unfolding lookup_propose_def Let_def using taken_le_limit
  by (auto split: option.splits if_splits simp del: length_take dest!: find_map_result)

lemma speculative_step_walked:
  assumes "speculative_step tg s last_token draft pick p = (Inr out, s', p')"
  shows "walked draft (so_emitted out) (so_accepted out) (so_stopped out) \<and> so_drafted out = length draft \<and>
    (\<exists>logits s1. tg_verify tg s (last_token # draft) = (Inr logits, s1) \<and> positions logits = Suc (length draft) \<and>
       tg_truncate tg s1 (tg_cached_tokens tg s + length (so_emitted out)) = (Inr (), s'))"
  using assms
  by (auto simp: speculative_step_def Let_def split: prod.splits sum.splits if_splits dest!: roll_back_walked)

section \<open>Drafters\<close>

text \<open>
  The contract of \<open>Drafter::propose\<close>: at most \<open>limit\<close> tokens. A decode loop that caps the limit
  by what may still be generated then never emits too much, and a step scores a bounded chunk.
\<close>

locale drafter =
  fixes propose :: "token list \<Rightarrow> nat \<Rightarrow> token list"
  assumes within_limit: "length (propose history limit) \<le> limit"
begin

lemma step_emits_at_most:
  assumes "0 < remaining"
    and "speculative_step tg s last_token (propose history (min limit (remaining - 1))) pick p = (Inr out, s', p')"
  shows "length (so_emitted out) \<le> remaining \<and> so_drafted out \<le> limit"
proof -
  let ?draft = "propose history (min limit (remaining - 1))"
  have "walked ?draft (so_emitted out) (so_accepted out) (so_stopped out)" "so_drafted out = length ?draft"
    using speculative_step_walked [OF assms(2)] by auto
  moreover have "length ?draft \<le> min limit (remaining - 1)" by (rule within_limit)
  ultimately show ?thesis using assms(1) by (auto simp: walked_def)
qed

end

interpretation lookup: drafter "lookup_propose pl" for pl
  by unfold_locales (rule lookup_propose_length)

section \<open>Picks on the device\<close>

lemma accept_walk_cong:
  assumes "\<And>j p. j \<in> set indexes \<Longrightarrow> f j p = g j p"
  shows "accept_walk f draft indexes emitted accepted p = accept_walk g draft indexes emitted accepted p"
  using assms
proof (induction indexes arbitrary: emitted accepted p)
  case Nil
  then show ?case by simp
next
  case (Cons i indexes)
  then show ?case by (simp add: Let_def split: prod.splits sum.splits)
qed

lemma accept_and_roll_back_cong:
  assumes "\<And>j p. j \<le> length draft \<Longrightarrow> f j p = g j p"
  shows "accept_and_roll_back tg s base draft f p = accept_and_roll_back tg s base draft g p"
proof -
  have "accept_walk f draft [0..<Suc (length draft)] [] 0 p = accept_walk g draft [0..<Suc (length draft)] [] 0 p"
    by (rule accept_walk_cong) (use assms in auto)
  then show ?thesis by (simp only: accept_and_roll_back_def)
qed

text \<open>The rows of well-formed logits, and what a device pick of every row returns.\<close>

definition logits_ok :: "'l position_logits \<Rightarrow> bool" where
  "logits_ok logits \<longleftrightarrow>
     0 < pl_vocabulary logits \<and> pl_values logits \<noteq> [] \<and> pl_vocabulary logits dvd length (pl_values logits) \<and>
     length (pl_values logits) \<le> usize_max"

definition row_at :: "'l position_logits \<Rightarrow> nat \<Rightarrow> 'l list" where
  "row_at logits i = take (pl_vocabulary logits) (drop (i * pl_vocabulary logits) (pl_values logits))"

lemma logits_row_at:
  assumes "logits_ok logits"
  shows "logits_row logits i = (if i < positions logits then Some (row_at logits i) else None)"
proof -
  let ?v = "pl_vocabulary logits" and ?n = "length (pl_values logits)"
  have v: "0 < ?v" "?n = positions logits * ?v" "?n \<le> usize_max"
    using assms by (simp_all add: logits_ok_def positions_def)
  have "i < positions logits \<longleftrightarrow> Suc i * ?v \<le> positions logits * ?v" using v(1) by (simp only: mult_le_cancel2) auto
  then have "i < positions logits \<longleftrightarrow> i * ?v + ?v \<le> ?n" unfolding v(2) by (simp add: add.commute)
  moreover have "i * ?v \<le> i * ?v + ?v" by simp
  ultimately show ?thesis
    using v(3) by (auto simp: logits_row_def row_at_def mul_usize_def add_usize_def)
qed

definition device_picks ::
  "('s, 'l, 'e) target \<Rightarrow> ('s \<Rightarrow> token list \<Rightarrow> ('e + token list) \<times> 's) \<Rightarrow> ('l list \<Rightarrow> token) \<Rightarrow> bool" where
  "device_picks tg verify_greedy best \<longleftrightarrow>
     (\<forall>s ts. verify_greedy s ts =
        (case tg_verify tg s ts of
           (Inl e, s') \<Rightarrow> (Inl e, s')
         | (Inr logits, s') \<Rightarrow> (Inr (map (\<lambda>i. best (row_at logits i)) [0..<positions logits]), s'))) \<and>
     (\<forall>s ts logits s'. tg_verify tg s ts = (Inr logits, s') \<longrightarrow> logits_ok logits)"

lemma greedy_step_host:
  assumes "device_picks tg verify_greedy best"
  shows "greedy_speculative_step tg verify_greedy s last_token draft is_stop p =
    speculative_step tg s last_token draft
      (\<lambda>row p. let (stop, p) = is_stop (best row) p in (Inr \<lparr>pk_token = best row, pk_stop = stop\<rparr>, p)) p"
proof -
  obtain r s1 where v: "tg_verify tg s (last_token # draft) = (r, s1)" by force
  show ?thesis
  proof (cases r)
    case (Inl e)
    then show ?thesis using assms v
      by (simp add: greedy_speculative_step_def speculative_step_def device_picks_def)
  next
    case (Inr logits)
    have ok: "logits_ok logits" using assms v Inr unfolding device_picks_def by blast
    have g: "verify_greedy s (last_token # draft) = (Inr (map (\<lambda>i. best (row_at logits i)) [0..<positions logits]), s1)"
      using assms v Inr by (simp add: device_picks_def)
    show ?thesis
    proof (cases "positions logits = Suc (length draft)")
      case True
      have eq: "accept_and_roll_back tg s1 base draft (\<lambda>index p.
            let token = map (\<lambda>i. best (row_at logits i)) [0..<positions logits] ! index; (stop, p) = is_stop token p
            in (Inr \<lparr>pk_token = token, pk_stop = stop\<rparr>, p)) p =
          accept_and_roll_back tg s1 base draft (\<lambda>index p. case logits_row logits index of
            None \<Rightarrow> (Inl LogitShape, p)
          | Some row \<Rightarrow> (case (let (stop, p) = is_stop (best row) p in (Inr \<lparr>pk_token = best row, pk_stop = stop\<rparr>, p)) of
              (Inl e, p) \<Rightarrow> (Inl (PickFailed e), p) | (Inr picked, p) \<Rightarrow> (Inr picked, p))) p" for base
        by (rule accept_and_roll_back_cong)
          (use True in \<open>simp add: logits_row_at [OF ok] Let_def nth_append split: prod.splits\<close>)
      show ?thesis using v g Inr True eq [unfolded Let_def]
        by (simp add: greedy_speculative_step_def speculative_step_def Let_def)
    next
      case False
      then show ?thesis using v g Inr
        by (simp add: greedy_speculative_step_def speculative_step_def Let_def)
    qed
  qed
qed

lemma concat_slices: "concat (map (\<lambda>i. take v (drop (i * v) xs)) [0..<n]) = take (n * v) xs"
proof (induction n)
  case 0
  then show ?case by simp
next
  case (Suc n)
  then show ?case by (simp add: take_add add.commute [of v])
qed

section \<open>Properties\<close>

text \<open>C29: Speculation never changes what is generated. For a target that keeps its documented laws, any
  sequence of drafts (from any drafter, adapted in any way) decodes to exactly the tokens that
  plain decoding picks one at a time, with the same final state of the picker (so the same random
  stream and grammar state), the same stop and the same cache; the cache holds everything emitted
  but the last token; and a step can only fail where plain decoding fails, with the picker's own
  error.\<close>

theorem speculation_is_plain_decoding:
  assumes "exact_target tg cache row vocabulary capacity"
    and "length (cache s) + sum_list (map (\<lambda>d. Suc (length d)) drafts) \<le> capacity"
  shows "case decode_drafts tg pick drafts s last_token p of
       (Inr (tokens, stopped), s', p') \<Rightarrow>
         plain_decode row pick (length tokens) (cache s @ [last_token]) p = (Inr (tokens, stopped), p') \<and>
         cache s' @ [last (last_token # tokens)] = cache s @ [last_token] @ tokens \<and>
         (\<not> stopped \<longrightarrow> length drafts \<le> length tokens)
     | (Inl x, s', p') \<Rightarrow> \<exists>e n. x = PickFailed e \<and>
         plain_decode row pick n (cache s @ [last_token]) p = (Inl e, p')"
  by (rule decode_drafts_plain [OF assms])

text \<open>C30: Whatever a target does, the outcome of a step fits its draft: it emits at least one token, the
  accepted count is the number of leading draft tokens reproduced, at most one further token (a
  mismatch or the bonus) follows them, a mismatch really differs from the draft, the whole draft
  counts as drafted, and the cache was rolled back to the emitted tokens.\<close>

theorem step_outcome_fits_draft:
  assumes "speculative_step tg s last_token draft pick p = (Inr out, s', p')"
  shows "so_emitted out \<noteq> [] \<and> so_accepted out \<le> so_drafted out \<and> so_drafted out = length draft \<and>
    take (so_accepted out) (so_emitted out) = take (so_accepted out) draft \<and>
    (length (so_emitted out) = Suc (so_accepted out) \<or> length (so_emitted out) = so_accepted out \<and> so_stopped out) \<and>
    (length (so_emitted out) = Suc (so_accepted out) \<and> so_accepted out < length draft \<longrightarrow>
       last (so_emitted out) \<noteq> draft ! so_accepted out) \<and>
    (\<exists>logits s1. tg_verify tg s (last_token # draft) = (Inr logits, s1) \<and> positions logits = Suc (length draft) \<and>
       tg_truncate tg s1 (tg_cached_tokens tg s + length (so_emitted out)) = (Inr (), s'))"
  using speculative_step_walked [OF assms] by (auto simp: walked_def)

text \<open>C31: Picking on the device changes nothing: when the device returns the best token of every row the
  host would have read, a greedy step emits, caches and reports exactly what the host step with
  that picker does, its errors included.\<close>

theorem greedy_step_is_host_step:
  assumes "device_picks tg verify_greedy best"
  shows "greedy_speculative_step tg verify_greedy s last_token draft is_stop p =
    speculative_step tg s last_token draft
      (\<lambda>row p. let (stop, p) = is_stop (best row) p in (Inr \<lparr>pk_token = best row, pk_stop = stop\<rparr>, p)) p"
  by (rule greedy_step_host [OF assms])

text \<open>C32: Prompt lookup proposes what followed the most recent earlier occurrence of the longest matching
  suffix of the history, up to the limit, and proposes nothing only when no suffix of an allowed
  length occurs earlier or nothing was asked for.\<close>

theorem prompt_lookup_finds_latest_longest_match:
  assumes "length history \<le> usize_max" "0 < limit"
  shows "case lookup_propose pl history limit of
      [] \<Rightarrow> \<forall>n start. pl_min_ngram pl \<le> n \<and> n \<le> pl_max_ngram pl \<longrightarrow> \<not> occurs history n start
    | t # ts \<Rightarrow> \<exists>n start. pl_min_ngram pl \<le> n \<and> n \<le> pl_max_ngram pl \<and> occurs history n start \<and>
        (\<forall>m start'. n < m \<and> m \<le> pl_max_ngram pl \<longrightarrow> \<not> occurs history m start') \<and>
        (\<forall>start'>start. \<not> occurs history n start') \<and>
        t # ts = take (min limit (length history - (start + n))) (drop (start + n) history)"
proof -
  have some: "continuation history (start + n) limit \<noteq> []" if "occurs history n start" for n start
    using that assms(2) by (intro continuation_bounds) (simp_all add: occurs_def)
  let ?d = "lookup_propose pl history limit"
  consider (found) n start where "pl_min_ngram pl \<le> n" "n \<le> pl_max_ngram pl" "occurs history n start"
      "\<forall>m start'. n < m \<and> m \<le> pl_max_ngram pl \<longrightarrow> \<not> occurs history m start'"
      "\<forall>start'>start. \<not> occurs history n start'" "?d = continuation history (start + n) limit"
    | (none) "?d = []" "\<forall>n start. pl_min_ngram pl \<le> n \<and> n \<le> pl_max_ngram pl \<longrightarrow> \<not> occurs history n start"
    using lookup_propose_cases [OF assms, of pl] by (elim disjE exE conjE) (rule that, assumption+)
  then show ?thesis
  proof cases
    case found
    have "?d \<noteq> []" using some [OF found(3)] found(6) by simp
    then obtain t ts where d: "?d = t # ts" by (cases ?d) blast+
    show ?thesis unfolding d list.case
      by (rule exI [of _ n], rule exI [of _ start])
        (use found(1-5) in \<open>simp add: found(6) [unfolded d continuation_def]\<close>)
  next
    case none
    then show ?thesis by simp
  qed
qed

text \<open>A turn never overruns its token budget: a step whose draft is prompt lookup's, limited to one
  less than the tokens that remain, emits at most the remaining tokens.\<close>

theorem lookup_step_respects_budget:
  assumes "0 < remaining"
    and "speculative_step tg s last_token (lookup_propose pl history (min limit (remaining - 1))) pick p = (Inr out, s', p')"
  shows "length (so_emitted out) \<le> remaining \<and> so_drafted out \<le> limit"
  by (rule lookup.step_emits_at_most [OF assms])

text \<open>C33: Logit rows are well-formed by construction: the constructor accepts exactly a nonempty whole
  number of rows of a positive width; then there is at least one position, a row exists exactly
  for every scored position, each has the vocabulary's width, and together they are the values.\<close>

theorem logit_rows_are_whole:
  assumes "length values \<le> usize_max"
  shows "case logits_new values vocabulary of
      Inl e \<Rightarrow> e = LogitShape \<and> (vocabulary = 0 \<or> values = [] \<or> \<not> vocabulary dvd length values)
    | Inr logits \<Rightarrow> 0 < positions logits \<and>
        (\<forall>i. logits_row logits i \<noteq> None \<longleftrightarrow> i < positions logits) \<and>
        (\<forall>i row. logits_row logits i = Some row \<longrightarrow> length row = vocabulary) \<and>
        concat (map (\<lambda>i. the (logits_row logits i)) [0..<positions logits]) = values"
proof (cases "vocabulary = 0 \<or> values = [] \<or> \<not> vocabulary dvd length values")
  case True
  then show ?thesis by (auto simp: logits_new_def)
next
  case False
  define logits where "logits = \<lparr>pl_values = values, pl_vocabulary = vocabulary\<rparr>"
  have ok: "logits_ok logits" using False assms by (simp add: logits_ok_def logits_def)
  note row = logits_row_at [OF ok]
  obtain n where n: "length values = n * vocabulary" using False by (auto simp: dvd_def mult.commute)
  then have pos: "positions logits = n" "0 < n" using False by (auto simp: positions_def logits_def intro: Nat.gr0I)
  have width: "length (row_at logits i) = vocabulary" if "i < n" for i
  proof -
    have "i * vocabulary + vocabulary \<le> n * vocabulary" using that by (metis add.commute mult_Suc Suc_leI mult_le_mono1)
    then show ?thesis using n by (simp add: row_at_def logits_def)
  qed
  have "concat (map (\<lambda>i. the (logits_row logits i)) [0..<n]) = concat (map (row_at logits) [0..<n])"
    using row pos(1) by (intro arg_cong [of _ _ concat] map_cong) simp_all
  also have "\<dots> = take (n * vocabulary) values"
    by (simp add: row_at_def [abs_def] logits_def concat_slices)
  finally show ?thesis using False row pos width n
    unfolding logits_new_def logits_def [symmetric] by simp
qed

section \<open>A small target\<close>

text \<open>A model that counts: the best token after a sequence is the successor of its last token.\<close>

definition counting_row :: "token list \<Rightarrow> token list" where
  "counting_row ts = [last ts + 1, 0]"

definition counting_target :: "(token list, token, unit) target" where
  "counting_target = \<lparr>tg_cached_tokens = length,
     tg_verify = (\<lambda>s ts. if ts = [] \<or> 100 < length ts then (Inl (), s) else (Inr \<lparr>pl_values = concat (map (\<lambda>i. counting_row (s @ take (Suc i) ts)) [0..<length ts]),
        pl_vocabulary = 2\<rparr>, s @ ts)),
     tg_truncate = (\<lambda>s n. (Inr (), take n s))\<rparr>"

definition first_pick :: "token list \<Rightarrow> nat \<Rightarrow> (unit + pick) \<times> nat" where
  "first_pick row p = (Inr \<lparr>pk_token = hd row, pk_stop = False\<rparr>, Suc p)"

lemma counting_exact: "exact_target counting_target id counting_row 2 100"
  by (simp add: exact_target_def counting_target_def counting_row_def usize_max_def)

lemma counting_decode:
  "decode_drafts counting_target first_pick [[2, 9]] [5] 1 0 = (Inr ([2, 3], False), [5, 1, 2], 2)"
  by (simp add: speculative_step_def counting_target_def counting_row_def positions_def accept_and_roll_back_def
      first_pick_def logits_row_def mul_usize_def add_usize_def usize_max_def list_get_def upt_rec Let_def)

lemma counting_step:
  "speculative_step counting_target [5] 1 [2, 9] first_pick 0 =
     (Inr \<lparr>so_emitted = [2, 3], so_drafted = 2, so_accepted = 1, so_stopped = False\<rparr>, [5, 1, 2], 2)"
  by (simp add: speculative_step_def counting_target_def counting_row_def positions_def accept_and_roll_back_def
      first_pick_def logits_row_def mul_usize_def add_usize_def usize_max_def list_get_def upt_rec Let_def)

lemma speculation_is_plain_decoding_witness:
  "plain_decode counting_row first_pick 2 [5, 1] 0 = (Inr ([2, 3], False), 2)"
  using speculation_is_plain_decoding [OF counting_exact, of "[5]" "[[2, 9]]" first_pick 1 0]
  unfolding counting_decode by (simp add: numeral_2_eq_2 del: plain_decode.simps)

lemma step_outcome_fits_draft_witness:
  "take 1 [2 :: token, 3] = take 1 [2, 9] \<and>
   (\<exists>logits s1. tg_verify counting_target [5] [1, 2, 9] = (Inr logits, s1) \<and> positions logits = 3)"
  using step_outcome_fits_draft [OF counting_step] by auto

definition counting_greedy :: "token list \<Rightarrow> token list \<Rightarrow> (unit + token list) \<times> token list" where
  "counting_greedy s ts =
     (case tg_verify counting_target s ts of
        (Inl e, s') \<Rightarrow> (Inl e, s')
      | (Inr logits, s') \<Rightarrow> (Inr (map (\<lambda>i. hd (row_at logits i)) [0..<positions logits]), s'))"

lemma counting_device: "device_picks counting_target counting_greedy hd"
proof -
  have "logits_ok logits" if "tg_verify counting_target s ts = (Inr logits, s')" for s ts logits s'
  proof -
    have ts: "ts \<noteq> []" "length ts \<le> 100" and vals: "pl_vocabulary logits = 2"
      "pl_values logits = concat (map (\<lambda>i. counting_row (s @ take (Suc i) ts)) [0..<length ts])"
      using that by (auto simp: counting_target_def split: if_splits)
    have "length (pl_values logits) = length ts * 2"
      unfolding vals by (rule length_rows) (simp add: counting_row_def)
    then show ?thesis using ts vals(1) by (auto simp: logits_ok_def usize_max_def)
  qed
  then show ?thesis unfolding device_picks_def counting_greedy_def by blast
qed

lemma greedy_step_is_host_step_witness:
  "(greedy_speculative_step counting_target counting_greedy [5] 1 [2, 9] (\<lambda>t p. (False, Suc p)) 0 ::
     ((unit, unit) speculation_error + step_outcome) \<times> token list \<times> nat) =
   (Inr \<lparr>so_emitted = [2, 3], so_drafted = 2, so_accepted = 1, so_stopped = False\<rparr>, [5, 1, 2], 2)"
proof -
  have "first_pick = (\<lambda>row p. let (stop, p) = (\<lambda>t p. (False, Suc p)) (hd row) p in (Inr \<lparr>pk_token = hd row, pk_stop = stop\<rparr>, p))"
    by (simp add: first_pick_def fun_eq_iff)
  from counting_step [unfolded this] show ?thesis
    by (rule trans [OF greedy_step_is_host_step [OF counting_device]])
qed

lemma prompt_lookup_finds_latest_longest_match_witness:
  "lookup_propose prompt_lookup_default [1, 2, 3, 1, 2] 2 = [3, 1] \<and>
   (\<exists>n start. 2 \<le> n \<and> occurs [1, 2, 3, 1, 2] n start)"
proof -
  have p: "lookup_propose prompt_lookup_default [1, 2, 3, 1, 2] 2 = [3, 1]"
    by (simp add: lookup_propose_def prompt_lookup_default_def saturating_add_usize_def usize_max_def upt_rec Let_def)
  then show ?thesis
    using prompt_lookup_finds_latest_longest_match [of "[1, 2, 3, 1, 2]" 2 prompt_lookup_default]
    by (auto simp: usize_max_def prompt_lookup_default_def)
qed

lemma lookup_step_respects_budget_witness:
  "length (so_emitted \<lparr>so_emitted = [2, 3], so_drafted = 2, so_accepted = 1, so_stopped = False\<rparr>) \<le> 3"
proof -
  have "lookup_propose prompt_lookup_default [0, 1, 2, 9, 0, 1] (min 7 (3 - 1)) = [2, 9]"
    by (simp add: lookup_propose_def prompt_lookup_default_def saturating_add_usize_def usize_max_def upt_rec Let_def)
  then show ?thesis
    using lookup_step_respects_budget [of 3 counting_target "[5]" 1 prompt_lookup_default "[0, 1, 2, 9, 0, 1]" 7 first_pick 0]
      counting_step by simp
qed

lemma logit_rows_are_whole_witness:
  "case logits_new [1 :: nat, 2, 3, 4] 2 of Inl e \<Rightarrow> False
    | Inr logits \<Rightarrow> positions logits = 2 \<and>
        concat (map (\<lambda>i. the (logits_row logits i)) [0..<positions logits]) = [1, 2, 3, 4]"
  using logit_rows_are_whole [of "[1 :: nat, 2, 3, 4]" 2]
  by (simp add: logits_new_def usize_max_def positions_def)

end
