(* ===== verification/Checkpoint.thy ===== *)
theory Checkpoint
  imports Bytes
begin

text \<open>
  What the checkpoint containers share (\<open>crates/core/checkpoint/src/lib.rs\<close> and the type table of
  \<open>crates/core/blockfloat/src/gguf.rs\<close>): element types, encodings, tensor records, range checks
  and the errors. Names are UTF-8 byte lists, offsets and sizes are \<open>u64\<close> values as \<open>nat\<close>, a
  \<open>Range\<close> is a pair of its ends.
\<close>

section \<open>Results\<close>

text \<open>\<open>Result::and_then\<close>, which is what \<open>?\<close> does.\<close>

definition and_then :: "'e + 'a \<Rightarrow> ('a \<Rightarrow> 'e + 'b) \<Rightarrow> 'e + 'b" where
  "and_then r f = (case r of Inl e \<Rightarrow> Inl e | Inr a \<Rightarrow> f a)"

definition ok_or :: "'e \<Rightarrow> 'a option \<Rightarrow> 'e + 'a" where
  "ok_or e x = (case x of None \<Rightarrow> Inl e | Some a \<Rightarrow> Inr a)"

lemma and_then_Inr: "and_then r f = Inr b \<longleftrightarrow> (\<exists>a. r = Inr a \<and> f a = Inr b)"
  by (cases r) (simp_all add: and_then_def)

lemma and_then_simps [simp]: "and_then (Inl e) f = Inl e" "and_then (Inr a) f = f a"
  by (simp_all add: and_then_def)

lemma ok_or_Inr: "ok_or e x = Inr a \<longleftrightarrow> x = Some a"
  by (cases x) (simp_all add: ok_or_def)

lemma ok_or_simps [simp]: "ok_or e None = Inl e" "ok_or e (Some a) = Inr a"
  by (simp_all add: ok_or_def)

section \<open>Element types and encodings\<close>

datatype dtype =
    F64_t | F32_t | F16_t | BF16_t | I64_t | I32_t | I16_t | I8_t | U64_t | U32_t | U16_t | U8_t
  | Bool_t | F8E4M3_t | F8E8M0_t

definition dtype_size :: "dtype \<Rightarrow> nat" where
  "dtype_size t =
     (if t \<in> {F64_t, I64_t, U64_t} then 8
      else if t \<in> {F32_t, I32_t, U32_t} then 4
      else if t \<in> {F16_t, BF16_t, I16_t, U16_t} then 2
      else 1)"

datatype gguf_encoding =
    F32 | F16 | Q4_0 | Q4_1 | Q5_0 | Q5_1 | Q8_0 | Q8_1 | Q2_K | Q3_K | Q4_K | Q5_K | Q6_K | Q8_K
  | IQ2_XXS | IQ2_XS | IQ3_XXS | IQ1_S | IQ4_NL | IQ3_S | IQ2_S | IQ4_XS | I8 | I16 | I32 | I64
  | F64 | IQ1_M | BF16 | TQ1_0 | TQ2_0 | MXFP4 | NVFP4 | Q1_0 | Q2_0

text \<open>\<open>(encoding, type id, elements per block, bytes per block)\<close>.\<close>

definition gguf_table :: "(gguf_encoding \<times> nat \<times> nat \<times> nat) list" where
  "gguf_table = (let K = 256 in [
     (F32, 0, 1, 4),
     (F16, 1, 1, 2),
     (Q4_0, 2, 32, 2 + 16),
     (Q4_1, 3, 32, 2 + 2 + 16),
     (Q5_0, 6, 32, 2 + 4 + 16),
     (Q5_1, 7, 32, 2 + 2 + 4 + 16),
     (Q8_0, 8, 32, 2 + 32),
     (Q8_1, 9, 32, 2 + 2 + 32),
     (Q2_K, 10, K, 2 + 2 + K div 16 + K div 4),
     (Q3_K, 11, K, 2 + K div 4 + K div 8 + 12),
     (Q4_K, 12, K, 2 + 2 + K div 2 + 12),
     (Q5_K, 13, K, 2 + 2 + K div 2 + K div 8 + 12),
     (Q6_K, 14, K, 2 + K div 2 + K div 4 + K div 16),
     (Q8_K, 15, K, 4 + K + K div 8),
     (IQ2_XXS, 16, K, 2 + K div 4),
     (IQ2_XS, 17, K, 2 + K div 4 + K div 32),
     (IQ3_XXS, 18, K, 2 + K div 4 + K div 8),
     (IQ1_S, 19, K, 2 + K div 8 + K div 16),
     (IQ4_NL, 20, 32, 2 + 16),
     (IQ3_S, 21, K, 2 + K div 4 + K div 8 + K div 32 + 4),
     (IQ2_S, 22, K, 2 + K div 4 + K div 16),
     (IQ4_XS, 23, K, 2 + 2 + K div 2 + K div 64),
     (I8, 24, 1, 1),
     (I16, 25, 1, 2),
     (I32, 26, 1, 4),
     (I64, 27, 1, 8),
     (F64, 28, 1, 8),
     (IQ1_M, 29, K, K div 8 + K div 16 + K div 32),
     (BF16, 30, 1, 2),
     (TQ1_0, 34, K, 2 + 4 * 13),
     (TQ2_0, 35, K, 2 + 64),
     (MXFP4, 39, 32, 1 + 16),
     (NVFP4, 40, 64, 4 + 32),
     (Q1_0, 41, 128, 2 + 16),
     (Q2_0, 42, 64, 2 + 16)])"

definition encoding_from_id :: "nat \<Rightarrow> gguf_encoding option" where
  "encoding_from_id i = map_option fst (find (\<lambda>(e, known, els, bs). known = i) gguf_table)"

text \<open>\<open>None\<close> is the panic of \<open>expect\<close>.\<close>

definition encoding_row :: "gguf_encoding \<Rightarrow> (nat \<times> nat \<times> nat) option" where
  "encoding_row e = map_option snd (find (\<lambda>(known, i, els, bs). known = e) gguf_table)"

definition encoding_id :: "gguf_encoding \<Rightarrow> nat" where
  "encoding_id e = fst (the (encoding_row e))"

definition block_elements :: "gguf_encoding \<Rightarrow> nat" where
  "block_elements e = fst (snd (the (encoding_row e)))"

definition block_bytes :: "gguf_encoding \<Rightarrow> nat" where
  "block_bytes e = snd (snd (the (encoding_row e)))"

definition byte_len :: "gguf_encoding \<Rightarrow> nat \<Rightarrow> nat option" where
  "byte_len e elements =
     (if \<not> block_elements e dvd elements then None
      else checked_mul_u64 (elements div block_elements e) (block_bytes e))"

lemma encoding_row_total: "encoding_row e \<noteq> None"
  by (cases e) (simp_all add: encoding_row_def gguf_table_def Let_def)

lemma block_sizes_pos: "0 < block_elements e \<and> 0 < block_bytes e"
  by (cases e) (simp_all add: block_elements_def block_bytes_def encoding_row_def gguf_table_def Let_def)

lemma encoding_from_id_iff: "encoding_from_id i = Some e \<longleftrightarrow> i = encoding_id e"
proof
  assume "encoding_from_id i = Some e"
  then show "i = encoding_id e"
    by (auto simp: encoding_from_id_def encoding_id_def encoding_row_def gguf_table_def Let_def split: if_splits)
next
  assume "i = encoding_id e"
  then show "encoding_from_id i = Some e"
    by (cases e) (simp_all add: encoding_from_id_def encoding_id_def encoding_row_def gguf_table_def Let_def)
qed

lemma encoding_id_u32: "encoding_id e \<le> u32_max"
  by (cases e) (simp_all add: encoding_id_def encoding_row_def gguf_table_def Let_def u32_max_def)

datatype tensor_encoding = Plain dtype | Gguf gguf_encoding | Affine nat nat

definition encoding_gguf :: "tensor_encoding \<Rightarrow> gguf_encoding option" where
  "encoding_gguf e = (case e of Gguf g \<Rightarrow> Some g | Plain t \<Rightarrow> None | Affine bits group_size \<Rightarrow> None)"

section \<open>Tensors\<close>

type_synonym range = "nat \<times> nat"

record tensor_info =
  ti_encoding :: tensor_encoding
  ti_shape :: "nat list"
  ti_range :: range

definition tensor_info_new :: "tensor_encoding \<Rightarrow> nat list \<Rightarrow> range \<Rightarrow> tensor_info" where
  "tensor_info_new e shape r = \<lparr>ti_encoding = e, ti_shape = shape, ti_range = r\<rparr>"

text \<open>\<open>product\<close> panics when it overflows.\<close>

fun checked_product :: "nat \<Rightarrow> nat list \<Rightarrow> nat option" where
  "checked_product n [] = Some n"
| "checked_product n (dim # dims) = do { m \<leftarrow> checked_mul_u64 n dim; checked_product m dims }"

definition info_elements :: "tensor_info \<Rightarrow> nat option" where
  "info_elements info = checked_product 1 (ti_shape info)"

definition slice_dim0 :: "tensor_info \<Rightarrow> nat \<Rightarrow> range option option" where
  "slice_dim0 info index =
     (case ti_shape info of
        [] \<Rightarrow> Some None
      | outer # shape \<Rightarrow> do {
          bytes \<leftarrow> checked_sub (snd (ti_range info)) (fst (ti_range info));
          if index \<ge> outer \<or> \<not> outer dvd bytes then Some None
          else do {
            let entry = bytes div outer;
            offset \<leftarrow> checked_mul_u64 index entry;
            start \<leftarrow> checked_add_u64 (fst (ti_range info)) offset;
            end \<leftarrow> checked_add_u64 start entry;
            Some (Some (start, end)) } })"

section \<open>Errors\<close>

type_synonym name = "byte list"

datatype checkpoint_error =
    Io string
  | NotGguf string
  | Version nat
  | Truncated string
  | Limit string nat nat
  | Utf8 name
  | ValueType name nat
  | NestedArray name
  | DuplicateKey name
  | DuplicateTensor name
  | UnknownEncoding name nat
  | Shape name "nat list" gguf_encoding
  | Alignment nat
  | OutOfRange name
  | Overlap name name
  | Unindexed string nat nat
  | Changed string
  | TooLarge name nat nat
  | MissingTensor name
  | Metadata name string
  | UnsupportedQuantization string
  | InvalidQuantization string
  | NotSafetensors string
  | UnknownDType name name
  | UnsafeShard name
  | UndeclaredQuantization name
  | OutsideTensor name range nat
  | AffineParameterDtype name tensor_encoding
  | AffineShape name "nat list" "nat list"

text \<open>The range lies inside the payload and is exactly \<open>len\<close> bytes long.\<close>

definition check_range :: "name \<Rightarrow> tensor_info \<Rightarrow> range \<Rightarrow> nat \<Rightarrow> checkpoint_error + unit" where
  "check_range name info r len =
     (let whole = ti_range info;
          inside = fst whole \<le> fst r \<and> fst r \<le> snd r \<and> snd r \<le> snd whole
      in if \<not> inside \<or> len \<noteq> snd r - fst r then Inl (OutsideTensor name r len) else Inr ())"

text \<open>
  \<open>TensorSource\<close>: the functions of the trait over a container \<open>'s\<close>, and its default
  \<open>read_range\<close>, which reads the whole tensor and copies the range into a buffer of \<open>len\<close> bytes.
  \<open>None\<close> is a panic: of \<open>end - start\<close>, or of a slice past the end.
\<close>

record 's tensor_source =
  src_names :: "'s \<Rightarrow> name list"
  src_tensor :: "'s \<Rightarrow> name \<Rightarrow> tensor_info option"
  src_read :: "'s \<Rightarrow> name \<Rightarrow> nat \<Rightarrow> (checkpoint_error + byte list) option"

definition default_read_range ::
  "'s tensor_source \<Rightarrow> 's \<Rightarrow> name \<Rightarrow> range \<Rightarrow> nat \<Rightarrow> (checkpoint_error + byte list) option" where
  "default_read_range src s name r len =
     (case src_tensor src s name of
        None \<Rightarrow> Some (Inl (MissingTensor name))
      | Some info \<Rightarrow>
          let whole = ti_range info
          in case check_range name info r len of
               Inl e \<Rightarrow> Some (Inl e)
             | Inr _ \<Rightarrow> do {
                 size \<leftarrow> checked_sub (snd whole) (fst whole);
                 bytes \<leftarrow> src_read src s name size;
                 case bytes of
                   Inl e \<Rightarrow> Some (Inl e)
                 | Inr bytes \<Rightarrow>
                     let offset = fst r - fst whole
                     in if offset + len \<le> length bytes then Some (Inr (take len (drop offset bytes))) else None })"

text \<open>
  The contract of a container that is in a \<open>valid\<close> state: a tensor's range is as long as its
  \<open>payload\<close>, a whole read returns the payload when the budget allows it and refuses otherwise.
  Every client of the trait rests on these laws.
\<close>

locale tensor_container =
  fixes src :: "'s tensor_source" and valid :: "'s \<Rightarrow> bool" and payload :: "'s \<Rightarrow> name \<Rightarrow> byte list"
  assumes names_tensors: "valid s \<Longrightarrow> name \<in> set (src_names src s) \<longleftrightarrow> src_tensor src s name \<noteq> None"
    and range_payload: "valid s \<Longrightarrow> src_tensor src s name = Some info \<Longrightarrow>
      fst (ti_range info) + length (payload s name) = snd (ti_range info)"
    and read_payload: "valid s \<Longrightarrow> src_tensor src s name = Some info \<Longrightarrow>
      src_read src s name budget =
        Some (if length (payload s name) \<le> budget then Inr (payload s name)
              else Inl (TooLarge name (length (payload s name)) budget))"
    and read_missing: "src_tensor src s name = None \<Longrightarrow> src_read src s name budget = Some (Inl (MissingTensor name))"
begin

lemma range_read:
  assumes "valid s"
  shows "default_read_range src s name r len =
    Some (case src_tensor src s name of
            None \<Rightarrow> Inl (MissingTensor name)
          | Some info \<Rightarrow>
              and_then (check_range name info r len) (\<lambda>_.
                Inr (take len (drop (fst r - fst (ti_range info)) (payload s name)))))"
proof (cases "src_tensor src s name")
  case None
  then show ?thesis by (simp add: default_read_range_def)
next
  case (Some info)
  note size = range_payload [OF assms Some]
  show ?thesis
  proof (cases "check_range name info r len")
    case (Inl e)
    then show ?thesis using Some by (simp add: default_read_range_def Let_def)
  next
    case (Inr u)
    then have r: "fst (ti_range info) \<le> fst r" "fst r \<le> snd r" "snd r \<le> snd (ti_range info)" "len = snd r - fst r"
      by (auto simp: check_range_def Let_def split: if_splits)
    have "snd (ti_range info) - fst (ti_range info) = length (payload s name)" "fst (ti_range info) \<le> snd (ti_range info)"
      using size by linarith+
    moreover have "fst r - fst (ti_range info) + len \<le> length (payload s name)" using r size by linarith
    ultimately show ?thesis
      using Some Inr read_payload [OF assms Some] by (simp add: default_read_range_def Let_def checked_sub_def)
  qed
qed

lemma no_panic: "valid s \<Longrightarrow> default_read_range src s name r len \<noteq> None"
  by (simp add: range_read)

end

end
