(* ===== verification/Gguf.thy ===== *)
theory Gguf
  imports Checkpoint "HOL-Library.Product_Lexorder"
begin

text \<open>
  GGUF files (\<open>crates/core/checkpoint/src/gguf.rs\<close>): the metadata values, the bounded header
  reader, the tensor table with its checks, opening a file and reading tensors from it. A file is
  its bytes, its modification time and whether it is a regular file; the file system is a map from
  paths to files. Floats are their bit patterns. Disk errors other than a missing file or an early
  end are not modelled.
\<close>

section \<open>Limits\<close>

definition gguf_magic :: "byte list" where
  "gguf_magic = ascii ''GGUF''"

definition default_alignment :: nat where
  "default_alignment = 32"

definition max_dims :: nat where
  "max_dims = 4"

definition max_tensors :: nat where
  "max_tensors = 2 ^ 20"

definition max_keys :: nat where
  "max_keys = 2 ^ 16"

definition max_string_bytes :: nat where
  "max_string_bytes = 16 * 2 ^ 20"

definition max_array_items :: nat where
  "max_array_items = 2 ^ 24"

definition max_header_bytes :: nat where
  "max_header_bytes = 512 * 2 ^ 20"

section \<open>Metadata\<close>

datatype gguf_array =
    U8_a "8 word list" | I8_a "8 word list" | U16_a "16 word list" | I16_a "16 word list"
  | U32_a "32 word list" | I32_a "32 word list" | F32_a "32 word list" | Bool_a "bool list"
  | String_a "name list" | U64_a "64 word list" | I64_a "64 word list" | F64_a "64 word list"

datatype gguf_value =
    U8_v "8 word" | I8_v "8 word" | U16_v "16 word" | I16_v "16 word" | U32_v "32 word"
  | I32_v "32 word" | F32_v "32 word" | Bool_v bool | String_v name | Array_v gguf_array
  | U64_v "64 word" | I64_v "64 word" | F64_v "64 word"

fun array_len :: "gguf_array \<Rightarrow> nat" where
  "array_len (U8_a items) = length items"
| "array_len (I8_a items) = length items"
| "array_len (U16_a items) = length items"
| "array_len (I16_a items) = length items"
| "array_len (U32_a items) = length items"
| "array_len (I32_a items) = length items"
| "array_len (F32_a items) = length items"
| "array_len (Bool_a items) = length items"
| "array_len (String_a items) = length items"
| "array_len (U64_a items) = length items"
| "array_len (I64_a items) = length items"
| "array_len (F64_a items) = length items"

definition array_is_empty :: "gguf_array \<Rightarrow> bool" where
  "array_is_empty a \<longleftrightarrow> array_len a = 0"

text \<open>\<open>i64\<close> as \<open>int\<close>: signed items by \<open>sint\<close>, unsigned by \<open>uint\<close>, and \<open>u64\<close> only below \<open>2 ^ 63\<close>.\<close>

definition i64_try_from :: "64 word \<Rightarrow> int option" where
  "i64_try_from v = (if uint v < 2 ^ 63 then Some (uint v) else None)"

fun array_integers :: "gguf_array \<Rightarrow> int list option" where
  "array_integers (U8_a items) = Some (map uint items)"
| "array_integers (I8_a items) = Some (map sint items)"
| "array_integers (U16_a items) = Some (map uint items)"
| "array_integers (I16_a items) = Some (map sint items)"
| "array_integers (U32_a items) = Some (map uint items)"
| "array_integers (I32_a items) = Some (map sint items)"
| "array_integers (I64_a items) = Some (map sint items)"
| "array_integers (U64_a items) = opt_map i64_try_from items"
| "array_integers (Bool_a items) = Some (map of_bool items)"
| "array_integers (F32_a items) = None"
| "array_integers (F64_a items) = None"
| "array_integers (String_a items) = None"

text \<open>\<open>GgufMetadata\<close>: the entries in the order they were inserted.\<close>

type_synonym metadata = "(name \<times> gguf_value) list"

definition metadata_get :: "metadata \<Rightarrow> name \<Rightarrow> gguf_value option" where
  "metadata_get m key = map_of m key"

text \<open>\<open>u64::try_from\<close> of a signed integer.\<close>

definition u64_try_from :: "int \<Rightarrow> nat option" where
  "u64_try_from i = (if i < 0 then None else Some (nat i))"

definition metadata_unsigned :: "metadata \<Rightarrow> name \<Rightarrow> nat option" where
  "metadata_unsigned m key =
     (case metadata_get m key of
        None \<Rightarrow> None
      | Some (U8_v v) \<Rightarrow> Some (unat v)
      | Some (U16_v v) \<Rightarrow> Some (unat v)
      | Some (U32_v v) \<Rightarrow> Some (unat v)
      | Some (U64_v v) \<Rightarrow> Some (unat v)
      | Some (I8_v v) \<Rightarrow> u64_try_from (sint v)
      | Some (I16_v v) \<Rightarrow> u64_try_from (sint v)
      | Some (I32_v v) \<Rightarrow> u64_try_from (sint v)
      | Some (I64_v v) \<Rightarrow> u64_try_from (sint v)
      | Some _ \<Rightarrow> None)"

definition missing :: "name \<Rightarrow> string \<Rightarrow> checkpoint_error" where
  "missing key expected = Metadata key expected"

definition require_usize :: "metadata \<Rightarrow> name \<Rightarrow> checkpoint_error + nat" where
  "require_usize m key =
     ok_or (missing key ''an unsigned integer'')
       (case metadata_unsigned m key of None \<Rightarrow> None | Some n \<Rightarrow> if n \<le> usize_max then Some n else None)"

definition metadata_boolean :: "metadata \<Rightarrow> name \<Rightarrow> bool option" where
  "metadata_boolean m key = (case metadata_get m key of Some (Bool_v v) \<Rightarrow> Some v | _ \<Rightarrow> None)"

definition metadata_string :: "metadata \<Rightarrow> name \<Rightarrow> name option" where
  "metadata_string m key = (case metadata_get m key of Some (String_v v) \<Rightarrow> Some v | _ \<Rightarrow> None)"

definition metadata_array :: "metadata \<Rightarrow> name \<Rightarrow> gguf_array option" where
  "metadata_array m key = (case metadata_get m key of Some (Array_v v) \<Rightarrow> Some v | _ \<Rightarrow> None)"

definition metadata_strings :: "metadata \<Rightarrow> name \<Rightarrow> name list option" where
  "metadata_strings m key = (case metadata_array m key of Some (String_a v) \<Rightarrow> Some v | _ \<Rightarrow> None)"

definition architecture :: "metadata \<Rightarrow> checkpoint_error + name" where
  "architecture m =
     ok_or (missing (ascii ''general.architecture'') ''a string'') (metadata_string m (ascii ''general.architecture''))"

record base_model =
  bm_name :: "name option"
  bm_organization :: "name option"
  bm_repo_url :: "name option"

definition base_models :: "metadata \<Rightarrow> base_model list" where
  "base_models m =
     (let keys = length m;
          declared = (case metadata_unsigned m (ascii ''general.base_model.count'') of None \<Rightarrow> 0 | Some n \<Rightarrow> n);
          number = min declared keys
      in map (\<lambda>index.
           let field = (\<lambda>part. metadata_string m (ascii (''general.base_model.'' @ decimal index @ ''.'' @ part)))
           in \<lparr>bm_name = field ''name'', bm_organization = field ''organization'',
               bm_repo_url = field ''repo_url''\<rparr>) [0..<number])"

record gguf_tokenizer =
  gt_model :: name
  gt_pre :: "name option"
  gt_tokens :: "name list"
  gt_merges :: "name list"
  gt_bos :: "nat option"
  gt_eos :: "nat option"
  gt_padding :: "nat option"
  gt_add_bos :: "bool option"
  gt_chat_template :: "name option"

definition token_id :: "metadata \<Rightarrow> string \<Rightarrow> checkpoint_error + nat option" where
  "token_id m key =
     (case metadata_get m (ascii key) of
        None \<Rightarrow> Inr None
      | Some _ \<Rightarrow>
          (case metadata_unsigned m (ascii key) of
             Some n \<Rightarrow> if n \<le> u32_max then Inr (Some n) else Inl (missing (ascii key) ''a token id'')
           | None \<Rightarrow> Inl (missing (ascii key) ''a token id'')))"

definition metadata_tokenizer :: "metadata \<Rightarrow> checkpoint_error + gguf_tokenizer" where
  "metadata_tokenizer m =
     and_then (ok_or (missing (ascii ''tokenizer.ggml.model'') ''a string'')
       (metadata_string m (ascii ''tokenizer.ggml.model''))) (\<lambda>model.
     and_then (ok_or (missing (ascii ''tokenizer.ggml.tokens'') ''a string array'')
       (metadata_strings m (ascii ''tokenizer.ggml.tokens''))) (\<lambda>tokens.
     and_then (token_id m ''tokenizer.ggml.bos_token_id'') (\<lambda>bos.
     and_then (token_id m ''tokenizer.ggml.eos_token_id'') (\<lambda>eos.
     and_then (token_id m ''tokenizer.ggml.padding_token_id'') (\<lambda>padding.
     Inr \<lparr>gt_model = model, gt_pre = metadata_string m (ascii ''tokenizer.ggml.pre''), gt_tokens = tokens,
          gt_merges = (case metadata_strings m (ascii ''tokenizer.ggml.merges'') of None \<Rightarrow> [] | Some ms \<Rightarrow> ms),
          gt_bos = bos, gt_eos = eos, gt_padding = padding,
          gt_add_bos = metadata_boolean m (ascii ''tokenizer.ggml.add_bos_token''),
          gt_chat_template = metadata_string m (ascii ''tokenizer.chat_template'')\<rparr>)))))"

section \<open>The header reader\<close>

definition bounded :: "string \<Rightarrow> nat \<Rightarrow> nat \<Rightarrow> checkpoint_error + nat" where
  "bounded what value limit = (if value > limit then Inl (Limit what value limit) else Inr value)"

record reader =
  rd_inner :: "byte list"
  rd_read :: nat
  rd_path :: string

type_synonym 'a reads = "reader \<Rightarrow> checkpoint_error + 'a \<times> reader"

text \<open>\<open>self.read + count\<close> cannot overflow: \<open>read\<close> is at most the limit and a request is a string at most.\<close>

definition rd_bytes :: "nat \<Rightarrow> byte list reads" where
  "rd_bytes n r =
     and_then (bounded ''header size'' (rd_read r + n) max_header_bytes) (\<lambda>_.
       if length (rd_inner r) < n then Inl (Truncated (rd_path r))
       else Inr (take n (rd_inner r), r\<lparr>rd_inner := drop n (rd_inner r), rd_read := rd_read r + n\<rparr>))"

text \<open>\<open>from_le_bytes\<close> of the next \<open>k\<close> bytes.\<close>

definition rd_le :: "nat \<Rightarrow> nat reads" where
  "rd_le k r = and_then (rd_bytes k r) (\<lambda>(bytes, r). Inr (le_nat bytes, r))"

definition rd_u32 :: "nat reads" where
  "rd_u32 r = rd_le 4 r"

definition rd_u64 :: "nat reads" where
  "rd_u64 r = rd_le 8 r"

definition rd_string :: "name \<Rightarrow> name reads" where
  "rd_string what r =
     and_then (rd_u64 r) (\<lambda>(n, r).
     and_then (bounded ''string length'' n max_string_bytes) (\<lambda>n.
     and_then (rd_bytes n r) (\<lambda>(bytes, r).
     if utf8_valid bytes then Inr (bytes, r) else Inl (Utf8 what))))"

definition rd_boolean :: "name \<Rightarrow> bool reads" where
  "rd_boolean key r =
     and_then (rd_bytes 1 r) (\<lambda>(bytes, r).
     if bytes ! 0 = 0 then Inr (False, r)
     else if bytes ! 0 = 1 then Inr (True, r)
     else Inl (missing key ''a boolean of 0 or 1''))"

text \<open>\<open>(0..count).map(read).collect()\<close>.\<close>

fun rd_many :: "'a reads \<Rightarrow> nat \<Rightarrow> 'a list reads" where
  "rd_many f 0 r = Inr ([], r)"
| "rd_many f (Suc n) r =
     and_then (f r) (\<lambda>(x, r). and_then (rd_many f n r) (\<lambda>(xs, r). Inr (x # xs, r)))"

text \<open>A value of width \<open>k\<close> bytes as a word, and the value under a constructor.\<close>

definition rd_word :: "nat \<Rightarrow> 'w :: len word reads" where
  "rd_word k r = and_then (rd_le k r) (\<lambda>(n, r). Inr (word_of_nat n, r))"

definition rd_map :: "('a \<Rightarrow> 'b) \<Rightarrow> 'a reads \<Rightarrow> 'b reads" where
  "rd_map g f r = and_then (f r) (\<lambda>(x, r). Inr (g x, r))"

definition rd_array :: "name \<Rightarrow> nat \<Rightarrow> nat \<Rightarrow> gguf_array reads" where
  "rd_array key kind n r =
     (if kind = 0 then rd_map U8_a (rd_many (rd_word 1) n) r
      else if kind = 1 then rd_map I8_a (rd_many (rd_word 1) n) r
      else if kind = 2 then rd_map U16_a (rd_many (rd_word 2) n) r
      else if kind = 3 then rd_map I16_a (rd_many (rd_word 2) n) r
      else if kind = 4 then rd_map U32_a (rd_many (rd_word 4) n) r
      else if kind = 5 then rd_map I32_a (rd_many (rd_word 4) n) r
      else if kind = 6 then rd_map F32_a (rd_many (rd_word 4) n) r
      else if kind = 7 then rd_map Bool_a (rd_many (rd_boolean key) n) r
      else if kind = 8 then rd_map String_a (rd_many (rd_string key) n) r
      else if kind = 9 then Inl (NestedArray key)
      else if kind = 10 then rd_map U64_a (rd_many (rd_word 8) n) r
      else if kind = 11 then rd_map I64_a (rd_many (rd_word 8) n) r
      else if kind = 12 then rd_map F64_a (rd_many (rd_word 8) n) r
      else Inl (ValueType key kind))"

definition rd_items :: "name \<Rightarrow> gguf_array reads" where
  "rd_items key r =
     and_then (rd_u32 r) (\<lambda>(kind, r).
     and_then (rd_u64 r) (\<lambda>(n, r).
     and_then (bounded ''array length'' n max_array_items) (\<lambda>n.
     rd_array key kind n r)))"

definition rd_value :: "name \<Rightarrow> nat \<Rightarrow> gguf_value reads" where
  "rd_value key kind r =
     (if kind = 0 then rd_map U8_v (rd_word 1) r
      else if kind = 1 then rd_map I8_v (rd_word 1) r
      else if kind = 2 then rd_map U16_v (rd_word 2) r
      else if kind = 3 then rd_map I16_v (rd_word 2) r
      else if kind = 4 then rd_map U32_v (rd_word 4) r
      else if kind = 5 then rd_map I32_v (rd_word 4) r
      else if kind = 6 then rd_map F32_v (rd_word 4) r
      else if kind = 7 then rd_map Bool_v (rd_boolean key) r
      else if kind = 8 then rd_map String_v (rd_string key) r
      else if kind = 9 then rd_map Array_v (rd_items key) r
      else if kind = 10 then rd_map U64_v (rd_word 8) r
      else if kind = 11 then rd_map I64_v (rd_word 8) r
      else if kind = 12 then rd_map F64_v (rd_word 8) r
      else Inl (ValueType key kind))"

section \<open>Header records\<close>

text \<open>One metadata entry, and the loop over them that refuses a repeated key.\<close>

definition rd_entry :: "(name \<times> gguf_value) reads" where
  "rd_entry r =
     and_then (rd_string (ascii ''metadata key'') r) (\<lambda>(key, r).
     and_then (rd_u32 r) (\<lambda>(kind, r).
     and_then (rd_value key kind r) (\<lambda>(v, r). Inr ((key, v), r))))"

fun rd_metadata :: "nat \<Rightarrow> metadata \<Rightarrow> metadata reads" where
  "rd_metadata 0 values r = Inr (values, r)"
| "rd_metadata (Suc n) values r =
     and_then (rd_entry r) (\<lambda>((key, v), r).
     if key \<in> set (map fst values) then Inl (DuplicateKey key)
     else rd_metadata n (values @ [(key, v)]) r)"

definition metadata_alignment :: "metadata \<Rightarrow> checkpoint_error + nat" where
  "metadata_alignment m =
     and_then
       (case metadata_get m (ascii ''general.alignment'') of
          None \<Rightarrow> Inr default_alignment
        | Some _ \<Rightarrow> ok_or (missing (ascii ''general.alignment'') ''an unsigned integer'')
            (metadata_unsigned m (ascii ''general.alignment'')))
       (\<lambda>alignment. if alignment = 0 \<or> \<not> is_power_of_two alignment then Inl (Alignment alignment) else Inr alignment)"

text \<open>A tensor record: name, shape (outermost first), encoding, offset.\<close>

type_synonym tensor_record = "name \<times> nat list \<times> gguf_encoding \<times> nat"

definition rd_record :: "tensor_record reads" where
  "rd_record r =
     and_then (rd_string (ascii ''tensor name'') r) (\<lambda>(name, r).
     and_then (rd_u32 r) (\<lambda>(dims, r).
     if dims = 0 \<or> dims > max_dims then Inl (Limit ''tensor dimension count'' dims max_dims)
     else
       and_then (rd_many rd_u64 dims r) (\<lambda>(shape, r).
       and_then (rd_u32 r) (\<lambda>(i, r).
       and_then (ok_or (UnknownEncoding name i) (encoding_from_id i)) (\<lambda>encoding.
       and_then (rd_u64 r) (\<lambda>(offset, r).
       Inr ((name, rev shape, encoding, offset), r)))))))"

section \<open>The tensor table\<close>

text \<open>\<open>try_fold\<close>: every dimension positive and the product within \<open>u64\<close>.\<close>

fun fold_elements :: "nat \<Rightarrow> nat list \<Rightarrow> nat option" where
  "fold_elements n [] = Some n"
| "fold_elements n (dim # dims) =
     (if dim > 0 then do { m \<leftarrow> checked_mul_u64 n dim; fold_elements m dims } else None)"

definition record_info :: "nat \<Rightarrow> nat \<Rightarrow> nat \<Rightarrow> tensor_record \<Rightarrow> checkpoint_error + tensor_info" where
  "record_info data_start alignment len rec =
     (case rec of (name, shape, encoding, offset) \<Rightarrow>
       let elements = fold_elements 1 shape;
           row_blocks = (case shape of [] \<Rightarrow> False | _ \<Rightarrow> block_elements encoding dvd last shape)
       in and_then (ok_or (Shape name shape encoding)
            (case elements of None \<Rightarrow> None
             | Some n \<Rightarrow> if row_blocks then byte_len encoding n else None)) (\<lambda>bytes.
          and_then (ok_or (OutOfRange name)
            (do { start \<leftarrow> checked_add_u64 data_start offset;
                  end \<leftarrow> checked_add_u64 start bytes;
                  if alignment dvd offset \<and> end \<le> len then Some (start, end) else None })) (\<lambda>r.
          Inr \<lparr>ti_encoding = Gguf encoding, ti_shape = shape, ti_range = r\<rparr>)))"

fun table_loop ::
  "nat \<Rightarrow> nat \<Rightarrow> nat \<Rightarrow> tensor_record list \<Rightarrow> (name \<times> tensor_info) list \<Rightarrow>
   checkpoint_error + (name \<times> tensor_info) list" where
  "table_loop data_start alignment len [] tensors = Inr tensors"
| "table_loop data_start alignment len (rec # recs) tensors =
     and_then (record_info data_start alignment len rec) (\<lambda>info.
     if fst rec \<in> set (map fst tensors) then Inl (DuplicateTensor (fst rec))
     else table_loop data_start alignment len recs (tensors @ [(fst rec, info)]))"

text \<open>\<open>windows(2)\<close>: the first pair of neighbours that overlap.\<close>

fun first_overlap :: "(name \<times> tensor_info) list \<Rightarrow> (name \<times> name) option" where
  "first_overlap (x # y # rest) =
     (if snd (ti_range (snd x)) > fst (ti_range (snd y)) then Some (fst x, fst y)
      else first_overlap (y # rest))"
| "first_overlap rest = None"

text \<open>
  The sort by \<open>(start, end)\<close>. The code sorts the map's iteration order; the order of records
  stands for it, and only the names in an overlap error depend on it.
\<close>

definition sorted_spans :: "(name \<times> tensor_info) list \<Rightarrow> (name \<times> tensor_info) list" where
  "sorted_spans tensors = sort_key (\<lambda>x. ti_range (snd x)) tensors"

definition tensor_table ::
  "tensor_record list \<Rightarrow> nat \<Rightarrow> nat \<Rightarrow> nat \<Rightarrow> checkpoint_error + name list \<times> (name \<times> tensor_info) list" where
  "tensor_table records data_start alignment len =
     and_then (table_loop data_start alignment len records []) (\<lambda>tensors.
     case first_overlap (sorted_spans tensors) of
       Some (a, b) \<Rightarrow> Inl (Overlap a b)
     | None \<Rightarrow> Inr (map fst tensors, tensors))"

section \<open>Files\<close>

record file_node =
  fn_bytes :: "byte list"
  fn_modified :: nat
  fn_is_file :: bool

type_synonym filesystem = "string \<rightharpoonup> file_node"

record gguf_file =
  gf_path :: string
  gf_length :: nat
  gf_modified :: nat
  gf_metadata :: metadata
  gf_order :: "name list"
  gf_tensors :: "(name \<times> tensor_info) list"

text \<open>\<open>checked_next_multiple_of\<close>.\<close>

definition next_multiple_of :: "nat \<Rightarrow> nat \<Rightarrow> nat option" where
  "next_multiple_of a b =
     (if b = 0 then None else let n = div_ceil a b * b in if n \<le> u64_max then Some n else None)"

definition rd_header :: "(metadata \<times> nat \<times> tensor_record list) reads" where
  "rd_header r =
     and_then (rd_bytes 4 r) (\<lambda>(magic, r).
     if magic \<noteq> gguf_magic then Inl (NotGguf (rd_path r))
     else
       and_then (rd_u32 r) (\<lambda>(version, r).
       if version \<noteq> 3 then Inl (Version version)
       else
         and_then (rd_u64 r) (\<lambda>(n, r).
         and_then (bounded ''tensor count'' n max_tensors) (\<lambda>tensor_count.
         and_then (rd_u64 r) (\<lambda>(n, r).
         and_then (bounded ''key count'' n max_keys) (\<lambda>key_count.
         and_then (rd_metadata key_count [] r) (\<lambda>(m, r).
         and_then (metadata_alignment m) (\<lambda>alignment.
         and_then (rd_many rd_record tensor_count r) (\<lambda>(records, r).
         Inr ((m, alignment, records), r))))))))))"

definition gguf_open :: "filesystem \<Rightarrow> string \<Rightarrow> checkpoint_error + gguf_file" where
  "gguf_open fs path =
     (case fs path of
        None \<Rightarrow> Inl (Io path)
      | Some node \<Rightarrow>
          if \<not> fn_is_file node then Inl (NotGguf path)
          else
            and_then (rd_header \<lparr>rd_inner = fn_bytes node, rd_read = 0, rd_path = path\<rparr>) (\<lambda>((m, alignment, records), r).
            and_then (ok_or (Truncated path) (next_multiple_of (rd_read r) alignment)) (\<lambda>data_start.
            and_then (tensor_table records data_start alignment (length (fn_bytes node))) (\<lambda>(order, tensors).
            Inr \<lparr>gf_path = path, gf_length = length (fn_bytes node), gf_modified = fn_modified node,
                 gf_metadata = m, gf_order = order, gf_tensors = tensors\<rparr>))))"

section \<open>Reading tensors\<close>

definition unchanged :: "filesystem \<Rightarrow> gguf_file \<Rightarrow> checkpoint_error + unit" where
  "unchanged fs f =
     (case fs (gf_path f) of
        None \<Rightarrow> Inl (Io (gf_path f))
      | Some node \<Rightarrow>
          if length (fn_bytes node) \<noteq> gf_length f \<or> fn_modified node \<noteq> gf_modified f
          then Inl (Changed (gf_path f)) else Inr ())"

text \<open>\<open>read_exact_at\<close> on a file that is opened anew; what is not a regular file cannot be read at an offset.\<close>

definition read_exact_at :: "filesystem \<Rightarrow> string \<Rightarrow> nat \<Rightarrow> nat \<Rightarrow> checkpoint_error + byte list" where
  "read_exact_at fs path offset len =
     (case fs path of
        None \<Rightarrow> Inl (Io path)
      | Some node \<Rightarrow>
          if \<not> fn_is_file node \<or> length (fn_bytes node) < offset + len then Inl (Io path)
          else Inr (take len (drop offset (fn_bytes node))))"

text \<open>
  The file system may change between the three looks at it: \<open>before\<close> for the first check,
  \<open>during\<close> for the read, \<open>after\<close> for the second check.
\<close>

definition gguf_read ::
  "filesystem \<Rightarrow> filesystem \<Rightarrow> filesystem \<Rightarrow> gguf_file \<Rightarrow> name \<Rightarrow> nat \<Rightarrow> (checkpoint_error + byte list) option" where
  "gguf_read before during after f name max_bytes =
     (case map_of (gf_tensors f) name of
        None \<Rightarrow> Some (Inl (MissingTensor name))
      | Some info \<Rightarrow> do {
          bytes \<leftarrow> checked_sub (snd (ti_range info)) (fst (ti_range info));
          Some (if bytes > max_bytes then Inl (TooLarge name bytes max_bytes)
                else and_then (unchanged before f) (\<lambda>_.
                     if bytes > usize_max then Inl (TooLarge name bytes max_bytes)
                     else and_then (read_exact_at during (gf_path f) (fst (ti_range info)) bytes) (\<lambda>payload.
                     and_then (unchanged after f) (\<lambda>_. Inr payload)))) })"

definition gguf_read_range ::
  "filesystem \<Rightarrow> filesystem \<Rightarrow> filesystem \<Rightarrow> gguf_file \<Rightarrow> name \<Rightarrow> range \<Rightarrow> nat \<Rightarrow> checkpoint_error + byte list" where
  "gguf_read_range before during after f name r len =
     and_then (ok_or (MissingTensor name) (map_of (gf_tensors f) name)) (\<lambda>info.
     and_then (check_range name info r len) (\<lambda>_.
     and_then (unchanged before f) (\<lambda>_.
     and_then (read_exact_at during (gf_path f) (fst r) len) (\<lambda>dst.
     and_then (unchanged after f) (\<lambda>_. Inr dst)))))"

end
