(* ===== verification/GgufFormat.thy ===== *)
theory GgufFormat
  imports Gguf
begin

text \<open>
  The layout of a GGUF header as an encoder, and the proof that every reader of \<open>Gguf\<close> accepts
  exactly the encodings of valid values: \<open>reads_exactly\<close> says so for one reader, and is closed
  under sequencing, so each composite reader needs one step.
\<close>

section \<open>Readers that accept exactly an encoding\<close>

definition reads_exactly :: "'a reads \<Rightarrow> ('a \<Rightarrow> byte list) \<Rightarrow> ('a \<Rightarrow> bool) \<Rightarrow> bool" where
  "reads_exactly f enc ok \<longleftrightarrow>
     (\<forall>r x r'. rd_read r \<le> max_header_bytes \<longrightarrow>
        (f r = Inr (x, r') \<longleftrightarrow>
           ok x \<and> rd_inner r = enc x @ rd_inner r' \<and> rd_path r' = rd_path r \<and>
           rd_read r' = rd_read r + length (enc x) \<and> rd_read r' \<le> max_header_bytes))"

lemma reads_exactlyI:
  assumes "\<And>r x r'. rd_read r \<le> max_header_bytes \<Longrightarrow> f r = Inr (x, r') \<longleftrightarrow>
      ok x \<and> rd_inner r = enc x @ rd_inner r' \<and> rd_path r' = rd_path r \<and>
      rd_read r' = rd_read r + length (enc x) \<and> rd_read r' \<le> max_header_bytes"
  shows "reads_exactly f enc ok"
  using assms unfolding reads_exactly_def by blast

lemma reads_exactlyD:
  "reads_exactly f enc ok \<Longrightarrow> rd_read r \<le> max_header_bytes \<Longrightarrow> f r = Inr (x, r') \<longleftrightarrow>
     ok x \<and> rd_inner r = enc x @ rd_inner r' \<and> rd_path r' = rd_path r \<and>
     rd_read r' = rd_read r + length (enc x) \<and> rd_read r' \<le> max_header_bytes"
  unfolding reads_exactly_def by blast

lemma reads_cong:
  "reads_exactly f enc ok \<Longrightarrow> (\<And>r. g r = f r) \<Longrightarrow> (\<And>x. ok' x = ok x) \<Longrightarrow> (\<And>x. ok x \<Longrightarrow> enc' x = enc x) \<Longrightarrow>
   reads_exactly g enc' ok'"
  unfolding reads_exactly_def by metis

lemma reads_fail: "reads_exactly (\<lambda>r. Inl (e r)) enc (\<lambda>x. False)"
  by (rule reads_exactlyI) simp

lemma reads_return: "reads_exactly (\<lambda>r. Inr (x, r)) (\<lambda>y. []) (\<lambda>y. y = x)"
proof (rule reads_exactlyI)
  fix r :: reader and y and r' :: reader
  assume "rd_read r \<le> max_header_bytes"
  then show "Inr (x, r) = Inr (y, r') \<longleftrightarrow> y = x \<and> rd_inner r = [] @ rd_inner r' \<and> rd_path r' = rd_path r \<and>
      rd_read r' = rd_read r + length [] \<and> rd_read r' \<le> max_header_bytes"
    by (cases r; cases r') auto
qed

lemma reads_bind:
  assumes f: "reads_exactly f encf okf" and g: "\<And>x. okf x \<Longrightarrow> reads_exactly (g x) (encg x) (okg x)"
    and p: "\<And>x y. okf x \<Longrightarrow> okg x y \<Longrightarrow> p y = x"
  shows "reads_exactly (\<lambda>r. and_then (f r) (\<lambda>(x, r). g x r))
    (\<lambda>y. encf (p y) @ encg (p y) y) (\<lambda>y. okf (p y) \<and> okg (p y) y)"
proof (rule reads_exactlyI)
  fix r :: reader and y and r' :: reader
  assume r: "rd_read r \<le> max_header_bytes"
  show "and_then (f r) (\<lambda>(x, r). g x r) = Inr (y, r') \<longleftrightarrow>
      (okf (p y) \<and> okg (p y) y) \<and> rd_inner r = (encf (p y) @ encg (p y) y) @ rd_inner r' \<and> rd_path r' = rd_path r \<and>
      rd_read r' = rd_read r + length (encf (p y) @ encg (p y) y) \<and> rd_read r' \<le> max_header_bytes" (is "?l \<longleftrightarrow> ?r")
  proof
    assume ?l
    then obtain x r1 where 1: "f r = Inr (x, r1)" "g x r1 = Inr (y, r')" by (auto simp: and_then_Inr)
    note f1 = reads_exactlyD [OF f r, THEN iffD1, OF 1(1)]
    then have r1: "okf x" "rd_read r1 \<le> max_header_bytes" by simp_all
    note g1 = reads_exactlyD [OF g [OF r1(1)] r1(2), THEN iffD1, OF 1(2)]
    then have "p y = x" using p r1(1) by simp
    then show ?r using f1 g1 by auto
  next
    assume rhs: ?r
    let ?x = "p y"
    let ?r1 = "r\<lparr>rd_inner := encg ?x y @ rd_inner r', rd_read := rd_read r + length (encf ?x)\<rparr>"
    have "f r = Inr (?x, ?r1)" using rhs reads_exactlyD [OF f r] by simp
    moreover have "g ?x ?r1 = Inr (y, r')"
      using rhs reads_exactlyD [OF g, of ?x ?r1] by simp
    ultimately show ?l by simp
  qed
qed

lemma reads_map:
  assumes f: "reads_exactly f enc ok" and enc: "\<And>x. ok x \<Longrightarrow> enc' (g x) = enc x"
    and ok: "\<And>y. ok' y \<longleftrightarrow> (\<exists>x. ok x \<and> y = g x)"
  shows "reads_exactly (rd_map g f) enc' ok'"
proof (rule reads_exactlyI)
  fix r :: reader and y and r' :: reader
  assume r: "rd_read r \<le> max_header_bytes"
  have "rd_map g f r = Inr (y, r') \<longleftrightarrow> (\<exists>x. f r = Inr (x, r') \<and> y = g x)"
    by (auto simp: rd_map_def and_then_Inr)
  then show "rd_map g f r = Inr (y, r') \<longleftrightarrow> ok' y \<and> rd_inner r = enc' y @ rd_inner r' \<and> rd_path r' = rd_path r \<and>
      rd_read r' = rd_read r + length (enc' y) \<and> rd_read r' \<le> max_header_bytes"
    using reads_exactlyD [OF f r] enc ok by auto
qed

lemma reads_many:
  assumes f: "reads_exactly f enc ok"
  shows "reads_exactly (rd_many f n) (\<lambda>xs. concat (map enc xs)) (\<lambda>xs. length xs = n \<and> (\<forall>x\<in>set xs. ok x))"
proof (induction n)
  case 0
  show ?case by (rule reads_cong [OF reads_return [of "[]"]]) auto
next
  case (Suc n)
  have "reads_exactly (\<lambda>r. and_then (rd_many f n r) (\<lambda>(xs, r). Inr (x # xs, r)))
      (\<lambda>ys. concat (map enc (tl ys)) @ []) (\<lambda>ys. (length (tl ys) = n \<and> (\<forall>x\<in>set (tl ys). ok x)) \<and> ys = x # tl ys)" for x
    by (rule reads_bind [OF Suc reads_return]) auto
  then have "reads_exactly (\<lambda>r. and_then (f r) (\<lambda>(x, r). and_then (rd_many f n r) (\<lambda>(xs, r). Inr (x # xs, r))))
      (\<lambda>ys. enc (hd ys) @ concat (map enc (tl ys)) @ [])
      (\<lambda>ys. ok (hd ys) \<and> (length (tl ys) = n \<and> (\<forall>x\<in>set (tl ys). ok x)) \<and> ys = hd ys # tl ys)"
    by (rule reads_bind [OF f, where p = hd]) (metis list.sel(1))
  then show ?case
  proof (rule reads_cong)
    fix ys
    show "(length ys = Suc n \<and> (\<forall>x\<in>set ys. ok x)) \<longleftrightarrow>
        ok (hd ys) \<and> (length (tl ys) = n \<and> (\<forall>x\<in>set (tl ys). ok x)) \<and> ys = hd ys # tl ys"
      by (cases ys) auto
    assume "ok (hd ys) \<and> (length (tl ys) = n \<and> (\<forall>x\<in>set (tl ys). ok x)) \<and> ys = hd ys # tl ys"
    then show "concat (map enc ys) = enc (hd ys) @ concat (map enc (tl ys)) @ []"
      by (metis append_Nil2 concat.simps(2) list.simps(9))
  qed simp
qed

section \<open>Primitive readers\<close>

lemma reads_bytes: "reads_exactly (rd_bytes n) (\<lambda>bs. bs) (\<lambda>bs. length bs = n)"
proof (rule reads_exactlyI)
  fix r :: reader and x and r' :: reader
  assume "rd_read r \<le> max_header_bytes"
  show "rd_bytes n r = Inr (x, r') \<longleftrightarrow> length x = n \<and> rd_inner r = x @ rd_inner r' \<and> rd_path r' = rd_path r \<and>
      rd_read r' = rd_read r + length x \<and> rd_read r' \<le> max_header_bytes" (is "?l \<longleftrightarrow> ?r")
  proof
    assume l: ?l
    have "rd_read r + n \<le> max_header_bytes" "n \<le> length (rd_inner r)" "x = take n (rd_inner r)"
      "r' = r\<lparr>rd_inner := drop n (rd_inner r), rd_read := rd_read r + n\<rparr>"
      using l by (simp_all add: rd_bytes_def and_then_Inr bounded_def split: if_splits)
    then show ?r by simp
  next
    assume r: ?r
    have "r\<lparr>rd_inner := rd_inner r', rd_read := rd_read r + n\<rparr> = r'"
      using r by (intro reader.equality) simp_all
    then show ?l using r by (simp add: rd_bytes_def bounded_def)
  qed
qed

lemma reads_le: "reads_exactly (rd_le k) (le_bytes k) (\<lambda>n. n < 256 ^ k)"
proof -
  have map: "rd_le k = rd_map le_nat (rd_bytes k)"
    by (simp add: rd_le_def rd_map_def fun_eq_iff)
  show ?thesis
    unfolding map
  proof (rule reads_map [OF reads_bytes])
    show "le_bytes k (le_nat bs) = bs" if "length bs = k" for bs using that by (rule le_bytes_le_nat)
    show "n < 256 ^ k \<longleftrightarrow> (\<exists>bs. length bs = k \<and> n = le_nat bs)" for n
      using le_nat_bound le_nat_le_bytes [of k n] length_le_bytes [of k n] by (metis mod_less)
  qed
qed

lemma reads_u32: "reads_exactly rd_u32 (le_bytes 4) (\<lambda>n. n < 256 ^ 4)"
  by (rule reads_cong [OF reads_le [of 4]]) (simp_all add: rd_u32_def)

lemma reads_u64: "reads_exactly rd_u64 (le_bytes 8) (\<lambda>n. n < 256 ^ 8)"
  by (rule reads_cong [OF reads_le [of 8]]) (simp_all add: rd_u64_def)

lemma reads_word:
  assumes "(2 :: nat) ^ LENGTH('w :: len) = 256 ^ k"
  shows "reads_exactly (rd_word k) (\<lambda>w :: 'w word. le_bytes k (unat w)) (\<lambda>w. True)"
proof -
  have map: "rd_word k = rd_map (word_of_nat :: nat \<Rightarrow> 'w word) (rd_le k)"
    by (simp add: rd_word_def rd_map_def fun_eq_iff)
  show ?thesis
    unfolding map
  proof (rule reads_map [OF reads_le])
    show "le_bytes k (unat (word_of_nat n :: 'w word)) = le_bytes k n" if "n < 256 ^ k" for n
      using that assms by (simp add: unat_of_nat)
    show "True \<longleftrightarrow> (\<exists>n. n < 256 ^ k \<and> w = word_of_nat n)" for w :: "'w word"
    proof -
      have "unat w < 2 ^ LENGTH('w)" by (rule unsigned_less)
      then have "unat w < 256 ^ k" unfolding assms .
      then show ?thesis by (auto intro!: exI [of _ "unat w"])
    qed
  qed
qed

lemma reads_guard:
  assumes "reads_exactly f enc ok"
  shows "reads_exactly (\<lambda>r. and_then (bounded what n limit) (\<lambda>_. f r)) enc (\<lambda>x. n \<le> limit \<and> ok x)"
  by (rule reads_exactlyI) (use reads_exactlyD [OF assms] in \<open>auto simp: and_then_Inr bounded_def\<close>)

definition string_ok :: "name \<Rightarrow> bool" where
  "string_ok s \<longleftrightarrow> utf8_valid s \<and> length s \<le> max_string_bytes"

lemma max_string_u64: "length s \<le> max_string_bytes \<Longrightarrow> length s < 256 ^ 8"
  by (simp add: max_string_bytes_def)

lemma reads_string: "reads_exactly (rd_string what) field string_ok"
proof -
  have inner: "reads_exactly (\<lambda>r. and_then (bounded ''string length'' n max_string_bytes) (\<lambda>n.
      and_then (rd_bytes n r) (\<lambda>(bytes, r). if utf8_valid bytes then Inr (bytes, r) else Inl (Utf8 what))))
      (\<lambda>bs. bs) (\<lambda>bs. n \<le> max_string_bytes \<and> length bs = n \<and> utf8_valid bs)" for n
  proof (rule reads_exactlyI)
    fix r :: reader and x and r' :: reader
    assume r: "rd_read r \<le> max_header_bytes"
    have "and_then (bounded ''string length'' n max_string_bytes) (\<lambda>n.
      and_then (rd_bytes n r) (\<lambda>(bytes, r). if utf8_valid bytes then Inr (bytes, r) else Inl (Utf8 what))) = Inr (x, r') \<longleftrightarrow>
      n \<le> max_string_bytes \<and> rd_bytes n r = Inr (x, r') \<and> utf8_valid x"
      by (auto simp: and_then_Inr bounded_def)
    then show "and_then (bounded ''string length'' n max_string_bytes) (\<lambda>n.
      and_then (rd_bytes n r) (\<lambda>(bytes, r). if utf8_valid bytes then Inr (bytes, r) else Inl (Utf8 what))) = Inr (x, r') \<longleftrightarrow>
      (n \<le> max_string_bytes \<and> length x = n \<and> utf8_valid x) \<and> rd_inner r = x @ rd_inner r' \<and> rd_path r' = rd_path r \<and>
      rd_read r' = rd_read r + length x \<and> rd_read r' \<le> max_header_bytes"
      using reads_exactlyD [OF reads_bytes r, of n x r'] by auto
  qed
  have "reads_exactly (\<lambda>r. and_then (rd_u64 r) (\<lambda>(n, r). and_then (bounded ''string length'' n max_string_bytes) (\<lambda>n.
      and_then (rd_bytes n r) (\<lambda>(bytes, r). if utf8_valid bytes then Inr (bytes, r) else Inl (Utf8 what)))))
      (\<lambda>bs. le_bytes 8 (length bs) @ bs)
      (\<lambda>bs. length bs < 256 ^ 8 \<and> length bs \<le> max_string_bytes \<and> length bs = length bs \<and> utf8_valid bs)"
    by (rule reads_bind [OF reads_u64 inner]) simp
  then show ?thesis
    by (rule reads_cong) (auto simp: rd_string_def string_ok_def field_def u64_le_def max_string_bytes_def)
qed

lemma reads_boolean: "reads_exactly (rd_boolean key) (\<lambda>b. [if b then 1 else 0]) (\<lambda>b. True)"
proof (rule reads_exactlyI)
  fix r :: reader and x and r' :: reader
  assume r: "rd_read r \<le> max_header_bytes"
  have "rd_boolean key r = Inr (x, r') \<longleftrightarrow> (\<exists>b. rd_bytes 1 r = Inr ([b], r') \<and> (b = 0 \<and> \<not> x \<or> b = 1 \<and> x))"
    (is "?l \<longleftrightarrow> ?r")
  proof
    assume ?l
    then obtain bs where bs: "rd_bytes 1 r = Inr (bs, r')" "bs ! 0 = 0 \<and> \<not> x \<or> bs ! 0 = 1 \<and> x"
      by (auto simp: rd_boolean_def and_then_Inr split: if_splits)
    moreover have "length bs = 1" using reads_exactlyD [OF reads_bytes r] bs(1) by blast
    then obtain b where "bs = [b]" by (metis One_nat_def length_0_conv length_Suc_conv)
    ultimately show ?r by auto
  next
    assume ?r
    then show ?l by (auto simp: rd_boolean_def)
  qed
  then show "rd_boolean key r = Inr (x, r') \<longleftrightarrow> True \<and> rd_inner r = [if x then 1 else 0] @ rd_inner r' \<and>
      rd_path r' = rd_path r \<and> rd_read r' = rd_read r + length [if x then (1 :: byte) else 0] \<and> rd_read r' \<le> max_header_bytes"
    using reads_exactlyD [OF reads_bytes r, of 1 _ r'] by auto
qed

section \<open>Values\<close>

fun array_kind :: "gguf_array \<Rightarrow> nat" where
  "array_kind (U8_a xs) = 0"
| "array_kind (I8_a xs) = 1"
| "array_kind (U16_a xs) = 2"
| "array_kind (I16_a xs) = 3"
| "array_kind (U32_a xs) = 4"
| "array_kind (I32_a xs) = 5"
| "array_kind (F32_a xs) = 6"
| "array_kind (Bool_a xs) = 7"
| "array_kind (String_a xs) = 8"
| "array_kind (U64_a xs) = 10"
| "array_kind (I64_a xs) = 11"
| "array_kind (F64_a xs) = 12"

fun array_payload :: "gguf_array \<Rightarrow> byte list" where
  "array_payload (U8_a xs) = concat (map (\<lambda>w. le_bytes 1 (unat w)) xs)"
| "array_payload (I8_a xs) = concat (map (\<lambda>w. le_bytes 1 (unat w)) xs)"
| "array_payload (U16_a xs) = concat (map (\<lambda>w. le_bytes 2 (unat w)) xs)"
| "array_payload (I16_a xs) = concat (map (\<lambda>w. le_bytes 2 (unat w)) xs)"
| "array_payload (U32_a xs) = concat (map (\<lambda>w. le_bytes 4 (unat w)) xs)"
| "array_payload (I32_a xs) = concat (map (\<lambda>w. le_bytes 4 (unat w)) xs)"
| "array_payload (F32_a xs) = concat (map (\<lambda>w. le_bytes 4 (unat w)) xs)"
| "array_payload (Bool_a xs) = concat (map (\<lambda>b. [if b then 1 else 0]) xs)"
| "array_payload (String_a xs) = concat (map field xs)"
| "array_payload (U64_a xs) = concat (map (\<lambda>w. le_bytes 8 (unat w)) xs)"
| "array_payload (I64_a xs) = concat (map (\<lambda>w. le_bytes 8 (unat w)) xs)"
| "array_payload (F64_a xs) = concat (map (\<lambda>w. le_bytes 8 (unat w)) xs)"

fun array_strings_ok :: "gguf_array \<Rightarrow> bool" where
  "array_strings_ok (String_a xs) \<longleftrightarrow> (\<forall>x\<in>set xs. string_ok x)"
| "array_strings_ok a \<longleftrightarrow> True"

lemma reads_array_case:
  assumes "reads_exactly f enc ok"
    and "\<And>xs. array_kind (C xs) = k \<and> array_payload (C xs) = concat (map enc xs) \<and> array_len (C xs) = length xs \<and>
      (array_strings_ok (C xs) \<longleftrightarrow> (\<forall>x\<in>set xs. ok x))"
    and "\<And>a. array_kind a = k \<Longrightarrow> \<exists>xs. a = C xs"
  shows "reads_exactly (rd_map C (rd_many f n)) array_payload
    (\<lambda>a. array_kind a = k \<and> array_len a = n \<and> array_strings_ok a)"
proof (rule reads_map [OF reads_many [OF assms(1)]])
  show "array_payload (C xs) = concat (map enc xs)" for xs using assms(2) by blast
  show "(array_kind a = k \<and> array_len a = n \<and> array_strings_ok a) \<longleftrightarrow>
      (\<exists>xs. (length xs = n \<and> (\<forall>x\<in>set xs. ok x)) \<and> a = C xs)" for a
    using assms(2,3) by metis
qed

text \<open>Every constructor is determined by its kind.\<close>

lemma array_of_kind:
  "array_kind a = 0 \<Longrightarrow> \<exists>xs. a = U8_a xs" "array_kind a = 1 \<Longrightarrow> \<exists>xs. a = I8_a xs"
  "array_kind a = 2 \<Longrightarrow> \<exists>xs. a = U16_a xs" "array_kind a = 3 \<Longrightarrow> \<exists>xs. a = I16_a xs"
  "array_kind a = 4 \<Longrightarrow> \<exists>xs. a = U32_a xs" "array_kind a = 5 \<Longrightarrow> \<exists>xs. a = I32_a xs"
  "array_kind a = 6 \<Longrightarrow> \<exists>xs. a = F32_a xs" "array_kind a = 7 \<Longrightarrow> \<exists>xs. a = Bool_a xs"
  "array_kind a = 8 \<Longrightarrow> \<exists>xs. a = String_a xs" "array_kind a = 10 \<Longrightarrow> \<exists>xs. a = U64_a xs"
  "array_kind a = 11 \<Longrightarrow> \<exists>xs. a = I64_a xs" "array_kind a = 12 \<Longrightarrow> \<exists>xs. a = F64_a xs"
  by (cases a; simp)+

lemma array_kind_range: "array_kind a \<le> 12 \<and> array_kind a \<noteq> 9"
  by (cases a) simp_all

lemma reads_word_array:
  fixes C :: "'w :: len word list \<Rightarrow> gguf_array"
  assumes "(2 :: nat) ^ LENGTH('w) = 256 ^ k"
    and "\<And>xs. array_kind (C xs) = i \<and> array_payload (C xs) = concat (map (\<lambda>w. le_bytes k (unat w)) xs) \<and>
      array_len (C xs) = length xs \<and> array_strings_ok (C xs)"
    and "\<And>a. array_kind a = i \<Longrightarrow> \<exists>xs. a = C xs"
  shows "reads_exactly (rd_map C (rd_many (rd_word k) n)) array_payload
    (\<lambda>a. array_kind a = i \<and> array_len a = n \<and> array_strings_ok a)"
  by (rule reads_array_case [OF reads_word [OF assms(1)]]) (use assms(2,3) in auto)

lemma kind_cases:
  "kind \<le> (12 :: nat) \<Longrightarrow> kind \<noteq> 9 \<Longrightarrow> kind = 0 \<or> kind = 1 \<or> kind = 2 \<or> kind = 3 \<or> kind = 4 \<or> kind = 5 \<or> kind = 6 \<or>
     kind = 7 \<or> kind = 8 \<or> kind = 10 \<or> kind = 11 \<or> kind = 12"
  by presburger

lemma reads_array:
  "reads_exactly (rd_array key kind n) array_payload
     (\<lambda>a. array_kind a = kind \<and> array_len a = n \<and> array_strings_ok a)"
proof (cases "kind \<le> 12 \<and> kind \<noteq> 9")
  case False
  have ne: "kind \<noteq> 0" "kind \<noteq> 1" "kind \<noteq> 2" "kind \<noteq> 3" "kind \<noteq> 4" "kind \<noteq> 5" "kind \<noteq> 6" "kind \<noteq> 7" "kind \<noteq> 8"
    "kind \<noteq> 10" "kind \<noteq> 11" "kind \<noteq> 12"
    using False by auto
  have none: "array_kind a \<noteq> kind" for a using False array_kind_range by metis
  show ?thesis
    by (rule reads_cong [OF reads_fail [of "\<lambda>r. if kind = 9 then NestedArray key else ValueType key kind"]])
      (use ne [unfolded One_nat_def] in \<open>simp_all add: rd_array_def none\<close>)
next
  case True
  then consider (u8) "kind = 0" | (i8) "kind = 1" | (u16) "kind = 2" | (i16) "kind = 3" | (u32) "kind = 4" | (i32) "kind = 5" | (f32) "kind = 6" | (u64) "kind = 10" | (i64) "kind = 11" | (f64) "kind = 12" | (bool) "kind = 7" | (str) "kind = 8"
    using kind_cases [of kind] by blast
  then show ?thesis
  proof cases
    case u8
    show ?thesis
      by (rule reads_cong [OF reads_word_array [of 1 U8_a 0, OF _ _ array_of_kind(1)]]) (simp_all add: rd_array_def u8)
  next
    case i8
    show ?thesis
      by (rule reads_cong [OF reads_word_array [of 1 I8_a 1, OF _ _ array_of_kind(2)]]) (simp_all add: rd_array_def i8)
  next
    case u16
    show ?thesis
      by (rule reads_cong [OF reads_word_array [of 2 U16_a 2, OF _ _ array_of_kind(3)]]) (simp_all add: rd_array_def u16)
  next
    case i16
    show ?thesis
      by (rule reads_cong [OF reads_word_array [of 2 I16_a 3, OF _ _ array_of_kind(4)]]) (simp_all add: rd_array_def i16)
  next
    case u32
    show ?thesis
      by (rule reads_cong [OF reads_word_array [of 4 U32_a 4, OF _ _ array_of_kind(5)]]) (simp_all add: rd_array_def u32)
  next
    case i32
    show ?thesis
      by (rule reads_cong [OF reads_word_array [of 4 I32_a 5, OF _ _ array_of_kind(6)]]) (simp_all add: rd_array_def i32)
  next
    case f32
    show ?thesis
      by (rule reads_cong [OF reads_word_array [of 4 F32_a 6, OF _ _ array_of_kind(7)]]) (simp_all add: rd_array_def f32)
  next
    case u64
    show ?thesis
      by (rule reads_cong [OF reads_word_array [of 8 U64_a 10, OF _ _ array_of_kind(10)]]) (simp_all add: rd_array_def u64)
  next
    case i64
    show ?thesis
      by (rule reads_cong [OF reads_word_array [of 8 I64_a 11, OF _ _ array_of_kind(11)]]) (simp_all add: rd_array_def i64)
  next
    case f64
    show ?thesis
      by (rule reads_cong [OF reads_word_array [of 8 F64_a 12, OF _ _ array_of_kind(12)]]) (simp_all add: rd_array_def f64)
  next
    case bool
    show ?thesis
      by (rule reads_cong [OF reads_array_case [OF reads_boolean [of key], of Bool_a 7, OF _ array_of_kind(8)]]) (simp_all add: rd_array_def bool)
  next
    case str
    show ?thesis
      by (rule reads_cong [OF reads_array_case [OF reads_string [of key], of String_a 8, OF _ array_of_kind(9)]]) (simp_all add: rd_array_def str)
  qed
qed

definition items_bytes :: "gguf_array \<Rightarrow> byte list" where
  "items_bytes a = le_bytes 4 (array_kind a) @ le_bytes 8 (array_len a) @ array_payload a"

definition array_ok :: "gguf_array \<Rightarrow> bool" where
  "array_ok a \<longleftrightarrow> array_len a \<le> max_array_items \<and> array_strings_ok a"

lemma reads_items: "reads_exactly (rd_items key) items_bytes array_ok"
proof -
  have "reads_exactly (\<lambda>r. and_then (rd_u64 r) (\<lambda>(n, r). and_then (bounded ''array length'' n max_array_items) (\<lambda>_. rd_array key kind n r)))
      (\<lambda>a. le_bytes 8 (array_len a) @ array_payload a)
      (\<lambda>a. array_len a < 256 ^ 8 \<and> array_len a \<le> max_array_items \<and> array_kind a = kind \<and> array_len a = array_len a \<and> array_strings_ok a)" for kind
    by (rule reads_bind [OF reads_u64 reads_guard [OF reads_array]]) simp
  then have "reads_exactly (\<lambda>r. and_then (rd_u32 r) (\<lambda>(kind, r). and_then (rd_u64 r) (\<lambda>(n, r).
        and_then (bounded ''array length'' n max_array_items) (\<lambda>_. rd_array key kind n r))))
      (\<lambda>a. le_bytes 4 (array_kind a) @ le_bytes 8 (array_len a) @ array_payload a)
      (\<lambda>a. array_kind a < 256 ^ 4 \<and> array_len a < 256 ^ 8 \<and> array_len a \<le> max_array_items \<and> array_kind a = array_kind a \<and>
        array_len a = array_len a \<and> array_strings_ok a)"
    by (rule reads_bind [OF reads_u32]) simp
  then show ?thesis
  proof (rule reads_cong)
    show "rd_items key r = and_then (rd_u32 r) (\<lambda>(kind, r). and_then (rd_u64 r) (\<lambda>(n, r).
        and_then (bounded ''array length'' n max_array_items) (\<lambda>_. rd_array key kind n r)))" for r
      by (simp add: rd_items_def and_then_def bounded_def split: sum.splits prod.splits)
    have "array_kind a < 256 ^ 4" for a using array_kind_range [of a] by simp
    then show "array_ok a \<longleftrightarrow> array_kind a < 256 ^ 4 \<and> array_len a < 256 ^ 8 \<and> array_len a \<le> max_array_items \<and>
        array_kind a = array_kind a \<and> array_len a = array_len a \<and> array_strings_ok a" for a
      by (auto simp: array_ok_def max_array_items_def)
  qed (simp add: items_bytes_def)
qed

fun value_kind :: "gguf_value \<Rightarrow> nat" where
  "value_kind (U8_v x) = 0"
| "value_kind (I8_v x) = 1"
| "value_kind (U16_v x) = 2"
| "value_kind (I16_v x) = 3"
| "value_kind (U32_v x) = 4"
| "value_kind (I32_v x) = 5"
| "value_kind (F32_v x) = 6"
| "value_kind (Bool_v x) = 7"
| "value_kind (String_v x) = 8"
| "value_kind (Array_v x) = 9"
| "value_kind (U64_v x) = 10"
| "value_kind (I64_v x) = 11"
| "value_kind (F64_v x) = 12"

fun value_payload :: "gguf_value \<Rightarrow> byte list" where
  "value_payload (U8_v x) = le_bytes 1 (unat x)"
| "value_payload (I8_v x) = le_bytes 1 (unat x)"
| "value_payload (U16_v x) = le_bytes 2 (unat x)"
| "value_payload (I16_v x) = le_bytes 2 (unat x)"
| "value_payload (U32_v x) = le_bytes 4 (unat x)"
| "value_payload (I32_v x) = le_bytes 4 (unat x)"
| "value_payload (F32_v x) = le_bytes 4 (unat x)"
| "value_payload (Bool_v x) = [if x then 1 else 0]"
| "value_payload (String_v x) = field x"
| "value_payload (Array_v x) = items_bytes x"
| "value_payload (U64_v x) = le_bytes 8 (unat x)"
| "value_payload (I64_v x) = le_bytes 8 (unat x)"
| "value_payload (F64_v x) = le_bytes 8 (unat x)"

fun value_ok :: "gguf_value \<Rightarrow> bool" where
  "value_ok (String_v x) \<longleftrightarrow> string_ok x"
| "value_ok (Array_v x) \<longleftrightarrow> array_ok x"
| "value_ok v \<longleftrightarrow> True"

lemma reads_value_case:
  assumes "reads_exactly f enc ok"
    and "\<And>x. value_kind (C x) = k \<and> value_payload (C x) = enc x \<and> (value_ok (C x) \<longleftrightarrow> ok x)"
    and "\<And>v. value_kind v = k \<Longrightarrow> \<exists>x. v = C x"
  shows "reads_exactly (rd_map C f) value_payload (\<lambda>v. value_kind v = k \<and> value_ok v)"
proof (rule reads_map [OF assms(1)])
  show "value_payload (C x) = enc x" for x using assms(2) by blast
  show "(value_kind v = k \<and> value_ok v) \<longleftrightarrow> (\<exists>x. ok x \<and> v = C x)" for v
    using assms(2,3) by metis
qed

lemma value_of_kind:
  "value_kind v = 0 \<Longrightarrow> \<exists>x. v = U8_v x"
  "value_kind v = 1 \<Longrightarrow> \<exists>x. v = I8_v x"
  "value_kind v = 2 \<Longrightarrow> \<exists>x. v = U16_v x"
  "value_kind v = 3 \<Longrightarrow> \<exists>x. v = I16_v x"
  "value_kind v = 4 \<Longrightarrow> \<exists>x. v = U32_v x"
  "value_kind v = 5 \<Longrightarrow> \<exists>x. v = I32_v x"
  "value_kind v = 6 \<Longrightarrow> \<exists>x. v = F32_v x"
  "value_kind v = 7 \<Longrightarrow> \<exists>x. v = Bool_v x"
  "value_kind v = 8 \<Longrightarrow> \<exists>x. v = String_v x"
  "value_kind v = 9 \<Longrightarrow> \<exists>x. v = Array_v x"
  "value_kind v = 10 \<Longrightarrow> \<exists>x. v = U64_v x"
  "value_kind v = 11 \<Longrightarrow> \<exists>x. v = I64_v x"
  "value_kind v = 12 \<Longrightarrow> \<exists>x. v = F64_v x"
  by (cases v; simp)+

lemma value_kind_range: "value_kind v \<le> 12"
  by (cases v) simp_all

lemma reads_value:
  "reads_exactly (rd_value key kind) value_payload (\<lambda>v. value_kind v = kind \<and> value_ok v)"
proof (cases "kind \<le> 12")
  case False
  then have ne: "kind \<noteq> 0" "kind \<noteq> 1" "kind \<noteq> 2" "kind \<noteq> 3" "kind \<noteq> 4" "kind \<noteq> 5" "kind \<noteq> 6" "kind \<noteq> 7" "kind \<noteq> 8" "kind \<noteq> 9" "kind \<noteq> 10" "kind \<noteq> 11" "kind \<noteq> 12"
    by simp_all
  have none: "value_kind v \<noteq> kind" for v using False value_kind_range by metis
  show ?thesis
    by (rule reads_cong [OF reads_fail [of "\<lambda>r. ValueType key kind"]])
      (use ne [unfolded One_nat_def] in \<open>simp_all add: rd_value_def none\<close>)
next
  case True
  then consider (k0) "kind = 0" | (k1) "kind = 1" | (k2) "kind = 2" | (k3) "kind = 3" | (k4) "kind = 4" | (k5) "kind = 5" | (k6) "kind = 6" | (k7) "kind = 7" | (k8) "kind = 8" | (k9) "kind = 9" | (k10) "kind = 10" | (k11) "kind = 11" | (k12) "kind = 12"
    using kind_cases [of kind] by blast
  then show ?thesis
  proof cases
    case k0
    show ?thesis
      by (rule reads_cong [OF reads_value_case [OF reads_word [of 1], of U8_v 0, OF _ _ value_of_kind(1)]])
        (simp_all add: rd_value_def k0)
  next
    case k1
    show ?thesis
      by (rule reads_cong [OF reads_value_case [OF reads_word [of 1], of I8_v 1, OF _ _ value_of_kind(2)]])
        (simp_all add: rd_value_def k1)
  next
    case k2
    show ?thesis
      by (rule reads_cong [OF reads_value_case [OF reads_word [of 2], of U16_v 2, OF _ _ value_of_kind(3)]])
        (simp_all add: rd_value_def k2)
  next
    case k3
    show ?thesis
      by (rule reads_cong [OF reads_value_case [OF reads_word [of 2], of I16_v 3, OF _ _ value_of_kind(4)]])
        (simp_all add: rd_value_def k3)
  next
    case k4
    show ?thesis
      by (rule reads_cong [OF reads_value_case [OF reads_word [of 4], of U32_v 4, OF _ _ value_of_kind(5)]])
        (simp_all add: rd_value_def k4)
  next
    case k5
    show ?thesis
      by (rule reads_cong [OF reads_value_case [OF reads_word [of 4], of I32_v 5, OF _ _ value_of_kind(6)]])
        (simp_all add: rd_value_def k5)
  next
    case k6
    show ?thesis
      by (rule reads_cong [OF reads_value_case [OF reads_word [of 4], of F32_v 6, OF _ _ value_of_kind(7)]])
        (simp_all add: rd_value_def k6)
  next
    case k7
    show ?thesis
      by (rule reads_cong [OF reads_value_case [OF reads_boolean [of key], of Bool_v 7, OF _ value_of_kind(8)]])
        (simp_all add: rd_value_def k7)
  next
    case k8
    show ?thesis
      by (rule reads_cong [OF reads_value_case [OF reads_string [of key], of String_v 8, OF _ value_of_kind(9)]])
        (simp_all add: rd_value_def k8)
  next
    case k9
    show ?thesis
      by (rule reads_cong [OF reads_value_case [OF reads_items [of key], of Array_v 9, OF _ value_of_kind(10)]])
        (simp_all add: rd_value_def k9)
  next
    case k10
    show ?thesis
      by (rule reads_cong [OF reads_value_case [OF reads_word [of 8], of U64_v 10, OF _ _ value_of_kind(11)]])
        (simp_all add: rd_value_def k10)
  next
    case k11
    show ?thesis
      by (rule reads_cong [OF reads_value_case [OF reads_word [of 8], of I64_v 11, OF _ _ value_of_kind(12)]])
        (simp_all add: rd_value_def k11)
  next
    case k12
    show ?thesis
      by (rule reads_cong [OF reads_value_case [OF reads_word [of 8], of F64_v 12, OF _ _ value_of_kind(13)]])
        (simp_all add: rd_value_def k12)
  qed
qed

section \<open>Entries, records and the header\<close>

definition kv_bytes :: "name \<times> gguf_value \<Rightarrow> byte list" where
  "kv_bytes e = field (fst e) @ le_bytes 4 (value_kind (snd e)) @ value_payload (snd e)"

definition kv_ok :: "name \<times> gguf_value \<Rightarrow> bool" where
  "kv_ok e \<longleftrightarrow> string_ok (fst e) \<and> value_ok (snd e)"

lemma reads_entry: "reads_exactly rd_entry kv_bytes kv_ok"
proof -
  have 1: "reads_exactly (\<lambda>r. and_then (rd_value key kind r) (\<lambda>(v, r). Inr ((key, v), r)))
      (\<lambda>e. value_payload (snd e) @ []) (\<lambda>e. (value_kind (snd e) = kind \<and> value_ok (snd e)) \<and> e = (key, snd e))" for key kind
    by (rule reads_bind [OF reads_value reads_return, where p = snd]) auto
  have 2: "reads_exactly (\<lambda>r. and_then (rd_u32 r) (\<lambda>(kind, r). and_then (rd_value key kind r) (\<lambda>(v, r). Inr ((key, v), r))))
      (\<lambda>e. le_bytes 4 (value_kind (snd e)) @ value_payload (snd e) @ [])
      (\<lambda>e. value_kind (snd e) < 256 ^ 4 \<and> (value_kind (snd e) = value_kind (snd e) \<and> value_ok (snd e)) \<and> e = (key, snd e))" for key
    by (rule reads_bind [OF reads_u32 1, where p = "\<lambda>e. value_kind (snd e)"]) auto
  have 3: "reads_exactly (\<lambda>r. and_then (rd_string (ascii ''metadata key'') r) (\<lambda>(key, r).
        and_then (rd_u32 r) (\<lambda>(kind, r). and_then (rd_value key kind r) (\<lambda>(v, r). Inr ((key, v), r)))))
      (\<lambda>e. field (fst e) @ le_bytes 4 (value_kind (snd e)) @ value_payload (snd e) @ [])
      (\<lambda>e. string_ok (fst e) \<and> value_kind (snd e) < 256 ^ 4 \<and>
        (value_kind (snd e) = value_kind (snd e) \<and> value_ok (snd e)) \<and> e = (fst e, snd e))"
    by (rule reads_bind [OF reads_string 2, where p = fst]) (metis fst_conv)
  have kind: "value_kind v < 256 ^ 4" for v using value_kind_range [of v] by simp
  show ?thesis
    by (rule reads_cong [OF 3])
      (use kind in \<open>simp_all add: rd_entry_def kv_bytes_def kv_ok_def\<close>)
qed

text \<open>The loop that has already collected \<open>seen\<close> extends them by \<open>n\<close> entries with new keys.\<close>

definition kvs_ok :: "metadata \<Rightarrow> bool" where
  "kvs_ok m \<longleftrightarrow> (\<forall>e\<in>set m. kv_ok e) \<and> distinct (map fst m)"

lemma reads_metadata_from:
  "distinct (map fst seen) \<Longrightarrow>
   reads_exactly (rd_metadata n seen) (\<lambda>m. concat (map kv_bytes (drop (length seen) m)))
     (\<lambda>m. length m = length seen + n \<and> take (length seen) m = seen \<and>
          (\<forall>e\<in>set (drop (length seen) m). kv_ok e) \<and> distinct (map fst m))"
proof (induction n arbitrary: seen)
  case 0
  show ?case
    by (rule reads_cong [OF reads_return [of seen]]) (use 0 in auto)
next
  case (Suc n)
  let ?k = "length seen"
  let ?ok = "\<lambda>m. length m = Suc ?k + n \<and> (\<forall>e\<in>set (drop (Suc ?k) m). kv_ok e) \<and> distinct (map fst m)"
  let ?g = "\<lambda>e r. if fst e \<in> set (map fst seen) then Inl (DuplicateKey (fst e)) else rd_metadata n (seen @ [e]) r"
  have g: "reads_exactly (?g e) (\<lambda>m. concat (map kv_bytes (drop (Suc ?k) m))) (\<lambda>m. ?ok m \<and> take (Suc ?k) m = seen @ [e])" for e
  proof (cases "fst e \<in> set (map fst seen)")
    case True
    have no: "\<not> (distinct (map fst m) \<and> take (Suc ?k) m = seen @ [e])" for m
    proof
      assume m: "distinct (map fst m) \<and> take (Suc ?k) m = seen @ [e]"
      then have "distinct (take (Suc ?k) (map fst m))" by simp
      then show False using m True by (simp add: take_map)
    qed
    show ?thesis
      by (rule reads_cong [OF reads_fail [of "\<lambda>r. DuplicateKey (fst e)"]]) (use True no in auto)
  next
    case False
    then have "distinct (map fst (seen @ [e]))" using Suc.prems by simp
    from Suc.IH [OF this] show ?thesis
      by (rule reads_cong) (use False in auto)
  qed
  have b: "reads_exactly (\<lambda>r. and_then (rd_entry r) (\<lambda>(e, r). ?g e r))
      (\<lambda>m. kv_bytes (m ! ?k) @ concat (map kv_bytes (drop (Suc ?k) m)))
      (\<lambda>m. kv_ok (m ! ?k) \<and> ?ok m \<and> take (Suc ?k) m = seen @ [m ! ?k])"
  proof (rule reads_bind [OF reads_entry g, where p = "\<lambda>m. m ! ?k"])
    fix e m
    assume "?ok m \<and> take (Suc ?k) m = seen @ [e]"
    then have "take (Suc ?k) m ! ?k = e" by simp
    then show "m ! ?k = e" by simp
  qed
  show ?case
  proof (rule reads_cong [OF b])
    show "rd_metadata (Suc n) seen r = and_then (rd_entry r) (\<lambda>(e, r). ?g e r)" for r
      by (auto simp: and_then_def split: sum.split prod.splits)
    fix m
    show "(length m = ?k + Suc n \<and> take ?k m = seen \<and> (\<forall>e\<in>set (drop ?k m). kv_ok e) \<and> distinct (map fst m)) \<longleftrightarrow>
        kv_ok (m ! ?k) \<and> ?ok m \<and> take (Suc ?k) m = seen @ [m ! ?k]"
    proof (cases "?k < length m")
      case True
      then show ?thesis
        by (simp add: take_Suc_conv_app_nth Cons_nth_drop_Suc [symmetric]) blast
    qed simp
    assume "kv_ok (m ! ?k) \<and> ?ok m \<and> take (Suc ?k) m = seen @ [m ! ?k]"
    then have "?k < length m" by simp
    then show "concat (map kv_bytes (drop ?k m)) = kv_bytes (m ! ?k) @ concat (map kv_bytes (drop (Suc ?k) m))"
      by (simp add: Cons_nth_drop_Suc [symmetric])
  qed
qed

lemma reads_metadata:
  "reads_exactly (rd_metadata n []) (\<lambda>m. concat (map kv_bytes m)) (\<lambda>m. length m = n \<and> kvs_ok m)"
  by (rule reads_cong [OF reads_metadata_from [of "[]"]]) (simp_all add: kvs_ok_def)

definition record_bytes :: "tensor_record \<Rightarrow> byte list" where
  "record_bytes rec =
     (case rec of (name, shape, encoding, offset) \<Rightarrow>
       field name @ le_bytes 4 (length shape) @ concat (map (le_bytes 8) (rev shape)) @
       le_bytes 4 (encoding_id encoding) @ le_bytes 8 offset)"

definition record_ok :: "tensor_record \<Rightarrow> bool" where
  "record_ok rec \<longleftrightarrow>
     (case rec of (name, shape, encoding, offset) \<Rightarrow>
       string_ok name \<and> 0 < length shape \<and> length shape \<le> max_dims \<and>
       (\<forall>d\<in>set shape. d < 256 ^ 8) \<and> offset < 256 ^ 8)"

lemma reads_record_rest:
  "reads_exactly
     (\<lambda>r. and_then (rd_u32 r) (\<lambda>(i, r). and_then (ok_or (UnknownEncoding name i) (encoding_from_id i)) (\<lambda>encoding.
        and_then (rd_u64 r) (\<lambda>(offset, r). Inr ((name, rev shape, encoding, offset), r)))))
     (\<lambda>(n, sh, e, offset). le_bytes 4 (encoding_id e) @ le_bytes 8 offset)
     (\<lambda>(n, sh, e, offset). n = name \<and> sh = rev shape \<and> offset < 256 ^ 8)"
proof -
  have 1: "reads_exactly (\<lambda>r. and_then (rd_u64 r) (\<lambda>(offset, r). Inr ((name, rev shape, e, offset), r)))
      (\<lambda>rec. le_bytes 8 (snd (snd (snd rec))) @ [])
      (\<lambda>rec. snd (snd (snd rec)) < 256 ^ 8 \<and> rec = (name, rev shape, e, snd (snd (snd rec))))" for e
    by (rule reads_bind [OF reads_u64 reads_return, where p = "\<lambda>rec. snd (snd (snd rec))"]) auto
  have 2: "reads_exactly (\<lambda>r. and_then (ok_or (UnknownEncoding name i) (encoding_from_id i)) (\<lambda>e.
        and_then (rd_u64 r) (\<lambda>(offset, r). Inr ((name, rev shape, e, offset), r))))
      (\<lambda>rec. le_bytes 8 (snd (snd (snd rec))))
      (\<lambda>rec. i = encoding_id (fst (snd (snd rec))) \<and> fst rec = name \<and> fst (snd rec) = rev shape \<and> snd (snd (snd rec)) < 256 ^ 8)" for i
  proof (cases "encoding_from_id i")
    case None
    then have "i \<noteq> encoding_id e" for e using encoding_from_id_iff [of i e] by simp
    then show ?thesis
      by (intro reads_cong [OF reads_fail [of "\<lambda>r. UnknownEncoding name i"]]) (simp_all add: None)
  next
    case (Some e)
    then have i: "i = encoding_id e' \<longleftrightarrow> e' = e" for e'
      using encoding_from_id_iff [of i e] encoding_from_id_iff [of i e'] by auto
    show ?thesis
      by (rule reads_cong [OF 1 [of e]]) (auto simp: Some i)
  qed
  have 3: "reads_exactly (\<lambda>r. and_then (rd_u32 r) (\<lambda>(i, r).
        and_then (ok_or (UnknownEncoding name i) (encoding_from_id i)) (\<lambda>e.
        and_then (rd_u64 r) (\<lambda>(offset, r). Inr ((name, rev shape, e, offset), r)))))
      (\<lambda>rec. le_bytes 4 (encoding_id (fst (snd (snd rec)))) @ le_bytes 8 (snd (snd (snd rec))))
      (\<lambda>rec. encoding_id (fst (snd (snd rec))) < 256 ^ 4 \<and> encoding_id (fst (snd (snd rec))) = encoding_id (fst (snd (snd rec))) \<and>
         fst rec = name \<and> fst (snd rec) = rev shape \<and> snd (snd (snd rec)) < 256 ^ 8)"
    by (rule reads_bind [OF reads_u32 2, where p = "\<lambda>rec. encoding_id (fst (snd (snd rec)))"]) simp
  have small: "encoding_id e < 256 ^ 4" for e using encoding_id_u32 [of e] by (simp add: u32_max_def)
  show ?thesis
    by (rule reads_cong [OF 3]) (use small in auto)
qed

lemma reads_record: "reads_exactly rd_record record_bytes record_ok"
proof -
  let ?rest = "\<lambda>name shape r. and_then (rd_u32 r) (\<lambda>(i, r). and_then (ok_or (UnknownEncoding name i) (encoding_from_id i)) (\<lambda>encoding.
        and_then (rd_u64 r) (\<lambda>(offset, r). Inr ((name, rev shape, encoding, offset), r))))"
  let ?tail = "\<lambda>rec. le_bytes 4 (encoding_id (fst (snd (snd rec)))) @ le_bytes 8 (snd (snd (snd rec)))"
  let ?shape = "\<lambda>rec :: tensor_record. rev (fst (snd rec))"
  let ?okt = "\<lambda>rec :: tensor_record. snd (snd (snd rec)) < 256 ^ 8"
  have 0: "reads_exactly (?rest name shape) ?tail (\<lambda>rec. ?okt rec \<and> fst rec = name \<and> ?shape rec = shape)" for name shape
    by (rule reads_cong [OF reads_record_rest]) auto
  have 1: "reads_exactly (\<lambda>r. and_then (rd_many rd_u64 dims r) (\<lambda>(shape, r). ?rest name shape r))
      (\<lambda>rec. concat (map (le_bytes 8) (?shape rec)) @ ?tail rec)
      (\<lambda>rec. (length (?shape rec) = dims \<and> (\<forall>d\<in>set (?shape rec). d < 256 ^ 8)) \<and>
         ?okt rec \<and> fst rec = name \<and> ?shape rec = ?shape rec)" for name dims
    by (rule reads_bind [OF reads_many [OF reads_u64] 0, where p = ?shape]) simp
  have 2: "reads_exactly (\<lambda>r. if dims = 0 \<or> dims > max_dims then Inl (Limit ''tensor dimension count'' dims max_dims)
        else and_then (rd_many rd_u64 dims r) (\<lambda>(shape, r). ?rest name shape r))
      (\<lambda>rec. concat (map (le_bytes 8) (?shape rec)) @ ?tail rec)
      (\<lambda>rec. (0 < dims \<and> dims \<le> max_dims \<and> (\<forall>d\<in>set (?shape rec). d < 256 ^ 8) \<and> ?okt rec \<and> fst rec = name) \<and>
         length (?shape rec) = dims)" for name dims
  proof (cases "dims = 0 \<or> dims > max_dims")
    case True
    then show ?thesis
      by (intro reads_cong [OF reads_fail [of "\<lambda>r. Limit ''tensor dimension count'' dims max_dims"]]) auto
  next
    case False
    then show ?thesis by (intro reads_cong [OF 1 [of dims name]]) auto
  qed
  have 3: "reads_exactly (\<lambda>r. and_then (rd_u32 r) (\<lambda>(dims, r).
        if dims = 0 \<or> dims > max_dims then Inl (Limit ''tensor dimension count'' dims max_dims)
        else and_then (rd_many rd_u64 dims r) (\<lambda>(shape, r). ?rest name shape r)))
      (\<lambda>rec. le_bytes 4 (length (?shape rec)) @ concat (map (le_bytes 8) (?shape rec)) @ ?tail rec)
      (\<lambda>rec. length (?shape rec) < 256 ^ 4 \<and> (0 < length (?shape rec) \<and> length (?shape rec) \<le> max_dims \<and>
         (\<forall>d\<in>set (?shape rec). d < 256 ^ 8) \<and> ?okt rec \<and> fst rec = name) \<and> length (?shape rec) = length (?shape rec))" for name
    by (rule reads_bind [OF reads_u32 2, where p = "\<lambda>rec. length (?shape rec)"]) blast
  have 4: "reads_exactly (\<lambda>r. and_then (rd_string (ascii ''tensor name'') r) (\<lambda>(name, r). and_then (rd_u32 r) (\<lambda>(dims, r).
        if dims = 0 \<or> dims > max_dims then Inl (Limit ''tensor dimension count'' dims max_dims)
        else and_then (rd_many rd_u64 dims r) (\<lambda>(shape, r). ?rest name shape r))))
      (\<lambda>rec. field (fst rec) @ le_bytes 4 (length (?shape rec)) @ concat (map (le_bytes 8) (?shape rec)) @ ?tail rec)
      (\<lambda>rec. string_ok (fst rec) \<and> length (?shape rec) < 256 ^ 4 \<and> (0 < length (?shape rec) \<and> length (?shape rec) \<le> max_dims \<and>
         (\<forall>d\<in>set (?shape rec). d < 256 ^ 8) \<and> ?okt rec \<and> fst rec = fst rec) \<and> length (?shape rec) = length (?shape rec))"
    by (rule reads_bind [OF reads_string 3, where p = fst]) simp
  show ?thesis
    by (rule reads_cong [OF 4])
      (auto simp: rd_record_def record_ok_def record_bytes_def max_dims_def split: prod.splits)
qed

definition header_bytes :: "metadata \<Rightarrow> tensor_record list \<Rightarrow> byte list" where
  "header_bytes m records =
     gguf_magic @ le_bytes 4 3 @ le_bytes 8 (length records) @ le_bytes 8 (length m) @
     concat (map kv_bytes m) @ concat (map record_bytes records)"

definition header_ok :: "metadata \<Rightarrow> nat \<Rightarrow> tensor_record list \<Rightarrow> bool" where
  "header_ok m alignment records \<longleftrightarrow>
     length records \<le> max_tensors \<and> length m \<le> max_keys \<and> kvs_ok m \<and>
     metadata_alignment m = Inr alignment \<and> (\<forall>rec\<in>set records. record_ok rec)"

lemma reads_expect:
  assumes "reads_exactly f encf okf" "reads_exactly g enc ok" "okf v"
  shows "reads_exactly (\<lambda>r. and_then (f r) (\<lambda>(x, r). if x \<noteq> v then Inl (e x r) else g r))
    (\<lambda>y. encf v @ enc y) ok"
proof -
  have g: "reads_exactly (\<lambda>r. if x \<noteq> v then Inl (e x r) else g r) enc (\<lambda>y. x = v \<and> ok y)" for x
  proof (cases "x = v")
    case True
    then show ?thesis by (intro reads_cong [OF assms(2)]) auto
  next
    case False
    then show ?thesis by (intro reads_cong [OF reads_fail [of "e x"]]) auto
  qed
  have b: "reads_exactly (\<lambda>r. and_then (f r) (\<lambda>(x, r). if x \<noteq> v then Inl (e x r) else g r))
      (\<lambda>y. encf v @ enc y) (\<lambda>y. okf v \<and> v = v \<and> ok y)"
    by (rule reads_bind [OF assms(1) g, where p = "\<lambda>y. v"]) simp
  show ?thesis by (rule reads_cong [OF b]) (simp_all add: assms(3))
qed

lemma reads_header_tail:
  "reads_exactly (\<lambda>r. and_then (rd_metadata key_count [] r) (\<lambda>(m, r).
      and_then (metadata_alignment m) (\<lambda>alignment.
      and_then (rd_many rd_record tensor_count r) (\<lambda>(records, r). Inr ((m, alignment, records), r)))))
     (\<lambda>h. concat (map kv_bytes (fst h)) @ concat (map record_bytes (snd (snd h))))
     (\<lambda>h. length (fst h) = key_count \<and> kvs_ok (fst h) \<and> metadata_alignment (fst h) = Inr (fst (snd h)) \<and>
        length (snd (snd h)) = tensor_count \<and> (\<forall>rec\<in>set (snd (snd h)). record_ok rec))"
proof -
  have 1: "reads_exactly (\<lambda>r. and_then (rd_many rd_record tensor_count r) (\<lambda>(records, r). Inr ((m, alignment, records), r)))
      (\<lambda>h. concat (map record_bytes (snd (snd h))) @ [])
      (\<lambda>h. (length (snd (snd h)) = tensor_count \<and> (\<forall>rec\<in>set (snd (snd h)). record_ok rec)) \<and> h = (m, alignment, snd (snd h)))"
    for m alignment
    by (rule reads_bind [OF reads_many [OF reads_record] reads_return, where p = "\<lambda>h. snd (snd h)"]) auto
  have 2: "reads_exactly (\<lambda>r. and_then (metadata_alignment m) (\<lambda>alignment.
        and_then (rd_many rd_record tensor_count r) (\<lambda>(records, r). Inr ((m, alignment, records), r))))
      (\<lambda>h. concat (map record_bytes (snd (snd h))))
      (\<lambda>h. (length (snd (snd h)) = tensor_count \<and> (\<forall>rec\<in>set (snd (snd h)). record_ok rec)) \<and>
         metadata_alignment m = Inr (fst (snd h)) \<and> fst h = m)" for m
  proof (cases "metadata_alignment m")
    case (Inl e)
    show ?thesis by (rule reads_cong [OF reads_fail [of "\<lambda>r. e"]]) (simp_all add: Inl)
  next
    case (Inr a)
    show ?thesis by (rule reads_cong [OF 1 [of m a]]) (auto simp: Inr)
  qed
  have 3: "reads_exactly (\<lambda>r. and_then (rd_metadata key_count [] r) (\<lambda>(m, r).
      and_then (metadata_alignment m) (\<lambda>alignment.
      and_then (rd_many rd_record tensor_count r) (\<lambda>(records, r). Inr ((m, alignment, records), r)))))
      (\<lambda>h. concat (map kv_bytes (fst h)) @ concat (map record_bytes (snd (snd h))))
      (\<lambda>h. (length (fst h) = key_count \<and> kvs_ok (fst h)) \<and>
         (length (snd (snd h)) = tensor_count \<and> (\<forall>rec\<in>set (snd (snd h)). record_ok rec)) \<and>
         metadata_alignment (fst h) = Inr (fst (snd h)) \<and> fst h = fst h)"
    by (rule reads_bind [OF reads_metadata 2, where p = fst]) simp
  show ?thesis by (rule reads_cong [OF 3]) blast+
qed

lemma reads_count:
  assumes "\<And>n. reads_exactly (g n) enc (\<lambda>h. count h = n \<and> ok h)" "limit < 256 ^ 8"
  shows "reads_exactly (\<lambda>r. and_then (rd_u64 r) (\<lambda>(n, r). and_then (bounded what n limit) (\<lambda>n. g n r)))
    (\<lambda>h. le_bytes 8 (count h) @ enc h) (\<lambda>h. count h \<le> limit \<and> ok h)"
proof -
  have g: "reads_exactly (\<lambda>r. and_then (bounded what n limit) (\<lambda>_. g n r)) enc (\<lambda>h. n \<le> limit \<and> count h = n \<and> ok h)" for n
    by (rule reads_guard [OF assms(1)])
  have b: "reads_exactly (\<lambda>r. and_then (rd_u64 r) (\<lambda>(n, r). and_then (bounded what n limit) (\<lambda>_. g n r)))
      (\<lambda>h. le_bytes 8 (count h) @ enc h) (\<lambda>h. count h < 256 ^ 8 \<and> count h \<le> limit \<and> count h = count h \<and> ok h)"
    by (rule reads_bind [OF reads_u64 g, where p = count]) simp
  show ?thesis
    by (rule reads_cong [OF b]) (use assms(2) in \<open>auto simp: bounded_def and_then_def split: sum.split\<close>)
qed

theorem reads_header:
  "reads_exactly rd_header (\<lambda>(m, alignment, records). header_bytes m records)
     (\<lambda>(m, alignment, records). header_ok m alignment records)"
proof -
  let ?tail = "\<lambda>k n r. and_then (rd_metadata k [] r) (\<lambda>(m, r). and_then (metadata_alignment m) (\<lambda>alignment.
      and_then (rd_many rd_record n r) (\<lambda>(records, r). Inr ((m, alignment, records), r))))"
  let ?enc = "\<lambda>h. concat (map kv_bytes (fst h)) @ concat (map record_bytes (snd (snd h)))"
  let ?ok = "\<lambda>h. kvs_ok (fst h) \<and> metadata_alignment (fst h) = Inr (fst (snd h)) \<and> (\<forall>rec\<in>set (snd (snd h)). record_ok rec)"
  have 1: "reads_exactly (?tail k n) ?enc (\<lambda>h. length (fst h) = k \<and> length (snd (snd h)) = n \<and> ?ok h)" for k n
    by (rule reads_cong [OF reads_header_tail]) auto
  have 2: "reads_exactly (\<lambda>r. and_then (rd_u64 r) (\<lambda>(n, r). and_then (bounded ''key count'' n max_keys) (\<lambda>k. ?tail k n' r)))
      (\<lambda>h. le_bytes 8 (length (fst h)) @ ?enc h) (\<lambda>h. length (fst h) \<le> max_keys \<and> length (snd (snd h)) = n' \<and> ?ok h)" for n'
    by (rule reads_count [OF 1]) (simp add: max_keys_def)
  have 3: "reads_exactly (\<lambda>r. and_then (rd_u64 r) (\<lambda>(n, r). and_then (bounded ''tensor count'' n max_tensors) (\<lambda>n'.
        and_then (rd_u64 r) (\<lambda>(n, r). and_then (bounded ''key count'' n max_keys) (\<lambda>k. ?tail k n' r)))))
      (\<lambda>h. le_bytes 8 (length (snd (snd h))) @ le_bytes 8 (length (fst h)) @ ?enc h)
      (\<lambda>h. length (snd (snd h)) \<le> max_tensors \<and> length (fst h) \<le> max_keys \<and> ?ok h)"
    by (rule reads_count, rule reads_cong [OF 2]) (auto simp: max_tensors_def)
  have 4: "reads_exactly (\<lambda>r. and_then (rd_bytes 4 r) (\<lambda>(magic, r). if magic \<noteq> gguf_magic then Inl (NotGguf (rd_path r)) else
        and_then (rd_u32 r) (\<lambda>(version, r). if version \<noteq> 3 then Inl (Version version) else
        and_then (rd_u64 r) (\<lambda>(n, r). and_then (bounded ''tensor count'' n max_tensors) (\<lambda>n'.
        and_then (rd_u64 r) (\<lambda>(n, r). and_then (bounded ''key count'' n max_keys) (\<lambda>k. ?tail k n' r)))))))
      (\<lambda>h. gguf_magic @ le_bytes 4 3 @ le_bytes 8 (length (snd (snd h))) @ le_bytes 8 (length (fst h)) @ ?enc h)
      (\<lambda>h. length (snd (snd h)) \<le> max_tensors \<and> length (fst h) \<le> max_keys \<and> ?ok h)"
    by (rule reads_expect [OF reads_bytes reads_expect [OF reads_u32 3]]) (simp_all add: gguf_magic_def)
  show ?thesis
    by (rule reads_cong [OF 4])
      (auto simp: rd_header_def header_ok_def header_bytes_def split: prod.splits)
qed

end
