(* ===== verification/GgufTable.thy ===== *)
theory GgufTable
  imports GgufFormat
begin

text \<open>
  What the tensor table of a GGUF file guarantees: the size of a tensor follows from its shape and
  encoding, every payload lies inside the file, and the sweep over sorted neighbours makes all
  payloads pairwise disjoint.
\<close>

section \<open>One record\<close>

lemma fold_elements_Some:
  assumes "0 < a" "a \<le> u64_max"
  shows "fold_elements a dims = Some n \<longleftrightarrow> (\<forall>d\<in>set dims. 0 < d) \<and> n = a * prod_list dims \<and> n \<le> u64_max"
  using assms
proof (induction dims arbitrary: a)
  case Nil
  then show ?case by auto
next
  case (Cons d dims)
  show ?case
  proof (cases "0 < d \<and> a * d \<le> u64_max")
    case True
    then show ?thesis
      using Cons.IH [of "a * d"] Cons.prems by (auto simp: checked_mul_u64_def algebra_simps)
  next
    case False
    have over: "\<not> a * (d * prod_list dims) \<le> u64_max" if "0 < d" "\<forall>x\<in>set dims. 0 < x"
    proof -
      have "prod_list dims \<noteq> 0" using that(2) by (auto simp: prod_list_zero_iff)
      then have "a * d \<le> a * (d * prod_list dims)" by simp
      then show ?thesis using False that(1) by linarith
    qed
    have none: "fold_elements a (d # dims) = None" using False by (auto simp: checked_mul_u64_def)
    have "\<not> ((\<forall>x\<in>set (d # dims). 0 < x) \<and> n = a * prod_list (d # dims) \<and> n \<le> u64_max)"
    proof
      assume "(\<forall>x\<in>set (d # dims). 0 < x) \<and> n = a * prod_list (d # dims) \<and> n \<le> u64_max"
      then have "0 < d" "\<forall>x\<in>set dims. 0 < x" "a * (d * prod_list dims) \<le> u64_max" by simp_all
      then show False using over by blast
    qed
    then show ?thesis unfolding none by (simp only: option.distinct(1) HOL.simp_thms)
  qed
qed

text \<open>The bytes a tensor of this shape takes.\<close>

definition shape_bytes :: "gguf_encoding \<Rightarrow> nat list \<Rightarrow> nat" where
  "shape_bytes e shape = prod_list shape div block_elements e * block_bytes e"

lemma prod_list_last_dvd: "xs \<noteq> [] \<Longrightarrow> last xs dvd prod_list (xs :: nat list)"
  by (induction xs) auto

lemma shape_bytes_pos:
  assumes "shape \<noteq> []" "\<forall>d\<in>set shape. 0 < d" "block_elements e dvd last shape"
  shows "0 < shape_bytes e shape"
proof -
  have "block_elements e dvd prod_list shape" using assms(1,3) prod_list_last_dvd dvd_trans by blast
  moreover have "0 < prod_list shape" using assms(2) by (metis bot_nat_0.not_eq_extremum prod_list_zero_iff)
  ultimately show ?thesis
    using block_sizes_pos [of e] by (auto simp: shape_bytes_def dvd_div_eq_0_iff)
qed

definition record_valid :: "nat \<Rightarrow> nat \<Rightarrow> nat \<Rightarrow> tensor_record \<Rightarrow> tensor_info \<Rightarrow> bool" where
  "record_valid data_start alignment len rec info \<longleftrightarrow>
     (case rec of (name, shape, e, offset) \<Rightarrow>
       shape \<noteq> [] \<and> (\<forall>d\<in>set shape. 0 < d) \<and> prod_list shape \<le> u64_max \<and> block_elements e dvd last shape \<and>
       shape_bytes e shape \<le> u64_max \<and> alignment dvd offset \<and>
       data_start + offset + shape_bytes e shape \<le> min len u64_max \<and>
       info = \<lparr>ti_encoding = Gguf e, ti_shape = shape,
               ti_range = (data_start + offset, data_start + offset + shape_bytes e shape)\<rparr>)"

lemma record_info_Inr:
  "record_info data_start alignment len rec = Inr info \<longleftrightarrow> record_valid data_start alignment len rec info"
proof -
  obtain name shape e offset where rec: "rec = (name, shape, e, offset)" by (cases rec) auto
  have blocks: "block_elements e dvd prod_list shape" if "shape \<noteq> []" "block_elements e dvd last shape"
    using that prod_list_last_dvd dvd_trans by blast
  have fold: "fold_elements 1 shape = Some n \<longleftrightarrow> (\<forall>d\<in>set shape. 0 < d) \<and> n = prod_list shape \<and> n \<le> u64_max" for n
    by (subst fold_elements_Some) (simp_all add: u64_max_def)
  have size: "ok_or (Shape name shape e) (case fold_elements 1 shape of None \<Rightarrow> None
        | Some n \<Rightarrow> if case shape of [] \<Rightarrow> False | _ \<Rightarrow> block_elements e dvd last shape then byte_len e n else None) = Inr bytes \<longleftrightarrow>
      shape \<noteq> [] \<and> (\<forall>d\<in>set shape. 0 < d) \<and> prod_list shape \<le> u64_max \<and> block_elements e dvd last shape \<and>
      bytes = shape_bytes e shape \<and> bytes \<le> u64_max" for bytes
  proof (cases "fold_elements 1 shape")
    case None
    then have "\<not> ((\<forall>d\<in>set shape. 0 < d) \<and> prod_list shape \<le> u64_max)" using fold [of "prod_list shape"] by simp
    then show ?thesis using None by auto
  next
    case (Some n)
    note n = fold [THEN iffD1, OF Some]
    have row: "(case shape of [] \<Rightarrow> False | _ \<Rightarrow> block_elements e dvd last shape) \<longleftrightarrow> shape \<noteq> [] \<and> block_elements e dvd last shape"
      by (cases shape) simp_all
    show ?thesis
      unfolding row Some using n blocks
      by (auto simp: ok_or_Inr byte_len_def shape_bytes_def checked_mul_u64_def)
  qed
  let ?size = "ok_or (Shape name shape e) (case fold_elements 1 shape of None \<Rightarrow> None
        | Some n \<Rightarrow> if case shape of [] \<Rightarrow> False | _ \<Rightarrow> block_elements e dvd last shape then byte_len e n else None)"
  let ?place = "\<lambda>bytes. do { start \<leftarrow> checked_add_u64 data_start offset; end \<leftarrow> checked_add_u64 start bytes;
        if alignment dvd offset \<and> end \<le> len then Some (start, end) else None }"
  have place: "?place bytes = Some r \<longleftrightarrow> alignment dvd offset \<and> data_start + offset + bytes \<le> min len u64_max \<and>
      r = (data_start + offset, data_start + offset + bytes)" for bytes r
    by (auto simp: checked_add_u64_def)
  have "record_info data_start alignment len rec = Inr info \<longleftrightarrow>
      (\<exists>bytes. ?size = Inr bytes \<and> (\<exists>r. ?place bytes = Some r \<and> info = \<lparr>ti_encoding = Gguf e, ti_shape = shape, ti_range = r\<rparr>))"
    by (auto simp only: record_info_def rec Let_def prod.case and_then_Inr ok_or_Inr sum.inject)
  also have "\<dots> \<longleftrightarrow> record_valid data_start alignment len rec info"
    unfolding size place rec record_valid_def by auto
  finally show ?thesis .
qed

lemma record_valid_range:
  assumes "record_valid data_start alignment len rec info"
  shows "fst (ti_range info) < snd (ti_range info)" "snd (ti_range info) \<le> len" "data_start \<le> fst (ti_range info)"
    "alignment dvd data_start \<Longrightarrow> alignment dvd fst (ti_range info)"
  using assms shape_bytes_pos by (auto simp: record_valid_def split: prod.splits)

section \<open>The table\<close>

lemma table_loop_Inr:
  "distinct (map fst acc) \<Longrightarrow>
   table_loop data_start alignment len recs acc = Inr tensors \<longleftrightarrow>
     (\<exists>infos. list_all2 (record_valid data_start alignment len) recs infos \<and>
        tensors = acc @ zip (map fst recs) infos \<and> distinct (map fst acc @ map fst recs))"
proof (induction recs arbitrary: acc)
  case Nil
  then show ?case by auto
next
  case (Cons rec recs)
  show ?case
  proof
    assume "table_loop data_start alignment len (rec # recs) acc = Inr tensors"
    then obtain info where info: "record_valid data_start alignment len rec info" "fst rec \<notin> set (map fst acc)"
      and rest: "table_loop data_start alignment len recs (acc @ [(fst rec, info)]) = Inr tensors"
      by (auto simp: and_then_Inr record_info_Inr split: if_splits)
    have "distinct (map fst (acc @ [(fst rec, info)]))" using info(2) Cons.prems by simp
    from Cons.IH [OF this] rest obtain infos where "list_all2 (record_valid data_start alignment len) recs infos"
      "tensors = (acc @ [(fst rec, info)]) @ zip (map fst recs) infos"
      "distinct (map fst (acc @ [(fst rec, info)]) @ map fst recs)" by blast
    then show "\<exists>infos. list_all2 (record_valid data_start alignment len) (rec # recs) infos \<and>
        tensors = acc @ zip (map fst (rec # recs)) infos \<and> distinct (map fst acc @ map fst (rec # recs))"
      using info by (intro exI [of _ "info # infos"]) simp
  next
    assume "\<exists>infos. list_all2 (record_valid data_start alignment len) (rec # recs) infos \<and>
        tensors = acc @ zip (map fst (rec # recs)) infos \<and> distinct (map fst acc @ map fst (rec # recs))"
    then obtain info infos where 1: "record_valid data_start alignment len rec info"
      "list_all2 (record_valid data_start alignment len) recs infos"
      "tensors = acc @ (fst rec, info) # zip (map fst recs) infos" "distinct (map fst acc @ map fst (rec # recs))"
      by (auto simp: list_all2_Cons1)
    have "table_loop data_start alignment len recs (acc @ [(fst rec, info)]) = Inr tensors"
      by (rule Cons.IH [THEN iffD2]) (use 1 in auto)
    moreover have "fst rec \<notin> set (map fst acc)" using 1(4) by auto
    ultimately show "table_loop data_start alignment len (rec # recs) acc = Inr tensors"
      using 1(1) record_info_Inr [of data_start alignment len rec info] by simp
  qed
qed

text \<open>Neighbours that do not overlap in a list sorted by start are disjoint from all others.\<close>

lemma first_overlap_None:
  assumes "\<forall>x\<in>set xs. fst (ti_range (snd x)) \<le> snd (ti_range (snd x))"
  shows "first_overlap xs = None \<longleftrightarrow> sorted_wrt (\<lambda>x y. snd (ti_range (snd x)) \<le> fst (ti_range (snd y))) xs"
  using assms
proof (induction xs rule: first_overlap.induct)
  case (1 x y rest)
  have "snd (ti_range (snd x)) \<le> fst (ti_range (snd z))"
    if "snd (ti_range (snd x)) \<le> fst (ti_range (snd y))" "snd (ti_range (snd y)) \<le> fst (ti_range (snd z))" for z
  proof -
    have "fst (ti_range (snd y)) \<le> snd (ti_range (snd y))" using 1(2) by simp
    then show ?thesis using that by linarith
  qed
  then show ?case using 1 by (auto simp: not_less)
qed simp_all

definition disjoint_ranges :: "range \<Rightarrow> range \<Rightarrow> bool" where
  "disjoint_ranges a b \<longleftrightarrow> snd a \<le> fst b \<or> snd b \<le> fst a"

lemma sorted_wrt_disjoint:
  assumes "sorted_wrt (\<lambda>x y. snd (f x) \<le> fst (f y)) xs" "x \<in> set xs" "y \<in> set xs" "x \<noteq> y"
  shows "disjoint_ranges (f x) (f y)"
  using assms by (induction xs) (auto simp: disjoint_ranges_def)

lemma tensor_table_Inr:
  "tensor_table recs data_start alignment len = Inr (order, tensors) \<longleftrightarrow>
     (\<exists>infos. list_all2 (record_valid data_start alignment len) recs infos \<and>
        tensors = zip (map fst recs) infos) \<and> distinct (map fst recs) \<and> order = map fst recs \<and>
     sorted_wrt (\<lambda>x y. snd (ti_range (snd x)) \<le> fst (ti_range (snd y))) (sorted_spans tensors)"
  (is "?l \<longleftrightarrow> ?r")
proof -
  have ranges: "\<forall>x\<in>set (sorted_spans ts). fst (ti_range (snd x)) \<le> snd (ti_range (snd x))"
    if "list_all2 (record_valid data_start alignment len) recs infos" "ts = zip (map fst recs) infos" for infos ts
  proof
    fix x assume "x \<in> set (sorted_spans ts)"
    then have "(fst x, snd x) \<in> set (zip (map fst recs) infos)" using that(2) by (simp add: sorted_spans_def)
    then have "snd x \<in> set infos" by (rule set_zip_rightD)
    then obtain i where "i < length infos" "snd x = infos ! i" by (auto simp: in_set_conv_nth)
    then have "record_valid data_start alignment len (recs ! i) (snd x)"
      using list_all2_nthD2 [OF that(1)] by simp
    from record_valid_range(1) [OF this] show "fst (ti_range (snd x)) \<le> snd (ti_range (snd x))" by (rule less_imp_le)
  qed
  have names: "map fst (zip (map fst recs) infos) = map fst recs"
    if "list_all2 (record_valid data_start alignment len) recs infos" for infos
    using list_all2_lengthD [OF that] by simp
  show ?thesis
  proof
    assume ?l
    then have loop: "table_loop data_start alignment len recs [] = Inr tensors"
      and over: "first_overlap (sorted_spans tensors) = None" and order: "order = map fst tensors"
      by (auto simp: tensor_table_def and_then_Inr split: option.splits prod.splits
          intro: option.exhaust [of "first_overlap (sorted_spans tensors)"])
    from loop table_loop_Inr [of "[]"] obtain infos where 1: "list_all2 (record_valid data_start alignment len) recs infos"
      "tensors = zip (map fst recs) infos" "distinct (map fst recs)"
      by (metis append_Nil distinct.simps(1) list.simps(8))
    have "order = map fst recs" using order names [OF 1(1)] 1(2) by simp
    moreover note first_overlap_None [OF ranges [OF 1(1,2)], THEN iffD1, OF over]
    ultimately show ?r using 1 by blast
  next
    assume r: ?r
    then obtain infos where 1: "list_all2 (record_valid data_start alignment len) recs infos"
      "tensors = zip (map fst recs) infos" by blast
    have "table_loop data_start alignment len recs [] = Inr tensors"
      using r 1 table_loop_Inr [of "[]" data_start alignment len recs tensors] by simp
    moreover have "first_overlap (sorted_spans tensors) = None"
      using r by (simp only: first_overlap_None [OF ranges [OF 1]])
    moreover have "map fst tensors = order" using r names [OF 1(1)] 1(2) by simp
    ultimately show ?l by (simp add: tensor_table_def)
  qed
qed

end
