(* ===== verification/GgufTheorems.thy ===== *)
theory GgufTheorems
  imports GgufTable
begin

text \<open>
  What opening and reading a GGUF file guarantees: \<open>gguf_open\<close> accepts exactly the files that are
  laid out as the format says, its tensors are disjoint slices of the file behind the header, and
  reads return those slices. The container is an instance of the \<open>tensor_container\<close> contract.
\<close>

section \<open>Alignment\<close>

lemma metadata_alignment_pos: "metadata_alignment m = Inr a \<Longrightarrow> 0 < a"
  by (auto simp: metadata_alignment_def and_then_Inr split: if_splits)

text \<open>The next multiple is the only one in a window as wide as the alignment.\<close>

lemma next_multiple_of_Some:
  assumes "0 < b"
  shows "next_multiple_of a b = Some n \<longleftrightarrow> b dvd n \<and> a \<le> n \<and> n < a + b \<and> n \<le> u64_max"
proof -
  let ?n = "div_ceil a b * b"
  have up: "a \<le> ?n" using div_ceil_le_iff [OF assms, of a "div_ceil a b"] by simp
  have down: "?n < a + b"
  proof (cases "div_ceil a b")
    case 0
    then show ?thesis using assms by simp
  next
    case (Suc k)
    then have "k * b < a" using less_div_ceil_iff [OF assms, of k a] by simp
    then show ?thesis using Suc by simp
  qed
  have only: "n = ?n" if n: "b dvd n" "a \<le> n" "n < a + b" for n
  proof -
    obtain k where k: "n = k * b" using n(1) by (metis dvd_def mult.commute)
    have "div_ceil a b \<le> k" using div_ceil_le_iff [OF assms, of a k] n(2) k by simp
    moreover have "\<not> div_ceil a b < k"
    proof
      assume "div_ceil a b < k"
      then have "Suc (div_ceil a b) * b \<le> k * b" by (intro mult_le_mono1) simp
      then show False using up n(3) k by simp
    qed
    ultimately show ?thesis using k by simp
  qed
  show ?thesis
    using assms up down only by (auto simp: next_multiple_of_def Let_def)
qed

section \<open>Files that are laid out as the format says\<close>

definition gguf_layout ::
  "byte list \<Rightarrow> metadata \<Rightarrow> nat \<Rightarrow> tensor_record list \<Rightarrow> nat \<Rightarrow> tensor_info list \<Rightarrow> bool" where
  "gguf_layout bytes m alignment records data_start infos \<longleftrightarrow>
     (let header = header_bytes m records
      in take (length header) bytes = header \<and> length header \<le> max_header_bytes \<and>
         header_ok m alignment records \<and>
         alignment dvd data_start \<and> length header \<le> data_start \<and> data_start < length header + alignment \<and>
         data_start \<le> u64_max \<and>
         list_all2 (record_valid data_start alignment (length bytes)) records infos \<and>
         distinct (map fst records) \<and>
         (\<forall>i<length infos. \<forall>j<length infos. i \<noteq> j \<longrightarrow>
            disjoint_ranges (ti_range (infos ! i)) (ti_range (infos ! j))))"

lemma sorted_wrt_of_disjoint:
  fixes f :: "'a \<Rightarrow> range"
  assumes "sorted_wrt (\<lambda>x y. f x \<le> f y) xs" "distinct xs" "\<forall>x\<in>set xs. fst (f x) < snd (f x)"
    and "\<forall>x\<in>set xs. \<forall>y\<in>set xs. x \<noteq> y \<longrightarrow> disjoint_ranges (f x) (f y)"
  shows "sorted_wrt (\<lambda>x y. snd (f x) \<le> fst (f y)) xs"
  using assms
proof (induction xs)
  case Nil
  then show ?case by simp
next
  case (Cons x xs)
  have "snd (f x) \<le> fst (f y)" if y: "y \<in> set xs" for y
  proof -
    have "x \<noteq> y" using y Cons.prems(2) by auto
    then have "disjoint_ranges (f x) (f y)" using y Cons.prems(4) by simp
    moreover have "f x \<le> f y" using y Cons.prems(1) by simp
    then have "fst (f x) \<le> fst (f y)" by (auto simp: less_eq_prod_def)
    moreover have "fst (f y) < snd (f y)" using y Cons.prems(3) by simp
    ultimately show ?thesis by (auto simp: disjoint_ranges_def)
  qed
  then show ?case using Cons by simp
qed

lemma spans_disjoint:
  assumes valid: "list_all2 (record_valid ds al len) recs infos" and dist: "distinct (map fst recs)"
  shows "sorted_wrt (\<lambda>x y. snd (ti_range (snd x)) \<le> fst (ti_range (snd y))) (sorted_spans (zip (map fst recs) infos)) \<longleftrightarrow>
    (\<forall>i<length infos. \<forall>j<length infos. i \<noteq> j \<longrightarrow> disjoint_ranges (ti_range (infos ! i)) (ti_range (infos ! j)))"
    (is "?sorted \<longleftrightarrow> ?disjoint")
proof
  let ?ts = "zip (map fst recs) infos"
  have len: "length recs = length infos" using valid by (rule list_all2_lengthD)
  have at: "?ts ! i = (fst (recs ! i), infos ! i)" if "i < length infos" for i using that len by simp
  have pos: "fst (ti_range (infos ! i)) < snd (ti_range (infos ! i))" if "i < length infos" for i
    using record_valid_range(1) [OF list_all2_nthD2 [OF valid that]] .
  show ?disjoint if s: ?sorted
  proof (intro allI impI)
    fix i j assume ij: "i < length infos" "j < length infos" "i \<noteq> j"
    have "fst (recs ! i) \<noteq> fst (recs ! j)"
      using dist ij len nth_eq_iff_index_eq [of "map fst recs" i j] by simp
    then have "?ts ! i \<noteq> ?ts ! j" using at ij by simp
    moreover have "?ts ! i \<in> set (sorted_spans ?ts)" "?ts ! j \<in> set (sorted_spans ?ts)"
      using ij len by (simp_all add: sorted_spans_def del: nth_zip)
    ultimately have "disjoint_ranges (ti_range (snd (?ts ! i))) (ti_range (snd (?ts ! j)))"
      using sorted_wrt_disjoint [OF s] by blast
    then show "disjoint_ranges (ti_range (infos ! i)) (ti_range (infos ! j))" using at ij by simp
  qed
  show ?sorted if d: ?disjoint
  proof -
    have dts: "distinct (sorted_spans ?ts)" using dist len by (simp add: sorted_spans_def distinct_zipI1)
    have "sorted_wrt (\<lambda>x y. ti_range (snd x) \<le> ti_range (snd y)) (sorted_spans ?ts)"
      using sorted_sort_key [of "\<lambda>x. ti_range (snd x)" ?ts] by (simp only: sorted_spans_def sorted_map)
    moreover have "fst (ti_range (snd x)) < snd (ti_range (snd x)) \<and>
        (\<forall>y\<in>set (sorted_spans ?ts). x \<noteq> y \<longrightarrow> disjoint_ranges (ti_range (snd x)) (ti_range (snd y)))"
      if x: "x \<in> set (sorted_spans ?ts)" for x
    proof
      obtain i where i: "i < length infos" "x = ?ts ! i"
        using x len by (auto simp: sorted_spans_def in_set_conv_nth)
      then show "fst (ti_range (snd x)) < snd (ti_range (snd x))" using pos at by simp
      show "\<forall>y\<in>set (sorted_spans ?ts). x \<noteq> y \<longrightarrow> disjoint_ranges (ti_range (snd x)) (ti_range (snd y))"
      proof (intro ballI impI)
        fix y assume "y \<in> set (sorted_spans ?ts)" "x \<noteq> y"
        then obtain j where "j < length infos" "y = ?ts ! j"
          using len by (auto simp: sorted_spans_def in_set_conv_nth)
        moreover from this have "i \<noteq> j" using \<open>x \<noteq> y\<close> i by metis
        ultimately show "disjoint_ranges (ti_range (snd x)) (ti_range (snd y))" using d i at by simp
      qed
    qed
    ultimately show ?thesis using dts by (intro sorted_wrt_of_disjoint [where f = "\<lambda>x. ti_range (snd x)"]) blast+
  qed
qed

lemma rd_header_file:
  "rd_header \<lparr>rd_inner = bytes, rd_read = 0, rd_path = path\<rparr> = Inr ((m, alignment, records), r) \<longleftrightarrow>
   header_ok m alignment records \<and> bytes = header_bytes m records @ rd_inner r \<and> rd_path r = path \<and>
   rd_read r = length (header_bytes m records) \<and> length (header_bytes m records) \<le> max_header_bytes"
  by (subst reads_exactlyD [OF reads_header]) auto

lemma gguf_open_node:
  assumes "fs path = Some node" "fn_is_file node"
  shows "gguf_open fs path = Inr f \<longleftrightarrow>
    (\<exists>m alignment records data_start order tensors.
       header_ok m alignment records \<and> take (length (header_bytes m records)) (fn_bytes node) = header_bytes m records \<and>
       length (header_bytes m records) \<le> max_header_bytes \<and>
       next_multiple_of (length (header_bytes m records)) alignment = Some data_start \<and>
       tensor_table records data_start alignment (length (fn_bytes node)) = Inr (order, tensors) \<and>
       f = \<lparr>gf_path = path, gf_length = length (fn_bytes node), gf_modified = fn_modified node,
            gf_metadata = m, gf_order = order, gf_tensors = tensors\<rparr>)"
    (is "?l \<longleftrightarrow> ?r")
proof
  assume ?l
  then obtain m alignment records r data_start order tensors where
    1: "rd_header \<lparr>rd_inner = fn_bytes node, rd_read = 0, rd_path = path\<rparr> = Inr ((m, alignment, records), r)"
      "next_multiple_of (rd_read r) alignment = Some data_start"
      "tensor_table records data_start alignment (length (fn_bytes node)) = Inr (order, tensors)"
      "f = \<lparr>gf_path = path, gf_length = length (fn_bytes node), gf_modified = fn_modified node,
            gf_metadata = m, gf_order = order, gf_tensors = tensors\<rparr>"
    using assms by (auto simp: gguf_open_def and_then_Inr ok_or_Inr)
  have h: "header_ok m alignment records" "fn_bytes node = header_bytes m records @ rd_inner r"
    "rd_read r = length (header_bytes m records)" "length (header_bytes m records) \<le> max_header_bytes"
    using 1(1) unfolding rd_header_file by blast+
  have t: "take (length (header_bytes m records)) (fn_bytes node) = header_bytes m records" unfolding h(2) by simp
  show ?r using h t 1(2,3,4) unfolding h(3) by blast
next
  assume ?r
  then obtain m alignment records data_start order tensors where
    1: "header_ok m alignment records" "take (length (header_bytes m records)) (fn_bytes node) = header_bytes m records"
      "length (header_bytes m records) \<le> max_header_bytes"
      "next_multiple_of (length (header_bytes m records)) alignment = Some data_start"
      "tensor_table records data_start alignment (length (fn_bytes node)) = Inr (order, tensors)"
      "f = \<lparr>gf_path = path, gf_length = length (fn_bytes node), gf_modified = fn_modified node,
            gf_metadata = m, gf_order = order, gf_tensors = tensors\<rparr>" by blast
  let ?n = "length (header_bytes m records)"
  let ?r = "\<lparr>rd_inner = drop ?n (fn_bytes node), rd_read = ?n, rd_path = path\<rparr>"
  have split: "fn_bytes node = header_bytes m records @ drop ?n (fn_bytes node)"
    using append_take_drop_id [of ?n "fn_bytes node"] unfolding 1(2) by simp
  have "rd_header \<lparr>rd_inner = fn_bytes node, rd_read = 0, rd_path = path\<rparr> = Inr ((m, alignment, records), ?r)"
    unfolding rd_header_file using 1(1,3) split by simp
  then show ?l using assms 1 by (simp add: gguf_open_def)
qed

lemma open_node: "gguf_open fs path = Inr f \<Longrightarrow> \<exists>node. fs path = Some node \<and> fn_is_file node"
  by (cases "fs path") (auto simp: gguf_open_def split: if_splits)

lemma layout_iff:
  "gguf_layout bytes m alignment records data_start infos \<longleftrightarrow>
     header_ok m alignment records \<and> take (length (header_bytes m records)) bytes = header_bytes m records \<and>
     length (header_bytes m records) \<le> max_header_bytes \<and>
     next_multiple_of (length (header_bytes m records)) alignment = Some data_start \<and>
     tensor_table records data_start alignment (length bytes) = Inr (map fst records, zip (map fst records) infos) \<and>
     length infos = length records"
    (is "?l \<longleftrightarrow> ?r")
proof
  assume ?l
  note 1 = this [unfolded gguf_layout_def Let_def]
  have pos: "0 < alignment" using 1 metadata_alignment_pos unfolding header_ok_def by blast
  have valid: "list_all2 (record_valid data_start alignment (length bytes)) records infos" "distinct (map fst records)"
    using 1 by blast+
  have "tensor_table records data_start alignment (length bytes) = Inr (map fst records, zip (map fst records) infos)"
    unfolding tensor_table_Inr spans_disjoint [OF valid] using 1 by blast
  moreover have "length infos = length records" using list_all2_lengthD [OF valid(1)] by simp
  ultimately show ?r using 1 next_multiple_of_Some [OF pos] by blast
next
  assume r: ?r
  have pos: "0 < alignment" using r metadata_alignment_pos unfolding header_ok_def by blast
  have ns: "alignment dvd data_start" "length (header_bytes m records) \<le> data_start"
    "data_start < length (header_bytes m records) + alignment" "data_start \<le> u64_max"
    using r next_multiple_of_Some [OF pos, of "length (header_bytes m records)" data_start] by blast+
  have tt: "tensor_table records data_start alignment (length bytes) = Inr (map fst records, zip (map fst records) infos)"
    using r by blast
  then obtain infos' where 1: "list_all2 (record_valid data_start alignment (length bytes)) records infos'"
    "zip (map fst records) infos = zip (map fst records) infos'" "distinct (map fst records)"
    "sorted_wrt (\<lambda>x y. snd (ti_range (snd x)) \<le> fst (ti_range (snd y))) (sorted_spans (zip (map fst records) infos))"
    unfolding tensor_table_Inr by blast
  have "infos' = infos"
    using arg_cong [OF 1(2), of "map snd"] list_all2_lengthD [OF 1(1)] r by simp
  then have valid: "list_all2 (record_valid data_start alignment (length bytes)) records infos" using 1(1) by simp
  note disj = spans_disjoint [OF valid 1(3), THEN iffD1, OF 1(4)]
  show ?l unfolding gguf_layout_def Let_def using r ns valid 1(3) disj by blast
qed

lemma gguf_open_iff:
  "gguf_open fs path = Inr f \<longleftrightarrow>
     (\<exists>node m alignment records data_start infos.
        fs path = Some node \<and> fn_is_file node \<and>
        gguf_layout (fn_bytes node) m alignment records data_start infos \<and>
        f = \<lparr>gf_path = path, gf_length = length (fn_bytes node), gf_modified = fn_modified node,
             gf_metadata = m, gf_order = map fst records, gf_tensors = zip (map fst records) infos\<rparr>)"
    (is "?l \<longleftrightarrow> ?r")
proof
  assume l: ?l
  from open_node [OF l] obtain node where node: "fs path = Some node" "fn_is_file node" by blast
  from gguf_open_node [where fs = fs and path = path, OF node, THEN iffD1, OF l] obtain m alignment records data_start order tensors where
    1: "header_ok m alignment records" "take (length (header_bytes m records)) (fn_bytes node) = header_bytes m records"
      "length (header_bytes m records) \<le> max_header_bytes"
      "next_multiple_of (length (header_bytes m records)) alignment = Some data_start"
      "tensor_table records data_start alignment (length (fn_bytes node)) = Inr (order, tensors)"
      "f = \<lparr>gf_path = path, gf_length = length (fn_bytes node), gf_modified = fn_modified node,
            gf_metadata = m, gf_order = order, gf_tensors = tensors\<rparr>" by blast
  from 1(5) obtain infos where 2: "list_all2 (record_valid data_start alignment (length (fn_bytes node))) records infos"
    "tensors = zip (map fst records) infos" "order = map fst records"
    unfolding tensor_table_Inr by blast
  have "gguf_layout (fn_bytes node) m alignment records data_start infos"
    unfolding layout_iff using 1(1-5) 2(2,3) list_all2_lengthD [OF 2(1)] by simp
  then show ?r using node 1(6) 2(2,3) by blast
next
  assume ?r
  then obtain node m alignment records data_start infos where 1: "fs path = Some node" "fn_is_file node"
    "gguf_layout (fn_bytes node) m alignment records data_start infos"
    "f = \<lparr>gf_path = path, gf_length = length (fn_bytes node), gf_modified = fn_modified node,
         gf_metadata = m, gf_order = map fst records, gf_tensors = zip (map fst records) infos\<rparr>" by blast
  show ?l unfolding gguf_open_node [where fs = fs and path = path, OF 1(1,2)] using 1(3,4) unfolding layout_iff by blast
qed

text \<open>C34: Opening a GGUF file succeeds exactly when the path is a regular file laid out as the format
  says: the encoding of a valid header (magic, version 3, counts, metadata with distinct keys,
  tensor records) within the header limit, a data section that starts at the next multiple of the
  alignment, and tensors whose shapes fit their encodings, inside the file, named once and pairwise
  disjoint. What it returns is that header's metadata and those tensors in file order.
\<close>

theorem gguf_open_accepts_exactly_the_layout:
  "gguf_open fs path = Inr f \<longleftrightarrow>
     (\<exists>node m alignment records data_start infos.
        fs path = Some node \<and> fn_is_file node \<and>
        gguf_layout (fn_bytes node) m alignment records data_start infos \<and>
        f = \<lparr>gf_path = path, gf_length = length (fn_bytes node), gf_modified = fn_modified node,
             gf_metadata = m, gf_order = map fst records, gf_tensors = zip (map fst records) infos\<rparr>)"
  by (rule gguf_open_iff)

section \<open>The tensors of an opened file\<close>

lemma opened_layout:
  assumes "gguf_open fs path = Inr f" "fs path = Some node"
  obtains m alignment records data_start infos where
    "gguf_layout (fn_bytes node) m alignment records data_start infos"
    "f = \<lparr>gf_path = path, gf_length = length (fn_bytes node), gf_modified = fn_modified node,
         gf_metadata = m, gf_order = map fst records, gf_tensors = zip (map fst records) infos\<rparr>"
proof -
  from assms(1) [unfolded gguf_open_iff] obtain node' m alignment records data_start infos where
    "fs path = Some node'" "gguf_layout (fn_bytes node') m alignment records data_start infos"
    "f = \<lparr>gf_path = path, gf_length = length (fn_bytes node'), gf_modified = fn_modified node',
         gf_metadata = m, gf_order = map fst records, gf_tensors = zip (map fst records) infos\<rparr>" by blast
  moreover from this(1) assms(2) have "node' = node" by simp
  ultimately show thesis using that by blast
qed

text \<open>What is known of one tensor.\<close>

definition tensor_placed :: "nat \<Rightarrow> tensor_info \<Rightarrow> bool" where
  "tensor_placed len info \<longleftrightarrow>
     (case ti_encoding info of
        Gguf e \<Rightarrow>
          ti_shape info \<noteq> [] \<and> length (ti_shape info) \<le> max_dims \<and> 0 \<notin> set (ti_shape info) \<and>
          block_elements e dvd last (ti_shape info) \<and>
          snd (ti_range info) = fst (ti_range info) + shape_bytes e (ti_shape info) \<and>
          fst (ti_range info) < snd (ti_range info) \<and> snd (ti_range info) \<le> min len u64_max
      | Plain t \<Rightarrow> False
      | Affine bits group_size \<Rightarrow> False)"

lemma layout_tensors:
  assumes layout: "gguf_layout bytes m alignment records data_start infos"
  shows "distinct (map fst (zip (map fst records) infos))" (is ?dist)
    and "map fst (zip (map fst records) infos) = map fst records" (is ?names)
    and "(name, info) \<in> set (zip (map fst records) infos) \<Longrightarrow>
      tensor_placed (length bytes) info \<and> alignment dvd fst (ti_range info) \<and>
      length (header_bytes m records) \<le> fst (ti_range info)"
    and "(a, info) \<in> set (zip (map fst records) infos) \<Longrightarrow> (b, info') \<in> set (zip (map fst records) infos) \<Longrightarrow> a \<noteq> b \<Longrightarrow>
      disjoint_ranges (ti_range info) (ti_range info')"
proof -
  note l = layout [unfolded gguf_layout_def Let_def]
  have valid: "list_all2 (record_valid data_start alignment (length bytes)) records infos" using l by blast
  note len = list_all2_lengthD [OF valid]
  show names: ?names using len by simp
  show ?dist unfolding names using l by blast
  show "tensor_placed (length bytes) info \<and> alignment dvd fst (ti_range info) \<and>
      length (header_bytes m records) \<le> fst (ti_range info)"
    if mem: "(name, info) \<in> set (zip (map fst records) infos)"
  proof -
    obtain i where i: "i < length infos" "info = infos ! i" using mem len by (auto simp: in_set_zip)
    have v: "record_valid data_start alignment (length bytes) (records ! i) info"
      using list_all2_nthD2 [OF valid i(1)] i(2) by simp
    have "records ! i \<in> set records" using i(1) len by simp
    then have ok: "record_ok (records ! i)" using l unfolding header_ok_def by blast
    obtain name' shape e offset where rec: "records ! i = (name', shape, e, offset)" by (cases "records ! i") auto
    have dims: "length shape \<le> max_dims" using ok by (simp add: record_ok_def rec)
    have "alignment dvd data_start" "length (header_bytes m records) \<le> data_start" using l by blast+
    then have "alignment dvd fst (ti_range info)" "length (header_bytes m records) \<le> fst (ti_range info)"
      using record_valid_range(3,4) [OF v] by auto
    moreover have "tensor_placed (length bytes) info"
      using v dims record_valid_range(1) [OF v] by (auto simp: tensor_placed_def record_valid_def rec)
    ultimately show ?thesis by blast
  qed
  show "disjoint_ranges (ti_range info) (ti_range info')"
    if mem: "(a, info) \<in> set (zip (map fst records) infos)" "(b, info') \<in> set (zip (map fst records) infos)" and ab: "a \<noteq> b"
  proof -
    obtain i j where "i < length infos" "info = infos ! i" "a = fst (records ! i)"
      "j < length infos" "info' = infos ! j" "b = fst (records ! j)"
      using mem len by (auto simp: in_set_zip)
    moreover from this have "i \<noteq> j" using ab by blast
    ultimately show ?thesis using l by blast
  qed
qed

lemma opened_tensors:
  assumes "gguf_open fs path = Inr f" "fs path = Some node"
  shows "gf_path f = path" "gf_length f = length (fn_bytes node)" "gf_modified f = fn_modified node"
    "distinct (map fst (gf_tensors f))" "gf_order f = map fst (gf_tensors f)"
    "(name, info) \<in> set (gf_tensors f) \<Longrightarrow> tensor_placed (length (fn_bytes node)) info"
    "(a, i) \<in> set (gf_tensors f) \<Longrightarrow> (b, j) \<in> set (gf_tensors f) \<Longrightarrow> a \<noteq> b \<Longrightarrow> disjoint_ranges (ti_range i) (ti_range j)"
proof -
  obtain m alignment records data_start infos where
    l: "gguf_layout (fn_bytes node) m alignment records data_start infos"
    and f: "f = \<lparr>gf_path = path, gf_length = length (fn_bytes node), gf_modified = fn_modified node,
         gf_metadata = m, gf_order = map fst records, gf_tensors = zip (map fst records) infos\<rparr>"
    using opened_layout [OF assms] .
  note t = layout_tensors [OF l]
  show "gf_path f = path" "gf_length f = length (fn_bytes node)" "gf_modified f = fn_modified node"
    unfolding f by simp_all
  show "distinct (map fst (gf_tensors f))" "gf_order f = map fst (gf_tensors f)"
    unfolding f using t(1,2) by simp_all
  show "tensor_placed (length (fn_bytes node)) info" if "(name, info) \<in> set (gf_tensors f)"
    using t(3) that unfolding f by simp
  show "disjoint_ranges (ti_range i) (ti_range j)"
    if "(a, i) \<in> set (gf_tensors f)" "(b, j) \<in> set (gf_tensors f)" "a \<noteq> b"
    using t(4) that unfolding f by simp
qed

section \<open>Reading tensors\<close>

text \<open>The path holds a file of the length and modification time that were seen when it was opened.\<close>

definition same_file :: "gguf_file \<Rightarrow> filesystem \<Rightarrow> bool" where
  "same_file f fs \<longleftrightarrow>
     (case fs (gf_path f) of
        None \<Rightarrow> False
      | Some node \<Rightarrow> length (fn_bytes node) = gf_length f \<and> fn_modified node = gf_modified f)"

definition slice :: "range \<Rightarrow> byte list \<Rightarrow> byte list" where
  "slice r bytes = take (snd r - fst r) (drop (fst r) bytes)"

lemma unchanged_Inr: "unchanged fs f = Inr u \<longleftrightarrow> same_file f fs"
  by (simp add: unchanged_def same_file_def split: option.splits)

lemma read_exact_at_Inr:
  "read_exact_at fs path offset len = Inr bytes \<longleftrightarrow>
     (\<exists>node. fs path = Some node \<and> fn_is_file node \<and> offset + len \<le> length (fn_bytes node) \<and> bytes = take len (drop offset (fn_bytes node)))"
  by (auto simp: read_exact_at_def split: option.splits)

lemma length_slice:
  assumes "snd r \<le> length bytes"
  shows "length (slice r bytes) = snd r - fst r"
proof -
  have "snd r - fst r \<le> length bytes - fst r" using assms by (rule diff_le_mono)
  then show ?thesis unfolding slice_def by (simp add: min_absorb2)
qed

lemma slice_nested:
  assumes "fst w \<le> fst r" "fst r \<le> snd r" "snd r \<le> snd w"
  shows "take (snd r - fst r) (drop (fst r - fst w) (slice w bytes)) = slice r bytes"
proof -
  have "snd r - fst r \<le> snd w - fst w - (fst r - fst w)" "fst r - fst w + fst w = fst r" using assms by linarith+
  then show ?thesis by (simp add: slice_def drop_take min_absorb1)
qed

lemma tensor_placed_range:
  "tensor_placed len info \<Longrightarrow> fst (ti_range info) < snd (ti_range info) \<and> snd (ti_range info) \<le> len \<and> snd (ti_range info) \<le> u64_max"
  by (auto simp: tensor_placed_def split: tensor_encoding.splits)

lemma gguf_read_Inr:
  assumes "fst (ti_range info) < snd (ti_range info)" "snd (ti_range info) \<le> u64_max" "map_of (gf_tensors f) name = Some info"
  shows "gguf_read before during after f name budget = Some (Inr bytes) \<longleftrightarrow>
    snd (ti_range info) - fst (ti_range info) \<le> budget \<and> same_file f before \<and> same_file f after \<and>
    (\<exists>node. during (gf_path f) = Some node \<and> fn_is_file node \<and> snd (ti_range info) \<le> length (fn_bytes node) \<and>
       bytes = slice (ti_range info) (fn_bytes node))"
proof -
  have "snd (ti_range info) - fst (ti_range info) \<le> usize_max" using assms(2) by (simp add: machine_defs)
  then show ?thesis
    using assms(1,3) by (auto simp: gguf_read_def checked_sub_def and_then_Inr unchanged_Inr read_exact_at_Inr slice_def)
qed

lemma gguf_read_total:
  assumes "\<forall>info. map_of (gf_tensors f) name = Some info \<longrightarrow> fst (ti_range info) \<le> snd (ti_range info)"
  shows "gguf_read before during after f name budget \<noteq> None"
  using assms by (auto simp: gguf_read_def checked_sub_def split: option.split)

section \<open>GGUF files as a tensor container\<close>

text \<open>A GGUF file on an unchanging file system, read through the functions of the code.\<close>

definition gguf_source :: "(filesystem \<times> gguf_file) tensor_source" where
  "gguf_source =
     \<lparr>src_names = \<lambda>(fs, f). gf_order f,
      src_tensor = \<lambda>(fs, f) name. map_of (gf_tensors f) name,
      src_read = \<lambda>(fs, f) name budget. gguf_read fs fs fs f name budget\<rparr>"

definition gguf_valid :: "filesystem \<times> gguf_file \<Rightarrow> bool" where
  "gguf_valid s \<longleftrightarrow> gguf_open (fst s) (gf_path (snd s)) = Inr (snd s)"

definition gguf_payload :: "filesystem \<times> gguf_file \<Rightarrow> name \<Rightarrow> byte list" where
  "gguf_payload s name =
     (case (fst s (gf_path (snd s)), map_of (gf_tensors (snd s)) name) of
        (Some node, Some info) \<Rightarrow> slice (ti_range info) (fn_bytes node)
      | _ \<Rightarrow> [])"

lemma gguf_valid_facts:
  assumes "gguf_valid (fs, f)"
  obtains node where "fs (gf_path f) = Some node" "fn_is_file node" "same_file f fs"
    "\<And>name info. map_of (gf_tensors f) name = Some info \<Longrightarrow> tensor_placed (length (fn_bytes node)) info"
    "gf_order f = map fst (gf_tensors f)"
proof -
  have o: "gguf_open fs (gf_path f) = Inr f" using assms by (simp add: gguf_valid_def)
  obtain node where node: "fs (gf_path f) = Some node" and regular: "fn_is_file node" using open_node [OF o] by blast
  note t = opened_tensors [OF o node]
  show thesis
  proof (rule that [OF node regular])
    show "same_file f fs" using t(2,3) node by (simp add: same_file_def)
    show "tensor_placed (length (fn_bytes node)) info" if "map_of (gf_tensors f) name = Some info" for name info
      using t(6) map_of_SomeD [OF that] by blast
    show "gf_order f = map fst (gf_tensors f)" by (rule t(5))
  qed
qed

interpretation gguf_container: tensor_container gguf_source gguf_valid gguf_payload
proof
  fix s :: "filesystem \<times> gguf_file" and name :: name and info :: tensor_info and budget :: nat
  obtain fs f where s: "s = (fs, f)" by (cases s)
  show "name \<in> set (src_names gguf_source s) \<longleftrightarrow> src_tensor gguf_source s name \<noteq> None" if v: "gguf_valid s"
  proof -
    obtain node where "gf_order f = map fst (gf_tensors f)" using gguf_valid_facts [OF v [unfolded s]] by metis
    then show ?thesis by (simp add: gguf_source_def s dom_map_of_conv_image_fst [symmetric] domIff)
  qed
  show "fst (ti_range info) + length (gguf_payload s name) = snd (ti_range info)"
    if v: "gguf_valid s" and t: "src_tensor gguf_source s name = Some info"
  proof -
    have m: "map_of (gf_tensors f) name = Some info" using t by (simp add: gguf_source_def s)
    obtain node where node: "fs (gf_path f) = Some node" and p: "tensor_placed (length (fn_bytes node)) info"
      using gguf_valid_facts [OF v [unfolded s]] m by metis
    note r = tensor_placed_range [OF p]
    have "length (gguf_payload s name) = snd (ti_range info) - fst (ti_range info)"
      using r node m length_slice [of "ti_range info" "fn_bytes node"] by (simp add: gguf_payload_def s)
    then show ?thesis using r by linarith
  qed
  show "src_read gguf_source s name budget =
      Some (if length (gguf_payload s name) \<le> budget then Inr (gguf_payload s name)
            else Inl (TooLarge name (length (gguf_payload s name)) budget))"
    if v: "gguf_valid s" and t: "src_tensor gguf_source s name = Some info"
  proof -
    have m: "map_of (gf_tensors f) name = Some info" using t by (simp add: gguf_source_def s)
    obtain node where node: "fs (gf_path f) = Some node" and regular: "fn_is_file node" and same: "same_file f fs"
      and p: "tensor_placed (length (fn_bytes node)) info"
      using gguf_valid_facts [OF v [unfolded s]] m by metis
    note r = tensor_placed_range [OF p]
    have payload: "gguf_payload s name = slice (ti_range info) (fn_bytes node)"
      using node m by (simp add: gguf_payload_def s)
    have len: "length (gguf_payload s name) = snd (ti_range info) - fst (ti_range info)"
      using r length_slice [of "ti_range info" "fn_bytes node"] by (simp add: payload)
    show ?thesis
    proof (cases "length (gguf_payload s name) \<le> budget")
      case True
      have "gguf_read fs fs fs f name budget = Some (Inr (gguf_payload s name))"
        by (rule gguf_read_Inr [where info = info, THEN iffD2]) (use r m True len same node regular payload in auto)
      then show ?thesis using True by (simp add: gguf_source_def s)
    next
      case False
      then have "gguf_read fs fs fs f name budget = Some (Inl (TooLarge name (length (gguf_payload s name)) budget))"
        using m r len by (simp add: gguf_read_def checked_sub_def)
      then show ?thesis using False by (simp add: gguf_source_def s)
    qed
  qed
  show "src_read gguf_source s name budget = Some (Inl (MissingTensor name))"
    if "src_tensor gguf_source s name = None"
    using that by (simp add: gguf_source_def s gguf_read_def)
qed

section \<open>Properties\<close>

text \<open>C35: The tensors of an opened file are safe to hand out: they have distinct names, each lies inside
  the file behind the header at an aligned offset, is exactly as long as its shape and encoding
  demand, and no two share a byte.
\<close>

theorem gguf_tensors_are_disjoint_slices:
  assumes "gguf_open fs path = Inr f" "fs path = Some node"
  shows "distinct (gf_order f) \<and> gf_order f = map fst (gf_tensors f) \<and>
    (\<forall>i < length (gf_tensors f).
       tensor_placed (length (fn_bytes node)) (snd (gf_tensors f ! i)) \<and>
       (\<forall>j < length (gf_tensors f). i \<noteq> j \<longrightarrow>
          disjoint_ranges (ti_range (snd (gf_tensors f ! i))) (ti_range (snd (gf_tensors f ! j))))) \<and>
    (\<exists>alignment records r.
       rd_header \<lparr>rd_inner = fn_bytes node, rd_read = 0, rd_path = path\<rparr> = Inr ((gf_metadata f, alignment, records), r) \<and>
       (\<forall>x \<in> set (gf_tensors f). rd_read r \<le> fst (ti_range (snd x)) \<and> alignment dvd fst (ti_range (snd x))))"
proof (intro conjI)
  note t = opened_tensors [OF assms]
  show "gf_order f = map fst (gf_tensors f)" by (rule t(5))
  then show "distinct (gf_order f)" using t(4) by simp
  have mem: "(fst (gf_tensors f ! i), snd (gf_tensors f ! i)) \<in> set (gf_tensors f)" if "i < length (gf_tensors f)" for i
    using that by simp
  have ne: "fst (gf_tensors f ! i) \<noteq> fst (gf_tensors f ! j)"
    if "i < length (gf_tensors f)" "j < length (gf_tensors f)" "i \<noteq> j" for i j
    using t(4) that nth_eq_iff_index_eq [of "map fst (gf_tensors f)" i j] by simp
  show "\<forall>i < length (gf_tensors f). tensor_placed (length (fn_bytes node)) (snd (gf_tensors f ! i)) \<and>
       (\<forall>j < length (gf_tensors f). i \<noteq> j \<longrightarrow>
          disjoint_ranges (ti_range (snd (gf_tensors f ! i))) (ti_range (snd (gf_tensors f ! j))))"
    using t(6) [OF mem] t(7) [OF mem mem ne] by blast
  obtain m alignment records data_start infos where
    l: "gguf_layout (fn_bytes node) m alignment records data_start infos"
    and f: "f = \<lparr>gf_path = path, gf_length = length (fn_bytes node), gf_modified = fn_modified node,
         gf_metadata = m, gf_order = map fst records, gf_tensors = zip (map fst records) infos\<rparr>"
    using opened_layout [OF assms] .
  let ?n = "length (header_bytes m records)"
  let ?r = "\<lparr>rd_inner = drop ?n (fn_bytes node), rd_read = ?n, rd_path = path\<rparr>"
  have h: "take ?n (fn_bytes node) = header_bytes m records" "?n \<le> max_header_bytes" "header_ok m alignment records"
    using l [unfolded gguf_layout_def Let_def] by blast+
  have "fn_bytes node = header_bytes m records @ drop ?n (fn_bytes node)"
    using append_take_drop_id [of ?n "fn_bytes node"] unfolding h(1) by simp
  then have "rd_header \<lparr>rd_inner = fn_bytes node, rd_read = 0, rd_path = path\<rparr> = Inr ((m, alignment, records), ?r)"
    unfolding rd_header_file using h by simp
  then have head: "rd_header \<lparr>rd_inner = fn_bytes node, rd_read = 0, rd_path = path\<rparr> =
      Inr ((gf_metadata f, alignment, records), ?r)" unfolding f by simp
  have behind: "\<forall>x \<in> set (gf_tensors f). rd_read ?r \<le> fst (ti_range (snd x)) \<and> alignment dvd fst (ti_range (snd x))"
  proof
    fix x assume "x \<in> set (gf_tensors f)"
    then have "(fst x, snd x) \<in> set (zip (map fst records) infos)" unfolding f by simp
    from layout_tensors(3) [OF l this] show "rd_read ?r \<le> fst (ti_range (snd x)) \<and> alignment dvd fst (ti_range (snd x))"
      by simp
  qed
  show "\<exists>alignment records r.
       rd_header \<lparr>rd_inner = fn_bytes node, rd_read = 0, rd_path = path\<rparr> = Inr ((gf_metadata f, alignment, records), r) \<and>
       (\<forall>x \<in> set (gf_tensors f). rd_read r \<le> fst (ti_range (snd x)) \<and> alignment dvd fst (ti_range (snd x)))"
    by (rule exI [of _ alignment], rule exI [of _ records], rule exI [of _ ?r], rule conjI [OF head behind])
qed

text \<open>C36: Whatever happens to the file system between the checks, reading a tensor of an opened file
  never panics, and it succeeds exactly when the tensor exists, fits the caller's budget, and the
  file is a regular one that has the length and modification time seen at opening both before and after the read; the
  result is then the tensor's slice of the file that was read.
\<close>

theorem gguf_read_returns_exactly_the_tensor:
  assumes "gguf_open fs path = Inr f" "fs path = Some node"
  shows "\<exists>res. gguf_read before during after f name budget = Some res \<and>
    (\<forall>bytes. res = Inr bytes \<longleftrightarrow>
       (\<exists>info d. map_of (gf_tensors f) name = Some info \<and>
          snd (ti_range info) - fst (ti_range info) \<le> budget \<and> same_file f before \<and> same_file f after \<and>
          during path = Some d \<and> fn_is_file d \<and> snd (ti_range info) \<le> length (fn_bytes d) \<and>
          bytes = slice (ti_range info) (fn_bytes d)))"
proof -
  note t = opened_tensors [OF assms]
  have range: "fst (ti_range info) < snd (ti_range info)" "snd (ti_range info) \<le> u64_max"
    if "map_of (gf_tensors f) name = Some info" for info
    using tensor_placed_range [OF t(6) [OF map_of_SomeD [OF that]]] by simp_all
  obtain res where res: "gguf_read before during after f name budget = Some res"
    using gguf_read_total [of f name before during after budget] range less_imp_le by blast
  have "res = Inr bytes \<longleftrightarrow>
       (\<exists>info d. map_of (gf_tensors f) name = Some info \<and>
          snd (ti_range info) - fst (ti_range info) \<le> budget \<and> same_file f before \<and> same_file f after \<and>
          during path = Some d \<and> fn_is_file d \<and> snd (ti_range info) \<le> length (fn_bytes d) \<and>
          bytes = slice (ti_range info) (fn_bytes d))" for bytes
  proof (cases "map_of (gf_tensors f) name")
    case None
    then have "res = Inl (MissingTensor name)" using res by (simp add: gguf_read_def)
    then show ?thesis using None by simp
  next
    case (Some info)
    have "res = Inr bytes \<longleftrightarrow> gguf_read before during after f name budget = Some (Inr bytes)" using res by simp
    then show ?thesis using gguf_read_Inr [OF range [OF Some] Some] Some t(1) by simp
  qed
  then show ?thesis using res by blast
qed

text \<open>C37: On an unchanged file the specialised \<open>read_range\<close> of GGUF files returns what the trait's
  default does, which reads the whole tensor and copies the range out of it, errors included.
\<close>

theorem gguf_range_read_agrees_with_default:
  assumes "gguf_valid (fs, f)"
  shows "default_read_range gguf_source (fs, f) name r len = Some (gguf_read_range fs fs fs f name r len)"
proof -
  obtain node where node: "fs (gf_path f) = Some node" and regular: "fn_is_file node" and same: "same_file f fs"
    and placed: "\<And>name info. map_of (gf_tensors f) name = Some info \<Longrightarrow> tensor_placed (length (fn_bytes node)) info"
    using gguf_valid_facts [OF assms] by metis
  show ?thesis
  proof (cases "map_of (gf_tensors f) name")
    case None
    then have "src_tensor gguf_source (fs, f) name = None" by (simp add: gguf_source_def)
    then show ?thesis using None by (simp add: gguf_container.range_read [OF assms] gguf_read_range_def)
  next
    case (Some info)
    have src: "src_tensor gguf_source (fs, f) name = Some info" using Some by (simp add: gguf_source_def)
    show ?thesis
    proof (cases "check_range name info r len")
      case (Inl e)
      then show ?thesis using Some by (simp add: gguf_container.range_read [OF assms] src gguf_read_range_def)
    next
      case (Inr u)
      let ?w = "ti_range info"
      have r: "fst ?w \<le> fst r" "fst r \<le> snd r" "snd r \<le> snd ?w" "len = snd r - fst r"
        using Inr by (auto simp: check_range_def Let_def split: if_splits)
      have fits: "fst r + len \<le> length (fn_bytes node)"
        using r tensor_placed_range [OF placed [OF Some]] by linarith
      have "gguf_payload (fs, f) name = slice ?w (fn_bytes node)" using node Some by (simp add: gguf_payload_def)
      then have "take len (drop (fst r - fst ?w) (gguf_payload (fs, f) name)) = take len (drop (fst r) (fn_bytes node))"
        using slice_nested [OF r(1-3), of "fn_bytes node"] unfolding r(4) by (simp add: slice_def)
      moreover have "gguf_read_range fs fs fs f name r len = Inr (take len (drop (fst r) (fn_bytes node)))"
      proof -
        have "unchanged fs f = Inr ()" using same unchanged_Inr [of fs f "()"] by simp
        then show ?thesis using Some Inr node regular fits by (simp add: gguf_read_range_def read_exact_at_def)
      qed
      ultimately show ?thesis using Inr by (simp add: gguf_container.range_read [OF assms] src)
    qed
  qed
qed

section \<open>A sample file\<close>

definition sample_record :: tensor_record where
  "sample_record = (ascii ''w'', [2], F32, 0)"

definition sample_node :: file_node where
  "sample_node =
     \<lparr>fn_bytes = header_bytes [] [sample_record] @ replicate 7 0 @ [1, 2, 3, 4, 5, 6, 7, 8], fn_modified = 9, fn_is_file = True\<rparr>"

definition sample_file :: gguf_file where
  "sample_file =
     \<lparr>gf_path = ''a.gguf'', gf_length = 72, gf_modified = 9, gf_metadata = [], gf_order = [ascii ''w''],
      gf_tensors = [(ascii ''w'', \<lparr>ti_encoding = Gguf F32, ti_shape = [2], ti_range = (64, 72)\<rparr>)]\<rparr>"

lemma sample_header: "header_ok [] 32 [sample_record]" "length (header_bytes [] [sample_record]) = 57"
proof -
  have "metadata_alignment [] = Inr 32"
    by (simp add: metadata_alignment_def metadata_get_def default_alignment_def is_power_of_two_def count_ones.simps)
  then show "header_ok [] 32 [sample_record]"
    by (simp add: header_ok_def kvs_ok_def sample_record_def record_ok_def string_ok_def ascii_def max_dims_def
        max_tensors_def max_string_bytes_def)
  show "length (header_bytes [] [sample_record]) = 57"
    by (simp add: header_bytes_def sample_record_def record_bytes_def gguf_magic_def field_def)
qed

lemma sample_open: "gguf_open [''a.gguf'' \<mapsto> sample_node] ''a.gguf'' = Inr sample_file"
proof -
  have len: "length (fn_bytes sample_node) = 72" using sample_header(2) by (simp add: sample_node_def)
  have blocks: "block_elements F32 = 1" "block_bytes F32 = 4"
    by (simp_all add: block_elements_def block_bytes_def encoding_row_def gguf_table_def Let_def)
  have "record_info 64 32 72 sample_record = Inr \<lparr>ti_encoding = Gguf F32, ti_shape = [2], ti_range = (64, 72)\<rparr>"
    by (simp add: sample_record_def record_info_def blocks checked_mul_u64_def checked_add_u64_def byte_len_def u64_max_def)
  then have "tensor_table [sample_record] 64 32 72 =
      Inr ([ascii ''w''], [(ascii ''w'', \<lparr>ti_encoding = Gguf F32, ti_shape = [2], ti_range = (64, 72)\<rparr>)])"
    by (simp add: tensor_table_def sorted_spans_def sample_record_def)
  moreover have "next_multiple_of 57 32 = Some 64"
    by (simp add: next_multiple_of_def div_ceil_def u64_max_def)
  moreover have "(57 :: nat) \<le> max_header_bytes" by (simp add: max_header_bytes_def)
  moreover have "take (length (header_bytes [] [sample_record])) (fn_bytes sample_node) = header_bytes [] [sample_record]"
    "fn_is_file sample_node" "fn_modified sample_node = 9"
    by (simp_all add: sample_node_def)
  ultimately have "\<exists>m alignment records data_start order tensors.
       header_ok m alignment records \<and> take (length (header_bytes m records)) (fn_bytes sample_node) = header_bytes m records \<and>
       length (header_bytes m records) \<le> max_header_bytes \<and>
       next_multiple_of (length (header_bytes m records)) alignment = Some data_start \<and>
       tensor_table records data_start alignment (length (fn_bytes sample_node)) = Inr (order, tensors) \<and>
       sample_file = \<lparr>gf_path = ''a.gguf'', gf_length = length (fn_bytes sample_node), gf_modified = fn_modified sample_node,
            gf_metadata = m, gf_order = order, gf_tensors = tensors\<rparr>"
    by (intro exI [of _ "[]"] exI [of _ 32] exI [of _ "[sample_record]"] exI [of _ 64] exI [of _ "[ascii ''w'']"]
        exI [of _ "[(ascii ''w'', \<lparr>ti_encoding = Gguf F32, ti_shape = [2], ti_range = (64, 72)\<rparr>)]"] conjI)
      (simp_all only: sample_header len sample_file_def)
  then show ?thesis
    by (subst gguf_open_node [where node = sample_node]) (simp_all add: sample_node_def)
qed

lemma sample_slice: "drop 64 (fn_bytes sample_node) = [1, 2, 3, 4, 5, 6, 7, 8]"
  by (simp add: sample_node_def sample_header(2))

theorem gguf_tensors_are_disjoint_slices_witness:
  "distinct (gf_order sample_file) \<and> tensor_placed 72 (snd (gf_tensors sample_file ! 0))"
proof -
  have "length (fn_bytes sample_node) = 72" "0 < length (gf_tensors sample_file)"
    using sample_header(2) by (simp_all add: sample_node_def sample_file_def)
  then show ?thesis
    using gguf_tensors_are_disjoint_slices [where path = "''a.gguf''", OF sample_open, of sample_node] by auto
qed

theorem gguf_read_returns_exactly_the_tensor_witness:
  "gguf_read [''a.gguf'' \<mapsto> sample_node] [''a.gguf'' \<mapsto> sample_node] [''a.gguf'' \<mapsto> sample_node] sample_file (ascii ''w'') 8 =
     Some (Inr [1, 2, 3, 4, 5, 6, 7, 8])"
proof -
  let ?fs = "[''a.gguf'' \<mapsto> sample_node]"
  have len: "length (fn_bytes sample_node) = 72" "fn_modified sample_node = 9" "fn_is_file sample_node"
    using sample_header(2) by (simp_all add: sample_node_def)
  let ?info = "\<lparr>ti_encoding = Gguf F32, ti_shape = [2], ti_range = (64, 72)\<rparr>"
  have same: "same_file sample_file ?fs" using len by (simp add: same_file_def sample_file_def)
  have info: "map_of (gf_tensors sample_file) (ascii ''w'') = Some ?info" by (simp add: sample_file_def)
  have node: "?fs ''a.gguf'' = Some sample_node" by simp
  have bytes: "slice (ti_range ?info) (fn_bytes sample_node) = [1, 2, 3, 4, 5, 6, 7, 8]"
    unfolding slice_def using sample_slice by simp
  have fits: "snd (ti_range ?info) - fst (ti_range ?info) \<le> 8" "snd (ti_range ?info) \<le> length (fn_bytes sample_node)"
    using len by simp_all
  obtain res where res: "gguf_read ?fs ?fs ?fs sample_file (ascii ''w'') 8 = Some res"
    "\<forall>bytes. res = Inr bytes \<longleftrightarrow>
       (\<exists>info d. map_of (gf_tensors sample_file) (ascii ''w'') = Some info \<and>
          snd (ti_range info) - fst (ti_range info) \<le> 8 \<and> same_file sample_file ?fs \<and> same_file sample_file ?fs \<and>
          ?fs ''a.gguf'' = Some d \<and> fn_is_file d \<and> snd (ti_range info) \<le> length (fn_bytes d) \<and>
          bytes = slice (ti_range info) (fn_bytes d))"
    using gguf_read_returns_exactly_the_tensor [where path = "''a.gguf''" and before = ?fs and during = ?fs and after = ?fs
        and name = "ascii ''w''" and budget = 8, OF sample_open node] by (elim exE conjE)
  have "res = Inr (slice (ti_range ?info) (fn_bytes sample_node))"
    by (rule res(2) [THEN spec, THEN iffD2], intro exI conjI, rule info) (rule fits same node len(3) refl)+
  then show ?thesis unfolding bytes using res(1) by simp
qed

theorem gguf_range_read_agrees_with_default_witness:
  "default_read_range gguf_source ([''a.gguf'' \<mapsto> sample_node], sample_file) (ascii ''w'') (66, 69) 3 = Some (Inr [3, 4, 5])"
proof -
  let ?fs = "[''a.gguf'' \<mapsto> sample_node]"
  have "gguf_valid (?fs, sample_file)" using sample_open by (simp add: gguf_valid_def sample_file_def)
  note agree = gguf_range_read_agrees_with_default [OF this, of "ascii ''w''" "(66, 69)" 3]
  have "drop 66 (fn_bytes sample_node) = drop 2 (drop 64 (fn_bytes sample_node))" by simp
  then have "drop 66 (fn_bytes sample_node) = [3, 4, 5, 6, 7, 8]" unfolding sample_slice by simp
  moreover have "length (fn_bytes sample_node) = 72" "fn_modified sample_node = 9" "fn_is_file sample_node"
    using sample_header(2) by (simp_all add: sample_node_def)
  ultimately have "gguf_read_range ?fs ?fs ?fs sample_file (ascii ''w'') (66, 69) 3 = Inr [3, 4, 5]"
    by (simp add: gguf_read_range_def sample_file_def check_range_def unchanged_def read_exact_at_def)
  then show ?thesis using agree by simp
qed

end
