(* ===== verification/Turn.thy ===== *)
theory Turn
  imports Checkpoint
begin

text \<open>
  One chat turn's token rules (\<open>crates/app/cli/src/chat_turn.rs\<close>, the token picker of
  \<open>chat_generation.rs\<close> and the stop tokens of \<open>crates/core/chat-format/src/lib.rs\<close>): how a token
  is picked from a logit row, classified, recorded, and when the turn ends. Tokens are 32-bit
  words, an \<open>i32\<close> read by \<open>sint\<close>. The arithmetic of \<open>f32\<close> and \<open>f64\<close>, the random samplers and the
  grammar masks are parameters, about which nothing is assumed.
\<close>

section \<open>Floating point\<close>

record 'f f32_ops =
  f32_finite :: "'f \<Rightarrow> bool"
  f32_gt :: "'f \<Rightarrow> 'f \<Rightarrow> bool"
  f32_min :: 'f

record 'd f64_ops =
  f64_of_nat :: "nat \<Rightarrow> 'd"
  f64_half :: 'd
  f64_quarter :: 'd
  f64_add :: "'d \<Rightarrow> 'd \<Rightarrow> 'd"
  f64_sub :: "'d \<Rightarrow> 'd \<Rightarrow> 'd"
  f64_mul :: "'d \<Rightarrow> 'd \<Rightarrow> 'd"
  f64_max :: "'d \<Rightarrow> 'd \<Rightarrow> 'd"
  f64_gt :: "'d \<Rightarrow> 'd \<Rightarrow> bool"
  f64_le :: "'d \<Rightarrow> 'd \<Rightarrow> bool"

section \<open>Stop tokens\<close>

text \<open>A checked \<open>TokenId\<close> keeps the bits of the model's \<open>i32\<close>.\<close>

definition token_id_from_model :: "token \<Rightarrow> string + token" where
  "token_id_from_model t = (if sint t < 0 then Inl ''token ID is negative'' else Inr t)"

record 'a non_empty =
  ne_first :: 'a
  ne_rest :: "'a list"

definition nonempty_from_vec :: "'a list \<Rightarrow> 'a non_empty option" where
  "nonempty_from_vec items = (case items of [] \<Rightarrow> None | x # xs \<Rightarrow> Some \<lparr>ne_first = x, ne_rest = xs\<rparr>)"

definition nonempty_list :: "'a non_empty \<Rightarrow> 'a list" where
  "nonempty_list n = ne_first n # ne_rest n"

datatype token_class = Normal | EndTurn | ToolEnd

record stop_tokens =
  st_end_turn :: "token non_empty"
  st_tool_end :: "token list"

text \<open>
  \<open>StopTokens::from_configs\<close> after the JSON is read: the listed IDs of the three configurations
  in order, without repetition, then the tokenizer's, split by \<open>tool_end\<close>.
\<close>

definition stop_tokens_from :: "token list list \<Rightarrow> token option \<Rightarrow> token list \<Rightarrow> string + stop_tokens" where
  "stop_tokens_from listed eos_token tool_end =
     (let add = (\<lambda>ids t. if t \<in> set ids then ids else ids @ [t]);
          ids = foldl (foldl add) [] listed;
          ids = (case eos_token of None \<Rightarrow> ids | Some t \<Rightarrow> add ids t)
      in case nonempty_from_vec (filter (\<lambda>t. t \<notin> set tool_end) ids) of
           None \<Rightarrow> Inl ''local config.json and generation_config.json list no end-of-turn eos_token_id''
         | Some end_turn \<Rightarrow> Inr \<lparr>st_end_turn = end_turn, st_tool_end = filter (\<lambda>t. t \<in> set tool_end) ids\<rparr>)"

definition stops_classify :: "stop_tokens \<Rightarrow> token \<Rightarrow> token_class" where
  "stops_classify stops t =
     (if t \<in> set (nonempty_list (st_end_turn stops)) then EndTurn
      else if t \<in> set (st_tool_end stops) then ToolEnd
      else Normal)"

definition classify_turn :: "stop_tokens \<Rightarrow> token \<Rightarrow> bool \<Rightarrow> token_class" where
  "classify_turn stops t ignore_eos =
     (case stops_classify stops t of
        EndTurn \<Rightarrow> if ignore_eos then Normal else EndTurn
      | c \<Rightarrow> c)"

definition stops_list :: "stop_tokens \<Rightarrow> token list" where
  "stops_list stops = nonempty_list (st_end_turn stops) @ st_tool_end stops"

text \<open>What a turn reads of \<open>ChatFormat\<close>.\<close>

record chat_format =
  cf_stops :: stop_tokens
  cf_suppress :: "token list"

definition suppresses_tokens :: "chat_format \<Rightarrow> bool" where
  "suppresses_tokens format \<longleftrightarrow> cf_suppress format \<noteq> []"

definition suppress :: "'f f32_ops \<Rightarrow> chat_format \<Rightarrow> 'f list \<Rightarrow> 'f list" where
  "suppress fl format logits =
     foldl (\<lambda>row t. if unat t < length row then row[unat t := f32_min fl] else row) logits (cf_suppress format)"

section \<open>Picking a token\<close>

text \<open>\<open>greedy_token\<close>: the first of the largest logits; any non-finite logit is refused.\<close>

fun greedy_scan :: "'f f32_ops \<Rightarrow> 'f list \<Rightarrow> nat \<Rightarrow> nat \<Rightarrow> 'f list \<Rightarrow> string + nat" where
  "greedy_scan fl logits best index [] = Inr best"
| "greedy_scan fl logits best index (value # rest) =
     (if \<not> f32_finite fl value then Inl ''model produced non-finite vocabulary logits''
      else greedy_scan fl logits (if f32_gt fl value (logits ! best) then index + 1 else best) (index + 1) rest)"

definition greedy_token :: "'f f32_ops \<Rightarrow> 'f list \<Rightarrow> string + token" where
  "greedy_token fl logits =
     (case logits of
        [] \<Rightarrow> Inl ''model produced no vocabulary logits''
      | first # rest \<Rightarrow>
          if \<not> f32_finite fl first then Inl ''model produced non-finite vocabulary logits''
          else and_then (greedy_scan fl logits 0 0 rest) (\<lambda>best.
            if best < 2 ^ 31 then Inr (word_of_nat best)
            else Inl ''model vocabulary token ID does not fit server token IDs''))"

text \<open>The policy one turn used. \<open>'d\<close> is \<open>f64\<close>.\<close>

record 'd applied_sampling =
  as_temperature :: 'd
  as_top_p :: 'd
  as_top_k :: "nat option"
  as_seed :: "nat option"
  as_sampler :: "string option"
  as_defaults_applied :: "string list"

record 'd sampling_request =
  sr_temperature :: "'d option"
  sr_top_p :: "'d option"
  sr_top_k :: "nat option"
  sr_seed :: "nat option"
  sr_sampler :: "string option"

record 'd sampling_defaults =
  sd_temperature :: "'d option"
  sd_top_p :: "'d option"
  sd_top_k :: "nat option"

text \<open>\<open>fresh_seed\<close> and the default sampler's name are arguments.\<close>

definition sampling_resolve ::
  "'d f64_ops \<Rightarrow> nat \<Rightarrow> string \<Rightarrow> 'd sampling_request \<Rightarrow> 'd sampling_defaults \<Rightarrow> bool \<Rightarrow> 'd applied_sampling" where
  "sampling_resolve fl fresh default_sampler req defaults constrained =
     (let (temperature, applied) =
            (case sr_temperature req of
               Some t \<Rightarrow> (t, [])
             | None \<Rightarrow> (case sd_temperature defaults of
                 None \<Rightarrow> (f64_of_nat fl 0, [])
               | Some t \<Rightarrow> (t, [''temperature''])))
      in if f64_le fl temperature (f64_of_nat fl 0) then
           \<lparr>as_temperature = f64_of_nat fl 0, as_top_p = f64_of_nat fl 1, as_top_k = None, as_seed = None,
            as_sampler = None, as_defaults_applied = applied\<rparr>
         else
           let (top_p, applied) =
                 (case (sr_top_p req, sd_top_p defaults) of
                    (Some v, _) \<Rightarrow> (v, applied)
                  | (None, Some v) \<Rightarrow> if \<not> constrained then (v, applied @ [''top_p'']) else (f64_of_nat fl 1, applied)
                  | (None, None) \<Rightarrow> (f64_of_nat fl 1, applied));
               (top_k, applied) =
                 (case (sr_top_k req, sd_top_k defaults) of
                    (Some v, _) \<Rightarrow> (Some v, applied)
                  | (None, Some v) \<Rightarrow> if \<not> constrained then (Some v, applied @ [''top_k'']) else (None, applied)
                  | (None, None) \<Rightarrow> (None, applied))
           in \<lparr>as_temperature = temperature, as_top_p = top_p, as_top_k = top_k,
               as_seed = Some (case sr_seed req of None \<Rightarrow> fresh | Some s \<Rightarrow> s),
               as_sampler = Some (case sr_sampler req of None \<Rightarrow> default_sampler | Some s \<Rightarrow> s),
               as_defaults_applied = applied\<rparr>)"

text \<open>
  The random samplers and grammar runs, which compute in floating point: \<open>'s\<close> is the sampler's
  state, \<open>'c\<close> the grammar run's, \<open>'k\<close> and \<open>'l\<close> what the device reads back of a row (its top
  candidates, its listed race rows), \<open>'y\<close> a race key.
\<close>

record ('s, 'c, 'f, 'd, 'k, 'l, 'y) sampler_ops =
  so_nucleus :: "'s \<Rightarrow> 'f list \<Rightarrow> 'd \<Rightarrow> nat option \<Rightarrow> (string + token) \<times> 's"
  so_race_ahead :: "'s \<Rightarrow> nat \<Rightarrow> ('y \<times> nat) option"
  so_uniform_ahead :: "'s \<Rightarrow> nat \<Rightarrow> 'd option"
  so_settle_top_k :: "'s \<Rightarrow> 'k \<Rightarrow> 'd \<Rightarrow> nat \<Rightarrow> (string + token option) \<times> 's"
  so_sample_top_k :: "'s \<Rightarrow> 'k \<Rightarrow> 'd \<Rightarrow> nat \<Rightarrow> (string + token option) \<times> 's"
  so_accept_certified :: "'s \<Rightarrow> token \<Rightarrow> (string + token option) \<times> 's"
  so_settle_constrained :: "'s \<Rightarrow> 'c \<Rightarrow> 'l \<Rightarrow> (string + token option) \<times> 's \<times> 'c"
  so_constrained :: "'s \<Rightarrow> 'c \<Rightarrow> 'f list \<Rightarrow> (string + token) \<times> 's \<times> 'c"
  co_sample :: "'c \<Rightarrow> 'f list \<Rightarrow> (string + token) \<times> 'c"
  co_complete :: "'c \<Rightarrow> bool"
  co_checks_whole :: "'c \<Rightarrow> bool"
  co_validate :: "'c \<Rightarrow> string + unit"

record ('s, 'c, 'd) token_picker =
  tp_policy :: "('s \<times> 'd \<times> nat option) option"
  tp_constraint :: "'c option"
  tp_applied :: "'d applied_sampling"

datatype ('d, 'y) selection =
    Greedy_sel
  | Top_k_nucleus 'd 'd nat "'d list"
  | Race_sel 'd 'd "nat option" 'y "nat list" nat

record ('d, 'y) pick_rule =
  pr_selection :: "('d, 'y) selection"
  pr_candidates :: nat

definition race_listed_rows :: nat where
  "race_listed_rows = 8"

definition top_k_spare_candidates :: nat where
  "top_k_spare_candidates = 8"

definition top_k_window :: "nat \<Rightarrow> nat \<Rightarrow> nat" where
  "top_k_window top_k vocabulary_size =
     max (min (top_k + top_k_spare_candidates) (vocabulary_size - 1)) (top_k + 1)"

definition picker_rule ::
  "'d f64_ops \<Rightarrow> ('s, 'c, 'f, 'd, 'k, 'l, 'y) sampler_ops \<Rightarrow> ('s, 'c, 'd) token_picker \<Rightarrow>
   nat \<Rightarrow> nat \<Rightarrow> nat option \<Rightarrow> nat \<Rightarrow> ('d, 'y) pick_rule option" where
  "picker_rule fl so p ahead rows top_logprobs vocabulary_size =
     (if tp_constraint p \<noteq> None then
        (case (case tp_policy p of None \<Rightarrow> None | Some (s, _) \<Rightarrow> so_race_ahead so s ahead) of
           None \<Rightarrow> None
         | Some (key, position) \<Rightarrow>
             if top_logprobs = None \<and> rows = 1 then
               Some \<lparr>pr_selection = Race_sel (as_temperature (tp_applied p)) (f64_of_nat fl 1) None key [position] race_listed_rows,
                     pr_candidates = 0\<rparr>
             else None)
      else
        let receipts = (case top_logprobs of None \<Rightarrow> 0 | Some n \<Rightarrow> n + 9);
            rule =
              (case tp_policy p of
                 None \<Rightarrow> Some \<lparr>pr_selection = Greedy_sel, pr_candidates = receipts\<rparr>
               | Some (s, top_p, top_k) \<Rightarrow>
                   (case so_race_ahead so s ahead of
                      Some (key, position) \<Rightarrow>
                        if rows \<noteq> 1 then None
                        else if top_k = None \<and> f64_gt fl (f64_of_nat fl 1) top_p then None
                        else Some \<lparr>pr_selection = Race_sel (as_temperature (tp_applied p)) top_p top_k key [position] 0,
                                   pr_candidates = max receipts (case top_k of None \<Rightarrow> 0 | Some k \<Rightarrow> top_k_window k vocabulary_size)\<rparr>
                    | None \<Rightarrow>
                        (case top_k of
                           None \<Rightarrow> None
                         | Some k \<Rightarrow>
                             map_option (\<lambda>uniforms.
                               \<lparr>pr_selection = Top_k_nucleus (as_temperature (tp_applied p)) top_p k uniforms,
                                pr_candidates = max receipts (top_k_window k vocabulary_size)\<rparr>)
                               (opt_map (so_uniform_ahead so s) [ahead..<ahead + rows]))))
        in case rule of
             None \<Rightarrow> None
           | Some r \<Rightarrow> if pr_candidates r \<ge> vocabulary_size then None else Some r)"

text \<open>Writing the sampler's state back into a picker.\<close>

definition with_policy :: "('s, 'c, 'd) token_picker \<Rightarrow> 's \<Rightarrow> 'd \<Rightarrow> nat option \<Rightarrow> ('s, 'c, 'd) token_picker" where
  "with_policy p s top_p top_k = p\<lparr>tp_policy := Some (s, top_p, top_k)\<rparr>"

definition pick_from_candidates ::
  "('s, 'c, 'f, 'd, 'k, 'l, 'y) sampler_ops \<Rightarrow> ('s, 'c, 'd) token_picker \<Rightarrow> token \<Rightarrow> 'k option \<Rightarrow> bool \<Rightarrow> 'l option \<Rightarrow>
   (string + token option) \<times> ('s, 'c, 'd) token_picker" where
  "pick_from_candidates so p gpu_token candidates certified listed =
     (case tp_constraint p of
        Some c \<Rightarrow>
          (case (tp_policy p, listed) of
             (Some (s, top_p, top_k), Some l) \<Rightarrow>
               (case so_settle_constrained so s c l of
                  (res, s, c) \<Rightarrow> (res, with_policy (p\<lparr>tp_constraint := Some c\<rparr>) s top_p top_k))
           | _ \<Rightarrow> (Inr None, p))
      | None \<Rightarrow>
          (case tp_policy p of
             None \<Rightarrow> (Inr (Some gpu_token), p)
           | Some (s, top_p, top_k) \<Rightarrow>
               (case (top_k, candidates) of
                  (Some k, Some cs) \<Rightarrow>
                    (case (if so_race_ahead so s 0 \<noteq> None then so_settle_top_k so s cs top_p k
                           else so_sample_top_k so s cs top_p k) of
                       (res, s) \<Rightarrow> (res, with_policy p s top_p top_k))
                | _ \<Rightarrow>
                    if top_k = None \<and> certified then
                      (case so_accept_certified so s gpu_token of (res, s) \<Rightarrow> (res, with_policy p s top_p top_k))
                    else (Inr None, p))))"

definition grammar_complete :: "('s, 'c, 'f, 'd, 'k, 'l, 'y) sampler_ops \<Rightarrow> ('s, 'c, 'd) token_picker \<Rightarrow> bool" where
  "grammar_complete so p = (case tp_constraint p of None \<Rightarrow> False | Some c \<Rightarrow> co_complete so c)"

definition picker_pick ::
  "'f f32_ops \<Rightarrow> ('s, 'c, 'f, 'd, 'k, 'l, 'y) sampler_ops \<Rightarrow> ('s, 'c, 'd) token_picker \<Rightarrow> 'f list \<Rightarrow>
   (string + (token \<times> bool)) \<times> ('s, 'c, 'd) token_picker" where
  "picker_pick fl so p logits =
     (case tp_constraint p of
        Some c \<Rightarrow>
          (case tp_policy p of
             None \<Rightarrow>
               (case co_sample so c logits of
                  (res, c) \<Rightarrow> (map_sum id (\<lambda>t. (t, co_complete so c)) res, p\<lparr>tp_constraint := Some c\<rparr>))
           | Some (s, top_p, top_k) \<Rightarrow>
               (case so_constrained so s c logits of
                  (res, s, c) \<Rightarrow>
                    (map_sum id (\<lambda>t. (t, co_complete so c)) res,
                     with_policy (p\<lparr>tp_constraint := Some c\<rparr>) s top_p top_k)))
      | None \<Rightarrow>
          (case tp_policy p of
             None \<Rightarrow> (map_sum id (\<lambda>t. (t, False)) (greedy_token fl logits), p)
           | Some (s, top_p, top_k) \<Rightarrow>
               (case so_nucleus so s logits top_p top_k of
                  (res, s) \<Rightarrow> (map_sum id (\<lambda>t. (t, False)) res, with_policy p s top_p top_k))))"

definition check_complete_output ::
  "('s, 'c, 'f, 'd, 'k, 'l, 'y) sampler_ops \<Rightarrow> ('s, 'c, 'd) token_picker \<Rightarrow> string + unit" where
  "check_complete_output so p =
     (case tp_constraint p of
        None \<Rightarrow> Inr ()
      | Some c \<Rightarrow> if co_complete so c \<and> co_checks_whole so c then co_validate so c else Inr ())"

section \<open>The token loop\<close>

datatype finish_reason = Eos | Length_limit

datatype turn_step = Continue | Stop finish_reason

record accepted =
  ac_token :: token
  ac_visible :: bool
  ac_step :: turn_step

text \<open>\<open>'r\<close> is a log probability receipt.\<close>

record ('s, 'c, 'd, 'r) turn_loop =
  tl_picker :: "('s, 'c, 'd) token_picker"
  tl_top_logprobs :: "nat option"
  tl_ignore_eos :: bool
  tl_vocabulary_size :: nat
  tl_max_tokens :: nat
  tl_generated :: "token list"
  tl_logprobs :: "'r list"

record ('d, 'r) turn_output =
  to_generated :: "token list"
  to_logprobs :: "'r list"
  to_sampling :: "'d applied_sampling"

text \<open>
  What a turn reads besides its own state: arithmetic, samplers, the checkpoint's format, and the
  log probabilities of a token from a whole row or from a row's candidates (\<open>token_logprob\<close>,
  \<open>candidate_logprob\<close>).
\<close>

record ('s, 'c, 'f, 'd, 'k, 'l, 'y, 'r) turn_env =
  te_f32 :: "'f f32_ops"
  te_f64 :: "'d f64_ops"
  te_sampler :: "('s, 'c, 'f, 'd, 'k, 'l, 'y) sampler_ops"
  te_format :: chat_format
  te_token_logprob :: "'f list \<Rightarrow> token \<Rightarrow> nat \<Rightarrow> string + 'r"
  te_candidate_logprob :: "'k \<Rightarrow> token \<Rightarrow> nat \<Rightarrow> string + 'r option"

definition turn_loop_new ::
  "('s, 'c, 'd) token_picker \<Rightarrow> nat option \<Rightarrow> bool \<Rightarrow> nat \<Rightarrow> nat \<Rightarrow> ('s, 'c, 'd, 'r) turn_loop" where
  "turn_loop_new picker top_logprobs ignore_eos vocabulary_size max_tokens =
     \<lparr>tl_picker = picker, tl_top_logprobs = top_logprobs, tl_ignore_eos = ignore_eos,
      tl_vocabulary_size = vocabulary_size, tl_max_tokens = max_tokens, tl_generated = [], tl_logprobs = []\<rparr>"

text \<open>The output limit of a turn; \<open>None\<close> fills the remaining context. Errors carry the numbers of their messages.\<close>

datatype budget_error = No_room nat nat | Budget_overflow | Over_context nat nat nat nat

definition output_budget :: "nat \<Rightarrow> nat option \<Rightarrow> nat \<Rightarrow> budget_error + nat" where
  "output_budget context_limit requested prompt_tokens =
     (let max_tokens = (case requested of Some n \<Rightarrow> n
                        | None \<Rightarrow> let room = context_limit - prompt_tokens in if room \<le> u32_max then room else u32_max)
      in if max_tokens = 0 then Inl (No_room prompt_tokens context_limit)
         else if prompt_tokens + max_tokens > usize_max then Inl Budget_overflow
         else if prompt_tokens + max_tokens > context_limit then Inl (Over_context context_limit prompt_tokens max_tokens (prompt_tokens + max_tokens))
         else Inr max_tokens)"

definition gpu_rule_rows ::
  "('s, 'c, 'f, 'd, 'k, 'l, 'y, 'r) turn_env \<Rightarrow> ('s, 'c, 'd, 'r) turn_loop \<Rightarrow> nat \<Rightarrow> nat \<Rightarrow> ('d, 'y) pick_rule option" where
  "gpu_rule_rows te t ahead rows =
     (if suppresses_tokens (te_format te) then None
      else picker_rule (te_f64 te) (te_sampler te) (tl_picker t) ahead rows (tl_top_logprobs t) (tl_vocabulary_size t))"

definition gpu_rule ::
  "('s, 'c, 'f, 'd, 'k, 'l, 'y, 'r) turn_env \<Rightarrow> ('s, 'c, 'd, 'r) turn_loop \<Rightarrow> nat \<Rightarrow> ('d, 'y) pick_rule option" where
  "gpu_rule te t ahead = gpu_rule_rows te t ahead 1"

definition verifies_with_gpu_greedy ::
  "('s, 'c, 'f, 'd, 'k, 'l, 'y, 'r) turn_env \<Rightarrow> ('s, 'c, 'd, 'r) turn_loop \<Rightarrow> bool" where
  "verifies_with_gpu_greedy te t \<longleftrightarrow>
     (case gpu_rule te t 0 of
        None \<Rightarrow> False
      | Some rule \<Rightarrow>
          (case pr_selection rule of
             Greedy_sel \<Rightarrow> pr_candidates rule = 0
           | Top_k_nucleus temperature top_p top_k uniforms \<Rightarrow> False
           | Race_sel temperature top_p top_k key positions listed \<Rightarrow> False))"

definition receipt_wanted ::
  "('s, 'c, 'f, 'd, 'k, 'l, 'y, 'r) turn_env \<Rightarrow> ('s, 'c, 'd, 'r) turn_loop \<Rightarrow> token \<Rightarrow> string + nat option" where
  "receipt_wanted te t token =
     and_then (token_id_from_model token) (\<lambda>i.
       Inr (if classify_turn (cf_stops (te_format te)) i (tl_ignore_eos t) = Normal then tl_top_logprobs t else None))"

definition turn_accept ::
  "('s, 'c, 'f, 'd, 'k, 'l, 'y, 'r) turn_env \<Rightarrow> ('s, 'c, 'd, 'r) turn_loop \<Rightarrow> token \<Rightarrow> bool \<Rightarrow> 'r option \<Rightarrow>
   (string + accepted) \<times> ('s, 'c, 'd, 'r) turn_loop" where
  "turn_accept te t token complete receipt =
     (case token_id_from_model token of
        Inl e \<Rightarrow> (Inl e, t)
      | Inr i \<Rightarrow>
          let class = classify_turn (cf_stops (te_format te)) i (tl_ignore_eos t)
          in if class = Normal \<and> tl_top_logprobs t \<noteq> None \<and> receipt = None
             then (Inl ''a log probability was requested but not computed'', t)
             else
               let t = (case receipt of
                          Some r \<Rightarrow> if class = Normal \<and> tl_top_logprobs t \<noteq> None
                                    then t\<lparr>tl_logprobs := tl_logprobs t @ [r]\<rparr> else t
                        | None \<Rightarrow> t);
                   t = t\<lparr>tl_generated := tl_generated t @ [token]\<rparr>;
                   step = (if class \<noteq> Normal then Stop Eos
                           else if complete then Stop Eos
                           else if length (tl_generated t) \<ge> tl_max_tokens t then Stop Length_limit
                           else Continue)
               in (Inr \<lparr>ac_token = token, ac_visible = (class = Normal), ac_step = step\<rparr>, t))"

text \<open>\<open>pick\<close>: from the whole row, after suppression.\<close>

definition turn_pick ::
  "('s, 'c, 'f, 'd, 'k, 'l, 'y, 'r) turn_env \<Rightarrow> ('s, 'c, 'd, 'r) turn_loop \<Rightarrow> 'f list \<Rightarrow>
   (string + accepted) \<times> ('s, 'c, 'd, 'r) turn_loop" where
  "turn_pick te t logits =
     (let logits = suppress (te_f32 te) (te_format te) logits
      in case picker_pick (te_f32 te) (te_sampler te) (tl_picker t) logits of
           (res, picker) \<Rightarrow>
             let t = t\<lparr>tl_picker := picker\<rparr>
             in case and_then res (\<lambda>(token, complete).
                  and_then (receipt_wanted te t token) (\<lambda>wanted.
                  and_then (case wanted of
                              None \<Rightarrow> Inr None
                            | Some n \<Rightarrow> map_sum id Some (te_token_logprob te logits token n)) (\<lambda>receipt.
                  Inr (token, complete, receipt)))) of
                  Inl e \<Rightarrow> (Inl e, t)
                | Inr (token, complete, receipt) \<Rightarrow> turn_accept te t token complete receipt)"

definition accept_gpu_greedy ::
  "('s, 'c, 'f, 'd, 'k, 'l, 'y, 'r) turn_env \<Rightarrow> ('s, 'c, 'd, 'r) turn_loop \<Rightarrow> token \<Rightarrow>
   (string + accepted) \<times> ('s, 'c, 'd, 'r) turn_loop" where
  "accept_gpu_greedy te t gpu_token =
     (case pick_from_candidates (te_sampler te) (tl_picker t) gpu_token None False None of
        (res, picker) \<Rightarrow>
          let t = t\<lparr>tl_picker := picker\<rparr>
          in case and_then res (ok_or ''only a greedy turn can accept a GPU pick without candidates'') of
               Inl e \<Rightarrow> (Inl e, t)
             | Inr token \<Rightarrow> turn_accept te t token False None)"

definition turn_finish ::
  "('s, 'c, 'f, 'd, 'k, 'l, 'y, 'r) turn_env \<Rightarrow> ('s, 'c, 'd, 'r) turn_loop \<Rightarrow> string + ('d, 'r) turn_output" where
  "turn_finish te t =
     and_then (check_complete_output (te_sampler te) (tl_picker t)) (\<lambda>_.
       Inr \<lparr>to_generated = tl_generated t, to_logprobs = tl_logprobs t, to_sampling = tp_applied (tl_picker t)\<rparr>)"

text \<open>
  What the device holds of a step's picks (\<open>Qwen3TokenPicks\<close>): each row's token and candidates,
  its whole logits, and how a race was certified.
\<close>

record ('f, 'k, 'l) token_picks =
  tk_read :: "string + token list \<times> 'k list option"
  tk_full_row :: "nat \<Rightarrow> string + 'f list"
  tk_near_counts :: "string + nat list option"
  tk_listed :: "string + 'l list option"

text \<open>
  The receipt of a settled token: none when none is wanted, from the candidates when they decide
  it, else from the whole row, which is read when it was not yet. The last component says whether
  the whole row has been read.
\<close>

definition settle_receipt ::
  "('s, 'c, 'f, 'd, 'k, 'l, 'y, 'r) turn_env \<Rightarrow> ('f, 'k, 'l) token_picks \<Rightarrow> nat \<Rightarrow> 'k option \<Rightarrow> token \<Rightarrow>
   'f list option \<Rightarrow> nat option \<Rightarrow> string + ('r option \<times> bool)" where
  "settle_receipt te picks row candidates token full wanted =
     (case wanted of
        None \<Rightarrow> Inr (None, full \<noteq> None)
      | Some n \<Rightarrow>
          and_then (case candidates of Some cs \<Rightarrow> te_candidate_logprob te cs token n | None \<Rightarrow> Inr None) (\<lambda>settled.
          case settled of
            Some receipt \<Rightarrow> Inr (Some receipt, full \<noteq> None)
          | None \<Rightarrow>
              and_then (case full of Some whole \<Rightarrow> Inr whole | None \<Rightarrow> tk_full_row picks row) (\<lambda>whole.
              and_then (te_token_logprob te whole token n) (\<lambda>receipt. Inr (Some receipt, True)))))"

definition settle_row ::
  "('s, 'c, 'f, 'd, 'k, 'l, 'y, 'r) turn_env \<Rightarrow> ('s, 'c, 'd, 'r) turn_loop \<Rightarrow> ('f, 'k, 'l) token_picks \<Rightarrow> nat \<Rightarrow>
   token \<Rightarrow> 'k option \<Rightarrow> (string + (accepted \<times> bool)) \<times> ('s, 'c, 'd, 'r) turn_loop" where
  "settle_row te t picks row gpu_token candidates =
     (case and_then (tk_near_counts picks) (\<lambda>near. and_then (tk_listed picks) (\<lambda>listed. Inr (near, listed))) of
        Inl e \<Rightarrow> (Inl e, t)
      | Inr (near, listed) \<Rightarrow>
          let certified = (case near of None \<Rightarrow> False | Some counts \<Rightarrow> list_get counts row = Some 1);
              listed = (case listed of None \<Rightarrow> None | Some rows \<Rightarrow> list_get rows row)
          in case pick_from_candidates (te_sampler te) (tl_picker t) gpu_token candidates certified listed of
               (res, picker) \<Rightarrow>
                 let t = t\<lparr>tl_picker := picker\<rparr>
                 in case (case res of
                            Inl e \<Rightarrow> (Inl e, picker)
                          | Inr (Some token) \<Rightarrow> (Inr (token, None), picker)
                          | Inr None \<Rightarrow>
                              (case tk_full_row picks row of
                                 Inl e \<Rightarrow> (Inl e, picker)
                               | Inr whole \<Rightarrow>
                                   (case picker_pick (te_f32 te) (te_sampler te) picker whole of
                                      (res, picker) \<Rightarrow> (map_sum id (\<lambda>(token, complete). (token, Some whole)) res, picker)))) of
                      (Inl e, picker) \<Rightarrow> (Inl e, t\<lparr>tl_picker := picker\<rparr>)
                    | (Inr (token, full), picker) \<Rightarrow>
                        let t = t\<lparr>tl_picker := picker\<rparr>
                        in case and_then (receipt_wanted te t token) (settle_receipt te picks row candidates token full) of
                             Inl e \<Rightarrow> (Inl e, t)
                           | Inr (receipt, read_whole) \<Rightarrow>
                               (case turn_accept te t token (grammar_complete (te_sampler te) (tl_picker t)) receipt of
                                  (Inl e, t) \<Rightarrow> (Inl e, t)
                                | (Inr a, t) \<Rightarrow> (Inr (a, read_whole), t)))"

definition turn_settle ::
  "('s, 'c, 'f, 'd, 'k, 'l, 'y, 'r) turn_env \<Rightarrow> ('s, 'c, 'd, 'r) turn_loop \<Rightarrow> ('f, 'k, 'l) token_picks \<Rightarrow>
   (string + (accepted \<times> token)) \<times> ('s, 'c, 'd, 'r) turn_loop" where
  "turn_settle te t picks =
     (case tk_read picks of
        Inl e \<Rightarrow> (Inl e, t)
      | Inr (tokens, candidates) \<Rightarrow>
          (case tokens of
             [gpu_token] \<Rightarrow>
               (case settle_row te t picks 0 gpu_token
                       (case candidates of None \<Rightarrow> None | Some rows \<Rightarrow> list_get rows 0) of
                  (Inl e, t) \<Rightarrow> (Inl e, t)
                | (Inr (a, read_whole), t) \<Rightarrow> (Inr (a, gpu_token), t))
           | _ \<Rightarrow> (Inl ''a decode step picks one token'', t)))"

section \<open>What a turn does\<close>

text \<open>Accepting a token changes only what is recorded.\<close>

lemma turn_accept_picker: "turn_accept te t token complete receipt = (res, t') \<Longrightarrow> tl_picker t' = tl_picker t"
  by (auto simp: turn_accept_def Let_def split: sum.splits if_splits option.splits)

lemma turn_accept_frame:
  "turn_accept te t token complete receipt = (res, t') \<Longrightarrow>
   tl_top_logprobs t' = tl_top_logprobs t \<and> tl_ignore_eos t' = tl_ignore_eos t \<and>
   tl_vocabulary_size t' = tl_vocabulary_size t \<and> tl_max_tokens t' = tl_max_tokens t"
  by (auto simp: turn_accept_def Let_def split: sum.splits if_splits option.splits)

lemma turn_accept_token:
  "turn_accept te t token complete receipt = (Inr a, t') \<Longrightarrow>
   ac_token a = token \<and> tl_generated t' = tl_generated t @ [token] \<and>
   (ac_step a = Continue \<longrightarrow> length (tl_generated t') < tl_max_tokens t')"
  by (auto simp: turn_accept_def Let_def not_le split: sum.splits if_splits option.splits)

lemma turn_accept_error: "turn_accept te t token complete receipt = (Inl e, t') \<Longrightarrow> t' = t"
  by (auto simp: turn_accept_def Let_def split: sum.splits if_splits option.splits)

text \<open>A turn whose rule is the plain greedy one has no grammar, no sampler, no receipts and no mask.\<close>

lemma greedy_turn:
  assumes "verifies_with_gpu_greedy te t"
  shows "\<not> suppresses_tokens (te_format te) \<and> tp_constraint (tl_picker t) = None \<and> tp_policy (tl_picker t) = None \<and>
    tl_top_logprobs t = None \<and> 0 < tl_vocabulary_size t"
  using assms
  by (auto simp: verifies_with_gpu_greedy_def gpu_rule_def gpu_rule_rows_def picker_rule_def Let_def
      split: option.splits if_splits prod.splits)

lemma greedy_turn_iff:
  "verifies_with_gpu_greedy te t \<longleftrightarrow>
     \<not> suppresses_tokens (te_format te) \<and> tp_constraint (tl_picker t) = None \<and> tp_policy (tl_picker t) = None \<and>
     tl_top_logprobs t = None \<and> 0 < tl_vocabulary_size t"
proof
  assume "\<not> suppresses_tokens (te_format te) \<and> tp_constraint (tl_picker t) = None \<and> tp_policy (tl_picker t) = None \<and>
     tl_top_logprobs t = None \<and> 0 < tl_vocabulary_size t"
  then show "verifies_with_gpu_greedy te t"
    by (simp add: verifies_with_gpu_greedy_def gpu_rule_def gpu_rule_rows_def picker_rule_def)
qed (rule greedy_turn)

lemma suppress_none: "\<not> suppresses_tokens format \<Longrightarrow> suppress fl format logits = logits"
  by (simp add: suppresses_tokens_def suppress_def)

lemma greedy_picks_agree:
  assumes "verifies_with_gpu_greedy te t" "greedy_token (te_f32 te) logits = Inr token"
  shows "turn_pick te t logits = accept_gpu_greedy te t token"
proof -
  note g = greedy_turn [OF assms(1)]
  have picker: "t\<lparr>tl_picker := tl_picker t\<rparr> = t" by simp
  have "tl_top_logprobs t = None" using g by blast
  then have wanted: "receipt_wanted te t token = and_then (token_id_from_model token) (\<lambda>i. Inr None)"
    by (simp add: receipt_wanted_def cong: if_cong)
  show ?thesis
  proof (cases "token_id_from_model token")
    case (Inl e)
    then show ?thesis
      using g assms(2) wanted
      by (simp add: turn_pick_def accept_gpu_greedy_def picker_pick_def pick_from_candidates_def suppress_none Let_def turn_accept_def)
  next
    case (Inr i)
    then show ?thesis
      using g assms(2) wanted
      by (simp add: turn_pick_def accept_gpu_greedy_def picker_pick_def pick_from_candidates_def suppress_none Let_def)
  qed
qed

lemma greedy_stays:
  assumes "verifies_with_gpu_greedy te t" "accept_gpu_greedy te t token = (res, t')"
  shows "verifies_with_gpu_greedy te t'"
proof -
  note g = greedy_turn [OF assms(1)]
  have "turn_accept te t token False None = (res, t')"
    using assms(2) g by (simp add: accept_gpu_greedy_def pick_from_candidates_def)
  then have "tl_picker t' = tl_picker t" "tl_top_logprobs t' = tl_top_logprobs t" "tl_vocabulary_size t' = tl_vocabulary_size t"
    using turn_accept_picker turn_accept_frame by blast+
  then show ?thesis using g unfolding greedy_turn_iff by simp
qed

end
