(* ===== verification/Engine.thy ===== *)
theory Engine
  imports Turn BlockHash
begin

text \<open>
  The continuous batching engine (\<open>crates/app/cli/src/engine_loop.rs\<close>): admission and chunked
  prefill, pipelined and synchronous decoding, preemption by recompute, retirement of rows that a
  queued device step still owns, and the events sent to writers.

  The decoder (\<open>TextDecoder\<close>) and the turn rules are records of their operations, \<open>f64\<close> arithmetic is
  a parameter. What the engine learns from outside while it runs is drawn from two streams in
  its state: \<open>en_answers\<close> decides, in the order the code asks, whether a cancellation flag is set, a
  deadline has passed or an event reaches its writer; \<open>en_times\<close> gives the measured milliseconds. So
  every statement about all streams covers every timing of clients and deadlines. An outer \<open>None\<close> is
  a panic. A writer, with its event and cleanup channels, is named by the ID its turn was accepted
  under.
\<close>

section \<open>Decoders and turns\<close>

datatype decode_error = Out_of_blocks | Decode_failed string

datatype step_input = Host token | Previous nat

record 'l paged_chunk =
  pk_computed :: nat
  pk_cached_tokens :: nat
  pk_cache_write_tokens :: nat
  pk_logits :: "'l option"

datatype batch_readback = Logits_readback | Greedy_readback

datatype 'l batch_decoded = Greedy_tokens "token list" | Logit_rows "'l list"

text \<open>The trait \<open>TextDecoder\<close>, with the decoder's state made explicit.\<close>

record ('d, 'q, 'l, 'm) text_decoder =
  dc_prefill_cost :: "'d \<Rightarrow> token list \<Rightarrow> hash_keys \<Rightarrow> decode_error + nat"
  dc_free_blocks :: "'d \<Rightarrow> nat"
  dc_prefill_chunk :: "'d \<Rightarrow> nat \<Rightarrow> token list \<Rightarrow> hash_keys \<Rightarrow> nat \<Rightarrow> (decode_error + 'l paged_chunk) \<times> 'd"
  dc_prefill_ms :: "'d \<Rightarrow> nat \<Rightarrow> nat \<Rightarrow> 'm"
  dc_block_tokens :: "'d \<Rightarrow> nat"
  dc_decode :: "'d \<Rightarrow> (nat \<times> token) list \<Rightarrow> batch_readback \<Rightarrow> (decode_error + 'l batch_decoded) \<times> 'd"
  dc_free :: "'d \<Rightarrow> nat \<Rightarrow> 'd"
  dc_queue :: "'d \<Rightarrow> (nat \<times> step_input) list \<Rightarrow> 'q option \<Rightarrow> (decode_error + 'q) \<times> 'd"
  dc_finish :: "'d \<Rightarrow> 'q \<Rightarrow> (decode_error + token list) \<times> 'd"
  dc_queued_rows :: "'q \<Rightarrow> nat list"
  dc_pipelines :: "'d \<Rightarrow> bool"

text \<open>What the engine calls of \<open>TurnLoop\<close>.\<close>

record ('t, 'l, 'o) turn_ops =
  tn_pick :: "'t \<Rightarrow> 'l \<Rightarrow> (string + accepted) \<times> 't"
  tn_accept_gpu :: "'t \<Rightarrow> token \<Rightarrow> (string + accepted) \<times> 't"
  tn_gpu_greedy :: "'t \<Rightarrow> bool"
  tn_finish :: "'t \<Rightarrow> string + 'o"

text \<open>The turn loop of the code as such a record.\<close>

definition turn_loop_ops ::
  "('s, 'c, 'f, 'm, 'k, 'l, 'y, 'r) turn_env \<Rightarrow> (('s, 'c, 'm, 'r) turn_loop, 'f list, ('m, 'r) turn_output) turn_ops" where
  "turn_loop_ops te =
     \<lparr>tn_pick = turn_pick te, tn_accept_gpu = accept_gpu_greedy te, tn_gpu_greedy = verifies_with_gpu_greedy te,
      tn_finish = turn_finish te\<rparr>"

section \<open>Events, sequences, state\<close>

datatype chat_error = Deadline_exceeded | Message string

datatype ('o, 'm) event =
    Prefilled nat nat 'm
  | Token accepted
  | Done 'o finish_reason "'m list"
  | Failed chat_error

record engine_limits =
  el_max_num_seqs :: nat
  el_prefill_chunk_tokens :: nat
  el_prefill_target_ms :: nat
  el_pool_bytes :: "nat option"

definition limits_capacity :: "engine_limits \<Rightarrow> nat option" where
  "limits_capacity l = mul_usize (el_max_num_seqs l) 2"

definition limits_batches :: "engine_limits \<Rightarrow> bool" where
  "limits_batches l \<longleftrightarrow> el_max_num_seqs l > 1"

text \<open>A turn handed to the engine; its channels, deadline and cancel flag are its writer's.\<close>

record 't submission =
  sb_input_ids :: "token list"
  sb_turn :: 't
  sb_keys :: hash_keys

record ('t, 'm) eseq =
  es_id :: nat
  es_turn :: 't
  es_context :: "token list"
  es_prompt_tokens :: nat
  es_keys :: hash_keys
  es_writer :: nat
  es_decode_ms :: "'m list"

definition next_input :: "('t, 'm) eseq \<Rightarrow> token option" where
  "next_input s = (if es_context s = [] then None else Some (last (es_context s)))"

definition resumed :: "('t, 'm) eseq \<Rightarrow> bool" where
  "resumed s \<longleftrightarrow> length (es_context s) > es_prompt_tokens s"

definition prefill_ids :: "('t, 'm) eseq \<Rightarrow> token list" where
  "prefill_ids s = (if resumed s then butlast (es_context s) else es_context s)"

record ('t, 'm) prefilling =
  pf_sequence :: "('t, 'm) eseq"
  pf_done :: nat
  pf_cached_tokens :: nat
  pf_cache_write_tokens :: nat

record ('d, 'q, 't, 'm, 'o) engine =
  en_decoder :: 'd
  en_limits :: engine_limits
  en_waiting :: "('t, 'm) eseq list"
  en_running :: "('t, 'm) eseq list"
  en_prefilling :: "('t, 'm) prefilling option"
  en_next_id :: nat
  en_steps :: nat
  en_queued :: "'q option"
  en_retired :: "(nat \<times> nat) list"
  en_decode_step_ms :: 'm
  en_answers :: "nat \<Rightarrow> bool"
  en_asked :: nat
  en_times :: "nat \<Rightarrow> 'm"
  en_read :: nat
  en_sent :: "(nat \<times> ('o, 'm) event) list"

definition engine_new ::
  "'d \<Rightarrow> engine_limits \<Rightarrow> 'm \<Rightarrow> (nat \<Rightarrow> bool) \<Rightarrow> (nat \<Rightarrow> 'm) \<Rightarrow> ('d, 'q, 't, 'm, 'o) engine" where
  "engine_new decoder limits zero answers readings =
     \<lparr>en_decoder = decoder, en_limits = limits, en_waiting = [], en_running = [], en_prefilling = None,
      en_next_id = 1, en_steps = 0, en_queued = None, en_retired = [], en_decode_step_ms = zero,
      en_answers = answers, en_asked = 0, en_times = readings, en_read = 0, en_sent = []\<rparr>"

section \<open>The world outside\<close>

definition ask :: "('d, 'q, 't, 'm, 'o) engine \<Rightarrow> bool \<times> ('d, 'q, 't, 'm, 'o) engine" where
  "ask st = (en_answers st (en_asked st), st\<lparr>en_asked := Suc (en_asked st)\<rparr>)"

definition elapsed :: "('d, 'q, 't, 'm, 'o) engine \<Rightarrow> 'm \<times> ('d, 'q, 't, 'm, 'o) engine" where
  "elapsed st = (en_times st (en_read st), st\<lparr>en_read := Suc (en_read st)\<rparr>)"

text \<open>\<open>Sequence::send\<close>: whether the event reached the writer.\<close>

definition send_event ::
  "('d, 'q, 't, 'm, 'o) engine \<Rightarrow> ('t, 'm) eseq \<Rightarrow> ('o, 'm) event \<Rightarrow> bool \<times> ('d, 'q, 't, 'm, 'o) engine" where
  "send_event st s ev =
     (case ask st of (ok, st) \<Rightarrow> (ok, if ok then st\<lparr>en_sent := en_sent st @ [(es_writer s, ev)]\<rparr> else st))"

definition fail_sequence ::
  "('d, 'q, 't, 'm, 'o) engine \<Rightarrow> ('t, 'm) eseq \<Rightarrow> chat_error \<Rightarrow> ('d, 'q, 't, 'm, 'o) engine" where
  "fail_sequence st s error = snd (send_event st s (Failed error))"

text \<open>Cancelled, past its deadline, or still wanted: asked in this order.\<close>

datatype fate = Cancelled | Expired | Wanted

definition fate_of :: "('d, 'q, 't, 'm, 'o) engine \<Rightarrow> fate \<times> ('d, 'q, 't, 'm, 'o) engine" where
  "fate_of st =
     (case ask st of (cancelled, st) \<Rightarrow>
        if cancelled then (Cancelled, st)
        else case ask st of (expired, st) \<Rightarrow> (if expired then Expired else Wanted, st))"

section \<open>Releasing\<close>

definition queued_rows :: "('d, 'q, 'l, 'm) text_decoder \<Rightarrow> ('d, 'q, 't, 'm, 'o) engine \<Rightarrow> nat list" where
  "queued_rows dc st = (case en_queued st of None \<Rightarrow> [] | Some step \<Rightarrow> dc_queued_rows dc step)"

definition release_sequence ::
  "('d, 'q, 'l, 'm) text_decoder \<Rightarrow> ('d, 'q, 't, 'm, 'o) engine \<Rightarrow> ('t, 'm) eseq \<Rightarrow> ('d, 'q, 't, 'm, 'o) engine" where
  "release_sequence dc st s =
     (if es_id s \<in> set (queued_rows dc st)
      then st\<lparr>en_retired := en_retired st @ [(es_id s, es_writer s)]\<rparr>
      else st\<lparr>en_decoder := dc_free dc (en_decoder st) (es_id s)\<rparr>)"

text \<open>The loop of \<open>release_retired\<close> over the drained list; what is kept is collected.\<close>

fun retire_loop ::
  "('d, 'q, 'l, 'm) text_decoder \<Rightarrow> (nat \<times> nat) list \<Rightarrow> (nat \<times> nat) list \<Rightarrow>
   ('d, 'q, 't, 'm, 'o) engine \<Rightarrow> ('d, 'q, 't, 'm, 'o) engine" where
  "retire_loop dc retained [] st = st\<lparr>en_retired := retained\<rparr>"
| "retire_loop dc retained ((i, w) # rest) st =
     (if i \<in> set (queued_rows dc st) then retire_loop dc (retained @ [(i, w)]) rest st
      else retire_loop dc retained rest (st\<lparr>en_decoder := dc_free dc (en_decoder st) i\<rparr>))"

definition release_retired :: "('d, 'q, 'l, 'm) text_decoder \<Rightarrow> ('d, 'q, 't, 'm, 'o) engine \<Rightarrow> ('d, 'q, 't, 'm, 'o) engine" where
  "release_retired dc st = retire_loop dc [] (en_retired st) st"

text \<open>A fresh ID for a sequence.\<close>

definition fresh_id :: "('d, 'q, 't, 'm, 'o) engine \<Rightarrow> (nat \<times> ('d, 'q, 't, 'm, 'o) engine) option" where
  "fresh_id st = do { n \<leftarrow> checked_add_u64 (en_next_id st) 1; Some (en_next_id st, st\<lparr>en_next_id := n\<rparr>) }"

text \<open>Back to the front of the queue under a fresh ID, to be recomputed.\<close>

definition requeue :: "('d, 'q, 't, 'm, 'o) engine \<Rightarrow> ('t, 'm) eseq \<Rightarrow> ('d, 'q, 't, 'm, 'o) engine option" where
  "requeue st s = do {
     (i, st) \<leftarrow> fresh_id st;
     Some (st\<lparr>en_waiting := s\<lparr>es_id := i\<rparr> # en_waiting st\<rparr>) }"

text \<open>\<open>accept\<close> of a submission; exclusive work does not touch the engine.\<close>

definition engine_accept ::
  "('d, 'q, 't, 'm, 'o) engine \<Rightarrow> 't submission \<Rightarrow> ('d, 'q, 't, 'm, 'o) engine option" where
  "engine_accept st sb = do {
     (i, st) \<leftarrow> fresh_id st;
     Some (st\<lparr>en_waiting := en_waiting st @
       [\<lparr>es_id = i, es_turn = sb_turn sb, es_context = sb_input_ids sb, es_prompt_tokens = length (sb_input_ids sb),
         es_keys = sb_keys sb, es_writer = i, es_decode_ms = []\<rparr>]\<rparr>) }"

section \<open>Accepting tokens\<close>

text \<open>\<open>accepted\<close>: the sequence when it keeps running.\<close>

definition accepted_token ::
  "('d, 'q, 'l, 'm) text_decoder \<Rightarrow> ('t, 'l, 'o) turn_ops \<Rightarrow> ('d, 'q, 't, 'm, 'o) engine \<Rightarrow> ('t, 'm) eseq \<Rightarrow> accepted \<Rightarrow>
   ('t, 'm) eseq option \<times> ('d, 'q, 't, 'm, 'o) engine" where
  "accepted_token dc tn st s a =
     (let s = s\<lparr>es_context := es_context s @ [ac_token a]\<rparr>
      in case send_event st s (Token a) of
           (False, st) \<Rightarrow> (None, release_sequence dc st s)
         | (True, st) \<Rightarrow>
             (case ac_step a of
                Continue \<Rightarrow> (Some s, st)
              | Stop reason \<Rightarrow>
                  let st = release_sequence dc st s;
                      ev = (case tn_finish tn (es_turn s) of
                              Inr output \<Rightarrow> Done output reason (es_decode_ms s)
                            | Inl error \<Rightarrow> Failed (Message error))
                  in (None, snd (send_event st s ev))))"

text \<open>A picked or refused token of a sequence: it keeps running, or it is released and told why.\<close>

definition settle_pick ::
  "('d, 'q, 'l, 'm) text_decoder \<Rightarrow> ('t, 'l, 'o) turn_ops \<Rightarrow> ('d, 'q, 't, 'm, 'o) engine \<Rightarrow> ('t, 'm) eseq \<Rightarrow>
   (string + accepted) \<times> 't \<Rightarrow> ('d, 'q, 't, 'm, 'o) engine" where
  "settle_pick dc tn st s pick =
     (let s = s\<lparr>es_turn := snd pick\<rparr>
      in case fst pick of
           Inl error \<Rightarrow> fail_sequence (release_sequence dc st s) s (Message error)
         | Inr a \<Rightarrow>
             (case accepted_token dc tn st s a of
                (None, st) \<Rightarrow> st
              | (Some s, st) \<Rightarrow> st\<lparr>en_running := en_running st @ [s]\<rparr>))"

definition prefilled ::
  "('d, 'q, 'l, 'm) text_decoder \<Rightarrow> ('t, 'l, 'o) turn_ops \<Rightarrow> ('d, 'q, 't, 'm, 'o) engine \<Rightarrow> ('t, 'm) eseq \<Rightarrow> 'l \<Rightarrow> nat \<times> nat \<Rightarrow>
   ('d, 'q, 't, 'm, 'o) engine" where
  "prefilled dc tn st s logits prefix =
     (if resumed s then st\<lparr>en_running := en_running st @ [s]\<rparr>
      else
        case elapsed st of (ms, st) \<Rightarrow>
        case send_event st s (Prefilled (fst prefix) (snd prefix) ms) of
          (False, st) \<Rightarrow> release_sequence dc st s
        | (True, st) \<Rightarrow> settle_pick dc tn st s (tn_pick tn (es_turn s) logits))"

section \<open>Admission and prefill\<close>

definition decode_estimate_ms :: "'m f64_ops \<Rightarrow> 'm \<Rightarrow> 'm \<Rightarrow> 'm" where
  "decode_estimate_ms fl iteration_ms prefill_ms =
     f64_max fl (f64_sub fl iteration_ms prefill_ms) (f64_mul fl iteration_ms (f64_half fl))"

definition chunk_budget_ms :: "'m f64_ops \<Rightarrow> 'm \<Rightarrow> 'm \<Rightarrow> 'm" where
  "chunk_budget_ms fl target_ms decode_step_ms =
     f64_max fl (f64_sub fl target_ms decode_step_ms) (f64_mul fl decode_step_ms (f64_quarter fl))"

function shrink_tokens :: "(nat \<Rightarrow> bool) \<Rightarrow> nat \<Rightarrow> nat \<Rightarrow> nat" where
  "shrink_tokens too_dear block tokens =
     (if 0 < block \<and> tokens > block \<and> too_dear tokens then shrink_tokens too_dear block (tokens - block) else tokens)"
  by auto
termination by (relation "measure (\<lambda>(_, _, tokens). tokens)") auto

declare shrink_tokens.simps [simp del]

definition chunk_tokens :: "'m f64_ops \<Rightarrow> (nat \<Rightarrow> 'm) \<Rightarrow> 'm \<Rightarrow> nat \<Rightarrow> nat \<Rightarrow> nat option" where
  "chunk_tokens fl cost budget_ms ceiling block =
     (if block = 0 then None
      else Some (max (shrink_tokens (\<lambda>tokens. f64_gt fl (cost tokens) budget_ms) block (ceiling div block * block)) block))"

definition chunk_budget ::
  "('d, 'q, 'l, 'm) text_decoder \<Rightarrow> 'm f64_ops \<Rightarrow> ('d, 'q, 't, 'm, 'o) engine \<Rightarrow> ('t, 'm) prefilling \<Rightarrow> bool \<Rightarrow> bool \<Rightarrow> 'm \<Rightarrow>
   nat option option" where
  "chunk_budget dc fl st p unlimited chunked budget_ms =
     (if unlimited then Some (Some usize_max)
      else
        let d = en_decoder st; block = dc_block_tokens dc d
        in if dc_free_blocks dc d \<le> length (en_running st) \<or>
              (chunked \<and> f64_gt fl (dc_prefill_ms dc d (pf_done p) block) budget_ms)
           then Some None
           else map_option Some
             (chunk_tokens fl (dc_prefill_ms dc d (pf_done p)) budget_ms (el_prefill_chunk_tokens (en_limits st)) block))"

definition no_room :: chat_error where
  "no_room = Message ''the prompt does not fit the KV pool''"

definition decode_error_message :: "decode_error \<Rightarrow> chat_error" where
  "decode_error_message e = (case e of Out_of_blocks \<Rightarrow> no_room | Decode_failed m \<Rightarrow> Message m)"

lemma release_sequence_frame [simp]:
  "en_waiting (release_sequence dc st s) = en_waiting st"
  "en_running (release_sequence dc st s) = en_running st"
  "en_prefilling (release_sequence dc st s) = en_prefilling st"
  "en_limits (release_sequence dc st s) = en_limits st"
  "en_next_id (release_sequence dc st s) = en_next_id st"
  "en_steps (release_sequence dc st s) = en_steps st"
  "en_queued (release_sequence dc st s) = en_queued st"
  "en_sent (release_sequence dc st s) = en_sent st"
  by (simp_all add: release_sequence_def)

lemma send_event_frame:
  "send_event st s ev = (ok, st') \<Longrightarrow> en_waiting st' = en_waiting st"
  "send_event st s ev = (ok, st') \<Longrightarrow> en_running st' = en_running st"
  "send_event st s ev = (ok, st') \<Longrightarrow> en_prefilling st' = en_prefilling st"
  "send_event st s ev = (ok, st') \<Longrightarrow> en_limits st' = en_limits st"
  "send_event st s ev = (ok, st') \<Longrightarrow> en_next_id st' = en_next_id st"
  "send_event st s ev = (ok, st') \<Longrightarrow> en_steps st' = en_steps st"
  "send_event st s ev = (ok, st') \<Longrightarrow> en_queued st' = en_queued st"
  "send_event st s ev = (ok, st') \<Longrightarrow> en_retired st' = en_retired st"
  "send_event st s ev = (ok, st') \<Longrightarrow> en_decoder st' = en_decoder st"
  by (auto simp: send_event_def ask_def)

lemma fail_sequence_frame [simp]:
  "en_waiting (fail_sequence st s e) = en_waiting st"
  "en_running (fail_sequence st s e) = en_running st"
  "en_prefilling (fail_sequence st s e) = en_prefilling st"
  "en_limits (fail_sequence st s e) = en_limits st"
  "en_next_id (fail_sequence st s e) = en_next_id st"
  "en_steps (fail_sequence st s e) = en_steps st"
  "en_queued (fail_sequence st s e) = en_queued st"
  "en_retired (fail_sequence st s e) = en_retired st"
  "en_decoder (fail_sequence st s e) = en_decoder st"
  by (simp_all add: fail_sequence_def send_event_def ask_def)

text \<open>
  \<open>next_admission\<close>: the first waiting sequence the batch and the pool can take now. The loop is a
  recursion over the queue; one that cannot be costed is failed and popped.
\<close>

fun admission_loop ::
  "('d, 'q, 'l, 'm) text_decoder \<Rightarrow> ('t, 'm) eseq list \<Rightarrow> ('d, 'q, 't, 'm, 'o) engine \<Rightarrow>
   (('t, 'm) prefilling option \<times> ('d, 'q, 't, 'm, 'o) engine) option" where
  "admission_loop dc [] st = Some (None, st)"
| "admission_loop dc (s # rest) st =
     (if length (en_running st) \<ge> el_max_num_seqs (en_limits st) then Some (None, st)
      else
        case dc_prefill_cost dc (en_decoder st) (prefill_ids s) (es_keys s) of
          Inl error \<Rightarrow>
            admission_loop dc rest
              (fail_sequence (release_sequence dc (st\<lparr>en_waiting := rest\<rparr>) s) s (decode_error_message error))
        | Inr cost \<Rightarrow>
            (case add_usize cost (length (en_running st)) of
               None \<Rightarrow> None
             | Some wanted \<Rightarrow>
                 if wanted > dc_free_blocks dc (en_decoder st) \<and> en_running st \<noteq> []
                 then Some (None, st)
                 else Some (Some \<lparr>pf_sequence = s, pf_done = 0, pf_cached_tokens = 0, pf_cache_write_tokens = 0\<rparr>,
                            st\<lparr>en_waiting := rest\<rparr>)))"

definition next_admission ::
  "('d, 'q, 'l, 'm) text_decoder \<Rightarrow> ('d, 'q, 't, 'm, 'o) engine \<Rightarrow>
   (('t, 'm) prefilling option \<times> ('d, 'q, 't, 'm, 'o) engine) option" where
  "next_admission dc st = admission_loop dc (en_waiting st) st"

lemma admission_loop_shrinks:
  "admission_loop dc ws st = Some (next, st') \<Longrightarrow> en_waiting st = ws \<Longrightarrow>
   length (en_waiting st') \<le> length ws \<and> (next \<noteq> None \<longrightarrow> length (en_waiting st') < length ws) \<and>
   en_prefilling st' = en_prefilling st"
proof (induction dc ws st rule: admission_loop.induct)
  case (2 dc s rest st)
  show ?case
  proof (cases "length (en_running st) \<ge> el_max_num_seqs (en_limits st)")
    case True
    then show ?thesis using 2 by auto
  next
    case False
    show ?thesis
    proof (cases "dc_prefill_cost dc (en_decoder st) (prefill_ids s) (es_keys s)")
      case (Inl e)
      then show ?thesis using 2(1) [OF False Inl] 2(2,3) False by auto
    next
      case (Inr cost)
      then show ?thesis using 2(2,3) False by (auto split: if_splits option.splits)
    qed
  qed
qed auto

text \<open>The prompt to prefill next: the partly prefilled one, or a new admission.\<close>

definition next_prefill ::
  "('d, 'q, 'l, 'm) text_decoder \<Rightarrow> ('d, 'q, 't, 'm, 'o) engine \<Rightarrow>
   (('t, 'm) prefilling option \<times> ('d, 'q, 't, 'm, 'o) engine) option" where
  "next_prefill dc st =
     (case en_prefilling st of
        Some p \<Rightarrow> Some (Some p, st\<lparr>en_prefilling := None\<rparr>)
      | None \<Rightarrow> next_admission dc st)"

text \<open>One pass of the loop of \<open>admit\<close>: \<open>Inl\<close> returns what was spent, \<open>Inr\<close> goes round again.\<close>

definition admit_pass ::
  "('d, 'q, 'l, 'm) text_decoder \<Rightarrow> ('t, 'l, 'o) turn_ops \<Rightarrow> 'm f64_ops \<Rightarrow> 'm \<Rightarrow> 'm \<Rightarrow> bool \<Rightarrow> ('d, 'q, 't, 'm, 'o) engine \<Rightarrow>
   (('m \<times> ('d, 'q, 't, 'm, 'o) engine) + ('m \<times> 'm \<times> bool \<times> ('d, 'q, 't, 'm, 'o) engine)) option" where
  "admit_pass dc tn fl budget_ms spent_ms chunked st =
     (case next_prefill dc st of
        None \<Rightarrow> None
      | Some (None, st) \<Rightarrow> Some (Inl (spent_ms, st))
      | Some (Some p, st) \<Rightarrow>
          let unlimited = (en_running st = [])
          in (case chunk_budget dc fl st p unlimited chunked budget_ms of
                None \<Rightarrow> None
              | Some None \<Rightarrow> Some (Inl (spent_ms, st\<lparr>en_prefilling := Some p\<rparr>))
              | Some (Some budget) \<Rightarrow>
                  let s = pf_sequence p
                  in case dc_prefill_chunk dc (en_decoder st) (es_id s) (prefill_ids s) (es_keys s) budget of
                       (Inr chunk, d) \<Rightarrow> do {
                         start \<leftarrow> add_usize (pf_done p) (pk_cached_tokens chunk);
                         let st = st\<lparr>en_decoder := d\<rparr>;
                         let chunk_ms = dc_prefill_ms dc d start (pk_computed chunk);
                         let budget_ms = f64_sub fl budget_ms chunk_ms;
                         let charged = (\<not> unlimited \<and> pk_computed chunk > 0);
                         let chunked = (chunked \<or> charged);
                         let spent_ms = (if charged then f64_add fl spent_ms chunk_ms else spent_ms);
                         cached \<leftarrow> add_usize (pf_cached_tokens p) (pk_cached_tokens chunk);
                         written \<leftarrow> add_usize (pf_cache_write_tokens p) (pk_cache_write_tokens chunk);
                         sofar \<leftarrow> add_usize start (pk_computed chunk);
                         case pk_logits chunk of
                           Some logits \<Rightarrow>
                             Some (Inr (budget_ms, spent_ms, chunked, prefilled dc tn st s logits (cached, written)))
                         | None \<Rightarrow>
                             Some (Inl (spent_ms, st\<lparr>en_prefilling :=
                               Some \<lparr>pf_sequence = s, pf_done = sofar, pf_cached_tokens = cached, pf_cache_write_tokens = written\<rparr>\<rparr>)) }
                     | (Inl error, d) \<Rightarrow>
                         let st = release_sequence dc (st\<lparr>en_decoder := d\<rparr>) s
                         in if error = Out_of_blocks \<and> \<not> unlimited
                            then map_option (\<lambda>st. Inl (spent_ms, st)) (requeue st s)
                            else Some (Inr (budget_ms, spent_ms, chunked, fail_sequence st s (decode_error_message error)))))"

definition admit_work :: "('d, 'q, 't, 'm, 'o) engine \<Rightarrow> nat" where
  "admit_work st = length (en_waiting st) + (if en_prefilling st = None then 0 else 1)"

lemma next_prefill_work:
  "next_prefill dc st = Some (Some p, st') \<Longrightarrow> en_prefilling st' = None \<and> length (en_waiting st') < admit_work st"
  using admission_loop_shrinks [of dc "en_waiting st" st "Some p" st']
  by (auto simp: next_prefill_def next_admission_def admit_work_def split: option.splits)

lemma accepted_token_frame:
  assumes "accepted_token dc tn st s a = (k, st')"
  shows "en_waiting st' = en_waiting st \<and> en_prefilling st' = en_prefilling st \<and> en_running st' = en_running st \<and>
    en_limits st' = en_limits st \<and> en_next_id st' = en_next_id st \<and> en_steps st' = en_steps st \<and> en_queued st' = en_queued st"
  using assms
  by (auto simp: accepted_token_def send_event_def ask_def Let_def split: if_splits turn_step.splits bool.splits)

lemma settle_pick_frame [simp]:
  "en_waiting (settle_pick dc tn st s pick) = en_waiting st"
  "en_prefilling (settle_pick dc tn st s pick) = en_prefilling st"
  "en_limits (settle_pick dc tn st s pick) = en_limits st"
  "en_next_id (settle_pick dc tn st s pick) = en_next_id st"
  "en_steps (settle_pick dc tn st s pick) = en_steps st"
  "en_queued (settle_pick dc tn st s pick) = en_queued st"
  by (auto simp: settle_pick_def Let_def split: sum.splits option.splits prod.splits dest!: accepted_token_frame)

lemma prefilled_frame [simp]:
  "en_waiting (prefilled dc tn st s logits prefix) = en_waiting st"
  "en_prefilling (prefilled dc tn st s logits prefix) = en_prefilling st"
  "en_limits (prefilled dc tn st s logits prefix) = en_limits st"
  "en_next_id (prefilled dc tn st s logits prefix) = en_next_id st"
  "en_steps (prefilled dc tn st s logits prefix) = en_steps st"
  "en_queued (prefilled dc tn st s logits prefix) = en_queued st"
  by (simp_all add: prefilled_def elapsed_def send_event_def ask_def split: bool.splits prod.splits)

lemma admit_pass_work:
  assumes "admit_pass dc tn fl b sp c st = Some (Inr (b', sp', c', st'))"
  shows "admit_work st' < admit_work st"
proof -
  obtain found st1 where Pair: "next_prefill dc st = Some (found, st1)"
    using assms by (auto simp: admit_pass_def split: option.splits)
  obtain p where found: "found = Some p" using assms Pair by (cases found) (simp_all add: admit_pass_def)
  note work = next_prefill_work [OF Pair [unfolded found]]
  have "en_waiting st' = en_waiting st1 \<and> en_prefilling st' = en_prefilling st1"
    using assms unfolding admit_pass_def Pair found
    by (auto simp: Let_def split: option.splits prod.splits sum.splits if_splits bind_splits)
  then show ?thesis using work by (simp add: admit_work_def)
qed

function admit_loop ::
  "('d, 'q, 'l, 'm) text_decoder \<Rightarrow> ('t, 'l, 'o) turn_ops \<Rightarrow> 'm f64_ops \<Rightarrow> 'm \<Rightarrow> 'm \<Rightarrow> bool \<Rightarrow> ('d, 'q, 't, 'm, 'o) engine \<Rightarrow>
   ('m \<times> ('d, 'q, 't, 'm, 'o) engine) option" where
  "admit_loop dc tn fl budget_ms spent_ms chunked st =
     (case admit_pass dc tn fl budget_ms spent_ms chunked st of
        None \<Rightarrow> None
      | Some (Inl result) \<Rightarrow> Some result
      | Some (Inr (budget_ms, spent_ms, chunked, st)) \<Rightarrow> admit_loop dc tn fl budget_ms spent_ms chunked st)"
  by pat_completeness simp
termination
  by (relation "measure (\<lambda>(dc, tn, fl, b, sp, c, st). admit_work st)") (auto dest: admit_pass_work)

declare admit_loop.simps [simp del]

definition admit ::
  "('d, 'q, 'l, 'm) text_decoder \<Rightarrow> ('t, 'l, 'o) turn_ops \<Rightarrow> 'm f64_ops \<Rightarrow> ('d, 'q, 't, 'm, 'o) engine \<Rightarrow>
   ('m \<times> ('d, 'q, 't, 'm, 'o) engine) option" where
  "admit dc tn fl st =
     admit_loop dc tn fl
       (chunk_budget_ms fl (f64_of_nat fl (el_prefill_target_ms (en_limits st))) (en_decode_step_ms st))
       (f64_of_nat fl 0) False st"

section \<open>Decoding\<close>

text \<open>The first index of a row.\<close>

fun position :: "'a \<Rightarrow> 'a list \<Rightarrow> nat option" where
  "position x [] = None"
| "position x (y # ys) = (if x = y then Some 0 else map_option Suc (position x ys))"

text \<open>\<open>preempt\<close>: the partly prefilled prompt, or the newest running sequence, gives up its blocks.\<close>

definition preempt :: "('d, 'q, 'l, 'm) text_decoder \<Rightarrow> ('d, 'q, 't, 'm, 'o) engine \<Rightarrow> ('d, 'q, 't, 'm, 'o) engine option" where
  "preempt dc st =
     (case en_prefilling st of
        Some p \<Rightarrow> requeue (release_sequence dc (st\<lparr>en_prefilling := None\<rparr>) (pf_sequence p)) (pf_sequence p)
      | None \<Rightarrow>
          if en_running st = [] then Some st
          else
            let s = last (en_running st);
                st = release_sequence dc (st\<lparr>en_running := butlast (en_running st)\<rparr>) s
            in if en_running st = [] then Some (fail_sequence st s (Message ''the sequence outgrew the KV pool''))
               else requeue st s)"

text \<open>Rows of a failed step are released and told; the others stay.\<close>

fun fail_rows ::
  "('d, 'q, 'l, 'm) text_decoder \<Rightarrow> (nat \<Rightarrow> bool) \<Rightarrow> chat_error \<Rightarrow> ('t, 'm) eseq list \<Rightarrow>
   ('d, 'q, 't, 'm, 'o) engine \<Rightarrow> ('d, 'q, 't, 'm, 'o) engine" where
  "fail_rows dc failed error [] st = st"
| "fail_rows dc failed error (s # rest) st =
     (if failed (es_id s) then fail_rows dc failed error rest (fail_sequence (release_sequence dc st s) s error)
      else fail_rows dc failed error rest (st\<lparr>en_running := en_running st @ [s]\<rparr>))"

text \<open>The rows of a step that was read back, in running order. Rows that joined later stay as they are.\<close>

fun settle_rows ::
  "('d, 'q, 'l, 'm) text_decoder \<Rightarrow> ('t, 'l, 'o) turn_ops \<Rightarrow> nat list \<Rightarrow> token list \<Rightarrow> 'm \<Rightarrow> ('t, 'm) eseq list \<Rightarrow>
   ('d, 'q, 't, 'm, 'o) engine \<Rightarrow> ('d, 'q, 't, 'm, 'o) engine option" where
  "settle_rows dc tn rows tokens step_ms [] st = Some st"
| "settle_rows dc tn rows tokens step_ms (s # rest) st =
     (case position (es_id s) rows of
        None \<Rightarrow> settle_rows dc tn rows tokens step_ms rest (st\<lparr>en_running := en_running st @ [s]\<rparr>)
      | Some i \<Rightarrow> do {
          token \<leftarrow> list_get tokens i;
          let s = s\<lparr>es_decode_ms := es_decode_ms s @ [step_ms]\<rparr>;
          settle_rows dc tn rows tokens step_ms rest (settle_pick dc tn st s (tn_accept_gpu tn (es_turn s) token)) })"

definition settle ::
  "('d, 'q, 'l, 'm) text_decoder \<Rightarrow> ('t, 'l, 'o) turn_ops \<Rightarrow> ('d, 'q, 't, 'm, 'o) engine \<Rightarrow> 'q \<Rightarrow>
   ('d, 'q, 't, 'm, 'o) engine option" where
  "settle dc tn st step =
     (case dc_finish dc (en_decoder st) step of (res, d) \<Rightarrow>
        (case elapsed (st\<lparr>en_decoder := d\<rparr>) of (step_ms, st) \<Rightarrow>
           do {
             steps \<leftarrow> checked_add_u64 (en_steps st) 1;
             let rows = dc_queued_rows dc step;
             let running = en_running st;
             let st = st\<lparr>en_steps := steps, en_running := []\<rparr>;
             (case res of
                 Inl error \<Rightarrow>
                   Some (fail_rows dc (\<lambda>i. i \<in> set rows)
                     (case error of Decode_failed m \<Rightarrow> Message m
                      | Out_of_blocks \<Rightarrow> Message ''a step readback ran out of blocks'') running st)
               | Inr tokens \<Rightarrow> settle_rows dc tn rows tokens step_ms running st) }))"

text \<open>A synchronous step's rows: the \<open>index\<close>-th running sequence takes the \<open>index\<close>-th row.\<close>

fun now_rows ::
  "('d, 'q, 'l, 'm) text_decoder \<Rightarrow> ('t, 'l, 'o) turn_ops \<Rightarrow> 'l batch_decoded \<Rightarrow> 'm \<Rightarrow> nat \<Rightarrow> ('t, 'm) eseq list \<Rightarrow>
   ('d, 'q, 't, 'm, 'o) engine \<Rightarrow> ('d, 'q, 't, 'm, 'o) engine option" where
  "now_rows dc tn decoded step_ms index [] st = Some st"
| "now_rows dc tn decoded step_ms index (s # rest) st = do {
     let s = s\<lparr>es_decode_ms := es_decode_ms s @ [step_ms]\<rparr>;
     pick \<leftarrow> (case decoded of
                Greedy_tokens tokens \<Rightarrow> map_option (tn_accept_gpu tn (es_turn s)) (list_get tokens index)
              | Logit_rows rows \<Rightarrow> map_option (tn_pick tn (es_turn s)) (list_get rows index));
     now_rows dc tn decoded step_ms (Suc index) rest (settle_pick dc tn st s pick) }"

definition decode_now ::
  "('d, 'q, 'l, 'm) text_decoder \<Rightarrow> ('t, 'l, 'o) turn_ops \<Rightarrow> ('d, 'q, 't, 'm, 'o) engine \<Rightarrow>
   ('d, 'q, 't, 'm, 'o) engine option" where
  "decode_now dc tn st = do {
     rows \<leftarrow> opt_map (\<lambda>s. map_option (Pair (es_id s)) (next_input s)) (en_running st);
     case dc_decode dc (en_decoder st) rows Logits_readback of
       (Inl Out_of_blocks, d) \<Rightarrow> preempt dc (st\<lparr>en_decoder := d\<rparr>)
     | (Inl (Decode_failed error), d) \<Rightarrow>
         Some (fail_rows dc (\<lambda>i. True) (Message error) (en_running st) (st\<lparr>en_decoder := d, en_running := []\<rparr>))
     | (Inr decoded, d) \<Rightarrow>
         (case elapsed (st\<lparr>en_decoder := d\<rparr>) of (step_ms, st) \<Rightarrow> do {
            steps \<leftarrow> checked_add_u64 (en_steps st) 1;
            now_rows dc tn decoded step_ms 0 (en_running st) (st\<lparr>en_steps := steps, en_running := []\<rparr>) }) }"

text \<open>A row's input for the next greedy step: carried on the device from the previous step, or known to the host.\<close>

definition step_row ::
  "('d, 'q, 'l, 'm) text_decoder \<Rightarrow> 'q option \<Rightarrow> ('t, 'm) eseq \<Rightarrow> (nat \<times> step_input) option" where
  "step_row dc previous s =
     (case (case previous of None \<Rightarrow> None | Some step \<Rightarrow> position (es_id s) (dc_queued_rows dc step)) of
        Some row \<Rightarrow> Some (es_id s, Previous row)
      | None \<Rightarrow> map_option (\<lambda>t. (es_id s, Host t)) (next_input s))"

definition decode_pipelined ::
  "('d, 'q, 'l, 'm) text_decoder \<Rightarrow> ('t, 'l, 'o) turn_ops \<Rightarrow> ('d, 'q, 't, 'm, 'o) engine \<Rightarrow>
   ('d, 'q, 't, 'm, 'o) engine option" where
  "decode_pipelined dc tn st = do {
     let previous = en_queued st;
     let st = st\<lparr>en_queued := None\<rparr>;
     rows \<leftarrow> opt_map (step_row dc previous) (en_running st);
     case dc_queue dc (en_decoder st) rows previous of
       (Inl (Decode_failed error), d) \<Rightarrow>
         let d = (case previous of None \<Rightarrow> d | Some step \<Rightarrow> snd (dc_finish dc d step));
             st = release_retired dc (st\<lparr>en_decoder := d\<rparr>)
         in Some (fail_rows dc (\<lambda>i. True) (Message error) (en_running st) (st\<lparr>en_running := []\<rparr>))
     | (res, d) \<Rightarrow> do {
         let st = st\<lparr>en_decoder := d, en_queued := (case res of Inl _ \<Rightarrow> None | Inr step \<Rightarrow> Some step)\<rparr>;
         st \<leftarrow> (case previous of
                  Some step \<Rightarrow> settle dc tn st step
                | None \<Rightarrow> if en_queued st = None then preempt dc st else Some st);
         Some (release_retired dc st) } }"

fun sweep_running ::
  "('d, 'q, 'l, 'm) text_decoder \<Rightarrow> ('t, 'm) eseq list \<Rightarrow> ('d, 'q, 't, 'm, 'o) engine \<Rightarrow> ('d, 'q, 't, 'm, 'o) engine" where
  "sweep_running dc [] st = st"
| "sweep_running dc (s # rest) st =
     (case fate_of st of
        (Cancelled, st) \<Rightarrow> sweep_running dc rest (release_sequence dc st s)
      | (Expired, st) \<Rightarrow> sweep_running dc rest (fail_sequence (release_sequence dc st s) s Deadline_exceeded)
      | (Wanted, st) \<Rightarrow> sweep_running dc rest (st\<lparr>en_running := en_running st @ [s]\<rparr>))"

definition decode_step ::
  "('d, 'q, 'l, 'm) text_decoder \<Rightarrow> ('t, 'l, 'o) turn_ops \<Rightarrow> ('d, 'q, 't, 'm, 'o) engine \<Rightarrow>
   ('d, 'q, 't, 'm, 'o) engine option" where
  "decode_step dc tn st =
     (let st = sweep_running dc (en_running st) (st\<lparr>en_running := []\<rparr>)
      in if en_running st = [] then
           Some (release_retired dc
             (case en_queued st of
                None \<Rightarrow> st
              | Some step \<Rightarrow> st\<lparr>en_queued := None, en_decoder := snd (dc_finish dc (en_decoder st) step)\<rparr>))
         else if dc_pipelines dc (en_decoder st) \<and> list_all (\<lambda>s. tn_gpu_greedy tn (es_turn s)) (en_running st) then
           decode_pipelined dc tn st
         else
           case en_queued st of
             Some step \<Rightarrow> map_option (release_retired dc) (settle dc tn (st\<lparr>en_queued := None\<rparr>) step)
           | None \<Rightarrow> decode_now dc tn st)"

section \<open>One iteration\<close>

fun sweep_waiting ::
  "('t, 'm) eseq list \<Rightarrow> ('d, 'q, 't, 'm, 'o) engine \<Rightarrow> ('t, 'm) eseq list \<times> ('d, 'q, 't, 'm, 'o) engine" where
  "sweep_waiting [] st = ([], st)"
| "sweep_waiting (s # rest) st =
     (case fate_of st of
        (Cancelled, st) \<Rightarrow> sweep_waiting rest st
      | (Expired, st) \<Rightarrow> sweep_waiting rest (fail_sequence st s Deadline_exceeded)
      | (Wanted, st) \<Rightarrow> (case sweep_waiting rest st of (kept, st) \<Rightarrow> (s # kept, st)))"

definition sweep_prefilling ::
  "('d, 'q, 'l, 'm) text_decoder \<Rightarrow> ('d, 'q, 't, 'm, 'o) engine \<Rightarrow> ('d, 'q, 't, 'm, 'o) engine" where
  "sweep_prefilling dc st =
     (case en_prefilling st of
        None \<Rightarrow> st
      | Some p \<Rightarrow>
          (case fate_of (st\<lparr>en_prefilling := None\<rparr>) of
             (Cancelled, st) \<Rightarrow> release_sequence dc st (pf_sequence p)
           | (Expired, st) \<Rightarrow> fail_sequence (release_sequence dc st (pf_sequence p)) (pf_sequence p) Deadline_exceeded
           | (Wanted, st) \<Rightarrow> st\<lparr>en_prefilling := Some p\<rparr>))"

definition engine_step ::
  "('d, 'q, 'l, 'm) text_decoder \<Rightarrow> ('t, 'l, 'o) turn_ops \<Rightarrow> 'm f64_ops \<Rightarrow> ('d, 'q, 't, 'm, 'o) engine \<Rightarrow>
   ('d, 'q, 't, 'm, 'o) engine option" where
  "engine_step dc tn fl st = do {
     let (waiting, st) = sweep_waiting (en_waiting st) st;
     let st = sweep_prefilling dc (st\<lparr>en_waiting := waiting\<rparr>);
     st \<leftarrow> (if en_running st = [] \<and> en_queued st \<noteq> None then decode_step dc tn st else Some st);
     let steps = en_steps st;
     (prefill_ms, st) \<leftarrow> admit dc tn fl st;
     st \<leftarrow> decode_step dc tn st;
     Some (if en_steps st > steps then
             case elapsed st of (iteration_ms, st) \<Rightarrow>
               st\<lparr>en_decode_step_ms := decode_estimate_ms fl iteration_ms prefill_ms\<rparr>
           else st) }"

text \<open>
  The engine's life: from \<open>run\<close>'s initial state, submissions arrive and iterations run in any order.
  (\<open>run\<close> blocks for a message when it is idle, and takes all waiting messages before a step.)
  The list holds what was submitted so far, under the writer's name.
\<close>

inductive engine_reach ::
  "('d, 'q, 'l, 'm) text_decoder \<Rightarrow> ('t, 'l, 'o) turn_ops \<Rightarrow> 'm f64_ops \<Rightarrow> ('d, 'q, 't, 'm, 'o) engine \<Rightarrow>
   (nat \<times> 't submission) list \<Rightarrow> ('d, 'q, 't, 'm, 'o) engine \<Rightarrow> bool"
  for dc tn fl st0 where
  run_start: "engine_reach dc tn fl st0 [] st0"
| run_accept: "engine_reach dc tn fl st0 subs st \<Longrightarrow> engine_accept st sb = Some st' \<Longrightarrow>
    engine_reach dc tn fl st0 (subs @ [(en_next_id st, sb)]) st'"
| run_step: "engine_reach dc tn fl st0 subs st \<Longrightarrow> engine_step dc tn fl st = Some st' \<Longrightarrow>
    engine_reach dc tn fl st0 subs st'"

section \<open>Frames\<close>

text \<open>Asking the world changes none of the engine's own fields.\<close>

lemma send_event_snd [simp]:
  "en_waiting (snd (send_event st s ev)) = en_waiting st"
  "en_running (snd (send_event st s ev)) = en_running st"
  "en_prefilling (snd (send_event st s ev)) = en_prefilling st"
  "en_limits (snd (send_event st s ev)) = en_limits st"
  "en_next_id (snd (send_event st s ev)) = en_next_id st"
  "en_queued (snd (send_event st s ev)) = en_queued st"
  "en_retired (snd (send_event st s ev)) = en_retired st"
  "en_decoder (snd (send_event st s ev)) = en_decoder st"
  by (simp_all add: send_event_def ask_def)

lemma fate_of_frame:
  assumes "fate_of st = (f, st')"
  shows "en_waiting st' = en_waiting st" "en_running st' = en_running st" "en_prefilling st' = en_prefilling st"
    "en_limits st' = en_limits st" "en_next_id st' = en_next_id st" "en_queued st' = en_queued st"
    "en_retired st' = en_retired st" "en_decoder st' = en_decoder st" "en_sent st' = en_sent st" "en_steps st' = en_steps st"
  using assms by (auto simp: fate_of_def ask_def split: if_splits)

lemma elapsed_frame:
  assumes "elapsed st = (ms, st')"
  shows "en_waiting st' = en_waiting st" "en_running st' = en_running st" "en_prefilling st' = en_prefilling st"
    "en_limits st' = en_limits st" "en_next_id st' = en_next_id st" "en_queued st' = en_queued st"
    "en_retired st' = en_retired st" "en_decoder st' = en_decoder st" "en_sent st' = en_sent st" "en_steps st' = en_steps st"
  using assms by (auto simp: elapsed_def)

lemma fresh_id_Some: "fresh_id st = Some (i, st') \<longleftrightarrow> en_next_id st + 1 \<le> u64_max \<and> i = en_next_id st \<and> st' = st\<lparr>en_next_id := en_next_id st + 1\<rparr>"
  by (auto simp: fresh_id_def checked_add_u64_def)

lemma requeue_Some:
  "requeue st s = Some st' \<longleftrightarrow> en_next_id st + 1 \<le> u64_max \<and>
     st' = st\<lparr>en_next_id := en_next_id st + 1, en_waiting := s\<lparr>es_id := en_next_id st\<rparr> # en_waiting st\<rparr>"
  by (auto simp: requeue_def fresh_id_def checked_add_u64_def)

lemma engine_accept_Some:
  "engine_accept st sb = Some st' \<longleftrightarrow> en_next_id st + 1 \<le> u64_max \<and>
     st' = st\<lparr>en_next_id := en_next_id st + 1, en_waiting := en_waiting st @
       [\<lparr>es_id = en_next_id st, es_turn = sb_turn sb, es_context = sb_input_ids sb, es_prompt_tokens = length (sb_input_ids sb),
         es_keys = sb_keys sb, es_writer = en_next_id st, es_decode_ms = []\<rparr>]\<rparr>"
  by (auto simp: engine_accept_def fresh_id_def checked_add_u64_def)

end
