(* ===== verification/EngineSteps.thy ===== *)
theory EngineSteps
  imports Engine
begin

text \<open>
  The engine as a step relation. A configuration is the engine's state, the sequences a function
  has taken out of it (with what is known of their next token), and a queued step that has been
  taken out and not yet read back. \<open>engine_step\<close> is proved to be a sequence of these steps, so
  an invariant of the relation holds between and inside iterations, and is proved once per kind of
  step rather than once per function.
\<close>

section \<open>Configurations\<close>

datatype 'l item =
    Keep                    \<comment> \<open>nothing happened to it\<close>
  | Part nat nat nat        \<comment> \<open>being prefilled: done, cached, written\<close>
  | First 'l nat nat        \<comment> \<open>wholly prefilled, with the last prompt token's logits\<close>
  | Row 'l                  \<comment> \<open>logits to pick its next token from\<close>
  | Gpu token               \<comment> \<open>its next token, picked on the device\<close>
  | Lost                    \<comment> \<open>its step failed\<close>

type_synonym ('d, 'q, 't, 'm, 'o, 'l) config =
  "('d, 'q, 't, 'm, 'o) engine \<times> (('t, 'm) eseq \<times> 'l item) list \<times> 'q option"

text \<open>What a step that was read back tells of a sequence in hand.\<close>

definition read_back :: "nat list \<Rightarrow> (decode_error + token list) \<Rightarrow> ('t, 'm) eseq \<times> 'l item \<Rightarrow> ('t, 'm) eseq \<times> 'l item" where
  "read_back rows res x =
     (case x of (s, it) \<Rightarrow>
        if it \<noteq> Keep then x
        else case position (es_id s) rows of
               None \<Rightarrow> x
             | Some i \<Rightarrow>
                 (case res of
                    Inl e \<Rightarrow> (s, Lost)
                  | Inr tokens \<Rightarrow> if i < length tokens then (s, Gpu (tokens ! i)) else x))"

definition hand_over :: "'l batch_decoded \<Rightarrow> ('t, 'm) eseq list \<Rightarrow> (('t, 'm) eseq \<times> 'l item) list" where
  "hand_over decoded running =
     (case decoded of
        Greedy_tokens tokens \<Rightarrow> zip running (map Gpu tokens)
      | Logit_rows rows \<Rightarrow> zip running (map Row rows))"

text \<open>An event that reached its writer; a sequence and what it is told, if anything.\<close>

definition said :: "('d, 'q, 't, 'm, 'o) engine \<Rightarrow> ('t, 'm) eseq \<Rightarrow> ('o, 'm) event \<Rightarrow> ('d, 'q, 't, 'm, 'o) engine" where
  "said st s ev = st\<lparr>en_sent := en_sent st @ [(es_writer s, ev)]\<rparr>"

definition tell :: "('d, 'q, 't, 'm, 'o) engine \<Rightarrow> ('t, 'm) eseq \<Rightarrow> ('o, 'm) event option \<Rightarrow> ('d, 'q, 't, 'm, 'o) engine" where
  "tell st s e = (case e of None \<Rightarrow> st | Some ev \<Rightarrow> said st s ev)"

text \<open>The result of picking from what is in hand.\<close>

fun picked :: "('t, 'l, 'o) turn_ops \<Rightarrow> 't \<Rightarrow> 'l item \<Rightarrow> (string + accepted) \<times> 't" where
  "picked tn t (Row logits) = tn_pick tn t logits"
| "picked tn t (Gpu token) = tn_accept_gpu tn t token"
| "picked tn t it = (Inl [], t)"

definition went_on :: "('t, 'm) eseq \<Rightarrow> 't \<Rightarrow> accepted \<Rightarrow> 'm list \<Rightarrow> ('t, 'm) eseq" where
  "went_on s t a tms = s\<lparr>es_turn := t, es_context := es_context s @ [ac_token a], es_decode_ms := tms\<rparr>"

lemma went_on_simps [simp]:
  "es_id (went_on s t a tms) = es_id s" "es_writer (went_on s t a tms) = es_writer s" "es_turn (went_on s t a tms) = t"
  "es_decode_ms (went_on s t a tms) = tms" "es_context (went_on s t a tms) = es_context s @ [ac_token a]"
  "es_prompt_tokens (went_on s t a tms) = es_prompt_tokens s" "es_keys (went_on s t a tms) = es_keys s"
  by (simp_all add: went_on_def)

text \<open>The event that ends a turn.\<close>

definition end_event :: "('t, 'l, 'o) turn_ops \<Rightarrow> 't \<Rightarrow> finish_reason \<Rightarrow> 'm list \<Rightarrow> ('o, 'm) event" where
  "end_event tn t reason tms =
     (case tn_finish tn t of Inr output \<Rightarrow> Done output reason tms | Inl error \<Rightarrow> Failed (Message error))"

inductive micro ::
  "('d, 'q, 'l, 'm) text_decoder \<Rightarrow> ('t, 'l, 'o) turn_ops \<Rightarrow>
   ('d, 'q, 't, 'm, 'o, 'l) config \<Rightarrow> ('d, 'q, 't, 'm, 'o, 'l) config \<Rightarrow> bool"
  for dc tn where
  m_world: "micro dc tn (st, hand, prev)
    (st\<lparr>en_asked := a, en_read := r, en_steps := n, en_decode_step_ms := ms\<rparr>, hand, prev)"
| m_drop: "en_waiting st = ws @ s # ws' \<Longrightarrow>
    micro dc tn (st, [], None) (tell (st\<lparr>en_waiting := ws @ ws'\<rparr>) s (map_option Failed e), [], None)"
| m_admit: "en_waiting st = s # ws \<Longrightarrow> en_prefilling st = None \<Longrightarrow> length (en_running st) < el_max_num_seqs (en_limits st) \<Longrightarrow>
    micro dc tn (st, [], None) (st\<lparr>en_waiting := ws\<rparr>, [(s, Part 0 0 0)], None)"
| m_resume: "en_prefilling st = Some p \<Longrightarrow>
    micro dc tn (st, [], None)
      (st\<lparr>en_prefilling := None\<rparr>, [(pf_sequence p, Part (pf_done p) (pf_cached_tokens p) (pf_cache_write_tokens p))], None)"
| m_pause: "en_prefilling st = None \<Longrightarrow>
    micro dc tn (st, [(s, Part n c w)], None)
      (st\<lparr>en_prefilling := Some \<lparr>pf_sequence = s, pf_done = n, pf_cached_tokens = c, pf_cache_write_tokens = w\<rparr>\<rparr>, [], None)"
| m_prefill: "dc_prefill_chunk dc (en_decoder st) (es_id s) (prefill_ids s) (es_keys s) budget = (res, d) \<Longrightarrow>
    it = (case res of
            Inl e \<Rightarrow> Lost
          | Inr chunk \<Rightarrow>
              (case pk_logits chunk of
                 None \<Rightarrow> Part (n + pk_cached_tokens chunk + pk_computed chunk) (c + pk_cached_tokens chunk)
                           (w + pk_cache_write_tokens chunk)
               | Some logits \<Rightarrow> First logits (c + pk_cached_tokens chunk) (w + pk_cache_write_tokens chunk))) \<Longrightarrow>
    micro dc tn (st, [(s, Part n c w)], None) (st\<lparr>en_decoder := d\<rparr>, [(s, it)], None)"
| m_release: "micro dc tn (st, (s, it) # hand, None) (tell (release_sequence dc st s) s (map_option Failed e), hand, None)"
| m_requeue: "requeue (release_sequence dc st s) s = Some st' \<Longrightarrow> it = Keep \<or> it = Lost \<or> (\<exists>n c w. it = Part n c w) \<Longrightarrow>
    micro dc tn (st, (s, it) # hand, None) (st', hand, None)"
| m_keep: "micro dc tn (st, (s, Keep) # hand, None) (st\<lparr>en_running := en_running st @ [s]\<rparr>, hand, None)"
| m_rejoin: "resumed s \<Longrightarrow>
    micro dc tn (st, (s, First logits c w) # hand, None) (st\<lparr>en_running := en_running st @ [s]\<rparr>, hand, None)"
| m_prefilled: "\<not> resumed s \<Longrightarrow>
    micro dc tn (st, (s, First logits c w) # hand, None) (said st s (Prefilled c w ms), (s, Row logits) # hand, None)"
| m_token: "picked tn (es_turn s) it = (Inr a, t) \<Longrightarrow> ac_step a = Continue \<Longrightarrow>
    micro dc tn (st, (s, it) # hand, None)
      ((said st s (Token a))\<lparr>en_running := en_running st @ [went_on s t a tms]\<rparr>, hand, None)"
| m_stop: "picked tn (es_turn s) it = (Inr a, t) \<Longrightarrow> ac_step a = Stop reason \<Longrightarrow> ev \<in> {None, Some (end_event tn t reason tms)} \<Longrightarrow>
    micro dc tn (st, (s, it) # hand, None) (tell (release_sequence dc (said st s (Token a)) s) s ev, hand, None)"
| m_take: "micro dc tn (st, [], prev) (st\<lparr>en_running := []\<rparr>, map (\<lambda>s. (s, Keep)) (en_running st), prev)"
| m_take_last: "en_running st = running @ [s] \<Longrightarrow>
    micro dc tn (st, [], None) (st\<lparr>en_running := running\<rparr>, [(s, Keep)], None)"
| m_unqueue: "micro dc tn (st, [], None) (st\<lparr>en_queued := None\<rparr>, [], en_queued st)"
| m_queue: "opt_map (step_row dc (en_queued st)) (en_running st) = Some rows \<Longrightarrow> en_running st \<noteq> [] \<Longrightarrow>
    list_all (\<lambda>s. tn_gpu_greedy tn (es_turn s)) (en_running st) \<Longrightarrow>
    dc_queue dc (en_decoder st) rows (en_queued st) = (res, d) \<Longrightarrow>
    micro dc tn (st, [], None)
      (case res of
         Inr step \<Rightarrow> (st\<lparr>en_decoder := d, en_queued := Some step\<rparr>, [], en_queued st)
       | Inl Out_of_blocks \<Rightarrow> (st\<lparr>en_decoder := d, en_queued := None\<rparr>, [], en_queued st)
       | Inl (Decode_failed e) \<Rightarrow>
           (st\<lparr>en_decoder := d, en_queued := None, en_running := []\<rparr>, map (\<lambda>s. (s, Lost)) (en_running st), en_queued st))"
| m_finish: "dc_finish dc (en_decoder st) step = (res, d) \<Longrightarrow>
    en_running st = [] \<Longrightarrow> \<forall>x\<in>set hand. snd x = Keep \<or> snd x = Lost \<Longrightarrow>
    micro dc tn (st, hand, Some step)
      (st\<lparr>en_decoder := d\<rparr>, map (read_back (dc_queued_rows dc step) res) hand, None)"
| m_decode: "opt_map (\<lambda>s. map_option (Pair (es_id s)) (next_input s)) (en_running st) = Some rows \<Longrightarrow>
    en_queued st = None \<Longrightarrow> en_running st \<noteq> [] \<Longrightarrow>
    dc_decode dc (en_decoder st) rows Logits_readback = (res, d) \<Longrightarrow>
    (\<And>decoded. res = Inr decoded \<Longrightarrow> map fst (hand_over decoded (en_running st)) = en_running st) \<Longrightarrow>
    micro dc tn (st, [], None)
      (case res of
         Inr decoded \<Rightarrow> (st\<lparr>en_decoder := d, en_running := []\<rparr>, hand_over decoded (en_running st), None)
       | Inl Out_of_blocks \<Rightarrow> (st\<lparr>en_decoder := d\<rparr>, [], None)
       | Inl (Decode_failed e) \<Rightarrow> (st\<lparr>en_decoder := d, en_running := []\<rparr>, map (\<lambda>s. (s, Lost)) (en_running st), None))"
| m_retire: "en_retired st = rs @ (i, w) # rs' \<Longrightarrow> i \<notin> set (queued_rows dc st) \<Longrightarrow>
    micro dc tn (st, hand, None) (st\<lparr>en_retired := rs @ rs', en_decoder := dc_free dc (en_decoder st) i\<rparr>, hand, None)"

abbreviation micros ::
  "('d, 'q, 'l, 'm) text_decoder \<Rightarrow> ('t, 'l, 'o) turn_ops \<Rightarrow>
   ('d, 'q, 't, 'm, 'o, 'l) config \<Rightarrow> ('d, 'q, 't, 'm, 'o, 'l) config \<Rightarrow> bool" where
  "micros dc tn \<equiv> (micro dc tn)\<^sup>*\<^sup>*"

lemma micros_trans: "micros dc tn a b \<Longrightarrow> micros dc tn b c \<Longrightarrow> micros dc tn a c"
  by (rule rtranclp_trans)

lemma micros_one: "micro dc tn a b \<Longrightarrow> micros dc tn a b"
  by (rule r_into_rtranclp)

lemma micros_cons: "micro dc tn a b \<Longrightarrow> micros dc tn b c \<Longrightarrow> micros dc tn a c"
  by (rule converse_rtranclp_into_rtranclp)

lemma micro_asked: "micros dc tn (st, hand, prev) (st\<lparr>en_asked := a\<rparr>, hand, prev)"
  using m_world [where dc = dc and tn = tn and st = st and hand = hand and prev = prev and a = a and r = "en_read st" and n = "en_steps st" and ms = "en_decode_step_ms st"] by (intro micros_one) simp

lemma micro_read: "micros dc tn (st, hand, prev) (st\<lparr>en_read := r\<rparr>, hand, prev)"
  using m_world [where dc = dc and tn = tn and st = st and hand = hand and prev = prev and a = "en_asked st" and r = r and n = "en_steps st" and ms = "en_decode_step_ms st"] by (intro micros_one) simp

lemma micro_steps: "micros dc tn (st, hand, prev) (st\<lparr>en_steps := n\<rparr>, hand, prev)"
  using m_world [where dc = dc and tn = tn and st = st and hand = hand and prev = prev and a = "en_asked st" and r = "en_read st" and n = n and ms = "en_decode_step_ms st"] by (intro micros_one) simp

lemma micro_fate: "fate_of st = (f, st') \<Longrightarrow> micros dc tn (st, hand, prev) (st', hand, prev)"
  using micro_asked [of dc tn st hand prev "Suc (en_asked st)"] micro_asked [of dc tn st hand prev "Suc (Suc (en_asked st))"]
  by (auto simp: fate_of_def ask_def split: if_splits)

lemma micro_elapsed: "elapsed st = (ms, st') \<Longrightarrow> micros dc tn (st, hand, prev) (st', hand, prev)"
  using micro_read [of dc tn st hand prev "Suc (en_read st)"] by (auto simp: elapsed_def)


lemma said_asked: "(said st s ev)\<lparr>en_asked := n\<rparr> = said (st\<lparr>en_asked := n\<rparr>) s ev"
  by (simp add: said_def)

lemma micro_tell:
  assumes "micros dc tn c (st, hand, None)" "micro dc tn c (said st s ev, hand, None)" "es_writer s' = es_writer s"
    and "send_event st s' ev = (ok, st')"
  shows "micros dc tn c (st', hand, None)"
proof -
  have "micros dc tn c (st\<lparr>en_asked := Suc (en_asked st)\<rparr>, hand, None)"
    "micros dc tn c (said (st\<lparr>en_asked := Suc (en_asked st)\<rparr>) s ev, hand, None)"
    using micros_trans [OF assms(1) micro_asked] micros_cons [OF assms(2) micro_asked, unfolded said_asked] by blast+
  then show ?thesis using assms(3,4) by (auto simp: send_event_def ask_def said_def split: if_splits)
qed

lemma release_same: "es_id s' = es_id s \<Longrightarrow> es_writer s' = es_writer s \<Longrightarrow> release_sequence dc st s' = release_sequence dc st s"
  by (simp add: release_sequence_def)

lemma micros_release:
  assumes "es_id s' = es_id s" "es_writer s' = es_writer s"
  shows "micros dc tn (st, (s, it) # hand, None) (release_sequence dc st s', hand, None)"
  using micros_one [OF m_release [of dc tn st s it hand None]] by (simp add: tell_def release_same [OF assms])

lemma micros_failed:
  assumes "es_id s' = es_id s" "es_writer s' = es_writer s"
  shows "micros dc tn (st, (s, it) # hand, None) (fail_sequence (release_sequence dc st s') s' e, hand, None)"
proof -
  obtain ok st' where send: "send_event (release_sequence dc st s) s' (Failed e) = (ok, st')"
    by (cases "send_event (release_sequence dc st s) s' (Failed e)")
  have "micro dc tn (st, (s, it) # hand, None) (said (release_sequence dc st s) s (Failed e), hand, None)"
    using m_release [of dc tn st s it hand "Some e"] by (simp add: tell_def)
  from micro_tell [OF micros_release this assms(2) send] have "micros dc tn (st, (s, it) # hand, None) (st', hand, None)" by simp
  then show ?thesis using send release_same [OF assms, of dc st] by (simp add: fail_sequence_def)
qed

section \<open>Releasing and sweeping\<close>

text \<open>Functions that ask the world or release a sequence do not look at the queue they are called from.\<close>

lemma fail_sequence_waiting: "fail_sequence (st\<lparr>en_waiting := ws\<rparr>) s e = (fail_sequence st s e)\<lparr>en_waiting := ws\<rparr>"
  by (simp add: fail_sequence_def send_event_def ask_def)

lemma fate_of_waiting: "fate_of st = (f, st') \<Longrightarrow> fate_of (st\<lparr>en_waiting := ws\<rparr>) = (f, st'\<lparr>en_waiting := ws\<rparr>)"
  by (auto simp: fate_of_def ask_def split: if_splits)

lemma micros_waiting:
  "sweep_waiting ws st = (kept, st') \<Longrightarrow>
   micros dc tn (st\<lparr>en_waiting := front @ ws\<rparr>, [], None) (st'\<lparr>en_waiting := front @ kept\<rparr>, [], None)"
proof (induction ws arbitrary: st front kept st')
  case (Cons s rest)
  obtain f st1 where f: "fate_of st = (f, st1)" by (cases "fate_of st")
  have asked: "micros dc tn (st\<lparr>en_waiting := front @ s # rest\<rparr>, [], None) (st1\<lparr>en_waiting := front @ s # rest\<rparr>, [], None)"
    by (rule micro_fate [OF fate_of_waiting [OF f]])
  note drop = m_drop [of "st1\<lparr>en_waiting := front @ s # rest\<rparr>" front s rest dc tn, unfolded tell_def, simplified]
  have lost: "micros dc tn (st1\<lparr>en_waiting := front @ s # rest\<rparr>, [], None) (st1\<lparr>en_waiting := front @ rest\<rparr>, [], None)"
    using micros_one [OF drop [of None]] by simp
  have told: "micros dc tn (st1\<lparr>en_waiting := front @ s # rest\<rparr>, [], None)
      (fail_sequence (st1\<lparr>en_waiting := front @ rest\<rparr>) s Deadline_exceeded, [], None)"
    unfolding fail_sequence_def
    by (rule micro_tell [OF lost _ refl surjective_pairing]) (use drop [of "Some Deadline_exceeded"] in simp)
  show ?case
  proof (cases f)
    case Cancelled
    then have rec: "sweep_waiting rest st1 = (kept, st')" using Cons.prems f by simp
    show ?thesis
      using micros_trans [OF asked micros_trans [OF lost Cons.IH [OF rec]]] .
  next
    case Expired
    then have rec: "sweep_waiting rest (fail_sequence st1 s Deadline_exceeded) = (kept, st')" using Cons.prems f by simp
    show ?thesis
      using micros_trans [OF asked micros_trans [OF told [unfolded fail_sequence_waiting] Cons.IH [OF rec]]] .
  next
    case Wanted
    obtain kept' where rec: "sweep_waiting rest st1 = (kept', st')" and kept: "kept = s # kept'"
      using Cons.prems f Wanted by (auto split: prod.splits)
    show ?thesis using micros_trans [OF asked] Cons.IH [OF rec, of "front @ [s]"] kept by simp
  qed
qed simp

lemma micros_prefilling: "micros dc tn (st, [], None) (sweep_prefilling dc st, [], None)"
proof (cases "en_prefilling st")
  case (Some p)
  let ?hand = "[(pf_sequence p, Part (pf_done p) (pf_cached_tokens p) (pf_cache_write_tokens p))]"
  obtain f st1 where f: "fate_of (st\<lparr>en_prefilling := None\<rparr>) = (f, st1)" by (cases "fate_of (st\<lparr>en_prefilling := None\<rparr>)")
  have taken: "micros dc tn (st, [], None) (st1, ?hand, None)"
    by (rule micros_cons [OF m_resume [OF Some] micro_fate [OF f]])
  have p: "\<lparr>pf_sequence = pf_sequence p, pf_done = pf_done p, pf_cached_tokens = pf_cached_tokens p,
      pf_cache_write_tokens = pf_cache_write_tokens p\<rparr> = p" by simp
  have pause: "micro dc tn (st1, ?hand, None) (st1\<lparr>en_prefilling := Some p\<rparr>, [], None)"
    using m_pause [of st1 dc tn "pf_sequence p" "pf_done p" "pf_cached_tokens p" "pf_cache_write_tokens p"] fate_of_frame(3) [OF f]
    unfolding p by simp
  show ?thesis
    using taken micros_trans [OF taken micros_release] micros_trans [OF taken micros_failed] micros_trans [OF taken micros_one [OF pause]]
    by (cases f) (simp_all add: sweep_prefilling_def Some f)
qed (simp add: sweep_prefilling_def)

lemma micros_running:
  "micros dc tn (st, map (\<lambda>s. (s, Keep)) ss, None) (sweep_running dc ss st, [], None)"
proof (induction ss arbitrary: st)
  case (Cons s rest)
  obtain f st1 where f: "fate_of st = (f, st1)" by (cases "fate_of st")
  let ?hand = "map (\<lambda>s. (s, Keep)) rest"
  note asked = micro_fate [OF f, of dc tn "(s, Keep) # ?hand" None]
  show ?case
  proof (cases f)
    case Wanted
    show ?thesis using micros_trans [OF asked micros_cons [OF m_keep Cons.IH]] f Wanted by simp
  next
    case Cancelled
    show ?thesis
      using micros_trans [OF asked micros_trans [OF micros_release [OF refl refl] Cons.IH]] f Cancelled by simp
  next
    case Expired
    show ?thesis
      using micros_trans [OF asked micros_trans [OF micros_failed [OF refl refl] Cons.IH]] f Expired by simp
  qed
qed simp

lemma micros_retire:
  "micros dc tn (st\<lparr>en_retired := retained @ rest\<rparr>, hand, None) (retire_loop dc retained rest st, hand, None)"
proof (induction dc retained rest st rule: retire_loop.induct)
  case (2 dc retained i w rest st)
  show ?case
  proof (cases "i \<in> set (queued_rows dc st)")
    case True
    then show ?thesis using 2(1) by simp
  next
    case False
    have "micro dc tn (st\<lparr>en_retired := retained @ (i, w) # rest\<rparr>, hand, None)
        (st\<lparr>en_retired := retained @ rest, en_decoder := dc_free dc (en_decoder st) i\<rparr>, hand, None)"
      using m_retire [of "st\<lparr>en_retired := retained @ (i, w) # rest\<rparr>" retained i w rest dc tn hand] False
      by (simp add: queued_rows_def)
    moreover have "st\<lparr>en_retired := retained @ rest, en_decoder := dc_free dc (en_decoder st) i\<rparr> =
        st\<lparr>en_decoder := dc_free dc (en_decoder st) i, en_retired := retained @ rest\<rparr>" by simp
    ultimately have "micro dc tn (st\<lparr>en_retired := retained @ (i, w) # rest\<rparr>, hand, None)
        (st\<lparr>en_decoder := dc_free dc (en_decoder st) i, en_retired := retained @ rest\<rparr>, hand, None)" by (simp only:)
    from micros_cons [OF this 2(2) [OF False]] show ?thesis using False by simp
  qed
qed simp

lemma micros_retired: "micros dc tn (st, hand, None) (release_retired dc st, hand, None)"
  using micros_retire [where retained = "[]" and rest = "en_retired st" and st = st] by (simp add: release_retired_def)


section \<open>Admission\<close>

lemma micros_pick:
  "micros dc tn (st, (s, it) # hand, None) (settle_pick dc tn st (s\<lparr>es_decode_ms := tms\<rparr>) (picked tn (es_turn s) it), hand, None)"
proof -
  obtain r t where pick: "picked tn (es_turn s) it = (r, t)" by (cases "picked tn (es_turn s) it")
  show ?thesis
  proof (cases r)
    case (Inl e)
    then show ?thesis unfolding pick settle_pick_def by (simp add: Let_def micros_failed)
  next
    case (Inr a)
    note pick = pick [unfolded Inr]
    let ?s = "went_on s t a tms" and ?st = "st\<lparr>en_asked := Suc (en_asked st)\<rparr>"
    have went: "s\<lparr>es_decode_ms := tms, es_turn := t, es_context := es_context s @ [ac_token a]\<rparr> = ?s" by (simp add: went_on_def)
    note asked = micro_asked [of dc tn st "(s, it) # hand" None "Suc (en_asked st)"]
    show ?thesis
    proof (cases "en_answers st (en_asked st)")
      case False
      then have "settle_pick dc tn st (s\<lparr>es_decode_ms := tms\<rparr>) (Inr a, t) = release_sequence dc ?st ?s"
        by (simp add: settle_pick_def accepted_token_def send_event_def ask_def went Let_def)
      then show ?thesis
        using micros_trans [OF asked micros_release [of ?s s dc tn ?st it hand]] unfolding pick by (simp add: went_on_def)
    next
      case True
      have sent: "send_event st ?s (Token a) = (True, said ?st s (Token a))"
        using True by (simp add: send_event_def ask_def said_def went_on_def)
      show ?thesis
      proof (cases "ac_step a")
        case Continue
        then show ?thesis
          using micros_trans [OF asked micros_one [OF m_token [OF pick Continue]]] sent unfolding pick
          by (simp add: settle_pick_def accepted_token_def went Let_def said_def)
      next
        case (Stop reason)
        let ?st2 = "release_sequence dc (said ?st s (Token a)) s" and ?ev = "end_event tn t reason tms"
        have same: "release_sequence dc (said ?st s (Token a)) ?s = ?st2" by (rule release_same) simp_all
        have lost: "micros dc tn (?st, (s, it) # hand, None) (?st2, hand, None)"
          using micros_one [OF m_stop [OF pick Stop, of None]] by (simp add: tell_def)
        have "micro dc tn (?st, (s, it) # hand, None) (said ?st2 s ?ev, hand, None)"
          using m_stop [OF pick Stop, where ev = "Some ?ev" and tms = tms] by (simp add: tell_def)
        from micro_tell [OF lost this _ surjective_pairing]
        have "micros dc tn (?st, (s, it) # hand, None) (snd (send_event ?st2 ?s ?ev), hand, None)" by simp
        then show ?thesis
          using micros_trans [OF asked] sent same Stop unfolding pick
          by (cases "tn_finish tn t") (simp_all add: settle_pick_def accepted_token_def went Let_def end_event_def)
      qed
    qed
  qed
qed

lemma micros_prefilled:
  "micros dc tn (st, (s, First logits c w) # hand, None) (prefilled dc tn st s logits (c, w), hand, None)"
proof (cases "resumed s")
  case True
  then show ?thesis using micros_one [OF m_rejoin [OF True]] by (simp add: prefilled_def)
next
  case False
  obtain ms st1 where e: "elapsed st = (ms, st1)" by (cases "elapsed st")
  let ?st = "st1\<lparr>en_asked := Suc (en_asked st1)\<rparr>" and ?hand = "(s, First logits c w) # hand"
  have asked: "micros dc tn (st, ?hand, None) (?st, ?hand, None)"
    by (rule micros_trans [OF micro_elapsed [OF e] micro_asked])
  show ?thesis
  proof (cases "en_answers st1 (en_asked st1)")
    case True
    let ?said = "said ?st s (Prefilled c w ms)"
    have "micros dc tn (?said, (s, Row logits) # hand, None) (settle_pick dc tn ?said s (tn_pick tn (es_turn s) logits), hand, None)"
      using micros_pick [of dc tn ?said s "Row logits" hand "es_decode_ms s"] by simp
    from micros_trans [OF asked micros_cons [OF m_prefilled [OF False] this]] show ?thesis
      using False e True by (simp add: prefilled_def send_event_def ask_def said_def)
  next
    case lost: False
    then show ?thesis using micros_trans [OF asked micros_release] False e by (simp add: prefilled_def send_event_def ask_def)
  qed
qed

text \<open>What a function that looks for a prompt to prefill leaves in hand.\<close>

definition found_hand :: "('t, 'm) prefilling option \<Rightarrow> (('t, 'm) eseq \<times> 'l item) list" where
  "found_hand found =
     (case found of
        None \<Rightarrow> []
      | Some p \<Rightarrow> [(pf_sequence p, Part (pf_done p) (pf_cached_tokens p) (pf_cache_write_tokens p))])"

lemma micros_admission:
  "admission_loop dc ws st = Some (found, st') \<Longrightarrow> en_waiting st = ws \<Longrightarrow> en_prefilling st = None \<Longrightarrow>
   micros dc tn (st, [], None) (st', found_hand found, None)"
proof (induction dc ws st rule: admission_loop.induct)
  case (2 dc s rest st)
  note waiting = 2(3)
  show ?case
  proof (cases "length (en_running st) \<ge> el_max_num_seqs (en_limits st)")
    case True
    then show ?thesis using 2(2) by (simp add: found_hand_def)
  next
    case False
    show ?thesis
    proof (cases "dc_prefill_cost dc (en_decoder st) (prefill_ids s) (es_keys s)")
      case (Inl e)
      have "micros dc tn (fail_sequence (release_sequence dc (st\<lparr>en_waiting := rest\<rparr>) s) s (decode_error_message e), [], None)
          (st', found_hand found, None)"
        by (rule 2(1) [OF False Inl]) (use 2(2,4) False Inl in auto)
      then show ?thesis
        using micros_cons [OF m_admit [OF waiting 2(4)] micros_trans [OF micros_failed [OF refl refl]]] False by simp
    next
      case (Inr cost)
      show ?thesis
        using 2(2) False Inr micros_one [OF m_admit [OF waiting 2(4)]] by (auto simp: found_hand_def split: if_splits option.splits)
    qed
  qed
qed (simp add: found_hand_def)

lemma micros_next_prefill:
  assumes "next_prefill dc st = Some (found, st')"
  shows "micros dc tn (st, [], None) (st', found_hand found, None)"
proof (cases "en_prefilling st")
  case None
  then show ?thesis using assms micros_admission by (fastforce simp: next_prefill_def next_admission_def)
next
  case (Some p)
  then show ?thesis using assms micros_one [OF m_resume [OF Some]] by (simp add: next_prefill_def found_hand_def Some) auto
qed

lemma requeue_config:
  "requeue (release_sequence dc st s) s = Some st' \<Longrightarrow> micros dc tn (st, [(s, Lost)], None) (st', [], None)"
  by (intro micros_one m_requeue) simp_all

lemma micros_admit_pass:
  assumes "admit_pass dc tn fl b sp ch st = Some r"
  shows "micros dc tn (st, [], None) (case r of Inl (_, st') \<Rightarrow> st' | Inr (_, _, _, st') \<Rightarrow> st', [], None)"
proof -
  obtain found st1 where Pair: "next_prefill dc st = Some (found, st1)"
    using assms by (auto simp: admit_pass_def split: option.splits)
  note found = micros_next_prefill [OF Pair, of tn]
  show ?thesis
  proof (cases found)
    case None
    then show ?thesis using assms found Pair by (auto simp: admit_pass_def found_hand_def)
  next
    case (Some p)
    let ?s = "pf_sequence p"
    have none: "en_prefilling st1 = None" using next_prefill_work Pair Some by blast
    have pause: "micros dc tn (st1\<lparr>en_decoder := d\<rparr>, [(?s, Part n c w)], None)
        (st1\<lparr>en_decoder := d, en_prefilling := Some \<lparr>pf_sequence = ?s, pf_done = n, pf_cached_tokens = c, pf_cache_write_tokens = w\<rparr>\<rparr>, [], None)" for d n c w
      using micros_one [OF m_pause [of "st1\<lparr>en_decoder := d\<rparr>" dc tn ?s n c w]] none by simp
    have p: "\<lparr>pf_sequence = ?s, pf_done = pf_done p, pf_cached_tokens = pf_cached_tokens p,
        pf_cache_write_tokens = pf_cache_write_tokens p\<rparr> = p" by simp
    note found = found [unfolded Some found_hand_def, simplified]
    obtain cb where cb: "chunk_budget dc fl st1 p (en_running st1 = []) ch b = Some cb"
      using assms Pair Some by (fastforce simp: admit_pass_def Let_def split: option.splits)
    show ?thesis
    proof (cases cb)
      case None
      then have "r = Inl (sp, st1\<lparr>en_prefilling := Some p\<rparr>)" using assms Pair Some cb by (simp add: admit_pass_def Let_def)
      then show ?thesis
        using micros_trans [OF found] pause [of "en_decoder st1" "pf_done p" "pf_cached_tokens p" "pf_cache_write_tokens p"]
        unfolding p by simp
    next
      case (Some budget)
      obtain res d where pc: "dc_prefill_chunk dc (en_decoder st1) (es_id ?s) (prefill_ids ?s) (es_keys ?s) budget = (res, d)"
        by (cases "dc_prefill_chunk dc (en_decoder st1) (es_id ?s) (prefill_ids ?s) (es_keys ?s) budget")
      note assms = assms [unfolded admit_pass_def Pair \<open>found = Some p\<close> prod.case option.case Let_def cb Some pc]
      note filled = micros_trans [OF found micros_one [OF m_prefill [OF pc refl]]]
      show ?thesis
      proof (cases res)
        case (Inr chunk)
        show ?thesis
        proof (cases "pk_logits chunk")
          case None
          then show ?thesis using assms filled [unfolded Inr] micros_trans [OF _ pause] Inr by (auto simp: None add_usize_def split: bind_splits if_splits)
        next
          case (Some logits)
          then show ?thesis using assms filled [unfolded Inr] micros_trans [OF _ micros_prefilled] Inr by (auto simp: Some add_usize_def split: bind_splits if_splits)
        qed
      next
        case (Inl e)
        note filled = filled [unfolded Inl sum.case]
        have fail: "micros dc tn (st1\<lparr>en_decoder := d\<rparr>, [(?s, Lost)], None)
            (fail_sequence (release_sequence dc (st1\<lparr>en_decoder := d\<rparr>) ?s) ?s m, [], None)" for m
          by (rule micros_failed [OF refl refl])
        show ?thesis
          using assms Inl micros_trans [OF filled fail] micros_trans [OF filled requeue_config]
          by (auto split: if_splits)
      qed
    qed
  qed
qed

lemma micros_admit: "admit dc tn fl st = Some (ms, st') \<Longrightarrow> micros dc tn (st, [], None) (st', [], None)"
proof -
  have "admit_loop dc tn fl b sp ch st = Some (ms, st') \<Longrightarrow> micros dc tn (st, [], None) (st', [], None)" for b sp ch
  proof (induction dc tn fl b sp ch st rule: admit_loop.induct)
    case (1 dc tn fl b sp ch st)
    from 1(2) obtain r where r: "admit_pass dc tn fl b sp ch st = Some r" by (subst (asm) admit_loop.simps) (auto split: option.splits)
    note pass = micros_admit_pass [OF r]
    show ?case
    proof (cases r)
      case (Inl x)
      then show ?thesis using pass 1(2) r by (subst (asm) admit_loop.simps) simp
    next
      case (Inr x)
      obtain b' sp' ch' st1 where x: "x = (b', sp', ch', st1)" by (cases x) 
      have "admit_loop dc tn fl b' sp' ch' st1 = Some (ms, st')" using 1(2) r Inr x by (subst (asm) admit_loop.simps) simp
      then show ?thesis using micros_trans [OF pass] 1(1) [OF r Inr, of b' "(sp', ch', st1)" sp' "(ch', st1)" ch' st1] x Inr by simp
    qed
  qed
  then show "admit dc tn fl st = Some (ms, st') \<Longrightarrow> ?thesis" by (simp add: admit_def)
qed


section \<open>Decoding\<close>

lemma micros_fail_rows:
  "micros dc tn (st, map (\<lambda>s. (s, if failed (es_id s) then Lost else Keep)) ss, None) (fail_rows dc failed error ss st, [], None)"
proof (induction ss arbitrary: st)
  case (Cons s rest)
  show ?case
    using micros_cons [OF m_keep Cons.IH] micros_trans [OF micros_failed [OF refl refl] Cons.IH] by simp
qed simp

lemma micros_fail_all: "micros dc tn (st, map (\<lambda>s. (s, Lost)) ss, None) (fail_rows dc (\<lambda>i. True) error ss st, [], None)"
  using micros_fail_rows [of dc tn st "\<lambda>i. True"] by simp

lemma read_back_token:
  "position (es_id s) rows = Some i \<Longrightarrow> list_get tokens i = Some token \<Longrightarrow>
   read_back rows (Inr tokens) (s, Keep) = (s, Gpu token)"
  by (auto simp: read_back_def list_get_def split: if_splits)

lemma micros_settle_rows:
  "settle_rows dc tn rows tokens ms ss st = Some st' \<Longrightarrow>
   micros dc tn (st, map (\<lambda>s. read_back rows (Inr tokens) (s, Keep)) ss, None) (st', [], None)"
proof (induction ss arbitrary: st)
  case (Cons s rest)
  show ?case
  proof (cases "position (es_id s) rows")
    case None
    then have "settle_rows dc tn rows tokens ms rest (st\<lparr>en_running := en_running st @ [s]\<rparr>) = Some st'"
      using Cons.prems by simp
    from micros_cons [OF m_keep Cons.IH [OF this]] show ?thesis using None by (simp add: read_back_def)
  next
    case (Some i)
    obtain token where token: "list_get tokens i = Some token"
      and rest: "settle_rows dc tn rows tokens ms rest
        (settle_pick dc tn st (s\<lparr>es_decode_ms := es_decode_ms s @ [ms]\<rparr>) (tn_accept_gpu tn (es_turn s) token)) = Some st'"
      using Cons.prems Some by (auto simp: Let_def split: option.splits bind_splits)
    show ?thesis
      using micros_trans [OF micros_pick [where it = "Gpu token", unfolded picked.simps] Cons.IH [OF rest]]
      by (simp only: list.map read_back_token [OF Some token])
  qed
qed simp

lemma position_None: "position i rows = None \<longleftrightarrow> i \<notin> set rows"
  by (induction rows) auto

lemma read_back_failed:
  "read_back rows (Inl e) (s, Keep) = (s, if es_id s \<in> set rows then Lost else Keep)"
  using position_None [of "es_id s" rows] by (cases "position (es_id s) rows") (auto simp: read_back_def)

lemma micros_settle:
  assumes "settle dc tn st step = Some st'"
  shows "micros dc tn (st, [], Some step) (st', [], None)"
proof -
  let ?rows = "dc_queued_rows dc step"
  obtain res d where fin: "dc_finish dc (en_decoder st) step = (res, d)" by (cases "dc_finish dc (en_decoder st) step")
  obtain ms st1 where el: "elapsed (st\<lparr>en_decoder := d\<rparr>) = (ms, st1)" by (cases "elapsed (st\<lparr>en_decoder := d\<rparr>)")
  let ?st = "st1\<lparr>en_steps := en_steps st1 + 1, en_running := []\<rparr>"
  have st1: "st1 = st\<lparr>en_decoder := d, en_read := Suc (en_read st)\<rparr>" using el by (auto simp: elapsed_def)
  have after: "?st = st\<lparr>en_running := [], en_decoder := d, en_read := Suc (en_read st), en_steps := Suc (en_steps st)\<rparr>"
    by (simp add: st1)
  let ?hand = "map (\<lambda>s. read_back ?rows res (s, Keep)) (en_running st)"
  have "micro dc tn (st\<lparr>en_running := []\<rparr>, map (\<lambda>s. (s, Keep)) (en_running st), Some step)
      (st\<lparr>en_running := [], en_decoder := d\<rparr>, ?hand, None)"
    using m_finish [where st = "st\<lparr>en_running := []\<rparr>" and hand = "map (\<lambda>s. (s, Keep)) (en_running st)" and tn = tn, OF _ _] fin by (simp add: comp_def)
  from micros_cons [OF m_take micros_one [OF this]]
  have "micros dc tn (st, [], Some step) (st\<lparr>en_running := [], en_decoder := d\<rparr>, ?hand, None)" .
  moreover have "micros dc tn (st\<lparr>en_running := [], en_decoder := d\<rparr>, ?hand, None) (?st, ?hand, None)"
    unfolding after using micros_one [OF m_world [where dc = dc and tn = tn and st = "st\<lparr>en_running := [], en_decoder := d\<rparr>" and hand = ?hand and prev = None
        and a = "en_asked st" and r = "Suc (en_read st)" and n = "en_steps st + 1" and ms = "en_decode_step_ms st"]]
    by simp
  moreover have "micros dc tn (?st, ?hand, None) (st', [], None)"
  proof (cases res)
    case (Inl e)
    have running: "en_running st1 = en_running st" by (simp add: st1)
    obtain m where "st' = fail_rows dc (\<lambda>i. i \<in> set ?rows) m (en_running st) ?st"
      using assms fin el Inl running by (auto simp: settle_def checked_add_u64_def Let_def split: if_splits)
    then show ?thesis using micros_fail_rows [of dc tn ?st "\<lambda>i. i \<in> set ?rows"] by (simp add: Inl read_back_failed)
  next
    case (Inr tokens)
    have running: "en_running st1 = en_running st" by (simp add: st1)
    show ?thesis using assms fin el Inr running micros_settle_rows [of dc tn ?rows tokens ms "en_running st" ?st st']
      by (simp add: settle_def checked_add_u64_def Let_def split: if_splits)
  qed
  ultimately show ?thesis using micros_trans by blast
qed

lemma micros_preempt:
  assumes "preempt dc st = Some st'"
  shows "micros dc tn (st, [], None) (st', [], None)"
proof (cases "en_prefilling st")
  case (Some p)
  let ?hand = "[(pf_sequence p, Part (pf_done p) (pf_cached_tokens p) (pf_cache_write_tokens p))]"
  have "requeue (release_sequence dc (st\<lparr>en_prefilling := None\<rparr>) (pf_sequence p)) (pf_sequence p) = Some st'"
    using assms Some by (simp add: preempt_def)
  then have "micro dc tn (st\<lparr>en_prefilling := None\<rparr>, ?hand, None) (st', [], None)" by (rule m_requeue) simp
  then show ?thesis by (rule micros_cons [OF m_resume [OF Some] micros_one])
next
  case None
  show ?thesis
  proof (cases "en_running st = []")
    case True
    then show ?thesis using assms None by (simp add: preempt_def)
  next
    case False
    let ?s = "last (en_running st)" and ?st = "st\<lparr>en_running := butlast (en_running st)\<rparr>"
    have take: "micro dc tn (st, [], None) (?st, [(?s, Keep)], None)" using False by (intro m_take_last) simp
    have "micros dc tn (?st, [(?s, Keep)], None) (st', [], None)"
    proof (cases "butlast (en_running st) = []")
      case True
      then show ?thesis
        using assms None False micros_failed [OF refl refl, of dc tn ?st ?s Keep "[]" "Message ''the sequence outgrew the KV pool''"]
        by (simp add: preempt_def Let_def)
    next
      case more: False
      then show ?thesis using assms None False by (intro micros_one m_requeue) (simp_all add: preempt_def Let_def)
    qed
    then show ?thesis by (rule micros_cons [OF take])
  qed
qed

lemma micros_now_rows:
  "now_rows dc tn decoded ms index ss st = Some st' \<Longrightarrow>
   micros dc tn (st,
     (case decoded of
        Greedy_tokens tokens \<Rightarrow> zip ss (map Gpu (drop index tokens))
      | Logit_rows rows \<Rightarrow> zip ss (map Row (drop index rows))), None) (st', [], None)"
proof (induction ss arbitrary: index st)
  case Nil
  then show ?case by (cases decoded) simp_all
next
  case (Cons s rest)
  have drop: "list_get xs index = Some x \<Longrightarrow> drop index xs = x # drop (Suc index) xs" for xs :: "'x list" and x
    by (auto simp: list_get_def Cons_nth_drop_Suc split: if_splits)
  show ?case
  proof (cases decoded)
    case (Greedy_tokens tokens)
    obtain token where token: "list_get tokens index = Some token"
      and rest: "now_rows dc tn decoded ms (Suc index) rest
        (settle_pick dc tn st (s\<lparr>es_decode_ms := es_decode_ms s @ [ms]\<rparr>) (tn_accept_gpu tn (es_turn s) token)) = Some st'"
      using Cons.prems Greedy_tokens by (auto simp: Let_def split: option.splits bind_splits)
    show ?thesis
      using micros_trans [OF micros_pick [where it = "Gpu token", unfolded picked.simps] Cons.IH [OF rest]] Greedy_tokens drop [OF token]
      by simp
  next
    case (Logit_rows rows)
    obtain logits where logits: "list_get rows index = Some logits"
      and rest: "now_rows dc tn decoded ms (Suc index) rest
        (settle_pick dc tn st (s\<lparr>es_decode_ms := es_decode_ms s @ [ms]\<rparr>) (tn_pick tn (es_turn s) logits)) = Some st'"
      using Cons.prems Logit_rows by (auto simp: Let_def split: option.splits bind_splits)
    show ?thesis
      using micros_trans [OF micros_pick [where it = "Row logits", unfolded picked.simps] Cons.IH [OF rest]] Logit_rows drop [OF logits]
      by simp
  qed
qed


lemma now_rows_covers:
  "now_rows dc tn decoded ms index ss st = Some st' \<Longrightarrow>
   ss = [] \<or> index + length ss \<le> (case decoded of Greedy_tokens tokens \<Rightarrow> length tokens | Logit_rows rows \<Rightarrow> length rows)"
proof (induction ss arbitrary: index st)
  case (Cons s rest)
  obtain pick where "now_rows dc tn decoded ms (Suc index) rest
      (settle_pick dc tn st (s\<lparr>es_decode_ms := es_decode_ms s @ [ms]\<rparr>) pick) = Some st'"
    and here: "index < (case decoded of Greedy_tokens tokens \<Rightarrow> length tokens | Logit_rows rows \<Rightarrow> length rows)"
    using Cons.prems by (cases decoded) (auto simp: Let_def list_get_def split: bind_splits if_splits)
  from Cons.IH [OF this(1)] here show ?case by (cases rest) auto
qed simp

lemma now_rows_hand:
  assumes "now_rows dc tn decoded ms 0 ss st = Some st'"
  shows "map fst (hand_over decoded ss) = ss"
  using now_rows_covers [OF assms] by (cases decoded) (auto simp: hand_over_def map_fst_zip_take)

lemma micros_decode_now:
  assumes "decode_now dc tn st = Some st'" "en_queued st = None" "en_running st \<noteq> []"
  shows "micros dc tn (st, [], None) (st', [], None)"
proof -
  obtain rows where rows: "opt_map (\<lambda>s. map_option (Pair (es_id s)) (next_input s)) (en_running st) = Some rows"
    using assms(1) by (auto simp: decode_now_def split: bind_splits)
  obtain res d where dec: "dc_decode dc (en_decoder st) rows Logits_readback = (res, d)"
    by (cases "dc_decode dc (en_decoder st) rows Logits_readback")
  have covered: "map fst (hand_over decoded (en_running st)) = en_running st" if res: "res = Inr decoded" for decoded
    using assms(1) rows dec res
    by (auto simp: decode_now_def elapsed_def split: prod.splits bind_splits dest: now_rows_hand)
  note step = m_decode [OF rows assms(2,3) dec covered, of tn]
  show ?thesis
  proof (cases res)
    case (Inl e)
    show ?thesis
    proof (cases e)
      case Out_of_blocks
      then have "preempt dc (st\<lparr>en_decoder := d\<rparr>) = Some st'" using assms(1) rows dec Inl by (simp add: decode_now_def)
      then show ?thesis using micros_cons [OF _ micros_preempt] step Inl Out_of_blocks by simp
    next
      case (Decode_failed m)
      let ?st = "st\<lparr>en_decoder := d, en_running := []\<rparr>"
      have "st' = fail_rows dc (\<lambda>i. True) (Message m) (en_running st) ?st"
        using assms(1) rows dec Inl Decode_failed by (simp add: decode_now_def)
      then show ?thesis using micros_cons [OF _ micros_fail_all [of dc tn ?st]] step Inl Decode_failed by simp
    qed
  next
    case (Inr decoded)
    obtain ms st1 where el: "elapsed (st\<lparr>en_decoder := d\<rparr>) = (ms, st1)" by (cases "elapsed (st\<lparr>en_decoder := d\<rparr>)")
    let ?st = "st1\<lparr>en_steps := en_steps st1 + 1, en_running := []\<rparr>" and ?hand = "hand_over decoded (en_running st)"
    have after: "?st = st\<lparr>en_decoder := d, en_running := [], en_read := Suc (en_read st), en_steps := Suc (en_steps st)\<rparr>"
      and running: "en_running st1 = en_running st" using el by (auto simp: elapsed_def)
    have "micros dc tn (st\<lparr>en_decoder := d, en_running := []\<rparr>, ?hand, None) (?st, ?hand, None)"
      unfolding after
      using micros_one [OF m_world [where dc = dc and tn = tn and st = "st\<lparr>en_decoder := d, en_running := []\<rparr>" and hand = ?hand
          and prev = None and a = "en_asked st" and r = "Suc (en_read st)" and n = "Suc (en_steps st)" and ms = "en_decode_step_ms st"]]
      by simp
    moreover have "now_rows dc tn decoded ms 0 (en_running st) ?st = Some st'"
      using assms(1) rows dec Inr el running by (simp add: decode_now_def checked_add_u64_def split: if_splits)
    then have "micros dc tn (?st, ?hand, None) (st', [], None)"
      using micros_now_rows [of dc tn decoded ms 0 "en_running st" ?st st'] by (cases decoded) (simp_all add: hand_over_def)
    ultimately show ?thesis using micros_cons micros_trans step Inr by (metis (no_types, lifting) sum.case(2))
  qed
qed

lemma retire_loop_running:
  "retire_loop dc retained rest (st\<lparr>en_running := rs\<rparr>) = (retire_loop dc retained rest st)\<lparr>en_running := rs\<rparr>"
proof (induction dc retained rest st rule: retire_loop.induct)
  case (2 dc retained i w rest st)
  have rows: "queued_rows dc (st\<lparr>en_running := rs\<rparr>) = queued_rows dc st" by (simp add: queued_rows_def)
  have swap: "st\<lparr>en_running := rs, en_decoder := d\<rparr> = st\<lparr>en_decoder := d, en_running := rs\<rparr>" for d by simp
  show ?case using 2 rows by (simp add: swap)
qed simp

lemma release_retired_running:
  "release_retired dc (st\<lparr>en_running := rs\<rparr>) = (release_retired dc st)\<lparr>en_running := rs\<rparr>"
  by (simp add: release_retired_def retire_loop_running)

lemma retire_loop_frame:
  "en_running (retire_loop dc retained rest st) = en_running st \<and> en_queued (retire_loop dc retained rest st) = en_queued st"
  by (induction dc retained rest st rule: retire_loop.induct) auto

lemma release_retired_frame [simp]:
  "en_running (release_retired dc st) = en_running st" "en_queued (release_retired dc st) = en_queued st"
  by (simp_all add: release_retired_def retire_loop_frame)

lemma map_read_back_lost: "map (read_back rows res) (map (\<lambda>s. (s, Lost)) ss) = map (\<lambda>s. (s, Lost)) ss"
  by (simp add: read_back_def)

lemma micros_decode_pipelined:
  assumes "decode_pipelined dc tn st = Some st'" "en_running st \<noteq> []"
    "list_all (\<lambda>s. tn_gpu_greedy tn (es_turn s)) (en_running st)"
  shows "micros dc tn (st, [], None) (st', [], None)"
proof -
  obtain rows where rows: "opt_map (step_row dc (en_queued st)) (en_running st) = Some rows"
    using assms(1) by (auto simp: decode_pipelined_def Let_def split: bind_splits)
  obtain res d where q: "dc_queue dc (en_decoder st) rows (en_queued st) = (res, d)"
    by (cases "dc_queue dc (en_decoder st) rows (en_queued st)")
  note step = m_queue [OF rows assms(2,3) q]
  note run = assms(1) [unfolded decode_pipelined_def Let_def]
  have settled: "micros dc tn (st1, [], en_queued st) (st', [], None)"
    if bind: "Option.bind (case en_queued st of Some step \<Rightarrow> settle dc tn st1 step
        | None \<Rightarrow> if en_queued st1 = None then preempt dc st1 else Some st1) (\<lambda>st. Some (release_retired dc st)) = Some st'" for st1
  proof -
    obtain st2 where st2: "(case en_queued st of Some step \<Rightarrow> settle dc tn st1 step
        | None \<Rightarrow> if en_queued st1 = None then preempt dc st1 else Some st1) = Some st2" and st': "st' = release_retired dc st2"
      using bind by (auto split: bind_splits)
    have "micros dc tn (st1, [], en_queued st) (st2, [], None)"
      using st2 micros_settle micros_preempt by (fastforce split: option.splits if_splits)
    then show ?thesis unfolding st' by (rule micros_trans [OF _ micros_retired])
  qed
  show ?thesis
  proof (cases res)
    case (Inr new)
    let ?st1 = "st\<lparr>en_decoder := d, en_queued := Some new\<rparr>"
    have "micros dc tn (?st1, [], en_queued st) (st', [], None)"
      by (rule settled) (use run rows q Inr in \<open>simp cong: option.case_cong\<close>)
    then show ?thesis using step micros_cons Inr by fastforce
  next
    case (Inl e)
    show ?thesis
    proof (cases e)
      case Out_of_blocks
      let ?st1 = "st\<lparr>en_decoder := d, en_queued := None\<rparr>"
      have "micros dc tn (?st1, [], en_queued st) (st', [], None)"
        by (rule settled) (use run rows q Inl Out_of_blocks in \<open>simp cong: option.case_cong\<close>)
      then show ?thesis using step micros_cons Inl Out_of_blocks by fastforce
    next
      case (Decode_failed m)
      let ?st = "st\<lparr>en_decoder := d, en_queued := None, en_running := []\<rparr>" and ?lost = "map (\<lambda>s. (s, Lost)) (en_running st)"
      let ?d = "case en_queued st of None \<Rightarrow> d | Some step \<Rightarrow> snd (dc_finish dc d step)"
      let ?st1 = "st\<lparr>en_decoder := ?d, en_queued := None, en_running := []\<rparr>"
      have "micros dc tn (?st, ?lost, en_queued st) (?st1, ?lost, None)"
      proof (cases "en_queued st")
        case (Some step)
        obtain r d' where fin: "dc_finish dc d step = (r, d')" by (cases "dc_finish dc d step")
        have "micro dc tn (?st, ?lost, Some step) (?st\<lparr>en_decoder := d'\<rparr>, map (read_back (dc_queued_rows dc step) r) ?lost, None)"
          by (rule m_finish) (simp_all add: fin)
        moreover have "?st\<lparr>en_decoder := d'\<rparr> = ?st1" using Some fin by simp
        ultimately show ?thesis unfolding map_read_back_lost using Some by (simp only: r_into_rtranclp)
      qed simp
      moreover have "micros dc tn (?st1, ?lost, None) (release_retired dc ?st1, ?lost, None)" by (rule micros_retired)
      moreover have "micros dc tn (release_retired dc ?st1, ?lost, None)
          (fail_rows dc (\<lambda>i. True) (Message m) (en_running st) (release_retired dc ?st1), [], None)"
        by (rule micros_fail_all)
      moreover have "st' = fail_rows dc (\<lambda>i. True) (Message m) (en_running st) (release_retired dc ?st1)"
      proof -
        have eq: "?st1 = (st\<lparr>en_queued := None, en_decoder := ?d\<rparr>)\<lparr>en_running := []\<rparr>" by simp
        show ?thesis unfolding eq release_retired_running using run rows q Inl Decode_failed by simp
      qed
      ultimately show ?thesis using step Inl Decode_failed micros_cons micros_trans
        by (metis (no_types, lifting) sum.case(1) decode_error.case(2))
    qed
  qed
qed

lemma micros_decode_step:
  assumes "decode_step dc tn st = Some st'"
  shows "micros dc tn (st, [], None) (st', [], None)"
proof -
  let ?st = "sweep_running dc (en_running st) (st\<lparr>en_running := []\<rparr>)"
  have sweep: "micros dc tn (st, [], None) (?st, [], None)"
    by (rule micros_cons [OF m_take micros_running])
  note run = assms [unfolded decode_step_def Let_def]
  have "micros dc tn (?st, [], None) (st', [], None)"
  proof (cases "en_running ?st = []")
    case True
    show ?thesis
    proof (cases "en_queued ?st")
      case None
      then show ?thesis using run True micros_retired by fastforce
    next
      case (Some step)
      obtain r d where fin: "dc_finish dc (en_decoder ?st) step = (r, d)" by (cases "dc_finish dc (en_decoder ?st) step")
      have "micro dc tn (?st\<lparr>en_queued := None\<rparr>, [], Some step) (?st\<lparr>en_queued := None, en_decoder := d\<rparr>, map (read_back (dc_queued_rows dc step) r) [], None)"
        using m_finish [where st = "?st\<lparr>en_queued := None\<rparr>" and hand = "[]" and tn = tn] True fin by simp
      then have "micros dc tn (?st, [], None) (?st\<lparr>en_queued := None, en_decoder := d\<rparr>, [], None)"
        using m_unqueue [of dc tn ?st] Some by (simp add: micros_cons r_into_rtranclp)
      then show ?thesis using run True Some fin micros_trans [OF _ micros_retired] by fastforce
    qed
  next
    case False
    show ?thesis
    proof (cases "dc_pipelines dc (en_decoder ?st) \<and> list_all (\<lambda>s. tn_gpu_greedy tn (es_turn s)) (en_running ?st)")
      case True
      then have "decode_pipelined dc tn ?st = Some st'" using run False by simp
      then show ?thesis using micros_decode_pipelined False True by blast
    next
      case host: False
      show ?thesis
      proof (cases "en_queued ?st")
        case None
        then show ?thesis using run False host micros_decode_now by simp
      next
        case (Some step)
        obtain st1 where "settle dc tn (?st\<lparr>en_queued := None\<rparr>) step = Some st1" "st' = release_retired dc st1"
          using run False host Some by auto
        then show ?thesis
          using micros_cons [OF m_unqueue [of dc tn ?st, unfolded Some] micros_trans [OF micros_settle micros_retired]] by simp
      qed
    qed
  qed
  then show ?thesis by (rule micros_trans [OF sweep])
qed

text \<open>An iteration of the engine is a sequence of small steps.\<close>

theorem micros_engine_step:
  assumes "engine_step dc tn fl st = Some st'"
  shows "micros dc tn (st, [], None) (st', [], None)"
proof -
  obtain waiting st1 where w: "sweep_waiting (en_waiting st) st = (waiting, st1)" by (cases "sweep_waiting (en_waiting st) st")
  let ?st2 = "sweep_prefilling dc (st1\<lparr>en_waiting := waiting\<rparr>)"
  obtain st3 ms st4 st5 where
    drain: "(if en_running ?st2 = [] \<and> en_queued ?st2 \<noteq> None then decode_step dc tn ?st2 else Some ?st2) = Some st3" and
    admit: "admit dc tn fl st3 = Some (ms, st4)" and decode: "decode_step dc tn st4 = Some st5" and
    last: "st' = (if en_steps st5 > en_steps st3 then
             case elapsed st5 of (iteration_ms, st) \<Rightarrow>
               st\<lparr>en_decode_step_ms := decode_estimate_ms fl iteration_ms ms\<rparr>
           else st5)"
    using assms w by (fastforce simp: engine_step_def Let_def split: bind_splits prod.splits)
  have "micros dc tn (st, [], None) (st1\<lparr>en_waiting := waiting\<rparr>, [], None)"
    using micros_waiting [OF w, of dc tn "[]"] by simp
  moreover have "micros dc tn (st1\<lparr>en_waiting := waiting\<rparr>, [], None) (?st2, [], None)" by (rule micros_prefilling)
  moreover have "micros dc tn (?st2, [], None) (st3, [], None)"
    using drain micros_decode_step by (auto split: if_splits)
  moreover have "micros dc tn (st3, [], None) (st4, [], None)" by (rule micros_admit [OF admit])
  moreover have "micros dc tn (st4, [], None) (st5, [], None)" by (rule micros_decode_step [OF decode])
  moreover have "micros dc tn (st5, [], None) (st', [], None)"
  proof -
    have "\<exists>r x. st' = st5\<lparr>en_asked := en_asked st5, en_read := r, en_steps := en_steps st5, en_decode_step_ms := x\<rparr>"
    proof (cases "en_steps st5 > en_steps st3")
      case True
      then show ?thesis unfolding last elapsed_def
        by (intro exI [of _ "Suc (en_read st5)"] exI [of _ "decode_estimate_ms fl (en_times st5 (en_read st5)) ms"]) simp
    next
      case False
      then show ?thesis unfolding last by (intro exI [of _ "en_read st5"] exI [of _ "en_decode_step_ms st5"]) simp
    qed
    then show ?thesis using micros_one [OF m_world] by metis
  qed
  ultimately show ?thesis by (meson micros_trans)
qed

end
