(* ===== verification/EngineIds.thy ===== *)
theory EngineIds
  imports EngineSteps "HOL-Library.Multiset"
begin

text \<open>
  Who is where: every sequence the engine knows is in exactly one place, under an ID that is never
  used again, rows of unread steps never belong to a sequence that is waiting or being prefilled, and
  the batch stays within its limit. The invariant holds between and inside iterations.
\<close>

section \<open>Frames of the small steps\<close>

lemma said_frame [simp]:
  "en_waiting (said st s ev) = en_waiting st" "en_running (said st s ev) = en_running st"
  "en_prefilling (said st s ev) = en_prefilling st" "en_limits (said st s ev) = en_limits st"
  "en_next_id (said st s ev) = en_next_id st" "en_queued (said st s ev) = en_queued st"
  "en_retired (said st s ev) = en_retired st" "en_decoder (said st s ev) = en_decoder st"
  "en_sent (said st s ev) = en_sent st @ [(es_writer s, ev)]"
  by (simp_all add: said_def)

lemma tell_frame [simp]:
  "en_waiting (tell st s e) = en_waiting st" "en_running (tell st s e) = en_running st"
  "en_prefilling (tell st s e) = en_prefilling st" "en_limits (tell st s e) = en_limits st"
  "en_next_id (tell st s e) = en_next_id st" "en_queued (tell st s e) = en_queued st"
  "en_retired (tell st s e) = en_retired st" "en_decoder (tell st s e) = en_decoder st"
  "en_sent (tell st s e) = en_sent st @ (case e of None \<Rightarrow> [] | Some ev \<Rightarrow> [(es_writer s, ev)])"
  by (simp_all add: tell_def split: option.splits)

text \<open>A released sequence is freed, or its row is retired when a queued step still refers to it.\<close>

lemma release_retired_rows:
  "en_retired (release_sequence dc st s) =
     en_retired st @ (if es_id s \<in> set (queued_rows dc st) then [(es_id s, es_writer s)] else [])"
  "en_decoder (release_sequence dc st s) =
     (if es_id s \<in> set (queued_rows dc st) then en_decoder st else dc_free dc (en_decoder st) (es_id s))"
  by (simp_all add: release_sequence_def)

section \<open>Places\<close>

definition prefilling_list :: "('d, 'q, 't, 'm, 'o) engine \<Rightarrow> ('t, 'm) eseq list" where
  "prefilling_list st = (case en_prefilling st of None \<Rightarrow> [] | Some p \<Rightarrow> [pf_sequence p])"

text \<open>A sequence in hand that has never been in a queued step.\<close>

fun young :: "'l item \<Rightarrow> bool" where
  "young (Part n c w) = True"
| "young (First logits c w) = True"
| "young (Row logits) = True"
| "young it = False"

fun actives :: "('d, 'q, 't, 'm, 'o, 'l) config \<Rightarrow> ('t, 'm) eseq list" where
  "actives (st, hand, prev) = en_waiting st @ prefilling_list st @ map fst hand @ en_running st"

fun owner_ids :: "('d, 'q, 't, 'm, 'o, 'l) config \<Rightarrow> nat list" where
  "owner_ids (st, hand, prev) = map es_id (actives (st, hand, prev)) @ map fst (en_retired st)"

fun young_ids :: "('d, 'q, 't, 'm, 'o, 'l) config \<Rightarrow> nat set" where
  "young_ids (st, hand, prev) =
     es_id ` set (en_waiting st) \<union> es_id ` set (prefilling_list st) \<union> es_id ` fst ` set (filter (\<lambda>x. young (snd x)) hand)"

fun unread :: "('d, 'q, 't, 'm, 'o, 'l) config \<Rightarrow> 'q list" where
  "unread (st, hand, prev) =
     (case prev of None \<Rightarrow> [] | Some step \<Rightarrow> [step]) @ (case en_queued st of None \<Rightarrow> [] | Some step \<Rightarrow> [step])"

fun in_batch :: "('d, 'q, 't, 'm, 'o, 'l) config \<Rightarrow> nat" where
  "in_batch (st, hand, prev) = length (prefilling_list st) + length hand + length (en_running st)"

definition ids_ok :: "('d, 'q, 'l, 'm) text_decoder \<Rightarrow> ('d, 'q, 't, 'm, 'o, 'l) config \<Rightarrow> bool" where
  "ids_ok dc c \<longleftrightarrow>
     distinct (owner_ids c) \<and>
     (\<forall>i\<in>set (owner_ids c). i < en_next_id (fst c)) \<and>
     (\<forall>step\<in>set (unread c). distinct (dc_queued_rows dc step) \<and>
        (\<forall>i\<in>set (dc_queued_rows dc step). i < en_next_id (fst c) \<and> i \<notin> young_ids c)) \<and>
     in_batch c \<le> el_max_num_seqs (en_limits (fst c))"

text \<open>A decoder's queued step names the rows it was queued with.\<close>

definition names_rows :: "('d, 'q, 'l, 'm) text_decoder \<Rightarrow> bool" where
  "names_rows dc \<longleftrightarrow>
     (\<forall>d rows previous step d'. dc_queue dc d rows previous = (Inr step, d') \<longrightarrow> dc_queued_rows dc step = map fst rows)"

lemma names_rowsD:
  "names_rows dc \<Longrightarrow> dc_queue dc d rows previous = (Inr step, d') \<Longrightarrow> dc_queued_rows dc step = map fst rows"
  unfolding names_rows_def by blast

lemma prefilling_list_simps [simp]:
  "en_prefilling st = None \<Longrightarrow> prefilling_list st = []"
  "prefilling_list (st\<lparr>en_prefilling := None\<rparr>) = []"
  "prefilling_list (st\<lparr>en_prefilling := Some p\<rparr>) = [pf_sequence p]"
  "prefilling_list (st\<lparr>en_decoder := d\<rparr>) = prefilling_list st"
  "prefilling_list (st\<lparr>en_running := r\<rparr>) = prefilling_list st"
  "prefilling_list (st\<lparr>en_waiting := w\<rparr>) = prefilling_list st"
  "prefilling_list (st\<lparr>en_queued := q\<rparr>) = prefilling_list st"
  "prefilling_list (st\<lparr>en_retired := rs\<rparr>) = prefilling_list st"
  "prefilling_list (st\<lparr>en_next_id := n\<rparr>) = prefilling_list st"
  "prefilling_list (st\<lparr>en_asked := a\<rparr>) = prefilling_list st"
  "prefilling_list (st\<lparr>en_read := a\<rparr>) = prefilling_list st"
  "prefilling_list (st\<lparr>en_steps := a\<rparr>) = prefilling_list st"
  "prefilling_list (st\<lparr>en_decode_step_ms := x\<rparr>) = prefilling_list st"
  "prefilling_list (said st s ev) = prefilling_list st"
  "prefilling_list (tell st s e) = prefilling_list st"
  "prefilling_list (release_sequence dc st s) = prefilling_list st"
  by (simp_all add: prefilling_list_def said_def)

lemma prefilling_list_Some: "en_prefilling st = Some p \<Longrightarrow> prefilling_list st = [pf_sequence p]"
  by (simp add: prefilling_list_def)

lemma opt_map_step_row_ids: "opt_map (step_row dc previous) ss = Some rows \<Longrightarrow> map fst rows = map es_id ss"
proof (induction ss arbitrary: rows)
  case (Cons s ss)
  then show ?case by (auto simp: step_row_def split: option.splits bind_splits)
qed simp

lemma opt_map_next_ids:
  "opt_map (\<lambda>s. map_option (Pair (es_id s)) (next_input s)) ss = Some rows \<Longrightarrow> map fst rows = map es_id ss"
  by (induction ss arbitrary: rows) (auto split: bind_splits)

lemma read_back_fst [simp]: "fst (read_back rows res x) = fst x"
  by (auto simp: read_back_def split: prod.splits option.splits sum.splits)

lemma read_back_young [simp]: "young (snd (read_back rows res x)) \<longleftrightarrow> young (snd x)"
  by (auto simp: read_back_def split: prod.splits option.splits sum.splits)

section \<open>The invariant is kept\<close>

lemma distinct_submultiset:
  assumes "distinct xs" "mset ys \<subseteq># mset xs"
  shows "distinct ys"
  unfolding distinct_count_atmost_1
proof
  fix a
  have "count (mset ys) a \<le> count (mset xs) a" using assms(2) by (rule mset_subset_eq_count)
  then have le: "count (mset ys) a \<le> (if a \<in> set xs then 1 else 0)" using assms(1) unfolding distinct_count_atmost_1 by (simp only:)
  show "count (mset ys) a = (if a \<in> set ys then 1 else 0)"
  proof (cases "a \<in> set ys")
    case True
    then have "1 \<le> count (mset ys) a" by (simp add: Suc_le_eq)
    moreover have "count (mset ys) a \<le> 1" by (rule order_trans [OF le]) simp
    ultimately have "count (mset ys) a = 1" by (rule le_antisym [rotated])
    then show ?thesis using True by simp
  qed simp
qed

text \<open>Steps that only move or drop sequences and rows.\<close>

lemma ids_ok_less:
  assumes ok: "ids_ok dc c" and sub: "mset (owner_ids c') \<subseteq># mset (owner_ids c)" and steps: "set (unread c') \<subseteq> set (unread c)"
    and young: "unread c' = [] \<or> young_ids c' \<subseteq> young_ids c" and less: "in_batch c' \<le> in_batch c"
    and same: "en_next_id (fst c') = en_next_id (fst c)" "en_limits (fst c') = en_limits (fst c)"
  shows "ids_ok dc c'"
proof -
  have "distinct (owner_ids c')" using ok sub distinct_submultiset unfolding ids_ok_def by blast
  moreover have "set (owner_ids c') \<subseteq> set (owner_ids c)" using set_mset_mono [OF sub] by simp
  then have "\<forall>i\<in>set (owner_ids c'). i < en_next_id (fst c')" using ok same unfolding ids_ok_def by auto
  moreover have "\<forall>step\<in>set (unread c'). distinct (dc_queued_rows dc step) \<and>
      (\<forall>i\<in>set (dc_queued_rows dc step). i < en_next_id (fst c') \<and> i \<notin> young_ids c')"
  proof (cases "unread c' = []")
    case False
    then show ?thesis using ok steps young same unfolding ids_ok_def by (metis subsetD)
  qed simp
  moreover have "in_batch c' \<le> el_max_num_seqs (en_limits (fst c'))" using ok less same unfolding ids_ok_def by simp
  ultimately show ?thesis unfolding ids_ok_def by blast
qed

lemma young_queued:
  assumes "ids_ok dc (st, hand, prev)" "i \<in> young_ids (st, hand, prev)"
  shows "i \<notin> set (queued_rows dc st)"
proof (cases "en_queued st")
  case (Some step)
  then have "step \<in> set (unread (st, hand, prev))" by simp
  then have "\<forall>i\<in>set (dc_queued_rows dc step). i \<notin> young_ids (st, hand, prev)" using assms(1) unfolding ids_ok_def by blast
  then show ?thesis using assms(2) Some by (auto simp only: queued_rows_def option.case)
qed (simp add: queued_rows_def)

lemma young_ids_Cons:
  "young_ids (st, (s, it) # hand, prev) = young_ids (st, hand, prev) \<union> (if young it then {es_id s} else {})"
  by auto

lemma young_ids_Nil: "young_ids (st, [], prev) = es_id ` set (en_waiting st) \<union> es_id ` set (prefilling_list st)"
  by auto

declare young_ids.simps [simp del]

lemma young_ids_frame:
  "es_id ` set (en_waiting st') = es_id ` set (en_waiting st) \<Longrightarrow> prefilling_list st' = prefilling_list st \<Longrightarrow>
   young_ids (st', hand, prev') = young_ids (st, hand, prev)"
  by (simp add: young_ids.simps)

lemmas less_simps = release_retired_rows young_ids_Cons young_ids_Nil young_ids.simps prefilling_list_Some

lemma fresh_ids:
  assumes "ids_ok dc (st, hand, None)" "en_waiting st = front @ back" "es_id s = en_next_id st"
    and st': "st' = st\<lparr>en_next_id := en_next_id st + 1, en_waiting := front @ s # back\<rparr>"
  shows "ids_ok dc (st', hand, None)"
proof -
  have old: "i \<in> set (owner_ids (st, hand, None)) \<Longrightarrow> i < en_next_id st" for i using assms(1) by (simp add: ids_ok_def)
  then have "en_next_id st \<notin> set (owner_ids (st, hand, None))" by blast
  moreover have perm: "mset (owner_ids (st', hand, None)) = mset (en_next_id st # owner_ids (st, hand, None))"
    by (simp add: st' assms(2,3))
  ultimately have "distinct (owner_ids (st', hand, None))"
    using assms(1) mset_eq_imp_distinct_iff [OF perm] by (simp add: ids_ok_def)
  moreover have "set (owner_ids (st', hand, None)) = insert (en_next_id st) (set (owner_ids (st, hand, None)))"
    using arg_cong [OF perm, of set_mset] by simp
  then have "\<forall>i\<in>set (owner_ids (st', hand, None)). i < en_next_id st'"
    using old by (auto simp: st' less_Suc_eq)
  moreover have "young_ids (st', hand, None) = insert (en_next_id st) (young_ids (st, hand, None))"
    by (auto simp: st' assms(2,3) young_ids.simps)
  then have "\<forall>step\<in>set (unread (st', hand, None)). distinct (dc_queued_rows dc step) \<and>
      (\<forall>i\<in>set (dc_queued_rows dc step). i < en_next_id st' \<and> i \<notin> young_ids (st', hand, None))"
    using assms(1) by (fastforce simp: ids_ok_def st' split: option.splits)
  moreover have "in_batch (st', hand, None) \<le> el_max_num_seqs (en_limits st')" using assms(1) by (simp add: ids_ok_def st')
  ultimately show ?thesis by (simp add: ids_ok_def)
qed

lemma requeue_ids:
  assumes "ids_ok dc (st, hand, None)" "requeue st s = Some st'"
  shows "ids_ok dc (st', hand, None)"
  by (rule fresh_ids [OF assms(1), of "[]" _ "s\<lparr>es_id := en_next_id st\<rparr>"]) (use assms(2) in \<open>simp_all add: requeue_Some\<close>)

lemma accept_ids:
  assumes "ids_ok dc (st, [], None)" "engine_accept st sb = Some st'"
  shows "ids_ok dc (st', [], None)"
  by (rule fresh_ids [OF assms(1), of "en_waiting st" "[]"]) (use assms(2) in \<open>simp_all add: engine_accept_Some\<close>)

lemma micro_ids:
  assumes "micro dc tn c c'" "names_rows dc" "ids_ok dc c"
  shows "ids_ok dc c'"
  using assms(1)
proof cases
  case (m_world st hand prev a r n ms)
  show ?thesis by (rule ids_ok_less [OF assms(3)]) (simp_all add: m_world less_simps)
next
  case (m_drop st ws s ws' e)
  show ?thesis by (rule ids_ok_less [OF assms(3)]) (auto simp: m_drop less_simps)
next
  case (m_resume st p)
  show ?thesis by (rule ids_ok_less [OF assms(3)]) (simp_all add: m_resume less_simps)
next
  case (m_pause st s n c w)
  show ?thesis by (rule ids_ok_less [OF assms(3)]) (simp_all add: m_pause less_simps)
next
  case (m_prefill st s budget res d it n c w)
  show ?thesis by (rule ids_ok_less [OF assms(3)]) (auto simp: m_prefill(1,2) less_simps)
next
  case (m_release st s it hand e)
  show ?thesis by (rule ids_ok_less [OF assms(3)]) (auto simp: m_release less_simps)
next
  case (m_keep st s hand)
  show ?thesis by (rule ids_ok_less [OF assms(3)]) (auto simp: m_keep less_simps)
next
  case (m_rejoin s st logits c w hand)
  show ?thesis by (rule ids_ok_less [OF assms(3)]) (auto simp: m_rejoin less_simps)
next
  case (m_prefilled s st logits cached w hand ms)
  have "young_ids c' \<subseteq> young_ids c" 
    using young_ids_frame [of "said st s (Prefilled cached w ms)" st] by (auto simp: m_prefilled young_ids_Cons)
  then show ?thesis by (intro ids_ok_less [OF assms(3)]) (auto simp: m_prefilled)
next
  case (m_token s it a t st hand tms)
  show ?thesis by (rule ids_ok_less [OF assms(3)]) (auto simp: m_token less_simps)
next
  case (m_stop s it a t reason ev tms st hand)
  show ?thesis by (rule ids_ok_less [OF assms(3)]) (auto simp: m_stop(1,2) less_simps queued_rows_def)
next
  case (m_take st prev)
  show ?thesis by (rule ids_ok_less [OF assms(3)]) (auto simp: m_take less_simps comp_def)
next
  case (m_take_last st running s)
  show ?thesis by (rule ids_ok_less [OF assms(3)]) (auto simp: m_take_last less_simps)
next
  case (m_unqueue st)
  show ?thesis by (rule ids_ok_less [OF assms(3)]) (simp_all add: m_unqueue less_simps)
next
  case (m_finish st step res d hand)
  have "young_ids c' \<subseteq> young_ids c" by (simp add: m_finish young_ids.simps filter_map comp_def image_image)
  then show ?thesis by (intro ids_ok_less [OF assms(3)]) (auto simp: m_finish comp_def)
next
  case (m_retire st rs i w rs' hand)
  show ?thesis by (rule ids_ok_less [OF assms(3)]) (auto simp: m_retire less_simps)
next
  case (m_admit st s ws)
  then show ?thesis using assms(3) by (auto simp: ids_ok_def less_simps)
next
  case (m_requeue st s st' it hand)
  have "ids_ok dc (release_sequence dc st s, hand, None)"
    by (rule ids_ok_less [OF assms(3)]) (auto simp: m_requeue(1,2) less_simps)
  then show ?thesis using m_requeue(3) unfolding m_requeue(2) by (rule requeue_ids)
next
  case (m_queue st rows res d)
  show ?thesis
  proof (cases res)
    case (Inl e)
    then show ?thesis
      by (intro ids_ok_less [OF assms(3)]; cases e) (auto simp: m_queue(1,2) less_simps comp_def split: option.splits)
  next
    case (Inr step)
    have "dc_queued_rows dc step = map es_id (en_running st)"
      using names_rowsD [OF assms(2) m_queue(6) [unfolded Inr]] opt_map_step_row_ids [OF m_queue(3)] by simp
    then show ?thesis using assms(3) m_queue(1,2) Inr by (auto simp: ids_ok_def less_simps split: option.splits)
  qed
next
  case (m_decode st rows res d)
  show ?thesis
  proof (cases res)
    case (Inl e)
    then show ?thesis
      by (intro ids_ok_less [OF assms(3)]; cases e) (auto simp: m_decode(1,2) less_simps comp_def split: option.splits)
  next
    case (Inr decoded)
    note all = m_decode(7) [OF Inr]
    have "length (hand_over decoded (en_running st)) = length (en_running st)" using arg_cong [OF all, of length] by simp
    then show ?thesis
      using Inr all m_decode(4) by (intro ids_ok_less [OF assms(3)]) (auto simp: m_decode(1,2) less_simps)
  qed
qed

lemma micros_ids: "micros dc tn c c' \<Longrightarrow> names_rows dc \<Longrightarrow> ids_ok dc c \<Longrightarrow> ids_ok dc c'"
  by (induction rule: rtranclp_induct) (auto intro: micro_ids)

lemma new_ids: "ids_ok dc (engine_new d limits zero answers readings, [], None)"
  by (simp add: ids_ok_def engine_new_def prefilling_list_def)

lemma reach_ids:
  assumes "engine_reach dc tn fl st0 subs st" "names_rows dc" "ids_ok dc (st0, [], None)"
  shows "ids_ok dc (st, [], None)"
  using assms(1)
proof induction
  case run_start
  show ?case by (rule assms(3))
next
  case (run_accept subs st sb st')
  then show ?case using accept_ids by blast
next
  case (run_step subs st st')
  then show ?case using micros_ids [OF micros_engine_step [OF run_step.hyps(2)] assms(2)] by blast
qed

end
