(* ===== verification/EngineTrace.thy ===== *)
theory EngineTrace
  imports EngineIds
begin

text \<open>
  The engine's contract with its decoder. \<open>traced\<close> wraps any decoder so that it records the calls
  that prefill, decode, queue, finish and free sequences; \<open>replay\<close> reads such a record against the
  contract of \<open>TextDecoder\<close>: only prefilled sequences are decoded, a sequence is freed or prefilled
  only when no unread step refers to it, steps are read back once and in order, and a synchronous
  step runs with nothing queued. The invariant \<open>trace_ok\<close> says that the record obeys the contract,
  that the unread steps are those of the engine, and that every sequence with blocks has an owner
  who will free it.
\<close>

section \<open>Recording a decoder\<close>

datatype dec_call = C_prefill nat | C_decode "nat list" | C_free nat | C_queue "nat list" | C_finish "nat list"

record 'd traced_state =
  tr_decoder :: 'd
  tr_log :: "dec_call list"

definition noted :: "dec_call list \<Rightarrow> 'd traced_state \<Rightarrow> 'r \<times> 'd \<Rightarrow> 'r \<times> 'd traced_state" where
  "noted calls d r = (fst r, \<lparr>tr_decoder = snd r, tr_log = tr_log d @ calls\<rparr>)"

definition traced :: "('d, 'q, 'l, 'm) text_decoder \<Rightarrow> ('d traced_state, 'q, 'l, 'm) text_decoder" where
  "traced dc =
     \<lparr>dc_prefill_cost = (\<lambda>d. dc_prefill_cost dc (tr_decoder d)),
      dc_free_blocks = (\<lambda>d. dc_free_blocks dc (tr_decoder d)),
      dc_prefill_chunk = (\<lambda>d i ids keys budget. noted [C_prefill i] d (dc_prefill_chunk dc (tr_decoder d) i ids keys budget)),
      dc_prefill_ms = (\<lambda>d. dc_prefill_ms dc (tr_decoder d)),
      dc_block_tokens = (\<lambda>d. dc_block_tokens dc (tr_decoder d)),
      dc_decode = (\<lambda>d rows rb. noted [C_decode (map fst rows)] d (dc_decode dc (tr_decoder d) rows rb)),
      dc_free = (\<lambda>d i. \<lparr>tr_decoder = dc_free dc (tr_decoder d) i, tr_log = tr_log d @ [C_free i]\<rparr>),
      dc_queue = (\<lambda>d rows previous.
        case dc_queue dc (tr_decoder d) rows previous of
          (Inr step, d') \<Rightarrow> noted [C_queue (dc_queued_rows dc step)] d (Inr step, d')
        | (Inl e, d') \<Rightarrow> noted [] d (Inl e, d')),
      dc_finish = (\<lambda>d step. noted [C_finish (dc_queued_rows dc step)] d (dc_finish dc (tr_decoder d) step)),
      dc_queued_rows = dc_queued_rows dc,
      dc_pipelines = (\<lambda>d. dc_pipelines dc (tr_decoder d))\<rparr>"

text \<open>Unread steps, sequences that may hold blocks, and whether every call was allowed.\<close>

type_synonym replayed = "nat list list \<times> nat list \<times> bool"

fun replay_call :: "replayed \<Rightarrow> dec_call \<Rightarrow> replayed" where
  "replay_call (out, live, ok) (C_prefill i) = (out, i # live, ok \<and> i \<notin> set (concat out))"
| "replay_call (out, live, ok) (C_decode rows) = (out, live, ok \<and> out = [] \<and> distinct rows \<and> set rows \<subseteq> set live)"
| "replay_call (out, live, ok) (C_free i) = (out, removeAll i live, ok \<and> i \<notin> set (concat out))"
| "replay_call (out, live, ok) (C_queue rows) = (out @ [rows], live, ok \<and> distinct rows \<and> set rows \<subseteq> set live)"
| "replay_call (out, live, ok) (C_finish rows) = (tl out, live, ok \<and> out \<noteq> [] \<and> hd out = rows)"

definition replay :: "dec_call list \<Rightarrow> replayed" where
  "replay log = foldl replay_call ([], [], True) log"

lemma replay_append: "replay (log @ calls) = foldl replay_call (replay log) calls"
  by (simp add: replay_def)

lemma traced_simps [simp]:
  "dc_queued_rows (traced dc) = dc_queued_rows dc"
  "tr_log (dc_free (traced dc) d i) = tr_log d @ [C_free i]"
  by (simp_all add: traced_def)

lemma traced_queue:
  "dc_queue (traced dc) d rows previous = (Inr step, d') \<Longrightarrow> tr_log d' = tr_log d @ [C_queue (dc_queued_rows dc step)]"
  "dc_queue (traced dc) d rows previous = (Inl e, d') \<Longrightarrow> tr_log d' = tr_log d"
  by (cases "dc_queue dc (tr_decoder d) rows previous"; auto simp: traced_def noted_def split: sum.splits)+

lemma traced_names_rows: "names_rows (traced dc) = names_rows dc"
proof
  assume n: "names_rows (traced dc)"
  show "names_rows dc"
    unfolding names_rows_def
  proof (intro allI impI)
    fix d rows previous step d'
    assume q: "dc_queue dc d rows previous = (Inr step, d')"
    have "dc_queue (traced dc) \<lparr>tr_decoder = d, tr_log = []\<rparr> rows previous =
        (Inr step, \<lparr>tr_decoder = d', tr_log = [C_queue (dc_queued_rows dc step)]\<rparr>)"
      by (simp add: traced_def noted_def q)
    then show "dc_queued_rows dc step = map fst rows" using n unfolding names_rows_def traced_simps by blast
  qed
next
  assume "names_rows dc"
  then show "names_rows (traced dc)"
    unfolding names_rows_def traced_simps by (auto simp: traced_def noted_def split: prod.splits sum.splits) metis
qed

section \<open>The invariant\<close>

fun grown :: "'l item \<Rightarrow> bool" where
  "grown (Part n c w) = False"
| "grown Lost = False"
| "grown it = True"

fun holders :: "('d, 'q, 't, 'm, 'o, 'l) config \<Rightarrow> nat set" where
  "holders (st, hand, prev) = es_id ` set (prefilling_list st) \<union> es_id ` fst ` set hand \<union> es_id ` set (en_running st) \<union>
     fst ` set (en_retired st)"

fun grown_ids :: "('d, 'q, 't, 'm, 'o, 'l) config \<Rightarrow> nat set" where
  "grown_ids (st, hand, prev) = es_id ` fst ` set (filter (\<lambda>x. grown (snd x)) hand) \<union> es_id ` set (en_running st)"

definition trace_ok :: "('d, 'q, 'l, 'm) text_decoder \<Rightarrow> ('d traced_state, 'q, 't, 'm, 'o, 'l) config \<Rightarrow> bool" where
  "trace_ok dc c \<longleftrightarrow>
     (\<exists>live. replay (tr_log (en_decoder (fst c))) = (map (dc_queued_rows dc) (unread c), live, True) \<and>
        set live \<subseteq> holders c \<and> grown_ids c \<subseteq> set live)"

lemma trace_less:
  assumes "trace_ok dc c" "tr_log (en_decoder (fst c')) = tr_log (en_decoder (fst c))" "unread c' = unread c"
    "holders c \<subseteq> holders c'" "grown_ids c' \<subseteq> grown_ids c"
  shows "trace_ok dc c'"
  using assms unfolding trace_ok_def by (metis (no_types, lifting) subset_trans)

text \<open>Freeing a sequence that no unread step refers to.\<close>

lemma trace_free:
  assumes "trace_ok dc c" "en_decoder (fst c') = dc_free (traced dc) (en_decoder (fst c)) i" "unread c' = unread c"
    "\<forall>step\<in>set (unread c). i \<notin> set (dc_queued_rows dc step)"
    "holders c - {i} \<subseteq> holders c'" "grown_ids c' \<subseteq> grown_ids c" "i \<notin> grown_ids c'"
  shows "trace_ok dc c'"
proof -
  obtain live where l: "replay (tr_log (en_decoder (fst c))) = (map (dc_queued_rows dc) (unread c), live, True)"
      "set live \<subseteq> holders c" "grown_ids c \<subseteq> set live"
    using assms(1) unfolding trace_ok_def by blast
  have "replay (tr_log (en_decoder (fst c'))) = (map (dc_queued_rows dc) (unread c'), removeAll i live, True)"
    using l(1) assms(4) by (simp add: assms(2,3) replay_append)
  moreover have "set (removeAll i live) \<subseteq> holders c'" "grown_ids c' \<subseteq> set (removeAll i live)"
    using l(2,3) assms(5-7) by auto
  ultimately show ?thesis unfolding trace_ok_def by blast
qed

lemma grown_owner: "i \<in> grown_ids (st, hand, prev) \<Longrightarrow> i \<in> set (map es_id (map fst hand @ en_running st))"
  by auto

text \<open>The first sequence in hand is released.\<close>

lemma trace_release:
  assumes "trace_ok dc (st, (s, it) # hand, None)" "ids_ok (traced dc) (st, (s, it) # hand, None)"
  shows "trace_ok dc (release_sequence (traced dc) st s, hand, None)"
proof (cases "es_id s \<in> set (queued_rows (traced dc) st)")
  case True
  let ?st = "release_sequence (traced dc) st s"
  have st': "en_retired ?st = en_retired st @ [(es_id s, es_writer s)]" "en_decoder ?st = en_decoder st"
    using True by (simp_all add: release_retired_rows)
  show ?thesis by (rule trace_less [OF assms(1)]) (auto simp: st')
next
  case False
  let ?st = "release_sequence (traced dc) st s"
  have st': "en_retired ?st = en_retired st" "en_decoder ?st = dc_free (traced dc) (en_decoder st) (es_id s)"
    using False by (simp_all add: release_retired_rows)
  have "es_id s \<notin> set (map es_id (map fst hand @ en_running st))"
    using assms(2) by (simp add: ids_ok_def)
  then have "es_id s \<notin> grown_ids (?st, hand, None)" using grown_owner [of "es_id s" ?st hand None] by auto
  moreover have "\<forall>step\<in>set (unread (st, (s, it) # hand, None)). es_id s \<notin> set (dc_queued_rows dc step)"
    using False by (simp add: queued_rows_def split: option.splits)
  ultimately show ?thesis
    by (intro trace_free [OF assms(1), of _ "es_id s"]) (simp_all add: st', auto)
qed

lemma trace_cong:
  assumes "trace_ok dc (st, hand, prev)" "en_decoder st' = en_decoder st" "en_queued st' = en_queued st"
    "prefilling_list st' = prefilling_list st" "en_running st' = en_running st" "en_retired st' = en_retired st"
  shows "trace_ok dc (st', hand, prev)"
  by (rule trace_less [OF assms(1)]) (use assms(2-) in auto)

lemma grown_read_back: "grown (snd (read_back rows res x)) \<Longrightarrow> grown (snd x)"
  by (auto simp: read_back_def split: prod.splits if_splits option.splits sum.splits)

lemma micro_trace:
  assumes "micro (traced dc) tn c c'" "names_rows dc" "ids_ok (traced dc) c" "trace_ok dc c"
  shows "trace_ok dc c'"
  using assms(1)
proof cases
  case (m_world st hand prev a r n ms)
  show ?thesis using assms(4) unfolding m_world by (rule trace_cong) simp_all
next
  case (m_drop st ws s ws' e)
  show ?thesis using assms(4) unfolding m_drop(1,2) by (rule trace_cong) simp_all
next
  case (m_admit st s ws)
  show ?thesis by (rule trace_less [OF assms(4)]) (auto simp: m_admit)
next
  case (m_resume st p)
  show ?thesis by (rule trace_less [OF assms(4)]) (auto simp: m_resume prefilling_list_Some)
next
  case (m_pause st s n c w)
  show ?thesis by (rule trace_less [OF assms(4)]) (auto simp: m_pause)
next
  case (m_prefill st s budget res d it n c w)
  obtain live where l: "replay (tr_log (en_decoder st)) = (map (dc_queued_rows dc) (unread (st, [(s, Part n c w)], None)), live, True)"
      "set live \<subseteq> holders (st, [(s, Part n c w)], None)" "grown_ids (st, [(s, Part n c w)], None) \<subseteq> set live"
    using assms(4) unfolding trace_ok_def m_prefill(1) by auto
  have "es_id s \<notin> set (queued_rows (traced dc) st)"
    by (rule young_queued [OF assms(3) [unfolded m_prefill(1)]]) (simp add: young_ids_Cons)
  then have new: "es_id s \<notin> set (concat (map (dc_queued_rows dc) (unread (st, [(s, Part n c w)], None))))"
    by (auto simp: queued_rows_def split: option.splits)
  have "tr_log d = tr_log (en_decoder st) @ [C_prefill (es_id s)]"
    using m_prefill(3) by (auto simp: traced_def noted_def)
  then have "replay (tr_log d) = (map (dc_queued_rows dc) (unread (st, [(s, Part n c w)], None)), es_id s # live, True)"
    using l(1) new by (simp add: replay_append)
  moreover have "set (es_id s # live) \<subseteq> holders c'" "grown_ids c' \<subseteq> set (es_id s # live)"
    using l(2,3) by (auto simp: m_prefill(2))
  ultimately show ?thesis unfolding trace_ok_def m_prefill(2) by auto
next
  case (m_release st s it hand e)
  show ?thesis
    using trace_release [OF assms(4) [unfolded m_release(1)] assms(3) [unfolded m_release(1)]]
    unfolding m_release(2) by (rule trace_cong) simp_all
next
  case (m_requeue st s st' it hand)
  have st': "st' = (release_sequence (traced dc) st s)\<lparr>en_next_id := en_next_id st + 1,
      en_waiting := s\<lparr>es_id := en_next_id st\<rparr> # en_waiting st\<rparr>"
    using m_requeue(3) by (simp add: requeue_Some)
  show ?thesis
    using trace_release [OF assms(4) [unfolded m_requeue(1)] assms(3) [unfolded m_requeue(1)]]
    unfolding m_requeue(2) by (rule trace_cong) (simp_all add: st')
next
  case (m_keep st s hand)
  show ?thesis by (rule trace_less [OF assms(4)]) (auto simp: m_keep)
next
  case (m_rejoin s st logits c w hand)
  show ?thesis by (rule trace_less [OF assms(4)]) (auto simp: m_rejoin)
next
  case (m_prefilled s st logits c w hand ms)
  show ?thesis by (rule trace_less [OF assms(4)]) (auto simp: m_prefilled)
next
  case (m_token s it a t st hand tms)
  then have "grown it" by (cases it) auto
  then show ?thesis by (intro trace_less [OF assms(4)]) (auto simp: m_token)
next
  case (m_stop s it a t reason ev tms st hand)
  let ?st = "said st s (Token a)"
  have "trace_ok dc (?st, (s, it) # hand, None)" using assms(4) unfolding m_stop(1) by (rule trace_cong) simp_all
  moreover have "ids_ok (traced dc) (?st, (s, it) # hand, None)"
    using ids_ok_less [OF assms(3), of "(?st, (s, it) # hand, None)"] by (simp add: m_stop(1) young_ids.simps)
  ultimately have "trace_ok dc (release_sequence (traced dc) ?st s, hand, None)" by (rule trace_release)
  then show ?thesis unfolding m_stop(2) by (rule trace_cong) simp_all
next
  case (m_take st prev)
  show ?thesis by (rule trace_less [OF assms(4)]) (auto simp: m_take image_image)
next
  case (m_take_last st running s)
  show ?thesis by (rule trace_less [OF assms(4)]) (auto simp: m_take_last)
next
  case (m_unqueue st)
  show ?thesis by (rule trace_less [OF assms(4)]) (auto simp: m_unqueue)
next
  case (m_queue st rows res d)
  obtain live where l: "replay (tr_log (en_decoder st)) = (map (dc_queued_rows dc) (unread c), live, True)"
      "set live \<subseteq> holders c" "grown_ids c \<subseteq> set live"
    using assms(4) unfolding trace_ok_def m_queue(1) by auto
  show ?thesis
  proof (cases res)
    case (Inl e)
    have "tr_log d = tr_log (en_decoder st)" by (rule traced_queue(2) [OF m_queue(6) [unfolded Inl]])
    then show ?thesis
      using Inl by (intro trace_less [OF assms(4)]; cases e) (simp_all add: m_queue(1,2) image_image)
  next
    case (Inr step)
    have "tr_log d = tr_log (en_decoder st) @ [C_queue (dc_queued_rows dc step)]"
      by (rule traced_queue(1) [OF m_queue(6) [unfolded Inr]])
    moreover have rows: "dc_queued_rows dc step = map es_id (en_running st)"
    proof -
      have "dc_queued_rows (traced dc) step = map fst rows"
        by (rule names_rowsD [OF traced_names_rows [THEN iffD2, OF assms(2)] m_queue(6) [unfolded Inr]])
      then show ?thesis using opt_map_step_row_ids [OF m_queue(3)] by simp
    qed
    have "distinct (map es_id (en_running st))" using assms(3) by (simp add: m_queue(1) ids_ok_def)
    moreover have "set (map es_id (en_running st)) \<subseteq> set live" using l(3) by (simp add: m_queue(1))
    ultimately have "replay (tr_log d) = (map (dc_queued_rows dc) (unread c'), live, True)"
      using l(1) by (simp add: replay_append rows m_queue(1,2) Inr)
    then show ?thesis unfolding trace_ok_def using l(2,3) by (intro exI [of _ live]) (simp add: m_queue(1,2) Inr)
  qed
next
  case (m_finish st step res d hand)
  obtain live where l: "replay (tr_log (en_decoder st)) = (map (dc_queued_rows dc) (unread c), live, True)"
      "set live \<subseteq> holders c" "grown_ids c \<subseteq> set live"
    using assms(4) unfolding trace_ok_def m_finish(1) by auto
  have "tr_log d = tr_log (en_decoder st) @ [C_finish (dc_queued_rows dc step)]"
    using m_finish(3) by (auto simp: traced_def noted_def)
  then have "replay (tr_log d) = (map (dc_queued_rows dc) (unread c'), live, True)"
    using l(1) by (simp add: replay_append m_finish(1,2))
  moreover have "grown_ids c' \<subseteq> grown_ids c"
    using grown_read_back [of "dc_queued_rows dc step" res]
    by (auto simp: m_finish(1,2) filter_map comp_def image_image)
  moreover have "holders c' = holders c" by (simp add: m_finish(1,2) image_image)
  moreover have "en_decoder (fst c') = d" by (simp add: m_finish(2))
  ultimately show ?thesis unfolding trace_ok_def using l(2,3) by (intro exI [of _ live]) (simp only:, blast)
next
  case (m_decode st rows res d)
  obtain live where l: "replay (tr_log (en_decoder st)) = ([], live, True)"
      "set live \<subseteq> holders c" "grown_ids c \<subseteq> set live"
    using assms(4) m_decode(4) unfolding trace_ok_def m_decode(1) by auto
  have ids: "map fst rows = map es_id (en_running st)" by (rule opt_map_next_ids [OF m_decode(3)])
  have "tr_log d = tr_log (en_decoder st) @ [C_decode (map es_id (en_running st))]"
    using m_decode(6) ids by (auto simp: traced_def noted_def)
  moreover have "distinct (map es_id (en_running st))" using assms(3) by (simp add: m_decode(1) ids_ok_def)
  moreover have "set (map es_id (en_running st)) \<subseteq> set live" using l(3) by (simp add: m_decode(1))
  ultimately have log: "replay (tr_log d) = ([], live, True)" using l(1) by (simp add: replay_append)
  show ?thesis
  proof (cases res)
    case (Inl e)
    then show ?thesis
      unfolding trace_ok_def using log l(2,3)
      by (intro exI [of _ live]; cases e) (auto simp: m_decode(1,2,4) image_image)
  next
    case (Inr decoded)
    have "fst ` set (hand_over decoded (en_running st)) = set (en_running st)"
      using arg_cong [OF m_decode(7) [OF Inr], of set] by simp
    then show ?thesis
      unfolding trace_ok_def using log l(2,3) Inr
      by (intro exI [of _ live]) (auto simp: m_decode(1,2,4) image_image)
  qed
next
  case (m_retire st rs i w rs' hand)
  have "distinct (map es_id (actives c) @ map fst (en_retired st))" using assms(3) by (simp only: m_retire(1) ids_ok_def owner_ids.simps)
  moreover have "i \<in> set (map fst (en_retired st))" by (simp add: m_retire(3))
  ultimately have "i \<notin> set (map es_id (actives c))" by (simp only: distinct_append) blast
  then have "i \<notin> grown_ids c'" by (auto simp: m_retire(1,2))
  moreover have "\<forall>step\<in>set (unread c). i \<notin> set (dc_queued_rows dc step)"
    using m_retire(4) by (auto simp: m_retire(1) queued_rows_def split: option.splits)
  ultimately show ?thesis by (intro trace_free [OF assms(4), of _ i]) (auto simp: m_retire)
qed


lemma micros_trace:
  "micros (traced dc) tn c c' \<Longrightarrow> names_rows dc \<Longrightarrow> ids_ok (traced dc) c \<Longrightarrow> trace_ok dc c \<Longrightarrow>
   ids_ok (traced dc) c' \<and> trace_ok dc c'"
proof (induction rule: rtranclp_induct)
  case (step y z)
  then have ok: "ids_ok (traced dc) y" "trace_ok dc y" by blast+
  show ?case
    using micro_ids [OF step.hyps(2) traced_names_rows [THEN iffD2, OF step.prems(1)] ok(1)]
      micro_trace [OF step.hyps(2) step.prems(1) ok] ..
qed simp

lemma reach_trace:
  assumes "engine_reach (traced dc) tn fl st0 subs st" "names_rows dc"
    and "ids_ok (traced dc) (st0, [], None)" "trace_ok dc (st0, [], None)"
  shows "ids_ok (traced dc) (st, [], None) \<and> trace_ok dc (st, [], None)"
  using assms(1)
proof induction
  case (run_accept subs st sb st')
  have "ids_ok (traced dc) (st', [], None)" by (rule accept_ids [OF conjunct1 [OF run_accept.IH] run_accept.hyps(2)])
  moreover have "trace_ok dc (st', [], None)"
    by (rule trace_cong [OF conjunct2 [OF run_accept.IH]]) (use run_accept.hyps(2) in \<open>simp_all add: engine_accept_Some prefilling_list_def\<close>)
  ultimately show ?case ..
next
  case (run_step subs st st')
  then show ?case using micros_trace [OF micros_engine_step [OF run_step.hyps(2)] assms(2)] by blast
next
  case run_start
  show ?case using assms(3,4) ..
qed

section \<open>Between iterations nothing waits for release in vain\<close>

text \<open>A retired row belongs to the queued step, so a later iteration releases it.\<close>

definition retired_ok :: "('d, 'q, 'l, 'm) text_decoder \<Rightarrow> ('d, 'q, 't, 'm, 'o) engine \<Rightarrow> bool" where
  "retired_ok dc st \<longleftrightarrow> fst ` set (en_retired st) \<subseteq> set (queued_rows dc st)"

lemma retired_ok_cong:
  "en_retired st' = en_retired st \<Longrightarrow> en_queued st' = en_queued st \<Longrightarrow> retired_ok dc st' = retired_ok dc st"
  by (simp add: retired_ok_def queued_rows_def)

lemma retired_ok_simps [simp]:
  "retired_ok dc (st\<lparr>en_running := rs\<rparr>) = retired_ok dc st" "retired_ok dc (st\<lparr>en_waiting := ws\<rparr>) = retired_ok dc st"
  "retired_ok dc (st\<lparr>en_prefilling := p\<rparr>) = retired_ok dc st" "retired_ok dc (st\<lparr>en_decoder := d\<rparr>) = retired_ok dc st"
  "retired_ok dc (st\<lparr>en_next_id := n\<rparr>) = retired_ok dc st" "retired_ok dc (st\<lparr>en_steps := n\<rparr>) = retired_ok dc st"
  "retired_ok dc (st\<lparr>en_decode_step_ms := x\<rparr>) = retired_ok dc st"
  "retired_ok dc (fail_sequence st s e) = retired_ok dc st" "retired_ok dc (snd (send_event st s ev)) = retired_ok dc st"
  by (simp_all add: retired_ok_def queued_rows_def)

lemma release_retired_ok [simp]: "retired_ok dc st \<Longrightarrow> retired_ok dc (release_sequence dc st s)"
  by (auto simp: retired_ok_def queued_rows_def release_sequence_def split: option.splits)

lemma fate_retired_ok: "fate_of st = (f, st') \<Longrightarrow> retired_ok dc st' = retired_ok dc st"
  by (intro retired_ok_cong) (simp_all add: fate_of_frame)

lemma elapsed_retired_ok: "elapsed st = (ms, st') \<Longrightarrow> retired_ok dc st' = retired_ok dc st"
  by (intro retired_ok_cong) (simp_all add: elapsed_frame)

lemma send_retired_ok: "send_event st s ev = (ok, st') \<Longrightarrow> retired_ok dc st' = retired_ok dc st"
  by (intro retired_ok_cong) (simp_all add: send_event_frame)

lemma retire_loop_ok:
  "fst ` set retained \<subseteq> set (queued_rows dc st) \<Longrightarrow> retired_ok dc (retire_loop dc retained rest st)"
proof (induction dc retained rest st rule: retire_loop.induct)
  case (2 dc retained i w rest st)
  have "queued_rows dc (st\<lparr>en_decoder := d\<rparr>) = queued_rows dc st" for d by (simp add: queued_rows_def)
  then show ?case using 2 by simp
qed (simp add: retired_ok_def queued_rows_def)

lemma released_retired_ok [simp]: "retired_ok dc (release_retired dc st)"
  by (simp add: release_retired_def retire_loop_ok)

lemma requeue_retired_ok: "requeue st s = Some st' \<Longrightarrow> retired_ok dc st' = retired_ok dc st"
  by (simp add: requeue_Some)

lemma settle_pick_retired_ok [simp]: "retired_ok dc st \<Longrightarrow> retired_ok dc (settle_pick dc tn st s pick)"
  by (auto simp: settle_pick_def accepted_token_def Let_def send_retired_ok split: sum.splits prod.splits option.splits bool.splits turn_step.splits)

lemma prefilled_retired_ok [simp]: "retired_ok dc st \<Longrightarrow> retired_ok dc (prefilled dc tn st s logits prefix)"
  by (auto simp: prefilled_def elapsed_retired_ok send_retired_ok split: prod.splits bool.splits)

lemma admission_retired_ok: "retired_ok dc st \<Longrightarrow> admission_loop dc ws st = Some (found, st') \<Longrightarrow> retired_ok dc st'"
  by (induction dc ws st rule: admission_loop.induct) (auto split: sum.splits option.splits if_splits)

lemma admit_pass_retired_ok:
  assumes "admit_pass dc tn fl b sp ch st = Some r" "retired_ok dc st"
  shows "retired_ok dc (case r of Inl (_, st') \<Rightarrow> st' | Inr (_, _, _, st') \<Rightarrow> st')"
proof -
  obtain found st1 where n: "next_prefill dc st = Some (found, st1)"
    using assms(1) by (auto simp: admit_pass_def split: option.splits)
  have "retired_ok dc st1"
    using n assms(2) admission_retired_ok [OF assms(2), of "en_waiting st" found st1]
    by (auto simp: next_prefill_def next_admission_def split: option.splits)
  then show ?thesis
    using assms(1) unfolding admit_pass_def n
    by (auto simp: Let_def requeue_retired_ok split: option.splits prod.splits sum.splits if_splits bind_splits)
qed

lemma admit_loop_retired_ok:
  "admit_loop dc tn fl b sp ch st = Some (ms, st') \<Longrightarrow> retired_ok dc st \<Longrightarrow> retired_ok dc st'"
proof (induction dc tn fl b sp ch st rule: admit_loop.induct)
  case (1 dc tn fl b sp ch st)
  from 1(2) obtain r where r: "admit_pass dc tn fl b sp ch st = Some r" by (subst (asm) admit_loop.simps) (auto split: option.splits)
  note pass = admit_pass_retired_ok [OF r 1(3)]
  show ?case
  proof (cases r)
    case (Inl x)
    then show ?thesis using pass 1(2) r by (subst (asm) admit_loop.simps) simp
  next
    case (Inr x)
    obtain b' sp' ch' st1 where x: "x = (b', sp', ch', st1)" by (cases x)
    have "admit_loop dc tn fl b' sp' ch' st1 = Some (ms, st')" using 1(2) r Inr x by (subst (asm) admit_loop.simps) simp
    then show ?thesis using pass 1(1) [OF r Inr, of b' "(sp', ch', st1)" sp' "(ch', st1)" ch' st1] x Inr by simp
  qed
qed

lemma rows_retired_ok:
  "retired_ok dc st \<Longrightarrow> retired_ok dc (fail_rows dc failed e ss st)"
  "retired_ok dc st \<Longrightarrow> retired_ok dc (sweep_running dc ss st)"
  by (induction ss arbitrary: st) (auto simp: fate_retired_ok split: prod.splits fate.splits)

lemma now_rows_retired_ok:
  "now_rows dc tn decoded ms index ss st = Some st' \<Longrightarrow> retired_ok dc st \<Longrightarrow> retired_ok dc st'"
  by (induction ss arbitrary: index st) (auto simp: Let_def split: bind_splits)

lemma sweep_waiting_retired_ok: "sweep_waiting ws st = (kept, st') \<Longrightarrow> retired_ok dc st' = retired_ok dc st"
  by (induction ws arbitrary: st kept) (auto simp: fate_retired_ok split: prod.splits fate.splits)

lemma preempt_retired_ok: "preempt dc st = Some st' \<Longrightarrow> retired_ok dc st \<Longrightarrow> retired_ok dc st'"
  by (auto simp: preempt_def Let_def requeue_retired_ok split: option.splits if_splits)

lemma decode_now_retired_ok: "decode_now dc tn st = Some st' \<Longrightarrow> retired_ok dc st \<Longrightarrow> retired_ok dc st'"
  by (auto simp: decode_now_def elapsed_retired_ok rows_retired_ok split: bind_splits prod.splits sum.splits decode_error.splits
      dest: preempt_retired_ok now_rows_retired_ok)

lemma decode_pipelined_retired_ok: "decode_pipelined dc tn st = Some st' \<Longrightarrow> retired_ok dc st'"
  by (auto simp: decode_pipelined_def Let_def rows_retired_ok split: bind_splits prod.splits sum.splits decode_error.splits)

lemma decode_step_retired_ok: "decode_step dc tn st = Some st' \<Longrightarrow> retired_ok dc st \<Longrightarrow> retired_ok dc st'"
  using rows_retired_ok(2) [of dc "st\<lparr>en_running := []\<rparr>" "en_running st"]
  by (auto simp: decode_step_def Let_def split: if_splits option.splits
      dest: decode_pipelined_retired_ok decode_now_retired_ok)

lemma engine_step_retired_ok:
  assumes "engine_step dc tn fl st = Some st'" "retired_ok dc st"
  shows "retired_ok dc st'"
proof -
  obtain waiting st1 where w: "sweep_waiting (en_waiting st) st = (waiting, st1)" by (cases "sweep_waiting (en_waiting st) st")
  let ?st2 = "sweep_prefilling dc (st1\<lparr>en_waiting := waiting\<rparr>)"
  obtain st3 ms st4 st5 where
    drain: "(if en_running ?st2 = [] \<and> en_queued ?st2 \<noteq> None then decode_step dc tn ?st2 else Some ?st2) = Some st3" and
    admit: "admit dc tn fl st3 = Some (ms, st4)" and decode: "decode_step dc tn st4 = Some st5" and
    last: "retired_ok dc st' = retired_ok dc st5"
    using assms w by (fastforce simp: engine_step_def Let_def elapsed_retired_ok split: bind_splits prod.splits if_splits)
  have "retired_ok dc ?st2"
    using sweep_waiting_retired_ok [OF w, of dc] assms(2)
    by (auto simp: sweep_prefilling_def fate_retired_ok split: option.splits prod.splits fate.splits)
  then have "retired_ok dc st3" using drain decode_step_retired_ok by (auto split: if_splits)
  then have "retired_ok dc st4" by (rule admit_loop_retired_ok [OF admit [unfolded admit_def]])
  then show ?thesis using decode decode_step_retired_ok last by blast
qed

lemma reach_retired_ok:
  "engine_reach dc tn fl st0 subs st \<Longrightarrow> retired_ok dc st0 \<Longrightarrow> retired_ok dc st"
  by (induction rule: engine_reach.induct) (auto simp: engine_accept_Some engine_step_retired_ok)

end
