(* ===== verification/EngineEvents.thy ===== *)
theory EngineEvents
  imports EngineIds
begin

text \<open>
  What a writer hears. The events of one submission follow its turn: nothing, or \<open>Prefilled\<close> once,
  then the tokens the turn accepted, each exactly once and in order through preemptions and
  pipelining, then at most one closing event, and nothing after it. The invariant is stated for any
  relation \<open>P t ctx a t'\<close> between a turn, the context it decides on, the token it accepts and the turn
  afterwards: with the relation that allows everything it is the protocol, with the serial choice
  it is equivalence to serial decoding.
\<close>

section \<open>The course of a turn\<close>

type_synonym 't choice = "'t \<Rightarrow> token list \<Rightarrow> accepted \<Rightarrow> 't \<Rightarrow> bool"

inductive course :: "'t choice \<Rightarrow> token list \<Rightarrow> 't \<Rightarrow> accepted list \<Rightarrow> 't \<Rightarrow> bool" for P ids t0 where
  course_start: "course P ids t0 [] t0"
| course_step: "course P ids t0 as t \<Longrightarrow> P t (ids @ map ac_token as) a t' \<Longrightarrow> ac_step a = Continue \<Longrightarrow>
    course P ids t0 (as @ [a]) t'"

text \<open>The events that announce a prompt and the tokens accepted so far.\<close>

definition spoken :: "accepted list \<Rightarrow> ('o, 'm) event list \<Rightarrow> bool" where
  "spoken as evs \<longleftrightarrow> as = [] \<and> evs = [] \<or> (\<exists>c w ms. evs = Prefilled c w ms # map Token as)"

text \<open>
  A finished or abandoned log: the turn's course so far, then nothing, a failure, or the token
  that stops the turn with or without the event that ends it.
\<close>

definition finished :: "'t choice \<Rightarrow> ('t, 'l, 'o) turn_ops \<Rightarrow> 't submission \<Rightarrow> ('o, 'm) event list \<Rightarrow> bool" where
  "finished P tn sb evs \<longleftrightarrow>
     (\<exists>as t pre. course P (sb_input_ids sb) (sb_turn sb) as t \<and> spoken as pre \<and>
        (evs = pre \<or> (\<exists>e. evs = pre @ [Failed e]) \<or>
         pre \<noteq> [] \<and> (\<exists>a t' reason tms. P t (sb_input_ids sb @ map ac_token as) a t' \<and> ac_step a = Stop reason \<and>
           (evs = pre @ [Token a] \<or> evs = pre @ [Token a, end_event tn t' reason tms]))))"

definition events_of :: "nat \<Rightarrow> (nat \<times> ('o, 'm) event) list \<Rightarrow> ('o, 'm) event list" where
  "events_of w evs = map snd (filter (\<lambda>x. fst x = w) evs)"

lemma events_of_append [simp]: "events_of w (xs @ ys) = events_of w xs @ events_of w ys"
  by (simp add: events_of_def)

lemma events_of_said [simp]: "events_of w (map (Pair w') new) = (if w = w' then new else [])"
  by (simp add: events_of_def comp_def)

section \<open>Places and what is known there\<close>

text \<open>
  \<open>Quiet\<close>: nothing was said unless tokens were; \<open>Loud\<close>: the prompt was announced; \<open>Busy\<close>: at least
  one token was accepted.
\<close>

datatype mode = Quiet | Loud | Busy

fun mode_holds :: "mode \<Rightarrow> accepted list \<Rightarrow> ('o, 'm) event list \<Rightarrow> bool" where
  "mode_holds Quiet as evs = (as = [] \<longrightarrow> evs = [])"
| "mode_holds Loud as evs = (evs \<noteq> [])"
| "mode_holds Busy as evs = (as \<noteq> [])"

fun item_mode :: "'l item \<Rightarrow> mode" where
  "item_mode (Row logits) = Loud"
| "item_mode Keep = Busy"
| "item_mode (Gpu token) = Busy"
| "item_mode it = Quiet"

fun places :: "('d, 'q, 't, 'm, 'o, 'l) config \<Rightarrow> (('t, 'm) eseq \<times> mode) list" where
  "places (st, hand, prev) =
     map (\<lambda>s. (s, Quiet)) (en_waiting st) @ map (\<lambda>s. (s, Quiet)) (prefilling_list st) @
     map (\<lambda>x. (fst x, item_mode (snd x))) hand @ map (\<lambda>s. (s, Busy)) (en_running st)"

definition writers :: "('d, 'q, 't, 'm, 'o, 'l) config \<Rightarrow> nat list" where
  "writers c = map (\<lambda>x. es_writer (fst x)) (places c)"

text \<open>An active sequence is its submission after the tokens it accepted.\<close>

definition tracks :: "'t choice \<Rightarrow> 't submission \<Rightarrow> ('t, 'm) eseq \<Rightarrow> mode \<Rightarrow> ('o, 'm) event list \<Rightarrow> bool" where
  "tracks P sb s m evs \<longleftrightarrow>
     (\<exists>as. course P (sb_input_ids sb) (sb_turn sb) as (es_turn s) \<and> es_context s = sb_input_ids sb @ map ac_token as \<and>
        es_prompt_tokens s = length (sb_input_ids sb) \<and> es_keys s = sb_keys sb \<and> spoken as evs \<and> mode_holds m as evs)"

definition logs_ok ::
  "'t choice \<Rightarrow> ('t, 'l, 'o) turn_ops \<Rightarrow> (nat \<times> 't submission) list \<Rightarrow> ('d, 'q, 't, 'm, 'o, 'l) config \<Rightarrow> bool" where
  "logs_ok P tn subs c \<longleftrightarrow>
     distinct (map fst subs) \<and> (\<forall>w\<in>fst ` set subs \<union> fst ` set (en_sent (fst c)). w < en_next_id (fst c)) \<and>
     distinct (writers c) \<and>
     (\<forall>(s, m)\<in>set (places c). \<exists>sb. (es_writer s, sb) \<in> set subs \<and> tracks P sb s m (events_of (es_writer s) (en_sent (fst c)))) \<and>
     (\<forall>(w, sb)\<in>set subs. w \<notin> set (writers c) \<longrightarrow> finished P tn sb (events_of w (en_sent (fst c))))"

lemma tracks_finished: "tracks P sb s m evs \<Longrightarrow> finished P tn sb evs"
  unfolding tracks_def finished_def by blast

lemma tracks_failed: "tracks P sb s m evs \<Longrightarrow> finished P tn sb (evs @ [Failed e])"
  unfolding tracks_def finished_def by blast

text \<open>The same turn, perhaps under another ID.\<close>

definition same_turn :: "('t, 'm) eseq \<Rightarrow> ('t, 'm) eseq \<Rightarrow> bool" where
  "same_turn s s' \<longleftrightarrow> es_writer s' = es_writer s \<and> es_turn s' = es_turn s \<and> es_context s' = es_context s \<and>
     es_prompt_tokens s' = es_prompt_tokens s \<and> es_keys s' = es_keys s"

lemma same_turn_refl [simp]: "same_turn s s"
  by (simp add: same_turn_def)

lemma tracks_move:
  assumes "tracks P sb s m evs" "same_turn s s'" "m' = m \<or> m = Busy \<or> m' = Busy \<and> resumed s"
  shows "tracks P sb s' m' evs"
proof -
  obtain as where as: "course P (sb_input_ids sb) (sb_turn sb) as (es_turn s)" "es_context s = sb_input_ids sb @ map ac_token as"
      "es_prompt_tokens s = length (sb_input_ids sb)" "es_keys s = sb_keys sb" "spoken as evs" "mode_holds m as evs"
    using assms(1) unfolding tracks_def by blast
  have "mode_holds m' as evs"
    using assms(3) as(2,3,5,6) by (cases m'; cases m) (auto simp: spoken_def resumed_def)
  then show ?thesis using as assms(2) unfolding tracks_def same_turn_def by auto
qed

section \<open>The invariant is kept\<close>

text \<open>
  Every step leaves the sequences as they were, except one whose writer hears something new: it
  goes on, or its log is finished.
\<close>

lemma logs_step:
  assumes ok: "logs_ok P tn subs c"
    and next_id: "en_next_id (fst c) \<le> en_next_id (fst c')" and sent: "en_sent (fst c') = en_sent (fst c) @ map (Pair w) new"
    and heard: "new = [] \<or> w \<in> set (writers c)" and unique: "distinct (writers c')"
    and others: "\<And>s' m'. (s', m') \<in> set (places c') \<Longrightarrow>
      (new = [] \<or> es_writer s' \<noteq> w) \<and> (\<exists>s m. (s, m) \<in> set (places c) \<and> same_turn s s' \<and>
         (m' = m \<or> m = Busy \<or> m' = Busy \<and> resumed s)) \<or>
      es_writer s' = w \<and> (\<exists>sb. (w, sb) \<in> set subs \<and> tracks P sb s' m' (events_of w (en_sent (fst c'))))"
    and end_log: "\<And>sb. (w, sb) \<in> set subs \<Longrightarrow> new = [] \<or> w \<in> set (writers c') \<or> finished P tn sb (events_of w (en_sent (fst c')))"
  shows "logs_ok P tn subs c'"
proof -
  have tracked: "(s, m) \<in> set (places c) \<Longrightarrow>
      \<exists>sb. (es_writer s, sb) \<in> set subs \<and> tracks P sb s m (events_of (es_writer s) (en_sent (fst c)))" for s m
    using ok unfolding logs_ok_def by blast
  have known: "x \<in> set (writers c) \<Longrightarrow> x \<in> fst ` set subs" for x
    using tracked unfolding writers_def by force
  have same: "new = [] \<or> x \<noteq> w \<Longrightarrow> events_of x (en_sent (fst c')) = events_of x (en_sent (fst c))" for x
    unfolding sent by auto
  have bound: "x < en_next_id (fst c)" if "x \<in> fst ` set subs \<or> x \<in> fst ` set (en_sent (fst c))" for x
    using ok that unfolding logs_ok_def by blast
  have "x < en_next_id (fst c')" if "x \<in> fst ` set subs \<union> fst ` set (en_sent (fst c'))" for x
  proof -
    have "x \<in> fst ` set subs \<or> x \<in> fst ` set (en_sent (fst c)) \<or> new \<noteq> [] \<and> x = w" using that unfolding sent by auto
    then have "x \<in> fst ` set subs \<or> x \<in> fst ` set (en_sent (fst c))" using heard known [of w] by fast
    then show ?thesis using bound [of x] next_id by linarith
  qed
  moreover have "\<exists>sb. (es_writer s', sb) \<in> set subs \<and> tracks P sb s' m' (events_of (es_writer s') (en_sent (fst c')))"
    if "(s', m') \<in> set (places c')" for s' m'
    using others [OF that]
  proof
    assume old: "(new = [] \<or> es_writer s' \<noteq> w) \<and> (\<exists>s m. (s, m) \<in> set (places c) \<and> same_turn s s' \<and>
         (m' = m \<or> m = Busy \<or> m' = Busy \<and> resumed s))"
    then obtain s m where s: "(s, m) \<in> set (places c)" "same_turn s s'" "m' = m \<or> m = Busy \<or> m' = Busy \<and> resumed s" by blast
    obtain sb where sb: "(es_writer s, sb) \<in> set subs" "tracks P sb s m (events_of (es_writer s) (en_sent (fst c)))"
      using tracked [OF s(1)] by blast
    have w: "es_writer s' = es_writer s" using s(2) by (simp add: same_turn_def)
    have "events_of (es_writer s') (en_sent (fst c')) = events_of (es_writer s) (en_sent (fst c))"
      using same [of "es_writer s'"] old w by auto
    then show ?thesis using tracks_move [OF sb(2) s(2,3)] sb(1) w by auto
  qed blast
  moreover have "finished P tn sb (events_of x (en_sent (fst c')))"
    if "(x, sb) \<in> set subs" "x \<notin> set (writers c')" for x sb
  proof (cases "new = [] \<or> x \<noteq> w")
    case True
    show ?thesis
    proof (cases "x \<in> set (writers c)")
      case False
      then have "finished P tn sb (events_of x (en_sent (fst c)))" using ok that(1) unfolding logs_ok_def by blast
      then show ?thesis using same [OF True] by simp
    next
      case active: True
      then obtain s m where s: "(s, m) \<in> set (places c)" "es_writer s = x" unfolding writers_def by auto
      obtain sb' where sb': "(x, sb') \<in> set subs" "tracks P sb' s m (events_of x (en_sent (fst c)))"
        using tracked [OF s(1)] s(2) by blast
      have "distinct (map fst subs)" using ok unfolding logs_ok_def by blast
      then have "sb' = sb" using eq_key_imp_eq_value [OF _ sb'(1) that(1)] by blast
      then show ?thesis using tracks_finished [OF sb'(2), of tn] same [OF True] by simp
    qed
  next
    case False
    then show ?thesis using end_log that by blast
  qed
  moreover have "distinct (map fst subs)" using ok unfolding logs_ok_def by blast
  ultimately show ?thesis using unique unfolding logs_ok_def by blast
qed

text \<open>Where a place can come from when nothing is said.\<close>

definition came :: "('d, 'q, 't, 'm, 'o, 'l) config \<Rightarrow> ('t, 'm) eseq \<times> mode \<Rightarrow> bool" where
  "came c x \<longleftrightarrow> (\<exists>s m. (s, m) \<in> set (places c) \<and> same_turn s (fst x) \<and> (snd x = m \<or> m = Busy \<or> snd x = Busy \<and> resumed s))"

lemma came_in: "x \<in> set (places c) \<Longrightarrow> came c x"
  unfolding came_def by (cases x) (auto intro: same_turn_refl)

lemma came_busy: "(s, Busy) \<in> set (places c) \<Longrightarrow> came c (s, m)"
  unfolding came_def by (auto intro: same_turn_refl)

lemma logs_same:
  assumes "logs_ok P tn subs c" "en_next_id (fst c) \<le> en_next_id (fst c')" "en_sent (fst c') = en_sent (fst c)"
    and "mset (writers c') \<subseteq># mset (writers c)"
    and "\<And>x. x \<in> set (places c') \<Longrightarrow> came c x"
  shows "logs_ok P tn subs c'"
proof -
  have "distinct (writers c)" using assms(1) by (simp add: logs_ok_def)
  then have "distinct (writers c')" using assms(4) by (rule distinct_submultiset)
  then show ?thesis using assms(2,3) assms(5) [unfolded came_def]
    by (intro logs_step [OF assms(1), of c' undefined "[]"]) fastforce+
qed

fun picks_ok :: "'t choice \<Rightarrow> ('t, 'l, 'o) turn_ops \<Rightarrow> ('d, 'q, 't, 'm, 'o, 'l) config \<Rightarrow> bool" where
  "picks_ok P tn (st, hand, prev) \<longleftrightarrow>
     (\<forall>(s, it)\<in>set hand. \<forall>a t. picked tn (es_turn s) it = (Inr a, t) \<longrightarrow> P (es_turn s) (es_context s) a t)"

lemma logs_okD:
  assumes "logs_ok P tn subs c" "(s, m) \<in> set (places c)"
  obtains sb where "(es_writer s, sb) \<in> set subs" "tracks P sb s m (events_of (es_writer s) (en_sent (fst c)))"
  using assms unfolding logs_ok_def by blast

lemma logs_sub:
  assumes "logs_ok P tn subs c" "(w, sb) \<in> set subs" "(w, sb') \<in> set subs"
  shows "sb = sb'"
  using assms unfolding logs_ok_def by (metis eq_key_imp_eq_value)

lemma writers_simp:
  "writers (st, hand, prev) = map es_writer (en_waiting st) @ map es_writer (prefilling_list st) @
     map (\<lambda>x. es_writer (fst x)) hand @ map es_writer (en_running st)"
  by (simp add: writers_def comp_def)

text \<open>A sequence leaves, and its writer may be told why.\<close>

lemma logs_leave:
  assumes ok: "logs_ok P tn subs c" and s: "(s, m) \<in> set (places c)"
    and places: "mset (places c) = add_mset (s, m) (mset (places c'))"
    and "en_next_id (fst c') = en_next_id (fst c)" "en_sent (fst c') = en_sent (fst c) @ map (Pair (es_writer s)) new"
    and new: "\<And>sb. tracks P sb s m (events_of (es_writer s) (en_sent (fst c))) \<Longrightarrow>
      finished P tn sb (events_of (es_writer s) (en_sent (fst c)) @ new)"
  shows "logs_ok P tn subs c'"
proof -
  have w: "mset (writers c) = add_mset (es_writer s) (mset (writers c'))"
    using arg_cong [OF places, of "image_mset (\<lambda>x. es_writer (fst x))"] by (simp add: writers_def)
  have "distinct (writers c)" using ok by (simp add: logs_ok_def)
  then have "distinct (es_writer s # writers c')" using mset_eq_imp_distinct_iff [of "writers c" "es_writer s # writers c'"] w by simp
  then have out: "es_writer s \<notin> set (writers c')" and "distinct (writers c')" by simp_all
  moreover have "set (places c') \<subseteq> set (places c)" using arg_cong [OF places, of set_mset] by auto
  moreover have "es_writer s \<in> set (writers c)" using s unfolding writers_def by force
  moreover have "es_writer s' \<noteq> es_writer s" if "(s', m') \<in> set (places c')" for s' m'
    using out that unfolding writers_def by force
  moreover have "finished P tn sb (events_of (es_writer s) (en_sent (fst c')))" if "(es_writer s, sb) \<in> set subs" for sb
  proof -
    obtain sb' where "(es_writer s, sb') \<in> set subs" "tracks P sb' s m (events_of (es_writer s) (en_sent (fst c)))"
      by (rule logs_okD [OF ok s])
    then show ?thesis using logs_sub [OF ok that] new assms(5) by simp
  qed
  ultimately show ?thesis
    using assms(4,5) by (intro logs_step [OF ok, of c' "es_writer s" new]) (auto intro: same_turn_refl)
qed

text \<open>A sequence stays, at another place, and its writer is told something.\<close>

lemma logs_stay:
  assumes ok: "logs_ok P tn subs c"
    and before: "mset (places c) = add_mset (s, m) rest" and after: "mset (places c') = add_mset (s', m') rest"
    and "es_writer s' = es_writer s" "en_next_id (fst c') = en_next_id (fst c)"
    and "en_sent (fst c') = en_sent (fst c) @ map (Pair (es_writer s)) new"
    and new: "\<And>sb. tracks P sb s m (events_of (es_writer s) (en_sent (fst c))) \<Longrightarrow>
      tracks P sb s' m' (events_of (es_writer s) (en_sent (fst c)) @ new)"
  shows "logs_ok P tn subs c'"
proof -
  have s: "(s, m) \<in> set (places c)" using arg_cong [OF before, of set_mset] by auto
  have w: "mset (writers c) = add_mset (es_writer s) (image_mset (\<lambda>x. es_writer (fst x)) rest)"
    "mset (writers c') = add_mset (es_writer s) (image_mset (\<lambda>x. es_writer (fst x)) rest)"
    using arg_cong [OF before, of "image_mset (\<lambda>x. es_writer (fst x))"] arg_cong [OF after, of "image_mset (\<lambda>x. es_writer (fst x))"] assms(4)
    by (simp_all add: writers_def)
  have d: "distinct (writers c)" using ok by (simp add: logs_ok_def)
  then have "distinct (writers c')" using w by (metis mset_eq_imp_distinct_iff)
  moreover have mem: "es_writer s \<in> set (writers c)" "es_writer s \<in> set (writers c')"
    using arg_cong [OF w(1), of set_mset] arg_cong [OF w(2), of set_mset] by auto
  moreover have apart: "es_writer (fst x) \<noteq> es_writer s" if "x \<in># rest" for x
  proof
    assume "es_writer (fst x) = es_writer s"
    then have "es_writer s \<in># image_mset (\<lambda>x. es_writer (fst x)) rest" using that by force
    then have "count (mset (writers c)) (es_writer s) \<ge> 2" unfolding w(1) by (simp add: Suc_le_eq)
    then show False using d by (auto simp: distinct_count_atmost_1 split: if_splits)
  qed
  moreover obtain sb where "(es_writer s, sb) \<in> set subs" "tracks P sb s m (events_of (es_writer s) (en_sent (fst c)))"
    by (rule logs_okD [OF ok s])
  then have "\<exists>sb. (es_writer s, sb) \<in> set subs \<and> tracks P sb s' m' (events_of (es_writer s) (en_sent (fst c')))"
    using new assms(6) by auto
  moreover have "(x, k) = (s', m') \<or> (x, k) \<in># rest" if "(x, k) \<in> set (places c')" for x k
    using that arg_cong [OF after, of set_mset] by auto
  moreover have "x \<in> set (places c)" if "x \<in># rest" for x using that arg_cong [OF before, of set_mset] by auto
  ultimately show ?thesis
    using assms(4-6)
    by (intro logs_step [OF ok, of c' "es_writer s" new]) (auto, (metis fst_conv same_turn_refl)+)
qed


lemma logs_moved:
  assumes "logs_ok P tn subs c" "en_next_id (fst c') = en_next_id (fst c)" "en_sent (fst c') = en_sent (fst c)"
    and sub: "mset (places c') \<subseteq># mset (places c)"
  shows "logs_ok P tn subs c'"
proof (rule logs_same [OF assms(1)])
  show "mset (writers c') \<subseteq># mset (writers c)"
    using image_mset_subseteq_mono [OF sub, of "\<lambda>x. es_writer (fst x)"] by (simp add: writers_def)
  show "came c x" if "x \<in> set (places c')" for x
    using that set_mset_mono [OF sub] by (auto intro: came_in)
qed (simp_all add: assms(2,3))

lemma tracks_loud:
  "tracks P sb s m evs \<Longrightarrow> m \<noteq> Quiet \<Longrightarrow> evs \<noteq> []"
  by (cases m) (auto simp: tracks_def spoken_def)

lemma tracks_token:
  assumes "tracks P sb s m evs" "m \<noteq> Quiet" "P (es_turn s) (es_context s) a t" "ac_step a = Continue"
  shows "tracks P sb (went_on s t a tms) Busy (evs @ [Token a])"
proof -
  obtain as where as: "course P (sb_input_ids sb) (sb_turn sb) as (es_turn s)" "es_context s = sb_input_ids sb @ map ac_token as"
      "es_prompt_tokens s = length (sb_input_ids sb)" "es_keys s = sb_keys sb" "spoken as evs"
    using assms(1) unfolding tracks_def by blast
  have "course P (sb_input_ids sb) (sb_turn sb) (as @ [a]) t" using course_step [OF as(1)] assms(3,4) as(2) by simp
  moreover have "spoken (as @ [a]) (evs @ [Token a])" using as(5) tracks_loud [OF assms(1,2)] by (auto simp: spoken_def)
  ultimately show ?thesis using as(2-4) unfolding tracks_def by (intro exI [of _ "as @ [a]"]) simp
qed

lemma tracks_stop:
  assumes "tracks P sb s m evs" "m \<noteq> Quiet" "P (es_turn s) (es_context s) a t" "ac_step a = Stop reason"
  shows "finished P tn sb (evs @ [Token a])" "finished P tn sb (evs @ [Token a, end_event tn t reason tms])"
proof -
  have "evs \<noteq> []" by (rule tracks_loud [OF assms(1,2)])
  moreover obtain as where "course P (sb_input_ids sb) (sb_turn sb) as (es_turn s)" "es_context s = sb_input_ids sb @ map ac_token as"
      "spoken as evs" using assms(1) unfolding tracks_def by blast
  ultimately show "finished P tn sb (evs @ [Token a])" "finished P tn sb (evs @ [Token a, end_event tn t reason tms])"
    using assms(3,4) unfolding finished_def by metis+
qed

lemma tracks_prefilled:
  assumes "tracks P sb s Quiet evs" "\<not> resumed s"
  shows "tracks P sb s Loud (evs @ [Prefilled cached w ms])"
  using assms by (auto simp: tracks_def resumed_def spoken_def)

lemma picked_mode: "picked tn t it = (Inr a, t') \<Longrightarrow> item_mode it \<noteq> Quiet"
  by (cases it) auto

lemmas place_simps = writers_simp prefilling_list_Some

lemma micro_logs:
  assumes "micro dc tn c c'" "logs_ok P tn subs c" "picks_ok P tn c"
  shows "logs_ok P tn subs c'"
  using assms(1)
proof cases
  case (m_world st hand prev a r n ms)
  show ?thesis by (rule logs_moved [OF assms(2)]) (simp_all add: m_world prefilling_list_Some)
next
  case (m_drop st ws s ws' e)
  show ?thesis
    by (rule logs_leave [OF assms(2), of s Quiet _ "case e of None \<Rightarrow> [] | Some x \<Rightarrow> [Failed x]"])
      (auto simp: m_drop tracks_finished tracks_failed split: option.splits)
next
  case (m_admit st s ws)
  show ?thesis by (rule logs_moved [OF assms(2)]) (simp_all add: m_admit prefilling_list_Some)
next
  case (m_resume st p)
  show ?thesis by (rule logs_moved [OF assms(2)]) (simp_all add: m_resume prefilling_list_Some)
next
  case (m_pause st s n c w)
  show ?thesis by (rule logs_moved [OF assms(2)]) (simp_all add: m_pause prefilling_list_Some)
next
  case (m_prefill st s budget res d it n c w)
  have "item_mode it = Quiet" using m_prefill(4) by (auto split: sum.splits option.splits)
  then show ?thesis by (intro logs_moved [OF assms(2)]) (simp_all add: m_prefill(1,2))
next
  case (m_release st s it hand e)
  show ?thesis
    by (rule logs_leave [OF assms(2), of s "item_mode it" _ "case e of None \<Rightarrow> [] | Some x \<Rightarrow> [Failed x]"])
      (auto simp: m_release tracks_finished tracks_failed split: option.splits)
next
  case (m_requeue st s st' it hand)
  have st': "st' = (release_sequence dc st s)\<lparr>en_next_id := en_next_id st + 1, en_waiting := s\<lparr>es_id := en_next_id st\<rparr> # en_waiting st\<rparr>"
    using m_requeue(3) by (simp add: requeue_Some)
  have m: "item_mode it = Quiet \<or> item_mode it = Busy" using m_requeue(4) by auto
  have "came c x" if "x \<in> set (places c')" for x
  proof (cases "x \<in> set (places c)")
    case False
    then have "x = (s\<lparr>es_id := en_next_id st\<rparr>, Quiet)" using that by (auto simp: m_requeue(1,2) st')
    moreover have "(s, item_mode it) \<in> set (places c)" by (simp add: m_requeue(1))
    ultimately show ?thesis using m unfolding came_def by (auto simp: same_turn_def intro!: exI [of _ s])
  qed (rule came_in)
  then show ?thesis by (intro logs_same [OF assms(2)]) (simp_all add: m_requeue(1,2) st' writers_simp)
next
  case (m_keep st s hand)
  show ?thesis by (rule logs_moved [OF assms(2)]) (simp_all add: m_keep prefilling_list_Some)
next
  case (m_rejoin s st logits cached w hand)
  have "came c x" if "x \<in> set (places c')" for x
  proof (cases "x \<in> set (places c)")
    case False
    then have "x = (s, Busy)" using that by (auto simp: m_rejoin(1,2))
    moreover have "(s, Quiet) \<in> set (places c)" by (simp add: m_rejoin(1))
    ultimately show ?thesis using m_rejoin(3) same_turn_refl unfolding came_def by fastforce
  qed (rule came_in)
  then show ?thesis by (intro logs_same [OF assms(2)]) (simp_all add: m_rejoin(1,2) writers_simp)
next
  case (m_prefilled s st logits cached w hand ms)
  show ?thesis
    by (rule logs_stay [OF assms(2), where s = s and m = Quiet and s' = s and m' = Loud and new = "[Prefilled cached w ms]"
          and rest = "mset (places (st, hand, None))"])
      (use tracks_prefilled m_prefilled(3) in \<open>auto simp: m_prefilled(1,2)\<close>)
next
  case (m_token s it a t st hand tms)
  have P: "P (es_turn s) (es_context s) a t" using assms(3) m_token(3) by (auto simp: m_token(1))
  show ?thesis
    by (rule logs_stay [OF assms(2), where s = s and m = "item_mode it" and s' = "went_on s t a tms" and m' = Busy
          and new = "[Token a]" and rest = "mset (places (st, hand, None))"])
      (use tracks_token [where P = P and s = s and a = a and t = t, OF _ picked_mode [OF m_token(3)] P m_token(4)] in \<open>auto simp: m_token(1,2)\<close>)
next
  case (m_stop s it a t reason ev tms st hand)
  have P: "P (es_turn s) (es_context s) a t" using assms(3) m_stop(3) by (auto simp: m_stop(1))
  show ?thesis
    by (rule logs_leave [OF assms(2), of s "item_mode it" _ "Token a # (case ev of None \<Rightarrow> [] | Some x \<Rightarrow> [x])"])
      (use tracks_stop [where P = P and s = s and a = a and t = t, OF _ picked_mode [OF m_stop(3)] P m_stop(4)] m_stop(5) in \<open>auto simp: m_stop(1,2) split: option.splits\<close>)
next
  case (m_take st prev)
  show ?thesis by (rule logs_moved [OF assms(2)]) (simp_all add: m_take comp_def)
next
  case (m_take_last st running s)
  show ?thesis by (rule logs_moved [OF assms(2)]) (simp_all add: m_take_last prefilling_list_Some)
next
  case (m_unqueue st)
  show ?thesis by (rule logs_moved [OF assms(2)]) (simp_all add: m_unqueue prefilling_list_Some)
next
  case (m_queue st rows res d)
  show ?thesis
  proof (cases res)
    case (Inl e)
    have "came c x" if "x \<in> set (places c')" for x
    proof -
      have "x \<in> set (places c) \<or> (\<exists>s\<in>set (en_running st). x = (s, Quiet))"
        using that Inl by (cases e; auto simp: m_queue(1,2))
      moreover have "(s, Busy) \<in> set (places c)" if "s \<in> set (en_running st)" for s using that by (simp add: m_queue(1))
      ultimately show ?thesis using came_in came_busy by blast
    qed
    then show ?thesis
      using Inl by (intro logs_same [OF assms(2)]; cases e) (simp_all add: m_queue(1,2) writers_simp comp_def)
  next
    case (Inr step)
    then show ?thesis by (intro logs_moved [OF assms(2)]) (simp_all add: m_queue(1,2))
  qed
next
  case (m_finish st step res d hand)
  have "came c (fst y, item_mode (snd (read_back rows res y)))" if "y \<in> set hand" for y rows res
  proof (cases "snd (read_back rows res y) = snd y")
    case True
    then show ?thesis using that by (auto simp: m_finish(1) intro!: came_in)
  next
    case False
    then have "item_mode (snd y) = Busy" by (auto simp: read_back_def split: prod.splits if_splits)
    then show ?thesis using that by (intro came_busy) (force simp: m_finish(1))
  qed
  then have "came c x" if "x \<in> set (places c')" for x
    using that by (auto simp: m_finish(1,2) intro: came_in)
  then show ?thesis by (intro logs_same [OF assms(2)]) (simp_all add: m_finish(1,2) writers_simp comp_def)
next
  case (m_decode st rows res d)
  show ?thesis
  proof (cases res)
    case (Inl e)
    have "came c x" if "x \<in> set (places c')" for x
    proof -
      have "x \<in> set (places c) \<or> (\<exists>s\<in>set (en_running st). x = (s, Quiet))"
        using that Inl by (cases e; auto simp: m_decode(1,2))
      moreover have "(s, Busy) \<in> set (places c)" if "s \<in> set (en_running st)" for s using that by (simp add: m_decode(1))
      ultimately show ?thesis using came_in came_busy by blast
    qed
    then show ?thesis
      using Inl by (intro logs_same [OF assms(2)]; cases e) (simp_all add: m_decode(1,2) writers_simp comp_def)
  next
    case (Inr decoded)
    have all: "map fst (hand_over decoded (en_running st)) = en_running st" by (rule m_decode(7) [OF Inr])
    have "fst y \<in> set (en_running st)" if "y \<in> set (hand_over decoded (en_running st))" for y
      using that arg_cong [OF all, of set] by auto
    then have "x \<in> set (places c) \<or> fst x \<in> set (en_running st)" if "x \<in> set (places c')" for x
      using that Inr by (auto simp: m_decode(1,2))
    moreover have "came c x" if "fst x \<in> set (en_running st)" for x
      using that came_busy [of "fst x" c "snd x"] by (simp add: m_decode(1))
    ultimately have "came c x" if "x \<in> set (places c')" for x using that came_in by blast
    moreover have "map (\<lambda>x. es_writer (fst x)) (hand_over decoded (en_running st)) = map es_writer (en_running st)"
      using arg_cong [OF all, of "map es_writer"] by (simp add: comp_def)
    ultimately show ?thesis using Inr by (intro logs_same [OF assms(2)]) (simp_all add: m_decode(1,2) writers_simp)
  qed
next
  case (m_retire st rs i w rs' hand)
  show ?thesis by (rule logs_moved [OF assms(2)]) (simp_all add: m_retire prefilling_list_Some)
qed


lemma accept_logs:
  assumes ok: "logs_ok P tn subs c" and accept: "engine_accept st sb = Some st'"
    and c: "c = (st, [], None)" "c' = (st', [], None)"
  shows "logs_ok P tn (subs @ [(en_next_id st, sb)]) c'"
proof -
  let ?n = "en_next_id st"
  let ?s = "\<lparr>es_id = ?n, es_turn = sb_turn sb, es_context = sb_input_ids sb, es_prompt_tokens = length (sb_input_ids sb),
         es_keys = sb_keys sb, es_writer = ?n, es_decode_ms = []\<rparr>"
  have st': "st' = st\<lparr>en_next_id := ?n + 1, en_waiting := en_waiting st @ [?s]\<rparr>" using accept by (simp add: engine_accept_Some)
  have "\<forall>w\<in>fst ` set subs \<union> fst ` set (en_sent st). w < ?n" using ok unfolding logs_ok_def c(1) fst_conv by blast
  then have bound: "x < ?n" if "x \<in> fst ` set subs \<or> x \<in> fst ` set (en_sent st)" for x using that by blast
  have writer: "x \<in> fst ` set subs" if mem: "x \<in> set (writers c)" for x
  proof -
    from mem have "x \<in> (\<lambda>p. es_writer (fst p)) ` set (places c)" by (simp only: writers_def set_map)
    then obtain p where p: "x = es_writer (fst p)" "p \<in> set (places c)" by (rule imageE)
    have "(fst p, snd p) \<in> set (places c)" using p(2) by (simp del: places.simps)
    then obtain sb' where "(es_writer (fst p), sb') \<in> set subs" by (rule logs_okD [OF ok])
    then show ?thesis using p(1) by force
  qed
  have fresh: "?n \<notin> set (writers c)" "?n \<notin> fst ` set subs" using bound writer by blast+
  have perm: "mset (writers c') = mset (?n # writers c)"
    by (simp add: writers_simp st' c)
  have silent: "events_of ?n (en_sent st) = []"
    using bound by (force simp: events_of_def filter_empty_conv)
  have "distinct (map fst subs)" using ok unfolding logs_ok_def by blast
  then have "distinct (map fst (subs @ [(?n, sb)]))" using fresh(2) by simp
  moreover have "\<forall>x\<in>fst ` set (subs @ [(?n, sb)]) \<union> fst ` set (en_sent st'). x < en_next_id st'"
    using bound by (auto simp: st' less_Suc_eq)
  moreover have "distinct (writers c')"
    using ok fresh(1) mset_eq_imp_distinct_iff [OF perm] unfolding logs_ok_def by simp
  moreover have "\<exists>sb'. (es_writer s, sb') \<in> set (subs @ [(?n, sb)]) \<and> tracks P sb' s m (events_of (es_writer s) (en_sent st'))"
    if "(s, m) \<in> set (places c')" for s m
  proof (cases "(s, m) \<in> set (places c)")
    case True
    then show ?thesis using ok unfolding logs_ok_def by (fastforce simp: st' c)
  next
    case False
    then have "s = ?s" "m = Quiet" using that by (auto simp: st' c)
    then show ?thesis using silent by (auto simp: tracks_def st' spoken_def intro!: exI [of _ sb] exI [of _ "[]"] course_start)
  qed
  moreover have "finished P tn sb' (events_of x (en_sent st'))"
    if "(x, sb') \<in> set (subs @ [(?n, sb)])" "x \<notin> set (writers c')" for x sb'
  proof -
    have "set (writers c') = insert ?n (set (writers c))"
      using arg_cong [OF perm, of set_mset] by simp
    then have "(x, sb') \<in> set subs" "x \<notin> set (writers c)" using that by auto
    then show ?thesis using ok unfolding logs_ok_def by (auto simp: st' c)
  qed
  ultimately show ?thesis unfolding logs_ok_def by (auto simp: c(2) simp del: places.simps)
qed

lemma new_logs: "logs_ok P tn [] (engine_new d limits zero answers readings, [], None)"
  by (simp add: logs_ok_def engine_new_def writers_def prefilling_list_def)

text \<open>With the relation that allows every choice, the invariant needs nothing of decoder or turns.\<close>

definition any_choice :: "'t choice" where
  "any_choice t ctx a t' \<longleftrightarrow> True"

lemma micros_logs: "micros dc tn c c' \<Longrightarrow> logs_ok any_choice tn subs c \<Longrightarrow> logs_ok any_choice tn subs c'"
proof (induction rule: rtranclp_induct)
  case (step y z)
  have "picks_ok any_choice tn y" by (cases y) (auto simp: any_choice_def)
  then show ?case using micro_logs [OF step.hyps(2)] step by blast
qed

lemma reach_logs:
  "engine_reach dc tn fl st0 subs st \<Longrightarrow> logs_ok any_choice tn [] (st0, [], None) \<Longrightarrow> logs_ok any_choice tn subs (st, [], None)"
proof (induction rule: engine_reach.induct)
  case (run_accept subs st sb st')
  then show ?case using accept_logs by blast
next
  case (run_step subs st st')
  then show ?case using micros_logs [OF micros_engine_step] by blast
qed

lemma logs_finished:
  assumes "logs_ok P tn subs c" "(w, sb) \<in> set subs"
  shows "finished P tn sb (events_of w (en_sent (fst c)))"
proof (cases "w \<in> set (writers c)")
  case True
  then obtain s m where s: "(s, m) \<in> set (places c)" "es_writer s = w" unfolding writers_def by auto
  obtain sb' where sb': "(w, sb') \<in> set subs" "tracks P sb' s m (events_of w (en_sent (fst c)))"
    using logs_okD [OF assms(1) s(1)] s(2) by blast
  then show ?thesis using logs_sub [OF assms] tracks_finished by blast
next
  case False
  then show ?thesis using assms unfolding logs_ok_def by auto
qed

section \<open>The protocol\<close>

text \<open>After \<open>Prefilled\<close>: tokens, and nothing but a closing event after the token that stops the turn.\<close>

fun told_tokens :: "('o, 'm) event list \<Rightarrow> bool" where
  "told_tokens [] = True"
| "told_tokens (Token a # evs) =
     (case ac_step a of
        Continue \<Rightarrow> told_tokens evs
      | Stop reason \<Rightarrow>
          (case evs of [] \<Rightarrow> True | [Done output r tms] \<Rightarrow> r = reason | [Failed e] \<Rightarrow> True | _ \<Rightarrow> False))"
| "told_tokens (Failed e # evs) = (evs = [])"
| "told_tokens (Prefilled c w ms # evs) = False"
| "told_tokens (Done output r tms # evs) = False"

fun well_told :: "('o, 'm) event list \<Rightarrow> bool" where
  "well_told [] = True"
| "well_told (Prefilled c w ms # evs) = told_tokens evs"
| "well_told (ev # evs) = (evs = [] \<and> (\<exists>e. ev = Failed e))"

lemma course_continues: "course P ids t0 as t \<Longrightarrow> list_all (\<lambda>a. ac_step a = Continue) as"
  by (induction rule: course.induct) auto

lemma told_append: "list_all (\<lambda>a. ac_step a = Continue) as \<Longrightarrow> told_tokens (map Token as @ evs) = told_tokens evs"
  by (induction as) auto

lemma finished_told:
  assumes "finished P tn sb evs"
  shows "well_told evs"
proof -
  obtain as t pre where c: "course P (sb_input_ids sb) (sb_turn sb) as t" and pre: "spoken as pre"
    and run: "evs = pre \<or> (\<exists>e. evs = pre @ [Failed e]) \<or>
         pre \<noteq> [] \<and> (\<exists>a t' reason tms. P t (sb_input_ids sb @ map ac_token as) a t' \<and> ac_step a = Stop reason \<and>
           (evs = pre @ [Token a] \<or> evs = pre @ [Token a, end_event tn t' reason tms]))"
    using assms unfolding finished_def by blast
  note app = told_append [OF course_continues [OF c]]
  consider "evs = pre" | e where "evs = pre @ [Failed e]"
    | a t' reason tms where "pre \<noteq> []" "ac_step a = Stop reason" "evs = pre @ [Token a] \<or> evs = pre @ [Token a, end_event tn t' reason tms]"
    using run by blast
  then show ?thesis
  proof cases
    case 1
    then show ?thesis using pre by (auto simp: spoken_def app [of "[]", simplified])
  next
    case 2
    then show ?thesis using pre by (auto simp: spoken_def app)
  next
    case 3
    then show ?thesis using pre by (cases "tn_finish tn t'") (auto simp: spoken_def end_event_def app)
  qed
qed

end
