(* ===== verification/EngineSerial.thy ===== *)
theory EngineSerial
  imports EngineEvents
begin

text \<open>
  Batched decoding is serial decoding. A faithful decoder computes, for every row, the logits of
  the tokens that sequence holds, whatever else is in the batch, and a queued step carries the device's
  pick of each row. Then every writer hears the tokens its turn would accept if it ran alone,
  decoding one token at a time from its prompt: chunked prefill, prefix hits, preemption by
  recompute and pipelined steps change nothing.
\<close>

section \<open>What a decoder promises\<close>

text \<open>
  \<open>L\<close> gives the logits after a list of tokens, \<open>G\<close> the device's greedy pick there; \<open>content d i\<close> are the tokens
  of sequence \<open>i\<close>, with those of queued steps, and \<open>picks\<close> the tokens a queued step will read back.
\<close>

fun input_token :: "('q \<Rightarrow> token list) \<Rightarrow> 'q option \<Rightarrow> step_input \<Rightarrow> token" where
  "input_token picks previous (Host t) = t"
| "input_token picks previous (Previous j) = (case previous of None \<Rightarrow> 0 | Some step \<Rightarrow> picks step ! j)"

text \<open>Nothing yet, or a beginning of the prompt.\<close>

definition begun :: "token list option \<Rightarrow> token list \<Rightarrow> bool" where
  "begun held ids \<longleftrightarrow> held = None \<or> (\<exists>n. held = Some (take n ids))"

definition faithful_prefill :: "('d, 'q, 'l, 'm) text_decoder \<Rightarrow> (token list \<Rightarrow> 'l) \<Rightarrow> ('d \<Rightarrow> nat \<Rightarrow> token list option) \<Rightarrow> bool" where
  "faithful_prefill dc L content \<longleftrightarrow>
     (\<forall>d i ids keys budget res d'. dc_prefill_chunk dc d i ids keys budget = (res, d') \<longrightarrow> begun (content d i) ids \<longrightarrow>
        (\<forall>j. j \<noteq> i \<longrightarrow> content d' j = content d j) \<and>
        (\<forall>chunk. res = Inr chunk \<longrightarrow>
           (case pk_logits chunk of
              None \<Rightarrow> begun (content d' i) ids
            | Some logits \<Rightarrow> content d' i = Some ids \<and> logits = L ids)))"

definition faithful_decode :: "('d, 'q, 'l, 'm) text_decoder \<Rightarrow> (token list \<Rightarrow> 'l) \<Rightarrow> ('d \<Rightarrow> nat \<Rightarrow> token list option) \<Rightarrow> bool" where
  "faithful_decode dc L content \<longleftrightarrow>
     (\<forall>d rows res d'. dc_decode dc d rows Logits_readback = (res, d') \<longrightarrow> distinct (map fst rows) \<longrightarrow>
        (\<forall>(i, t)\<in>set rows. content d i \<noteq> None) \<longrightarrow>
        (\<forall>j. j \<notin> fst ` set rows \<longrightarrow> content d' j = content d j) \<and>
        (res = Inl Out_of_blocks \<longrightarrow> content d' = content d) \<and>
        (\<forall>decoded. res = Inr decoded \<longrightarrow>
           decoded = Logit_rows (map (\<lambda>(i, t). L (the (content d i) @ [t])) rows) \<and>
           (\<forall>(i, t)\<in>set rows. content d' i = Some (the (content d i) @ [t]))))"

definition faithful_queue ::
  "('d, 'q, 'l, 'm) text_decoder \<Rightarrow> (token list \<Rightarrow> token) \<Rightarrow> ('d \<Rightarrow> nat \<Rightarrow> token list option) \<Rightarrow> ('q \<Rightarrow> token list) \<Rightarrow> bool" where
  "faithful_queue dc G content picks \<longleftrightarrow>
     (\<forall>d rows previous res d'. dc_queue dc d rows previous = (res, d') \<longrightarrow> distinct (map fst rows) \<longrightarrow>
        (\<forall>(i, inp)\<in>set rows. content d i \<noteq> None) \<longrightarrow>
        (\<forall>j. j \<notin> fst ` set rows \<longrightarrow> content d' j = content d j) \<and>
        (res = Inl Out_of_blocks \<longrightarrow> content d' = content d) \<and>
        (\<forall>step. res = Inr step \<longrightarrow>
           picks step = map (\<lambda>(i, inp). G (the (content d i) @ [input_token picks previous inp])) rows \<and>
           (\<forall>(i, inp)\<in>set rows. content d' i = Some (the (content d i) @ [input_token picks previous inp]))))"

definition faithful_finish ::
  "('d, 'q, 'l, 'm) text_decoder \<Rightarrow> ('d \<Rightarrow> nat \<Rightarrow> token list option) \<Rightarrow> ('q \<Rightarrow> token list) \<Rightarrow> bool" where
  "faithful_finish dc content picks \<longleftrightarrow>
     (\<forall>d step res d'. dc_finish dc d step = (res, d') \<longrightarrow>
        (\<forall>j. j \<notin> set (dc_queued_rows dc step) \<longrightarrow> content d' j = content d j) \<and>
        (\<forall>tokens. res = Inr tokens \<longrightarrow> tokens = picks step \<and> content d' = content d))"

definition faithful ::
  "('d, 'q, 'l, 'm) text_decoder \<Rightarrow> (token list \<Rightarrow> 'l) \<Rightarrow> (token list \<Rightarrow> token) \<Rightarrow> ('d \<Rightarrow> nat \<Rightarrow> token list option) \<Rightarrow>
   ('q \<Rightarrow> token list) \<Rightarrow> bool" where
  "faithful dc L G content picks \<longleftrightarrow>
     names_rows dc \<and> faithful_prefill dc L content \<and> faithful_decode dc L content \<and> faithful_queue dc G content picks \<and>
     faithful_finish dc content picks \<and> (\<forall>d i. content (dc_free dc d i) = (content d)(i := None))"

section \<open>What turn rules promise\<close>

text \<open>
  The engine takes the device's pick for a turn that says it may, and the row's logits otherwise.
  \<open>agrees l t\<close>: the device picks \<open>t\<close> for a row with logits \<open>l\<close>.
\<close>

locale gpu_turns =
  fixes tn :: "('t, 'l, 'o) turn_ops" and agrees :: "'l \<Rightarrow> token \<Rightarrow> bool"
  assumes pick_agrees: "tn_gpu_greedy tn t \<Longrightarrow> agrees l tok \<Longrightarrow> tn_pick tn t l = tn_accept_gpu tn t tok"
    and accepts_token: "tn_accept_gpu tn t tok = (Inr a, t') \<Longrightarrow> ac_token a = tok"
    and stays_greedy: "tn_gpu_greedy tn t \<Longrightarrow> tn_accept_gpu tn t tok = (Inr a, t') \<Longrightarrow> tn_gpu_greedy tn t'"

text \<open>The choice a turn makes when it runs alone.\<close>

definition serial_choice :: "('t, 'l, 'o) turn_ops \<Rightarrow> (token list \<Rightarrow> 'l) \<Rightarrow> 't choice" where
  "serial_choice tn L t ctx a t' \<longleftrightarrow> tn_pick tn t (L ctx) = (Inr a, t')"

section \<open>The invariant\<close>

text \<open>
  The context of a sequence once the unread steps are read back, in order; \<open>None\<close> when a step does not
  carry the right pick.
\<close>

fun rides :: "('d, 'q, 'l, 'm) text_decoder \<Rightarrow> (token list \<Rightarrow> token) \<Rightarrow> ('q \<Rightarrow> token list) \<Rightarrow> 'q list \<Rightarrow> nat \<Rightarrow> token list \<Rightarrow>
  token list option" where
  "rides dc G picks [] i ctx = Some ctx"
| "rides dc G picks (step # steps) i ctx =
     (case position i (dc_queued_rows dc step) of
        None \<Rightarrow> rides dc G picks steps i ctx
      | Some j \<Rightarrow> if j < length (picks step) \<and> picks step ! j = G ctx then rides dc G picks steps i (ctx @ [G ctx]) else None)"

text \<open>A sequence that decodes, with \<open>ctx\<close> its tokens: the decoder holds all but the last of them and the rides.\<close>

definition decodes ::
  "('d, 'q, 'l, 'm) text_decoder \<Rightarrow> ('t, 'l, 'o) turn_ops \<Rightarrow> (token list \<Rightarrow> token) \<Rightarrow> ('d \<Rightarrow> nat \<Rightarrow> token list option) \<Rightarrow>
   ('q \<Rightarrow> token list) \<Rightarrow> 'd \<Rightarrow> 'q list \<Rightarrow> ('t, 'm) eseq \<Rightarrow> token list \<Rightarrow> bool" where
  "decodes dc tn G content picks d steps s ctx \<longleftrightarrow>
     ctx \<noteq> [] \<and> (\<exists>c. rides dc G picks steps (es_id s) ctx = Some c \<and> content d (es_id s) = Some (butlast c)) \<and>
     (es_id s \<in> set (concat (map (dc_queued_rows dc) steps)) \<longrightarrow> tn_gpu_greedy tn (es_turn s))"

fun item_synced ::
  "('d, 'q, 'l, 'm) text_decoder \<Rightarrow> ('t, 'l, 'o) turn_ops \<Rightarrow> (token list \<Rightarrow> 'l) \<Rightarrow> (token list \<Rightarrow> token) \<Rightarrow>
   ('d \<Rightarrow> nat \<Rightarrow> token list option) \<Rightarrow> ('q \<Rightarrow> token list) \<Rightarrow> 'd \<Rightarrow> 'q list \<Rightarrow> ('t, 'm) eseq \<Rightarrow> 'l item \<Rightarrow> bool" where
  "item_synced dc tn L G content picks d steps s Keep = decodes dc tn G content picks d steps s (es_context s)"
| "item_synced dc tn L G content picks d steps s (Part n c w) = begun (content d (es_id s)) (prefill_ids s)"
| "item_synced dc tn L G content picks d steps s (First logits c w) =
     (content d (es_id s) = Some (prefill_ids s) \<and> logits = L (prefill_ids s))"
| "item_synced dc tn L G content picks d steps s (Row logits) =
     (content d (es_id s) = Some (es_context s) \<and> logits = L (es_context s))"
| "item_synced dc tn L G content picks d steps s (Gpu token) =
     (token = G (es_context s) \<and> tn_gpu_greedy tn (es_turn s) \<and>
      decodes dc tn G content picks d steps s (es_context s @ [token]))"
| "item_synced dc tn L G content picks d steps s Lost = True"

fun synced ::
  "('d, 'q, 'l, 'm) text_decoder \<Rightarrow> ('t, 'l, 'o) turn_ops \<Rightarrow> (token list \<Rightarrow> 'l) \<Rightarrow> (token list \<Rightarrow> token) \<Rightarrow>
   ('d \<Rightarrow> nat \<Rightarrow> token list option) \<Rightarrow> ('q \<Rightarrow> token list) \<Rightarrow> ('d, 'q, 't, 'm, 'o, 'l) config \<Rightarrow> bool" where
  "synced dc tn L G content picks (st, hand, prev) \<longleftrightarrow>
     (\<forall>i\<ge>en_next_id st. content (en_decoder st) i = None) \<and>
     (\<forall>s\<in>set (en_waiting st). content (en_decoder st) (es_id s) = None) \<and>
     (\<forall>s\<in>set (prefilling_list st). begun (content (en_decoder st) (es_id s)) (prefill_ids s)) \<and>
     (\<forall>(s, it)\<in>set hand. item_synced dc tn L G content picks (en_decoder st) (unread (st, hand, prev)) s it) \<and>
     (\<forall>s\<in>set (en_running st). decodes dc tn G content picks (en_decoder st) (unread (st, hand, prev)) s (es_context s))"

lemma rides_apart:
  "i \<notin> set (concat (map (dc_queued_rows dc) steps)) \<Longrightarrow> rides dc G picks steps i ctx = Some ctx"
  by (induction steps) (auto simp: position_None [THEN iffD2])

lemma decodes_apart:
  "es_id s \<notin> set (concat (map (dc_queued_rows dc) steps)) \<Longrightarrow>
   decodes dc tn G content picks d steps s ctx \<longleftrightarrow> ctx \<noteq> [] \<and> content d (es_id s) = Some (butlast ctx)"
  by (simp add: decodes_def rides_apart)

lemma decodes_cong:
  "content d' (es_id s) = content d (es_id s) \<Longrightarrow>
   decodes dc tn G content picks d' steps s ctx = decodes dc tn G content picks d steps s ctx"
  by (simp add: decodes_def)

lemma item_synced_cong:
  "content d' (es_id s) = content d (es_id s) \<Longrightarrow>
   item_synced dc tn L G content picks d' steps s it = item_synced dc tn L G content picks d steps s it"
  by (cases it) (simp_all add: decodes_cong [of content d' s d])

text \<open>\<open>rides\<close> over one more step.\<close>

lemma rides_append:
  "rides dc G picks (steps @ [step]) i ctx =
     (case rides dc G picks steps i ctx of
        None \<Rightarrow> None
      | Some c \<Rightarrow> rides dc G picks [step] i c)"
  by (induction steps arbitrary: ctx) (auto split: option.splits)

lemma rides_nonempty: "rides dc G picks steps i ctx = Some c \<Longrightarrow> ctx \<noteq> [] \<Longrightarrow> c \<noteq> []"
  by (induction steps arbitrary: ctx) (auto split: option.splits if_splits)


section \<open>The invariant is kept\<close>

text \<open>Steps that leave the contents of every remaining sequence alone.\<close>

lemma synced_frame:
  assumes sync: "synced dc tn L G content picks (st, hand, prev)"
    and steps: "unread (st', hand', prev') = unread (st, hand, prev)"
    and sub: "set (en_waiting st') \<subseteq> set (en_waiting st)" "set (prefilling_list st') \<subseteq> set (prefilling_list st)"
      "set hand' \<subseteq> set hand" "set (en_running st') \<subseteq> set (en_running st)"
    and same: "\<And>i. i \<in> es_id ` set (actives (st', hand', prev')) \<or> en_next_id st' \<le> i \<Longrightarrow>
      content (en_decoder st') i = content (en_decoder st) i"
    and next_id: "en_next_id st \<le> en_next_id st'"
  shows "synced dc tn L G content picks (st', hand', prev')"
proof -
  have here: "content (en_decoder st') (es_id s) = content (en_decoder st) (es_id s)" if "s \<in> set (actives (st', hand', prev'))" for s
    using same [of "es_id s"] that by blast
  have "item_synced dc tn L G content picks (en_decoder st') (unread (st', hand', prev')) s it" if "(s, it) \<in> set hand'" for s it
  proof -
    have s: "s \<in> set (actives (st', hand', prev'))" using that by force
    have "item_synced dc tn L G content picks (en_decoder st) (unread (st, hand, prev)) s it" using sync sub(3) that by auto
    then show ?thesis by (simp only: steps item_synced_cong [of content, OF here [OF s]])
  qed
  moreover have "decodes dc tn G content picks (en_decoder st') (unread (st', hand', prev')) s (es_context s)"
    if "s \<in> set (en_running st')" for s
  proof -
    have s: "s \<in> set (actives (st', hand', prev'))" using that by simp
    have "decodes dc tn G content picks (en_decoder st) (unread (st, hand, prev)) s (es_context s)" using sync sub(4) that by auto
    then show ?thesis by (simp only: steps decodes_cong [of content, OF here [OF s]])
  qed
  moreover have "content (en_decoder st') (es_id s) = None" if "s \<in> set (en_waiting st')" for s
    using here [of s] sync sub(1) that by auto
  moreover have "begun (content (en_decoder st') (es_id s)) (prefill_ids s)" if "s \<in> set (prefilling_list st')" for s
    using here [of s] sync sub(2) that by auto
  moreover have "\<forall>i\<ge>en_next_id st'. content (en_decoder st') i = None"
    using same sync next_id by auto
  ultimately show ?thesis by auto
qed

lemma ids_distinct:
  assumes "ids_ok dc c"
  shows "distinct (map es_id (actives c))" "\<And>s. s \<in> set (actives c) \<Longrightarrow> es_id s < en_next_id (fst c)"
proof -
  obtain st hand prev where c: "c = (st, hand, prev)" by (cases c)
  have ids: "distinct (owner_ids c)" "\<forall>i\<in>set (owner_ids c). i < en_next_id (fst c)" using assms unfolding ids_ok_def by blast+
  show "distinct (map es_id (actives c))" using ids(1) unfolding c owner_ids.simps distinct_append by blast
  show "es_id s < en_next_id (fst c)" if "s \<in> set (actives c)" for s
    using ids(2) that unfolding c owner_ids.simps by auto
qed

lemma ids_apart:
  assumes "ids_ok dc (st, (s, it) # hand, prev)"
  shows "es_id s \<notin> es_id ` set (actives (st, hand, prev))" "es_id s < en_next_id st"
proof -
  have "distinct (owner_ids (st, (s, it) # hand, prev))" "\<forall>i\<in>set (owner_ids (st, (s, it) # hand, prev)). i < en_next_id st"
    using assms unfolding ids_ok_def fst_conv by blast+
  then show "es_id s \<notin> es_id ` set (actives (st, hand, prev))" "es_id s < en_next_id st" by auto
qed

lemma faithful_free: "faithful dc L G content picks \<Longrightarrow> content (dc_free dc d i) j = (if j = i then None else content d j)"
  by (simp add: faithful_def)

lemma synced_release:
  assumes "faithful dc L G content picks" "ids_ok dc (st, (s, it) # hand, None)"
    and "synced dc tn L G content picks (st, (s, it) # hand, None)"
  shows "synced dc tn L G content picks (release_sequence dc st s, hand, None)"
proof (rule synced_frame [OF assms(3)])
  note apart = ids_apart [OF assms(2)]
  fix i
  assume "i \<in> es_id ` set (actives (release_sequence dc st s, hand, None)) \<or> en_next_id (release_sequence dc st s) \<le> i"
  then have "i \<noteq> es_id s" using apart by auto
  then show "content (en_decoder (release_sequence dc st s)) i = content (en_decoder st) i"
    by (simp add: release_retired_rows faithful_free [OF assms(1)])
qed auto

lemma young_unread:
  assumes "ids_ok dc c" "i \<in> young_ids c"
  shows "i \<notin> set (concat (map (dc_queued_rows dc) (unread c)))"
  using assms unfolding ids_ok_def by auto

lemma position_Some: "position x xs = Some i \<Longrightarrow> i < length xs \<and> xs ! i = x"
  by (induction xs arbitrary: i) (auto split: if_splits)

lemma position_nth: "distinct xs \<Longrightarrow> i < length xs \<Longrightarrow> position (xs ! i) xs = Some i"
  by (induction xs arbitrary: i) (auto simp: nth_Cons split: nat.splits)

text \<open>The rows of a step are the running sequences with the last token of what they will be.\<close>

lemma step_rows:
  assumes "opt_map (step_row dc previous) ss = Some rows"
    and "\<And>s. s \<in> set ss \<Longrightarrow> decodes dc tn G content picks d (case previous of None \<Rightarrow> [] | Some step \<Rightarrow> [step]) s (es_context s)"
  shows "length rows = length ss \<and> (\<forall>k<length ss. \<exists>c. fst (rows ! k) = es_id (ss ! k) \<and> c \<noteq> [] \<and>
      rides dc G picks (case previous of None \<Rightarrow> [] | Some step \<Rightarrow> [step]) (es_id (ss ! k)) (es_context (ss ! k)) = Some c \<and>
      content d (es_id (ss ! k)) = Some (butlast c) \<and> input_token picks previous (snd (rows ! k)) = last c)"
  using assms
proof (induction ss arbitrary: rows)
  case (Cons s ss)
  obtain row rest where rows: "rows = row # rest" "step_row dc previous s = Some row" "opt_map (step_row dc previous) ss = Some rest"
    using Cons.prems(1) by (auto split: bind_splits)
  have IH: "length rest = length ss" "\<And>k. k < length ss \<Longrightarrow> \<exists>c. fst (rest ! k) = es_id (ss ! k) \<and> c \<noteq> [] \<and>
      rides dc G picks (case previous of None \<Rightarrow> [] | Some step \<Rightarrow> [step]) (es_id (ss ! k)) (es_context (ss ! k)) = Some c \<and>
      content d (es_id (ss ! k)) = Some (butlast c) \<and> input_token picks previous (snd (rest ! k)) = last c"
    using Cons.IH [OF rows(3)] Cons.prems(2) by auto
  have here: "decodes dc tn G content picks d (case previous of None \<Rightarrow> [] | Some step \<Rightarrow> [step]) s (es_context s)"
    using Cons.prems(2) by simp
  then obtain c where c: "rides dc G picks (case previous of None \<Rightarrow> [] | Some step \<Rightarrow> [step]) (es_id s) (es_context s) = Some c"
      "content d (es_id s) = Some (butlast c)" and ctx: "es_context s \<noteq> []" unfolding decodes_def by blast
  have "c \<noteq> []" by (rule rides_nonempty [OF c(1) ctx])
  moreover have "fst row = es_id s \<and> input_token picks previous (snd row) = last c"
    using rows(2) c(1) ctx
    by (auto simp: step_row_def next_input_def split: option.splits if_splits)
  ultimately have "\<exists>c. fst (rows ! k) = es_id ((s # ss) ! k) \<and> c \<noteq> [] \<and>
      rides dc G picks (case previous of None \<Rightarrow> [] | Some step \<Rightarrow> [step]) (es_id ((s # ss) ! k)) (es_context ((s # ss) ! k)) = Some c \<and>
      content d (es_id ((s # ss) ! k)) = Some (butlast c) \<and> input_token picks previous (snd (rows ! k)) = last c"
    if "k < length (s # ss)" for k
    using c IH(2) rows(1) that by (cases k) auto
  then show ?case using IH(1) rows(1) by auto
qed simp

lemma now_row_list:
  "opt_map (\<lambda>s. map_option (Pair (es_id s)) (next_input s)) ss = Some rows \<Longrightarrow>
   rows = map (\<lambda>s. (es_id s, last (es_context s))) ss"
  by (induction ss arbitrary: rows) (auto simp: next_input_def split: bind_splits if_splits)

text \<open>A failed step leaves its rows with nothing to rely on and the others alone.\<close>

lemma synced_lost:
  assumes "synced dc tn L G content picks (st, [], prev)" "ids_ok dc (st, [], prev)"
    and "\<And>j. j \<notin> es_id ` set (en_running st) \<Longrightarrow> content d j = content (en_decoder st) j"
    and "en_queued st' = q" "en_waiting st' = en_waiting st" "prefilling_list st' = prefilling_list st" "en_next_id st' = en_next_id st"
      "en_running st' = []" "en_decoder st' = d"
  shows "synced dc tn L G content picks (st', map (\<lambda>s. (s, Lost)) (en_running st), prev')"
proof -
  from ids_distinct(1) [OF assms(2)] have "es_id s \<notin> es_id ` set (en_running st)" if "s \<in> set (en_waiting st) \<or> s \<in> set (prefilling_list st)" for s
    using that by auto
  moreover have "i \<notin> es_id ` set (en_running st)" if "en_next_id st \<le> i" for i
    using ids_distinct(2) [OF assms(2)] that by force
  ultimately show ?thesis using assms(1,3-) by auto
qed

context gpu_turns
begin

lemma micro_picks:
  assumes "synced dc tn L G content picks c" "\<And>ctx. agrees (L ctx) (G ctx)"
  shows "picks_ok (serial_choice tn L) tn c"
proof -
  obtain st hand prev where c: "c = (st, hand, prev)" by (cases c)
  have "serial_choice tn L (es_turn s) (es_context s) a t"
    if mem: "(s, it) \<in> set hand" and pick: "picked tn (es_turn s) it = (Inr a, t)" for s it a t
  proof -
    have item: "item_synced dc tn L G content picks (en_decoder st) (unread c) s it" using assms(1) mem unfolding c by auto
    show ?thesis
    proof (cases it)
      case (Row logits)
      then show ?thesis using item pick by (simp add: serial_choice_def)
    next
      case (Gpu tok)
      then show ?thesis using item pick pick_agrees [OF _ assms(2)] by (simp add: serial_choice_def)
    qed (use pick in auto)
  qed
  then show ?thesis by (auto simp: c)
qed

lemma micro_synced:
  assumes "micro dc tn c c'" and faithful: "faithful dc L G content picks" and "\<And>ctx. agrees (L ctx) (G ctx)"
    and ids: "ids_ok dc c" and sync: "synced dc tn L G content picks c"
  shows "synced dc tn L G content picks c'"
  using assms(1)
proof cases
  case (m_world st hand prev a r n ms)
  show ?thesis unfolding m_world by (rule synced_frame [OF sync [unfolded m_world]]) simp_all
next
  case (m_drop st ws s ws' e)
  show ?thesis unfolding m_drop(2) by (rule synced_frame [OF sync [unfolded m_drop(1)]]) (auto simp: m_drop(3))
next
  case (m_admit st s ws)
  then show ?thesis using sync by (simp add: begun_def)
next
  case (m_resume st p)
  then show ?thesis using sync by (simp add: prefilling_list_Some)
next
  case (m_pause st s n c w)
  then show ?thesis using sync by simp
next
  case (m_release st s it hand e)
  show ?thesis
    unfolding m_release(2)
    by (rule synced_frame [OF synced_release [OF faithful ids [unfolded m_release(1)] sync [unfolded m_release(1)]]]) auto
next
  case (m_requeue st s st' it hand)
  have "synced dc tn L G content picks (release_sequence dc st s, hand, None)"
    by (rule synced_release [OF faithful ids [unfolded m_requeue(1)] sync [unfolded m_requeue(1)]])
  then show ?thesis
    using m_requeue(3) unfolding m_requeue(2) requeue_Some by auto
next
  case (m_keep st s hand)
  then show ?thesis using sync by auto
next
  case (m_rejoin s st logits cached w hand)
  have "es_id s \<notin> set (concat (map (dc_queued_rows dc) (unread c)))"
    by (rule young_unread [OF ids]) (simp add: m_rejoin(1) young_ids_Cons)
  moreover have "es_context s \<noteq> []" "prefill_ids s = butlast (es_context s)" using m_rejoin(3) by (auto simp: resumed_def prefill_ids_def)
  ultimately show ?thesis using sync by (auto simp: m_rejoin(1,2) decodes_apart)
next
  case (m_prefilled s st logits cached w hand ms)
  have "prefill_ids s = es_context s" using m_prefilled(3) by (simp add: prefill_ids_def)
  then show ?thesis using sync by (auto simp: m_prefilled(1,2))
next
  case (m_token s it a t st hand tms)
  have item: "item_synced dc tn L G content picks (en_decoder st) (unread c) s it" using sync by (simp add: m_token(1))
  have "decodes dc tn G content picks (en_decoder st) (unread c) (went_on s t a tms) (es_context s @ [ac_token a])"
  proof (cases it)
    case (Row logits)
    have "es_id s \<notin> set (concat (map (dc_queued_rows dc) (unread c)))"
      by (rule young_unread [OF ids]) (simp add: m_token(1) young_ids_Cons Row)
    then show ?thesis using item Row by (simp add: decodes_apart del: unread.simps)
  next
    case (Gpu tok)
    then have gpu: "tn_gpu_greedy tn (es_turn s)" "tn_accept_gpu tn (es_turn s) tok = (Inr a, t)" using item m_token(3) by simp_all
    have "ac_token a = tok" "tn_gpu_greedy tn t" by (rule accepts_token [OF gpu(2)], rule stays_greedy [OF gpu])
    then show ?thesis using item Gpu by (auto simp: decodes_def simp del: unread.simps)
  qed (use m_token(3) in auto)
  then show ?thesis using sync by (auto simp: m_token(1,2))
next
  case (m_stop s it a t reason ev tms st hand)
  let ?st = "said st s (Token a)"
  have "synced dc tn L G content picks (?st, (s, it) # hand, None)"
    by (rule synced_frame [OF sync [unfolded m_stop(1)]]) auto
  moreover have "ids_ok dc (?st, (s, it) # hand, None)"
    using ids_ok_less [OF ids, of "(?st, (s, it) # hand, None)"] by (simp add: m_stop(1) young_ids.simps)
  ultimately have "synced dc tn L G content picks (release_sequence dc ?st s, hand, None)" using synced_release [OF faithful] by blast
  then show ?thesis unfolding m_stop(2) by (rule synced_frame) auto
next
  case (m_take st prev)
  then show ?thesis using sync by auto
next
  case (m_take_last st running s)
  then show ?thesis using sync by auto
next
  case (m_unqueue st)
  then show ?thesis using sync by simp
next
  case (m_prefill st s budget res d it n c w)
  have ids': "ids_ok dc (st, (s, Part n c w) # [], None)" using ids by (simp only: m_prefill(1))
  note apart = ids_apart [OF ids']
  have begun: "begun (content (en_decoder st) (es_id s)) (prefill_ids s)" using sync by (simp add: m_prefill(1))
  have "faithful_prefill dc L content" using faithful by (simp add: faithful_def)
  note law = this [unfolded faithful_prefill_def, rule_format, OF m_prefill(3) begun]
  have same: "content d j = content (en_decoder st) j" if "j \<noteq> es_id s" for j using law that by blast
  have "synced dc tn L G content picks (st\<lparr>en_decoder := d\<rparr>, [], None)"
  proof (rule synced_frame [OF sync [unfolded m_prefill(1)]])
    fix i
    assume "i \<in> es_id ` set (actives (st\<lparr>en_decoder := d\<rparr>, [], None)) \<or> en_next_id (st\<lparr>en_decoder := d\<rparr>) \<le> i"
    then have "i \<noteq> es_id s" using apart by auto
    then show "content (en_decoder (st\<lparr>en_decoder := d\<rparr>)) i = content (en_decoder st) i" using same by simp
  qed auto
  moreover have "item_synced dc tn L G content picks d (unread (st, [], None)) s it"
    using law m_prefill(4) by (cases res) (auto split: option.splits)
  ultimately show ?thesis by (simp add: m_prefill(2))
next
  case (m_retire st rs i w rs' hand)
  have "distinct (map es_id (actives c) @ map fst (en_retired st))" "\<forall>j\<in>set (owner_ids c). j < en_next_id st"
    using ids unfolding m_retire(1) ids_ok_def fst_conv owner_ids.simps by blast+
  moreover have "i \<in> set (map fst (en_retired st))" by (simp add: m_retire(3))
  ultimately have "i \<notin> set (map es_id (actives c))" "i < en_next_id st"
    unfolding m_retire(1) owner_ids.simps distinct_append set_append by blast+
  then show ?thesis
    unfolding m_retire(2)
    by (intro synced_frame [OF sync [unfolded m_retire(1)]]) (auto simp: m_retire(1) faithful_free [OF faithful])
next
  case (m_queue st rows res d)
  let ?old = "case en_queued st of None \<Rightarrow> [] | Some step \<Rightarrow> [step]"
  have running: "decodes dc tn G content picks (en_decoder st) ?old s (es_context s)" if "s \<in> set (en_running st)" for s
    using sync that by (simp add: m_queue(1))
  note rows = step_rows [OF m_queue(3) running]
  have fst: "map fst rows = map es_id (en_running st)" by (rule opt_map_step_row_ids [OF m_queue(3)])
  have "distinct (map es_id (actives c))" by (rule ids_distinct(1) [OF ids])
  then have d: "distinct (map es_id (en_running st))" by (simp add: m_queue(1))
  have held: "\<forall>(i, inp)\<in>set rows. content (en_decoder st) i \<noteq> None"
  proof
    fix row
    assume "row \<in> set rows"
    then obtain k where "k < length rows" "rows ! k = row" by (auto simp: in_set_conv_nth)
    then show "case row of (i, inp) \<Rightarrow> content (en_decoder st) i \<noteq> None" using rows by fastforce
  qed
  have "faithful_queue dc G content picks" using faithful by (simp add: faithful_def)
  note law = this [unfolded faithful_queue_def, rule_format, OF m_queue(6) d [folded fst] held [rule_format]]
  have same: "content d j = content (en_decoder st) j" if "j \<notin> es_id ` set (en_running st)" for j
    using law that arg_cong [OF fst, of set] by simp
  show ?thesis
  proof (cases res)
    case (Inl e)
    show ?thesis
    proof (cases e)
      case Out_of_blocks
      then have same: "content d = content (en_decoder st)" using law Inl by blast
      have c': "c' = (st\<lparr>en_decoder := d, en_queued := None\<rparr>, [], en_queued st)" by (simp add: m_queue(2) Inl Out_of_blocks)
      show ?thesis unfolding c' by (rule synced_frame [OF sync [unfolded m_queue(1)]]) (auto simp: same)
    next
      case (Decode_failed m)
      then have c': "c' = (st\<lparr>en_decoder := d, en_queued := None, en_running := []\<rparr>, map (\<lambda>s. (s, Lost)) (en_running st), en_queued st)"
        by (simp add: m_queue(2) Inl)
      show ?thesis
        unfolding c' by (rule synced_lost [OF sync [unfolded m_queue(1)] ids [unfolded m_queue(1)] same]) simp_all
    qed
  next
    case (Inr step)
    have step: "dc_queued_rows dc step = map es_id (en_running st)"
      using names_rowsD [OF _ m_queue(6) [unfolded Inr]] fst faithful by (simp add: faithful_def)
    have "decodes dc tn G content picks d (?old @ [step]) s (es_context s)" if mem: "s \<in> set (en_running st)" for s
    proof -
      obtain k where k: "k < length (en_running st)" "en_running st ! k = s" using mem by (auto simp: in_set_conv_nth)
      obtain c where c: "fst (rows ! k) = es_id s" "c \<noteq> []" "rides dc G picks ?old (es_id s) (es_context s) = Some c"
          "content (en_decoder st) (es_id s) = Some (butlast c)" "input_token picks (en_queued st) (snd (rows ! k)) = last c"
        using rows k by auto
      have row: "k < length rows" "rows ! k \<in> set rows" using rows k(1) by auto
      have picks: "picks step = map (\<lambda>(i, inp). G (the (content (en_decoder st) i) @ [input_token picks (en_queued st) inp])) rows"
        and after: "\<forall>(i, inp)\<in>set rows. content d i = Some (the (content (en_decoder st) i) @ [input_token picks (en_queued st) inp])"
        using law Inr by blast+
      have "picks step ! k = G c" "k < length (picks step)"
        using row(1) c by (simp_all add: picks split_beta)
      moreover have "content d (es_id s) = Some c" using after row(2) c by (auto simp: split_beta)
      moreover have "position (es_id s) (dc_queued_rows dc step) = Some k"
        using position_nth [OF d, of k] k by (simp add: step)
      ultimately have "rides dc G picks (?old @ [step]) (es_id s) (es_context s) = Some (c @ [G c])"
        using c(3) by (simp add: rides_append)
      moreover have "tn_gpu_greedy tn (es_turn s)" using m_queue(5) mem by (auto simp: list_all_iff)
      moreover have "es_context s \<noteq> []" using running [OF mem] by (simp add: decodes_def)
      ultimately show ?thesis using \<open>content d (es_id s) = Some c\<close> by (simp add: decodes_def)
    qed
    moreover have "synced dc tn L G content picks (st\<lparr>en_decoder := d, en_running := []\<rparr>, map (\<lambda>s. (s, Lost)) (en_running st), None)"
      by (rule synced_lost [OF sync [unfolded m_queue(1)] ids [unfolded m_queue(1)] same]) simp_all
    ultimately show ?thesis by (auto simp: m_queue(2) Inr)
  qed
next
  case (m_finish st step res d hand)
  let ?rows = "dc_queued_rows dc step"
  let ?rest = "case en_queued st of None \<Rightarrow> [] | Some step \<Rightarrow> [step]"
  have "faithful_finish dc content picks" using faithful by (simp add: faithful_def)
  note law = this [unfolded faithful_finish_def, rule_format, OF m_finish(3)]
  have same: "content d j = content (en_decoder st) j" if "j \<notin> set ?rows" for j using law that by blast
  have "step \<in> set (unread c)" by (simp add: m_finish(1))
  then have rows: "\<And>i. i \<in> set ?rows \<Longrightarrow> i < en_next_id st \<and> i \<notin> young_ids c"
    using ids unfolding ids_ok_def m_finish(1) fst_conv by blast
  have item: "item_synced dc tn L G content picks d ?rest s' it'"
    if mem: "(s, it) \<in> set hand" and told: "(s', it') = read_back ?rows res (s, it)" for s it s' it'
  proof -
    have old: "item_synced dc tn L G content picks (en_decoder st) (step # ?rest) s it" using sync mem by (auto simp: m_finish(1))
    consider "it = Lost" | "it = Keep" using m_finish(5) mem by fastforce
    then show ?thesis
    proof cases
      case 1
      then show ?thesis using told by (simp add: read_back_def)
    next
      case 2
      then have old: "decodes dc tn G content picks (en_decoder st) (step # ?rest) s (es_context s)" using old by simp
      show ?thesis
      proof (cases "position (es_id s) ?rows")
        case None
        then have s': "s' = s" "it' = Keep" using told 2 by (simp_all add: read_back_def)
        have "es_id s \<notin> set ?rows" using None by (simp add: position_None)
        then show ?thesis using old None same by (auto simp: s' decodes_def)
      next
        case (Some j)
        show ?thesis
        proof (cases res)
          case (Inl e)
          then show ?thesis using told 2 Some by (simp add: read_back_def)
        next
          case (Inr tokens)
          then have tokens: "tokens = picks step" "content d = content (en_decoder st)" using law by blast+
          have j: "j < length (picks step)" "picks step ! j = G (es_context s)"
            using old Some by (auto simp: decodes_def split: if_splits)
          have "es_id s \<in> set ?rows" using position_None [of "es_id s" ?rows] Some by simp
          then have riding: "tn_gpu_greedy tn (es_turn s)" using old by (simp add: decodes_def)
          have "s' = s" "it' = Gpu (G (es_context s))" using told 2 Some Inr tokens j by (simp_all add: read_back_def)
          then show ?thesis using old Some j riding tokens by (auto simp: decodes_def)
        qed
      qed
    qed
  qed
  have "\<forall>x\<in>set hand. case read_back ?rows res x of (s', it') \<Rightarrow> item_synced dc tn L G content picks d ?rest s' it'"
    using item by (auto split: prod.splits)
  moreover have "content d (es_id s) = content (en_decoder st) (es_id s)" if "s \<in> set (en_waiting st) \<or> s \<in> set (prefilling_list st)" for s
  proof (rule same)
    have "es_id s \<in> young_ids c" using that by (auto simp: m_finish(1) young_ids.simps)
    then show "es_id s \<notin> set ?rows" using rows by blast
  qed
  moreover have "content d i = content (en_decoder st) i" if "en_next_id st \<le> i" for i
    by (rule same) (use rows that in force)
  ultimately show ?thesis using sync m_finish(4) by (auto simp: m_finish(1,2))
next
  case (m_decode st rows res d)
  have running: "es_context s \<noteq> [] \<and> content (en_decoder st) (es_id s) = Some (butlast (es_context s))" if "s \<in> set (en_running st)" for s
    using sync that m_decode(4) by (auto simp: m_decode(1) decodes_def)
  note rows = now_row_list [OF m_decode(3)]
  have "distinct (map es_id (actives c))" by (rule ids_distinct(1) [OF ids])
  then have d: "distinct (map fst rows)" by (simp add: rows comp_def m_decode(1))
  have held: "\<forall>(i, t)\<in>set rows. content (en_decoder st) i \<noteq> None" using running by (auto simp: rows)
  have "faithful_decode dc L content" using faithful by (simp add: faithful_def)
  note law = this [unfolded faithful_decode_def, rule_format, OF m_decode(6) d held [rule_format]]
  have same: "content d j = content (en_decoder st) j" if "j \<notin> es_id ` set (en_running st)" for j
    using law that by (simp add: rows image_image)
  show ?thesis
  proof (cases res)
    case (Inl e)
    show ?thesis
    proof (cases e)
      case Out_of_blocks
      then have same: "content d = content (en_decoder st)" using law Inl by blast
      have c': "c' = (st\<lparr>en_decoder := d\<rparr>, [], None)" by (simp add: m_decode(2) Inl Out_of_blocks)
      show ?thesis unfolding c' by (rule synced_frame [OF sync [unfolded m_decode(1)]]) (auto simp: same)
    next
      case (Decode_failed m)
      then have c': "c' = (st\<lparr>en_decoder := d, en_running := []\<rparr>, map (\<lambda>s. (s, Lost)) (en_running st), None)"
        by (simp add: m_decode(2) Inl)
      show ?thesis
        unfolding c' by (rule synced_lost [OF sync [unfolded m_decode(1)] ids [unfolded m_decode(1)] same]) simp_all
    qed
  next
    case (Inr decoded)
    have logits: "decoded = Logit_rows (map (\<lambda>s. L (es_context s)) (en_running st))"
      using law Inr running by (auto simp: rows)
    have hand: "hand_over decoded (en_running st) = map (\<lambda>s. (s, Row (L (es_context s)))) (en_running st)"
      by (simp add: hand_over_def logits zip_map2 zip_same_conv_map)
    have now: "content d (es_id s) = Some (es_context s)" if "s \<in> set (en_running st)" for s
      using law Inr running [OF that] that by (fastforce simp: rows)
    have "synced dc tn L G content picks (st\<lparr>en_decoder := d, en_running := []\<rparr>, map (\<lambda>s. (s, Lost)) (en_running st), None)"
      by (rule synced_lost [OF sync [unfolded m_decode(1)] ids [unfolded m_decode(1)] same]) simp_all
    then show ?thesis using now by (auto simp: m_decode(2) Inr hand)
  qed
qed

lemma micros_serial:
  assumes "micros dc tn c c'" "faithful dc L G content picks" "\<And>ctx. agrees (L ctx) (G ctx)"
    and "ids_ok dc c" "synced dc tn L G content picks c" "logs_ok (serial_choice tn L) tn subs c"
  shows "ids_ok dc c' \<and> synced dc tn L G content picks c' \<and> logs_ok (serial_choice tn L) tn subs c'"
  using assms(1)
proof (induction rule: rtranclp_induct)
  case base
  then show ?case using assms(4-6) by blast
next
  case (step y z)
  then have ok: "ids_ok dc y" "synced dc tn L G content picks y" "logs_ok (serial_choice tn L) tn subs y" by blast+
  have "names_rows dc" using assms(2) by (simp add: faithful_def)
  then show ?case
    using micro_ids [OF step.hyps(2) _ ok(1)] micro_synced [OF step.hyps(2) assms(2,3) ok(1,2)]
      micro_logs [OF step.hyps(2) ok(3) micro_picks [OF ok(2) assms(3)]] by blast
qed

lemma reach_serial:
  assumes "engine_reach dc tn fl st0 subs st" "faithful dc L G content picks" "\<And>ctx. agrees (L ctx) (G ctx)"
    and "ids_ok dc (st0, [], None)" "synced dc tn L G content picks (st0, [], None)"
    and "logs_ok (serial_choice tn L) tn [] (st0, [], None)"
  shows "ids_ok dc (st, [], None) \<and> synced dc tn L G content picks (st, [], None) \<and>
    logs_ok (serial_choice tn L) tn subs (st, [], None)"
  using assms(1)
proof induction
  case run_start
  then show ?case using assms(4-6) by blast
next
  case (run_accept subs st sb st')
  have "synced dc tn L G content picks (st', [], None)"
    using run_accept by (auto simp: engine_accept_Some)
  then show ?case using run_accept accept_ids accept_logs by blast
next
  case (run_step subs st st')
  then show ?case using micros_serial [OF micros_engine_step [OF run_step.hyps(2)] assms(2,3)] by blast
qed

end

section \<open>Serial decoding\<close>

text \<open>What the writer of a turn that runs alone hears after its prompt, for at most \<open>n\<close> tokens. Times are left out.\<close>

fun serial_events :: "('t, 'l, 'o) turn_ops \<Rightarrow> (token list \<Rightarrow> 'l) \<Rightarrow> nat \<Rightarrow> 't \<Rightarrow> token list \<Rightarrow> ('o, 'm) event list" where
  "serial_events tn L 0 t ctx = []"
| "serial_events tn L (Suc n) t ctx =
     (case tn_pick tn t (L ctx) of
        (Inl error, t) \<Rightarrow> [Failed (Message error)]
      | (Inr a, t) \<Rightarrow>
          Token a # (case ac_step a of
                       Continue \<Rightarrow> serial_events tn L n t (ctx @ [ac_token a])
                     | Stop reason \<Rightarrow> [end_event tn t reason []]))"

definition untimed :: "('o, 'm) event \<Rightarrow> ('o, 'm) event" where
  "untimed ev = (case ev of Done output reason tms \<Rightarrow> Done output reason [] | _ \<Rightarrow> ev)"

text \<open>
  The events of a turn in the batch, compared with its serial run: none, or the announcement of the prompt
  and a beginning of the serial events, which a failure from outside may cut short.
\<close>

definition as_serial :: "('t, 'l, 'o) turn_ops \<Rightarrow> (token list \<Rightarrow> 'l) \<Rightarrow> 't submission \<Rightarrow> ('o, 'm) event list \<Rightarrow> bool" where
  "as_serial tn L sb evs \<longleftrightarrow>
     evs = [] \<or> (\<exists>e. evs = [Failed e]) \<or>
     (\<exists>c w ms rest n k. evs = Prefilled c w ms # rest \<and>
        (map untimed rest = take k (serial_events tn L n (sb_turn sb) (sb_input_ids sb)) \<or>
         (\<exists>e. map untimed rest = take k (serial_events tn L n (sb_turn sb) (sb_input_ids sb)) @ [Failed e])))"

lemma serial_step:
  "tn_pick tn t (L ctx) = (Inr a, t') \<Longrightarrow>
   serial_events tn L (Suc n) t ctx =
     Token a # (case ac_step a of
                  Continue \<Rightarrow> serial_events tn L n t' (ctx @ [ac_token a])
                | Stop reason \<Rightarrow> [end_event tn t' reason []])"
  by simp

declare serial_events.simps(2) [simp del]

lemma course_serial:
  "course (serial_choice tn L) ids t0 as t \<Longrightarrow>
   serial_events tn L (length as + n) t0 ids = map Token as @ serial_events tn L n t (ids @ map ac_token as)"
proof (induction arbitrary: n rule: course.induct)
  case (course_step as t a t')
  have "length (as @ [a]) + n = length as + Suc n" by simp
  moreover note course_step.IH [of "Suc n"]
  ultimately show ?case using course_step.hyps(2,3) by (simp add: serial_step serial_choice_def)
qed simp

lemma finished_as_serial:
  assumes "finished (serial_choice tn L) tn sb evs"
  shows "as_serial tn L sb evs"
proof -
  obtain as t pre where c: "course (serial_choice tn L) (sb_input_ids sb) (sb_turn sb) as t" and pre: "spoken as pre"
    and run: "evs = pre \<or> (\<exists>e. evs = pre @ [Failed e]) \<or>
         pre \<noteq> [] \<and> (\<exists>a t' reason tms. serial_choice tn L t (sb_input_ids sb @ map ac_token as) a t' \<and> ac_step a = Stop reason \<and>
           (evs = pre @ [Token a] \<or> evs = pre @ [Token a, end_event tn t' reason tms]))"
    using assms unfolding finished_def by blast
  show ?thesis
  proof (cases "pre = []")
    case True
    then show ?thesis using run by (auto simp: as_serial_def)
  next
    case False
    then obtain cached w ms where pre: "pre = Prefilled cached w ms # map Token as" using pre by (auto simp: spoken_def)
    have tokens: "map untimed (map Token as) = map Token as" by (simp add: untimed_def)
    have begins: "take (length as) (serial_events tn L (length as + n) (sb_turn sb) (sb_input_ids sb)) = map Token as" for n
      by (simp add: course_serial [OF c])
    consider "evs = pre" | e where "evs = pre @ [Failed e]"
      | a t' reason tms where "serial_choice tn L t (sb_input_ids sb @ map ac_token as) a t'" "ac_step a = Stop reason"
          "evs = pre @ [Token a] \<or> evs = pre @ [Token a, end_event tn t' reason tms]"
      using run by blast
    then show ?thesis
    proof cases
      case 1
      have "map untimed (map Token as) = take (length as) (serial_events tn L (length as + 0) (sb_turn sb) (sb_input_ids sb))"
        unfolding tokens begins ..
      then show ?thesis unfolding as_serial_def 1 pre by blast
    next
      case (2 e)
      have "map untimed (map Token as @ [Failed e]) =
          take (length as) (serial_events tn L (length as + 0) (sb_turn sb) (sb_input_ids sb)) @ [Failed e]"
        unfolding map_append tokens begins by (simp add: untimed_def)
      then show ?thesis unfolding as_serial_def 2 pre append_Cons by blast
    next
      case (3 a t' reason tms)
      have all: "serial_events tn L (length as + 1) (sb_turn sb) (sb_input_ids sb) =
          map Token as @ [Token a, end_event tn t' reason []]"
        unfolding course_serial [OF c] using 3(1,2) by (simp add: serial_step serial_choice_def)
      have timed: "untimed (Token a) = Token a" "untimed (end_event tn t' reason tms) = end_event tn t' reason []"
        by (simp_all add: untimed_def end_event_def split: sum.splits)
      have "map untimed (map Token as @ [Token a]) =
          take (Suc (length as)) (serial_events tn L (length as + 1) (sb_turn sb) (sb_input_ids sb))"
        "map untimed (map Token as @ [Token a, end_event tn t' reason tms]) =
          take (length as + 2) (serial_events tn L (length as + 1) (sb_turn sb) (sb_input_ids sb))"
        unfolding all map_append tokens by (simp_all add: timed)
      then show ?thesis using 3(3) unfolding as_serial_def pre append_Cons by blast
    qed
  qed
qed

section \<open>The turn loop of the code\<close>

lemma accept_gpu_token:
  assumes "accept_gpu_greedy te t tok = (Inr a, t')"
  shows "ac_token a = tok"
proof -
  have "tp_constraint (tl_picker t) = None \<and> tp_policy (tl_picker t) = None"
    using assms by (auto simp: accept_gpu_greedy_def pick_from_candidates_def ok_or_def split: option.splits prod.splits)
  then have "turn_accept te t tok False None = (Inr a, t')"
    using assms by (simp add: accept_gpu_greedy_def pick_from_candidates_def)
  then show ?thesis using turn_accept_token by blast
qed

text \<open>The device's pick is the greedy token of the row, where the row has one.\<close>

interpretation chat_turns: gpu_turns "turn_loop_ops te" "\<lambda>logits tok. greedy_token (te_f32 te) logits = Inr tok"
proof
  show "tn_gpu_greedy (turn_loop_ops te) t \<Longrightarrow> greedy_token (te_f32 te) l = Inr tok \<Longrightarrow>
      tn_pick (turn_loop_ops te) t l = tn_accept_gpu (turn_loop_ops te) t tok" for t l tok
    by (simp add: turn_loop_ops_def greedy_picks_agree)
  show "tn_accept_gpu (turn_loop_ops te) t tok = (Inr a, t') \<Longrightarrow> ac_token a = tok" for t tok a t'
    by (simp add: turn_loop_ops_def accept_gpu_token)
  show "tn_gpu_greedy (turn_loop_ops te) t \<Longrightarrow> tn_accept_gpu (turn_loop_ops te) t tok = (Inr a, t') \<Longrightarrow>
      tn_gpu_greedy (turn_loop_ops te) t'" for t tok a t'
    by (simp add: turn_loop_ops_def greedy_stays)
qed

end
