(* ===== verification/EngineDemo.thy ===== *)
theory EngineDemo
  imports EngineTrace EngineSerial
begin

text \<open>
  A small decoder and turn for the concrete instances: the decoder keeps the tokens of every
  sequence, its logits single out the length of the context modulo three, and a queued step carries
  its picks. It keeps every promise of \<open>faithful\<close>.
\<close>

definition demo_logits :: "token list \<Rightarrow> nat list" where
  "demo_logits ctx = map (\<lambda>i. if i = length ctx mod 3 then 1 else 0) [0..<3]"

definition demo_pick :: "token list \<Rightarrow> token" where
  "demo_pick ctx = word_of_nat (length ctx mod 3)"

type_synonym demo_state = "(nat \<times> token list) list"

definition held :: "demo_state \<Rightarrow> nat \<Rightarrow> token list" where
  "held d i = (case map_of d i of None \<Rightarrow> [] | Some ids \<Rightarrow> ids)"

definition demo_free :: "demo_state \<Rightarrow> nat \<Rightarrow> demo_state" where
  "demo_free d i = filter (\<lambda>(j, ids). j \<noteq> i) d"

definition demo_append :: "demo_state \<Rightarrow> (nat \<times> token) list \<Rightarrow> demo_state" where
  "demo_append d rows = map (\<lambda>(i, t). (i, held d i @ [t])) rows @ d"

definition demo_decoder :: "(demo_state, (nat \<times> token) list, nat list, nat) text_decoder" where
  "demo_decoder =
     \<lparr>dc_prefill_cost = (\<lambda>d ids keys. Inr 1), dc_free_blocks = (\<lambda>d. 8),
      dc_prefill_chunk = (\<lambda>d i ids keys budget.
        if map_of d i \<noteq> None \<or> length ids > 64 then (Inl (Decode_failed ''no such prompt''), d)
        else (Inr \<lparr>pk_computed = length ids, pk_cached_tokens = 0, pk_cache_write_tokens = 0, pk_logits = Some (demo_logits ids)\<rparr>,
              (i, ids) # d)),
      dc_prefill_ms = (\<lambda>d start count. count), dc_block_tokens = (\<lambda>d. 4),
      dc_decode = (\<lambda>d rows rb. (Inr (Logit_rows (map (\<lambda>(i, t). demo_logits (held d i @ [t])) rows)), demo_append d rows)),
      dc_free = demo_free,
      dc_queue = (\<lambda>d rows previous.
        let told = map (\<lambda>(i, inp). (i, input_token (map snd) previous inp)) rows
        in (Inr (map (\<lambda>(i, t). (i, demo_pick (held d i @ [t]))) told), demo_append d told)),
      dc_finish = (\<lambda>d step. (Inr (map snd step), d)),
      dc_queued_rows = map fst, dc_pipelines = (\<lambda>d. True)\<rparr>"

lemma map_of_append_rows:
  "map_of (map (\<lambda>(i, t). (i, f i @ [t])) rows @ d) i = (case map_of rows i of None \<Rightarrow> map_of d i | Some t \<Rightarrow> Some (f i @ [t]))"
  by (induction rows) auto

lemma demo_append_in:
  "distinct (map fst rows) \<Longrightarrow> (i, t) \<in> set rows \<Longrightarrow> map_of (demo_append d rows) i = Some (held d i @ [t])"
  by (simp only: demo_append_def map_of_append_rows) simp

lemma demo_append_out: "j \<notin> fst ` set rows \<Longrightarrow> map_of (demo_append d rows) j = map_of d j"
  by (simp only: demo_append_def map_of_append_rows) (simp add: map_of_eq_None_iff [THEN iffD2])

lemma demo_free_map: "map_of (demo_free d i) = (map_of d)(i := None)"
  by (induction d) (auto simp: demo_free_def fun_eq_iff)

lemma held_some: "map_of d i \<noteq> None \<Longrightarrow> held d i = the (map_of d i)"
  by (auto simp: held_def)

lemma demo_names_rows: "names_rows demo_decoder"
  by (auto simp: names_rows_def demo_decoder_def Let_def split_beta)

lemma demo_faithful: "faithful demo_decoder demo_logits demo_pick map_of (map snd)"
proof -
  have "faithful_prefill demo_decoder demo_logits map_of"
    by (auto simp: faithful_prefill_def demo_decoder_def)
  moreover have "faithful_decode demo_decoder demo_logits map_of"
    unfolding faithful_decode_def demo_decoder_def
    by (fastforce simp: demo_append_out demo_append_in held_some)
  moreover have "faithful_queue demo_decoder demo_pick map_of (map snd)"
    unfolding faithful_queue_def
  proof (intro allI impI)
    fix d rows previous res d'
    assume q: "dc_queue demo_decoder d rows previous = (res, d')" and dist: "distinct (map fst rows)"
      and known: "\<forall>(i, inp)\<in>set rows. map_of d i \<noteq> None"
    let ?told = "map (\<lambda>(i, inp). (i, input_token (map snd) previous inp)) rows"
    have res: "res = Inr (map (\<lambda>(i, t). (i, demo_pick (held d i @ [t]))) ?told)" and d': "d' = demo_append d ?told"
      using q by (auto simp: demo_decoder_def Let_def)
    have fst: "map fst ?told = map fst rows" by (simp add: split_beta)
    have content: "held d i = the (map_of d i)" if "(i, inp) \<in> set rows" for i inp
      using known that by (intro held_some) blast
    have "map_of d' i = Some (the (map_of d i) @ [input_token (map snd) previous inp])" if row: "(i, inp) \<in> set rows" for i inp
      unfolding d' content [OF row, symmetric]
    proof (rule demo_append_in)
      show "distinct (map fst ?told)" unfolding fst by (rule dist)
      show "(i, input_token (map snd) previous inp) \<in> set ?told" using row by force
    qed
    moreover have "map_of d' j = map_of d j" if "j \<notin> fst ` set rows" for j
      unfolding d' by (rule demo_append_out) (use that in force)
    ultimately show "(\<forall>j. j \<notin> fst ` set rows \<longrightarrow> map_of d' j = map_of d j) \<and> (res = Inl Out_of_blocks \<longrightarrow> map_of d' = map_of d) \<and>
        (\<forall>step. res = Inr step \<longrightarrow>
           map snd step = map (\<lambda>(i, inp). demo_pick (the (map_of d i) @ [input_token (map snd) previous inp])) rows \<and>
           (\<forall>(i, inp)\<in>set rows. map_of d' i = Some (the (map_of d i) @ [input_token (map snd) previous inp])))"
      by (auto simp: res content)
  qed
  moreover have "faithful_finish demo_decoder map_of (map snd)"
    by (auto simp: faithful_finish_def demo_decoder_def)
  moreover have "\<forall>d i. map_of (dc_free demo_decoder d i) = (map_of d)(i := None)"
    by (simp add: demo_decoder_def demo_free_map)
  ultimately show ?thesis using demo_names_rows by (simp add: faithful_def)
qed

section \<open>Its turns\<close>

definition demo_f32 :: "nat f32_ops" where
  "demo_f32 = \<lparr>f32_finite = (\<lambda>x. True), f32_gt = (\<lambda>x y. y < x), f32_min = 0\<rparr>"

definition demo_f64 :: "nat f64_ops" where
  "demo_f64 = \<lparr>f64_of_nat = (\<lambda>n. 4 * n), f64_half = 2, f64_quarter = 1, f64_add = (+), f64_sub = (-),
     f64_mul = (\<lambda>x y. x * y div 4), f64_max = max, f64_gt = (\<lambda>x y. y < x), f64_le = (\<le>)\<rparr>"

definition demo_sampler :: "(unit, unit, nat, nat, unit, unit, unit) sampler_ops" where
  "demo_sampler =
     \<lparr>so_nucleus = (\<lambda>s row p k. (Inr 0, s)), so_race_ahead = (\<lambda>s n. None), so_uniform_ahead = (\<lambda>s n. None),
      so_settle_top_k = (\<lambda>s k p n. (Inr None, s)), so_sample_top_k = (\<lambda>s k p n. (Inr None, s)),
      so_accept_certified = (\<lambda>s t. (Inr None, s)), so_settle_constrained = (\<lambda>s c l. (Inr None, s, c)),
      so_constrained = (\<lambda>s c row. (Inr 0, s, c)), co_sample = (\<lambda>c row. (Inr 0, c)), co_complete = (\<lambda>c. False),
      co_checks_whole = (\<lambda>c. False), co_validate = (\<lambda>c. Inr ())\<rparr>"

definition demo_te :: "(unit, unit, nat, nat, unit, unit, unit, unit) turn_env" where
  "demo_te =
     \<lparr>te_f32 = demo_f32, te_f64 = demo_f64, te_sampler = demo_sampler,
      te_format = \<lparr>cf_stops = \<lparr>st_end_turn = \<lparr>ne_first = 9, ne_rest = []\<rparr>, st_tool_end = []\<rparr>, cf_suppress = []\<rparr>,
      te_token_logprob = (\<lambda>row t n. Inr ()), te_candidate_logprob = (\<lambda>k t n. Inr None)\<rparr>"

definition demo_turn :: "nat \<Rightarrow> (unit, unit, nat, unit) turn_loop" where
  "demo_turn max_tokens =
     turn_loop_new
       \<lparr>tp_policy = None, tp_constraint = None,
        tp_applied = \<lparr>as_temperature = 0, as_top_p = 4, as_top_k = None, as_seed = None, as_sampler = None,
                      as_defaults_applied = []\<rparr>\<rparr>
       None False 3 max_tokens"

definition demo_submission :: "token list \<Rightarrow> nat \<Rightarrow> (unit, unit, nat, unit) turn_loop submission" where
  "demo_submission ids max_tokens = \<lparr>sb_input_ids = ids, sb_turn = demo_turn max_tokens, sb_keys = new_keys\<rparr>"

section \<open>A run\<close>

type_synonym demo_engine =
  "(demo_state, (nat \<times> token) list, (unit, unit, nat, unit) turn_loop, nat, (nat, unit) turn_output) engine"

text \<open>
  The clients stay: no flag is set, no deadline passes and every event is received. Two turns
  are prefilled, decode together in queued steps and end at their limit of three tokens.
\<close>

definition demo_start :: demo_engine where
  "demo_start =
     engine_new [] \<lparr>el_max_num_seqs = 2, el_prefill_chunk_tokens = 16, el_prefill_target_ms = 10, el_pool_bytes = None\<rparr>
       0 (\<lambda>n. n \<in> {4, 5, 6, 7, 16, 17, 22, 23, 24, 25}) (\<lambda>n. n)"

abbreviation demo_ops :: "((unit, unit, nat, unit) turn_loop, nat list, (nat, unit) turn_output) turn_ops" where
  "demo_ops \<equiv> turn_loop_ops demo_te"

definition demo_accepted :: "demo_engine option" where
  "demo_accepted =
     Option.bind (engine_accept demo_start (demo_submission [5, 6, 7, 8] 3)) (\<lambda>st. engine_accept st (demo_submission [7, 8] 3))"

lemma demo_decoder_fields [simp]:
  "dc_prefill_cost demo_decoder d ids keys = Inr 1" "dc_free_blocks demo_decoder d = 8"
  "map_of d i = None \<Longrightarrow> length ids \<le> 64 \<Longrightarrow> dc_prefill_chunk demo_decoder d i ids keys budget =
     (Inr \<lparr>pk_computed = length ids, pk_cached_tokens = 0, pk_cache_write_tokens = 0, pk_logits = Some (demo_logits ids)\<rparr>, (i, ids) # d)"
  "dc_prefill_ms demo_decoder d first n = n" "dc_block_tokens demo_decoder d = 4"
  "dc_free demo_decoder = demo_free" "dc_finish demo_decoder d step = (Inr (map snd step), d)"
  "dc_queued_rows demo_decoder = map fst" "dc_pipelines demo_decoder d"
  "dc_queue demo_decoder d rows previous =
     (Inr (map (\<lambda>(i, inp). (i, demo_pick (held d i @ [input_token (map snd) previous inp]))) rows),
      demo_append d (map (\<lambda>(i, inp). (i, input_token (map snd) previous inp)) rows))"
  by (simp_all add: demo_decoder_def Let_def split_beta)

lemma demo_greedy: "greedy_token (te_f32 demo_te) (demo_logits ctx) = Inr (demo_pick ctx)"
proof -
  consider "length ctx mod 3 = 0" | "length ctx mod 3 = 1" | "length ctx mod 3 = 2" by linarith
  then show ?thesis
    by cases (simp_all add: demo_logits_def demo_pick_def demo_te_def demo_f32_def greedy_token_def upt_rec)
qed

lemma demo_ops_fields [simp]:
  "tn_pick demo_ops = turn_pick demo_te" "tn_accept_gpu demo_ops = accept_gpu_greedy demo_te"
  "tn_gpu_greedy demo_ops = verifies_with_gpu_greedy demo_te" "tn_finish demo_ops = turn_finish demo_te"
  by (simp_all add: turn_loop_ops_def)

lemma demo_pick_row:
  assumes "verifies_with_gpu_greedy demo_te t"
  shows "turn_pick demo_te t (demo_logits ctx) = turn_accept demo_te t (demo_pick ctx) False None"
    "accept_gpu_greedy demo_te t tok = turn_accept demo_te t tok False None"
  using greedy_picks_agree [OF assms demo_greedy] greedy_turn [OF assms]
  by (simp_all add: accept_gpu_greedy_def pick_from_candidates_def)

definition demo_sequence :: "nat \<Rightarrow> token list \<Rightarrow> token list \<Rightarrow> nat list \<Rightarrow> ((unit, unit, nat, unit) turn_loop, nat) eseq" where
  "demo_sequence i prompt generated ms =
     \<lparr>es_id = i, es_turn = (demo_turn 3)\<lparr>tl_generated := generated\<rparr>, es_context = prompt @ generated,
      es_prompt_tokens = length prompt, es_keys = new_keys, es_writer = i, es_decode_ms = ms\<rparr>"

lemma demo_sequence_fields [simp]:
  "es_id (demo_sequence i prompt generated ms) = i"
  "es_turn (demo_sequence i prompt generated ms) = (demo_turn 3)\<lparr>tl_generated := generated\<rparr>"
  "es_context (demo_sequence i prompt generated ms) = prompt @ generated"
  "es_writer (demo_sequence i prompt generated ms) = i"
  "es_keys (demo_sequence i prompt generated ms) = new_keys"
  "prefill_ids (demo_sequence i prompt [] ms) = prompt"
  "resumed (demo_sequence i prompt generated ms) \<longleftrightarrow> generated \<noteq> []"
  "next_input (demo_sequence i prompt generated ms) = (if prompt @ generated = [] then None else Some (last (prompt @ generated)))"
  "verifies_with_gpu_greedy demo_te ((demo_turn m)\<lparr>tl_generated := generated\<rparr>)"
  by (auto simp: demo_sequence_def prefill_ids_def resumed_def next_input_def greedy_turn_iff demo_turn_def turn_loop_new_def
    demo_te_def suppresses_tokens_def)

lemma demo_sequence_step:
  "ctx = prompt @ generated' \<Longrightarrow>
   (demo_sequence i prompt generated ms)\<lparr>es_turn := (demo_turn 3)\<lparr>tl_generated := generated'\<rparr>, es_context := ctx\<rparr> =
     demo_sequence i prompt generated' ms"
  "(demo_sequence i prompt generated ms)\<lparr>es_decode_ms := ms'\<rparr> = demo_sequence i prompt generated ms'"
  "es_decode_ms (demo_sequence i prompt generated ms) = ms"
  by (simp_all add: demo_sequence_def)

lemma demo_accept:
  "tok \<in> {0, 1, 2} \<Longrightarrow>
   turn_accept demo_te ((demo_turn 3)\<lparr>tl_generated := generated\<rparr>) tok False None =
     (Inr \<lparr>ac_token = tok, ac_visible = True, ac_step = (if length generated \<ge> 2 then Stop Length_limit else Continue)\<rparr>,
      (demo_turn 3)\<lparr>tl_generated := generated @ [tok]\<rparr>)"
  by (auto simp: turn_accept_def token_id_from_model_def classify_turn_def stops_classify_def nonempty_list_def
    demo_turn_def turn_loop_new_def demo_te_def Let_def)

lemmas demo_world = fate_of_def ask_def elapsed_def send_event_def

lemma demo_accepted_state:
  "demo_accepted = Some (demo_start\<lparr>en_waiting := [demo_sequence 1 [5, 6, 7, 8] [] [], demo_sequence 2 [7, 8] [] []], en_next_id := 3\<rparr>)"
  by (simp add: demo_accepted_def demo_start_def engine_new_def engine_accept_def fresh_id_def checked_add_u64_def u64_max_def
    demo_submission_def demo_sequence_def demo_turn_def turn_loop_new_def)
lemmas demo_engine = sweep_prefilling_def admit_def admit_loop.simps admit_pass_def next_prefill_def
  next_admission_def chunk_budget_def chunk_budget_ms_def chunk_tokens_def shrink_tokens.simps prefilled_def settle_pick_def
  accepted_token_def release_sequence_def queued_rows_def decode_step_def decode_pipelined_def step_row_def release_retired_def
  settle_def fail_sequence_def decode_estimate_ms_def add_usize_def usize_max_def checked_add_u64_def u64_max_def Let_def


definition demo_first :: demo_engine where
  "demo_first = demo_start\<lparr>en_decoder := [(2, [7, 8]), (1, [5, 6, 7, 8])], en_next_id := 3,
     en_running := [demo_sequence 1 [5, 6, 7, 8] [1] [], demo_sequence 2 [7, 8] [2] []], en_asked := 8, en_read := 2,
     en_sent := [(1, Prefilled 0 0 0), (1, Token \<lparr>ac_token = 1, ac_visible = True, ac_step = Continue\<rparr>),
                 (2, Prefilled 0 0 1), (2, Token \<lparr>ac_token = 2, ac_visible = True, ac_step = Continue\<rparr>)]\<rparr>"



lemmas demo_eval = demo_engine demo_world demo_pick_row demo_accept demo_sequence_step demo_start_def engine_new_def demo_f64_def
  demo_pick_def demo_append_def held_def demo_free_def demo_first_def list_get_def

definition demo_second :: demo_engine where
  "demo_second = demo_first\<lparr>en_decoder := [(1, [5, 6, 7, 8, 1]), (2, [7, 8, 2]), (2, [7, 8]), (1, [5, 6, 7, 8])],
     en_queued := Some [(1, 2), (2, 0)], en_asked := 12\<rparr>"

lemma demo_first_step: "engine_step demo_decoder demo_ops demo_f64 (the demo_accepted) = Some demo_second"
  by (simp add: demo_accepted_state engine_step_def demo_eval demo_second_def)

abbreviation demo_token :: "token \<Rightarrow> turn_step \<Rightarrow> ((nat, unit) turn_output, nat) event" where
  "demo_token tok step \<equiv> Token \<lparr>ac_token = tok, ac_visible = True, ac_step = step\<rparr>"

definition demo_third :: demo_engine where
  "demo_third = demo_second\<lparr>en_decoder := [(1, [5, 6, 7, 8, 1, 2]), (2, [7, 8, 2, 0])] @ en_decoder demo_second,
     en_running := [demo_sequence 1 [5, 6, 7, 8] [1, 2] [2], demo_sequence 2 [7, 8] [2, 0] [2]], en_steps := 1,
     en_queued := Some [(1, 0), (2, 1)], en_decode_step_ms := 3, en_asked := 18, en_read := 4,
     en_sent := en_sent demo_second @ [(1, demo_token 2 Continue), (2, demo_token 0 Continue)]\<rparr>"

lemma demo_second_step: "engine_step demo_decoder demo_ops demo_f64 demo_second = Some demo_third"
  by (simp add: demo_accepted_state engine_step_def demo_eval demo_second_def demo_third_def)

definition demo_output :: "token list \<Rightarrow> (nat, unit) turn_output" where
  "demo_output tokens = \<lparr>to_generated = tokens, to_logprobs = [], to_sampling = tp_applied (tl_picker (demo_turn 3))\<rparr>"

lemma demo_finishes: "turn_finish demo_te ((demo_turn 3)\<lparr>tl_generated := tokens\<rparr>) = Inr (demo_output tokens)"
  by (simp add: turn_finish_def check_complete_output_def demo_output_def demo_turn_def turn_loop_new_def)

text \<open>Both turns are done; the rows of the step still on the device are retired, not freed.\<close>

definition demo_fourth :: demo_engine where
  "demo_fourth = demo_third\<lparr>en_decoder := [(1, [5, 6, 7, 8, 1, 2, 0]), (2, [7, 8, 2, 0, 1])] @ en_decoder demo_third,
     en_running := [], en_steps := 2, en_queued := Some [(1, 1), (2, 2)], en_retired := [(1, 1), (2, 2)],
     en_decode_step_ms := 5, en_asked := 26, en_read := 6,
     en_sent := en_sent demo_third @
       [(1, demo_token 0 (Stop Length_limit)), (1, Done (demo_output [1, 2, 0]) Length_limit [2, 4]),
        (2, demo_token 1 (Stop Length_limit)), (2, Done (demo_output [2, 0, 1]) Length_limit [2, 4])]\<rparr>"

lemma demo_third_step: "engine_step demo_decoder demo_ops demo_f64 demo_third = Some demo_fourth"
  by (simp add: demo_accepted_state engine_step_def demo_eval demo_finishes demo_second_def demo_third_def demo_fourth_def)

lemma demo_batch_reach:
  "engine_reach demo_decoder demo_ops demo_f64 demo_start
     [(1, demo_submission [5, 6, 7, 8] 3), (2, demo_submission [7, 8] 3)] demo_fourth"
proof -
  obtain st where one: "engine_accept demo_start (demo_submission [5, 6, 7, 8] 3) = Some st"
    and two: "engine_accept st (demo_submission [7, 8] 3) = Some (the demo_accepted)"
    unfolding demo_accepted_state option.sel using demo_accepted_state [unfolded demo_accepted_def Option.bind_eq_Some_conv] by blast
  have ids: "en_next_id demo_start = 1" "en_next_id st = 2"
    using one by (auto simp: engine_accept_Some demo_start_def engine_new_def)
  note reach = run_accept [OF run_accept [OF run_start one] two]
  show ?thesis
    using run_step [OF run_step [OF run_step [OF reach demo_first_step] demo_second_step] demo_third_step] by (simp add: ids)
qed

section \<open>The same run, recorded\<close>

type_synonym demo_traced_engine =
  "(demo_state traced_state, (nat \<times> token) list, (unit, unit, nat, unit) turn_loop, nat, (nat, unit) turn_output) engine"

definition demo_traced_start :: demo_traced_engine where
  "demo_traced_start =
     engine_new \<lparr>tr_decoder = [], tr_log = []\<rparr>
       \<lparr>el_max_num_seqs = 2, el_prefill_chunk_tokens = 16, el_prefill_target_ms = 10, el_pool_bytes = None\<rparr>
       0 (\<lambda>n. n \<in> {4, 5, 6, 7}) (\<lambda>n. n)"

definition demo_traced_waiting :: demo_traced_engine where
  "demo_traced_waiting =
     demo_traced_start\<lparr>en_waiting := [demo_sequence 1 [5, 6, 7, 8] [] [], demo_sequence 2 [7, 8] [] []], en_next_id := 3\<rparr>"

definition demo_traced_second :: demo_traced_engine where
  "demo_traced_second = demo_traced_start\<lparr>
     en_decoder := \<lparr>tr_decoder = [(1, [5, 6, 7, 8, 1]), (2, [7, 8, 2]), (2, [7, 8]), (1, [5, 6, 7, 8])],
                    tr_log = [C_prefill 1, C_prefill 2, C_queue [1, 2]]\<rparr>,
     en_next_id := 3, en_running := [demo_sequence 1 [5, 6, 7, 8] [1] [], demo_sequence 2 [7, 8] [2] []],
     en_queued := Some [(1, 2), (2, 0)], en_asked := 12, en_read := 2,
     en_sent := [(1, Prefilled 0 0 0), (1, demo_token 1 Continue), (2, Prefilled 0 0 1), (2, demo_token 2 Continue)]\<rparr>"

lemma demo_traced_step: "engine_step (traced demo_decoder) demo_ops demo_f64 demo_traced_waiting = Some demo_traced_second"
  by (simp add: engine_step_def demo_eval demo_traced_waiting_def demo_traced_start_def demo_traced_second_def traced_def noted_def)

lemma demo_traced_reach:
  "engine_reach (traced demo_decoder) demo_ops demo_f64 demo_traced_start
     [(1, demo_submission [5, 6, 7, 8] 3), (2, demo_submission [7, 8] 3)] demo_traced_second"
proof -
  let ?one = "demo_traced_start\<lparr>en_waiting := [demo_sequence 1 [5, 6, 7, 8] [] []], en_next_id := 2\<rparr>"
  have one: "engine_accept demo_traced_start (demo_submission [5, 6, 7, 8] 3) = Some ?one"
    and two: "engine_accept ?one (demo_submission [7, 8] 3) = Some demo_traced_waiting"
    by (simp_all add: demo_traced_waiting_def demo_traced_start_def engine_new_def engine_accept_def fresh_id_def checked_add_u64_def
      u64_max_def demo_submission_def demo_sequence_def demo_turn_def turn_loop_new_def)
  show ?thesis
    using run_step [OF run_accept [OF run_accept [OF run_start one] two] demo_traced_step]
    by (simp add: demo_traced_start_def engine_new_def)
qed

end
