(* ===== verification/EngineTotal.thy ===== *)
theory EngineTotal
  imports EngineTrace
begin

text \<open>
  The engine does not panic. Its loops index the rows a decoder returns, take the last token of every
  running sequence, number the sequences they requeue and the steps they read, and add up the block
  costs and token counts the decoder reports; with a decoder that answers one row per sequence and counts
  tokens it holds, and numbers left, an iteration returns a state.
\<close>

section \<open>What a decoder answers\<close>

definition answers_rows :: "('d, 'q, 'l, 'm) text_decoder \<Rightarrow> bool" where
  "answers_rows dc \<longleftrightarrow>
     (\<forall>d. 0 < dc_block_tokens dc d) \<and>
     (\<forall>d step tokens d'. dc_finish dc d step = (Inr tokens, d') \<longrightarrow> length tokens = length (dc_queued_rows dc step)) \<and>
     (\<forall>d rows rb decoded d'. dc_decode dc d rows rb = (Inr decoded, d') \<longrightarrow>
        (case decoded of Greedy_tokens tokens \<Rightarrow> length tokens | Logit_rows ls \<Rightarrow> length ls) = length rows)"

lemma answers_rowsD:
  assumes "answers_rows dc"
  shows "0 < dc_block_tokens dc d"
    and "dc_finish dc d step = (Inr tokens, d') \<Longrightarrow> length tokens = length (dc_queued_rows dc step)"
    and "dc_decode dc d rows rb = (Inr (Greedy_tokens tokens), d') \<Longrightarrow> length tokens = length rows"
    and "dc_decode dc d rows rb = (Inr (Logit_rows ls), d') \<Longrightarrow> length ls = length rows"
  using assms unfolding answers_rows_def by (blast, blast, fastforce, fastforce)

text \<open>
  What a decoder counts. Costs leave room for the batch. \<open>kv d i\<close> and \<open>pub d i\<close> are numbers of tokens the decoder
  keeps for sequence \<open>i\<close>, in its cache and published: a chunk adds to them what it reports, and other
  sequences keep theirs until a call that names them.
\<close>

definition keeps_count :: "('d \<Rightarrow> nat \<Rightarrow> nat) \<Rightarrow> ('d \<Rightarrow> nat \<Rightarrow> nat) \<Rightarrow> 'd \<Rightarrow> 'd \<Rightarrow> nat set \<Rightarrow> bool" where
  "keeps_count kv pub d d' named \<longleftrightarrow> (\<forall>j. j \<notin> named \<longrightarrow> kv d j \<le> kv d' j \<and> pub d j \<le> pub d' j)"

definition counts_fit ::
  "('d, 'q, 'l, 'm) text_decoder \<Rightarrow> engine_limits \<Rightarrow> ('d \<Rightarrow> nat \<Rightarrow> nat) \<Rightarrow> ('d \<Rightarrow> nat \<Rightarrow> nat) \<Rightarrow> bool" where
  "counts_fit dc limits kv pub \<longleftrightarrow>
     (\<forall>d ids keys cost. dc_prefill_cost dc d ids keys = Inr cost \<longrightarrow> cost + el_max_num_seqs limits \<le> usize_max) \<and>
     (\<forall>d i. kv d i \<le> usize_max \<and> pub d i \<le> usize_max) \<and>
     (\<forall>d i ids keys budget res d'. dc_prefill_chunk dc d i ids keys budget = (res, d') \<longrightarrow> keeps_count kv pub d d' {i} \<and>
        (\<forall>chunk. res = Inr chunk \<longrightarrow> kv d i + pk_cached_tokens chunk + pk_computed chunk \<le> kv d' i \<and>
           pub d i + pk_cache_write_tokens chunk \<le> pub d' i)) \<and>
     (\<forall>d i. keeps_count kv pub d (dc_free dc d i) {i}) \<and>
     (\<forall>d rows rb res d'. dc_decode dc d rows rb = (res, d') \<longrightarrow> keeps_count kv pub d d' (fst ` set rows)) \<and>
     (\<forall>d rows previous res d'. dc_queue dc d rows previous = (res, d') \<longrightarrow> keeps_count kv pub d d' (fst ` set rows)) \<and>
     (\<forall>d step res d'. dc_finish dc d step = (res, d') \<longrightarrow> keeps_count kv pub d d' (set (dc_queued_rows dc step)))"

lemma counts_fitD:
  assumes "counts_fit dc limits kv pub"
  shows "dc_prefill_cost dc d ids keys = Inr cost \<Longrightarrow> cost + el_max_num_seqs limits \<le> usize_max"
    and "kv d i \<le> usize_max" "pub d i \<le> usize_max"
    and "dc_prefill_chunk dc d i ids keys budget = (res, d') \<Longrightarrow> keeps_count kv pub d d' {i}"
    and "dc_prefill_chunk dc d i ids keys budget = (Inr chunk, d') \<Longrightarrow>
      kv d i + pk_cached_tokens chunk + pk_computed chunk \<le> kv d' i \<and> pub d i + pk_cache_write_tokens chunk \<le> pub d' i"
    and "keeps_count kv pub d (dc_free dc d i) {i}"
    and "dc_decode dc d rows rb = (res2, d') \<Longrightarrow> keeps_count kv pub d d' (fst ` set rows)"
    and "dc_queue dc d inputs previous = (res3, d') \<Longrightarrow> keeps_count kv pub d d' (fst ` set inputs)"
    and "dc_finish dc d step = (res4, d') \<Longrightarrow> keeps_count kv pub d d' (set (dc_queued_rows dc step))"
  using assms unfolding counts_fit_def by - (blast | fast | metis)+

section \<open>Counts of a prompt being prefilled\<close>

text \<open>What the engine has parts_counted of a prompt is at most what the decoder holds of it.\<close>

definition part_fits :: "('d \<Rightarrow> nat \<Rightarrow> nat) \<Rightarrow> ('d \<Rightarrow> nat \<Rightarrow> nat) \<Rightarrow> 'd \<Rightarrow> nat \<Rightarrow> nat \<Rightarrow> nat \<Rightarrow> nat \<Rightarrow> bool" where
  "part_fits kv pub d i n c w \<longleftrightarrow> n \<le> kv d i \<and> c \<le> n \<and> w \<le> pub d i"

definition parts_counted :: "('d \<Rightarrow> nat \<Rightarrow> nat) \<Rightarrow> ('d \<Rightarrow> nat \<Rightarrow> nat) \<Rightarrow> ('d, 'q, 't, 'm, 'o, 'l) config \<Rightarrow> bool" where
  "parts_counted kv pub c \<longleftrightarrow> (case c of (st, hand, prev) \<Rightarrow>
     (\<forall>p. en_prefilling st = Some p \<longrightarrow> part_fits kv pub (en_decoder st) (es_id (pf_sequence p)) (pf_done p)
        (pf_cached_tokens p) (pf_cache_write_tokens p)) \<and>
     (\<forall>s n c w. (s, Part n c w) \<in> set hand \<longrightarrow> part_fits kv pub (en_decoder st) (es_id s) n c w))"

lemma part_fits_keeps:
  "keeps_count kv pub d d' named \<Longrightarrow> i \<notin> named \<Longrightarrow> part_fits kv pub d i n c w \<Longrightarrow> part_fits kv pub d' i n c w"
  unfolding keeps_count_def part_fits_def by (meson le_trans)

text \<open>A step that changes the decoder names no prompt that stays.\<close>

lemma counted_keeps:
  assumes "parts_counted kv pub (st, hand, prev)" and keeps: "keeps_count kv pub (en_decoder st) (en_decoder st') named"
    and pf: "\<And>p. en_prefilling st' = Some p \<Longrightarrow> en_prefilling st = Some p \<and> es_id (pf_sequence p) \<notin> named"
    and hand: "\<And>s n c w. (s, Part n c w) \<in> set hand' \<Longrightarrow> (s, Part n c w) \<in> set hand \<and> es_id s \<notin> named"
  shows "parts_counted kv pub (st', hand', prev')"
  using assms(1) part_fits_keeps [OF keeps] pf hand unfolding parts_counted_def by (simp only: prod.case) blast

lemma keeps_refl [simp]: "keeps_count kv pub d d named"
  by (simp add: keeps_count_def)

lemma counted_same:
  assumes "parts_counted kv pub (st, hand, prev)" "en_decoder st' = en_decoder st"
    and "\<And>p. en_prefilling st' = Some p \<Longrightarrow> en_prefilling st = Some p"
    and "\<And>s n c w. (s, Part n c w) \<in> set hand' \<Longrightarrow> (s, Part n c w) \<in> set hand"
  shows "parts_counted kv pub (st', hand', prev')"
  by (rule counted_keeps [OF assms(1), of st' "{}"]) (use assms(2-4) in simp_all)

lemma release_keeps:
  "counts_fit dc limits kv pub \<Longrightarrow> keeps_count kv pub (en_decoder st) (en_decoder (release_sequence dc st s)) {es_id s}"
  using counts_fitD(6) [of dc limits kv pub] by (simp add: release_retired_rows)

lemma owners_apart:
  assumes "ids_ok dc (st, hand, prev)"
  shows "en_prefilling st = Some p \<Longrightarrow> es_id (pf_sequence p) \<notin> es_id ` fst ` set hand \<union> es_id ` set (en_running st) \<union> fst ` set (en_retired st)"
    and "x \<in> set hand \<Longrightarrow> es_id (fst x) \<notin> es_id ` set (en_running st) \<union> fst ` set (en_retired st)"
  using assms by (auto simp: ids_ok_def prefilling_list_def)

lemma hand_apart:
  assumes "ids_ok dc (st, (s, it) # hand, prev)" "x \<in> set hand"
  shows "es_id (fst x) \<noteq> es_id s"
proof -
  have "es_id s \<notin> es_id ` fst ` set hand" using assms(1) by (simp add: ids_ok_def image_image)
  then show ?thesis using assms(2) by (metis imageI)
qed

lemma counted_release:
  assumes fit: "counts_fit dc limits kv pub" and ids: "ids_ok dc (st, (s, it) # hand, prev)"
    and c: "parts_counted kv pub (st, (s, it) # hand, prev)"
    and st': "en_decoder st' = en_decoder (release_sequence dc st s)" "en_prefilling st' = en_prefilling st"
  shows "parts_counted kv pub (st', hand, prev')"
proof (rule counted_keeps [OF c, of st' "{es_id s}"])
  show "keeps_count kv pub (en_decoder st) (en_decoder st') {es_id s}" using release_keeps [OF fit, of st s] st' by simp
  show "en_prefilling st = Some p \<and> es_id (pf_sequence p) \<notin> {es_id s}" if "en_prefilling st' = Some p" for p
    using owners_apart(1) [OF ids] that st'(2) by auto
  show "(s', Part n c w) \<in> set ((s, it) # hand) \<and> es_id s' \<notin> {es_id s}" if "(s', Part n c w) \<in> set hand" for s' n c w
    using hand_apart [OF ids that] that by auto
qed


lemma opt_map_inputs_ids:
  "opt_map (\<lambda>s. map_option (Pair (es_id s)) (next_input s)) ss = Some rows \<Longrightarrow> map fst rows = map es_id ss"
  by (induction ss arbitrary: rows) (auto split: bind_splits)

lemma hand_over_no_part: "(s, Part n c w) \<notin> set (hand_over decoded running)"
  by (auto simp: hand_over_def dest: set_zip_rightD split: batch_decoded.splits)

lemma micro_counted:
  assumes "micro dc tn c c'" and fit: "counts_fit dc limits kv pub" and ids: "ids_ok dc c" and cnt: "parts_counted kv pub c"
  shows "parts_counted kv pub c'"
  using assms(1)
proof cases
  case (m_prefill st s budget res d it n c w)
  note cnt = cnt [unfolded m_prefill(1)]
  have pf: "es_id (pf_sequence p) \<noteq> es_id s" if "en_prefilling st = Some p" for p
    using owners_apart(1) [OF ids [unfolded m_prefill(1)] that] by simp
  have keeps: "keeps_count kv pub (en_decoder st) d {es_id s}" by (rule counts_fitD(4) [OF fit m_prefill(3)])
  have "part_fits kv pub d (es_id (pf_sequence p)) (pf_done p) (pf_cached_tokens p) (pf_cache_write_tokens p)"
    if "en_prefilling st = Some p" for p
    by (rule part_fits_keeps [OF keeps]) (use that pf cnt in \<open>auto simp: parts_counted_def\<close>)
  moreover have "part_fits kv pub d (es_id s) n' c' w'" if it: "it = Part n' c' w'" for n' c' w'
  proof -
    obtain chunk where chunk: "res = Inr chunk" using it m_prefill(4) by (cases res) auto
    have "part_fits kv pub (en_decoder st) (es_id s) n c w" using cnt by (simp add: parts_counted_def)
    then show ?thesis using counts_fitD(5) [OF fit m_prefill(3) [unfolded chunk]] it m_prefill(4) chunk
      by (auto simp: part_fits_def split: option.splits)
  qed
  ultimately show ?thesis unfolding m_prefill(2) by (simp add: parts_counted_def)
next
  case (m_finish st step res d hand)
  have young: "es_id (pf_sequence p) \<notin> set (dc_queued_rows dc step)" if "en_prefilling st = Some p" for p
    using ids that unfolding m_finish(1) by (auto simp: ids_ok_def young_ids.simps prefilling_list_def)
  have "keeps_count kv pub (en_decoder st) d (set (dc_queued_rows dc step))" by (rule counts_fitD(9) [OF fit m_finish(3)])
  moreover have "(s, Part n c w) \<notin> set (map (read_back (dc_queued_rows dc step) res) hand)" for s n c w
    using m_finish(5) by (fastforce simp: read_back_def split: prod.splits option.splits sum.splits if_splits)
  ultimately show ?thesis unfolding m_finish(2)
    by (intro counted_keeps [OF cnt [unfolded m_finish(1)]]) (use young in auto)
next
  case (m_queue st rows res d)
  have "map fst rows = map es_id (en_running st)" by (rule opt_map_step_row_ids [OF m_queue(3)])
  then have rows: "fst ` set rows = es_id ` set (en_running st)" by (metis list.set_map)
  define named where "named = fst ` set rows"
  have "keeps_count kv pub (en_decoder st) d named" unfolding named_def by (rule counts_fitD(8) [OF fit m_queue(6)])
  moreover have "es_id (pf_sequence p) \<notin> named" if "en_prefilling st = Some p" for p
    using owners_apart(1) [OF ids [unfolded m_queue(1)] that] rows by (simp add: named_def)
  ultimately show ?thesis unfolding m_queue(2)
    by (auto intro!: counted_keeps [OF cnt [unfolded m_queue(1)]] split: sum.split decode_error.split)
next
  case (m_decode st rows res d)
  have "map fst rows = map es_id (en_running st)"
    by (rule opt_map_inputs_ids [OF m_decode(3)])
  then have rows: "fst ` set rows = es_id ` set (en_running st)" by (metis list.set_map)
  define named where "named = fst ` set rows"
  have "keeps_count kv pub (en_decoder st) d named" unfolding named_def by (rule counts_fitD(7) [OF fit m_decode(6)])
  moreover have "es_id (pf_sequence p) \<notin> named" if "en_prefilling st = Some p" for p
    using owners_apart(1) [OF ids [unfolded m_decode(1)] that] rows by (simp add: named_def)
  ultimately show ?thesis unfolding m_decode(2)
    by (auto simp: hand_over_no_part intro!: counted_keeps [OF cnt [unfolded m_decode(1)]] split: sum.split decode_error.split)
next
  case (m_retire st rs i w rs' hand)
  have "keeps_count kv pub (en_decoder st) (dc_free dc (en_decoder st) i) {i}" by (rule counts_fitD(6) [OF fit])
  moreover have "es_id (pf_sequence p) \<noteq> i" if "en_prefilling st = Some p" for p
    using owners_apart(1) [OF ids [unfolded m_retire(1)] that] m_retire(3) by auto
  moreover have "es_id s \<noteq> i" if "(s, it) \<in> set hand" for s it
    using owners_apart(2) [OF ids [unfolded m_retire(1)] that] m_retire(3) by auto
  ultimately show ?thesis unfolding m_retire(2)
    by (intro counted_keeps [OF cnt [unfolded m_retire(1)]]) auto
next
  case (m_release st s it hand e)
  show ?thesis unfolding m_release(2)
    by (rule counted_release [OF fit ids [unfolded m_release(1)] cnt [unfolded m_release(1)]]) simp_all
next
  case (m_requeue st s st' it hand)
  show ?thesis unfolding m_requeue(2)
    by (rule counted_release [OF fit ids [unfolded m_requeue(1)] cnt [unfolded m_requeue(1)]])
      (use m_requeue(3) in \<open>auto simp: requeue_Some\<close>)
next
  case (m_stop s it a t reason ev tms st hand)
  have "ids_ok dc (said st s (Token a), (s, it) # hand, None)" "parts_counted kv pub (said st s (Token a), (s, it) # hand, None)"
    using ids cnt unfolding m_stop(1) by (simp_all add: ids_ok_def parts_counted_def young_ids.simps)
  then show ?thesis unfolding m_stop(2) by (rule counted_release [OF fit]) simp_all
qed (use cnt in \<open>auto intro: counted_same simp: parts_counted_def part_fits_def\<close>)


lemma micros_counted:
  assumes "micros dc tn c c'" "counts_fit dc limits kv pub" "names_rows dc" "ids_ok dc c" "parts_counted kv pub c"
  shows "ids_ok dc c' \<and> parts_counted kv pub c'"
  using assms by (induction rule: rtranclp_induct) (auto dest: micro_ids micro_counted)

section \<open>Calm states\<close>

text \<open>
  Every running sequence has a last token, the limits are what they were, and since the counters of IDs and
  steps were last looked at they have grown by at most \<open>n\<close>. \<open>k\<close> holds the limits and the two counters.
\<close>

definition calm :: "engine_limits \<times> nat \<times> nat \<Rightarrow> nat \<Rightarrow> ('d, 'q, 't, 'm, 'o) engine \<Rightarrow> bool" where
  "calm k n st \<longleftrightarrow> (case k of (limits, a, b) \<Rightarrow>
     (\<forall>s\<in>set (en_running st). es_context s \<noteq> []) \<and> en_limits st = limits \<and> en_next_id st \<le> a + n \<and> en_steps st \<le> b + n)"

definition spare :: "engine_limits \<times> nat \<times> nat \<Rightarrow> nat \<Rightarrow> bool" where
  "spare k n \<longleftrightarrow> (case k of (limits, a, b) \<Rightarrow> a + n < u64_max \<and> b + n < u64_max)"

text \<open>The operation returns, in a calm state.\<close>

definition returns_calm :: "engine_limits \<times> nat \<times> nat \<Rightarrow> nat \<Rightarrow> ('d, 'q, 't, 'm, 'o) engine option \<Rightarrow> bool" where
  "returns_calm k n r \<longleftrightarrow> (\<exists>st. r = Some st \<and> calm k n st)"

lemma returns_calm_Some [simp]: "returns_calm k n (Some st) = calm k n st"
  by (simp add: returns_calm_def)

lemma calm_Suc: "calm k n st \<Longrightarrow> calm k (Suc n) st"
  by (auto simp: calm_def)

lemma calm_cong: "en_running st' = en_running st \<Longrightarrow> en_limits st' = en_limits st \<Longrightarrow> en_next_id st' = en_next_id st \<Longrightarrow>
    en_steps st' = en_steps st \<Longrightarrow> calm k n st' = calm k n st"
  by (simp add: calm_def)

lemma calm_simps [simp]:
  "calm k n (st\<lparr>en_waiting := ws\<rparr>) = calm k n st" "calm k n (st\<lparr>en_prefilling := p\<rparr>) = calm k n st"
  "calm k n (st\<lparr>en_decoder := d\<rparr>) = calm k n st" "calm k n (st\<lparr>en_queued := q\<rparr>) = calm k n st"
  "calm k n (st\<lparr>en_retired := rs\<rparr>) = calm k n st" "calm k n (st\<lparr>en_decode_step_ms := x\<rparr>) = calm k n st"
  "calm k n (fail_sequence st s e) = calm k n st" "calm k n (release_sequence dc st s) = calm k n st"
  "calm k n (snd (send_event st s ev)) = calm k n st"
  "calm k n st \<Longrightarrow> calm k n (st\<lparr>en_running := []\<rparr>)"
  "calm k n st \<Longrightarrow> es_context s \<noteq> [] \<Longrightarrow> calm k n (st\<lparr>en_running := en_running st @ [s]\<rparr>)"
  by (auto simp: calm_def send_event_def ask_def)

text \<open>A step read is parts_counted.\<close>

lemma calm_step:
  assumes "calm k n st" "spare k n"
  shows "checked_add_u64 (en_steps st) 1 = Some (Suc (en_steps st))" "calm k (Suc n) (st\<lparr>en_steps := Suc (en_steps st), en_running := []\<rparr>)"
  using assms by (auto simp: calm_def spare_def checked_add_u64_def)

lemma calm_fate: "fate_of st = (f, st') \<Longrightarrow> calm k n st' = calm k n st"
  by (intro calm_cong) (simp_all add: fate_of_frame)

lemma calm_elapsed: "elapsed st = (ms, st') \<Longrightarrow> calm k n st' = calm k n st"
  by (intro calm_cong) (simp_all add: elapsed_frame)

lemma calm_send: "send_event st s ev = (ok, st') \<Longrightarrow> calm k n st' = calm k n st"
  by (intro calm_cong) (simp_all add: send_event_frame)

lemma calm_requeue: "calm k n st \<Longrightarrow> spare k n \<Longrightarrow> returns_calm k (Suc n) (requeue st s)"
  by (auto simp: calm_def spare_def requeue_def fresh_id_def checked_add_u64_def)

lemma accepted_token_context:
  "accepted_token dc tn st s a = (Some s', st') \<Longrightarrow> es_context s' \<noteq> []"
  by (auto simp: accepted_token_def Let_def split: prod.splits bool.splits turn_step.splits)

lemma calm_settle_pick [simp]:
  assumes "calm k n st"
  shows "calm k n (settle_pick dc tn st s pick)"
proof (cases "fst pick")
  case (Inr a)
  obtain kept st' where a: "accepted_token dc tn st (s\<lparr>es_turn := snd pick\<rparr>) a = (kept, st')"
    by (cases "accepted_token dc tn st (s\<lparr>es_turn := snd pick\<rparr>) a")
  have st': "calm k n st'" using accepted_token_frame [OF a] assms by (simp add: calm_def)
  show ?thesis
  proof (cases kept)
    case (Some s')
    have "es_context s' \<noteq> []" by (rule accepted_token_context [OF a [unfolded Some]])
    then show ?thesis using a st' Inr Some by (simp add: settle_pick_def)
  qed (simp add: settle_pick_def Inr a st')
qed (simp add: settle_pick_def assms Let_def)

lemma resumed_context: "resumed s \<Longrightarrow> es_context s \<noteq> []"
  by (auto simp: resumed_def)

lemma calm_prefilled [simp]: "calm k n st \<Longrightarrow> calm k n (prefilled dc tn st s logits prefix)"
  by (cases "resumed s") (auto simp: prefilled_def resumed_context calm_elapsed calm_send split: prod.splits bool.splits)

section \<open>Admission\<close>

lemma admission_returns:
  assumes "counts_fit dc (fst k) kv pub"
  shows "calm k n st \<Longrightarrow> \<exists>found st'. admission_loop dc ws st = Some (found, st') \<and> calm k n st'"
  using assms
proof (induction dc ws st rule: admission_loop.induct)
  case (2 dc s rest st)
  show ?case
  proof (cases "length (en_running st) \<ge> el_max_num_seqs (en_limits st)")
    case True
    then show ?thesis using 2(2) by simp
  next
    case False
    show ?thesis
    proof (cases "dc_prefill_cost dc (en_decoder st) (prefill_ids s) (es_keys s)")
      case (Inl e)
      then show ?thesis using 2(1) [OF False Inl] 2(2,3) False by simp
    next
      case (Inr cost)
      have "cost + el_max_num_seqs (en_limits st) \<le> usize_max"
        using counts_fitD(1) [OF 2(3) Inr] 2(2) by (auto simp: calm_def)
      then have "add_usize cost (length (en_running st)) = Some (cost + length (en_running st))"
        using False by (simp add: add_usize_def)
      then show ?thesis using Inr False 2(2) by simp
    qed
  qed
qed simp

text \<open>What is asked of a state between the engine's operations.\<close>

definition sure ::
  "('d, 'q, 'l, 'm) text_decoder \<Rightarrow> ('d \<Rightarrow> nat \<Rightarrow> nat) \<Rightarrow> ('d \<Rightarrow> nat \<Rightarrow> nat) \<Rightarrow> engine_limits \<times> nat \<times> nat \<Rightarrow> nat \<Rightarrow>
   ('d, 'q, 't, 'm, 'o) engine \<Rightarrow> bool" where
  "sure dc kv pub k n st \<longleftrightarrow> calm k n st \<and> names_rows dc \<and> counts_fit dc (fst k) kv pub \<and>
     (\<lambda>c. ids_ok dc c \<and> parts_counted kv pub c) (st, [], None)"

lemma sureD:
  assumes "sure dc kv pub k n st"
  shows "calm k n st" "names_rows dc" "counts_fit dc (fst k) kv pub" "ids_ok dc (st, [], None)"
  using assms by (auto simp: sure_def)

lemma sure_micros:
  assumes "sure dc kv pub k n st" "micros dc tn (st, [], None) c"
  shows "ids_ok dc c" "parts_counted kv pub c"
  using micros_counted [OF assms(2)] assms(1) unfolding sure_def by blast+

lemma sure_next:
  assumes "sure dc kv pub k n st" "micros dc tn (st, [], None) (st', [], None)" "calm k n' st'"
  shows "sure dc kv pub k n' st'"
  using sure_micros [OF assms(1,2)] assms(1,3) by (simp add: sure_def)

lemma next_prefill_returns:
  assumes "sure dc kv pub k n st"
  obtains found st' where "next_prefill dc st = Some (found, st')" "calm k n st'"
  using admission_returns [OF sureD(3,1) [OF assms], of "en_waiting st"] sureD(1) [OF assms] that
  by (fastforce simp: next_prefill_def next_admission_def split: option.splits)

lemma chunk_budget_returns: "answers_rows dc \<Longrightarrow> chunk_budget dc fl st p unlimited chunked budget \<noteq> None"
  using answers_rowsD(1) [of dc "en_decoder st"] by (auto simp: chunk_budget_def chunk_tokens_def Let_def)

text \<open>The sums over the chunks of a prompt stay within what the decoder holds of it.\<close>

lemma chunk_sums:
  assumes fit: "counts_fit dc limits kv pub" and part: "part_fits kv pub d i n c w"
    and chunk: "dc_prefill_chunk dc d i ids keys budget = (Inr chunk, d')"
  shows "n + pk_cached_tokens chunk + pk_computed chunk \<le> usize_max" "c + pk_cached_tokens chunk \<le> usize_max"
    "w + pk_cache_write_tokens chunk \<le> usize_max"
  using counts_fitD(5) [OF fit chunk] counts_fitD(2,3) [OF fit, of d' i] part by (simp_all add: part_fits_def)

lemma admit_pass_returns:
  assumes rows: "answers_rows dc" and sure: "sure dc kv pub k n st" and spare: "spare k n"
  shows "\<exists>r. admit_pass dc tn fl b sp ch st = Some r \<and>
    (case r of Inl (_, st') \<Rightarrow> calm k (Suc n) st' | Inr (_, _, _, st') \<Rightarrow> calm k n st')"
proof -
  obtain found st1 where next1: "next_prefill dc st = Some (found, st1)" and calm1: "calm k n st1"
    by (rule next_prefill_returns [OF sure])
  note counted1 = sure_micros(2) [OF sure micros_next_prefill [OF next1]]
  show ?thesis
  proof (cases found)
    case None
    then show ?thesis using next1 calm_Suc [OF calm1] by (simp add: admit_pass_def)
  next
    case (Some p)
    let ?budget = "chunk_budget dc fl st1 p (en_running st1 = []) ch b"
    obtain budget where budget: "?budget = Some budget"
      using chunk_budget_returns [OF rows, of fl st1 p "en_running st1 = []" ch b] by blast
    show ?thesis
    proof (cases budget)
      case None
      then show ?thesis using budget calm_Suc [OF calm1] next1 Some by (simp add: admit_pass_def)
    next
      case size: (Some size)
      let ?s = "pf_sequence p"
      obtain res d where chunk: "dc_prefill_chunk dc (en_decoder st1) (es_id ?s) (prefill_ids ?s) (es_keys ?s) size = (res, d)"
        by fastforce
      note path = next1 Some budget size chunk
      show ?thesis
      proof (cases res)
        case (Inl e)
        let ?st = "release_sequence dc (st1\<lparr>en_decoder := d\<rparr>) ?s"
        have "returns_calm k (Suc n) (requeue ?st ?s)" by (rule calm_requeue) (simp_all add: calm1 spare)
        then obtain st2 where "requeue ?st ?s = Some st2" "calm k (Suc n) st2" by (auto simp: returns_calm_def)
        then show ?thesis using path calm1 Inl by (simp add: admit_pass_def Let_def)
      next
        case (Inr c)
        have "part_fits kv pub (en_decoder st1) (es_id ?s) (pf_done p) (pf_cached_tokens p) (pf_cache_write_tokens p)"
          using counted1 Some by (simp add: parts_counted_def found_hand_def)
        note sums = chunk_sums [OF sureD(3) [OF sure] this chunk [unfolded Inr]]
        then have "add_usize (pf_done p) (pk_cached_tokens c) = Some (pf_done p + pk_cached_tokens c)"
          "add_usize (pf_done p + pk_cached_tokens c) (pk_computed c) = Some (pf_done p + pk_cached_tokens c + pk_computed c)"
          "add_usize (pf_cached_tokens p) (pk_cached_tokens c) = Some (pf_cached_tokens p + pk_cached_tokens c)"
          "add_usize (pf_cache_write_tokens p) (pk_cache_write_tokens c) = Some (pf_cache_write_tokens p + pk_cache_write_tokens c)"
          by (simp_all add: add_usize_def)
        then show ?thesis using path calm1 calm_Suc [OF calm1] Inr
          by (cases "pk_logits c") (simp_all add: admit_pass_def Let_def)
      qed
    qed
  qed
qed

lemma admit_loop_returns:
  "answers_rows dc \<Longrightarrow> sure dc kv pub k n st \<Longrightarrow> spare k n \<Longrightarrow>
   \<exists>ms st'. admit_loop dc tn fl b sp ch st = Some (ms, st') \<and> calm k (Suc n) st'"
proof (induction dc tn fl b sp ch st rule: admit_loop.induct)
  case (1 dc tn fl b sp ch st)
  obtain r where r: "admit_pass dc tn fl b sp ch st = Some r"
      "case r of Inl (_, st') \<Rightarrow> calm k (Suc n) st' | Inr (_, _, _, st') \<Rightarrow> calm k n st'"
    using admit_pass_returns [OF 1(2-4), of tn fl b sp ch] by blast
  show ?case
  proof (cases r)
    case (Inl x)
    then show ?thesis using r by (cases x) (simp add: admit_loop.simps)
  next
    case (Inr x)
    obtain b' sp' ch' st1 where x: "x = (b', sp', ch', st1)" by (cases x)
    have "calm k n st1" using r(2) Inr x by simp
    then have "sure dc kv pub k n st1" using sure_next [OF 1(3) _ , of tn] micros_admit_pass [OF r(1)] Inr x by simp
    then obtain ms st' where "admit_loop dc tn fl b' sp' ch' st1 = Some (ms, st')" "calm k (Suc n) st'"
      using 1(1) [OF r(1) Inr, of b' "(sp', ch', st1)" sp' "(ch', st1)" ch' st1] 1(2,4) x by auto
    then show ?thesis using r(1) Inr x by (subst admit_loop.simps) simp
  qed
qed

section \<open>Decoding\<close>

lemma calm_rows [simp]:
  "calm k n st \<Longrightarrow> \<forall>s\<in>set ss. es_context s \<noteq> [] \<Longrightarrow> calm k n (fail_rows dc failed e ss st)"
  "calm k n st \<Longrightarrow> \<forall>s\<in>set ss. es_context s \<noteq> [] \<Longrightarrow> calm k n (sweep_running dc ss st)"
  by (induction ss arbitrary: st) (auto simp: calm_fate split: prod.splits fate.splits)

lemma calm_retire_loop: "calm k n (retire_loop dc retained rest st) = calm k n st"
  by (induction dc retained rest st rule: retire_loop.induct) simp_all

lemma calm_released [simp]: "calm k n (release_retired dc st) = calm k n st"
  by (simp add: release_retired_def calm_retire_loop)

lemma position_less: "position x rows = Some i \<Longrightarrow> i < length rows"
  by (induction rows arbitrary: i) (auto split: if_splits)

lemma settle_rows_returns:
  "calm k n st \<Longrightarrow> \<forall>s\<in>set ss. es_context s \<noteq> [] \<Longrightarrow> length tokens = length rows \<Longrightarrow>
   returns_calm k n (settle_rows dc tn rows tokens ms ss st)"
  by (induction ss arbitrary: st) (auto simp: list_get_def Let_def split: option.splits dest: position_less)

lemma settle_returns:
  assumes "answers_rows dc" "calm k n st" "spare k n"
  shows "returns_calm k (Suc n) (settle dc tn st step)"
proof -
  obtain res d where f: "dc_finish dc (en_decoder st) step = (res, d)" by (cases "dc_finish dc (en_decoder st) step")
  obtain ms st1 where e: "elapsed (st\<lparr>en_decoder := d\<rparr>) = (ms, st1)" by (cases "elapsed (st\<lparr>en_decoder := d\<rparr>)")
  have calm1: "calm k n st1" using calm_elapsed [OF e] assms(2) by simp
  then have running: "\<forall>s\<in>set (en_running st1). es_context s \<noteq> []" by (simp add: calm_def)
  note step = calm_step [OF calm1 assms(3)]
  show ?thesis
    using answers_rowsD(2) [OF assms(1), of "en_decoder st" step] running step f
    by (cases res) (auto simp: settle_def e Let_def intro!: settle_rows_returns calm_rows)
qed

lemma preempt_returns:
  assumes "calm k n st" "spare k n"
  shows "returns_calm k (Suc n) (preempt dc st)"
proof -
  have "calm k n (st\<lparr>en_running := butlast (en_running st)\<rparr>)"
    using assms(1) by (auto simp: calm_def dest: in_set_butlastD)
  then show ?thesis
    using assms by (auto simp: preempt_def Let_def calm_Suc split: option.splits intro!: calm_requeue)
qed

lemma next_inputs_return: "\<forall>s\<in>set ss. es_context s \<noteq> [] \<Longrightarrow>
    opt_map (\<lambda>s. map_option (Pair (es_id s)) (next_input s)) ss = Some (map (\<lambda>s. (es_id s, last (es_context s))) ss)"
  by (rule opt_map_Some) (simp add: next_input_def)

lemma step_rows_return: "\<forall>s\<in>set ss. es_context s \<noteq> [] \<Longrightarrow> \<exists>rows. opt_map (step_row dc previous) ss = Some rows"
  by (induction ss) (auto simp: step_row_def next_input_def split: option.splits)

lemma now_rows_return:
  "calm k n st \<Longrightarrow> index + length ss \<le> (case decoded of Greedy_tokens tokens \<Rightarrow> length tokens | Logit_rows ls \<Rightarrow> length ls) \<Longrightarrow>
   returns_calm k n (now_rows dc tn decoded ms index ss st)"
  by (induction ss arbitrary: index st) (auto simp: list_get_def Let_def split: batch_decoded.splits)

lemma decode_now_returns:
  assumes "answers_rows dc" "calm k n st" "spare k n"
  shows "returns_calm k (Suc n) (decode_now dc tn st)"
proof -
  have running: "\<forall>s\<in>set (en_running st). es_context s \<noteq> []" using assms(2) by (simp add: calm_def)
  let ?rows = "map (\<lambda>s. (es_id s, last (es_context s))) (en_running st)"
  obtain res d where dec: "dc_decode dc (en_decoder st) ?rows Logits_readback = (res, d)"
    by (cases "dc_decode dc (en_decoder st) ?rows Logits_readback")
  show ?thesis
  proof (cases res)
    case (Inl e)
    then show ?thesis
      using assms(2,3) running preempt_returns [of k n "st\<lparr>en_decoder := d\<rparr>" dc]
      by (cases e) (auto simp: decode_now_def next_inputs_return dec intro!: calm_Suc)
  next
    case (Inr decoded)
    obtain ms st1 where e: "elapsed (st\<lparr>en_decoder := d\<rparr>) = (ms, st1)" by (cases "elapsed (st\<lparr>en_decoder := d\<rparr>)")
    have calm1: "calm k n st1" using calm_elapsed [OF e] assms(2) by simp
    note step = calm_step [OF calm1 assms(3)]
    have "length ?rows \<le> (case decoded of Greedy_tokens tokens \<Rightarrow> length tokens | Logit_rows ls \<Rightarrow> length ls)"
      using answers_rowsD(3,4) [OF assms(1)] dec Inr by (cases decoded) fastforce+
    then have "returns_calm k (Suc n) (now_rows dc tn decoded ms 0 (en_running st1) (st1\<lparr>en_steps := Suc (en_steps st1), en_running := []\<rparr>))"
      using step(2) elapsed_frame(2) [OF e] by (intro now_rows_return) simp_all
    then show ?thesis
      using running by (auto simp: decode_now_def next_inputs_return dec Inr e step(1) [simplified])
  qed
qed

lemma decode_pipelined_returns:
  assumes "answers_rows dc" "calm k n st" "spare k n"
  shows "returns_calm k (Suc n) (decode_pipelined dc tn st)"
proof -
  have running: "\<forall>s\<in>set (en_running st). es_context s \<noteq> []" using assms(2) by (simp add: calm_def)
  obtain rows where rows: "opt_map (step_row dc (en_queued st)) (en_running st) = Some rows"
    using step_rows_return [OF running] by blast
  obtain res d where q: "dc_queue dc (en_decoder st) rows (en_queued st) = (res, d)"
    by (cases "dc_queue dc (en_decoder st) rows (en_queued st)")
  let ?st = "st\<lparr>en_decoder := d, en_queued := case res of Inl _ \<Rightarrow> None | Inr step \<Rightarrow> Some step\<rparr>"
  have calm': "calm k n ?st" using assms(2) by simp
  let ?next = "case en_queued st of Some step \<Rightarrow> settle dc tn ?st step
     | None \<Rightarrow> if en_queued ?st = None then preempt dc ?st else Some ?st"
  have on: "returns_calm k (Suc n) (do { st \<leftarrow> ?next; Some (release_retired dc st) })"
  proof (cases "en_queued st")
    case None
    then show ?thesis using preempt_returns [OF calm' assms(3), of dc] calm_Suc [OF calm'] by (auto simp: returns_calm_def)
  next
    case (Some step)
    then show ?thesis using settle_returns [OF assms(1) calm' assms(3), of tn step] by (auto simp: returns_calm_def)
  qed
  show ?thesis
  proof (cases "\<exists>e. res = Inl (Decode_failed e)")
    case True
    then show ?thesis
      using assms(2) running rows q
      by (auto simp: decode_pipelined_def Let_def release_retired_running intro!: calm_Suc calm_rows split: option.splits)
  next
    case False
    then consider "res = Inl Out_of_blocks" | step where "res = Inr step" by (cases res; metis decode_error.exhaust)
    then show ?thesis
    proof cases
      case 1
      then show ?thesis using on rows q by (cases "en_queued st") (simp_all add: decode_pipelined_def Let_def)
    next
      case 2
      then show ?thesis using on rows q by (cases "en_queued st") (simp_all add: decode_pipelined_def Let_def)
    qed
  qed
qed

lemma decode_step_returns:
  assumes "answers_rows dc" "calm k n st" "spare k n"
  shows "returns_calm k (Suc n) (decode_step dc tn st)"
proof -
  let ?st = "sweep_running dc (en_running st) (st\<lparr>en_running := []\<rparr>)"
  have calm1: "calm k n ?st" using assms(2) by (intro calm_rows) (simp_all add: calm_def)
  have settled: "returns_calm k (Suc n) (map_option (release_retired dc) (settle dc tn (?st\<lparr>en_queued := None\<rparr>) step))" for step
    using settle_returns [OF assms(1), of k n "?st\<lparr>en_queued := None\<rparr>" tn step] calm1 assms(3) by (auto simp: returns_calm_def)
  show ?thesis
    using calm1 settled decode_pipelined_returns [OF assms(1) calm1 assms(3)] decode_now_returns [OF assms(1) calm1 assms(3)]
    by (auto simp: decode_step_def Let_def calm_Suc split: option.splits)
qed

section \<open>An iteration\<close>

lemma calm_sweep_waiting: "sweep_waiting ws st = (kept, st') \<Longrightarrow> calm k n st' = calm k n st"
  by (induction ws arbitrary: st kept) (auto simp: calm_fate split: prod.splits fate.splits)


lemma engine_step_calm:
  assumes rows: "answers_rows dc" and sure: "sure dc kv pub k n st" and spare: "spare k (n + 2)"
  shows "returns_calm k (n + 3) (engine_step dc tn fl st)"
proof -
  have spares: "spare k n" "spare k (Suc n)" "spare k (Suc (Suc n))" using spare by (auto simp: spare_def)
  obtain waiting st1 where w: "sweep_waiting (en_waiting st) st = (waiting, st1)" by (cases "sweep_waiting (en_waiting st) st")
  let ?st2 = "sweep_prefilling dc (st1\<lparr>en_waiting := waiting\<rparr>)"
  have calm2: "calm k n ?st2"
    using calm_sweep_waiting [OF w, of k n] sureD(1) [OF sure]
    by (auto simp: sweep_prefilling_def calm_fate split: option.splits prod.splits fate.splits)
  have to2: "micros dc tn (st, [], None) (?st2, [], None)"
    using micros_trans [OF micros_waiting [OF w, of dc tn "[]", simplified] micros_prefilling] by simp
  obtain st3 where drain: "(if en_running ?st2 = [] \<and> en_queued ?st2 \<noteq> None then decode_step dc tn ?st2 else Some ?st2) = Some st3"
      and calm3: "calm k (Suc n) st3"
    using decode_step_returns [OF rows calm2 spares(1), of tn] calm_Suc [OF calm2]
    by (cases "en_running ?st2 = [] \<and> en_queued ?st2 \<noteq> None") (auto simp: returns_calm_def)
  have "micros dc tn (?st2, [], None) (st3, [], None)" using drain micros_decode_step by (auto split: if_splits)
  then have sure3: "sure dc kv pub k (Suc n) st3" by (intro sure_next [OF sure micros_trans [OF to2] calm3])
  obtain ms st4 where admit: "admit dc tn fl st3 = Some (ms, st4)" and calm4: "calm k (Suc (Suc n)) st4"
    using admit_loop_returns [OF rows sure3 spares(2)] unfolding admit_def by fastforce
  obtain st5 where decode: "decode_step dc tn st4 = Some st5" and calm5: "calm k (n + 3) st5"
    using decode_step_returns [OF rows calm4 spares(3), of tn] by (auto simp: returns_calm_def numeral_3_eq_3)
  obtain ims st6 where e: "elapsed st5 = (ims, st6)" by (cases "elapsed st5")
  show ?thesis using w drain admit decode calm5 calm_elapsed [OF e] by (auto simp: engine_step_def Let_def e)
qed

text \<open>A run keeps its running sequences non-empty.\<close>

definition lasting :: "('d, 'q, 't, 'm, 'o, 'l) config \<Rightarrow> bool" where
  "lasting c \<longleftrightarrow> (case c of (st, hand, prev) \<Rightarrow>
     (\<forall>s\<in>set (en_running st). es_context s \<noteq> []) \<and> (\<forall>(s, it)\<in>set hand. it = Keep \<longrightarrow> es_context s \<noteq> []))"

lemma read_back_keep: "read_back rows res x = (s, Keep) \<Longrightarrow> x = (s, Keep)"
  by (auto simp: read_back_def split: prod.splits option.splits sum.splits if_splits)

lemma hand_over_keep: "(s, Keep) \<notin> set (hand_over decoded running)"
  by (auto simp: hand_over_def dest: set_zip_rightD split: batch_decoded.splits)

lemma micro_lasting: "micro dc tn c c' \<Longrightarrow> lasting c \<Longrightarrow> lasting c'"
proof (induction rule: micro.induct)
  case (m_finish st step res d hand)
  then show ?case by (fastforce simp: lasting_def dest: read_back_keep)
next
  case (m_decode st rows res d)
  then show ?case by (cases res) (auto simp: lasting_def hand_over_keep split: decode_error.splits)
next
  case (m_queue st rows res d)
  then show ?case by (cases res) (auto simp: lasting_def split: decode_error.splits)
qed (auto simp: lasting_def tell_def said_def requeue_Some resumed_context split: option.splits sum.splits)

lemma micros_lasting: "micros dc tn c c' \<Longrightarrow> lasting c \<Longrightarrow> lasting c'"
  by (induction rule: rtranclp_induct) (auto intro: micro_lasting)

lemma reach_lasting:
  fixes dc :: "('d, 'q, 'l, 'm) text_decoder"
  assumes "engine_reach dc tn fl st0 subs st" "lasting (st0, [] :: (_ \<times> 'l item) list, None)"
  shows "lasting (st, [] :: (_ \<times> 'l item) list, None)"
  using assms(1)
proof induction
  case run_start
  show ?case by (rule assms(2))
next
  case (run_accept subs st sb st')
  then show ?case by (auto simp: engine_accept_Some lasting_def)
next
  case (run_step subs st st')
  then show ?case using micros_lasting [OF micros_engine_step [OF run_step.hyps(2)]] by blast
qed

lemma micro_limits: "micro dc tn c c' \<Longrightarrow> en_limits (fst c') = en_limits (fst c)"
  by (induction rule: micro.induct)
    (auto simp: tell_def said_def requeue_Some split: option.splits sum.splits decode_error.splits)

lemma micros_limits: "micros dc tn c c' \<Longrightarrow> en_limits (fst c') = en_limits (fst c)"
  by (induction rule: rtranclp_induct) (simp_all add: micro_limits)

lemma reach_limits: "engine_reach dc tn fl st0 subs st \<Longrightarrow> en_limits st = en_limits st0"
proof (induction rule: engine_reach.induct)
  case (run_step subs st st')
  then show ?case using micros_limits [OF micros_engine_step [OF run_step.hyps(2)]] by simp
qed (auto simp: engine_accept_Some)

text \<open>A run counts no more of a prompt than its decoder holds.\<close>

lemma reach_counted:
  fixes dc :: "('d, 'q, 'l, 'm) text_decoder"
  assumes "engine_reach dc tn fl st0 subs st" "names_rows dc" "counts_fit dc limits kv pub" "ids_ok dc (st0, [], None)"
    and "parts_counted kv pub (st0, [] :: (_ \<times> 'l item) list, None)"
  shows "parts_counted kv pub (st, [] :: (_ \<times> 'l item) list, None)"
  using assms(1)
proof induction
  case run_start
  show ?case by (rule assms(5))
next
  case (run_accept subs st sb st')
  then show ?case by (auto simp: engine_accept_Some parts_counted_def)
next
  case (run_step subs st st')
  then show ?case
    using micros_counted [OF micros_engine_step [OF run_step.hyps(2)] assms(3,2) reach_ids [OF run_step.hyps(1) assms(2,4)]] by blast
qed

lemma reached_returns:
  fixes dc :: "('d, 'q, 'l, 'm) text_decoder"
  assumes "answers_rows dc" "names_rows dc" "counts_fit dc limits kv pub"
    and reach: "engine_reach dc tn fl (engine_new d limits zero answers readings) subs st"
    and "en_next_id st + 3 \<le> u64_max" "en_steps st + 3 \<le> u64_max"
  shows "\<exists>st'. engine_step dc tn fl st = Some st' \<and> en_next_id st' \<le> en_next_id st + 3"
proof -
  let ?st0 = "engine_new d limits zero answers readings" and ?k = "(limits, en_next_id st, en_steps st)"
  have "lasting (st, [] :: (_ \<times> 'l item) list, None)"
    by (rule reach_lasting [OF reach]) (simp add: lasting_def engine_new_def)
  then have "calm ?k 0 st" using reach_limits [OF reach] by (auto simp: calm_def lasting_def engine_new_def)
  moreover have "parts_counted kv pub (st, [] :: (_ \<times> 'l item) list, None)"
    by (rule reach_counted [OF reach assms(2,3) new_ids]) (simp add: parts_counted_def engine_new_def)
  ultimately have "sure dc kv pub ?k 0 st"
    using assms(2,3) reach_ids [OF reach assms(2) new_ids] by (simp add: sure_def)
  then have "returns_calm ?k (0 + 3) (engine_step dc tn fl st)"
    by (rule engine_step_calm [OF assms(1)]) (use assms(5,6) in \<open>simp add: spare_def\<close>)
  then show ?thesis by (auto simp: returns_calm_def calm_def)
qed

end
