(* ===== verification/EngineTheorems.thy ===== *)
theory EngineTheorems
  imports EngineDemo EngineTotal
begin

text \<open>
  The batching engine's theorems, from the states a run reaches, with instances on the run of
  \<open>EngineDemo\<close>.
\<close>

section \<open>Serial turns end\<close>

definition is_end :: "('o, 'm) event \<Rightarrow> bool" where
  "is_end ev = (case ev of Done output reason tms \<Rightarrow> True | Failed e \<Rightarrow> True | _ \<Rightarrow> False)"

definition turn_room :: "('s, 'c, 'm, 'r) turn_loop \<Rightarrow> nat" where
  "turn_room t = max 1 (tl_max_tokens t - length (tl_generated t))"

lemma turn_loop_pick: "tn_pick (turn_loop_ops te) = turn_pick te"
  by (simp add: turn_loop_ops_def)

lemma turn_pick_room:
  assumes "turn_pick te t logits = (Inr a, t')" "ac_step a = Continue"
  shows "turn_room t = Suc (turn_room t')"
proof -
  obtain picker token complete receipt where u: "turn_accept te (t\<lparr>tl_picker := picker\<rparr>) token complete receipt = (Inr a, t')"
    using assms(1) by (auto simp: turn_pick_def Let_def split: prod.splits sum.splits)
  then show ?thesis using turn_accept_token [OF u] turn_accept_frame [OF u] assms(2) by (auto simp: turn_room_def)
qed

lemma serial_events_end:
  assumes "turn_room t \<le> n"
  shows "(serial_events (turn_loop_ops te) L n t ctx :: (_, 'e) event list) = (serial_events (turn_loop_ops te) L (turn_room t) t ctx :: (_, 'e) event list) \<and>
    (\<exists>as e. (serial_events (turn_loop_ops te) L n t ctx :: (_, 'e) event list) = map Token as @ [e] \<and> is_end e \<and> length as \<le> turn_room t)"
  using assms
proof (induction n arbitrary: t ctx)
  case 0
  then show ?case by (simp add: turn_room_def)
next
  case (Suc n)
  obtain m where m: "turn_room t = Suc m" by (cases "turn_room t") (simp_all add: turn_room_def)
  obtain res t' where pick: "turn_pick te t (L ctx) = (res, t')" by (cases "turn_pick te t (L ctx)")
  show ?case
  proof (cases res)
    case (Inl e)
    then have same: "(serial_events (turn_loop_ops te) L (Suc k) t ctx :: (_, 'e) event list) = map Token [] @ [Failed (Message e)]" for k
      using pick by (simp add: serial_events.simps(2) turn_loop_pick)
    show ?thesis
      unfolding m same by (intro conjI refl exI [of _ "[]"] exI [of _ "Failed (Message e)"]) (simp_all add: is_end_def)
  next
    case (Inr a)
    then have step: "(serial_events (turn_loop_ops te) L (Suc k) t ctx :: (_, 'e) event list) =
        Token a # (case ac_step a of
                     Continue \<Rightarrow> serial_events (turn_loop_ops te) L k t' (ctx @ [ac_token a])
                   | Stop reason \<Rightarrow> [end_event (turn_loop_ops te) t' reason []])" for k
      using pick by (simp add: serial_step turn_loop_pick)
    show ?thesis
    proof (cases "ac_step a")
      case Continue
      have room: "turn_room t' = m" using turn_pick_room [OF pick [unfolded Inr] Continue] m by simp
      then have "turn_room t' \<le> n" using Suc.prems m by simp
      note IH = Suc.IH [OF this, of "ctx @ [ac_token a]", unfolded room]
      then obtain as e where "(serial_events (turn_loop_ops te) L n t' (ctx @ [ac_token a]) :: (_, 'e) event list) = map Token as @ [e]"
          "is_end e" "length as \<le> m" by blast
      then have "(serial_events (turn_loop_ops te) L (Suc n) t ctx :: (_, 'e) event list) = map Token (a # as) @ [e] \<and> is_end e \<and>
          length (a # as) \<le> Suc m"
        by (simp add: step Continue)
      moreover have "(serial_events (turn_loop_ops te) L (Suc n) t ctx :: (_, 'e) event list) = serial_events (turn_loop_ops te) L (Suc m) t ctx"
        using IH by (simp add: step Continue)
      ultimately show ?thesis unfolding m by blast
    next
      case (Stop reason)
      have same: "(serial_events (turn_loop_ops te) L (Suc k) t ctx :: (_, 'e) event list) = map Token [a] @ [end_event (turn_loop_ops te) t' reason []]" for k
        by (simp add: step Stop)
      show ?thesis
        unfolding m same
        by (intro conjI refl exI [of _ "[a]"] exI [of _ "end_event (turn_loop_ops te) t' reason []"])
          (simp_all add: is_end_def end_event_def split: sum.splits)
    qed
  qed
qed

section \<open>The properties\<close>

text \<open>The small decoder takes prompts of at most 64 tokens, each under an ID it does not hold.\<close>

lemma demo_counts_fit: "counts_fit demo_decoder \<lparr>el_max_num_seqs = 2, el_prefill_chunk_tokens = 16, el_prefill_target_ms = 10, el_pool_bytes = None\<rparr>
    (\<lambda>d i. if map_of d i = None then 0 else 64) (\<lambda>d i. 0)"
proof -
  have "keeps_count (\<lambda>d i. if map_of d i = None then 0 else 64) (\<lambda>d i. 0) d (demo_append d rows) (fst ` set rows)" for d rows
    unfolding keeps_count_def using demo_append_out by simp
  moreover have "fst ` set (map (\<lambda>(i, inp). (i, f i inp)) rows) = fst ` set rows" for f :: "nat \<Rightarrow> step_input \<Rightarrow> token" and rows
    by force
  ultimately show ?thesis
    by (simp add: counts_fit_def demo_decoder_def usize_max_def Let_def) (auto simp: keeps_count_def demo_free_map)
qed

lemma demo_answers_rows: "answers_rows demo_decoder"
  by (auto simp: answers_rows_def) (simp add: demo_decoder_def)

lemma new_retired_ok: "retired_ok dc (engine_new d limits zero answers readings)"
  by (simp add: retired_ok_def engine_new_def)

lemma new_trace_ok: "trace_ok dc (engine_new \<lparr>tr_decoder = d, tr_log = []\<rparr> limits zero answers readings, [], None)"
  by (simp add: trace_ok_def engine_new_def replay_def prefilling_list_def)

lemma new_synced: "(\<And>i. content d i = None) \<Longrightarrow> synced dc tn L G content picks (engine_new d limits zero answers readings, [], None)"
  by (simp add: engine_new_def prefilling_list_def)

text \<open>C2: Batching changes nothing a client can see. For a decoder that computes, for every row, the
  logits of that sequence's tokens alone (exactly; the kernels do so up to rounding) and whose
  device picks are the greedy tokens, take any run of the engine: submissions and iterations in
  any order, prompts prefilled in chunks, rows pipelined on the device, sequences preempted and
  recomputed when the pool is full, clients leaving at any moment. The events of each writer are
  those of its turn decoding alone from its prompt, each token once and in order, possibly cut
  short, or one failure.
\<close>

theorem batched_turns_are_serial:
  assumes "faithful dc L G content picks" "\<And>ctx. greedy_token (te_f32 te) (L ctx) = Inr (G ctx)" "\<And>i. content d i = None"
    and "engine_reach dc (turn_loop_ops te) fl (engine_new d limits zero answers readings) subs st" "(w, sb) \<in> set subs"
  shows "as_serial (turn_loop_ops te) L sb (events_of w (en_sent st))"
proof -
  have "logs_ok (serial_choice (turn_loop_ops te) L) (turn_loop_ops te) subs (st, [], None)"
    using chat_turns.reach_serial [OF assms(4,1,2) new_ids new_synced [where content = content] new_logs] assms(3) by blast
  then show ?thesis using finished_as_serial [OF logs_finished [OF _ assms(5)]] by fastforce
qed

theorem batched_turns_are_serial_witness:
  "as_serial demo_ops demo_logits (demo_submission [5, 6, 7, 8] 3) (events_of 1 (en_sent demo_fourth)) \<and>
   events_of 1 (en_sent demo_fourth) =
     [Prefilled 0 0 0, demo_token 1 Continue, demo_token 2 Continue, demo_token 0 (Stop Length_limit),
      Done (demo_output [1, 2, 0]) Length_limit [2, 4]]"
proof
  show "as_serial demo_ops demo_logits (demo_submission [5, 6, 7, 8] 3) (events_of 1 (en_sent demo_fourth))"
    by (rule batched_turns_are_serial [OF demo_faithful demo_greedy _ demo_batch_reach [unfolded demo_start_def]]) simp_all
qed (simp add: events_of_def demo_fourth_def demo_third_def demo_second_def demo_first_def)

text \<open>C4: The engine keeps its side of the \<open>TextDecoder\<close> contract, in every run and for every decoder
  that names its rows: only prefilled sequences are decoded, each at most once in a step; a
  sequence is freed or prefilled only when no unread step refers to it; queued steps are read back
  once each and in order; a synchronous step runs with nothing queued. Every sequence that may
  hold blocks is still owned, and an idle engine holds none.
\<close>

theorem engine_keeps_decoder_contract:
  assumes "names_rows dc"
    and "engine_reach (traced dc) tn fl (engine_new \<lparr>tr_decoder = d, tr_log = []\<rparr> limits zero answers readings) subs st"
  shows "\<exists>live. replay (tr_log (en_decoder st)) =
       (case en_queued st of None \<Rightarrow> [] | Some step \<Rightarrow> [dc_queued_rows dc step], live, True) \<and>
     set live \<subseteq> holders (st, [], None) \<and>
     (en_prefilling st = None \<and> en_running st = [] \<and> en_queued st = None \<longrightarrow> live = [])"
proof -
  have "trace_ok dc (st, [], None)" using reach_trace [OF assms(2,1) new_ids new_trace_ok] by blast
  then obtain live where "replay (tr_log (en_decoder st)) = (map (dc_queued_rows dc) (unread (st, [], None)), live, True)"
      "set live \<subseteq> holders (st, [], None)"
    unfolding trace_ok_def by auto
  moreover have "retired_ok (traced dc) st" by (rule reach_retired_ok [OF assms(2) new_retired_ok])
  ultimately show ?thesis
    by (intro exI [of _ live]) (auto simp: retired_ok_def queued_rows_def split: option.splits)
qed

theorem engine_keeps_decoder_contract_witness:
  "\<exists>live. replay (tr_log (en_decoder demo_traced_second)) = ([[1, 2]], live, True) \<and> set live \<subseteq> {1, 2} \<and>
     tr_log (en_decoder demo_traced_second) = [C_prefill 1, C_prefill 2, C_queue [1, 2]]"
  using engine_keeps_decoder_contract [OF demo_names_rows demo_traced_reach [unfolded demo_traced_start_def]]
  by (auto simp: demo_traced_second_def prefilling_list_def demo_traced_start_def engine_new_def demo_decoder_fields)

text \<open>C6: Every writer hears a well-formed turn, whatever the decoder and the turn rules do: nothing, or
  one failure, or the announcement of its prompt once, then tokens, the closing event only after
  the token that stops the turn and for that reason, a failure at most once, nothing after it.
\<close>

theorem writers_hear_a_well_formed_turn:
  assumes "engine_reach dc tn fl (engine_new d limits zero answers readings) subs st" "(w, sb) \<in> set subs"
  shows "well_told (events_of w (en_sent st))"
  using finished_told [OF logs_finished [OF reach_logs [OF assms(1) new_logs] assms(2)]] by simp

theorem writers_hear_a_well_formed_turn_witness: "well_told (events_of 2 (en_sent demo_fourth))"
  by (rule writers_hear_a_well_formed_turn [OF demo_batch_reach [unfolded demo_start_def], of _ "demo_submission [7, 8] 3"]) simp

text \<open>C38: The batch is bounded and its sequences are told apart: the prompt being prefilled and the
  running sequences are never more than the configured number, and no two sequences the engine
  knows, waiting, prefilling, running or retired with a row still on the device, share an ID.
\<close>

theorem engine_batch_is_bounded:
  assumes "names_rows dc" "engine_reach dc tn fl (engine_new d limits zero answers readings) subs st"
  shows "(case en_prefilling st of None \<Rightarrow> 0 | Some p \<Rightarrow> 1) + length (en_running st) \<le> el_max_num_seqs (en_limits st) \<and>
    distinct (map es_id (en_waiting st @ (case en_prefilling st of None \<Rightarrow> [] | Some p \<Rightarrow> [pf_sequence p]) @ en_running st) @
      map fst (en_retired st))"
proof -
  have "ids_ok dc (st, [], None)" using reach_ids [OF assms(2,1) new_ids] .
  then show ?thesis unfolding ids_ok_def by (auto simp: prefilling_list_def split: option.splits)
qed

theorem engine_batch_is_bounded_witness:
  "length (en_running demo_fourth) \<le> 2 \<and> distinct (map fst (en_retired demo_fourth)) \<and> en_retired demo_fourth \<noteq> []"
  using engine_batch_is_bounded [OF demo_names_rows demo_batch_reach [unfolded demo_start_def]]
  by (simp add: demo_fourth_def demo_third_def demo_second_def demo_first_def demo_start_def engine_new_def)

text \<open>C7: The engine does not panic: an iteration from any reachable state ends and returns a state, every
  addition checked, as long as three numbers are left of each of the 64-bit counters of sequence IDs and of steps. The
  decoder is one that answers one row per sequence, has blocks of at least one token, names the rows of a queued step
  as it was given them, costs no prompt at so many blocks that the size of the batch cannot be added, and
  counts in chunks only tokens that it holds, of which there are at most \<open>usize::MAX\<close> per sequence
  (\<open>kv\<close> and \<open>pub\<close>, the tokens it holds and has published).
\<close>

theorem engine_step_returns:
  assumes "answers_rows dc" "names_rows dc" "counts_fit dc limits kv pub"
    and "engine_reach dc tn fl (engine_new d limits zero answers readings) subs st"
    and "en_next_id st + 3 \<le> u64_max" "en_steps st + 3 \<le> u64_max"
  shows "\<exists>st'. engine_step dc tn fl st = Some st' \<and> en_next_id st' \<le> en_next_id st + 3"
  by (rule reached_returns [OF assms])

theorem engine_step_returns_witness: "engine_step demo_decoder demo_ops demo_f64 demo_fourth \<noteq> None"
  using engine_step_returns [OF demo_answers_rows demo_names_rows demo_counts_fit demo_batch_reach [unfolded demo_start_def]]
  by (simp add: demo_fourth_def demo_third_def demo_second_def demo_first_def demo_start_def engine_new_def u64_max_def) force

text \<open>C39: A turn ends. From any state of a turn, whatever the model's logits are, decoding stops within the
  tokens its output limit leaves, and at least after one: the events close with \<open>Done\<close> or a
  failure, and allowing more tokens changes nothing.
\<close>

theorem turn_stops_within_budget:
  assumes "max 1 (tl_max_tokens t - length (tl_generated t)) \<le> n"
  shows "(serial_events (turn_loop_ops te) L n t ctx :: (_, 'e) event list) =
       (serial_events (turn_loop_ops te) L (max 1 (tl_max_tokens t - length (tl_generated t))) t ctx :: (_, 'e) event list) \<and>
     (\<exists>as e. (serial_events (turn_loop_ops te) L n t ctx :: (_, 'e) event list) = map Token as @ [e] \<and> is_end e \<and>
        length as \<le> max 1 (tl_max_tokens t - length (tl_generated t)))"
  using serial_events_end [of t n te L ctx] assms unfolding turn_room_def by blast

theorem turn_stops_within_budget_witness:
  "(serial_events demo_ops demo_logits 40 (demo_turn 3) [7, 8] :: (_, nat) event list) = serial_events demo_ops demo_logits 3 (demo_turn 3) [7, 8]"
proof -
  have "max 1 (tl_max_tokens (demo_turn 3) - length (tl_generated (demo_turn 3))) = 3"
    by (simp add: demo_turn_def turn_loop_new_def)
  note stops = turn_stops_within_budget [of "demo_turn 3" 40 demo_te demo_logits "[7, 8]", unfolded this]
  show ?thesis by (rule conjunct1 [OF stops]) simp
qed

end
