(* ===== verification/PagedSession.thy ===== *)
theory PagedSession
  imports BlockManager Engine
begin

text \<open>
  The paged Qwen3 session (\<open>crates/models/qwen/src/forward/paged.rs\<close>): a decoder whose sequences share
  one pool of K/V slots on the device, addressed through the block tables of the manager. The
  host side is modelled as it is: input checks, admissions, the plans of slots written and gathered, copies on
  write, commits, the release of sequences after a failed forward, batched and queued steps.

  The device is a memory with one cell per slot, the K/V of one position over all layers, and the
  network a parameter: the rows of new tokens from the cells before them, and the logits of the
  last token from all cells read, by kernels of their own for one sequence and for a batch. Each device call may fail, as a stream in the state decides; the
  cells a failed call was writing then hold arbitrary values. An outer \<open>None\<close> is a panic.
\<close>

section \<open>Errors and configuration\<close>

datatype forward_error =
    Empty_input
  | Invalid_token_id token nat
  | Prompt_too_long nat nat
  | Shape_overflow
  | Cached_bidirectional
  | Decode_without_prefill
  | Cache_inconsistent
  | Kv_blocks block_error
  | Kv_pool_config block_config_error
  | Repeated_batch_sequence nat
  | Non_finite_logits
  | Mlx_failed

record qwen_config =
  qc_vocab_size :: nat
  qc_max_positions :: nat
  qc_causal :: bool
  qc_kv_heads :: nat
  qc_head_dim :: nat

text \<open>
  What the network computes: \<open>'k\<close> is the K/V of a position, \<open>'l\<close> a row of logits. Attention is causal:
  the K/V of a token comes from the cells before it and the tokens up to it. The kernels depend on the
  shape of the call, and so does the rounding of what they return: a forward of one sequence has
  \<open>n\<close> new tokens, a batched step some number of rows and a longest row.
\<close>

record ('k, 'l) qwen_net =
  qn_zero :: 'k
  qn_row :: "nat \<Rightarrow> 'k list \<Rightarrow> token list \<Rightarrow> 'k"
  qn_logits :: "'k list \<Rightarrow> token list \<Rightarrow> 'l"
  qn_batch_row :: "nat \<times> nat \<Rightarrow> 'k list \<Rightarrow> token \<Rightarrow> 'k"
  qn_batch_logits :: "nat \<times> nat \<Rightarrow> 'k list \<Rightarrow> token \<Rightarrow> 'l"
  qn_finite :: "'l \<Rightarrow> bool"
  qn_pick :: "'l \<Rightarrow> token"

definition as_i32 :: "nat \<Rightarrow> forward_error + nat" where
  "as_i32 n = (if n < 2 ^ 31 then Inr n else Inl Shape_overflow)"

definition validate_input_ids :: "qwen_config \<Rightarrow> token list \<Rightarrow> nat \<Rightarrow> nat \<Rightarrow> forward_error + unit" where
  "validate_input_ids config input_ids existing maximum =
     (if input_ids = [] then Inl Empty_input
      else if existing + length input_ids > usize_max then Inl Shape_overflow
      else if existing + length input_ids > maximum then Inl (Prompt_too_long (existing + length input_ids) maximum)
      else case find (\<lambda>i. sint i < 0 \<or> unat i \<ge> qc_vocab_size config) input_ids of
             Some i \<Rightarrow> Inl (Invalid_token_id i (qc_vocab_size config))
           | None \<Rightarrow> Inr ())"

section \<open>The session\<close>

record 'k paged_session =
  pg_config :: qwen_config
  pg_blocks :: manager
  pg_cells :: "nat \<Rightarrow> 'k"
  pg_faults :: "nat \<Rightarrow> (nat \<Rightarrow> 'k) option"
  pg_calls :: nat

text \<open>A queued step: the slots its graph writes, the logits it will compute, its rows and their lengths.\<close>

record ('k, 'l) queued_decode =
  qd_logits :: "'l list"
  qd_rows :: "seq_id list"
  qd_lengths :: "nat list"
  qd_slots :: "nat list"

record 'l paged_prefill =
  pp_logits :: 'l
  pp_cached_tokens :: nat
  pp_cache_write_tokens :: nat

type_synonym ('k, 'a) session_result = "((forward_error + 'a) \<times> 'k paged_session) option"

text \<open>The \<open>?\<close> of a call that may change the session.\<close>

definition on_ok :: "('k, 'a) session_result \<Rightarrow> ('a \<Rightarrow> 'k paged_session \<Rightarrow> ('k, 'b) session_result) \<Rightarrow> ('k, 'b) session_result" where
  "on_ok r f =
     (case r of
        None \<Rightarrow> None
      | Some (Inl e, d) \<Rightarrow> Some (Inl e, d)
      | Some (Inr a, d) \<Rightarrow> f a d)"

text \<open>The \<open>?\<close> of a value, and a call of the block manager.\<close>

definition on_value :: "(forward_error + 'a) \<Rightarrow> 'k paged_session \<Rightarrow> ('a \<Rightarrow> ('k, 'b) session_result) \<Rightarrow> ('k, 'b) session_result" where
  "on_value r d f = (case r of Inl e \<Rightarrow> Some (Inl e, d) | Inr a \<Rightarrow> f a)"

definition kv_error :: "(block_error + 'a) \<Rightarrow> forward_error + 'a" where
  "kv_error r = map_sum Kv_blocks id r"

definition with_blocks :: "'k paged_session \<Rightarrow> 'a outcome \<Rightarrow> ('k, 'a) session_result" where
  "with_blocks d r = map_option (\<lambda>(res, m). (kv_error res, d\<lparr>pg_blocks := m\<rparr>)) r"

text \<open>Whether the device completes its next call; if not, what it leaves in the cells it was writing.\<close>

definition device_call :: "'k paged_session \<Rightarrow> (nat \<Rightarrow> 'k) option \<times> 'k paged_session" where
  "device_call d = (pg_faults d (pg_calls d), d\<lparr>pg_calls := Suc (pg_calls d)\<rparr>)"

definition pool_shape :: "pool_config \<Rightarrow> nat \<Rightarrow> nat \<Rightarrow> forward_error + nat \<times> nat \<times> nat" where
  "pool_shape pool key_value_heads head_dim =
     and_then (as_i32 (num_blocks pool * pc_block_tokens pool)) (\<lambda>slots.
     and_then (as_i32 key_value_heads) (\<lambda>heads.
     and_then (as_i32 head_dim) (\<lambda>dim. Inr (slots, heads, dim))))"

text \<open>\<open>pool_for_budget\<close>; the bytes of one token's K/V come from the configuration.\<close>

definition pool_for_budget :: "qwen_config \<Rightarrow> nat \<Rightarrow> nat \<Rightarrow> nat \<Rightarrow> forward_error + pool_config" where
  "pool_for_budget config per_token budget_bytes block_tokens =
     and_then (map_sum Kv_pool_config id (from_budget budget_bytes per_token block_tokens)) (\<lambda>pool.
     and_then (pool_shape pool (qc_kv_heads config) (qc_head_dim config)) (\<lambda>_. Inr pool))"

text \<open>\<open>new\<close>; zeroing the pool is the first device call.\<close>

definition session_new ::
  "('k, 'l) qwen_net \<Rightarrow> qwen_config \<Rightarrow> pool_id \<Rightarrow> pool_config \<Rightarrow> (nat \<Rightarrow> (nat \<Rightarrow> 'k) option) \<Rightarrow>
   (forward_error + 'k paged_session) option" where
  "session_new net config owner pool faults =
     (if \<not> qc_causal config then Some (Inl Cached_bidirectional)
      else do {
        m \<leftarrow> manager_new owner pool;
        Some (and_then (pool_shape pool (qc_kv_heads config) (qc_head_dim config)) (\<lambda>_.
          if faults 0 \<noteq> None then Inl Mlx_failed
          else Inr \<lparr>pg_config = config, pg_blocks = m, pg_cells = (\<lambda>_. qn_zero net), pg_faults = faults, pg_calls = 1\<rparr>)) })"

section \<open>Slots, plans, copies\<close>

definition pool_slot :: "nat \<Rightarrow> slot \<Rightarrow> forward_error + nat" where
  "pool_slot block_tokens sl = as_i32 (slot_flat block_tokens sl)"

text \<open>\<open>collect\<close> of results: the values, or the first error.\<close>

fun collect_sum :: "('e + 'a) list \<Rightarrow> 'e + 'a list" where
  "collect_sum [] = Inr []"
| "collect_sum (Inl e # rest) = Inl e"
| "collect_sum (Inr a # rest) = map_sum id (Cons a) (collect_sum rest)"

definition block_width :: "'k paged_session \<Rightarrow> nat" where
  "block_width d = pc_block_tokens (m_config (pg_blocks d))"

text \<open>The pool slots of a span of a sequence.\<close>

definition span_slots :: "'k paged_session \<Rightarrow> seq_id \<Rightarrow> token_span \<Rightarrow> (forward_error + nat list) option" where
  "span_slots d seq span =
     map_option (\<lambda>r. and_then (kv_error r) (\<lambda>sls. collect_sum (map (pool_slot (block_width d)) sls)))
       (slots (pg_blocks d) seq span)"

text \<open>
  \<open>GatherPlan::new\<close>: a token-major matrix of slots with one column per row; rows shorter than the
  longest repeat their first slot.
\<close>

fun gather_columns :: "'k paged_session \<Rightarrow> (seq_id \<times> nat) list \<Rightarrow> (forward_error + nat list list) option" where
  "gather_columns d [] = Some (Inr [])"
| "gather_columns d ((seq, len) # rest) = do {
     column \<leftarrow> span_slots d seq (span_prefix len);
     case column of
       Inl e \<Rightarrow> Some (Inl e)
     | Inr [] \<Rightarrow> Some (Inl Cache_inconsistent)
     | Inr (slot # more_slots) \<Rightarrow> map_option (map_sum id (Cons (slot # more_slots))) (gather_columns d rest) }"

definition gather_plan :: "'k paged_session \<Rightarrow> (seq_id \<times> nat) list \<Rightarrow> (forward_error + nat list) option" where
  "gather_plan d rows =
     (let longest = Max (set (0 # map snd rows)); n = length rows
      in map_option (\<lambda>r. and_then r (\<lambda>columns.
           and_then (as_i32 longest) (\<lambda>_. and_then (as_i32 n) (\<lambda>_.
             Inr (map (\<lambda>k. let column = columns ! (k mod n); token = k div n
                           in if token < length column then column ! token else hd column)
                    [0..<longest * n])))))
         (gather_columns d rows))"

text \<open>The cells one column of a plan gathers, of which the mask keeps the first \<open>len\<close>.\<close>

definition gathered :: "(nat \<Rightarrow> 'k) \<Rightarrow> nat list \<Rightarrow> nat \<Rightarrow> nat \<Rightarrow> nat \<Rightarrow> 'k list" where
  "gathered cells plan n row len = map (\<lambda>token. cells (plan ! (token * n + row))) [0..<len]"

definition scatter :: "(nat \<Rightarrow> 'k) \<Rightarrow> nat list \<Rightarrow> 'k list \<Rightarrow> nat \<Rightarrow> 'k" where
  "scatter cells sls rows = foldl (\<lambda>cells (i, row). cells(i := row)) cells (zip sls rows)"

text \<open>The cells of a failed call: those it was writing hold anything.\<close>

definition broken :: "(nat \<Rightarrow> 'k) \<Rightarrow> nat set \<Rightarrow> (nat \<Rightarrow> 'k) \<Rightarrow> nat \<Rightarrow> 'k" where
  "broken cells written garbage = (\<lambda>slot. if slot \<in> written then garbage slot else cells slot)"

definition copy_block :: "'k paged_session \<Rightarrow> block_copy \<Rightarrow> ('k, unit) session_result" where
  "copy_block d c =
     (if bc_tokens c = 0 then Some (Inr (), d)
      else
        on_value (pool_slot (block_width d) \<lparr>sl_block = bc_src c, sl_offset = 0\<rparr>) d (\<lambda>src.
        on_value (pool_slot (block_width d) \<lparr>sl_block = bc_dst c, sl_offset = 0\<rparr>) d (\<lambda>dst.
        on_value (as_i32 (bc_tokens c)) d (\<lambda>tokens.
          let written = {dst..<dst + tokens}; cells = pg_cells d
          in case device_call d of
               (Some garbage, d) \<Rightarrow> Some (Inl Mlx_failed, d\<lparr>pg_cells := broken cells written garbage\<rparr>)
             | (None, d) \<Rightarrow>
                 Some (Inr (), d\<lparr>pg_cells := (\<lambda>slot. if slot \<in> written then cells (src + (slot - dst)) else cells slot)\<rparr>)))))"

definition copy_if :: "'k paged_session \<Rightarrow> block_copy option \<Rightarrow> ('k, unit) session_result" where
  "copy_if d c = (case c of None \<Rightarrow> Some (Inr (), d) | Some c \<Rightarrow> copy_block d c)"

section \<open>One sequence\<close>

definition forward ::
  "('k, 'l) qwen_net \<Rightarrow> 'k paged_session \<Rightarrow> seq_id \<Rightarrow> token list \<Rightarrow> token_span \<Rightarrow> block_copy option \<Rightarrow> ('k, 'l) session_result" where
  "forward net d seq input_ids positions copy =
     (if ts_end positions - ts_start positions \<noteq> length input_ids then Some (Inl Cache_inconsistent, d)
      else do {
        new_slots \<leftarrow> span_slots d seq positions;
        plan \<leftarrow> gather_plan d [(seq, ts_end positions)];
        on_value new_slots d (\<lambda>sls.
        on_value (as_i32 (length sls)) d (\<lambda>_.
        on_value plan d (\<lambda>plan.
        on_ok (copy_if d copy) (\<lambda>_ d.
        on_value (as_i32 (length input_ids)) d (\<lambda>_.
        on_value (as_i32 (ts_start positions)) d (\<lambda>start.
          case device_call d of
            (Some garbage, d) \<Rightarrow> Some (Inl Mlx_failed, d\<lparr>pg_cells := broken (pg_cells d) (set sls) garbage\<rparr>)
          | (None, d) \<Rightarrow>
              let before = gathered (pg_cells d) plan 1 0 start;
                  rows = map (\<lambda>k. qn_row net (length input_ids) before (take (Suc k) input_ids)) [0..<length input_ids];
                  cells = scatter (pg_cells d) sls rows
              in Some (Inr (qn_logits net (gathered cells plan 1 0 (ts_end positions)) input_ids), d\<lparr>pg_cells := cells\<rparr>))))))) })"

text \<open>\<open>let _ = self.blocks.free(seq)\<close>: the result does not matter.\<close>

definition free_ignoring :: "'k paged_session \<Rightarrow> seq_id \<Rightarrow> 'k paged_session option" where
  "free_ignoring d seq = map_option (\<lambda>(_, m). d\<lparr>pg_blocks := m\<rparr>) (free (pg_blocks d) seq)"

definition run_forward ::
  "(byte list \<Rightarrow> byte list) \<Rightarrow> ('k, 'l) qwen_net \<Rightarrow> 'k paged_session \<Rightarrow> seq_id \<Rightarrow> token list \<Rightarrow> token_span \<Rightarrow> block_copy option \<Rightarrow>
   ('k, 'l) session_result" where
  "run_forward sha net d seq input_ids positions copy = do {
     (result, d) \<leftarrow> on_ok (forward net d seq input_ids positions copy) (\<lambda>logits d.
                      on_ok (with_blocks d (commit sha (pg_blocks d) seq)) (\<lambda>_ d. Some (Inr logits, d)));
     case result of
       Inr logits \<Rightarrow> Some (Inr logits, d)
     | Inl e \<Rightarrow> map_option (Pair (Inl e)) (free_ignoring d seq) }"

definition session_prefill_cost ::
  "(byte list \<Rightarrow> byte list) \<Rightarrow> 'k paged_session \<Rightarrow> token list \<Rightarrow> hash_keys \<Rightarrow> (forward_error + nat) option" where
  "session_prefill_cost sha d input_ids keys =
     (let hit = lookup_prefix sha (pg_blocks d) input_ids keys
      in do {
        rest \<leftarrow> checked_sub (length input_ids) (h_cached_tokens hit);
        map_option kv_error (admit_cost (pg_blocks d) hit rest) })"

definition prefill_with_keys ::
  "(byte list \<Rightarrow> byte list) \<Rightarrow> ('k, 'l) qwen_net \<Rightarrow> 'k paged_session \<Rightarrow> seq_id \<Rightarrow> token list \<Rightarrow> hash_keys \<Rightarrow>
   ('k, 'l paged_prefill) session_result" where
  "prefill_with_keys sha net d seq input_ids keys =
     on_value (validate_input_ids (pg_config d) input_ids 0 (qc_max_positions (pg_config d))) d (\<lambda>_.
     on_ok (case num_tokens (pg_blocks d) seq of
              Inr _ \<Rightarrow> with_blocks d (free (pg_blocks d) seq)
            | Inl _ \<Rightarrow> Some (Inr (), d)) (\<lambda>_ d.
       let hit = lookup_prefix sha (pg_blocks d) input_ids keys; cached = h_cached_tokens hit
       in if cached > length input_ids then None
          else on_ok (with_blocks d (BlockManager.admit (pg_blocks d) seq hit (drop cached input_ids))) (\<lambda>allocation d.
            let published = p_published_tokens (m_pool (pg_blocks d))
            in on_ok (run_forward sha net d seq (drop cached input_ids) (al_positions allocation) (al_copy allocation)) (\<lambda>logits d. do {
                 written \<leftarrow> checked_sub (p_published_tokens (m_pool (pg_blocks d))) published;
                 Some (Inr \<lparr>pp_logits = logits, pp_cached_tokens = cached, pp_cache_write_tokens = written\<rparr>, d) }))))"

definition prefill_last_logits ::
  "(byte list \<Rightarrow> byte list) \<Rightarrow> ('k, 'l) qwen_net \<Rightarrow> 'k paged_session \<Rightarrow> seq_id \<Rightarrow> token list \<Rightarrow> ('k, 'l) session_result" where
  "prefill_last_logits sha net d seq input_ids =
     on_ok (prefill_with_keys sha net d seq input_ids new_keys) (\<lambda>p d. Some (Inr (pp_logits p), d))"

definition extend_last_logits ::
  "(byte list \<Rightarrow> byte list) \<Rightarrow> ('k, 'l) qwen_net \<Rightarrow> 'k paged_session \<Rightarrow> seq_id \<Rightarrow> token list \<Rightarrow> ('k, 'l) session_result" where
  "extend_last_logits sha net d seq input_ids =
     on_value (kv_error (num_computed (pg_blocks d) seq)) d (\<lambda>cached.
       if cached = 0 then Some (Inl Decode_without_prefill, d)
       else
         on_value (validate_input_ids (pg_config d) input_ids cached (qc_max_positions (pg_config d))) d (\<lambda>_.
         on_ok (with_blocks d (allocate (pg_blocks d) seq input_ids)) (\<lambda>allocation d.
           run_forward sha net d seq input_ids (al_positions allocation) (al_copy allocation))))"

definition decode_last_logits ::
  "(byte list \<Rightarrow> byte list) \<Rightarrow> ('k, 'l) qwen_net \<Rightarrow> 'k paged_session \<Rightarrow> seq_id \<Rightarrow> token \<Rightarrow> ('k, 'l) session_result" where
  "decode_last_logits sha net d seq input_id = extend_last_logits sha net d seq [input_id]"

definition nothing_computed :: "'l paged_chunk" where
  "nothing_computed = \<lparr>pk_computed = 0, pk_cached_tokens = 0, pk_cache_write_tokens = 0, pk_logits = None\<rparr>"

text \<open>The end of \<open>prefill_chunk\<close>: the forward of an allocation that starts at \<open>start\<close>.\<close>

definition chunk_forward ::
  "(byte list \<Rightarrow> byte list) \<Rightarrow> ('k, 'l) qwen_net \<Rightarrow> seq_id \<Rightarrow> token list \<Rightarrow> nat \<Rightarrow> nat \<Rightarrow> allocation \<Rightarrow> 'k paged_session \<Rightarrow>
   ('k, 'l paged_chunk) session_result" where
  "chunk_forward sha net seq input_ids start cached allocation d =
     (let stop = start + (ts_end (al_positions allocation) - ts_start (al_positions allocation));
          published = p_published_tokens (m_pool (pg_blocks d))
      in on_ok (run_forward sha net d seq (take (stop - start) (drop start input_ids)) (al_positions allocation) (al_copy allocation))
           (\<lambda>logits d. do {
              written \<leftarrow> checked_sub (p_published_tokens (m_pool (pg_blocks d))) published;
              Some (Inr \<lparr>pk_computed = stop - start, pk_cached_tokens = cached, pk_cache_write_tokens = written,
                         pk_logits = (if stop = length input_ids then Some logits else None)\<rparr>, d) }))"

definition prefill_chunk ::
  "(byte list \<Rightarrow> byte list) \<Rightarrow> ('k, 'l) qwen_net \<Rightarrow> 'k paged_session \<Rightarrow> seq_id \<Rightarrow> token list \<Rightarrow> hash_keys \<Rightarrow> nat \<Rightarrow>
   ('k, 'l paged_chunk) session_result" where
  "prefill_chunk sha net d seq input_ids keys budget =
     (if budget = 0 then Some (Inl Empty_input, d)
      else
        case num_tokens (pg_blocks d) seq of
          Inr _ \<Rightarrow>
            on_value (kv_error (num_computed (pg_blocks d) seq)) d (\<lambda>done.
              if done \<ge> length input_ids then Some (Inl Cache_inconsistent, d)
              else
                let stop = chunk_end (pg_blocks d) done (length input_ids) budget
                in if stop = done then Some (Inr nothing_computed, d)
                   else
                     let chunk = take (stop - done) (drop done input_ids)
                     in on_value (validate_input_ids (pg_config d) chunk done (qc_max_positions (pg_config d))) d (\<lambda>_.
                        on_ok (with_blocks d (allocate (pg_blocks d) seq chunk)) (\<lambda>allocation d.
                          chunk_forward sha net seq input_ids done 0 allocation d)))
        | Inl _ \<Rightarrow>
            on_value (validate_input_ids (pg_config d) input_ids 0 (qc_max_positions (pg_config d))) d (\<lambda>_.
              let hit = lookup_prefix sha (pg_blocks d) input_ids keys; cached = h_cached_tokens hit;
                  stop = chunk_end (pg_blocks d) cached (length input_ids) budget
              in if stop = cached then Some (Inr nothing_computed, d)
                 else
                   on_ok (with_blocks d (BlockManager.admit (pg_blocks d) seq hit (take (stop - cached) (drop cached input_ids)))) (\<lambda>allocation d.
                     chunk_forward sha net seq input_ids cached cached allocation d)))"

definition session_fork :: "'k paged_session \<Rightarrow> seq_id \<Rightarrow> seq_id \<Rightarrow> ('k, unit) session_result" where
  "session_fork d parent child = with_blocks d (fork (pg_blocks d) parent child)"

definition session_free :: "'k paged_session \<Rightarrow> seq_id \<Rightarrow> ('k, unit) session_result" where
  "session_free d seq = with_blocks d (free (pg_blocks d) seq)"

section \<open>Batches\<close>

text \<open>\<open>allocate_rows\<close>: the slots, positions and lengths of one new token per row.\<close>

record row_slots =
  rs_slots :: "nat list"
  rs_positions :: "nat list"
  rs_lengths :: "nat list"

fun allocate_rows :: "'k paged_session \<Rightarrow> (seq_id \<times> token option) list \<Rightarrow> row_slots \<Rightarrow> ('k, row_slots) session_result" where
  "allocate_rows d [] acc = Some (Inr acc, d)"
| "allocate_rows d ((seq, token) # rest) acc =
     on_ok (with_blocks d (case token of
              Some t \<Rightarrow> allocate (pg_blocks d) seq [t]
            | None \<Rightarrow> allocate_unresolved (pg_blocks d) seq 1)) (\<lambda>allocation d.
     on_ok (copy_if d (al_copy allocation)) (\<lambda>_ d. do {
       sls \<leftarrow> slots (pg_blocks d) seq (al_positions allocation);
       on_value (kv_error sls) d (\<lambda>sls.
       on_value (case sls of [] \<Rightarrow> Inl Cache_inconsistent | sl # _ \<Rightarrow> pool_slot (block_width d) sl) d (\<lambda>slot.
       on_value (as_i32 (ts_start (al_positions allocation))) d (\<lambda>position.
         allocate_rows d rest
           \<lparr>rs_slots = rs_slots acc @ [slot], rs_positions = rs_positions acc @ [position],
            rs_lengths = rs_lengths acc @ [ts_end (al_positions allocation)]\<rparr>))) }))"

definition no_rows :: row_slots where
  "no_rows = \<lparr>rs_slots = [], rs_positions = [], rs_lengths = []\<rparr>"

text \<open>
  \<open>batch_logits\<close>: every row's cell is written, then every row attends to its own cells, by the kernels of
  a batch. \<open>ids\<close> are the input tokens, wherever they were.
\<close>

definition batch_logits ::
  "('k, 'l) qwen_net \<Rightarrow> 'k paged_session \<Rightarrow> seq_id list \<Rightarrow> row_slots \<Rightarrow> token list \<Rightarrow> ('k, 'l list) session_result" where
  "batch_logits net d seqs rs ids = do {
     plan \<leftarrow> gather_plan d (zip seqs (rs_lengths rs));
     on_value (as_i32 (length (rs_slots rs))) d (\<lambda>_.
     on_value plan d (\<lambda>plan.
     on_value (collect_sum (map as_i32 (rs_lengths rs))) d (\<lambda>_.
       case device_call d of
         (Some garbage, d) \<Rightarrow> Some (Inl Mlx_failed, d\<lparr>pg_cells := broken (pg_cells d) (set (rs_slots rs)) garbage\<rparr>)
       | (None, d) \<Rightarrow>
           let n = length seqs; shape = (n, Max (set (0 # rs_lengths rs)));
               row = (\<lambda>r. qn_batch_row net shape (gathered (pg_cells d) plan n r (rs_positions rs ! r)) (ids ! r));
               cells = scatter (pg_cells d) (rs_slots rs) (map row [0..<n])
           in Some (Inr (map (\<lambda>r. qn_batch_logits net shape (gathered cells plan n r (rs_lengths rs ! r)) (ids ! r)) [0..<n]),
                    d\<lparr>pg_cells := cells\<rparr>)))) }"

definition pick_rows :: "('k, 'l) qwen_net \<Rightarrow> 'l list \<Rightarrow> forward_error + token list" where
  "pick_rows net logits = (if list_all (qn_finite net) logits then Inr (map (qn_pick net) logits) else Inl Non_finite_logits)"

definition read_rows :: "('k, 'l) qwen_net \<Rightarrow> 'l list \<Rightarrow> batch_readback \<Rightarrow> forward_error + 'l batch_decoded" where
  "read_rows net logits readback =
     (case readback of
        Logits_readback \<Rightarrow> Inr (Logit_rows logits)
      | Greedy_readback \<Rightarrow> map_sum id Greedy_tokens (pick_rows net logits))"

definition batch_step ::
  "('k, 'l) qwen_net \<Rightarrow> 'k paged_session \<Rightarrow> (seq_id \<times> token) list \<Rightarrow> batch_readback \<Rightarrow> ('k, 'l batch_decoded) session_result" where
  "batch_step net d rows readback =
     on_value (as_i32 (length rows)) d (\<lambda>_.
     on_ok (allocate_rows d (map (\<lambda>(seq, t). (seq, Some t)) rows) no_rows) (\<lambda>rs d.
     on_ok (batch_logits net d (map fst rows) rs (map snd rows)) (\<lambda>logits d.
       on_value (read_rows net logits readback) d (\<lambda>decoded. Some (Inr decoded, d)))))"

text \<open>The check of \<open>decode_batch\<close> over its rows: the blocks needed.\<close>

fun decode_needs ::
  "'k paged_session \<Rightarrow> seq_id list \<Rightarrow> (seq_id \<times> token) list \<Rightarrow> nat \<Rightarrow> (forward_error + nat) option" where
  "decode_needs d earlier [] needed = Some (Inr needed)"
| "decode_needs d earlier ((seq, t) # rest) needed =
     (if seq \<in> set earlier then Some (Inl (Repeated_batch_sequence seq))
      else
        case kv_error (num_computed (pg_blocks d) seq) of
          Inl e \<Rightarrow> Some (Inl e)
        | Inr cached \<Rightarrow>
            if cached = 0 then Some (Inl Decode_without_prefill)
            else
              (case validate_input_ids (pg_config d) [t] cached (qc_max_positions (pg_config d)) of
                Inl e \<Rightarrow> Some (Inl e)
              | Inr _ \<Rightarrow> do {
                  price \<leftarrow> append_cost (pg_blocks d) seq 1;
                  case kv_error price of
                    Inl e \<Rightarrow> Some (Inl e)
                  | Inr price \<Rightarrow> do {
                      needed \<leftarrow> add_usize needed price;
                      decode_needs d (earlier @ [seq]) rest needed } }))"

fun commit_rows :: "(byte list \<Rightarrow> byte list) \<Rightarrow> 'k paged_session \<Rightarrow> seq_id list \<Rightarrow> ('k, unit) session_result" where
  "commit_rows sha d [] = Some (Inr (), d)"
| "commit_rows sha d (seq # rest) =
     on_ok (with_blocks d (commit sha (pg_blocks d) seq)) (\<lambda>_ d. commit_rows sha d rest)"

fun free_rows :: "'k paged_session \<Rightarrow> seq_id list \<Rightarrow> 'k paged_session option" where
  "free_rows d [] = Some d"
| "free_rows d (seq # rest) = Option.bind (free_ignoring d seq) (\<lambda>d. free_rows d rest)"

definition decode_batch ::
  "(byte list \<Rightarrow> byte list) \<Rightarrow> ('k, 'l) qwen_net \<Rightarrow> 'k paged_session \<Rightarrow> (seq_id \<times> token) list \<Rightarrow> batch_readback \<Rightarrow>
   ('k, 'l batch_decoded) session_result" where
  "decode_batch sha net d rows readback =
     (if rows = [] then Some (Inl Empty_input, d)
      else do {
        needed \<leftarrow> decode_needs d [] rows 0;
        on_value needed d (\<lambda>needed.
          if needed > free_blocks (pg_blocks d)
          then Some (Inl (Kv_blocks (OutOfBlocks needed (free_blocks (pg_blocks d)))), d)
          else do {
            (result, d) \<leftarrow> on_ok (batch_step net d rows readback) (\<lambda>decoded d.
                             on_ok (commit_rows sha d (map fst rows)) (\<lambda>_ d. Some (Inr decoded, d)));
            case result of
              Inr decoded \<Rightarrow> Some (Inr decoded, d)
            | Inl e \<Rightarrow> map_option (Pair (Inl e)) (free_rows d (map fst rows)) }) })"

section \<open>Queued steps\<close>

fun queue_needs ::
  "'k paged_session \<Rightarrow> ('k, 'l) queued_decode option \<Rightarrow> seq_id list \<Rightarrow> (seq_id \<times> step_input) list \<Rightarrow> nat \<Rightarrow>
   (forward_error + nat) option" where
  "queue_needs d previous earlier [] needed = Some (Inr needed)"
| "queue_needs d previous earlier ((seq, inp) # rest) needed =
     (if seq \<in> set earlier then Some (Inl (Repeated_batch_sequence seq))
      else
        case kv_error (num_tokens (pg_blocks d) seq) of
          Inl e \<Rightarrow> Some (Inl e)
        | Inr scheduled \<Rightarrow>
            if scheduled = 0 then Some (Inl Decode_without_prefill)
            else
              (case (case inp of
                      Host t \<Rightarrow> validate_input_ids (pg_config d) [t] scheduled (qc_max_positions (pg_config d))
                    | Previous row \<Rightarrow>
                        (case previous of
                           None \<Rightarrow> Inl Cache_inconsistent
                         | Some step \<Rightarrow>
                             if list_get (qd_rows step) row \<noteq> Some seq then Inl Cache_inconsistent
                             else if scheduled \<ge> qc_max_positions (pg_config d)
                             then Inl (Prompt_too_long (scheduled + 1) (qc_max_positions (pg_config d)))
                             else Inr ())) of
                Inl e \<Rightarrow> Some (Inl e)
              | Inr _ \<Rightarrow> do {
                  price \<leftarrow> append_cost (pg_blocks d) seq 1;
                  case kv_error price of
                    Inl e \<Rightarrow> Some (Inl e)
                  | Inr price \<Rightarrow> do {
                      needed \<leftarrow> add_usize needed price;
                      queue_needs d previous (earlier @ [seq]) rest needed } }))"

text \<open>The input of a row: a host token, or the previous step's pick, still on the device.\<close>

definition carried_token :: "('k, 'l) qwen_net \<Rightarrow> ('k, 'l) queued_decode option \<Rightarrow> step_input \<Rightarrow> token" where
  "carried_token net previous inp =
     (case inp of
        Host t \<Rightarrow> t
      | Previous row \<Rightarrow> (case previous of None \<Rightarrow> 0 | Some step \<Rightarrow> qn_pick net (qd_logits step ! row)))"

definition queue_step ::
  "('k, 'l) qwen_net \<Rightarrow> 'k paged_session \<Rightarrow> (seq_id \<times> step_input) list \<Rightarrow> ('k, 'l) queued_decode option \<Rightarrow>
   ('k, ('k, 'l) queued_decode) session_result" where
  "queue_step net d rows previous =
     on_value (as_i32 (length rows)) d (\<lambda>_.
     on_ok (allocate_rows d (map (\<lambda>(seq, inp). (seq, case inp of Host t \<Rightarrow> Some t | Previous row \<Rightarrow> None)) rows) no_rows) (\<lambda>rs d.
     on_value (collect_sum (map (\<lambda>(seq, inp). case inp of Host t \<Rightarrow> Inr 0 | Previous row \<Rightarrow> as_i32 row) rows)) d (\<lambda>_.
     on_ok (batch_logits net d (map fst rows) rs (map (\<lambda>(seq, inp). carried_token net previous inp) rows)) (\<lambda>logits d.
       Some (Inr \<lparr>qd_logits = logits, qd_rows = map fst rows, qd_lengths = rs_lengths rs, qd_slots = rs_slots rs\<rparr>, d)))))"

definition queue_decode ::
  "('k, 'l) qwen_net \<Rightarrow> 'k paged_session \<Rightarrow> (seq_id \<times> step_input) list \<Rightarrow> ('k, 'l) queued_decode option \<Rightarrow>
   ('k, ('k, 'l) queued_decode) session_result" where
  "queue_decode net d rows previous =
     (if rows = [] then Some (Inl Empty_input, d)
      else do {
        needed \<leftarrow> queue_needs d previous [] rows 0;
        on_value needed d (\<lambda>needed.
          if needed > free_blocks (pg_blocks d)
          then Some (Inl (Kv_blocks (OutOfBlocks needed (free_blocks (pg_blocks d)))), d)
          else queue_step net d rows previous) })"

text \<open>The loop of \<open>finish_decode\<close> over the rows, their lengths and their picks.\<close>

fun finish_rows :: "(byte list \<Rightarrow> byte list) \<Rightarrow> 'k paged_session \<Rightarrow> (seq_id \<times> nat \<times> token) list \<Rightarrow> ('k, unit) session_result" where
  "finish_rows sha d [] = Some (Inr (), d)"
| "finish_rows sha d ((seq, len, t) # rest) =
     (case num_tokens (pg_blocks d) seq of
        Inl _ \<Rightarrow> finish_rows sha d rest
      | Inr _ \<Rightarrow>
          on_ok (with_blocks d (commit_through sha (pg_blocks d) seq len)) (\<lambda>_ d.
          on_value (kv_error (num_unresolved (pg_blocks d) seq)) d (\<lambda>unresolved.
            if unresolved > 0
            then on_ok (with_blocks d (resolve (pg_blocks d) seq [t])) (\<lambda>_ d. finish_rows sha d rest)
            else finish_rows sha d rest)))"

text \<open>A step whose graph cannot be evaluated leaves anything in the slots it was to write.\<close>

definition finish_decode ::
  "(byte list \<Rightarrow> byte list) \<Rightarrow> ('k, 'l) qwen_net \<Rightarrow> 'k paged_session \<Rightarrow> ('k, 'l) queued_decode \<Rightarrow> ('k, token list) session_result" where
  "finish_decode sha net d step =
     (case device_call d of
        (Some garbage, d) \<Rightarrow> Some (Inl Mlx_failed, d\<lparr>pg_cells := broken (pg_cells d) (set (qd_slots step)) garbage\<rparr>)
      | (None, d) \<Rightarrow>
          on_value (pick_rows net (qd_logits step)) d (\<lambda>tokens.
          on_ok (finish_rows sha d (zip (qd_rows step) (zip (qd_lengths step) tokens))) (\<lambda>_ d. Some (Inr tokens, d))))"

section \<open>The session as the engine's decoder\<close>

text \<open>\<open>DecodeError::from\<close>; other errors become their message.\<close>

definition decode_error_from :: "(forward_error \<Rightarrow> string) \<Rightarrow> forward_error \<Rightarrow> decode_error" where
  "decode_error_from describe e =
     (case e of
        Kv_blocks (OutOfBlocks needed left) \<Rightarrow> Out_of_blocks
      | _ \<Rightarrow> Decode_failed (describe e))"

end
