(* ===== verification/PagedMemory.thy ===== *)
theory PagedMemory
  imports PagedSession BlockDevice
begin

text \<open>
  The cells of a paged session against the memory of a world: a cell is right when it holds a K/V
  computed from the tokens the world says it stands for, and from no other. Where a
  reservation was placed but not computed yet, or a device call failed, only some cells are right;
  the blocks of the others belong to the sequences being run and to nobody else, so that releasing
  these sequences makes every cell that counts right again.
\<close>

section \<open>What may be computed from a sequence's own tokens\<close>

text \<open>
  \<open>cell_of net ts k\<close>: \<open>k\<close> is the K/V of the last of \<open>ts\<close>, computed from \<open>ts\<close> alone. Some call of the
  kernels, alone or in a batch and of whatever shape, made it out of cells that were computed for the
  prefixes of \<open>ts\<close> before it. Different calls may round differently, so that there may be several.
\<close>

inductive cell_of :: "('k, 'l) qwen_net \<Rightarrow> token list \<Rightarrow> 'k \<Rightarrow> bool" for net where
  computed_alone: "length cs = length ts \<Longrightarrow> \<forall>pos<length ts. cell_of net (take (Suc pos) ts) (cs ! pos) \<Longrightarrow>
    ids \<noteq> [] \<Longrightarrow> length ids \<le> n \<Longrightarrow> cell_of net (ts @ ids) (qn_row net n cs ids)"
| computed_in_batch: "length cs = length ts \<Longrightarrow> \<forall>pos<length ts. cell_of net (take (Suc pos) ts) (cs ! pos) \<Longrightarrow>
    cell_of net (ts @ [t]) (qn_batch_row net shape cs t)"

definition cells_of :: "('k, 'l) qwen_net \<Rightarrow> token list \<Rightarrow> 'k list \<Rightarrow> bool" where
  "cells_of net ts cs \<longleftrightarrow> length cs = length ts \<and> (\<forall>pos<length ts. cell_of net (take (Suc pos) ts) (cs ! pos))"

text \<open>Logits of the last of \<open>ts\<close>, computed from such cells.\<close>

inductive logits_of :: "('k, 'l) qwen_net \<Rightarrow> token list \<Rightarrow> 'l \<Rightarrow> bool" for net where
  logits_alone: "cells_of net (ts @ ids) cs \<Longrightarrow> ids \<noteq> [] \<Longrightarrow> logits_of net (ts @ ids) (qn_logits net cs ids)"
| logits_in_batch: "cells_of net (ts @ [t]) cs \<Longrightarrow> logits_of net (ts @ [t]) (qn_batch_logits net shape cs t)"

text \<open>Kernels that do not round: whatever the call, the K/V and the logits are functions of the tokens.\<close>

definition exact_net :: "('k, 'l) qwen_net \<Rightarrow> (token list \<Rightarrow> 'k) \<Rightarrow> (token list \<Rightarrow> 'l) \<Rightarrow> bool" where
  "exact_net net kv logits \<longleftrightarrow> (\<forall>ts ids t n shape.
     let rows = (\<lambda>ts. map (\<lambda>pos. kv (take (Suc pos) ts)) [0..<length ts]) in
     (ids \<noteq> [] \<longrightarrow> length ids \<le> n \<longrightarrow> qn_row net n (rows ts) ids = kv (ts @ ids)) \<and>
     (ids \<noteq> [] \<longrightarrow> qn_logits net (rows (ts @ ids)) ids = logits (ts @ ids)) \<and>
     qn_batch_row net shape (rows ts) t = kv (ts @ [t]) \<and>
     qn_batch_logits net shape (rows (ts @ [t])) t = logits (ts @ [t]))"

lemma exact_netD:
  assumes "exact_net net kv logits"
  shows "ids \<noteq> [] \<Longrightarrow> length ids \<le> n \<Longrightarrow> qn_row net n (map (\<lambda>pos. kv (take (Suc pos) ts)) [0..<length ts]) ids = kv (ts @ ids)"
    and "ids \<noteq> [] \<Longrightarrow> qn_logits net (map (\<lambda>pos. kv (take (Suc pos) (ts @ ids))) [0..<length (ts @ ids)]) ids = logits (ts @ ids)"
    and "qn_batch_row net shape (map (\<lambda>pos. kv (take (Suc pos) ts)) [0..<length ts]) t = kv (ts @ [t])"
    and "qn_batch_logits net shape (map (\<lambda>pos. kv (take (Suc pos) (ts @ [t]))) [0..<length (ts @ [t])]) t = logits (ts @ [t])"
  using assms unfolding exact_net_def Let_def by blast+

lemma exact_cells:
  assumes "length cs = length ts" "\<forall>pos<length ts. cs ! pos = kv (take (Suc pos) ts)"
  shows "cs = map (\<lambda>pos. kv (take (Suc pos) ts)) [0..<length ts]"
  using assms by (intro nth_equalityI) simp_all

lemma exact_cell:
  assumes "cell_of net ts k" and net: "exact_net net kv logits"
  shows "k = kv ts"
  using assms(1)
proof induction
  case (computed_alone cs ts ids n)
  then have "cs = map (\<lambda>pos. kv (take (Suc pos) ts)) [0..<length ts]" by (intro exact_cells) simp_all
  then show ?case using exact_netD(1) [OF net computed_alone.hyps(2,3), of ts] by simp
next
  case (computed_in_batch cs ts t shape)
  then have "cs = map (\<lambda>pos. kv (take (Suc pos) ts)) [0..<length ts]" by (intro exact_cells) simp_all
  then show ?case using exact_netD(3) [OF net, of shape ts t] by simp
qed

lemma exact_logits:
  assumes "logits_of net ts l" and net: "exact_net net kv logits"
  shows "l = logits ts"
proof -
  have rows: "cs = map (\<lambda>pos. kv (take (Suc pos) ts)) [0..<length ts]" if "cells_of net ts cs" for ts cs
    by (rule exact_cells) (use that exact_cell [OF _ net] in \<open>simp_all add: cells_of_def\<close>)
  from assms(1) show ?thesis
  proof cases
    case (logits_alone ts' ids cs)
    then show ?thesis using exact_netD(2) [OF net, of ids ts'] rows [OF logits_alone(3)] by (simp only: not_False_eq_True simp_thms)
  next
    case (logits_in_batch ts' t cs shape)
    then show ?thesis using exact_netD(4) [OF net, of shape ts' t] rows [OF logits_in_batch(3)] by (simp only:)
  qed
qed

section \<open>Blocks of one sequence\<close>

text \<open>A block whose key is not published and that no table but that of \<open>i\<close> holds.\<close>

definition private_to :: "manager \<Rightarrow> seq_id \<Rightarrow> nat \<Rightarrow> bool" where
  "private_to m i b \<longleftrightarrow>
     p_block_hashes (m_pool m) ! b = None \<and> (\<forall>j t. j \<noteq> i \<longrightarrow> m_sequences m j = Some t \<longrightarrow> b \<notin> set (s_table t))"

text \<open>What a reservation for \<open>i\<close> does to the manager, as far as cells are concerned.\<close>

definition placed :: "manager \<Rightarrow> seq_id \<Rightarrow> allocation \<Rightarrow> manager \<Rightarrow> bool" where
  "placed m i al m' \<longleftrightarrow>
     p_block_tokens (m_pool m') = p_block_tokens (m_pool m) \<and>
     m_config m' = m_config m \<and>
     (\<exists>s. m_sequences m' i = Some s \<and> ts_end (al_positions al) = s_scheduled s \<and> s_unresolved s = 0 \<and>
        (\<forall>pos. ts_start (al_positions al) \<le> pos \<longrightarrow> pos < s_scheduled s \<longrightarrow>
           private_to m' i (s_table s ! (pos div p_block_tokens (m_pool m))))) \<and>
     (\<forall>c. al_copy al = Some c \<longrightarrow> private_to m' i (bc_dst c) \<and> bc_tokens c \<le> p_block_tokens (m_pool m) \<and>
        (\<exists>s. m_sequences m i = Some s \<and> bc_src c \<in> set (s_table s))) \<and>
     (\<forall>j. j \<noteq> i \<longrightarrow> m_sequences m' j = m_sequences m j) \<and>
     (\<forall>b h. p_block_hashes (m_pool m') ! b = Some h \<longrightarrow> p_block_hashes (m_pool m) ! b = Some h) \<and>
     (\<forall>r t b. r \<noteq> i \<longrightarrow> m_sequences m r = Some t \<longrightarrow> b \<in> set (s_table t) \<longrightarrow> private_to m r b \<longrightarrow> private_to m' r b)"

lemma reserve_placed:
  fixes m0 m1 i s al s' p'
  defines "m' \<equiv> m1\<lparr>m_pool := p', m_sequences := (m_sequences m1)(i \<mapsto> s')\<rparr>"
  assumes m1: "mgr_ok m1" and at: "m_sequences m1 i = Some s"
    and spec: "reserve_spec (m_pool m1) s cnt (held_by ((m_sequences m1)(i := None))) al (s_table s') p'"
    and s': "s_scheduled s' = s_scheduled s + cnt" "s_unresolved s' = 0"
    and m0: "\<And>j. j \<noteq> i \<Longrightarrow> m_sequences m1 j = m_sequences m0 j"
      "p_block_hashes (m_pool m1) = p_block_hashes (m_pool m0)" "p_block_tokens (m_pool m1) = p_block_tokens (m_pool m0)"
      "m_config m1 = m_config m0"
    and src: "\<And>r t b. r \<noteq> i \<Longrightarrow> m_sequences m0 r = Some t \<Longrightarrow> b \<in> set (s_table t) \<Longrightarrow> private_to m0 r b \<Longrightarrow> b \<notin> set (s_table s)"
    and copied: "m_sequences m0 i = Some s \<or> s_scheduled s mod p_block_tokens (m_pool m1) = 0"
  shows "placed m0 i al m'"
proof -
  let ?bt = "p_block_tokens (m_pool m1)" and ?G = "held_by ((m_sequences m1)(i := None))"
  have bt: "0 < ?bt" and fin: "finite (dom (m_sequences m1))"
    and len: "length (s_table s) = div_ceil (s_scheduled s) ?bt"
    using mgr_okD(1,2,6) [OF m1] at by simp_all
  have tails: "p_block_hashes (m_pool m1) ! b = None" if "b \<in> set (tail_blocks ?bt s)" for b
    by (rule tails_unpublished [OF m1 at that])
  have priv1: "s_table s' ! (pos div ?bt) \<notin># ?G \<and> p_block_hashes p' ! (s_table s' ! (pos div ?bt)) = None"
    if "s_scheduled s \<le> pos" "pos < s_scheduled s + cnt" for pos
    by (rule reserve_private(1) [OF bt len spec]) (use tails that in auto)
  have priv2: "bc_dst c \<notin># ?G \<and> p_block_hashes p' ! bc_dst c = None" if "al_copy al = Some c" for c
    by (rule reserve_private(2) [OF bt len spec]) (use tails that in auto)
  note spat = reserve_spec_at [OF spec]
  have fr: "pool_frame (set_mset (mset (s_table s) + ?G)) (m_pool m1) p'"
    and ps: "al_positions al = \<lparr>ts_start = s_scheduled s, ts_end = s_scheduled s + cnt\<rparr>"
    and cp: "case al_copy al of None \<Rightarrow> take (length (s_table s)) (s_table s') = s_table s
       | Some c \<Rightarrow> s_scheduled s mod ?bt \<noteq> 0 \<and> s_scheduled s div ?bt < length (s_table s) \<and>
           c = \<lparr>bc_src = s_table s ! (s_scheduled s div ?bt), bc_dst = s_table s' ! (s_scheduled s div ?bt),
                bc_tokens = s_scheduled s mod ?bt\<rparr> \<and> s_table s' ! (s_scheduled s div ?bt) \<notin># mset (s_table s) + ?G"
    using spec unfolding reserve_spec_def Let_def by blast+
  have keep: "p_block_hashes p' ! b = Some h \<Longrightarrow> p_block_hashes (m_pool m0) ! b = Some h" for b h
    using fr m0(2) unfolding pool_frame_def by (metis option.distinct(1))
  have pr: "b \<notin># ?G \<and> p_block_hashes p' ! b = None \<Longrightarrow> private_to m' i b" for b
    using not_held [OF fin, of b i] by (auto simp: private_to_def m'_def)
  show ?thesis unfolding placed_def
  proof (intro conjI allI impI)
    show "\<exists>s. m_sequences m' i = Some s \<and> ts_end (al_positions al) = s_scheduled s \<and> s_unresolved s = 0 \<and>
        (\<forall>pos. ts_start (al_positions al) \<le> pos \<longrightarrow> pos < s_scheduled s \<longrightarrow>
           private_to m' i (s_table s ! (pos div p_block_tokens (m_pool m0))))"
      using priv1 s' ps pr m0(3) by (intro exI [of _ s']) (simp add: m'_def)
    show "private_to m' i (bc_dst c)" if "al_copy al = Some c" for c using priv2 [OF that] pr by blast
    show "bc_tokens c \<le> p_block_tokens (m_pool m0)" if "al_copy al = Some c" for c
      using cp that m0(3) bt by simp
    show "\<exists>s. m_sequences m0 i = Some s \<and> bc_src c \<in> set (s_table s)" if "al_copy al = Some c" for c
      using cp that copied by auto
    show "m_sequences m' j = m_sequences m0 j" if "j \<noteq> i" for j using m0(1) that by (simp add: m'_def)
    show "p_block_hashes (m_pool m0) ! b = Some h" if "p_block_hashes (m_pool m') ! b = Some h" for b h
      using keep that by (simp add: m'_def)
    show "private_to m' r b" if r: "r \<noteq> i" "m_sequences m0 r = Some t" "b \<in> set (s_table t)" "private_to m0 r b" for r t b
    proof -
      have "b \<notin> set (s_table s)" by (rule src [OF r])
      have bG: "b \<in># ?G" using not_held [OF fin, of b i] r(1-3) m0(1) by auto
      have "b \<notin> set (s_table s')"
      proof
        assume "b \<in> set (s_table s')"
        then obtain a where a: "a < length (s_table s')" "b = s_table s' ! a" by (auto simp: in_set_conv_nth)
        show False
        proof (cases "a < s_scheduled s div ?bt")
          case True
          then have "b \<in> set (full_blocks ?bt s)" using spat(3) a by simp
          then show False using \<open>b \<notin> set (s_table s)\<close> by (auto simp: full_blocks_def dest: in_set_takeD)
        next
          case False
          then have "b \<in> set (tail_blocks ?bt s) \<or> b \<notin># mset (s_table s) + ?G" using spat(1) [of a] a by auto
          then show False using \<open>b \<notin> set (s_table s)\<close> bG by (auto simp: tail_blocks_def dest: in_set_dropD)
        qed
      qed
      moreover have "p_block_hashes p' ! b = None"
        using keep [of b] r(4) by (cases "p_block_hashes p' ! b") (auto simp: private_to_def)
      ultimately show ?thesis using r m0(1) unfolding private_to_def m'_def by auto
    qed
  qed (use fr m0 in \<open>simp_all add: m'_def pool_frame_def\<close>)
qed

section \<open>Reservations\<close>

text \<open>Reserving changes no count of published tokens.\<close>

lemma take_free_published: "take_free p = Some (b, p') \<Longrightarrow> p_published_tokens p' = p_published_tokens p"
  by (auto simp: take_free_def Let_def split: Option.bind_splits option.splits if_splits)

lemma release_published: "release p b = Some p' \<Longrightarrow> p_published_tokens p' = p_published_tokens p"
  by (auto simp: release_def split: Option.bind_splits if_splits)

lemma add_ref_published: "add_ref p b = Some p' \<Longrightarrow> p_published_tokens p' = p_published_tokens p"
  by (auto simp: add_ref_def split: Option.bind_splits)

lemma add_refs_published: "add_refs p bs = Some p' \<Longrightarrow> p_published_tokens p' = p_published_tokens p"
  by (induction p bs rule: add_refs.induct) (auto split: Option.bind_splits dest: add_ref_published)

lemma releases_published: "releases p bs = Some p' \<Longrightarrow> p_published_tokens p' = p_published_tokens p"
  by (induction p bs rule: releases.induct) (auto split: Option.bind_splits dest: release_published)

lemma extend_table_published:
  "extend_table n p table = Some (p', table') \<Longrightarrow> p_published_tokens p' = p_published_tokens p"
  by (induction n p table rule: extend_table.induct)
    (auto simp: extend_table.simps [of n p table for n p table] split: if_splits Option.bind_splits dest: take_free_published)

lemma copy_tail_published: "copy_tail p s = Some (p', table, c) \<Longrightarrow> p_published_tokens p' = p_published_tokens p"
  by (auto simp: copy_tail_def split: Option.bind_splits dest!: take_free_published release_published)

lemma append_published: "append_tokens p s ts = Some (al, s', p') \<Longrightarrow> p_published_tokens p' = p_published_tokens p"
  by (auto simp: append_tokens_def reserve_def split: Option.bind_splits if_splits
    dest!: extend_table_published copy_tail_published)

lemma allocate_published: "allocate m i ts = Some (r, m') \<Longrightarrow> p_published_tokens (m_pool m') = p_published_tokens (m_pool m)"
  by (auto simp: allocate_def split: option.splits if_splits Option.bind_splits dest: append_published)

lemma admit_published: "BlockManager.admit m i hit ts = Some (r, m') \<Longrightarrow> p_published_tokens (m_pool m') = p_published_tokens (m_pool m)"
  by (auto simp: BlockManager.admit_def split: option.splits if_splits Option.bind_splits sum.splits
    dest!: append_published add_refs_published)

lemma allocate_result:
  assumes m: "mgr_ok m" and at: "m_sequences m i = Some s" and un: "s_unresolved s = 0"
    and fits: "s_scheduled s + length ts \<le> usize_max"
  shows "(\<exists>e. allocate m i ts = Some (Inl e, m)) \<or>
    (\<exists>al m' s'. allocate m i ts = Some (Inr al, m') \<and> mgr_ok m' \<and> placed m i al m' \<and>
       al_positions al = \<lparr>ts_start = s_scheduled s, ts_end = s_scheduled s + length ts\<rparr> \<and>
       m_sequences m' = (m_sequences m)(i \<mapsto> s') \<and> s_keys s' = s_keys s \<and> s_computed s' = s_computed s)"
proof -
  obtain c where c: "cost (m_pool m) s (length ts) = Some c" using cost_Some [OF m at fits] .
  show ?thesis
  proof (cases "c \<le> fq_len (p_free (m_pool m))")
    case False
    then show ?thesis using at un c by (auto simp: allocate_def)
  next
    case True
    from append_mgr [OF m at un fits c True] obtain al s' p' where r:
      "append_tokens (m_pool m) s ts = Some (al, s', p')"
      "s' = s\<lparr>s_table := s_table s', s_scheduled := s_scheduled s + length ts,
        s_unhashed := (if p_prefix_caching (m_pool m) then s_unhashed s @ ts else s_unhashed s)\<rparr>"
      "reserve_spec (m_pool m) s (length ts) (held_by ((m_sequences m)(i := None))) al (s_table s') p'"
      "mgr_ok (m\<lparr>m_pool := p', m_sequences := (m_sequences m)(i \<mapsto> s')\<rparr>)"
      by blast
    have f: "s_scheduled s' = s_scheduled s + length ts" "s_unresolved s' = 0" "s_keys s' = s_keys s"
      "s_computed s' = s_computed s"
      by (subst r(2), simp add: un)+
    have "placed m i al (m\<lparr>m_pool := p', m_sequences := (m_sequences m)(i \<mapsto> s')\<rparr>)"
      by (rule reserve_placed [OF m at r(3) f(1,2)]) (use at in \<open>auto simp: private_to_def elim!: allE [of _ i]\<close>)
    moreover have "al_positions al = \<lparr>ts_start = s_scheduled s, ts_end = s_scheduled s + length ts\<rparr>"
      using r(3) unfolding reserve_spec_def Let_def by blast
    ultimately show ?thesis using at un c True r(1,4) f by (simp add: allocate_def) blast
  qed
qed

lemma admit_result:
  assumes m: "mgr_ok m" and wf: "hit_wf m hit" and fr: "hit_fresh m hit"
    and fits: "h_cached_tokens hit + length chunk + length (h_blocks hit) \<le> usize_max"
    and refs: "size (held_by (m_sequences m)) + length (h_blocks hit) \<le> u32_max"
  shows "(\<exists>e. BlockManager.admit m i hit chunk = Some (Inl e, m)) \<or>
    (\<exists>al m' s'. BlockManager.admit m i hit chunk = Some (Inr al, m') \<and> mgr_ok m' \<and> placed m i al m' \<and> m_sequences m i = None \<and>
       al_positions al = \<lparr>ts_start = h_cached_tokens hit, ts_end = h_cached_tokens hit + length chunk\<rparr> \<and>
       m_sequences m' = (m_sequences m)(i \<mapsto> s') \<and> s_keys s' = h_keys hit \<and> s_computed s' = h_cached_tokens hit)"
proof (cases "m_sequences m i")
  case (Some s)
  then show ?thesis by (simp add: BlockManager.admit_def)
next
  case new: None
  obtain needed where n: "admit_cost m hit (length chunk) = Some (Inr needed)"
    using admit_cost_result [OF m wf fr fits] by blast
  show ?thesis
  proof (cases "needed \<le> fq_len (p_free (m_pool m))")
    case False
    then show ?thesis using new n by (simp add: BlockManager.admit_def)
  next
    case True
    from admit_mgr [OF m new wf fr fits refs n True] obtain al s' p1 p' where r:
      "BlockManager.admit m i hit chunk = Some (Inr al, m\<lparr>m_pool := p', m_sequences := (m_sequences m)(i \<mapsto> s')\<rparr>)"
      "mgr_ok (m\<lparr>m_pool := p', m_sequences := (m_sequences m)(i \<mapsto> s')\<rparr>)"
      "p_block_hashes p1 = p_block_hashes (m_pool m)" "p_block_tokens p1 = p_block_tokens (m_pool m)"
      "mgr_ok (m\<lparr>m_pool := p1, m_sequences := (m_sequences m)(i \<mapsto> admitted hit)\<rparr>)"
      "s' = (admitted hit)\<lparr>s_table := s_table s', s_scheduled := h_cached_tokens hit + length chunk,
        s_unhashed := (if p_prefix_caching (m_pool m) then chunk else [])\<rparr>"
      "reserve_spec p1 (admitted hit) (length chunk) (held_by (m_sequences m)) al (s_table s') p'"
      by blast
    let ?m1 = "m\<lparr>m_pool := p1, m_sequences := (m_sequences m)(i \<mapsto> admitted hit)\<rparr>"
    let ?m' = "m\<lparr>m_pool := p', m_sequences := (m_sequences m)(i \<mapsto> s')\<rparr>"
    have f: "s_scheduled s' = h_cached_tokens hit + length chunk" "s_unresolved s' = 0" "s_keys s' = h_keys hit"
      "s_computed s' = h_cached_tokens hit"
      by (subst r(6), simp add: admitted_def)+
    have del: "(m_sequences ?m1)(i := None) = m_sequences m" using new by (auto simp: fun_eq_iff)
    have mm: "?m' = ?m1\<lparr>m_pool := p', m_sequences := (m_sequences ?m1)(i \<mapsto> s')\<rparr>" by simp
    have blocks: "h_cached_tokens hit = length (h_blocks hit) * p_block_tokens (m_pool m)"
      using wf fr by (simp add: hit_wf_def hit_fresh_def)
    have pub: "\<exists>h. p_block_hashes (m_pool m) ! b = Some h" if "b \<in> set (h_blocks hit)" for b
      using fr that by (auto simp: hit_fresh_def in_set_conv_nth)
    have "placed m i al ?m'" unfolding mm
    proof (rule reserve_placed [OF r(5), where s = "admitted hit"])
      show "reserve_spec (m_pool ?m1) (admitted hit) (length chunk) (held_by ((m_sequences ?m1)(i := None))) al (s_table s') p'"
        using r(7) del by simp
      show "b \<notin> set (s_table (admitted hit))" if "private_to m j b" for j b
        using pub [of b] that by (auto simp: admitted_def private_to_def)
    qed (use f r(3,4) blocks in \<open>simp_all add: admitted_def\<close>)
    moreover have "al_positions al = \<lparr>ts_start = h_cached_tokens hit, ts_end = h_cached_tokens hit + length chunk\<rparr>"
      using r(7) unfolding reserve_spec_def Let_def by (simp add: admitted_def)
    ultimately show ?thesis using r(1,2) f new by simp blast
  qed
qed

section \<open>Cells that are right\<close>

definition sound :: "('k, 'l) qwen_net \<Rightarrow> nat \<Rightarrow> kv_memory \<Rightarrow> (nat \<times> nat) set \<Rightarrow> (nat \<Rightarrow> 'k) \<Rightarrow> bool" where
  "sound net bt mem bad cells \<longleftrightarrow>
     (\<forall>b off k ts. off < bt \<longrightarrow> (b, off) \<notin> bad \<longrightarrow> mem (b, off) = Some (k, ts) \<longrightarrow> cell_of net ts (cells (b * bt + off)))"

abbreviation w_width :: "world \<Rightarrow> nat" where
  "w_width w \<equiv> p_block_tokens (m_pool (w_mgr w))"

definition pos_cell :: "nat \<Rightarrow> sequence \<Rightarrow> nat \<Rightarrow> nat \<times> nat" where
  "pos_cell bt s pos = (s_table s ! (pos div bt), pos mod bt)"

text \<open>\<open>ahead r = Some n\<close>: the positions of \<open>r\<close> from \<open>n\<close> on are reserved and not computed yet.\<close>

definition ahead_cells :: "manager \<Rightarrow> (seq_id \<rightharpoonup> nat) \<Rightarrow> (nat \<times> nat) set" where
  "ahead_cells m ahead = {pos_cell (p_block_tokens (m_pool m)) s pos | r n s pos.
     ahead r = Some n \<and> m_sequences m r = Some s \<and> n \<le> pos \<and> pos < s_scheduled s}"

definition ahead_private :: "manager \<Rightarrow> (seq_id \<rightharpoonup> nat) \<Rightarrow> bool" where
  "ahead_private m ahead \<longleftrightarrow> (\<forall>r n s pos. ahead r = Some n \<longrightarrow> m_sequences m r = Some s \<longrightarrow> n \<le> pos \<longrightarrow>
     pos < s_scheduled s \<longrightarrow> private_to m r (s_table s ! (pos div p_block_tokens (m_pool m))))"

text \<open>The cells that count once the sequences \<open>R\<close> are gone.\<close>

definition live_cells :: "manager \<Rightarrow> seq_id set \<Rightarrow> (nat \<times> nat) set" where
  "live_cells m R = {pos_cell (p_block_tokens (m_pool m)) s pos | i s pos.
       i \<notin> R \<and> m_sequences m i = Some s \<and> pos < s_scheduled s} \<union>
     {(b, off). b < length (p_block_hashes (m_pool m)) \<and> p_block_hashes (m_pool m) ! b \<noteq> None \<and> off < p_block_tokens (m_pool m)}"

definition partway ::
  "('k, 'l) qwen_net \<Rightarrow> (byte list \<Rightarrow> byte list) \<Rightarrow> (hash_keys \<times> token list) set \<Rightarrow> (seq_id \<rightharpoonup> nat) \<Rightarrow> world \<Rightarrow> (nat \<Rightarrow> 'k) \<Rightarrow> bool"
  where
  "partway net sha U ahead w cells \<longleftrightarrow>
     world_ok sha U w \<and> ahead_private (w_mgr w) ahead \<and>
     sound net (w_width w) (w_mem w) (ahead_cells (w_mgr w) ahead) cells"

definition restorable ::
  "('k, 'l) qwen_net \<Rightarrow> (byte list \<Rightarrow> byte list) \<Rightarrow> (hash_keys \<times> token list) set \<Rightarrow> seq_id set \<Rightarrow> world \<Rightarrow> (nat \<Rightarrow> 'k) \<Rightarrow> bool"
  where
  "restorable net sha U R w cells \<longleftrightarrow>
     world_ok sha U w \<and> sound net (w_width w) (w_mem w) (- live_cells (w_mgr w) R) cells"

definition copied :: "nat \<Rightarrow> block_copy option \<Rightarrow> (nat \<Rightarrow> 'k) \<Rightarrow> nat \<Rightarrow> 'k" where
  "copied bt c cells =
     (case c of
        None \<Rightarrow> cells
      | Some c \<Rightarrow> (\<lambda>slot. if slot \<in> {bc_dst c * bt..<bc_dst c * bt + bc_tokens c}
                      then cells (bc_src c * bt + (slot - bc_dst c * bt)) else cells slot))"

lemma same_cell:
  assumes "off < bt" "off' < (bt::nat)"
  shows "b * bt + off = b' * bt + off' \<longleftrightarrow> b = b' \<and> off = off'"
proof
  assume eq: "b * bt + off = b' * bt + off'"
  have "(b * bt + off) div bt = b" "(b' * bt + off') div bt = b'" using assms by simp_all
  then show "b = b' \<and> off = off'" using eq by simp
qed simp

lemma copied_at:
  assumes "off < bt" "\<And>c. c' = Some c \<Longrightarrow> bc_tokens c \<le> bt"
  shows "copied bt c' cells (b * bt + off) =
    (case c' of None \<Rightarrow> cells (b * bt + off)
     | Some c \<Rightarrow> if b = bc_dst c \<and> off < bc_tokens c then cells (bc_src c * bt + off) else cells (b * bt + off))"
proof (cases c')
  case None
  then show ?thesis by (simp add: copied_def)
next
  case (Some c)
  have "b = bc_dst c \<and> off < bc_tokens c" if "b * bt + off \<in> {bc_dst c * bt..<bc_dst c * bt + bc_tokens c}"
  proof -
    define d where "d = b * bt + off - bc_dst c * bt"
    have "d < bc_tokens c" "b * bt + off = bc_dst c * bt + d" using that by (auto simp: d_def)
    then show ?thesis using same_cell [of off bt d b "bc_dst c"] assms(1) assms(2) [OF Some] by simp
  qed
  then show ?thesis using Some by (auto simp: copied_def)
qed

lemma soundD: "sound net bt mem bad cells \<Longrightarrow> off < bt \<Longrightarrow> (b, off) \<notin> bad \<Longrightarrow> mem (b, off) = Some (k, ts) \<Longrightarrow>
    cell_of net ts (cells (b * bt + off))"
  unfolding sound_def by blast

lemma sound_mono: "sound net bt mem bad cells \<Longrightarrow> bad \<subseteq> worse \<Longrightarrow> sound net bt mem worse cells"
  unfolding sound_def by blast

lemma table_block:
  "mgr_ok m \<Longrightarrow> m_sequences m i = Some s \<Longrightarrow> pos < s_scheduled s \<Longrightarrow> s_table s ! (pos div p_block_tokens (m_pool m)) \<in> set (s_table s)"
  using mgr_okD(1,6) [of m] div_less_div_ceil by simp

lemma width_pos: "world_ok sha U w \<Longrightarrow> 0 < w_width w"
  by (rule mgr_okD(1) [OF world_okD(1)])

text \<open>The cells ahead of a row are no other row's, and no cell of the positions before.\<close>

lemma row_cell_ready:
  assumes w: "world_ok sha U w" and priv: "ahead_private (w_mgr w) ahead"
    and at: "m_sequences (w_mgr w) i = Some s" "pos < s_scheduled s"
    and before: "\<And>n. ahead i = Some n \<Longrightarrow> pos < n"
  shows "pos_cell (w_width w) s pos \<notin> ahead_cells (w_mgr w) ahead"
proof
  assume "pos_cell (w_width w) s pos \<in> ahead_cells (w_mgr w) ahead"
  then obtain r n t q where r: "ahead r = Some n" "m_sequences (w_mgr w) r = Some t" "n \<le> q" "q < s_scheduled t"
    and eq: "pos_cell (w_width w) s pos = pos_cell (w_width w) t q"
    unfolding ahead_cells_def by auto
  have "private_to (w_mgr w) r (s_table t ! (q div w_width w))" using priv r unfolding ahead_private_def by blast
  moreover have "s_table t ! (q div w_width w) \<in> set (s_table s)"
    using table_block [OF world_okD(1) [OF w] at] eq by (simp add: pos_cell_def)
  ultimately have ri: "r = i" using at(1) by (metis private_to_def)
  obtain st where st: "w_stream w i = Some st" using world_okD(2) [OF w] at(1) by blast
  have len: "length st = s_scheduled s" and mem: "\<And>x. x < s_scheduled s \<Longrightarrow> w_mem w (pos_cell (w_width w) s x) = Some (s_keys s, take (Suc x) st)"
    using world_okD(3) [OF w at(1) st] by (simp_all add: stream_ok_def pos_cell_def)
  have "s = t" using at(1) r(2) ri by simp
  then have "take (Suc pos) st = take (Suc q) st" using mem [OF at(2)] mem [of q] eq r(4) by simp
  then have "length (take (Suc pos) st) = length (take (Suc q) st)" by simp
  then have "pos = q" using len at r(4) ri r(2) by simp
  then show False using before r ri by fastforce
qed

lemma read_cells:
  assumes "partway net sha U ahead w cells" and at: "m_sequences (w_mgr w) i = Some s" "w_stream w i = Some st"
    and n: "n \<le> s_scheduled s" "\<And>k. ahead i = Some k \<Longrightarrow> n \<le> k"
  shows "cells_of net (take n st) (map (\<lambda>pos. cells (s_table s ! (pos div w_width w) * w_width w + pos mod w_width w)) [0..<n])"
proof -
  have w: "world_ok sha U w" and priv: "ahead_private (w_mgr w) ahead"
    and snd: "sound net (w_width w) (w_mem w) (ahead_cells (w_mgr w) ahead) cells"
    using assms(1) by (simp_all add: partway_def)
  have so: "length st = s_scheduled s" "\<And>x. x < s_scheduled s \<Longrightarrow> w_mem w (pos_cell (w_width w) s x) = Some (s_keys s, take (Suc x) st)"
    using world_okD(3) [OF w at] by (simp_all add: stream_ok_def pos_cell_def)
  have "cell_of net (take (Suc pos) st) (cells (s_table s ! (pos div w_width w) * w_width w + pos mod w_width w))" if "pos < n" for pos
  proof (rule soundD [OF snd])
    show "pos mod w_width w < w_width w" using width_pos [OF w] by simp
    show "(s_table s ! (pos div w_width w), pos mod w_width w) \<notin> ahead_cells (w_mgr w) ahead"
      using row_cell_ready [OF w priv at(1), of pos] that n by (fastforce simp: pos_cell_def)
    show "w_mem w (s_table s ! (pos div w_width w), pos mod w_width w) = Some (s_keys s, take (Suc pos) st)"
      using so(2) [of pos] that n(1) by (simp add: pos_cell_def)
  qed
  then show ?thesis using so(1) n(1) by (auto simp: cells_of_def min_def)
qed

section \<open>Placing, failing, writing\<close>

lemma partway_none: "partway net sha U Map.empty w cells \<longleftrightarrow> world_ok sha U w \<and> sound net (w_width w) (w_mem w) {} cells"
  by (simp add: partway_def ahead_private_def ahead_cells_def)

lemma ahead_cellsI:
  "ahead r = Some n \<Longrightarrow> m_sequences m r = Some s \<Longrightarrow> n \<le> pos \<Longrightarrow> pos < s_scheduled s \<Longrightarrow>
    pos_cell (p_block_tokens (m_pool m)) s pos \<in> ahead_cells m ahead"
  unfolding ahead_cells_def by blast

lemma in_live_cells:
  assumes "mgr_ok m" "(b, off) \<in> live_cells m R"
  shows "(\<exists>i s. i \<notin> R \<and> m_sequences m i = Some s \<and> b \<in> set (s_table s)) \<or> (\<exists>h. p_block_hashes (m_pool m) ! b = Some h)"
  using assms(2) table_block [OF assms(1)] unfolding live_cells_def pos_cell_def by blast

lemma live_cellsI:
  "i \<notin> R \<Longrightarrow> m_sequences m i = Some s \<Longrightarrow> pos < s_scheduled s \<Longrightarrow> pos_cell (p_block_tokens (m_pool m)) s pos \<in> live_cells m R"
  unfolding live_cells_def by blast

lemma private_not_live:
  "mgr_ok m \<Longrightarrow> private_to m i b \<Longrightarrow> i \<in> R \<Longrightarrow> (b, off) \<notin> live_cells m R"
  using in_live_cells [of m b off R] unfolding private_to_def by fastforce

lemma ahead_not_live:
  assumes "mgr_ok m" "ahead_private m ahead" "c \<in> ahead_cells m ahead"
  shows "c \<notin> live_cells m (dom ahead)"
proof -
  obtain r n s pos where r: "c = pos_cell (p_block_tokens (m_pool m)) s pos" "ahead r = Some n" "m_sequences m r = Some s"
    "n \<le> pos" "pos < s_scheduled s"
    using assms(3) unfolding ahead_cells_def by blast
  then have "private_to m r (s_table s ! (pos div p_block_tokens (m_pool m)))"
    using assms(2) unfolding ahead_private_def by blast
  then show ?thesis using private_not_live [OF assms(1), of r] r(1,2) by (simp add: pos_cell_def domI)
qed

lemma partway_restorable:
  assumes "partway net sha U ahead w cells" and "\<And>b off. (b, off) \<notin> ahead_cells (w_mgr w) ahead \<Longrightarrow> off < w_width w \<Longrightarrow>
    cells' (b * w_width w + off) = cells (b * w_width w + off)"
  shows "restorable net sha U (dom ahead) w cells'"
proof -
  have p: "world_ok sha U w" "ahead_private (w_mgr w) ahead" "sound net (w_width w) (w_mem w) (ahead_cells (w_mgr w) ahead) cells"
    using assms(1) by (simp_all add: partway_def)
  have apart: "c \<notin> live_cells (w_mgr w) (dom ahead)" if "c \<in> ahead_cells (w_mgr w) ahead" for c
    by (rule ahead_not_live [OF world_okD(1) [OF p(1)] p(2) that])
  have "cell_of net ts (cells' (b * w_width w + off))"
    if "off < w_width w" "(b, off) \<in> live_cells (w_mgr w) (dom ahead)" "w_mem w (b, off) = Some (k, ts)" for b off k ts
  proof -
    have "(b, off) \<notin> ahead_cells (w_mgr w) ahead" using apart that(2) by blast
    then show ?thesis using soundD [OF p(3) that(1) _ that(3)] assms(2) that(1) by simp
  qed
  then show ?thesis using p(1) by (simp add: restorable_def sound_def)
qed

lemma kv_copy_at:
  "kv_copy c' mem (b, off) = (case c' of None \<Rightarrow> mem (b, off)
     | Some c \<Rightarrow> if b = bc_dst c \<and> off < bc_tokens c then mem (bc_src c, off) else mem (b, off))"
  by (simp add: kv_copy_def split: option.split)

text \<open>A reservation: the copy makes the cells of the positions before right, and if the copy fails only
  cells of the sequence itself are lost.\<close>

definition placing :: "(byte list \<Rightarrow> byte list) \<Rightarrow> (hash_keys \<times> token list) set \<Rightarrow> world \<Rightarrow> seq_id \<Rightarrow> allocation \<Rightarrow> world \<Rightarrow> bool" where
  "placing sha U w i al w' \<longleftrightarrow>
     placed (w_mgr w) i al (w_mgr w') \<and> world_ok sha U w' \<and>
     (\<exists>keys st sls. slots (w_mgr w') i (al_positions al) = Some (Inr sls) \<and> w_mem w' = forward_pass keys st al sls (w_mem w))"

lemma placing_width: "placing sha U w i al w' \<Longrightarrow> w_width w' = w_width w"
  by (simp add: placing_def placed_def)

lemma placing_mem:
  assumes p: "placing sha U w i al w'" and out: "(b, off) \<notin> ahead_cells (w_mgr w') (ahead(i \<mapsto> ts_start (al_positions al)))"
  shows "w_mem w' (b, off) = kv_copy (al_copy al) (w_mem w) (b, off)"
proof -
  let ?sp = "al_positions al" and ?bt = "w_width w'"
  obtain keys st sls where p': "placed (w_mgr w) i al (w_mgr w')" "world_ok sha U w'"
    "slots (w_mgr w') i ?sp = Some (Inr sls)" "w_mem w' = forward_pass keys st al sls (w_mem w)"
    using p unfolding placing_def by blast
  obtain s where s: "m_sequences (w_mgr w') i = Some s" "ts_end ?sp = s_scheduled s" using p'(1) unfolding placed_def by blast
  have sls: "sls = map (\<lambda>pos. \<lparr>sl_block = s_table s ! (pos div ?bt), sl_offset = pos mod ?bt\<rparr>) (span_iter ?sp)"
    using slots_result [OF world_okD(1) [OF p'(2)] s(1), of ?sp] s(2) p'(3) by simp
  have "(sl_block sl, sl_offset sl) \<noteq> (b, off)" if "sl \<in> set sls" for sl
    using that out s unfolding sls ahead_cells_def by (fastforce simp: pos_cell_def span_iter_def)
  then show ?thesis unfolding p'(4) forward_pass_def by (intro kv_write_outside) (simp_all add: sls)
qed

lemma placing_ahead:
  assumes "placing sha U w i al w'" "ahead i = None"
  shows "ahead_cells (w_mgr w) ahead \<subseteq> ahead_cells (w_mgr w') (ahead(i \<mapsto> n))"
proof
  fix c assume "c \<in> ahead_cells (w_mgr w) ahead"
  then obtain r k s pos where r: "c = pos_cell (w_width w) s pos" "ahead r = Some k" "m_sequences (w_mgr w) r = Some s"
    "k \<le> pos" "pos < s_scheduled s"
    unfolding ahead_cells_def by blast
  then have "r \<noteq> i" using assms(2) by auto
  then have "(ahead(i \<mapsto> n)) r = Some k" "m_sequences (w_mgr w') r = Some s"
    using r assms(1) by (simp_all add: placing_def placed_def)
  then show "c \<in> ahead_cells (w_mgr w') (ahead(i \<mapsto> n))"
    using ahead_cellsI [of "ahead(i \<mapsto> n)" r k "w_mgr w'" s pos] r placing_width [OF assms(1)] by simp
qed

lemma placing_private:
  assumes p: "placing sha U w i al w'" and w: "mgr_ok (w_mgr w)" "ahead_private (w_mgr w) ahead"
  shows "ahead_private (w_mgr w') (ahead(i \<mapsto> ts_start (al_positions al)))"
  unfolding ahead_private_def
proof (intro allI impI)
  fix r n t pos
  assume r: "(ahead(i \<mapsto> ts_start (al_positions al))) r = Some n" "m_sequences (w_mgr w') r = Some t" "n \<le> pos" "pos < s_scheduled t"
  have pl: "placed (w_mgr w) i al (w_mgr w')" using p by (simp add: placing_def)
  show "private_to (w_mgr w') r (s_table t ! (pos div w_width w'))"
  proof (cases "r = i")
    case True
    obtain s where "m_sequences (w_mgr w') i = Some s" "\<And>pos. ts_start (al_positions al) \<le> pos \<Longrightarrow> pos < s_scheduled s \<Longrightarrow>
        private_to (w_mgr w') i (s_table s ! (pos div w_width w))"
      using pl unfolding placed_def by blast
    then show ?thesis using r True placing_width [OF p] by simp
  next
    case False
    have at: "m_sequences (w_mgr w) r = Some t" using pl r(2) False by (simp add: placed_def)
    have "private_to (w_mgr w) r (s_table t ! (pos div w_width w))"
      using w(2) r at False unfolding ahead_private_def by simp
    then show ?thesis using pl at False table_block [OF w(1) at r(4)] placing_width [OF p] unfolding placed_def by metis
  qed
qed

lemma placing_copied:
  assumes before: "partway net sha U ahead w cells" "ahead i = None" and p: "placing sha U w i al w'"
  shows "partway net sha U (ahead(i \<mapsto> ts_start (al_positions al))) w' (copied (w_width w) (al_copy al) cells)"
proof -
  let ?ahead' = "ahead(i \<mapsto> ts_start (al_positions al))"
  have w: "world_ok sha U w" "ahead_private (w_mgr w) ahead" "sound net (w_width w) (w_mem w) (ahead_cells (w_mgr w) ahead) cells"
    using before(1) by (simp_all add: partway_def)
  have pl: "placed (w_mgr w) i al (w_mgr w')" and w': "world_ok sha U w'" using p by (simp_all add: placing_def)
  have tok: "bc_tokens c \<le> w_width w" and src: "\<exists>s. m_sequences (w_mgr w) i = Some s \<and> bc_src c \<in> set (s_table s)"
    if "al_copy al = Some c" for c
    using pl that unfolding placed_def by blast+
  have "cell_of net ts (copied (w_width w) (al_copy al) cells (b * w_width w + off))"
    if c: "off < w_width w" "(b, off) \<notin> ahead_cells (w_mgr w') ?ahead'" "w_mem w' (b, off) = Some (k, ts)" for b off k ts
  proof -
    have m: "kv_copy (al_copy al) (w_mem w) (b, off) = Some (k, ts)" using placing_mem [OF p c(2)] c(3) by simp
    have plain: "cell_of net ts (cells (b * w_width w + off))" if "w_mem w (b, off) = Some (k, ts)"
      by (rule soundD [OF w(3) c(1) _ that]) (use placing_ahead [of sha U w i al w' ahead, OF p before(2)] c(2) in blast)
    have at: "copied (w_width w) (al_copy al) cells (b * w_width w + off) =
        (case al_copy al of None \<Rightarrow> cells (b * w_width w + off)
         | Some c \<Rightarrow> if b = bc_dst c \<and> off < bc_tokens c then cells (bc_src c * w_width w + off) else cells (b * w_width w + off))"
      by (rule copied_at [OF c(1) tok])
    show ?thesis
    proof (cases "\<exists>c. al_copy al = Some c \<and> b = bc_dst c \<and> off < bc_tokens c")
      case True
      then obtain c where cc: "al_copy al = Some c" "b = bc_dst c" "off < bc_tokens c" by blast
      have "(bc_src c, off) \<notin> ahead_cells (w_mgr w) ahead"
      proof
        assume "(bc_src c, off) \<in> ahead_cells (w_mgr w) ahead"
        then obtain r n t q where r: "ahead r = Some n" "m_sequences (w_mgr w) r = Some t" "n \<le> q" "q < s_scheduled t"
          "bc_src c = s_table t ! (q div w_width w)"
          unfolding ahead_cells_def by (auto simp: pos_cell_def)
        then have "private_to (w_mgr w) r (bc_src c)" using w(2) unfolding ahead_private_def by simp
        moreover have "r \<noteq> i" using r(1) before(2) by auto
        ultimately show False using src [OF cc(1)] unfolding private_to_def by metis
      qed
      moreover have "w_mem w (bc_src c, off) = Some (k, ts)" using m cc by (simp add: kv_copy_at)
      ultimately have "cell_of net ts (cells (bc_src c * w_width w + off))" by (intro soundD [OF w(3) c(1)])
      then show ?thesis using at cc by simp
    next
      case False
      then have "w_mem w (b, off) = Some (k, ts)" "copied (w_width w) (al_copy al) cells (b * w_width w + off) = cells (b * w_width w + off)"
        using m at by (auto simp: kv_copy_at split: option.splits)
      then show ?thesis using plain by simp
    qed
  qed
  then show ?thesis using placing_private [OF p world_okD(1) [OF w(1)] w(2)] w' placing_width [OF p]
    by (simp add: partway_def sound_def)
qed

lemma placing_failed:
  assumes before: "partway net sha U ahead w cells" "ahead i = None" and p: "placing sha U w i al w'"
    and cells': "\<And>b off. off < w_width w \<Longrightarrow> (\<And>c. al_copy al = Some c \<Longrightarrow> b \<noteq> bc_dst c) \<Longrightarrow>
      cells' (b * w_width w + off) = cells (b * w_width w + off)"
  shows "restorable net sha U (insert i (dom ahead)) w' cells'"
proof -
  let ?ahead' = "ahead(i \<mapsto> ts_start (al_positions al))" and ?R = "insert i (dom ahead)"
  have w: "world_ok sha U w" "ahead_private (w_mgr w) ahead" "sound net (w_width w) (w_mem w) (ahead_cells (w_mgr w) ahead) cells"
    using before(1) by (simp_all add: partway_def)
  have pl: "placed (w_mgr w) i al (w_mgr w')" and w': "world_ok sha U w'" using p by (simp_all add: placing_def)
  note m' = world_okD(1) [OF w'] and priv' = placing_private [OF p world_okD(1) [OF w(1)] w(2)]
  have "cell_of net ts (cells' (b * w_width w' + off))"
    if c: "off < w_width w'" "(b, off) \<in> live_cells (w_mgr w') ?R" "w_mem w' (b, off) = Some (k, ts)" for b off k ts
  proof -
    have out: "(b, off) \<notin> ahead_cells (w_mgr w') ?ahead'" using ahead_not_live [OF m' priv'] c(2) by auto
    have dst: "b \<noteq> bc_dst d" if "al_copy al = Some d" for d
    proof
      assume "b = bc_dst d"
      then have "private_to (w_mgr w') i b" using pl that unfolding placed_def by blast
      from private_not_live [OF m' this, of ?R off] c(2) show False by simp
    qed
    have "w_mem w (b, off) = Some (k, ts)"
      using placing_mem [OF p out] c(3) dst by (simp add: kv_copy_outside)
    moreover have "(b, off) \<notin> ahead_cells (w_mgr w) ahead" using out placing_ahead [of sha U w i al w' ahead, OF p before(2)] by blast
    ultimately have "cell_of net ts (cells (b * w_width w + off))"
      using soundD [OF w(3)] c(1) placing_width [OF p] by simp
    then show ?thesis using cells' dst c(1) placing_width [OF p] by simp
  qed
  then show ?thesis using w' by (simp add: restorable_def sound_def)
qed

section \<open>Releasing and writing\<close>

lemma restorable_free:
  assumes r: "restorable net sha U R w cells" and f: "free (w_mgr w) i = Some (Inr (), m')"
  shows "restorable net sha U (R - {i}) (w\<lparr>w_mgr := m', w_stream := (w_stream w)(i := None)\<rparr>) cells"
proof -
  have w: "world_ok sha U w" and snd: "sound net (w_width w) (w_mem w) (- live_cells (w_mgr w) R) cells"
    using r by (simp_all add: restorable_def)
  obtain s where at: "m_sequences (w_mgr w) i = Some s" using f by (auto simp: free_def split: option.splits)
  obtain p' where p': "free (w_mgr w) i = Some (Inr (), (w_mgr w)\<lparr>m_pool := p', m_sequences := (m_sequences (w_mgr w))(i := None)\<rparr>)"
    "p_block_tokens p' = w_width w" "p_block_hashes p' = p_block_hashes (m_pool (w_mgr w))"
    using free_mgr [OF world_okD(1) [OF w] at] by blast
  have m': "m' = (w_mgr w)\<lparr>m_pool := p', m_sequences := (m_sequences (w_mgr w))(i := None)\<rparr>" using f p'(1) by simp
  have "live_cells m' (R - {i}) \<subseteq> live_cells (w_mgr w) R"
    unfolding live_cells_def m' using p'(2,3) by (auto split: if_splits)
  then show ?thesis using free_world [OF w f] snd p'(2) m' by (auto simp: restorable_def elim!: sound_mono)
qed

text \<open>When the sequences are gone, the world forgets what the lost cells stood for.\<close>

lemma world_forget:
  assumes w: "world_ok sha U w" and keep: "\<And>c. c \<in> live_cells (w_mgr w) {} \<Longrightarrow> mem c = w_mem w c"
  shows "world_ok sha U (w\<lparr>w_mem := mem\<rparr>)"
proof -
  let ?m = "w_mgr w"
  have "stream_ok sha U (w_width w) (p_prefix_caching (m_pool ?m)) mem s st"
    if at: "m_sequences ?m i = Some s" "w_stream w i = Some st" for i s st
    using world_okD(3) [OF w at] keep [OF live_cellsI [of i "{}" ?m s]] at(1)
    by (simp add: stream_ok_def pos_cell_def)
  moreover have "published_ok sha U (w_width w) mem (p_block_hashes (m_pool ?m))"
    unfolding published_ok_def
  proof (intro allI impI)
    fix b h assume b: "b < length (p_block_hashes (m_pool ?m))" "p_block_hashes (m_pool ?m) ! b = Some h"
    then have "mem (b, off) = w_mem w (b, off)" if "off < w_width w" for off
      using keep that by (simp add: live_cells_def)
    then show "\<exists>k ts j. (k, ts) \<in> U \<and> j < length ts div w_width w \<and> h = block_hashes sha ts (w_width w) k ! j \<and>
           (\<forall>off<w_width w. mem (b, off) = Some (k, take (Suc (j * w_width w + off)) ts))"
      using world_okD(4) [OF w] b unfolding published_ok_def by simp
  qed
  ultimately show ?thesis using w by (simp add: world_ok_def)
qed

lemma restorable_clean:
  assumes r: "restorable net sha U R w cells" and gone: "\<And>i. i \<in> R \<Longrightarrow> m_sequences (w_mgr w) i = None"
  shows "\<exists>mem. partway net sha U Map.empty (w\<lparr>w_mem := mem\<rparr>) cells"
proof -
  have w: "world_ok sha U w" and snd: "sound net (w_width w) (w_mem w) (- live_cells (w_mgr w) R) cells"
    using r by (simp_all add: restorable_def)
  have same: "live_cells (w_mgr w) {} \<subseteq> live_cells (w_mgr w) R"
    using gone unfolding live_cells_def by fastforce
  let ?mem = "\<lambda>c. if c \<in> live_cells (w_mgr w) {} then w_mem w c else None"
  have "sound net (w_width w) ?mem {} cells"
    unfolding sound_def using soundD [OF snd] same by (auto split: if_splits)
  moreover have "world_ok sha U (w\<lparr>w_mem := ?mem\<rparr>)" by (rule world_forget [OF w]) simp
  ultimately show ?thesis by (intro exI [of _ ?mem]) (simp add: partway_none)
qed

lemma scatter_Cons: "scatter cells (x # xs) (v # vs) = scatter (cells(x := v)) xs vs"
  by (simp add: scatter_def)

lemma scatter_sound:
  assumes "length sls = length vs" "sound net bt mem bad cells"
    and "\<And>x v. (x, v) \<in> set (zip sls vs) \<Longrightarrow>
      \<exists>b off k ts. off < bt \<and> x = b * bt + off \<and> mem (b, off) = Some (k, ts) \<and> cell_of net ts v"
  shows "sound net bt mem {c \<in> bad. fst c * bt + snd c \<notin> set sls} (scatter cells sls vs)"
  using assms
proof (induction sls vs arbitrary: cells bad rule: list_induct2)
  case Nil
  then show ?case by (simp add: scatter_def)
next
  case (Cons x sls v vs)
  obtain b off k ts where x: "off < bt" "x = b * bt + off" "mem (b, off) = Some (k, ts)" "cell_of net ts v"
    using Cons.prems(2) [of x v] by auto
  have "sound net bt mem {c \<in> bad. fst c * bt + snd c \<noteq> x} (cells(x := v))"
    unfolding sound_def
  proof (intro allI impI)
    fix b' off' k' ts' assume c: "off' < bt" "(b', off') \<notin> {c \<in> bad. fst c * bt + snd c \<noteq> x}" "mem (b', off') = Some (k', ts')"
    show "cell_of net ts' ((cells(x := v)) (b' * bt + off'))"
    proof (cases "b' * bt + off' = x")
      case True
      then have "b' = b" "off' = off" using same_cell [OF c(1) x(1), of b' b] x(2) by simp_all
      then show ?thesis using True x c(3) by simp
    next
      case False
      then show ?thesis using soundD [OF Cons.prems(1) c(1) _ c(3)] c(2) by simp
    qed
  qed
  then have "sound net bt mem {c \<in> {c \<in> bad. fst c * bt + snd c \<noteq> x}. fst c * bt + snd c \<notin> set sls} (scatter (cells(x := v)) sls vs)"
    by (rule Cons.IH) (use Cons.prems(2) in auto)
  moreover have "{c \<in> {c \<in> bad. fst c * bt + snd c \<noteq> x}. fst c * bt + snd c \<notin> set sls} =
      {c \<in> bad. fst c * bt + snd c \<notin> set (x # sls)}" by auto
  ultimately show ?case by (simp only: scatter_Cons)
qed

text \<open>The forward writes the cells ahead: then all are right.\<close>

lemma written:
  assumes p: "partway net sha U ahead w cells" and len: "length sls = length vs"
    and vals: "\<And>x v. (x, v) \<in> set (zip sls vs) \<Longrightarrow> \<exists>i s st pos. m_sequences (w_mgr w) i = Some s \<and> w_stream w i = Some st \<and>
      pos < s_scheduled s \<and> x = s_table s ! (pos div w_width w) * w_width w + pos mod w_width w \<and> cell_of net (take (Suc pos) st) v"
    and all: "\<And>b off. (b, off) \<in> ahead_cells (w_mgr w) ahead \<Longrightarrow> b * w_width w + off \<in> set sls"
  shows "partway net sha U Map.empty w (scatter cells sls vs)"
proof -
  have w: "world_ok sha U w" and snd: "sound net (w_width w) (w_mem w) (ahead_cells (w_mgr w) ahead) cells"
    using p by (simp_all add: partway_def)
  have "\<exists>b off k ts. off < w_width w \<and> x = b * w_width w + off \<and> w_mem w (b, off) = Some (k, ts) \<and> cell_of net ts v"
    if xv: "(x, v) \<in> set (zip sls vs)" for x v
  proof -
    obtain i s st pos where i: "m_sequences (w_mgr w) i = Some s" "w_stream w i = Some st" "pos < s_scheduled s"
      "x = s_table s ! (pos div w_width w) * w_width w + pos mod w_width w" "cell_of net (take (Suc pos) st) v"
      using vals [OF xv] by blast
    have "w_mem w (s_table s ! (pos div w_width w), pos mod w_width w) = Some (s_keys s, take (Suc pos) st)"
      using world_okD(3) [OF w i(1,2)] i(3) by (simp add: stream_ok_def)
    then show ?thesis using i(4,5) width_pos [OF w] by (metis mod_less_divisor)
  qed
  from scatter_sound [OF len snd this]
  have "sound net (w_width w) (w_mem w) {c \<in> ahead_cells (w_mgr w) ahead. fst c * w_width w + snd c \<notin> set sls} (scatter cells sls vs)" .
  moreover have "{c \<in> ahead_cells (w_mgr w) ahead. fst c * w_width w + snd c \<notin> set sls} = {}" using all by auto
  ultimately show ?thesis using w by (simp add: partway_none)
qed

end
