(* ===== verification/PagedCalls.thy ===== *)
theory PagedCalls
  imports PagedMemory
begin

text \<open>
  The calls of a paged session, one after the other: every one returns, and on success what it
  computes comes from the sequence's own tokens.
\<close>

section \<open>Slots and plans\<close>

lemma as_i32_Inr [simp]: "as_i32 n = Inr k \<longleftrightarrow> k = n \<and> n < 2 ^ 31"
  by (auto simp: as_i32_def)

lemma collect_sum_Inr: "collect_sum rs = Inr vs \<Longrightarrow> rs = map Inr vs"
proof (induction rs arbitrary: vs rule: collect_sum.induct)
  case (3 a rest)
  then show ?case by (cases "collect_sum rest") auto
qed simp_all

lemma map_as_i32: "map (\<lambda>x. as_i32 (g x)) xs = map Inr ys \<Longrightarrow> ys = map g xs"
proof (induction xs arbitrary: ys)
  case (Cons x xs)
  then show ?case by (cases ys) auto
qed simp

lemma value_then_Inr: "and_then r f = Inr b \<longleftrightarrow> (\<exists>a. r = Inr a \<and> f a = Inr b)"
  by (cases r) (simp_all add: and_then_def)

lemma kv_error_Inr [simp]: "kv_error r = Inr a \<longleftrightarrow> r = Inr a"
  by (cases r) (simp_all add: kv_error_def)

definition pos_slot :: "manager \<Rightarrow> sequence \<Rightarrow> nat \<Rightarrow> nat" where
  "pos_slot m s pos = s_table s ! (pos div p_block_tokens (m_pool m)) * p_block_tokens (m_pool m) + pos mod p_block_tokens (m_pool m)"

lemma block_width_eq: "mgr_ok (pg_blocks d) \<Longrightarrow> block_width d = p_block_tokens (m_pool (pg_blocks d))"
  by (simp add: block_width_def mgr_ok_def)

lemma slots_total: "mgr_ok m \<Longrightarrow> \<exists>r. slots m i sp = Some r"
proof (cases "m_sequences m i")
  case (Some s)
  assume "mgr_ok m"
  then show ?thesis using slots_result [of m i s sp] Some
    by (cases "ts_end sp \<le> s_scheduled s") (auto simp: slots_def sequence_of_def)
qed (simp add: slots_def sequence_of_def)

lemma span_slots_total: "mgr_ok (pg_blocks d) \<Longrightarrow> \<exists>r. span_slots d i sp = Some r"
  using slots_total [of "pg_blocks d" i sp] by (auto simp: span_slots_def)

lemma span_slots_result:
  assumes m: "mgr_ok (pg_blocks d)" and at: "m_sequences (pg_blocks d) i = Some s" "ts_end sp \<le> s_scheduled s"
    and r: "span_slots d i sp = Some (Inr sls)"
  shows "sls = map (pos_slot (pg_blocks d) s) (span_iter sp)"
proof -
  let ?m = "pg_blocks d"
  have "collect_sum (map (pool_slot (block_width d)) (map (\<lambda>pos. \<lparr>sl_block = s_table s ! (pos div p_block_tokens (m_pool ?m)),
      sl_offset = pos mod p_block_tokens (m_pool ?m)\<rparr>) (span_iter sp))) = Inr sls"
    using r slots_result [OF m at] by (simp add: span_slots_def kv_error_def and_then_def)
  from collect_sum_Inr [OF this] have "map (\<lambda>pos. as_i32 (pos_slot ?m s pos)) (span_iter sp) = map Inr sls"
    using block_width_eq [OF m] by (simp add: pool_slot_def slot_flat_def pos_slot_def comp_def)
  then show ?thesis by (rule map_as_i32)
qed

lemma gather_columns_result:
  assumes m: "mgr_ok (pg_blocks d)"
  shows "\<exists>r. gather_columns d rows = Some r \<and>
    (\<forall>columns. r = Inr columns \<longrightarrow> length columns = length rows \<and>
       (\<forall>k<length rows. span_slots d (fst (rows ! k)) (span_prefix (snd (rows ! k))) = Some (Inr (columns ! k))))"
proof (induction rows)
  case (Cons row rows)
  obtain i len where row: "row = (i, len)" by (cases row)
  obtain r where r: "span_slots d i (span_prefix len) = Some r" using span_slots_total [OF m] by blast
  obtain q where q: "gather_columns d rows = Some q"
    "\<And>columns. q = Inr columns \<Longrightarrow> length columns = length rows \<and>
       (\<forall>k<length rows. span_slots d (fst (rows ! k)) (span_prefix (snd (rows ! k))) = Some (Inr (columns ! k)))"
    using Cons by blast
  show ?case
  proof (cases r)
    case (Inl e)
    then show ?thesis using r row by simp
  next
    case (Inr column)
    show ?thesis
    proof (cases column)
      case Nil
      then show ?thesis using r row Inr by simp
    next
      case (Cons slot sls)
      then show ?thesis using r row Inr q by (cases q) (auto simp: less_Suc_eq_0_disj)
    qed
  qed
qed simp

lemma gather_plan_result:
  assumes m: "mgr_ok (pg_blocks d)"
  shows "\<exists>r. gather_plan d rows = Some r \<and>
    (\<forall>plan k s token. r = Inr plan \<longrightarrow> k < length rows \<longrightarrow> m_sequences (pg_blocks d) (fst (rows ! k)) = Some s \<longrightarrow>
       snd (rows ! k) \<le> s_scheduled s \<longrightarrow> token < snd (rows ! k) \<longrightarrow>
       plan ! (token * length rows + k) = pos_slot (pg_blocks d) s token)"
proof -
  obtain r where r: "gather_columns d rows = Some r"
    "\<And>columns. r = Inr columns \<Longrightarrow> length columns = length rows \<and>
       (\<forall>k<length rows. span_slots d (fst (rows ! k)) (span_prefix (snd (rows ! k))) = Some (Inr (columns ! k)))"
    using gather_columns_result [OF m, of rows] by blast
  let ?n = "length rows" and ?longest = "Max (set (0 # map snd rows))"
  let ?plan = "\<lambda>columns. map (\<lambda>k. let column = columns ! (k mod ?n); token = k div ?n
      in if token < length column then column ! token else hd column) [0..<?longest * ?n]"
  obtain q where q: "gather_plan d rows = Some q" "\<And>plan. q = Inr plan \<Longrightarrow> \<exists>columns. r = Inr columns \<and> plan = ?plan columns"
    using r(1) unfolding gather_plan_def Let_def by (auto simp: value_then_Inr)
  have "plan ! (token * ?n + k) = pos_slot (pg_blocks d) s token"
    if p: "q = Inr plan" "k < ?n" "m_sequences (pg_blocks d) (fst (rows ! k)) = Some s"
      "snd (rows ! k) \<le> s_scheduled s" "token < snd (rows ! k)" for plan k s token
  proof -
    obtain columns where c: "r = Inr columns" "plan = ?plan columns" using q(2) [OF p(1)] by blast
    have "span_slots d (fst (rows ! k)) (span_prefix (snd (rows ! k))) = Some (Inr (columns ! k))"
      using r(2) [OF c(1)] p(2) by blast
    from span_slots_result [OF m p(3) _ this] have col: "columns ! k = map (pos_slot (pg_blocks d) s) [0..<snd (rows ! k)]"
      using p(4) by (simp add: span_prefix_def span_iter_def)
    have "snd (rows ! k) \<le> ?longest" using p(2) by (intro Max_ge) auto
    then have "Suc token \<le> ?longest" using p(5) by simp
    then have "Suc token * ?n \<le> ?longest * ?n" by (rule mult_le_mono1)
    then have "token * ?n + k < ?longest * ?n" using p(2) by simp
    moreover have "(token * ?n + k) mod ?n = k" "(token * ?n + k) div ?n = token"
      using p(2) by (simp, subst div_mult_self3) auto
    ultimately show ?thesis using c(2) col p(5) by (simp add: Let_def)
  qed
  then show ?thesis using q(1) by blast
qed

section \<open>Copies\<close>

lemma copy_if_result:
  assumes bt: "\<And>c. copy = Some c \<Longrightarrow> bc_tokens c \<le> block_width d"
  shows "\<exists>res d'. copy_if d copy = Some (res, d') \<and> pg_blocks d' = pg_blocks d \<and> pg_config d' = pg_config d \<and>
    (res = Inr () \<longrightarrow> pg_cells d' = copied (block_width d) copy (pg_cells d)) \<and>
    (\<forall>b off. off < block_width d \<longrightarrow> (\<forall>c. copy = Some c \<longrightarrow> b \<noteq> bc_dst c) \<longrightarrow>
       pg_cells d' (b * block_width d + off) = pg_cells d (b * block_width d + off))"
proof (cases copy)
  case None
  then show ?thesis by (simp add: copy_if_def copied_def)
next
  case (Some c)
  let ?bt = "block_width d"
  have out: "b * ?bt + off \<notin> {bc_dst c * ?bt..<bc_dst c * ?bt + bc_tokens c}" if "off < ?bt" "b \<noteq> bc_dst c" for b off
  proof
    assume "b * ?bt + off \<in> {bc_dst c * ?bt..<bc_dst c * ?bt + bc_tokens c}"
    then obtain x where "x < bc_tokens c" "b * ?bt + off = bc_dst c * ?bt + x"
      by (metis add_less_cancel_left atLeastLessThan_iff le_add_diff_inverse)
    then show False using same_cell [of off ?bt x b "bc_dst c"] that bt [OF Some] by simp
  qed
  show ?thesis
  proof (cases "bc_tokens c = 0")
    case True
    then show ?thesis using Some by (auto simp: copy_if_def copy_block_def copied_def fun_eq_iff)
  next
    case False
    then show ?thesis using Some out
      by (auto simp: copy_if_def copy_block_def copied_def pool_slot_def slot_flat_def as_i32_def on_value_def
        device_call_def broken_def fun_eq_iff Let_def split: option.split)
  qed
qed

section \<open>The forward of one sequence\<close>

lemma gathered_one:
  assumes "\<And>token. token < len \<Longrightarrow> plan ! (token * 1 + 0) = pos_slot m s token"
  shows "gathered cells plan 1 0 len = map (\<lambda>pos. cells (pos_slot m s pos)) [0..<len]"
  using assms by (simp add: gathered_def)

text \<open>The rows of a forward over \<open>ids\<close> after the cells of \<open>ts\<close>.\<close>

lemma cells_of_forward:
  assumes "cells_of net ts cs" "k < length ids"
  shows "cell_of net (ts @ take (Suc k) ids) (qn_row net (length ids) cs (take (Suc k) ids))"
  by (rule computed_alone) (use assms in \<open>auto simp: cells_of_def\<close>)

lemma forward_result:
  assumes before: "partway net sha U Map.empty w (pg_cells d)" and pl: "placing sha U w i al w'"
    and d: "pg_blocks d = w_mgr w'" and at: "m_sequences (w_mgr w') i = Some s" "w_stream w' i = Some st"
    and al: "al_positions al = \<lparr>ts_start = start, ts_end = s_scheduled s\<rparr>" and start: "start < s_scheduled s"
  shows "\<exists>res d'. forward net d i (drop start st) (al_positions al) (al_copy al) = Some (res, d') \<and>
    pg_blocks d' = pg_blocks d \<and> pg_config d' = pg_config d \<and>
    (\<forall>l. res = Inr l \<longrightarrow> logits_of net st l \<and> partway net sha U Map.empty w' (pg_cells d')) \<and>
    (\<forall>e. res = Inl e \<longrightarrow> restorable net sha U {i} w' (pg_cells d'))"
proof -
  let ?ahead = "[i \<mapsto> start]" and ?sp = "al_positions al" and ?n = "s_scheduled s"
  have w': "world_ok sha U w'" using pl by (simp add: placing_def)
  have m': "mgr_ok (pg_blocks d)" using world_okD(1) [OF w'] d by simp
  have st: "length st = ?n" using world_okD(3) [OF w' at] by (simp add: stream_ok_def)
  have width: "block_width d = w_width w" "block_width d = w_width w'"
    using block_width_eq [OF m'] placing_width [OF pl] d by simp_all
  have lost: "restorable net sha U {i} w' cells'"
    if "\<And>b off. off < w_width w \<Longrightarrow> (\<And>c. al_copy al = Some c \<Longrightarrow> b \<noteq> bc_dst c) \<Longrightarrow>
      cells' (b * w_width w + off) = pg_cells d (b * w_width w + off)" for cells'
    using placing_failed [OF before _ pl that] by simp
  note unchanged = lost [of "pg_cells d", OF refl]
  obtain new where new: "span_slots d i ?sp = Some new" using span_slots_total [OF m'] by blast
  have sls: "sls = map (pos_slot (w_mgr w') s) [start..<?n]" if "new = Inr sls" for sls
    using span_slots_result [OF m', of i s ?sp sls] at d al new that by (simp add: span_iter_def)
  obtain q where q: "gather_plan d [(i, ?n)] = Some q" and
    plan: "\<And>plan token. q = Inr plan \<Longrightarrow> token < ?n \<Longrightarrow> plan ! (token * 1 + 0) = pos_slot (w_mgr w') s token"
    using gather_plan_result [OF m', of "[(i, ?n)]"] at(1) d by fastforce
  have tok: "bc_tokens c \<le> block_width d" if "al_copy al = Some c" for c
    using pl that width(1) by (simp add: placing_def placed_def)
  obtain copying d1 where copy: "copy_if d (al_copy al) = Some (copying, d1)" "pg_blocks d1 = pg_blocks d"
    "pg_config d1 = pg_config d" "copying = Inr () \<Longrightarrow> pg_cells d1 = copied (w_width w) (al_copy al) (pg_cells d)"
    "\<And>b off. off < w_width w \<Longrightarrow> (\<And>c. al_copy al = Some c \<Longrightarrow> b \<noteq> bc_dst c) \<Longrightarrow>
      pg_cells d1 (b * w_width w + off) = pg_cells d (b * w_width w + off)"
    using copy_if_result [of "al_copy al" d, OF tok] width(1) by metis
  have mid: "partway net sha U ?ahead w' (pg_cells d1)" if "copying = Inr ()"
    using placing_copied [OF before _ pl] copy(4) [OF that] al by simp
  have read: "cells_of net (take len st) (gathered cells plan 1 0 len)"
    if "q = Inr plan" "partway net sha U ahead w' cells" "len \<le> ?n" "\<And>k. ahead i = Some k \<Longrightarrow> len \<le> k" for cells plan len ahead
  proof -
    have "gathered cells plan 1 0 len = map (\<lambda>pos. cells (pos_slot (w_mgr w') s pos)) [0..<len]"
      by (rule gathered_one) (use plan [OF that(1)] that(3) in simp)
    then show ?thesis using read_cells [OF that(2) at that(3,4)] by (simp add: pos_slot_def)
  qed
  have wrote: "partway net sha U Map.empty w' (scatter (pg_cells d1) sls rows)"
    if ok: "copying = Inr ()" "new = Inr sls" and rows: "length rows = ?n - start"
      "\<And>k. k < ?n - start \<Longrightarrow> cell_of net (take (Suc (start + k)) st) (rows ! k)" for sls rows
  proof (rule written [OF mid [OF ok(1)]])
    show "length sls = length rows" using sls [OF ok(2)] rows(1) by simp
    show "\<exists>i s st pos. m_sequences (w_mgr w') i = Some s \<and> w_stream w' i = Some st \<and> pos < s_scheduled s \<and>
        x = s_table s ! (pos div w_width w') * w_width w' + pos mod w_width w' \<and> cell_of net (take (Suc pos) st) v"
      if xv: "(x, v) \<in> set (zip sls rows)" for x v
    proof -
      obtain k where k: "k < ?n - start" "x = sls ! k" "v = rows ! k"
        using xv sls [OF ok(2)] rows(1) by (auto simp: in_set_zip)
      then have "x = pos_slot (w_mgr w') s (start + k)" "cell_of net (take (Suc (start + k)) st) v" "start + k < ?n"
        using sls [OF ok(2)] rows(2) by simp_all
      then show ?thesis using at unfolding pos_slot_def by blast
    qed
    show "b * w_width w' + off \<in> set sls" if "(b, off) \<in> ahead_cells (w_mgr w') ?ahead" for b off
      using that at sls [OF ok(2)] by (auto simp: ahead_cells_def pos_cell_def pos_slot_def split: if_splits)
  qed
  have broke: "restorable net sha U {i} w' (broken (pg_cells d1) (set sls) garbage)"
    if ok: "copying = Inr ()" "new = Inr sls" for sls garbage
  proof -
    have "restorable net sha U (dom ?ahead) w' (broken (pg_cells d1) (set sls) garbage)"
    proof (rule partway_restorable [OF mid [OF ok(1)]])
      fix b off assume c: "(b, off) \<notin> ahead_cells (w_mgr w') ?ahead" "off < w_width w'"
      have apart: "b * w_width w' + off \<noteq> pos_slot (w_mgr w') s pos" if "start \<le> pos" "pos < ?n" for pos
      proof
        assume "b * w_width w' + off = pos_slot (w_mgr w') s pos"
        then have "(b, off) = pos_cell (w_width w') s pos"
          using same_cell [OF c(2), of "pos mod w_width w'" b] width_pos [OF w'] by (simp add: pos_slot_def pos_cell_def)
        then show False using ahead_cellsI [of ?ahead i start "w_mgr w'" s pos] at(1) that c(1) by simp
      qed
      have "b * w_width w' + off \<notin> set sls" 
      proof
        assume "b * w_width w' + off \<in> set sls"
        then obtain pos where "pos \<in> set [start..<?n]" "b * w_width w' + off = pos_slot (w_mgr w') s pos"
          unfolding sls [OF ok(2)] by auto
        then show False using apart [of pos] by simp
      qed
      then show "broken (pg_cells d1) (set sls) garbage (b * w_width w' + off) = pg_cells d1 (b * w_width w' + off)"
        by (simp add: broken_def)
    qed
    then show ?thesis by simp
  qed
  have copy_lost: "restorable net sha U {i} w' (pg_cells d1)" by (rule lost) (use copy(5) in blast)
  have len: "ts_end ?sp - ts_start ?sp = length (drop start st)" using al st by simp
  have qe: "gather_plan d [(i, ts_end ?sp)] = Some q" using q al by simp
  note forward = forward_def [of net d i "drop start st" ?sp "al_copy al"]
  show ?thesis
  proof (cases new)
    case (Inl e)
    then show ?thesis using forward len new qe unchanged by (simp add: on_value_def)
  next
    case new': (Inr sls)
    show ?thesis
    proof (cases "as_i32 (length sls)")
      case (Inl e)
      then show ?thesis using forward len new qe unchanged new' by (simp add: on_value_def)
    next
      case i32: (Inr _)
      show ?thesis
      proof (cases q)
        case (Inl e)
        then show ?thesis using forward len new qe unchanged new' i32 by (simp add: on_value_def)
      next
        case q': (Inr plan)
        show ?thesis
        proof (cases copying)
          case (Inl e)
          then show ?thesis using forward len new qe new' i32 q' copy copy_lost by (simp add: on_value_def on_ok_def)
        next
          case ok: (Inr u)
          note path = forward len new qe new' i32 q' copy(1-3) ok
          show ?thesis
          proof (cases "length (drop start st) < 2 ^ 31 \<and> start < 2 ^ 31")
            case False
            then show ?thesis using path al copy_lost by (auto simp: on_value_def on_ok_def as_i32_def)
          next
            case True
            show ?thesis
            proof (cases "pg_faults d1 (pg_calls d1)")
              case (Some garbage)
              then show ?thesis using path al True broke [of sls garbage]
                by (simp add: on_value_def on_ok_def as_i32_def device_call_def)
            next
              case None
              let ?ids = "drop start st"
              define rows where "rows = map (\<lambda>k. qn_row net (length ?ids) (gathered (pg_cells d1) plan 1 0 start) (take (Suc k) ?ids)) [0..<length ?ids]"
              have "cells_of net (take start st) (gathered (pg_cells d1) plan 1 0 start)"
                by (rule read [OF q' mid]) (use ok start in auto)
              from cells_of_forward [OF this, of _ ?ids]
              have "cell_of net (take (Suc (start + k)) st) (rows ! k)" if "k < ?n - start" for k
                using that st take_add [of start "Suc k" st] by (simp add: rows_def)
              then have wr: "partway net sha U Map.empty w' (scatter (pg_cells d1) sls rows)"
                by (intro wrote) (use ok new' st in \<open>simp_all add: rows_def\<close>)
              have "cells_of net (take start st @ ?ids) (gathered (scatter (pg_cells d1) sls rows) plan 1 0 ?n)"
                using read [OF q' wr, of ?n] st by simp
              from logits_alone [OF this] have "logits_of net st (qn_logits net (gathered (scatter (pg_cells d1) sls rows) plan 1 0 ?n) ?ids)"
                using start st by simp
              then show ?thesis using path al True None wr
                by (simp add: on_value_def on_ok_def as_i32_def device_call_def Let_def rows_def)
            qed
          qed
        qed
      qed
    qed
  qed
qed

section \<open>What holds between calls\<close>

text \<open>The keys and the tokens of every live sequence.\<close>

definition session_view :: "world \<Rightarrow> seq_id \<rightharpoonup> hash_keys \<times> token list" where
  "session_view w = (\<lambda>i. case m_sequences (w_mgr w) i of
     None \<Rightarrow> None
   | Some s \<Rightarrow> map_option (Pair (s_keys s)) (w_stream w i))"

text \<open>Sequences fit the model, hold known tokens, and are computed as far as they are scheduled, those
  of a running call excepted.\<close>

definition level :: "manager \<Rightarrow> nat \<Rightarrow> seq_id set \<Rightarrow> bool" where
  "level m cap behind \<longleftrightarrow> p_published_tokens (m_pool m) \<le> usize_max \<and>
     (\<forall>i s. m_sequences m i = Some s \<longrightarrow> s_unresolved s = 0 \<and> s_scheduled s \<le> cap \<and> (i \<notin> behind \<longrightarrow> s_computed s = s_scheduled s))"

definition running ::
  "('k, 'l) qwen_net \<Rightarrow> (byte list \<Rightarrow> byte list) \<Rightarrow> (hash_keys \<times> token list) set \<Rightarrow> 'k paged_session \<Rightarrow>
   (seq_id \<rightharpoonup> hash_keys \<times> token list) \<Rightarrow> bool" where
  "running net sha U d g \<longleftrightarrow> (\<exists>w. partway net sha U Map.empty w (pg_cells d) \<and> w_mgr w = pg_blocks d \<and>
     level (pg_blocks d) (qc_max_positions (pg_config d)) {} \<and> session_view w = g)"

definition kept :: "'k paged_session \<Rightarrow> 'k paged_session \<Rightarrow> bool" where
  "kept d d' \<longleftrightarrow> pg_config d' = pg_config d \<and>
     p_block_tokens (m_pool (pg_blocks d')) = p_block_tokens (m_pool (pg_blocks d))"

lemma kept_refl [simp]: "kept d d"
  by (simp add: kept_def)

lemma kept_trans: "kept d d1 \<Longrightarrow> kept d1 d2 \<Longrightarrow> kept d d2"
  by (simp add: kept_def)

lemma session_view_at:
  "session_view w i = Some (k, st) \<longleftrightarrow> (\<exists>s. m_sequences (w_mgr w) i = Some s \<and> s_keys s = k \<and> w_stream w i = Some st)"
  by (auto simp: session_view_def split: option.splits)

lemma session_view_none:
  "world_ok sha U w \<Longrightarrow> session_view w i = None \<longleftrightarrow> m_sequences (w_mgr w) i = None"
  using world_okD(2) [of sha U w] by (auto simp: session_view_def split: option.splits)

lemma view_length: "world_ok sha U w \<Longrightarrow> m_sequences (w_mgr w) i = Some s \<Longrightarrow> w_stream w i = Some st \<Longrightarrow> length st = s_scheduled s"
  using world_okD(3) [of sha U w i s st] by (simp add: stream_ok_def)

section \<open>Committing and freeing\<close>

lemma commit_loop_published:
  "commit_loop sha keys table p hashes n cs = Some (p', hashes', n') \<Longrightarrow> p_published_tokens p \<le> usize_max \<Longrightarrow>
    p_published_tokens p \<le> p_published_tokens p' \<and> p_published_tokens p' \<le> usize_max"
proof (induction sha keys table p hashes n cs rule: commit_loop.induct)
  case (2 sha keys table p hashes hashed tokens rest)
  then show ?case
    by (fastforce simp: publish_def saturating_add_usize_def Let_def split: Option.bind_splits if_splits)
qed simp

lemma commit_published:
  assumes "commit sha m i = Some (r, m')" "p_published_tokens (m_pool m) \<le> usize_max"
  shows "p_published_tokens (m_pool m) \<le> p_published_tokens (m_pool m') \<and> p_published_tokens (m_pool m') \<le> usize_max"
  using assms
  by (auto simp: commit_def commit_through_def Let_def split: sum.splits option.splits if_splits Option.bind_splits
    dest: commit_loop_published)

lemma commit_result:
  assumes p: "partway net sha U Map.empty w cells" and at: "m_sequences (w_mgr w) i = Some s"
    and lv: "level (w_mgr w) cap behind"
  shows "\<exists>m'. commit sha (w_mgr w) i = Some (Inr (), m') \<and> partway net sha U Map.empty (w\<lparr>w_mgr := m'\<rparr>) cells \<and>
    session_view (w\<lparr>w_mgr := m'\<rparr>) = session_view w \<and> level m' cap (behind - {i}) \<and>
    p_block_tokens (m_pool m') = w_width w \<and> p_published_tokens (m_pool (w_mgr w)) \<le> p_published_tokens (m_pool m') \<and>
    dom (m_sequences m') = dom (m_sequences (w_mgr w))"
proof -
  let ?m = "w_mgr w"
  have w: "world_ok sha U w" and snd: "sound net (w_width w) (w_mem w) {} cells" using p by (simp_all add: partway_none)
  have c: "s_computed s \<le> s_scheduled s" using mgr_okD(5) [OF world_okD(1) [OF w] at] by (simp add: seq_ok_def)
  from commit_through_mgr [OF world_okD(1) [OF w] at order_refl, of sha] obtain p' hs un where r:
    "commit_through sha ?m i (s_scheduled s) = Some (Inr (), ?m\<lparr>m_pool := p', m_sequences := (m_sequences ?m)(i \<mapsto>
       s\<lparr>s_computed := max (s_computed s) (s_scheduled s), s_hashes := hs, s_unhashed := un\<rparr>)\<rparr>)"
    "p_block_tokens p' = w_width w" by blast
  define m' where "m' = ?m\<lparr>m_pool := p', m_sequences := (m_sequences ?m)(i \<mapsto>
       s\<lparr>s_computed := s_scheduled s, s_hashes := hs, s_unhashed := un\<rparr>)\<rparr>"
  have ok: "commit sha ?m i = Some (Inr (), m')"
    using r(1) at c by (simp add: commit_def num_tokens_def sequence_of_def m'_def max_def)
  have "commit_through sha ?m i (s_scheduled s) = Some (Inr (), m')"
    using ok at by (simp add: commit_def num_tokens_def sequence_of_def)
  from commit_world [OF w this] have w': "world_ok sha U (w\<lparr>w_mgr := m'\<rparr>)" .
  note pub = commit_published [OF ok]
  have "level m' cap (behind - {i})" using lv at pub unfolding level_def m'_def by auto
  moreover have "session_view (w\<lparr>w_mgr := m'\<rparr>) = session_view w"
    using at by (auto simp: session_view_def m'_def fun_eq_iff split: option.splits)
  moreover have "partway net sha U Map.empty (w\<lparr>w_mgr := m'\<rparr>) cells"
    using w' snd r(2) by (simp add: partway_none m'_def)
  ultimately show ?thesis using ok r(2) pub lv at by (intro exI [of _ m']) (auto simp: level_def m'_def)
qed

lemma free_published: "free m i = Some (r, m') \<Longrightarrow> p_published_tokens (m_pool m') = p_published_tokens (m_pool m)"
  by (auto simp: free_def split: option.splits Option.bind_splits dest: releases_published)

lemma free_result:
  assumes r: "restorable net sha U R w cells" and lv: "level (w_mgr w) cap behind"
  shows "\<exists>res w'. free (w_mgr w) i = Some (res, w_mgr w') \<and> restorable net sha U (R - {i}) w' cells \<and>
    session_view w' = (session_view w)(i := None) \<and> level (w_mgr w') cap (behind - {i}) \<and> w_width w' = w_width w \<and>
    m_sequences (w_mgr w') = (m_sequences (w_mgr w))(i := None)"
proof -
  let ?m = "w_mgr w"
  have w: "world_ok sha U w" using r by (simp add: restorable_def)
  show ?thesis
  proof (cases "m_sequences ?m i")
    case None
    have "live_cells ?m (R - {i}) \<subseteq> live_cells ?m R" using None unfolding live_cells_def by fastforce
    then have "restorable net sha U (R - {i}) w cells" using r by (auto simp: restorable_def elim!: sound_mono)
    moreover have "(session_view w)(i := None) = session_view w" using None by (auto simp: session_view_def)
    moreover have "level ?m cap (behind - {i})" using lv None by (auto simp: level_def)
    ultimately show ?thesis using None by (intro exI [of _ "Inl (UnknownSequence i)"] exI [of _ w]) (simp add: free_def fun_upd_idem)
  next
    case (Some s)
    obtain p' where p': "free ?m i = Some (Inr (), ?m\<lparr>m_pool := p', m_sequences := (m_sequences ?m)(i := None)\<rparr>)"
      "p_block_tokens p' = w_width w"
      using free_mgr [OF world_okD(1) [OF w] Some] by blast
    let ?m' = "?m\<lparr>m_pool := p', m_sequences := (m_sequences ?m)(i := None)\<rparr>"
    let ?w' = "w\<lparr>w_mgr := ?m', w_stream := (w_stream w)(i := None)\<rparr>"
    have "p_published_tokens p' = p_published_tokens (m_pool ?m)"
      using free_published [OF p'(1)] by simp
    then have "level ?m' cap (behind - {i})" using lv by (auto simp: level_def split: if_splits)
    moreover have "session_view ?w' = (session_view w)(i := None)"
      by (auto simp: session_view_def fun_eq_iff split: option.splits)
    ultimately show ?thesis using p' restorable_free [OF r p'(1)] by (intro exI [of _ "Inr ()"] exI [of _ ?w']) simp
  qed
qed

section \<open>Running one sequence\<close>

lemma free_ignoring_result:
  assumes "restorable net sha U R w (pg_cells d)" "level (w_mgr w) cap behind" "w_mgr w = pg_blocks d"
  shows "\<exists>d' w'. free_ignoring d i = Some d' \<and> kept d d' \<and> pg_cells d' = pg_cells d \<and> w_mgr w' = pg_blocks d' \<and>
    restorable net sha U (R - {i}) w' (pg_cells d') \<and> session_view w' = (session_view w)(i := None) \<and>
    level (w_mgr w') cap (behind - {i}) \<and> m_sequences (w_mgr w') = (m_sequences (w_mgr w))(i := None)"
proof -
  obtain res w' where "free (w_mgr w) i = Some (res, w_mgr w')" "restorable net sha U (R - {i}) w' (pg_cells d)"
    "session_view w' = (session_view w)(i := None)" "level (w_mgr w') cap (behind - {i})" "w_width w' = w_width w"
    "m_sequences (w_mgr w') = (m_sequences (w_mgr w))(i := None)"
    using free_result [OF assms(1,2)] by blast
  then show ?thesis using assms(3)
    by (intro exI [of _ "d\<lparr>pg_blocks := w_mgr w'\<rparr>"] exI [of _ w']) (simp add: free_ignoring_def kept_def)
qed

lemma session_view_mem [simp]: "session_view (w\<lparr>w_mem := mem\<rparr>) = session_view w"
  by (auto simp: session_view_def fun_eq_iff split: option.splits)

lemma run_forward_result:
  assumes before: "partway net sha U Map.empty w (pg_cells d)" and pl: "placing sha U w i al w'"
    and d: "pg_blocks d = w_mgr w'" and at: "m_sequences (w_mgr w') i = Some s" "w_stream w' i = Some st"
    and al: "al_positions al = \<lparr>ts_start = start, ts_end = s_scheduled s\<rparr>" and start: "start < s_scheduled s"
    and lv: "level (pg_blocks d) (qc_max_positions (pg_config d)) {i}"
  shows "\<exists>res d'. run_forward sha net d i (drop start st) (al_positions al) (al_copy al) = Some (res, d') \<and> kept d d' \<and>
    (\<forall>l. res = Inr l \<longrightarrow> logits_of net st l \<and> running net sha U d' (session_view w') \<and>
       p_published_tokens (m_pool (pg_blocks d)) \<le> p_published_tokens (m_pool (pg_blocks d'))) \<and>
    (\<forall>e. res = Inl e \<longrightarrow> running net sha U d' ((session_view w')(i := None)))"
proof -
  obtain res d1 where f: "forward net d i (drop start st) (al_positions al) (al_copy al) = Some (res, d1)"
    "pg_blocks d1 = pg_blocks d" "pg_config d1 = pg_config d"
    "\<And>l. res = Inr l \<Longrightarrow> logits_of net st l \<and> partway net sha U Map.empty w' (pg_cells d1)"
    "\<And>e. res = Inl e \<Longrightarrow> restorable net sha U {i} w' (pg_cells d1)"
    using forward_result [OF before pl d at al start] by blast
  show ?thesis
  proof (cases res)
    case (Inl e)
    obtain d2 w2 where r: "free_ignoring d1 i = Some d2" "kept d1 d2" "pg_cells d2 = pg_cells d1" "w_mgr w2 = pg_blocks d2"
      "restorable net sha U ({i} - {i}) w2 (pg_cells d2)" "session_view w2 = (session_view w')(i := None)"
      "level (w_mgr w2) (qc_max_positions (pg_config d)) ({i} - {i})"
      using free_ignoring_result [OF f(5) [OF Inl], of _ _ i] lv d f(2,3) by metis
    then obtain mem where "partway net sha U Map.empty (w2\<lparr>w_mem := mem\<rparr>) (pg_cells d2)"
      using restorable_clean [OF r(5)] by auto
    then have "running net sha U d2 ((session_view w')(i := None))"
      using r f(3) unfolding running_def kept_def by (intro exI [of _ "w2\<lparr>w_mem := mem\<rparr>"]) simp
    moreover have "kept d d2" using r(2) f(2,3) by (simp add: kept_def)
    ultimately show ?thesis using f(1) Inl r(1) by (simp add: run_forward_def on_ok_def)
  next
    case (Inr l)
    have p1: "partway net sha U Map.empty w' (pg_cells d1)" and l: "logits_of net st l" using f(4) [OF Inr] by simp_all
    obtain m' where c: "commit sha (w_mgr w') i = Some (Inr (), m')" "partway net sha U Map.empty (w'\<lparr>w_mgr := m'\<rparr>) (pg_cells d1)"
      "session_view (w'\<lparr>w_mgr := m'\<rparr>) = session_view w'" "level m' (qc_max_positions (pg_config d)) ({i} - {i})"
      "p_block_tokens (m_pool m') = w_width w'" "p_published_tokens (m_pool (w_mgr w')) \<le> p_published_tokens (m_pool m')"
      using commit_result [OF p1 at(1) lv [unfolded d]] by blast
    let ?d' = "d1\<lparr>pg_blocks := m'\<rparr>"
    have "running net sha U ?d' (session_view w')"
      using c f(3) unfolding running_def by (intro exI [of _ "w'\<lparr>w_mgr := m'\<rparr>"]) simp
    moreover have "kept d ?d'" using c(5) f(3) d by (simp add: kept_def)
    ultimately show ?thesis using f(1,2) Inr c(1,6) d l
      by (simp add: run_forward_def on_ok_def with_blocks_def kv_error_def)
  qed
qed

section \<open>Reservations of a session\<close>

lemma placing_view:
  assumes "\<And>j. j \<noteq> i \<Longrightarrow> m_sequences m' j = m_sequences (w_mgr w) j" "m_sequences m' i = Some s" "s_keys s = k"
  shows "session_view \<lparr>w_mgr = m', w_stream = (w_stream w)(i \<mapsto> st), w_mem = mem\<rparr> = (session_view w)(i \<mapsto> (k, st))"
  using assms by (auto simp: session_view_def fun_eq_iff split: option.splits)

lemma slots_of_placed:
  assumes m: "mgr_ok m'" and p: "placed m i al m'"
  obtains s sls where "m_sequences m' i = Some s" "ts_end (al_positions al) = s_scheduled s" "s_unresolved s = 0"
    "slots m' i (al_positions al) = Some (Inr sls)"
proof -
  obtain s where s: "m_sequences m' i = Some s" "ts_end (al_positions al) = s_scheduled s" "s_unresolved s = 0"
    using p unfolding placed_def by blast
  then show ?thesis using slots_result [OF m s(1), of "al_positions al"] that by simp
qed

lemma allocate_session:
  assumes w: "world_ok sha U w" and lv: "level (w_mgr w) cap behind" and cap: "cap \<le> usize_max"
    and at: "session_view w i = Some (k, st)" and U: "(k, st @ ts) \<in> U" and len: "length (st @ ts) \<le> cap"
  obtains (refused) e where "allocate (w_mgr w) i ts = Some (Inl e, w_mgr w)"
  | (reserved) al w' s' where "allocate (w_mgr w) i ts = Some (Inr al, w_mgr w')" "placing sha U w i al w'"
      "m_sequences (w_mgr w') i = Some s'" "w_stream w' i = Some (st @ ts)" "s_scheduled s' = length (st @ ts)"
      "al_positions al = \<lparr>ts_start = length st, ts_end = s_scheduled s'\<rparr>"
      "session_view w' = (session_view w)(i \<mapsto> (k, st @ ts))" "level (w_mgr w') cap (insert i behind)"
      "dom (m_sequences (w_mgr w')) = dom (m_sequences (w_mgr w))"
proof -
  obtain s where s: "m_sequences (w_mgr w) i = Some s" "s_keys s = k" "w_stream w i = Some st"
    using at unfolding session_view_at by blast
  have ls: "length st = s_scheduled s" by (rule view_length [OF w s(1,3)])
  have un: "s_unresolved s = 0" using lv s(1) by (auto simp: level_def)
  have fits: "s_scheduled s + length ts \<le> usize_max" using len cap ls by simp
  consider e where "allocate (w_mgr w) i ts = Some (Inl e, w_mgr w)"
    | al m' s' where "allocate (w_mgr w) i ts = Some (Inr al, m')" "mgr_ok m'" "placed (w_mgr w) i al m'"
      "al_positions al = \<lparr>ts_start = s_scheduled s, ts_end = s_scheduled s + length ts\<rparr>"
      "m_sequences m' = (m_sequences (w_mgr w))(i \<mapsto> s')" "s_keys s' = s_keys s"
    using allocate_result [OF world_okD(1) [OF w] s(1) un fits] by blast
  then show thesis
  proof cases
    case 1
    then show ?thesis by (rule refused)
  next
    case r: (2 al m' s')
    obtain s2 sls where s2: "m_sequences m' i = Some s2" "ts_end (al_positions al) = s_scheduled s2" "s_unresolved s2 = 0"
      "slots m' i (al_positions al) = Some (Inr sls)"
      by (rule slots_of_placed [OF r(2,3)])
    have s': "s2 = s'" using s2(1) r(5) by simp
    define w' where "w' = \<lparr>w_mgr = m', w_stream = (w_stream w)(i \<mapsto> st @ ts),
        w_mem = forward_pass (s_keys s) (st @ ts) al sls (w_mem w)\<rparr>"
    have "world_ok sha U w'" unfolding w'_def
      by (rule allocate_world [OF w s(1,3) _ _ r(1) s2(4)]) (use U s(2) len cap in simp_all)
    then have "placing sha U w i al w'" using r(3) s2(4) unfolding placing_def w'_def by auto
    moreover have "session_view w' = (session_view w)(i \<mapsto> (k, st @ ts))" unfolding w'_def
      by (rule placing_view [OF _ s2(1)]) (use r(5,6) s(2) s' in auto)
    moreover have "level (w_mgr w') cap (insert i behind)"
      using lv allocate_published [OF r(1)] s2(2,3) s' r(4,5) len ls by (auto simp: level_def w'_def)
    ultimately show ?thesis using r s2 s' ls s(1) by (intro reserved [of al w' s']) (auto simp: w'_def)
  qed
qed

lemma lookup_shorter:
  assumes m: "mgr_ok m" and ids: "prompt \<noteq> []"
  shows "h_cached_tokens (lookup_prefix sha m prompt keys) < length prompt"
proof -
  let ?bt = "p_block_tokens (m_pool m)"
  have "h_cached_tokens (lookup_prefix sha m prompt keys) \<le> (length prompt - 1) div ?bt * ?bt"
    using lookup_hit(4,5) [OF m, of sha prompt keys] by simp
  also have "\<dots> \<le> length prompt - 1" by (rule div_times_less_eq_dividend)
  finally show ?thesis using ids by (cases prompt) simp_all
qed

lemma admit_session:
  fixes sha w prompt keys n
  defines "hit \<equiv> lookup_prefix sha (w_mgr w) prompt keys"
  defines "st \<equiv> take (h_cached_tokens hit + n) prompt"
  assumes w: "world_ok sha U w" and lv: "level (w_mgr w) cap {}" and cap: "2 * cap \<le> usize_max"
    and ctx: "contexts_ok sha (w_width w) U" and U: "(keys, prompt) \<in> U" and len: "length prompt \<le> cap"
    and refs: "size (held_by (m_sequences (w_mgr w))) + cap \<le> u32_max"
  obtains (refused) e where "BlockManager.admit (w_mgr w) i hit (take n (drop (h_cached_tokens hit) prompt)) = Some (Inl e, w_mgr w)"
  | (reserved) al w' s' where
      "BlockManager.admit (w_mgr w) i hit (take n (drop (h_cached_tokens hit) prompt)) = Some (Inr al, w_mgr w')"
      "placing sha U w i al w'" "m_sequences (w_mgr w') i = Some s'" "w_stream w' i = Some st" "s_scheduled s' = length st"
      "al_positions al = \<lparr>ts_start = h_cached_tokens hit, ts_end = s_scheduled s'\<rparr>" "session_view w i = None"
      "session_view w' = (session_view w)(i \<mapsto> (keys, st))" "level (w_mgr w') cap {i}"
proof -
  let ?m = "w_mgr w" and ?chunk = "take n (drop (h_cached_tokens hit) prompt)"
  note m = world_okD(1) [OF w]
  have wf: "hit_wf ?m hit" and fr: "hit_fresh ?m hit" and ho: "hit_of sha ?m prompt hit"
    unfolding hit_def by (rule lookup_hit_wf [OF m], rule lookup_hit_fresh [OF m], rule lookup_hit_of [OF m])
  have keys: "h_keys hit = keys" and blocks: "h_cached_tokens hit = length (h_blocks hit) * w_width w"
    using lookup_hit(2,5) [OF m] by (simp_all add: hit_def)
  have cl: "h_cached_tokens hit \<le> length prompt" using ho by (simp add: hit_of_def)
  have st: "st = take (h_cached_tokens hit) prompt @ ?chunk" by (simp add: st_def take_add)
  have "1 \<le> w_width w" using mgr_okD(1) [OF m] by simp
  then have "length (h_blocks hit) * 1 \<le> length (h_blocks hit) * w_width w" by (rule mult_le_mono2)
  then have nb: "length (h_blocks hit) \<le> h_cached_tokens hit" using blocks by simp
  have lst: "length st \<le> cap" "length st = h_cached_tokens hit + length ?chunk"
    using len cl by (simp_all add: st_def)
  have fits: "h_cached_tokens hit + length ?chunk + length (h_blocks hit) \<le> usize_max"
    using nb lst cl len cap by linarith
  have room: "size (held_by (m_sequences ?m)) + length (h_blocks hit) \<le> u32_max" using refs nb cl len by linarith
  consider e where "BlockManager.admit ?m i hit ?chunk = Some (Inl e, ?m)"
    | al m' s' where "BlockManager.admit ?m i hit ?chunk = Some (Inr al, m')" "mgr_ok m'" "placed ?m i al m'"
      "m_sequences ?m i = None"
      "al_positions al = \<lparr>ts_start = h_cached_tokens hit, ts_end = h_cached_tokens hit + length ?chunk\<rparr>"
      "m_sequences m' = (m_sequences ?m)(i \<mapsto> s')" "s_keys s' = h_keys hit"
    using admit_result [OF m wf fr fits room, of i] by blast
  then show thesis
  proof cases
    case 1
    then show ?thesis by (rule refused)
  next
    case r: (2 al m' s')
    obtain s2 sls where s2: "m_sequences m' i = Some s2" "ts_end (al_positions al) = s_scheduled s2" "s_unresolved s2 = 0"
      "slots m' i (al_positions al) = Some (Inr sls)"
      by (rule slots_of_placed [OF r(2,3)])
    have s': "s2 = s'" using s2(1) r(6) by simp
    define w' where "w' = \<lparr>w_mgr = m', w_stream = (w_stream w)(i \<mapsto> st),
        w_mem = forward_pass (h_keys hit) st al sls (w_mem w)\<rparr>"
    have sub: "(keys, take x prompt) \<in> U" for x using ctx U unfolding contexts_ok_def by blast
    have "world_ok sha U w'" unfolding w'_def
    proof (rule admit_world [OF w _ _ _ ho _ st _ _ r(1) s2(4)])
      show "room_for ?m (length (h_blocks hit)) (length st)" using room fits lst(2) by (simp add: room_for_def)
      show "(h_keys hit, st) \<in> U" using sub by (simp add: keys st_def)
    qed (use ctx U keys sub in \<open>simp_all add: contexts_ok_def\<close>)
    then have "placing sha U w i al w'" using r(3) s2(4) unfolding placing_def w'_def by auto
    moreover have "session_view w' = (session_view w)(i \<mapsto> (keys, st))" unfolding w'_def
      by (rule placing_view [OF _ s2(1)]) (use r(6,7) keys s' in auto)
    moreover have "level (w_mgr w') cap {i}"
      using lv admit_published [OF r(1)] s2(2,3) s' r(5,6) lst by (auto simp: level_def w'_def)
    moreover have "session_view w i = None" using r(4) by (simp add: session_view_def)
    ultimately show ?thesis using r s2 s' lst(2) by (intro reserved [of al w' s']) (auto simp: w'_def)
  qed
qed

end
