(* ===== verification/PagedSerial.thy ===== *)
theory PagedSerial
  imports PagedCalls
begin

text \<open>
  Every public call of the session against the sequences' own tokens: it returns, and either it fails and at
  most releases the sequences it was running, or its logits are computed from the token stream of each
  sequence it ran.
\<close>

section \<open>Room\<close>

text \<open>What is asked of the caller: the hashed contexts do not collide, and the tables hold fewer than
  \<open>2^32\<close> entries even with one more sequence of full length.\<close>

definition session_room :: "(byte list \<Rightarrow> byte list) \<Rightarrow> (hash_keys \<times> token list) set \<Rightarrow> 'k paged_session \<Rightarrow> bool" where
  "session_room sha U d \<longleftrightarrow> contexts_ok sha (p_block_tokens (m_pool (pg_blocks d))) U \<and>
     size (held_by (m_sequences (pg_blocks d))) + qc_max_positions (pg_config d) \<le> u32_max"

lemma session_room_cap: "session_room sha U d \<Longrightarrow> 2 * qc_max_positions (pg_config d) \<le> usize_max"
  by (simp add: session_room_def u32_max_def usize_max_def)

lemma validate_Inr: "validate_input_ids config ids existing maximum = Inr () \<longleftrightarrow>
    ids \<noteq> [] \<and> existing + length ids \<le> min maximum usize_max \<and> find (\<lambda>i. sint i < 0 \<or> unat i \<ge> qc_vocab_size config) ids = None"
  by (auto simp: validate_input_ids_def split: option.splits)

lemma with_blocks_Some [simp]: "with_blocks d (Some (res, m)) = Some (kv_error res, d\<lparr>pg_blocks := m\<rparr>)"
  by (simp add: with_blocks_def)

lemma same_blocks [simp]: "d\<lparr>pg_blocks := pg_blocks d\<rparr> = d"
  by simp

lemma kv_error_sum [simp]: "kv_error (Inl e) = Inl (Kv_blocks e)" "kv_error (Inr a) = Inr a"
  by (simp_all add: kv_error_def)

lemma on_ok_simps [simp]: "on_ok (Some (Inl e, d)) f = Some (Inl e, d)" "on_ok (Some (Inr a, d)) f = f a d"
  by (simp_all add: on_ok_def)

lemma on_value_simps [simp]: "on_value (Inl e) d f = Some (Inl e, d)" "on_value (Inr a) d f = f a"
  by (simp_all add: on_value_def)

section \<open>Freeing and forking\<close>

lemma session_free_result:
  assumes r: "running net sha U d g"
  shows "\<exists>res m'. free (pg_blocks d) i = Some (res, m') \<and> kept d (d\<lparr>pg_blocks := m'\<rparr>) \<and>
    running net sha U (d\<lparr>pg_blocks := m'\<rparr>) (g(i := None)) \<and> m_sequences m' = (m_sequences (pg_blocks d))(i := None)"
proof -
  obtain w where w: "partway net sha U Map.empty w (pg_cells d)" "w_mgr w = pg_blocks d"
    "level (pg_blocks d) (qc_max_positions (pg_config d)) {}" "session_view w = g"
    using r unfolding running_def by blast
  have "restorable net sha U {} w (pg_cells d)" using partway_restorable [OF w(1), of "pg_cells d"] by simp
  then obtain res w' where f: "free (w_mgr w) i = Some (res, w_mgr w')" "restorable net sha U ({} - {i}) w' (pg_cells d)"
    "session_view w' = (session_view w)(i := None)" "level (w_mgr w') (qc_max_positions (pg_config d)) ({} - {i})"
    "w_width w' = w_width w" "m_sequences (w_mgr w') = (m_sequences (w_mgr w))(i := None)"
    using free_result [of net sha U "{}" w "pg_cells d" "qc_max_positions (pg_config d)" "{}" i] w by auto
  then obtain mem where "partway net sha U Map.empty (w'\<lparr>w_mem := mem\<rparr>) (pg_cells d)"
    using restorable_clean [OF f(2)] by auto
  then have "running net sha U (d\<lparr>pg_blocks := w_mgr w'\<rparr>) (g(i := None))"
    using f w unfolding running_def by (intro exI [of _ "w'\<lparr>w_mem := mem\<rparr>"]) simp
  then show ?thesis using f w by (auto simp: kept_def)
qed

lemma room_after_free:
  assumes "session_room sha U d" "kept d d'" "m_sequences (pg_blocks d') = (m_sequences (pg_blocks d))(i := None)"
    and fin: "finite (dom (m_sequences (pg_blocks d)))"
  shows "session_room sha U d'"
proof -
  have "size (held_by ((m_sequences (pg_blocks d))(i := None))) \<le> size (held_by (m_sequences (pg_blocks d)))"
  proof (cases "m_sequences (pg_blocks d) i")
    case None
    then show ?thesis by (simp add: fun_upd_idem)
  next
    case (Some s)
    then show ?thesis using held_by_at [OF fin Some] by simp
  qed
  then show ?thesis using assms by (simp add: session_room_def kept_def)
qed

lemma session_fork_result:
  assumes r: "running net sha U d g" and room: "session_room sha U d"
  shows "\<exists>res d'. session_fork d parent child = Some (res, d') \<and> kept d d' \<and>
    (res = Inr () \<longrightarrow> running net sha U d' (g(child := g parent))) \<and> (\<forall>e. res = Inl e \<longrightarrow> running net sha U d' g)"
proof -
  obtain w where w: "partway net sha U Map.empty w (pg_cells d)" "w_mgr w = pg_blocks d"
    "level (pg_blocks d) (qc_max_positions (pg_config d)) {}" "session_view w = g"
    using r unfolding running_def by blast
  let ?m = "w_mgr w" and ?cap = "qc_max_positions (pg_config d)"
  have ok: "world_ok sha U w" and snd: "sound net (w_width w) (w_mem w) {} (pg_cells d)" using w(1) by (simp_all add: partway_none)
  note m = world_okD(1) [OF ok]
  have len: "length (s_table s) \<le> ?cap" if at: "m_sequences ?m parent = Some s" for s
  proof -
    have "length (s_table s) \<le> s_scheduled s" using mgr_okD(6) [OF m at] div_ceil_le [OF mgr_okD(1) [OF m]] by simp
    also have "\<dots> \<le> ?cap" using w(2,3) at by (auto simp: level_def)
    finally show ?thesis .
  qed
  have fits: "room_for ?m (length (s_table s)) 0" if at: "m_sequences ?m parent = Some s" for s
    using len [OF at] room w(2) by (simp add: session_room_def room_for_def u32_max_def usize_max_def)
  have "outcome_ok ?m (fork ?m parent child)" by (rule fork_ok [OF m]) (use fits in \<open>simp add: room_for_def\<close>)
  then obtain res m' where f: "fork ?m parent child = Some (res, m')" "isl res \<Longrightarrow> m' = ?m" by (auto simp: outcome_ok_def)
  show ?thesis
  proof (cases res)
    case (Inl e)
    then show ?thesis using f w r by (simp add: session_fork_def)
  next
    case (Inr u)
    then have f': "fork ?m parent child = Some (Inr (), m')" using f(1) by simp
    obtain s p' where s: "m_sequences ?m parent = Some s" "m_sequences ?m child = None" "s_computed s = s_scheduled s"
      "m' = ?m\<lparr>m_pool := p', m_sequences := (m_sequences ?m)(child \<mapsto> s)\<rparr>" "add_refs (m_pool ?m) (s_table s) = Some p'"
      using f' by (auto simp: fork_def sequence_of_def split: option.splits if_splits Option.bind_splits)
    have bt: "p_block_tokens p' = w_width w"
      using fork_mgr [OF m s(1,2)] fits [OF s(1)] s(5) by (auto simp: room_for_def)
    let ?w' = "w\<lparr>w_mgr := m', w_stream := (w_stream w)(child := w_stream w parent)\<rparr>"
    have "world_ok sha U ?w'" by (rule fork_world [OF ok s(1) fits [OF s(1)] f'])
    then have "partway net sha U Map.empty ?w' (pg_cells d)" using snd s(4) bt by (simp add: partway_none)
    moreover have "level m' ?cap {}"
      using w(2,3) s(1,4) add_refs_published [OF s(5)] by (auto simp: level_def)
    moreover have "session_view ?w' = (session_view w)(child := session_view w parent)"
      using s(1,4) by (auto simp: session_view_def fun_eq_iff split: option.splits)
    ultimately have "running net sha U (d\<lparr>pg_blocks := m'\<rparr>) (g(child := g parent))"
      using w(4) unfolding running_def by (intro exI [of _ ?w']) simp
    moreover have "kept d (d\<lparr>pg_blocks := m'\<rparr>)" using s(4) bt w(2) by (simp add: kept_def)
    ultimately show ?thesis using f' w(2) Inr by (simp add: session_fork_def)
  qed
qed

section \<open>Prefill, extend, decode\<close>

text \<open>An error leaves every sequence as it was, the one that ran excepted: it may be released.\<close>

definition at_most_lost ::
  "('k, 'l) qwen_net \<Rightarrow> (byte list \<Rightarrow> byte list) \<Rightarrow> (hash_keys \<times> token list) set \<Rightarrow> 'k paged_session \<Rightarrow>
   (seq_id \<rightharpoonup> hash_keys \<times> token list) \<Rightarrow> seq_id set \<Rightarrow> bool" where
  "at_most_lost net sha U d g R \<longleftrightarrow> running net sha U d g \<or> running net sha U d (\<lambda>i. if i \<in> R then None else g i)"

definition answers ::
  "('k, 'l) qwen_net \<Rightarrow> (byte list \<Rightarrow> byte list) \<Rightarrow> (hash_keys \<times> token list) set \<Rightarrow> 'k paged_session \<Rightarrow>
   (seq_id \<rightharpoonup> hash_keys \<times> token list) \<Rightarrow> seq_id set \<Rightarrow> ('a \<Rightarrow> 'k paged_session \<Rightarrow> bool) \<Rightarrow> ('k, 'a) session_result \<Rightarrow> bool" where
  "answers net sha U d g R good r \<longleftrightarrow> (\<exists>res d'. r = Some (res, d') \<and> kept d d' \<and>
     (\<forall>a. res = Inr a \<longrightarrow> good a d') \<and> (\<forall>e. res = Inl e \<longrightarrow> at_most_lost net sha U d' g R))"

lemma answersI:
  "r = Some (res, d') \<Longrightarrow> kept d d' \<Longrightarrow> (\<And>a. res = Inr a \<Longrightarrow> good a d') \<Longrightarrow>
    (\<And>e. res = Inl e \<Longrightarrow> at_most_lost net sha U d' g R) \<Longrightarrow> answers net sha U d g R good r"
  unfolding answers_def by blast

lemma answers_refused: "running net sha U d g \<Longrightarrow> answers net sha U d g R good (Some (Inl e, d))"
  by (rule answersI [OF refl]) (simp_all add: at_most_lost_def)

lemma lost_one: "running net sha U d (g(i := None)) \<Longrightarrow> at_most_lost net sha U d g {i}"
proof -
  have "(\<lambda>j. if j \<in> {i} then None else g j) = g(i := None)" by auto
  then show "running net sha U d (g(i := None)) \<Longrightarrow> ?thesis" by (simp add: at_most_lost_def)
qed

lemma lost_none: "running net sha U d g \<Longrightarrow> at_most_lost net sha U d g R"
  by (simp add: at_most_lost_def)

lemma mgr_ok_running: "running net sha U d g \<Longrightarrow> mgr_ok (pg_blocks d)"
  using world_okD(1) unfolding running_def partway_def by metis

lemma extend_result:
  assumes r: "running net sha U d g" and room: "session_room sha U d"
    and U: "\<And>k st. g i = Some (k, st) \<Longrightarrow> (k, st @ ids) \<in> U"
  shows "answers net sha U d g {i} (\<lambda>l d'. \<exists>k st. g i = Some (k, st) \<and> logits_of net (st @ ids) l \<and>
    running net sha U d' (g(i \<mapsto> (k, st @ ids)))) (extend_last_logits sha net d i ids)"
proof -
  let ?cap = "qc_max_positions (pg_config d)"
  obtain w where w: "partway net sha U Map.empty w (pg_cells d)" "w_mgr w = pg_blocks d"
    "level (w_mgr w) ?cap {}" "session_view w = g"
    using r unfolding running_def by auto
  have ok: "world_ok sha U w" using w(1) by (simp add: partway_def)
  have fail: ?thesis if "extend_last_logits sha net d i ids = Some (Inl e, d)" for e
    using that answers_refused [OF r] by simp
  show ?thesis
  proof (cases "m_sequences (w_mgr w) i")
    case None
    then show ?thesis using w(2) by (intro fail) (simp add: extend_last_logits_def num_computed_def sequence_of_def)
  next
    case (Some s)
    obtain st where st: "w_stream w i = Some st" using world_okD(2) [OF ok] Some by blast
    have ls: "length st = s_scheduled s" by (rule view_length [OF ok Some st])
    have comp: "num_computed (pg_blocks d) i = Inr (length st)"
      using w(2,3) Some ls by (auto simp: num_computed_def sequence_of_def level_def)
    have gi: "g i = Some (s_keys s, st)" using Some st w(4) session_view_at by blast
    show ?thesis
    proof (cases "length st = 0 \<or> validate_input_ids (pg_config d) ids (length st) ?cap \<noteq> Inr ()")
      case True
      show ?thesis
      proof (cases "length st = 0")
        case True
        then show ?thesis using comp by (intro fail) (simp add: extend_last_logits_def)
      next
        case False
        then obtain e where "validate_input_ids (pg_config d) ids (length st) ?cap = Inl e"
          using True by (cases "validate_input_ids (pg_config d) ids (length st) ?cap") auto
        then show ?thesis using comp False by (intro fail [of e]) (simp add: extend_last_logits_def)
      qed
    next
      case False
      then have v: "length st \<noteq> 0" "ids \<noteq> []" "length (st @ ids) \<le> ?cap"
        "validate_input_ids (pg_config d) ids (length st) ?cap = Inr ()"
        by (auto simp: validate_Inr)
      have run: "extend_last_logits sha net d i ids = on_ok (with_blocks d (allocate (pg_blocks d) i ids)) (\<lambda>allocation d.
           run_forward sha net d i ids (al_positions allocation) (al_copy allocation))"
        using comp v(1,4) by (simp add: extend_last_logits_def)
      have capu: "?cap \<le> usize_max" using session_room_cap [OF room] by simp
      have vi: "session_view w i = Some (s_keys s, st)" using gi w(4) by simp
      show ?thesis
      proof (rule allocate_session [OF ok w(3) capu vi U [OF gi] v(3)])
        fix e assume "allocate (w_mgr w) i ids = Some (Inl e, w_mgr w)"
        then show ?thesis using run w(2) fail by auto
      next
        fix al w' s'
        assume a: "allocate (w_mgr w) i ids = Some (Inr al, w_mgr w')" "placing sha U w i al w'"
          "m_sequences (w_mgr w') i = Some s'" "w_stream w' i = Some (st @ ids)" "s_scheduled s' = length (st @ ids)"
          "al_positions al = \<lparr>ts_start = length st, ts_end = s_scheduled s'\<rparr>"
          "session_view w' = (session_view w)(i \<mapsto> (s_keys s, st @ ids))" "level (w_mgr w') ?cap {i}"
        let ?d = "d\<lparr>pg_blocks := w_mgr w'\<rparr>"
        have kd: "kept d ?d" using placing_width [OF a(2)] w(2) by (simp add: kept_def)
        have "length st < s_scheduled s'" using a(5) v(2) by simp
        from run_forward_result [OF _ a(2) _ a(3,4,6) this, where net = net and d = ?d] obtain res d' where f:
          "run_forward sha net ?d i ids (al_positions al) (al_copy al) = Some (res, d')" "kept ?d d'"
          "\<And>l. res = Inr l \<Longrightarrow> logits_of net (st @ ids) l \<and> running net sha U d' (session_view w')"
          "\<And>e. res = Inl e \<Longrightarrow> running net sha U d' ((session_view w')(i := None))"
          using w(1) a(8) by auto
        have "running net sha U d' (g(i := None))" if "res = Inl e" for e using f(4) [OF that] a(7) w(4) by simp
        moreover have "extend_last_logits sha net d i ids = Some (res, d')" using run a(1) w(2) f(1) by simp
        ultimately show ?thesis using f(3) gi a(7) w(4) kept_trans [OF kd f(2)] lost_one by (intro answersI) auto
      qed
    qed
  qed
qed

text \<open>The forward of an admission, as \<open>prefill_with_keys\<close> and \<open>prefill_chunk\<close> run it.\<close>

lemma admitted_forward:
  assumes r: "running net sha U d g" and room: "session_room sha U d"
    and U: "(keys, ids) \<in> U" and len: "length ids \<le> qc_max_positions (pg_config d)" and n: "0 < n" and ids: "ids \<noteq> []"
    and hit: "hit = lookup_prefix sha (pg_blocks d) ids keys"
  obtains (refused) e where
      "BlockManager.admit (pg_blocks d) i hit (take n (drop (h_cached_tokens hit) ids)) = Some (Inl e, pg_blocks d)"
      "h_cached_tokens hit < length ids"
  | (ran) al m' res d' where
      "BlockManager.admit (pg_blocks d) i hit (take n (drop (h_cached_tokens hit) ids)) = Some (Inr al, m')"
      "h_cached_tokens hit < length ids"
      "al_positions al = \<lparr>ts_start = h_cached_tokens hit, ts_end = min (h_cached_tokens hit + n) (length ids)\<rparr>" "g i = None"
      "run_forward sha net (d\<lparr>pg_blocks := m'\<rparr>) i (take n (drop (h_cached_tokens hit) ids)) (al_positions al) (al_copy al) = Some (res, d')"
      "kept d d'"
      "\<And>l. res = Inr l \<Longrightarrow> logits_of net (take (h_cached_tokens hit + n) ids) l"
      "\<And>l. res = Inr l \<Longrightarrow> running net sha U d' (g(i \<mapsto> (keys, take (h_cached_tokens hit + n) ids)))"
      "\<And>l. res = Inr l \<Longrightarrow> p_published_tokens (m_pool m') \<le> p_published_tokens (m_pool (pg_blocks d'))"
      "\<And>e. res = Inl e \<Longrightarrow> running net sha U d' g"
proof -
  let ?cap = "qc_max_positions (pg_config d)" and ?c = "h_cached_tokens hit"
  obtain w where w: "partway net sha U Map.empty w (pg_cells d)" "w_mgr w = pg_blocks d"
    "level (w_mgr w) ?cap {}" "session_view w = g"
    using r unfolding running_def by auto
  have ok: "world_ok sha U w" using w(1) by (simp add: partway_def)
  have hit': "hit = lookup_prefix sha (w_mgr w) ids keys" using hit w(2) by simp
  have ctx: "contexts_ok sha (w_width w) U" "size (held_by (m_sequences (w_mgr w))) + ?cap \<le> u32_max"
    using room w(2) by (simp_all add: session_room_def)
  have cl: "?c < length ids" unfolding hit' by (rule lookup_shorter [OF world_okD(1) [OF ok] ids])
  show thesis
  proof (rule admit_session [OF ok w(3) session_room_cap [OF room] ctx(1) U len ctx(2), folded hit', of i n])
    fix e assume "BlockManager.admit (w_mgr w) i hit (take n (drop ?c ids)) = Some (Inl e, w_mgr w)"
    then show thesis using w(2) cl by (intro refused) simp_all
  next
    fix al w' s'
    assume a: "BlockManager.admit (w_mgr w) i hit (take n (drop ?c ids)) = Some (Inr al, w_mgr w')"
       "placing sha U w i al w'" "m_sequences (w_mgr w') i = Some s'" "w_stream w' i = Some (take (?c + n) ids)"
       "s_scheduled s' = length (take (?c + n) ids)" "al_positions al = \<lparr>ts_start = ?c, ts_end = s_scheduled s'\<rparr>"
       "session_view w i = None" "session_view w' = (session_view w)(i \<mapsto> (keys, take (?c + n) ids))" "level (w_mgr w') ?cap {i}"
    let ?d = "d\<lparr>pg_blocks := w_mgr w'\<rparr>"
    have kd: "kept d ?d" using placing_width [OF a(2)] w(2) by (simp add: kept_def)
    have "?c < s_scheduled s'" using a(5) cl n by simp
    moreover have "drop ?c (take (?c + n) ids) = take n (drop ?c ids)" by (simp add: drop_take)
    ultimately obtain res d' where f:
      "run_forward sha net ?d i (take n (drop ?c ids)) (al_positions al) (al_copy al) = Some (res, d')" "kept ?d d'"
      "\<And>l. res = Inr l \<Longrightarrow> logits_of net (take (?c + n) ids) l \<and> running net sha U d' (session_view w') \<and>
         p_published_tokens (m_pool (w_mgr w')) \<le> p_published_tokens (m_pool (pg_blocks d'))"
      "\<And>e. res = Inl e \<Longrightarrow> running net sha U d' ((session_view w')(i := None))"
      using run_forward_result [OF _ a(2) _ a(3,4,6), where net = net and d = ?d] w(1) a(9) by auto
    have lost: "running net sha U d' g" if "res = Inl e" for e
      using f(4) [OF that] a(7,8) w(4) by (simp add: fun_upd_idem)
    have "al_positions al = \<lparr>ts_start = ?c, ts_end = min (?c + n) (length ids)\<rparr>" using a(5,6) by (simp add: min.commute)
    then show thesis
      by (intro ran [OF _ cl _ _ f(1) kept_trans [OF kd f(2)]]) (use a(1,7,8) w(2,4) f(3) lost in simp_all)
  qed
qed

lemma prefill_result:
  assumes r: "running net sha U d g" and room: "session_room sha U d" and U: "(keys, ids) \<in> U"
  shows "answers net sha U d g {i} (\<lambda>p d'. logits_of net ids (pp_logits p) \<and> running net sha U d' (g(i \<mapsto> (keys, ids))))
    (prefill_with_keys sha net d i ids keys)"
proof (cases "validate_input_ids (pg_config d) ids 0 (qc_max_positions (pg_config d))")
  case (Inl e)
  then show ?thesis using answers_refused [OF r] by (simp add: prefill_with_keys_def)
next
  case (Inr u)
  then have v: "ids \<noteq> []" "length ids \<le> qc_max_positions (pg_config d)" by (simp_all add: validate_Inr)
  define first where "first = (case num_tokens (pg_blocks d) i of
      Inr _ \<Rightarrow> with_blocks d (free (pg_blocks d) i) | Inl _ \<Rightarrow> Some (Inr (), d))"
  have fin: "finite (dom (m_sequences (pg_blocks d)))"
    using r mgr_okD(2) [OF world_okD(1)] unfolding running_def partway_def by metis
  obtain res1 d1 where d1: "first = Some (res1, d1)" "kept d d1" "running net sha U d1 (g(i := None))" "session_room sha U d1"
  proof (cases "num_tokens (pg_blocks d) i")
    case (Inl e)
    then have none: "m_sequences (pg_blocks d) i = None" by (auto simp: num_tokens_def sequence_of_def split: option.splits)
    obtain w where "w_mgr w = pg_blocks d" "session_view w = g" using r unfolding running_def by blast
    then have "g i = None" using none by (auto simp: session_view_def)
    then show ?thesis using that [of "Inr ()" d] Inl r room by (simp add: first_def fun_upd_idem)
  next
    case (Inr x)
    obtain res m' where f: "free (pg_blocks d) i = Some (res, m')" "kept d (d\<lparr>pg_blocks := m'\<rparr>)"
      "running net sha U (d\<lparr>pg_blocks := m'\<rparr>) (g(i := None))" "m_sequences m' = (m_sequences (pg_blocks d))(i := None)"
      using session_free_result [OF r] by blast
    then show ?thesis using that [of "kv_error res" "d\<lparr>pg_blocks := m'\<rparr>"] Inr room_after_free [OF room f(2) _ fin] by (simp add: first_def)
  qed
  define hit where "hit = lookup_prefix sha (pg_blocks d1) ids keys"
  have run: "prefill_with_keys sha net d i ids keys = on_ok first (\<lambda>_ d.
       let hit = lookup_prefix sha (pg_blocks d) ids keys; cached = h_cached_tokens hit
       in if cached > length ids then None
          else on_ok (with_blocks d (BlockManager.admit (pg_blocks d) i hit (drop cached ids))) (\<lambda>allocation d.
            let published = p_published_tokens (m_pool (pg_blocks d))
            in on_ok (run_forward sha net d i (drop cached ids) (al_positions allocation) (al_copy allocation)) (\<lambda>logits d. do {
                 written \<leftarrow> checked_sub (p_published_tokens (m_pool (pg_blocks d))) published;
                 Some (Inr \<lparr>pp_logits = logits, pp_cached_tokens = cached, pp_cache_write_tokens = written\<rparr>, d) })))"
    using Inr by (simp add: prefill_with_keys_def first_def)
  have cap: "length ids \<le> qc_max_positions (pg_config d1)" "0 < length ids" using v d1(2) by (simp_all add: kept_def)
  have whole: "take (length ids) (drop (h_cached_tokens hit) ids) = drop (h_cached_tokens hit) ids"
    "take (h_cached_tokens hit + length ids) ids = ids" by simp_all
  show ?thesis
  proof (cases res1)
    case (Inl e)
    then show ?thesis using run d1 lost_one by (simp add: answers_def)
  next
    case ok1: (Inr u)
    show ?thesis
    proof (rule admitted_forward [OF d1(3,4) U cap v(1) hit_def, of i, unfolded whole])
      fix e assume "BlockManager.admit (pg_blocks d1) i hit (drop (h_cached_tokens hit) ids) = Some (Inl e, pg_blocks d1)"
        "h_cached_tokens hit < length ids"
      then show ?thesis using run d1 ok1 lost_one [OF d1(3)] by (auto simp: hit_def Let_def answers_def)
    next
      fix al m' res d'
      assume a: "BlockManager.admit (pg_blocks d1) i hit (drop (h_cached_tokens hit) ids) = Some (Inr al, m')"
        "h_cached_tokens hit < length ids"
        "run_forward sha net (d1\<lparr>pg_blocks := m'\<rparr>) i (drop (h_cached_tokens hit) ids) (al_positions al) (al_copy al) = Some (res, d')"
        "kept d1 d'" "\<And>l. res = Inr l \<Longrightarrow> logits_of net ids l"
        "\<And>l. res = Inr l \<Longrightarrow> running net sha U d' ((g(i := None))(i \<mapsto> (keys, ids)))"
        "\<And>l. res = Inr l \<Longrightarrow> p_published_tokens (m_pool m') \<le> p_published_tokens (m_pool (pg_blocks d'))"
        "\<And>e. res = Inl e \<Longrightarrow> running net sha U d' (g(i := None))"
      then show ?thesis using run d1(1) ok1 kept_trans [OF d1(2) a(4)] lost_one
        by (cases res) (auto simp: hit_def Let_def checked_sub_def answers_def)
    qed
  qed
qed

section \<open>Chunks\<close>

lemma chunk_end_grows:
  "chunk_end m start len budget \<noteq> start \<Longrightarrow> start < len \<Longrightarrow> start < chunk_end m start len budget"
  by (auto simp: chunk_end_def Let_def split: if_splits)

text \<open>What a sequence holds after a chunk.\<close>

definition chunk_stream ::
  "(seq_id \<rightharpoonup> hash_keys \<times> token list) \<Rightarrow> seq_id \<Rightarrow> hash_keys \<Rightarrow> token list \<Rightarrow> 'l paged_chunk \<Rightarrow> hash_keys \<times> token list" where
  "chunk_stream g i keys ids c =
     (case g i of
        None \<Rightarrow> (keys, take (pk_cached_tokens c + pk_computed c) ids)
      | Some (k, st) \<Rightarrow> (k, st @ take (pk_computed c) (drop (length st) ids)))"

text \<open>A chunk answers with logits when it finishes the prompt, and then with its tokens' own.\<close>

definition chunk_logits :: "('k, 'l) qwen_net \<Rightarrow> token list \<Rightarrow> token list \<Rightarrow> 'l paged_chunk \<Rightarrow> bool" where
  "chunk_logits net st ids c \<longleftrightarrow>
     (if length st = length ids then \<exists>l. pk_logits c = Some l \<and> logits_of net st l else pk_logits c = None)"

definition chunk_right ::
  "('k, 'l) qwen_net \<Rightarrow> (byte list \<Rightarrow> byte list) \<Rightarrow> (hash_keys \<times> token list) set \<Rightarrow> 'k paged_session \<Rightarrow>
   (seq_id \<rightharpoonup> hash_keys \<times> token list) \<Rightarrow> seq_id \<Rightarrow> hash_keys \<Rightarrow> token list \<Rightarrow> 'l paged_chunk \<Rightarrow> bool" where
  "chunk_right net sha U d g i keys ids c \<longleftrightarrow> c = nothing_computed \<and> running net sha U d g \<or>
     running net sha U d (g(i \<mapsto> chunk_stream g i keys ids c)) \<and>
     chunk_logits net (snd (chunk_stream g i keys ids c)) ids c"

lemma chunk_forward_run:
  assumes al: "al_positions al = \<lparr>ts_start = start, ts_end = start + n\<rparr>"
    and run: "run_forward sha net d i (take n (drop start ids)) (al_positions al) (al_copy al) = Some (res, d')"
    and pub: "\<And>l. res = Inr l \<Longrightarrow> p_published_tokens (m_pool (pg_blocks d)) \<le> p_published_tokens (m_pool (pg_blocks d'))"
  shows "\<exists>r. chunk_forward sha net i ids start cached al d = Some (r, d') \<and> (\<forall>e. res = Inl e \<longrightarrow> r = Inl e) \<and>
    (\<forall>l. res = Inr l \<longrightarrow> (\<exists>written. r = Inr \<lparr>pk_computed = n, pk_cached_tokens = cached, pk_cache_write_tokens = written,
       pk_logits = (if start + n = length ids then Some l else None)\<rparr>))"
  using assms by (cases res) (auto simp: chunk_forward_def Let_def checked_sub_def)

lemma chunk_first:
  assumes r: "running net sha U d g" and room: "session_room sha U d" and U: "(keys, ids) \<in> U"
    and budget: "budget \<noteq> 0" and new: "m_sequences (pg_blocks d) i = None" and gi: "g i = None"
  shows "answers net sha U d g {i} (\<lambda>c d'. chunk_right net sha U d' g i keys ids c) (prefill_chunk sha net d i ids keys budget)"
proof (cases "validate_input_ids (pg_config d) ids 0 (qc_max_positions (pg_config d))")
  case (Inl e)
  then show ?thesis using budget new answers_refused [OF r] by (simp add: prefill_chunk_def num_tokens_def sequence_of_def)
next
  case (Inr u)
  then have v: "ids \<noteq> []" "length ids \<le> qc_max_positions (pg_config d)" by (simp_all add: validate_Inr)
  define hit where "hit = lookup_prefix sha (pg_blocks d) ids keys"
  let ?c = "h_cached_tokens hit"
  let ?stop = "chunk_end (pg_blocks d) ?c (length ids) budget"
  let ?n = "?stop - ?c"
  have nt: "num_tokens (pg_blocks d) i = Inl (UnknownSequence i)" using new by (simp add: num_tokens_def sequence_of_def)
  have cl: "?c < length ids"
    using lookup_shorter [OF _ v(1)] r mgr_ok_running unfolding hit_def by blast
  show ?thesis
  proof (cases "?stop = ?c")
    case True
    then show ?thesis using budget nt Inr r by (simp add: prefill_chunk_def Let_def hit_def answers_def chunk_right_def)
  next
    case False
    have n: "0 < ?n" using chunk_end_grows [OF False cl] by simp
    have run: "prefill_chunk sha net d i ids keys budget =
      on_ok (with_blocks d (BlockManager.admit (pg_blocks d) i hit (take ?n (drop ?c ids)))) (\<lambda>allocation d.
        chunk_forward sha net i ids ?c ?c allocation d)"
      using budget nt Inr False by (simp add: prefill_chunk_def Let_def hit_def)
    show ?thesis
    proof (rule admitted_forward [OF r room U v(2) n v(1) hit_def, of i])
      fix e assume "BlockManager.admit (pg_blocks d) i hit (take ?n (drop ?c ids)) = Some (Inl e, pg_blocks d)"
      then show ?thesis using run answers_refused [OF r] by simp
    next
      fix al m' res d'
      assume a: "BlockManager.admit (pg_blocks d) i hit (take ?n (drop ?c ids)) = Some (Inr al, m')"
        "al_positions al = \<lparr>ts_start = ?c, ts_end = min (?c + ?n) (length ids)\<rparr>"
        "run_forward sha net (d\<lparr>pg_blocks := m'\<rparr>) i (take ?n (drop ?c ids)) (al_positions al) (al_copy al) = Some (res, d')"
        "kept d d'" "\<And>l. res = Inr l \<Longrightarrow> logits_of net (take (?c + ?n) ids) l"
        "\<And>l. res = Inr l \<Longrightarrow> running net sha U d' (g(i \<mapsto> (keys, take (?c + ?n) ids)))"
        "\<And>l. res = Inr l \<Longrightarrow> p_published_tokens (m_pool m') \<le> p_published_tokens (m_pool (pg_blocks d'))"
        "\<And>e. res = Inl e \<Longrightarrow> running net sha U d' g"
      define k where "k = min ?n (length ids - ?c)"
      have al: "al_positions al = \<lparr>ts_start = ?c, ts_end = ?c + k\<rparr>" using a(2) cl by (simp add: k_def min_add_distrib_right)
      have tk: "take ?n (drop ?c ids) = take k (drop ?c ids)" "take (?c + ?n) ids = take (?c + k) ids" "?c + k \<le> length ids"
        using cl by (auto simp: k_def min_def)
      show ?thesis using chunk_forward_run [OF al a(3) [unfolded tk(1)], of ?c] run a(1,4-8) gi tk lost_none
        by (cases res) (auto simp: chunk_right_def chunk_logits_def chunk_stream_def answers_def)
    qed
  qed
qed

lemma chunk_next:
  assumes r: "running net sha U d g" and room: "session_room sha U d"
    and gi: "g i = Some (key, st)" and U: "(key, st @ drop (length st) ids) \<in> U" and budget: "budget \<noteq> 0"
  shows "answers net sha U d g {i} (\<lambda>c d'. chunk_right net sha U d' g i keys ids c) (prefill_chunk sha net d i ids keys budget)"
proof -
  let ?cap = "qc_max_positions (pg_config d)" and ?c = "length st"
  let ?stop = "chunk_end (pg_blocks d) ?c (length ids) budget"
  let ?n = "?stop - ?c"
  let ?chunk = "take ?n (drop ?c ids)"
  obtain w where w: "partway net sha U Map.empty w (pg_cells d)" "w_mgr w = pg_blocks d"
    "level (w_mgr w) ?cap {}" "session_view w = g"
    using r unfolding running_def by auto
  have ok: "world_ok sha U w" using w(1) by (simp add: partway_def)
  have vi: "session_view w i = Some (key, st)" using gi w(4) by simp
  obtain s where s: "m_sequences (w_mgr w) i = Some s" "w_stream w i = Some st" using vi unfolding session_view_at by blast
  have nt: "num_tokens (pg_blocks d) i = Inr (s_scheduled s)" and nc: "num_computed (pg_blocks d) i = Inr ?c"
    using w(2,3) s(1) view_length [OF ok s] by (auto simp: num_computed_def num_tokens_def sequence_of_def level_def)
  show ?thesis
  proof (cases "?c \<ge> length ids \<or> ?stop = ?c")
    case True
    then show ?thesis using budget nt nc r answers_refused [OF r]
      by (auto simp: prefill_chunk_def Let_def answers_def chunk_right_def lost_none)
  next
    case False
    show ?thesis
    proof (cases "validate_input_ids (pg_config d) ?chunk ?c ?cap")
      case (Inl e)
      then show ?thesis using budget nt nc False answers_refused [OF r] by (simp add: prefill_chunk_def Let_def)
    next
      case (Inr u)
      then have v: "length (st @ ?chunk) \<le> ?cap" by (auto simp: validate_Inr)
      have run: "prefill_chunk sha net d i ids keys budget =
        on_ok (with_blocks d (allocate (pg_blocks d) i ?chunk)) (\<lambda>allocation d. chunk_forward sha net i ids ?c 0 allocation d)"
        using budget nt nc False Inr by (simp add: prefill_chunk_def Let_def)
      have capu: "?cap \<le> usize_max" using session_room_cap [OF room] by simp
      define k where "k = min ?n (length ids - ?c)"
      have tk: "?chunk = take k (drop ?c ids)" "0 < k" "k \<le> length ids - ?c"
        using False chunk_end_grows [of "pg_blocks d" ?c "length ids" budget] by (auto simp: k_def min_def)
      have "(key, take (?c + ?n) (st @ drop ?c ids)) \<in> U"
        using U room unfolding session_room_def contexts_ok_def by blast
      then have sub: "(key, st @ ?chunk) \<in> U" by simp
      show ?thesis
      proof (rule allocate_session [OF ok w(3) capu vi sub v])
        fix e assume "allocate (w_mgr w) i ?chunk = Some (Inl e, w_mgr w)"
        then show ?thesis using run w(2) answers_refused [OF r] by simp
      next
        fix al w' s'
        assume a: "allocate (w_mgr w) i ?chunk = Some (Inr al, w_mgr w')" "placing sha U w i al w'"
          "m_sequences (w_mgr w') i = Some s'" "w_stream w' i = Some (st @ ?chunk)" "s_scheduled s' = length (st @ ?chunk)"
          "al_positions al = \<lparr>ts_start = length st, ts_end = s_scheduled s'\<rparr>"
          "session_view w' = (session_view w)(i \<mapsto> (key, st @ ?chunk))" "level (w_mgr w') ?cap {i}"
        let ?d = "d\<lparr>pg_blocks := w_mgr w'\<rparr>"
        have kd: "kept d ?d" using placing_width [OF a(2)] w(2) by (simp add: kept_def)
        have sch: "s_scheduled s' = ?c + k" using a(5) tk by simp
        then have "?c < s_scheduled s'" using tk(2) by simp
        from run_forward_result [OF _ a(2) _ a(3,4,6) this, where net = net and d = ?d] obtain res d' where f:
          "run_forward sha net ?d i ?chunk (al_positions al) (al_copy al) = Some (res, d')" "kept ?d d'"
          "\<And>l. res = Inr l \<Longrightarrow> logits_of net (st @ ?chunk) l \<and> running net sha U d' (session_view w') \<and>
             p_published_tokens (m_pool (pg_blocks ?d)) \<le> p_published_tokens (m_pool (pg_blocks d'))"
          "\<And>e. res = Inl e \<Longrightarrow> running net sha U d' ((session_view w')(i := None))"
          using w(1) a(8) by auto
        have al: "al_positions al = \<lparr>ts_start = ?c, ts_end = ?c + k\<rparr>" using a(6) sch by simp
        have lost: "at_most_lost net sha U d' g {i}" if "res = Inl e" for e
          using f(4) [OF that] a(7) w(4) by (intro lost_one) simp
        show ?thesis
          using chunk_forward_run [OF al f(1) [unfolded tk(1)], of 0] run a(1,7) w(2,4) f(3) lost gi tk kept_trans [OF kd f(2)]
          by (cases res) (auto simp: chunk_right_def chunk_logits_def chunk_stream_def answers_def)
      qed
    qed
  qed
qed

lemma chunk_result:
  assumes r: "running net sha U d g" and room: "session_room sha U d"
    and U: "g i = None \<Longrightarrow> (keys, ids) \<in> U" "\<And>k st. g i = Some (k, st) \<Longrightarrow> (k, st @ drop (length st) ids) \<in> U"
  shows "answers net sha U d g {i} (\<lambda>c d'. chunk_right net sha U d' g i keys ids c) (prefill_chunk sha net d i ids keys budget)"
proof (cases "budget = 0")
  case True
  then show ?thesis using answers_refused [OF r] by (simp add: prefill_chunk_def)
next
  case False
  show ?thesis
  proof (cases "g i")
    case None
    obtain w where "world_ok sha U w" "w_mgr w = pg_blocks d" "session_view w = g"
      using r unfolding running_def partway_def by blast
    then have "m_sequences (pg_blocks d) i = None" using None session_view_none by metis
    then show ?thesis by (intro chunk_first [OF r room U(1) [OF None] False _ None])
  next
    case (Some v)
    then show ?thesis using chunk_next [OF r room _ U(2) False] by (cases v) simp
  qed
qed

end
