(* ===== verification/PagedBatch.thy ===== *)
theory PagedBatch
  imports PagedSerial
begin

text \<open>
  \<open>decode_batch\<close> of the paged session: the check over the rows, the reservations of one slot per row
  with their copies, the one forward of the batch, the commits, and the release of every row when
  any step fails.
\<close>

section \<open>The check over the rows\<close>

lemma card_live_tables:
  assumes fin: "finite (dom seqs)" and S: "\<And>i. i \<in> S \<Longrightarrow> \<exists>s. seqs i = Some s \<and> s_table s \<noteq> []"
  shows "card S \<le> size (held_by seqs)"
proof -
  have sub: "S \<subseteq> dom seqs" using S by blast
  have "card S = (\<Sum>i\<in>S. 1)" by simp
  also have "\<dots> \<le> (\<Sum>i\<in>S. length (s_table (the (seqs i))))"
    by (rule sum_mono) (use S in \<open>fastforce simp: Suc_le_eq\<close>)
  also have "\<dots> \<le> (\<Sum>i\<in>dom seqs. length (s_table (the (seqs i))))" by (rule sum_mono2 [OF fin sub]) simp
  also have "\<dots> = size (held_by seqs)" by (simp add: held_by_def size_multiset_sum)
  finally show ?thesis .
qed

lemma cost_one_small:
  assumes m: "mgr_ok m" and at: "m_sequences m i = Some s" and fits: "s_scheduled s + 1 \<le> usize_max"
  obtains c where "append_cost m i 1 = Some (Inr c)" "c \<le> 2"
proof -
  let ?bt = "p_block_tokens (m_pool m)"
  have bt: "0 < ?bt" by (rule mgr_okD(1) [OF m])
  have "div_ceil (s_scheduled s + 1) ?bt \<le> Suc (div_ceil (s_scheduled s) ?bt)"
  proof -
    have "s_scheduled s + 1 \<le> s_scheduled s + ?bt" using bt by simp
    then have "div_ceil (s_scheduled s + 1) ?bt \<le> div_ceil (s_scheduled s + ?bt) ?bt" by (rule div_ceil_mono [OF bt])
    also have "div_ceil (s_scheduled s + ?bt) ?bt = Suc (div_ceil (s_scheduled s) ?bt)" using bt by (simp add: div_ceil_def div_add_self2)
    finally show ?thesis .
  qed
  then show thesis
    using that cost_eq [OF mgr_okD(7,6) [OF m at] fits] at mgr_okD(6) [OF m at]
    by (auto simp: append_cost_def sequence_of_def split: if_splits)
qed

definition batch_row_ok :: "qwen_config \<Rightarrow> (seq_id \<rightharpoonup> hash_keys \<times> token list) \<Rightarrow> seq_id \<times> token \<Rightarrow> bool" where
  "batch_row_ok config g row \<longleftrightarrow>
     (\<exists>k st. g (fst row) = Some (k, st) \<and> st \<noteq> [] \<and> length st < qc_max_positions config)"

lemma decode_needs_result:
  assumes m: "mgr_ok (pg_blocks d)" and lv: "level (pg_blocks d) (qc_max_positions (pg_config d)) {}"
    and refs: "size (held_by (m_sequences (pg_blocks d))) \<le> u32_max" and cap: "qc_max_positions (pg_config d) \<le> usize_max"
    and g: "\<And>i s. m_sequences (pg_blocks d) i = Some s \<Longrightarrow> \<exists>k st. g i = Some (k, st) \<and> length st = s_scheduled s"
    and earlier: "distinct earlier" "\<And>i. i \<in> set earlier \<Longrightarrow> \<exists>s. m_sequences (pg_blocks d) i = Some s \<and> s_table s \<noteq> []"
    and needed: "needed \<le> 2 * length earlier"
  shows "\<exists>r. decode_needs d earlier rows needed = Some r \<and> (\<forall>n. r = Inr n \<longrightarrow>
    distinct (earlier @ map fst rows) \<and> (\<forall>row\<in>set rows. batch_row_ok (pg_config d) g row))"
  using earlier needed
proof (induction rows arbitrary: earlier needed)
  case Nil
  then show ?case by simp
next
  case (Cons row rows)
  let ?m = "pg_blocks d" and ?cap = "qc_max_positions (pg_config d)"
  obtain i t where row: "row = (i, t)" by (cases row)
  show ?case
  proof (cases "i \<in> set earlier \<or> m_sequences ?m i = None")
    case True
    then show ?thesis using row by (auto simp: num_computed_def sequence_of_def)
  next
    case False
    then obtain s where s: "m_sequences ?m i = Some s" and new: "i \<notin> set earlier" by blast
    have nc: "num_computed ?m i = Inr (s_scheduled s)"
      using lv s by (auto simp: num_computed_def sequence_of_def level_def)
    show ?thesis
    proof (cases "s_scheduled s = 0 \<or> validate_input_ids (pg_config d) [t] (s_scheduled s) ?cap \<noteq> Inr ()")
      case True
      then show ?thesis using row new nc
        by (cases "validate_input_ids (pg_config d) [t] (s_scheduled s) ?cap") auto
    next
      case False
      then have pos: "0 < s_scheduled s" and v: "validate_input_ids (pg_config d) [t] (s_scheduled s) ?cap = Inr ()" by auto
      then have fits: "s_scheduled s + 1 \<le> ?cap" by (simp add: validate_Inr)
      then obtain c where c: "append_cost ?m i 1 = Some (Inr c)" "c \<le> 2"
        using cost_one_small [OF m s] cap by (metis le_trans)
      have table: "s_table s \<noteq> []"
        using mgr_okD(6) [OF m s] div_less_div_ceil [OF mgr_okD(1) [OF m] pos] by auto
      have e: "distinct (earlier @ [i])" "\<And>j. j \<in> set (earlier @ [i]) \<Longrightarrow> \<exists>s. m_sequences ?m j = Some s \<and> s_table s \<noteq> []"
        using Cons.prems(1,2) new s table by auto
      have "card (set (earlier @ [i])) \<le> size (held_by (m_sequences ?m))"
        by (rule card_live_tables [OF mgr_okD(2) [OF m] e(2)])
      then have "length (earlier @ [i]) \<le> u32_max" using refs distinct_card [OF e(1)] by simp
      then have "needed + c \<le> usize_max" "needed + c \<le> 2 * length (earlier @ [i])"
        using Cons.prems(3) c(2) by (simp_all add: u32_max_def usize_max_def)
      then obtain r where r: "decode_needs d (earlier @ [i]) rows (needed + c) = Some r"
        "\<And>n. r = Inr n \<Longrightarrow> distinct ((earlier @ [i]) @ map fst rows) \<and> (\<forall>row\<in>set rows. batch_row_ok (pg_config d) g row)"
        using Cons.IH [OF e, of "needed + c"] by blast
      have this_row: "batch_row_ok (pg_config d) g row"
        using g [OF s] pos fits row by (fastforce simp: batch_row_ok_def)
      have "decode_needs d earlier (row # rows) needed = Some r"
        using row new nc pos v c(1) r(1) \<open>needed + c \<le> usize_max\<close> by (simp add: add_usize_def)
      then show ?thesis using r(2) this_row row by auto
    qed
  qed
qed

section \<open>Rows committed or released\<close>

lemma commit_rows_result:
  assumes "partway net sha U Map.empty w (pg_cells d)" "w_mgr w = pg_blocks d" "level (w_mgr w) cap behind"
    and "set is \<subseteq> dom (m_sequences (w_mgr w))"
  shows "\<exists>d' w'. commit_rows sha d is = Some (Inr (), d') \<and> kept d d' \<and> w_mgr w' = pg_blocks d' \<and>
    partway net sha U Map.empty w' (pg_cells d') \<and> session_view w' = session_view w \<and> level (w_mgr w') cap (behind - set is)"
  using assms
proof (induction "is" arbitrary: d w behind)
  case Nil
  then show ?case by auto
next
  case (Cons i rest)
  obtain s where s: "m_sequences (w_mgr w) i = Some s" using Cons.prems(4) by auto
  obtain m' where c: "commit sha (w_mgr w) i = Some (Inr (), m')" "partway net sha U Map.empty (w\<lparr>w_mgr := m'\<rparr>) (pg_cells d)"
    "session_view (w\<lparr>w_mgr := m'\<rparr>) = session_view w" "level m' cap (behind - {i})" "p_block_tokens (m_pool m') = w_width w"
    "dom (m_sequences m') = dom (m_sequences (w_mgr w))"
    using commit_result [OF Cons.prems(1) s Cons.prems(3)] by blast
  let ?d = "d\<lparr>pg_blocks := m'\<rparr>" and ?w = "w\<lparr>w_mgr := m'\<rparr>"
  have "\<exists>d' w'. commit_rows sha ?d rest = Some (Inr (), d') \<and> kept ?d d' \<and> w_mgr w' = pg_blocks d' \<and>
    partway net sha U Map.empty w' (pg_cells d') \<and> session_view w' = session_view ?w \<and>
    level (w_mgr w') cap (behind - {i} - set rest)"
    by (rule Cons.IH) (use c Cons.prems(4) in auto)
  then obtain d' w' where ih: "commit_rows sha ?d rest = Some (Inr (), d')" "kept ?d d'" "w_mgr w' = pg_blocks d'"
    "partway net sha U Map.empty w' (pg_cells d')" "session_view w' = session_view ?w"
    "level (w_mgr w') cap (behind - {i} - set rest)" by blast
  have "behind - {i} - set rest = behind - set (i # rest)" by auto
  moreover have "kept d ?d" using c(5) Cons.prems(2) by (simp add: kept_def)
  ultimately show ?case using ih c(1,3) Cons.prems(2) kept_trans
    by (intro exI [of _ d'] exI [of _ w']) auto
qed

lemma free_rows_result:
  assumes "restorable net sha U R w (pg_cells d)" "w_mgr w = pg_blocks d" "level (w_mgr w) cap behind"
  shows "\<exists>d' w'. free_rows d is = Some d' \<and> kept d d' \<and> w_mgr w' = pg_blocks d' \<and>
    restorable net sha U (R - set is) w' (pg_cells d') \<and> session_view w' = (\<lambda>i. if i \<in> set is then None else session_view w i) \<and>
    level (w_mgr w') cap (behind - set is)"
  using assms
proof (induction "is" arbitrary: d w R behind)
  case Nil
  then show ?case by auto
next
  case (Cons i rest)
  obtain d1 w1 where f: "free_ignoring d i = Some d1" "kept d d1" "w_mgr w1 = pg_blocks d1"
    "restorable net sha U (R - {i}) w1 (pg_cells d1)" "session_view w1 = (session_view w)(i := None)"
    "level (w_mgr w1) cap (behind - {i})"
    using free_ignoring_result [OF Cons.prems(1,3,2), of i] by blast
  obtain d' w' where ih: "free_rows d1 rest = Some d'" "kept d1 d'" "w_mgr w' = pg_blocks d'"
    "restorable net sha U (R - {i} - set rest) w' (pg_cells d')"
    "session_view w' = (\<lambda>i. if i \<in> set rest then None else session_view w1 i)"
    "level (w_mgr w') cap (behind - {i} - set rest)"
    using Cons.IH [OF f(4,3,6)] by blast
  have eq: "X - {i} - set rest = X - set (i # rest)" for X by auto
  have "session_view w' = (\<lambda>j. if j \<in> set (i # rest) then None else session_view w j)"
    unfolding ih(5) f(5) by auto
  then show ?case using ih(1,3,4,6) f(1) kept_trans [OF f(2) ih(2)] unfolding eq
    by (intro exI [of _ d'] exI [of _ w']) simp
qed

text \<open>A failed batch: every row is released, and every other sequence is as it was.\<close>

lemma free_rows_lost:
  assumes r: "restorable net sha U R w (pg_cells d)" "w_mgr w = pg_blocks d"
    "level (w_mgr w) (qc_max_positions (pg_config d)) behind"
    and sub: "R \<subseteq> set is" "behind \<subseteq> set is" and view: "\<And>i. i \<notin> set is \<Longrightarrow> session_view w i = g i"
  shows "\<exists>d'. free_rows d is = Some d' \<and> kept d d' \<and> at_most_lost net sha U d' g (set is)"
proof -
  obtain d' w' where f: "free_rows d is = Some d'" "kept d d'" "w_mgr w' = pg_blocks d'"
    "restorable net sha U (R - set is) w' (pg_cells d')" "session_view w' = (\<lambda>i. if i \<in> set is then None else session_view w i)"
    "level (w_mgr w') (qc_max_positions (pg_config d)) (behind - set is)"
    using free_rows_result [OF r] by blast
  have empty: "R - set is = {}" "behind - set is = {}" using sub by auto
  then obtain mem where "partway net sha U Map.empty (w'\<lparr>w_mem := mem\<rparr>) (pg_cells d')"
    using restorable_clean [OF f(4)] by auto
  moreover have "session_view w' = (\<lambda>i. if i \<in> set is then None else g i)" unfolding f(5) using view by auto
  ultimately have "running net sha U d' (\<lambda>i. if i \<in> set is then None else g i)"
    using f(2,3,6) empty unfolding running_def kept_def by (intro exI [of _ "w'\<lparr>w_mem := mem\<rparr>"]) simp
  then show ?thesis using f(1,2) by (simp add: at_most_lost_def)
qed

section \<open>One slot per row\<close>

definition row_length :: "manager \<Rightarrow> seq_id \<Rightarrow> nat" where
  "row_length m i = (case m_sequences m i of None \<Rightarrow> 0 | Some s \<Rightarrow> s_scheduled s)"

definition row_slot :: "manager \<Rightarrow> seq_id \<Rightarrow> nat" where
  "row_slot m i = (case m_sequences m i of None \<Rightarrow> 0 | Some s \<Rightarrow> pos_slot m s (s_scheduled s - 1))"

text \<open>The sequences after one token each, and from where on their positions wait for the forward.\<close>

definition batch_view ::
  "(seq_id \<rightharpoonup> hash_keys \<times> token list) \<Rightarrow> (seq_id \<times> token) list \<Rightarrow> seq_id \<rightharpoonup> hash_keys \<times> token list" where
  "batch_view g rows = (\<lambda>i. case map_of rows i of None \<Rightarrow> g i | Some t \<Rightarrow> map_option (\<lambda>(k, st). (k, st @ [t])) (g i))"

definition rows_ahead :: "(seq_id \<rightharpoonup> hash_keys \<times> token list) \<Rightarrow> (seq_id \<times> token) list \<Rightarrow> seq_id \<rightharpoonup> nat" where
  "rows_ahead g rows = (\<lambda>i. case map_of rows i of None \<Rightarrow> None | Some t \<Rightarrow> map_option (\<lambda>(k, st). length st) (g i))"

definition rows_failed ::
  "('k, 'l) qwen_net \<Rightarrow> (byte list \<Rightarrow> byte list) \<Rightarrow> (hash_keys \<times> token list) set \<Rightarrow> seq_id set \<Rightarrow> 'k paged_session \<Rightarrow>
   (seq_id \<rightharpoonup> hash_keys \<times> token list) \<Rightarrow> 'k paged_session \<Rightarrow> bool" where
  "rows_failed net sha U R d g d' \<longleftrightarrow> (\<exists>w. kept d d' \<and> w_mgr w = pg_blocks d' \<and> restorable net sha U R w (pg_cells d') \<and>
     level (w_mgr w) (qc_max_positions (pg_config d)) R \<and> (\<forall>j. j \<notin> R \<longrightarrow> session_view w j = g j))"

lemma restorable_mono: "restorable net sha U R w cells \<Longrightarrow> R \<subseteq> R' \<Longrightarrow> restorable net sha U R' w cells"
proof -
  assume r: "restorable net sha U R w cells" and sub: "R \<subseteq> R'"
  have "live_cells (w_mgr w) R' \<subseteq> live_cells (w_mgr w) R" using sub unfolding live_cells_def by blast
  then show ?thesis using r by (auto simp: restorable_def elim!: sound_mono)
qed

lemma level_mono: "level m cap R \<Longrightarrow> R \<subseteq> R' \<Longrightarrow> level m cap R'"
  by (auto simp: level_def)

lemma rows_failedI:
  assumes "kept d d'" "w_mgr w = pg_blocks d'" "restorable net sha U R w (pg_cells d')"
    and "level (w_mgr w) (qc_max_positions (pg_config d)) R" "R \<subseteq> R'" "\<And>j. j \<notin> R' \<Longrightarrow> session_view w j = g j"
  shows "rows_failed net sha U R' d g d'"
  using assms restorable_mono [OF assms(3,5)] level_mono [OF assms(4,5)] unfolding rows_failed_def by blast

lemma rows_failed_trans:
  "kept d d1 \<Longrightarrow> rows_failed net sha U R d1 g1 d' \<Longrightarrow> (\<And>j. j \<notin> R \<Longrightarrow> g1 j = g j) \<Longrightarrow> rows_failed net sha U R d g d'"
  unfolding rows_failed_def kept_def by fastforce

text \<open>The reservation, the copy and the slot of one row.\<close>

lemma allocate_row:
  assumes p: "partway net sha U ahead w (pg_cells d)" and d: "w_mgr w = pg_blocks d"
    and lv: "level (w_mgr w) (qc_max_positions (pg_config d)) (dom ahead)" and capu: "qc_max_positions (pg_config d) \<le> usize_max"
    and vi: "session_view w i = Some (k, st)" and ai: "ahead i = None"
    and U: "(k, st @ [t]) \<in> U" and len: "length (st @ [t]) \<le> qc_max_positions (pg_config d)"
  obtains (failed) e d' where "allocate_rows d ((i, Some t) # rest) acc = Some (Inl e, d')"
      "rows_failed net sha U (insert i (dom ahead)) d (session_view w) d'"
  | (row) d' w' where "kept d d'" "w_mgr w' = pg_blocks d'" "partway net sha U (ahead(i \<mapsto> length st)) w' (pg_cells d')"
      "level (w_mgr w') (qc_max_positions (pg_config d)) (insert i (dom ahead))"
      "session_view w' = (session_view w)(i \<mapsto> (k, st @ [t]))"
      "\<And>j. j \<noteq> i \<Longrightarrow> m_sequences (w_mgr w') j = m_sequences (w_mgr w) j"
      "allocate_rows d ((i, Some t) # rest) acc = allocate_rows d' rest
         \<lparr>rs_slots = rs_slots acc @ [row_slot (w_mgr w') i], rs_positions = rs_positions acc @ [row_length (w_mgr w') i - 1],
          rs_lengths = rs_lengths acc @ [row_length (w_mgr w') i]\<rparr>"
proof -
  let ?cap = "qc_max_positions (pg_config d)"
  have ok: "world_ok sha U w" using p by (simp add: partway_def)
  show thesis
  proof (rule allocate_session [OF ok lv capu vi U len])
    fix e assume a: "allocate (w_mgr w) i [t] = Some (Inl e, w_mgr w)"
    have r: "restorable net sha U (dom ahead) w (pg_cells d)" by (rule partway_restorable [OF p]) simp
    show thesis
    proof (rule failed)
      show "allocate_rows d ((i, Some t) # rest) acc = Some (Inl (Kv_blocks e), d)" using a d by simp
      show "rows_failed net sha U (insert i (dom ahead)) d (session_view w) d"
        by (rule rows_failedI [OF kept_refl d r lv]) auto
    qed
  next
    fix al w' s'
    assume a: "allocate (w_mgr w) i [t] = Some (Inr al, w_mgr w')" "placing sha U w i al w'"
      "m_sequences (w_mgr w') i = Some s'" "w_stream w' i = Some (st @ [t])" "s_scheduled s' = length (st @ [t])"
      "al_positions al = \<lparr>ts_start = length st, ts_end = s_scheduled s'\<rparr>"
      "session_view w' = (session_view w)(i \<mapsto> (k, st @ [t]))" "level (w_mgr w') ?cap (insert i (dom ahead))"
    let ?d = "d\<lparr>pg_blocks := w_mgr w'\<rparr>"
    have w': "world_ok sha U w'" and pl: "placed (w_mgr w) i al (w_mgr w')" using a(2) by (simp_all add: placing_def)
    note m' = world_okD(1) [OF w']
    have kd: "kept d ?d" using placing_width [OF a(2)] d by (simp add: kept_def)
    have width: "block_width ?d = w_width w" using block_width_eq [of ?d] m' placing_width [OF a(2)] by simp
    have tok: "bc_tokens c \<le> block_width ?d" if "al_copy al = Some c" for c
      using pl that width by (simp add: placed_def)
    obtain res d2 where c: "copy_if ?d (al_copy al) = Some (res, d2)" "pg_blocks d2 = w_mgr w'" "pg_config d2 = pg_config d"
      "res = Inr () \<Longrightarrow> pg_cells d2 = copied (w_width w) (al_copy al) (pg_cells d)"
      "\<And>b off. off < w_width w \<Longrightarrow> (\<And>c. al_copy al = Some c \<Longrightarrow> b \<noteq> bc_dst c) \<Longrightarrow>
        pg_cells d2 (b * w_width w + off) = pg_cells d (b * w_width w + off)"
      using copy_if_result [of "al_copy al" ?d, OF tok] width by auto
    have k2: "kept d d2" using kd c(2,3) by (simp add: kept_def)
    have others: "\<And>j. j \<notin> insert i (dom ahead) \<Longrightarrow> session_view w' j = session_view w j" using a(7) by simp
    define r1 where "r1 = pool_slot (block_width d2) \<lparr>sl_block = s_table s' ! (length st div w_width w'), sl_offset = length st mod w_width w'\<rparr>"
    have sl: "slots (pg_blocks d2) i (al_positions al) = Some (Inr [\<lparr>sl_block = s_table s' ! (length st div w_width w'),
        sl_offset = length st mod w_width w'\<rparr>])"
      using slots_result [OF m' a(3), of "al_positions al"] a(5,6) c(2) by (simp add: span_iter_def)
    have run: "allocate_rows d ((i, Some t) # rest) acc = on_ok (copy_if ?d (al_copy al)) (\<lambda>_ d. do {
       sls \<leftarrow> slots (pg_blocks d) i (al_positions al);
       on_value (kv_error sls) d (\<lambda>sls.
       on_value (case sls of [] \<Rightarrow> Inl Cache_inconsistent | sl # _ \<Rightarrow> pool_slot (block_width d) sl) d (\<lambda>slot.
       on_value (as_i32 (ts_start (al_positions al))) d (\<lambda>position.
         allocate_rows d rest
           \<lparr>rs_slots = rs_slots acc @ [slot], rs_positions = rs_positions acc @ [position],
            rs_lengths = rs_lengths acc @ [ts_end (al_positions al)]\<rparr>))) })"
      using a(1) d by simp
    have bw: "block_width d2 = w_width w'" using block_width_eq [of d2] m' c(2) by simp
    have slot: "pool_slot (block_width d2) \<lparr>sl_block = s_table s' ! (length st div w_width w'), sl_offset = length st mod w_width w'\<rparr> =
        as_i32 (row_slot (w_mgr w') i)"
      using a(3,5) bw by (simp add: pool_slot_def slot_flat_def row_slot_def pos_slot_def)
    show thesis
    proof (cases res)
      case (Inl e)
      have r: "restorable net sha U (insert i (dom ahead)) w' (pg_cells d2)"
        by (rule placing_failed [OF p ai a(2)]) (use c(5) in blast)
      show thesis
        by (rule failed [of e d2], use run c(1) Inl in simp)
          (rule rows_failedI [OF k2 _ r a(8) order_refl others], use c(2) in simp_all)
    next
      case (Inr u)
      have p2: "partway net sha U (ahead(i \<mapsto> length st)) w' (pg_cells d2)"
        using placing_copied [OF p ai a(2)] c(4) Inr a(6) by simp
      have r: "restorable net sha U (insert i (dom ahead)) w' (pg_cells d2)"
        using partway_restorable [OF p2, of "pg_cells d2"] by simp
      have lost: "rows_failed net sha U (insert i (dom ahead)) d (session_view w) d2"
        by (rule rows_failedI [OF k2 _ r a(8) order_refl others]) (use c(2) in simp_all)
      show thesis
      proof (cases "row_slot (w_mgr w') i < 2 ^ 31 \<and> length st < 2 ^ 31")
        case True
        show thesis
          by (rule row [OF k2 _ p2 a(8,7)])
            (use c(1,2) pl run sl slot True Inr a(3,5,6) in \<open>simp_all add: placed_def as_i32_def row_length_def\<close>)
      next
        case False
        then show thesis using run c(1) sl slot Inr a(6) lost
          by (intro failed [of Shape_overflow d2]) (auto simp: as_i32_def)
      qed
    qed
  qed
qed

definition row_fits :: "(hash_keys \<times> token list) set \<Rightarrow> nat \<Rightarrow> (seq_id \<rightharpoonup> hash_keys \<times> token list) \<Rightarrow> seq_id \<times> token \<Rightarrow> bool" where
  "row_fits U cap g row \<longleftrightarrow>
     (\<exists>k st. g (fst row) = Some (k, st) \<and> (k, st @ [snd row]) \<in> U \<and> length st < cap)"

lemma allocate_rows_result:
  assumes "partway net sha U ahead w (pg_cells d)" "w_mgr w = pg_blocks d"
    and "level (w_mgr w) (qc_max_positions (pg_config d)) (dom ahead)" "qc_max_positions (pg_config d) \<le> usize_max"
    and "distinct (map fst rows)" "\<And>row. row \<in> set rows \<Longrightarrow> ahead (fst row) = None"
    and "\<forall>row\<in>set rows. row_fits U (qc_max_positions (pg_config d)) (session_view w) row"
  shows "(\<exists>e d'. allocate_rows d (map (\<lambda>(seq, t). (seq, Some t)) rows) acc = Some (Inl e, d') \<and>
      rows_failed net sha U (dom ahead \<union> fst ` set rows) d (session_view w) d') \<or>
    (\<exists>d' w'. allocate_rows d (map (\<lambda>(seq, t). (seq, Some t)) rows) acc = Some (Inr
        \<lparr>rs_slots = rs_slots acc @ map (\<lambda>(i, t). row_slot (w_mgr w') i) rows,
         rs_positions = rs_positions acc @ map (\<lambda>(i, t). row_length (w_mgr w') i - 1) rows,
         rs_lengths = rs_lengths acc @ map (\<lambda>(i, t). row_length (w_mgr w') i) rows\<rparr>, d') \<and>
      kept d d' \<and> w_mgr w' = pg_blocks d' \<and>
      partway net sha U (ahead ++ rows_ahead (session_view w) rows) w' (pg_cells d') \<and>
      level (w_mgr w') (qc_max_positions (pg_config d)) (dom ahead \<union> fst ` set rows) \<and>
      session_view w' = batch_view (session_view w) rows \<and>
      (\<forall>j. j \<notin> fst ` set rows \<longrightarrow> m_sequences (w_mgr w') j = m_sequences (w_mgr w) j))"
  using assms
proof (induction rows arbitrary: d w ahead acc)
  case Nil
  have "ahead ++ rows_ahead (session_view w) [] = ahead" "batch_view (session_view w) [] = session_view w"
    by (simp_all add: rows_ahead_def batch_view_def map_add_def)
  then show ?case using Nil.prems(1-3) by auto
next
  case (Cons row rest)
  let ?cap = "qc_max_positions (pg_config d)" and ?g = "session_view w"
  obtain i t where row: "row = (i, t)" by (cases row)
  obtain k st where v: "?g i = Some (k, st)" "(k, st @ [t]) \<in> U" "length (st @ [t]) \<le> ?cap"
    using Cons.prems(7) row by (auto simp: row_fits_def)
  have ai: "ahead i = None" using Cons.prems(6) [of row] row by simp
  have rows: "map (\<lambda>(seq, t). (seq, Some t)) (row # rest) = (i, Some t) # map (\<lambda>(seq, t). (seq, Some t)) rest" using row by simp
  have fresh: "i \<notin> fst ` set rest" using Cons.prems(5) row by auto
  show ?case
  proof (rule allocate_row [OF Cons.prems(1-4) v(1) ai v(2,3),
      of "map (\<lambda>(seq, t). (seq, Some t)) rest" acc, folded rows])
    fix e d' assume f: "allocate_rows d (map (\<lambda>(seq, t). (seq, Some t)) (row # rest)) acc = Some (Inl e, d')"
      "rows_failed net sha U (insert i (dom ahead)) d ?g d'"
    have "rows_failed net sha U (dom ahead \<union> fst ` set (row # rest)) d ?g d'"
      using f(2) row unfolding rows_failed_def by (auto elim!: restorable_mono level_mono)
    then show ?thesis using f(1) by blast
  next
    fix d1 w1
    assume r: "kept d d1" "w_mgr w1 = pg_blocks d1" "partway net sha U (ahead(i \<mapsto> length st)) w1 (pg_cells d1)"
      "level (w_mgr w1) ?cap (insert i (dom ahead))" "session_view w1 = ?g(i \<mapsto> (k, st @ [t]))"
      "\<And>j. j \<noteq> i \<Longrightarrow> m_sequences (w_mgr w1) j = m_sequences (w_mgr w) j"
      "allocate_rows d (map (\<lambda>(seq, t). (seq, Some t)) (row # rest)) acc = allocate_rows d1 (map (\<lambda>(seq, t). (seq, Some t)) rest)
         \<lparr>rs_slots = rs_slots acc @ [row_slot (w_mgr w1) i], rs_positions = rs_positions acc @ [row_length (w_mgr w1) i - 1],
          rs_lengths = rs_lengths acc @ [row_length (w_mgr w1) i]\<rparr>"
    let ?acc = "\<lparr>rs_slots = rs_slots acc @ [row_slot (w_mgr w1) i], rs_positions = rs_positions acc @ [row_length (w_mgr w1) i - 1],
          rs_lengths = rs_lengths acc @ [row_length (w_mgr w1) i]\<rparr>"
    have c1: "qc_max_positions (pg_config d1) = ?cap" using r(1) by (simp add: kept_def)
    have dom: "dom (ahead(i \<mapsto> length st)) = insert i (dom ahead)" by simp
    have R: "insert i (dom ahead) \<union> fst ` set rest = dom ahead \<union> fst ` set (row # rest)" using row by auto
    note ih = Cons.IH [OF r(3,2), of ?acc, unfolded c1 dom R]
    have "(\<exists>e d'. allocate_rows d1 (map (\<lambda>(seq, t). (seq, Some t)) rest) ?acc = Some (Inl e, d') \<and>
        rows_failed net sha U (dom ahead \<union> fst ` set (row # rest)) d1 (session_view w1) d') \<or>
      (\<exists>d' w'. allocate_rows d1 (map (\<lambda>(seq, t). (seq, Some t)) rest) ?acc = Some (Inr
          \<lparr>rs_slots = rs_slots ?acc @ map (\<lambda>(i, t). row_slot (w_mgr w') i) rest,
           rs_positions = rs_positions ?acc @ map (\<lambda>(i, t). row_length (w_mgr w') i - 1) rest,
           rs_lengths = rs_lengths ?acc @ map (\<lambda>(i, t). row_length (w_mgr w') i) rest\<rparr>, d') \<and>
        kept d1 d' \<and> w_mgr w' = pg_blocks d' \<and>
        partway net sha U (ahead(i \<mapsto> length st) ++ rows_ahead (session_view w1) rest) w' (pg_cells d') \<and>
        level (w_mgr w') ?cap (dom ahead \<union> fst ` set (row # rest)) \<and>
        session_view w' = batch_view (session_view w1) rest \<and>
        (\<forall>j. j \<notin> fst ` set rest \<longrightarrow> m_sequences (w_mgr w') j = m_sequences (w_mgr w1) j))"
    proof (rule ih [OF r(4) Cons.prems(4)])
      show "distinct (map fst rest)" using Cons.prems(5) by simp
      show "(ahead(i \<mapsto> length st)) (fst q) = None" if "q \<in> set rest" for q
        using Cons.prems(6) [of q] that fresh by auto
      show "\<forall>q\<in>set rest. row_fits U ?cap (session_view w1) q"
        using Cons.prems(7) fresh r(5) by (auto simp: row_fits_def)
    qed
    then show ?thesis
    proof (elim disjE exE conjE)
      fix e d' assume f: "allocate_rows d1 (map (\<lambda>(seq, t). (seq, Some t)) rest) ?acc = Some (Inl e, d')"
        "rows_failed net sha U (dom ahead \<union> fst ` set (row # rest)) d1 (session_view w1) d'"
      have "rows_failed net sha U (dom ahead \<union> fst ` set (row # rest)) d ?g d'"
        by (rule rows_failed_trans [OF r(1) f(2)]) (use r(5) row in auto)
      then show ?thesis using f(1) r(7) by auto
    next
      fix d' w'
      assume f: "allocate_rows d1 (map (\<lambda>(seq, t). (seq, Some t)) rest) ?acc = Some (Inr
          \<lparr>rs_slots = rs_slots ?acc @ map (\<lambda>(i, t). row_slot (w_mgr w') i) rest,
           rs_positions = rs_positions ?acc @ map (\<lambda>(i, t). row_length (w_mgr w') i - 1) rest,
           rs_lengths = rs_lengths ?acc @ map (\<lambda>(i, t). row_length (w_mgr w') i) rest\<rparr>, d')"
        "kept d1 d'" "w_mgr w' = pg_blocks d'"
        "partway net sha U (ahead(i \<mapsto> length st) ++ rows_ahead (session_view w1) rest) w' (pg_cells d')"
        "level (w_mgr w') ?cap (dom ahead \<union> fst ` set (row # rest))" "session_view w' = batch_view (session_view w1) rest"
        "\<forall>j. j \<notin> fst ` set rest \<longrightarrow> m_sequences (w_mgr w') j = m_sequences (w_mgr w1) j"
      have none: "map_of rest i = None" using fresh by (simp add: map_of_eq_None_iff)
      have "ahead(i \<mapsto> length st) ++ rows_ahead (session_view w1) rest = ahead ++ rows_ahead ?g (row # rest)"
        using none v(1) row r(5) by (auto simp: fun_eq_iff rows_ahead_def map_add_def split: option.splits)
      moreover have "batch_view (session_view w1) rest = batch_view ?g (row # rest)"
        using none v(1) row r(5) by (auto simp: fun_eq_iff batch_view_def split: option.splits)
      moreover have "p_block_tokens (m_pool (w_mgr w')) = p_block_tokens (m_pool (w_mgr w1))" using f(2,3) r(2) by (simp add: kept_def)
      moreover from this have "row_slot (w_mgr w') i = row_slot (w_mgr w1) i" "row_length (w_mgr w') i = row_length (w_mgr w1) i"
        using f(7) fresh by (simp_all add: row_slot_def row_length_def pos_slot_def split: option.splits)
      moreover have "\<forall>j. j \<notin> fst ` set (row # rest) \<longrightarrow> m_sequences (w_mgr w') j = m_sequences (w_mgr w) j"
        using f(7) r(6) row by auto
      ultimately show ?thesis using f r(7) kept_trans [OF r(1) f(2)] row
        by (intro disjI2 exI [of _ d'] exI [of _ w']) simp
    qed
  qed
qed

section \<open>The forward of a batch\<close>

definition placed_rows :: "manager \<Rightarrow> (seq_id \<times> token) list \<Rightarrow> row_slots" where
  "placed_rows m rows = \<lparr>rs_slots = map (\<lambda>(i, t). row_slot m i) rows,
     rs_positions = map (\<lambda>(i, t). row_length m i - 1) rows, rs_lengths = map (\<lambda>(i, t). row_length m i) rows\<rparr>"

text \<open>Rows whose last position waits for the forward.\<close>

definition waiting :: "world \<Rightarrow> (seq_id \<rightharpoonup> nat) \<Rightarrow> (seq_id \<times> token) list \<Rightarrow> bool" where
  "waiting w ahead rows \<longleftrightarrow> dom ahead \<subseteq> fst ` set rows \<and>
     (\<forall>(i, t)\<in>set rows. \<exists>k st. session_view w i = Some (k, st @ [t]) \<and> ahead i = Some (length st))"

lemma waiting_row:
  assumes ok: "world_ok sha U w" and rows: "waiting w ahead rows" and r: "r < length rows"
  obtains s k st where "m_sequences (w_mgr w) (fst (rows ! r)) = Some s"
    "w_stream w (fst (rows ! r)) = Some (st @ [snd (rows ! r)])"
    "session_view w (fst (rows ! r)) = Some (k, st @ [snd (rows ! r)])" "ahead (fst (rows ! r)) = Some (length st)"
    "s_scheduled s = Suc (length st)" "row_length (w_mgr w) (fst (rows ! r)) = Suc (length st)"
    "row_slot (w_mgr w) (fst (rows ! r)) = pos_slot (w_mgr w) s (length st)"
proof -
  have "(fst (rows ! r), snd (rows ! r)) \<in> set rows" using r by simp
  then obtain k st where v: "session_view w (fst (rows ! r)) = Some (k, st @ [snd (rows ! r)])"
    "ahead (fst (rows ! r)) = Some (length st)"
    using rows unfolding waiting_def by blast
  then obtain s where s: "m_sequences (w_mgr w) (fst (rows ! r)) = Some s" "w_stream w (fst (rows ! r)) = Some (st @ [snd (rows ! r)])"
    unfolding session_view_at by blast
  have "s_scheduled s = Suc (length st)" using view_length [OF ok s] by simp
  then show ?thesis using that [OF s v] s by (simp add: row_length_def row_slot_def)
qed

text \<open>Each column of the plan reads the cells of its own row.\<close>

lemma batch_plan:
  assumes ok: "world_ok sha U w" and d: "w_mgr w = pg_blocks d"
  obtains q where "gather_plan d (zip (map fst rows) (rs_lengths (placed_rows (w_mgr w) rows))) = Some q"
    "\<And>plan r cells ahead len s st. q = Inr plan \<Longrightarrow> r < length rows \<Longrightarrow> partway net sha U ahead w cells \<Longrightarrow>
      w_stream w (fst (rows ! r)) = Some st \<Longrightarrow> m_sequences (w_mgr w) (fst (rows ! r)) = Some s \<Longrightarrow> len \<le> s_scheduled s \<Longrightarrow>
      (\<And>k. ahead (fst (rows ! r)) = Some k \<Longrightarrow> len \<le> k) \<Longrightarrow>
      cells_of net (take len st) (gathered cells plan (length rows) r len)"
proof -
  let ?m = "w_mgr w" and ?n = "length rows"
  let ?lens = "zip (map fst rows) (rs_lengths (placed_rows (w_mgr w) rows))"
  have m: "mgr_ok (pg_blocks d)" using world_okD(1) [OF ok] d by simp
  obtain q where q: "gather_plan d ?lens = Some q" "\<forall>plan k s token. q = Inr plan \<longrightarrow> k < length ?lens \<longrightarrow>
     m_sequences (pg_blocks d) (fst (?lens ! k)) = Some s \<longrightarrow>
     snd (?lens ! k) \<le> s_scheduled s \<longrightarrow> token < snd (?lens ! k) \<longrightarrow> plan ! (token * length ?lens + k) = pos_slot (pg_blocks d) s token"
    using gather_plan_result [OF m, of ?lens] by blast
  have plan: "plan ! (token * ?n + r) = pos_slot ?m s token"
    if h: "q = Inr plan" "r < ?n" "m_sequences ?m (fst (rows ! r)) = Some s" "token < s_scheduled s" for plan r s token
  proof -
    have "snd (?lens ! r) = s_scheduled s" "fst (?lens ! r) = fst (rows ! r)" "length ?lens = ?n"
      using h(2,3) by (simp_all add: placed_rows_def row_length_def case_prod_unfold)
    then show ?thesis using q(2) h d by simp
  qed
  have read: "cells_of net (take len st) (gathered cells plan ?n r len)"
    if h: "q = Inr plan" "r < ?n" "partway net sha U ahead w cells" "w_stream w (fst (rows ! r)) = Some st"
      "m_sequences ?m (fst (rows ! r)) = Some s" "len \<le> s_scheduled s" "\<And>k. ahead (fst (rows ! r)) = Some k \<Longrightarrow> len \<le> k"
    for plan r cells ahead len s st
  proof -
    have "gathered cells plan ?n r len = map (\<lambda>pos. cells (pos_slot ?m s pos)) [0..<len]"
      using plan [OF h(1,2,5)] h(6) by (simp add: gathered_def)
    then show ?thesis using read_cells [OF h(3,5,4,6,7)] by (simp add: pos_slot_def)
  qed
  show thesis by (rule that [OF q(1) read])
qed

lemma batch_written:
  assumes p: "partway net sha U ahead w cells" and rows: "waiting w ahead rows"
    and kv: "\<And>r. r < length rows \<Longrightarrow> cell_of net (snd (the (session_view w (fst (rows ! r))))) (kv r)"
  shows "partway net sha U Map.empty w (scatter cells (rs_slots (placed_rows (w_mgr w) rows)) (map kv [0..<length rows]))"
proof (rule written [OF p])
  let ?m = "w_mgr w" and ?rs = "placed_rows (w_mgr w) rows"
  have ok: "world_ok sha U w" using p by (simp add: partway_def)
  show "length (rs_slots ?rs) = length (map kv [0..<length rows])" by (simp add: placed_rows_def)
  show "\<exists>i s st pos. m_sequences ?m i = Some s \<and> w_stream w i = Some st \<and> pos < s_scheduled s \<and>
      x = s_table s ! (pos div w_width w) * w_width w + pos mod w_width w \<and> cell_of net (take (Suc pos) st) v"
    if xv: "(x, v) \<in> set (zip (rs_slots ?rs) (map kv [0..<length rows]))" for x v
  proof -
    obtain r where r: "r < length rows" "x = row_slot ?m (fst (rows ! r))" "v = kv r"
      using xv by (auto simp: in_set_zip placed_rows_def case_prod_unfold)
    obtain s k st where s: "m_sequences ?m (fst (rows ! r)) = Some s" "w_stream w (fst (rows ! r)) = Some (st @ [snd (rows ! r)])"
      "session_view w (fst (rows ! r)) = Some (k, st @ [snd (rows ! r)])"
      "s_scheduled s = Suc (length st)" "row_slot ?m (fst (rows ! r)) = pos_slot ?m s (length st)"
      using waiting_row [OF ok rows r(1)] by metis
    have "cell_of net (take (Suc (length st)) (st @ [snd (rows ! r)])) v" using kv [OF r(1)] r(3) s(3) by simp
    then show ?thesis using s(1,2,4,5) r(2) unfolding pos_slot_def by (metis lessI)
  qed
  show "b * w_width w + off \<in> set (rs_slots ?rs)" if c: "(b, off) \<in> ahead_cells ?m ahead" for b off
  proof -
    obtain i n s pos where c: "b = s_table s ! (pos div w_width w)" "off = pos mod w_width w" "ahead i = Some n"
      "m_sequences ?m i = Some s" "n \<le> pos" "pos < s_scheduled s"
      using c unfolding ahead_cells_def pos_cell_def by blast
    then obtain r where r: "r < length rows" "i = fst (rows ! r)"
      using rows unfolding waiting_def by (force simp: in_set_conv_nth)
    have "row_slot ?m i = pos_slot ?m s pos" using waiting_row [OF ok rows r(1)] c(3-6) r(2) by (metis le_antisym less_Suc_eq_le option.inject)
    moreover have "row_slot ?m i \<in> set (rs_slots ?rs)" using r by (simp add: placed_rows_def case_prod_unfold)
    ultimately show ?thesis using c(1,2) by (simp add: pos_slot_def)
  qed
qed

lemma batch_broken:
  assumes p: "partway net sha U ahead w cells" and rows: "waiting w ahead rows"
  shows "restorable net sha U (dom ahead) w (broken cells (set (rs_slots (placed_rows (w_mgr w) rows))) garbage)"
proof (rule partway_restorable [OF p])
  let ?rs = "placed_rows (w_mgr w) rows"
  have ok: "world_ok sha U w" using p by (simp add: partway_def)
  fix b off assume c: "(b, off) \<notin> ahead_cells (w_mgr w) ahead" "off < w_width w"
  have "b * w_width w + off \<notin> set (rs_slots ?rs)"
  proof
    assume "b * w_width w + off \<in> set (rs_slots ?rs)"
    then obtain r where r: "r < length rows" "b * w_width w + off = row_slot (w_mgr w) (fst (rows ! r))"
      by (auto simp: placed_rows_def in_set_conv_nth case_prod_unfold)
    obtain s and st :: "token list" where s: "m_sequences (w_mgr w) (fst (rows ! r)) = Some s" "ahead (fst (rows ! r)) = Some (length st)"
      "s_scheduled s = Suc (length st)" "row_slot (w_mgr w) (fst (rows ! r)) = pos_slot (w_mgr w) s (length st)"
      by (rule waiting_row [OF ok rows r(1)]) (rule that)
    have "(b, off) = pos_cell (w_width w) s (length st)"
      using r(2) s(4) same_cell [OF c(2), of "length st mod w_width w" b] width_pos [OF ok] by (simp add: pos_slot_def pos_cell_def)
    then show False using ahead_cellsI [of ahead "fst (rows ! r)" "length st" "w_mgr w" s "length st"] s c(1) by simp
  qed
  then show "broken cells (set (rs_slots ?rs)) garbage (b * w_width w + off) = cells (b * w_width w + off)"
    by (simp add: broken_def)
qed

lemma batch_logits_result:
  assumes p: "partway net sha U ahead w (pg_cells d)" and d: "w_mgr w = pg_blocks d"
    and rows: "waiting w ahead rows"
  shows "\<exists>res d'. batch_logits net d (map fst rows) (placed_rows (w_mgr w) rows) (map snd rows) = Some (res, d') \<and>
    pg_blocks d' = pg_blocks d \<and> pg_config d' = pg_config d \<and>
    (\<forall>e. res = Inl e \<longrightarrow> restorable net sha U (dom ahead) w (pg_cells d')) \<and>
    (\<forall>ls. res = Inr ls \<longrightarrow> list_all2 (\<lambda>row. logits_of net (snd (the (session_view w (fst row))))) rows ls \<and>
       partway net sha U Map.empty w (pg_cells d'))"
proof -
  let ?n = "length rows" and ?rs = "placed_rows (w_mgr w) rows"
  have ok: "world_ok sha U w" using p by (simp add: partway_def)
  have lost: "restorable net sha U (dom ahead) w (pg_cells d)" by (rule partway_restorable [OF p]) simp
  note broke = batch_broken [OF p rows]
  obtain q where q: "gather_plan d (zip (map fst rows) (rs_lengths ?rs)) = Some q" and
    read: "\<And>plan r cells ahead len s st. q = Inr plan \<Longrightarrow> r < ?n \<Longrightarrow> partway net sha U ahead w cells \<Longrightarrow>
      w_stream w (fst (rows ! r)) = Some st \<Longrightarrow> m_sequences (w_mgr w) (fst (rows ! r)) = Some s \<Longrightarrow> len \<le> s_scheduled s \<Longrightarrow>
      (\<And>k. ahead (fst (rows ! r)) = Some k \<Longrightarrow> len \<le> k) \<Longrightarrow> cells_of net (take len st) (gathered cells plan ?n r len)"
    using batch_plan [OF ok d, of rows net] by metis
  define shape where "shape = (?n, Max (set (0 # rs_lengths ?rs)))"
  define kv where "kv = (\<lambda>plan r. qn_batch_row net shape (gathered (pg_cells d) plan ?n r (rs_positions ?rs ! r)) (map snd rows ! r))"
  define after where "after = (\<lambda>plan. scatter (pg_cells d) (rs_slots ?rs) (map (kv plan) [0..<?n]))"
  have kv: "cell_of net (snd (the (session_view w (fst (rows ! r))))) (kv plan r)" if h: "q = Inr plan" "r < ?n" for plan r
  proof (rule waiting_row [OF ok rows h(2)])
    fix s k st assume s: "m_sequences (w_mgr w) (fst (rows ! r)) = Some s" "w_stream w (fst (rows ! r)) = Some (st @ [snd (rows ! r)])"
      "session_view w (fst (rows ! r)) = Some (k, st @ [snd (rows ! r)])" "ahead (fst (rows ! r)) = Some (length st)"
      "s_scheduled s = Suc (length st)" "row_length (w_mgr w) (fst (rows ! r)) = Suc (length st)"
    have "rs_positions ?rs ! r = length st" using h(2) s(6) by (simp add: placed_rows_def case_prod_unfold)
    moreover have "cells_of net st (gathered (pg_cells d) plan ?n r (length st))"
      using read [OF h p s(2,1), of "length st"] s(4,5) by simp
    ultimately show ?thesis using computed_in_batch [of _ st net "snd (rows ! r)" shape] s(3) h(2) by (simp add: kv_def cells_of_def)
  qed
  have wrote: "partway net sha U Map.empty w (after plan)" if "q = Inr plan" for plan
    unfolding after_def by (rule batch_written [OF p rows kv [OF that]])
  have logits: "logits_of net (snd (the (session_view w (fst (rows ! r)))))
      (qn_batch_logits net shape (gathered (after plan) plan ?n r (rs_lengths ?rs ! r)) (map snd rows ! r))" if h: "q = Inr plan" "r < ?n" for plan r
  proof (rule waiting_row [OF ok rows h(2)])
    fix s k st assume s: "m_sequences (w_mgr w) (fst (rows ! r)) = Some s" "w_stream w (fst (rows ! r)) = Some (st @ [snd (rows ! r)])"
      "session_view w (fst (rows ! r)) = Some (k, st @ [snd (rows ! r)])"
      "s_scheduled s = Suc (length st)" "row_length (w_mgr w) (fst (rows ! r)) = Suc (length st)"
    have "rs_lengths ?rs ! r = Suc (length st)" using h(2) s(5) by (simp add: placed_rows_def case_prod_unfold)
    moreover have "cells_of net (st @ [snd (rows ! r)]) (gathered (after plan) plan ?n r (Suc (length st)))"
      using read [OF h wrote [OF h(1)] s(2,1), of "Suc (length st)"] s(4) by simp
    ultimately show ?thesis using logits_in_batch s(3) h(2) by simp
  qed
  show ?thesis
  proof (cases "q = Inl Shape_overflow \<or> \<not> length (rs_slots ?rs) < 2 ^ 31")
    case True
    then show ?thesis using q lost by (auto simp: batch_logits_def as_i32_def)
  next
    case i32: False
    show ?thesis
    proof (cases q)
      case (Inl e)
      then show ?thesis using q lost i32 by (auto simp: batch_logits_def as_i32_def)
    next
      case (Inr plan)
      show ?thesis
      proof (cases "collect_sum (map as_i32 (rs_lengths ?rs))")
        case (Inl e)
        then show ?thesis using q lost i32 Inr by (auto simp: batch_logits_def as_i32_def)
      next
        case lens: (Inr ls)
        show ?thesis
        proof (cases "pg_faults d (pg_calls d)")
          case (Some garbage)
          then show ?thesis using q i32 Inr lens broke by (auto simp: batch_logits_def as_i32_def device_call_def)
        next
          case None
          let ?ls = "map (\<lambda>r. qn_batch_logits net shape (gathered (after plan) plan ?n r (rs_lengths ?rs ! r)) (map snd rows ! r)) [0..<?n]"
          have "batch_logits net d (map fst rows) ?rs (map snd rows) =
              Some (Inr ?ls,
                d\<lparr>pg_calls := Suc (pg_calls d), pg_cells := after plan\<rparr>)"
            using q i32 Inr lens None by (simp add: batch_logits_def as_i32_def device_call_def after_def kv_def shape_def Let_def)
          moreover have "list_all2 (\<lambda>row. logits_of net (snd (the (session_view w (fst row))))) rows ?ls"
            using logits [OF Inr] by (simp add: list_all2_conv_all_nth)
          ultimately show ?thesis using wrote [OF Inr] by simp
        qed
      qed
    qed
  qed
qed

section \<open>\<open>decode_batch\<close>\<close>

text \<open>Logits of each row, computed from its own tokens and the new one.\<close>

definition own_logits ::
  "('k, 'l) qwen_net \<Rightarrow> (seq_id \<rightharpoonup> hash_keys \<times> token list) \<Rightarrow> (seq_id \<times> token) list \<Rightarrow> 'l list \<Rightarrow> bool" where
  "own_logits net g rows ls \<longleftrightarrow> list_all2 (\<lambda>(i, t). logits_of net (snd (the (g i)) @ [t])) rows ls"

lemma batch_rows_waiting:
  assumes dist: "distinct (map fst rows)" and fits: "\<And>row. row \<in> set rows \<Longrightarrow> row_fits U cap g row"
    and view: "session_view w = batch_view g rows"
  shows "waiting w (rows_ahead g rows) rows"
    and "list_all2 (\<lambda>row. logits_of net (snd (the (session_view w (fst row))))) rows ls \<longleftrightarrow> own_logits net g rows ls"
proof -
  have row: "\<exists>k st. g i = Some (k, st) \<and> session_view w i = Some (k, st @ [t]) \<and> rows_ahead g rows i = Some (length st)"
    if "(i, t) \<in> set rows" for i t
    using fits [OF that] map_of_is_SomeI [OF dist that] view by (auto simp: row_fits_def batch_view_def rows_ahead_def)
  have "dom (rows_ahead g rows) \<subseteq> fst ` set rows"
    by (force simp: rows_ahead_def split: option.splits dest: map_of_SomeD)
  then show "waiting w (rows_ahead g rows) rows" using row unfolding waiting_def by blast
  show "list_all2 (\<lambda>row. logits_of net (snd (the (session_view w (fst row))))) rows ls \<longleftrightarrow> own_logits net g rows ls"
    unfolding own_logits_def by (rule list.rel_cong [OF refl refl]) (use row in fastforce)
qed

lemma batch_step_result:
  assumes p: "partway net sha U Map.empty w (pg_cells d)" and d: "w_mgr w = pg_blocks d"
    and lv: "level (w_mgr w) (qc_max_positions (pg_config d)) {}" and capu: "qc_max_positions (pg_config d) \<le> usize_max"
    and dist: "distinct (map fst rows)"
    and fits: "\<And>row. row \<in> set rows \<Longrightarrow> row_fits U (qc_max_positions (pg_config d)) (session_view w) row"
  obtains (failed) e d' where "batch_step net d rows readback = Some (Inl e, d')"
      "rows_failed net sha U (fst ` set rows) d (session_view w) d'"
  | (ran) decoded d' w' where "batch_step net d rows readback = Some (Inr decoded, d')" "kept d d'" "w_mgr w' = pg_blocks d'"
      "partway net sha U Map.empty w' (pg_cells d')" "level (w_mgr w') (qc_max_positions (pg_config d)) (fst ` set rows)"
      "session_view w' = batch_view (session_view w) rows"
      "\<exists>ls. own_logits net (session_view w) rows ls \<and> read_rows net ls readback = Inr decoded"
proof (cases "length rows < 2 ^ 31")
  case False
  have r: "restorable net sha U {} w (pg_cells d)" using partway_restorable [OF p, of "pg_cells d"] by simp
  have "rows_failed net sha U (fst ` set rows) d (session_view w) d"
    by (rule rows_failedI [OF kept_refl d r lv]) simp_all
  then show ?thesis using False by (intro failed [of Shape_overflow d]) (simp_all add: batch_step_def as_i32_def)
next
  case True
  let ?g = "session_view w" and ?cap = "qc_max_positions (pg_config d)" and ?R = "fst ` set rows"
  have run: "batch_step net d rows readback = on_ok (allocate_rows d (map (\<lambda>(seq, t). (seq, Some t)) rows) no_rows) (\<lambda>rs d.
     on_ok (batch_logits net d (map fst rows) rs (map snd rows)) (\<lambda>logits d.
       on_value (read_rows net logits readback) d (\<lambda>decoded. Some (Inr decoded, d))))"
    using True by (simp add: batch_step_def as_i32_def)
  have "level (w_mgr w) ?cap (dom Map.empty)" using lv by simp
  moreover have "\<forall>row\<in>set rows. row_fits U ?cap ?g row" using fits by blast
  ultimately have "(\<exists>e d'. allocate_rows d (map (\<lambda>(seq, t). (seq, Some t)) rows) no_rows = Some (Inl e, d') \<and>
      rows_failed net sha U ?R d ?g d') \<or>
    (\<exists>d1 w1. allocate_rows d (map (\<lambda>(seq, t). (seq, Some t)) rows) no_rows = Some (Inr (placed_rows (w_mgr w1) rows), d1) \<and>
      kept d d1 \<and> w_mgr w1 = pg_blocks d1 \<and> partway net sha U (rows_ahead ?g rows) w1 (pg_cells d1) \<and>
      level (w_mgr w1) ?cap ?R \<and> session_view w1 = batch_view ?g rows)"
    using allocate_rows_result [OF p d _ capu dist refl, of no_rows] by (simp add: placed_rows_def no_rows_def) blast
  then show ?thesis
  proof (elim disjE exE conjE)
    fix e d' assume a: "allocate_rows d (map (\<lambda>(seq, t). (seq, Some t)) rows) no_rows = Some (Inl e, d')"
      "rows_failed net sha U ?R d ?g d'"
    then show ?thesis using run by (intro failed [of e d']) simp_all
  next
    fix d1 w1
    assume a1: "allocate_rows d (map (\<lambda>(seq, t). (seq, Some t)) rows) no_rows = Some (Inr (placed_rows (w_mgr w1) rows), d1)"
      and a: "kept d d1" "w_mgr w1 = pg_blocks d1" and a4: "partway net sha U (rows_ahead ?g rows) w1 (pg_cells d1)"
      and a5: "level (w_mgr w1) ?cap ?R" and a6: "session_view w1 = batch_view ?g rows"
    note wait = batch_rows_waiting [OF dist fits a6]
    have sub: "dom (rows_ahead ?g rows) \<subseteq> ?R" using wait(1) by (simp add: waiting_def)
    have out: "session_view w1 j = ?g j" if "j \<notin> ?R" for j
    proof -
      have "map_of rows j = None" using that by (simp add: map_of_eq_None_iff)
      then show ?thesis unfolding a6 by (simp add: batch_view_def)
    qed
    obtain res d2 where b: "batch_logits net d1 (map fst rows) (placed_rows (w_mgr w1) rows) (map snd rows) = Some (res, d2)"
      "pg_blocks d2 = pg_blocks d1" "pg_config d2 = pg_config d1"
      "\<And>e. res = Inl e \<Longrightarrow> restorable net sha U (dom (rows_ahead ?g rows)) w1 (pg_cells d2)"
      "\<And>ls. res = Inr ls \<Longrightarrow> own_logits net ?g rows ls \<and> partway net sha U Map.empty w1 (pg_cells d2)"
      using batch_logits_result [OF a4 a(2) wait(1)] wait(2) by metis
    have k2: "kept d d2" using a(1) b(2,3) by (simp add: kept_def)
    have d2: "w_mgr w1 = pg_blocks d2" using a(2) b(2) by simp
    show ?thesis
    proof (cases res)
      case (Inl e)
      have "restorable net sha U ?R w1 (pg_cells d2)" by (rule restorable_mono [OF b(4) [OF Inl] sub])
      then have "rows_failed net sha U ?R d ?g d2" by (rule rows_failedI [OF k2 d2 _ a5 order_refl out])
      then show ?thesis using run a1 b(1) Inl by (intro failed [of e d2]) simp_all
    next
      case (Inr ls)
      have ls: "own_logits net ?g rows ls" and p2: "partway net sha U Map.empty w1 (pg_cells d2)" using b(5) [OF Inr] by simp_all
      show ?thesis
      proof (cases "read_rows net ls readback")
        case (Inl e)
        have "restorable net sha U {} w1 (pg_cells d2)" using partway_restorable [OF p2, of "pg_cells d2"] by simp
        then have "restorable net sha U ?R w1 (pg_cells d2)" by (rule restorable_mono) simp
        then have "rows_failed net sha U ?R d ?g d2" by (rule rows_failedI [OF k2 d2 _ a5 order_refl out])
        then show ?thesis using run a1 b(1) Inr Inl by (intro failed [of e d2]) simp_all
      next
        case decoded: (Inr decoded)
        then show ?thesis using run a1 b(1) Inr ls
          by (intro ran [OF _ k2 d2 p2 a5 a6]) auto
      qed
    qed
  qed
qed

lemma decode_batch_result:
  assumes r: "running net sha U d g" and room: "session_room sha U d"
    and U: "\<And>i t k st. (i, t) \<in> set rows \<Longrightarrow> g i = Some (k, st) \<Longrightarrow> (k, st @ [t]) \<in> U"
  shows "answers net sha U d g (fst ` set rows)
    (\<lambda>decoded d'. (\<exists>ls. own_logits net g rows ls \<and> read_rows net ls readback = Inr decoded) \<and> running net sha U d' (batch_view g rows))
    (decode_batch sha net d rows readback)"
proof (cases "rows = []")
  case True
  then show ?thesis using answers_refused [OF r] by (simp add: decode_batch_def)
next
  case False
  let ?cap = "qc_max_positions (pg_config d)"
  obtain w where w: "partway net sha U Map.empty w (pg_cells d)" "w_mgr w = pg_blocks d"
    "level (w_mgr w) ?cap {}" "session_view w = g"
    using r unfolding running_def by auto
  have ok: "world_ok sha U w" using w(1) by (simp add: partway_def)
  have m: "mgr_ok (pg_blocks d)" by (rule mgr_ok_running [OF r])
  have capu: "?cap \<le> usize_max" using session_room_cap [OF room] by simp
  have live: "\<exists>k st. g i = Some (k, st) \<and> length st = s_scheduled s" if at: "m_sequences (pg_blocks d) i = Some s" for i s
  proof -
    obtain st where st: "w_stream w i = Some st" using world_okD(2) [OF ok] at w(2) by (metis domD domI)
    have "g i = Some (s_keys s, st)" using at st w(2,4) session_view_at by metis
    moreover have "length st = s_scheduled s" by (rule view_length [OF ok _ st]) (use at w(2) in simp)
    ultimately show ?thesis by blast
  qed
  have refs: "size (held_by (m_sequences (pg_blocks d))) \<le> u32_max" using room by (simp add: session_room_def)
  have "\<exists>q. decode_needs d [] rows 0 = Some q \<and> (\<forall>n. q = Inr n \<longrightarrow>
      distinct ([] @ map fst rows) \<and> (\<forall>row\<in>set rows. batch_row_ok (pg_config d) g row))"
    by (rule decode_needs_result [OF m _ refs capu]) (use w(2,3) live in simp_all)
  then obtain q where q: "decode_needs d [] rows 0 = Some q"
    "\<And>n. q = Inr n \<Longrightarrow> distinct (map fst rows) \<and> (\<forall>row\<in>set rows. batch_row_ok (pg_config d) g row)"
    by auto
  show ?thesis
  proof (cases q)
    case (Inl e)
    then show ?thesis using q False answers_refused [OF r] by (simp add: decode_batch_def)
  next
    case (Inr needed)
    show ?thesis
    proof (cases "needed > free_blocks (pg_blocks d)")
      case True
      then show ?thesis using q(1) Inr False answers_refused [OF r] by (simp add: decode_batch_def)
    next
      case enough: False
      have dist: "distinct (map fst rows)" using q(2) [OF Inr] by blast
      have fits: "row_fits U ?cap (session_view w) row" if "row \<in> set rows" for row
        using q(2) [OF Inr] that U [of "fst row" "snd row"] w(4) by (fastforce simp: batch_row_ok_def row_fits_def)
      define after where "after = on_ok (batch_step net d rows readback) (\<lambda>decoded d.
          on_ok (commit_rows sha d (map fst rows)) (\<lambda>_ d. Some (Inr decoded, d)))"
      have run: "decode_batch sha net d rows readback = do {
          (result, d) \<leftarrow> after;
          case result of
            Inr decoded \<Rightarrow> Some (Inr decoded, d)
          | Inl e \<Rightarrow> map_option (Pair (Inl e)) (free_rows d (map fst rows)) }"
        using q(1) Inr False enough by (simp add: decode_batch_def after_def)
      show ?thesis
      proof (rule batch_step_result [OF w(1-3) capu dist fits, of readback])
        fix e d1 assume b: "batch_step net d rows readback = Some (Inl e, d1)"
          "rows_failed net sha U (fst ` set rows) d (session_view w) d1"
        obtain w1 where f: "kept d d1" "w_mgr w1 = pg_blocks d1" "restorable net sha U (fst ` set rows) w1 (pg_cells d1)"
          "level (w_mgr w1) ?cap (fst ` set rows)" "\<And>j. j \<notin> fst ` set rows \<Longrightarrow> session_view w1 j = g j"
          using b(2) w(4) unfolding rows_failed_def by blast
        have "\<exists>d'. free_rows d1 (map fst rows) = Some d' \<and> kept d1 d' \<and> at_most_lost net sha U d' g (set (map fst rows))"
          by (rule free_rows_lost [OF f(3,2), where behind = "fst ` set rows"]) (use f(1,4,5) in \<open>simp_all add: kept_def\<close>)
        then obtain d' where d': "free_rows d1 (map fst rows) = Some d'" "kept d1 d'" "at_most_lost net sha U d' g (fst ` set rows)"
          by auto
        then show ?thesis using run b(1) kept_trans [OF f(1) d'(2)] by (intro answersI [of _ "Inl e" d']) (simp_all add: after_def)
      next
        fix decoded d1 w1
        assume b: "batch_step net d rows readback = Some (Inr decoded, d1)" "kept d d1" "w_mgr w1 = pg_blocks d1"
          "partway net sha U Map.empty w1 (pg_cells d1)" "level (w_mgr w1) ?cap (fst ` set rows)"
          "session_view w1 = batch_view (session_view w) rows"
          "\<exists>ls. own_logits net (session_view w) rows ls \<and> read_rows net ls readback = Inr decoded"
        have "fst row \<in> dom (m_sequences (w_mgr w1))" if "row \<in> set rows" for row
        proof -
          have "session_view w1 (fst row) \<noteq> None"
            using fits [OF that] unfolding b(6) by (auto simp: row_fits_def batch_view_def split: option.splits)
          then show ?thesis by (auto simp: session_view_def split: option.splits)
        qed
        then have "set (map fst rows) \<subseteq> dom (m_sequences (w_mgr w1))" by auto
        from commit_rows_result [OF b(4,3,5) this] obtain d' w' where c: "commit_rows sha d1 (map fst rows) = Some (Inr (), d')"
          "kept d1 d'" "w_mgr w' = pg_blocks d'" "partway net sha U Map.empty w' (pg_cells d')" "session_view w' = session_view w1"
          "level (w_mgr w') ?cap (fst ` set rows - set (map fst rows))" by blast
        have k: "kept d d'" by (rule kept_trans [OF b(2) c(2)])
        have "running net sha U d' (batch_view g rows)"
          using c(3-6) b(6) w(4) k unfolding running_def by (intro exI [of _ w']) (simp add: kept_def)
        then show ?thesis using run b(1,7) c(1) k w(4) by (intro answersI [of _ "Inr decoded" d']) (simp_all add: after_def)
      qed
    qed
  qed
qed

end
