(* ===== verification/PagedRuns.thy ===== *)
theory PagedRuns
  imports PagedBatch
begin

text \<open>
  Runs of the session's calls, failed device calls included: what each call may answer, and the
  tokens of the sequences as the caller counts them.
\<close>

section \<open>Runs of calls\<close>

text \<open>The calls of the session that compute, reserve or release, and what they return.\<close>

datatype session_call =
    Prefill_call seq_id "token list" hash_keys
  | Chunk_call seq_id "token list" hash_keys nat
  | Extend_call seq_id "token list"
  | Batch_call "(seq_id \<times> token) list" batch_readback
  | Fork_call seq_id seq_id
  | Free_call seq_id

datatype 'l session_answer =
    Row_answer 'l
  | Chunk_answer "'l paged_chunk"
  | Batch_answer "'l batch_decoded"
  | No_answer

fun session_do ::
  "(byte list \<Rightarrow> byte list) \<Rightarrow> ('k, 'l) qwen_net \<Rightarrow> 'k paged_session \<Rightarrow> session_call \<Rightarrow> ('k, 'l session_answer) session_result" where
  "session_do sha net d (Prefill_call i ids keys) =
     on_ok (prefill_with_keys sha net d i ids keys) (\<lambda>p d. Some (Inr (Row_answer (pp_logits p)), d))"
| "session_do sha net d (Chunk_call i ids keys budget) =
     on_ok (prefill_chunk sha net d i ids keys budget) (\<lambda>c d. Some (Inr (Chunk_answer c), d))"
| "session_do sha net d (Extend_call i ids) =
     on_ok (extend_last_logits sha net d i ids) (\<lambda>l d. Some (Inr (Row_answer l), d))"
| "session_do sha net d (Batch_call rows readback) =
     on_ok (decode_batch sha net d rows readback) (\<lambda>decoded d. Some (Inr (Batch_answer decoded), d))"
| "session_do sha net d (Fork_call parent child) =
     on_ok (session_fork d parent child) (\<lambda>_ d. Some (Inr No_answer, d))"
| "session_do sha net d (Free_call i) =
     on_ok (session_free d i) (\<lambda>_ d. Some (Inr No_answer, d))"

text \<open>The sequences a call may release when it fails.\<close>

fun call_sequences :: "session_call \<Rightarrow> seq_id set" where
  "call_sequences (Prefill_call i ids keys) = {i}"
| "call_sequences (Chunk_call i ids keys budget) = {i}"
| "call_sequences (Extend_call i ids) = {i}"
| "call_sequences (Batch_call rows readback) = fst ` set rows"
| "call_sequences (Fork_call parent child) = {}"
| "call_sequences (Free_call i) = {i}"

text \<open>The keys and tokens of the sequences after a call, as the caller counts them; those that the
  session no longer holds are gone.\<close>

fun session_after ::
  "(seq_id \<rightharpoonup> hash_keys \<times> token list) \<Rightarrow> session_call \<Rightarrow> 'l session_answer \<Rightarrow> seq_id \<rightharpoonup> hash_keys \<times> token list" where
  "session_after g (Prefill_call i ids keys) a = g(i \<mapsto> (keys, ids))"
| "session_after g (Chunk_call i ids keys budget) (Chunk_answer c) = g(i \<mapsto> chunk_stream g i keys ids c)"
| "session_after g (Extend_call i ids) a = g(i := map_option (\<lambda>(k, st). (k, st @ ids)) (g i))"
| "session_after g (Batch_call rows readback) a = batch_view g rows"
| "session_after g (Fork_call parent child) a = g(child := g parent)"
| "session_after g (Free_call i) a = g(i := None)"
| "session_after g _ a = g"

definition still_held ::
  "'k paged_session \<Rightarrow> (seq_id \<rightharpoonup> hash_keys \<times> token list) \<Rightarrow> seq_id \<rightharpoonup> hash_keys \<times> token list" where
  "still_held d g = (\<lambda>i. if m_sequences (pg_blocks d) i = None then None else g i)"

text \<open>The logits of a call are computed from the caller's tokens of the sequence, and from nothing else.\<close>

fun answer_right ::
  "('k, 'l) qwen_net \<Rightarrow> (seq_id \<rightharpoonup> hash_keys \<times> token list) \<Rightarrow> session_call \<Rightarrow> 'l session_answer \<Rightarrow> bool" where
  "answer_right net g (Prefill_call i ids keys) (Row_answer l) \<longleftrightarrow> logits_of net ids l"
| "answer_right net g (Chunk_call i ids keys budget) (Chunk_answer c) \<longleftrightarrow>
     c = nothing_computed \<or> chunk_logits net (snd (chunk_stream g i keys ids c)) ids c"
| "answer_right net g (Extend_call i ids) (Row_answer l) \<longleftrightarrow> logits_of net (snd (the (g i)) @ ids) l"
| "answer_right net g (Batch_call rows readback) (Batch_answer decoded) \<longleftrightarrow>
     (\<exists>ls. own_logits net g rows ls \<and> read_rows net ls readback = Inr decoded)"
| "answer_right net g (Fork_call parent child) a \<longleftrightarrow> True"
| "answer_right net g (Free_call i) a \<longleftrightarrow> True"
| "answer_right net g _ a \<longleftrightarrow> False"

text \<open>\<open>U\<close> holds the keys and tokens of all requests seen.\<close>

fun call_in :: "(hash_keys \<times> token list) set \<Rightarrow> (seq_id \<rightharpoonup> hash_keys \<times> token list) \<Rightarrow> session_call \<Rightarrow> bool" where
  "call_in U g (Prefill_call i ids keys) \<longleftrightarrow> (keys, ids) \<in> U"
| "call_in U g (Chunk_call i ids keys budget) \<longleftrightarrow>
     (case g i of None \<Rightarrow> (keys, ids) \<in> U | Some (k, st) \<Rightarrow> (k, st @ drop (length st) ids) \<in> U)"
| "call_in U g (Extend_call i ids) \<longleftrightarrow> (case g i of None \<Rightarrow> True | Some (k, st) \<Rightarrow> (k, st @ ids) \<in> U)"
| "call_in U g (Batch_call rows readback) \<longleftrightarrow>
     (\<forall>(i, t)\<in>set rows. case g i of None \<Rightarrow> True | Some (k, st) \<Rightarrow> (k, st @ [t]) \<in> U)"
| "call_in U g (Fork_call parent child) \<longleftrightarrow> True"
| "call_in U g (Free_call i) \<longleftrightarrow> True"

inductive session_reach ::
  "(byte list \<Rightarrow> byte list) \<Rightarrow> ('k, 'l) qwen_net \<Rightarrow> (hash_keys \<times> token list) set \<Rightarrow> 'k paged_session \<Rightarrow>
   'k paged_session \<Rightarrow> (seq_id \<rightharpoonup> hash_keys \<times> token list) \<Rightarrow> bool"
  for sha net U d0 where
  start: "session_reach sha net U d0 d0 Map.empty"
| answered: "session_reach sha net U d0 d g \<Longrightarrow> session_room sha U d \<Longrightarrow> call_in U g call \<Longrightarrow>
    session_do sha net d call = Some (Inr a, d') \<Longrightarrow>
    session_reach sha net U d0 d' (still_held d' (session_after g call a))"
| failed: "session_reach sha net U d0 d g \<Longrightarrow> session_room sha U d \<Longrightarrow> call_in U g call \<Longrightarrow>
    session_do sha net d call = Some (Inl e, d') \<Longrightarrow>
    session_reach sha net U d0 d' (still_held d' g)"

section \<open>Every call\<close>

lemma running_dom: "running net sha U d g \<Longrightarrow> g i = None \<longleftrightarrow> m_sequences (pg_blocks d) i = None"
  using session_view_none unfolding running_def partway_def by metis

lemma still_held_running: "running net sha U d g \<Longrightarrow> still_held d g = g"
proof
  fix i assume "running net sha U d g"
  from running_dom [OF this, of i] show "still_held d g i = g i" by (cases "g i") (simp_all add: still_held_def)
qed

lemma still_held_lost:
  assumes "at_most_lost net sha U d g R"
  shows "running net sha U d (still_held d g)"
proof (cases "running net sha U d g")
  case True
  then show ?thesis using still_held_running [OF True] by simp
next
  case False
  then have r: "running net sha U d (\<lambda>i. if i \<in> R then None else g i)" using assms by (simp add: at_most_lost_def)
  have "still_held d g = (\<lambda>i. if i \<in> R then None else g i)"
  proof
    fix i
    show "still_held d g i = (if i \<in> R then None else g i)"
      using running_dom [OF r, of i] by (auto simp: still_held_def split: if_splits)
  qed
  then show ?thesis using r by simp
qed

lemma lost_others:
  assumes r: "running net sha U d g" and l: "at_most_lost net sha U d' g R" and i: "i \<notin> R"
  shows "m_sequences (pg_blocks d') i = None \<longleftrightarrow> m_sequences (pg_blocks d) i = None"
proof -
  consider "running net sha U d' g" | "running net sha U d' (\<lambda>i. if i \<in> R then None else g i)"
    using l by (auto simp: at_most_lost_def)
  then show ?thesis
    by cases (use running_dom [OF r, of i] running_dom [of net sha U d' _ i] i in fastforce)+
qed

lemma answers_do:
  assumes a: "answers net sha U d g R good r"
    and good: "\<And>a d'. good a d' \<Longrightarrow> right (f a) \<and> running net sha U d' (still_held d' (upd (f a)))"
  shows "answers net sha U d g R (\<lambda>a d'. right a \<and> running net sha U d' (still_held d' (upd a)))
    (on_ok r (\<lambda>a d. Some (Inr (f a), d)))"
proof -
  obtain res d' where r: "r = Some (res, d')" "kept d d'" "\<And>a. res = Inr a \<Longrightarrow> good a d'"
    "\<And>e. res = Inl e \<Longrightarrow> at_most_lost net sha U d' g R"
    using a unfolding answers_def by blast
  show ?thesis using r good by (cases res) (auto simp: answers_def)
qed

lemma session_do_result:
  assumes r: "running net sha U d g" and room: "session_room sha U d" and call: "call_in U g call"
  shows "answers net sha U d g (call_sequences call)
    (\<lambda>a d'. answer_right net g call a \<and> running net sha U d' (still_held d' (session_after g call a)))
    (session_do sha net d call)"
proof (cases call)
  case (Prefill_call i ids keys)
  then show ?thesis using prefill_result [OF r room, of keys ids i] call
    by (auto intro!: answers_do simp: still_held_running)
next
  case (Chunk_call i ids keys budget)
  have "answers net sha U d g {i} (\<lambda>c d'. chunk_right net sha U d' g i keys ids c) (prefill_chunk sha net d i ids keys budget)"
    by (rule chunk_result [OF r room]) (use call Chunk_call in auto)
  moreover have "answer_right net g call (Chunk_answer c) \<and>
      running net sha U d' (still_held d' (session_after g call (Chunk_answer c)))"
    if "chunk_right net sha U d' g i keys ids c" for c d'
    using that unfolding chunk_right_def
  proof
    assume c: "c = nothing_computed \<and> running net sha U d' g"
    have "still_held d' (g(i \<mapsto> chunk_stream g i keys ids c)) j = g j" for j
      using c running_dom [of net sha U d' g j]
      by (cases "g j"; cases "j = i") (auto simp: still_held_def chunk_stream_def nothing_computed_def)
    then have "still_held d' (g(i \<mapsto> chunk_stream g i keys ids c)) = g" ..
    then show ?thesis using c Chunk_call by simp
  next
    assume c: "running net sha U d' (g(i \<mapsto> chunk_stream g i keys ids c)) \<and>
      chunk_logits net (snd (chunk_stream g i keys ids c)) ids c"
    then show ?thesis using Chunk_call still_held_running [OF conjunct1 [OF c]] by simp
  qed
  ultimately show ?thesis unfolding Chunk_call session_do.simps call_sequences.simps by (rule answers_do)
next
  case (Extend_call i ids)
  have "answers net sha U d g {i} (\<lambda>l d'. \<exists>k st. g i = Some (k, st) \<and> logits_of net (st @ ids) l \<and>
    running net sha U d' (g(i \<mapsto> (k, st @ ids)))) (extend_last_logits sha net d i ids)"
    by (rule extend_result [OF r room]) (use call Extend_call in auto)
  then show ?thesis unfolding Extend_call session_do.simps call_sequences.simps
    by (rule answers_do) (auto simp: still_held_running)
next
  case (Batch_call rows readback)
  have "\<forall>row\<in>set rows. case g (fst row) of None \<Rightarrow> True | Some (k, st) \<Rightarrow> (k, st @ [snd row]) \<in> U"
    using call Batch_call by (simp add: case_prod_unfold)
  then have U: "(k, st @ [t]) \<in> U" if "(i, t) \<in> set rows" "g i = Some (k, st)" for i t k st
    using that by (auto dest: bspec [of _ _ "(i, t)"])
  have "answers net sha U d g (fst ` set rows)
    (\<lambda>decoded d'. (\<exists>ls. own_logits net g rows ls \<and> read_rows net ls readback = Inr decoded) \<and> running net sha U d' (batch_view g rows))
    (decode_batch sha net d rows readback)"
    by (rule decode_batch_result [OF r room]) (rule U)
  then show ?thesis unfolding Batch_call session_do.simps call_sequences.simps
    by (rule answers_do) (auto simp: still_held_running)
next
  case (Fork_call parent child)
  obtain res d' where f: "session_fork d parent child = Some (res, d')" "kept d d'"
    "res = Inr () \<longrightarrow> running net sha U d' (g(child := g parent))" "\<forall>e. res = Inl e \<longrightarrow> running net sha U d' g"
    using session_fork_result [OF r room, of parent child] by blast
  have "answers net sha U d g {} (\<lambda>_ d'. running net sha U d' (g(child := g parent))) (session_fork d parent child)"
    by (rule answersI [OF f(1,2)]) (use f(3,4) lost_none in auto)
  then show ?thesis unfolding Fork_call session_do.simps call_sequences.simps
    by (rule answers_do) (auto simp: still_held_running)
next
  case (Free_call i)
  obtain res m' where f: "free (pg_blocks d) i = Some (res, m')" "kept d (d\<lparr>pg_blocks := m'\<rparr>)"
    "running net sha U (d\<lparr>pg_blocks := m'\<rparr>) (g(i := None))"
    using session_free_result [OF r] by blast
  have "answers net sha U d g {i} (\<lambda>_ d'. running net sha U d' (g(i := None))) (session_free d i)"
    by (rule answersI [of _ "kv_error res"]) (use f lost_one in \<open>auto simp: session_free_def\<close>)
  then show ?thesis unfolding Free_call session_do.simps call_sequences.simps
    by (rule answers_do) (auto simp: still_held_running)
qed

lemma session_new_running:
  assumes c: "config_ok pool" and new: "session_new net config owner pool faults = Some (Inr d)"
  shows "running net sha U d Map.empty"
proof -
  obtain m where m: "manager_new owner pool = Some m" "pg_blocks d = m" "pg_config d = config"
    using new by (auto simp: session_new_def value_then_Inr split: if_splits Option.bind_splits)
  have ok: "mgr_ok m" "m_sequences m = Map.empty"
    using manager_new_ok [of pool owner] c m(1) by (auto simp: config_ok_def)
  have p: "p_block_hashes (m_pool m) = replicate (num_blocks pool) None" "p_published_tokens (m_pool m) = 0"
    using m(1) by (auto simp: manager_new_def split: Option.bind_splits)
  let ?w = "\<lparr>w_mgr = m, w_stream = Map.empty, w_mem = Map.empty\<rparr>"
  have "world_ok sha U ?w" using ok p by (simp add: world_ok_def published_ok_def)
  then have "partway net sha U Map.empty ?w (pg_cells d)" by (simp add: partway_none sound_def)
  moreover have "session_view ?w = Map.empty" using ok by (simp add: session_view_def)
  ultimately show ?thesis using m ok p unfolding running_def
    by (intro exI [of _ ?w]) (simp add: level_def)
qed

lemma session_reach_running:
  assumes "session_reach sha net U d0 d g" "running net sha U d0 Map.empty"
  shows "running net sha U d g"
  using assms
proof (induction)
  case start
  then show ?case by simp
next
  case (answered d g call a d')
  then show ?case using session_do_result [OF answered.IH [OF answered.prems] answered.hyps(2,3)] by (auto simp: answers_def)
next
  case (failed d g call e d')
  then show ?case using session_do_result [OF failed.IH [OF failed.prems] failed.hyps(2,3)] by (auto simp: answers_def intro: still_held_lost)
qed

end
