(* ===== verification/PagedDemo.thy ===== *)
theory PagedDemo
  imports PagedRuns BlockTheorems
begin

text \<open>
  A run of the session on the pool of 32 four-token blocks: sequence 1 prefills three tokens, sequence 2 forks from it,
  and both take the same fourth token, so that the shared block is copied before it is written.
\<close>

section \<open>The states of the run\<close>

text \<open>A network whose K/V of a position is its token and whose logits are the cells read; no device call fails.\<close>

definition demo_net :: "(token, token list) qwen_net" where
  "demo_net = \<lparr>qn_zero = 0, qn_row = (\<lambda>n cells ids. last ids), qn_logits = (\<lambda>cells ids. cells),
     qn_batch_row = (\<lambda>shape cells t. t), qn_batch_logits = (\<lambda>shape cells t. cells),
     qn_finite = (\<lambda>l. True), qn_pick = last\<rparr>"

definition demo_model :: qwen_config where
  "demo_model = \<lparr>qc_vocab_size = 100, qc_max_positions = 64, qc_causal = True, qc_kv_heads = 8, qc_head_dim = 128\<rparr>"

definition demo_pool :: "nat \<Rightarrow> nat list \<Rightarrow> nat \<Rightarrow> pool" where
  "demo_pool queries refs n = \<lparr>p_block_tokens = 4, p_prefix_caching = True, p_ref_counts = refs, p_block_hashes = replicate 32 None,
     p_free = demo_queue n, p_cached = Map.empty, p_counters = \<lparr>c_prefix_queries = queries, c_prefix_hits = 0, c_evictions = 0\<rparr>,
     p_published_tokens = 0\<rparr>"

definition demo_row :: sequence where
  "demo_row = \<lparr>s_keys = new_keys, s_table = [0], s_scheduled = 3, s_computed = 3, s_hashes = [], s_unhashed = [7, 8, 9], s_unresolved = 0\<rparr>"

definition demo_session :: "pool \<Rightarrow> (seq_id \<rightharpoonup> sequence) \<Rightarrow> (nat \<Rightarrow> token) \<Rightarrow> nat \<Rightarrow> token paged_session" where
  "demo_session p seqs cells calls = \<lparr>pg_config = demo_model,
     pg_blocks = \<lparr>m_owner = 0, m_config = demo_config, m_pool = p, m_sequences = seqs\<rparr>,
     pg_cells = cells, pg_faults = (\<lambda>_. None), pg_calls = calls\<rparr>"

definition demo_opened :: "token paged_session" where
  "demo_opened = demo_session (demo_pool 0 (replicate 32 0) 0) Map.empty (\<lambda>_. 0) 1"

definition demo_prefilled :: "token paged_session" where
  "demo_prefilled = demo_session (demo_pool 3 ((replicate 32 0)[0 := 1]) 1) [1 \<mapsto> demo_row] ((\<lambda>_. 0)(0 := 7, 1 := 8, 2 := 9)) 2"

definition demo_forked :: "token paged_session" where
  "demo_forked = demo_session (demo_pool 3 ((replicate 32 0)[0 := 2]) 1) [1 \<mapsto> demo_row, 2 \<mapsto> demo_row]
     ((\<lambda>_. 0)(0 := 7, 1 := 8, 2 := 9)) 2"

definition demo_batch_rows :: "(seq_id \<times> token) list" where
  "demo_batch_rows = [(1, 10), (2, 10)]"

lemmas demo_states = demo_opened_def demo_prefilled_def demo_forked_def demo_session_def demo_pool_def demo_row_def
  demo_model_def demo_config_def demo_net_def demo_batch_rows_def

section \<open>The calls\<close>

lemmas demo_session_eval = prefill_with_keys_def validate_input_ids_def run_forward_def forward_def span_slots_def slots_def slot_at_def
  span_iter_def and_then_def gather_plan_def gather_columns.simps span_prefix_def pool_slot_def slot_flat_def as_i32_def block_width_def
  copy_if_def device_call_def gathered_def scatter_def

lemmas demo_batch_eval = decode_batch_def num_computed_def append_cost_def cost_def free_blocks_def batch_step_def allocate_def
  copy_tail_def no_rows_def release_def commit_rows.simps batch_logits_def read_rows_def copy_block_def copied_def num_unresolved_def upt_small
  hash_block_def demo_sha_def publish_def

lemma demo_session_open: "session_new demo_net demo_model 0 demo_config (\<lambda>_. None) = Some (Inr demo_opened)"
  by (simp add: session_new_def manager_new_def num_blocks_def slab_blocks_def demo_queue_full pool_shape_def as_i32_def
    and_then_def zero_counters_def demo_states)

lemma demo_prefill:
  "session_do demo_sha demo_net demo_opened (Prefill_call 1 [7, 8, 9] new_keys) = Some (Inr (Row_answer [7, 8, 9]), demo_prefilled)"
  by (simp add: demo_states demo_manager_eval demo_session_eval) (simp add: numeral_3_eq_3 numeral_2_eq_2)

lemma demo_fork: "session_do demo_sha demo_net demo_prefilled (Fork_call 1 2) = Some (Inr No_answer, demo_forked)"
  by (simp add: demo_states session_fork_def fork_def sequence_of_def add_ref_def checked_add_u32_def u32_max_def
    list_get_def list_set_def numeral_2_eq_2)

lemma demo_batch: "\<exists>d. session_do demo_sha demo_net demo_forked (Batch_call demo_batch_rows Logits_readback) =
    Some (Inr (Batch_answer (Logit_rows [[7, 8, 9, 10], [7, 8, 9, 10]])), d)"
  by (simp add: demo_states demo_manager_eval demo_session_eval demo_batch_eval numeral_2_eq_2 [symmetric])

section \<open>The run\<close>

lemma demo_net_exact: "exact_net demo_net last (\<lambda>ts. ts)"
proof -
  have "map (\<lambda>pos. last (take (Suc pos) ts)) [0..<length ts] = ts" for ts :: "token list"
    by (rule nth_equalityI) (simp_all add: take_Suc_conv_app_nth)
  then show ?thesis by (simp add: exact_net_def demo_net_def)
qed

lemma demo_rooms: "session_room demo_sha demo_contexts demo_opened" "session_room demo_sha demo_contexts demo_prefilled"
  "session_room demo_sha demo_contexts demo_forked"
  using demo_contexts_ok
  by (simp_all add: session_room_def demo_states held_by_def u32_max_def)

lemma demo_known: "(new_keys, [7, 8, 9]) \<in> demo_contexts" "(new_keys, [7, 8, 9, 10]) \<in> demo_contexts"
  by (auto simp: demo_contexts_def demo_tokens_def intro: image_eqI [of _ _ 3] image_eqI [of _ _ 4])

lemma demo_reached:
  obtains g where "session_reach demo_sha demo_net demo_contexts demo_opened demo_forked g"
    "g 1 = Some (new_keys, [7, 8, 9])" "g 2 = Some (new_keys, [7, 8, 9])"
proof -
  let ?g1 = "still_held demo_prefilled (session_after Map.empty (Prefill_call 1 [7, 8, 9] new_keys) (Row_answer [7, 8, 9 :: token]))"
  let ?g2 = "still_held demo_forked (session_after ?g1 (Fork_call 1 2) (No_answer :: token list session_answer))"
  have "session_reach demo_sha demo_net demo_contexts demo_opened demo_prefilled ?g1"
    by (rule answered [OF start demo_rooms(1) _ demo_prefill]) (simp add: demo_known)
  then have "session_reach demo_sha demo_net demo_contexts demo_opened demo_forked ?g2"
    by (rule answered [OF _ demo_rooms(2) _ demo_fork]) simp
  then show ?thesis by (rule that) (simp_all add: still_held_def demo_states)
qed

end
