(* ===== verification/PagedTheorems.thy ===== *)
theory PagedTheorems
  imports PagedDemo
begin

text \<open>
  What the paged session promises to the engine that calls it, over any run of its calls, failed
  device calls included.
\<close>

text \<open>C3: Paged logits come from the sequence's own tokens. In every run of prefills with prefix hits, prefills in
  chunks, extensions, batched decodes, forks and frees, any device call of which may fail (queued steps are not
  part of these runs), every call returns; the logits it answers with are computed, row by row, from
  the keys' own tokens of the sequence: by a call of the network's kernels on K/V that were themselves computed
  for the prefixes of these tokens, and never on a cell that holds another context, a copy not made or what a
  failed call left. A failed call takes no other sequence with it. Nothing is assumed of how the kernels round:
  batched, chunked and single forwards may differ, as \<open>paged.rs\<close> says; for kernels that do
  not, \<open>exact_logits\<close> makes these the logits of a forward from scratch. The hashed contexts are assumed not to collide,
  and the tables to hold fewer than \<open>2^32\<close> entries.\<close>

theorem paged_calls_compute_from_own_tokens:
  assumes "config_ok pool" "session_new net config owner pool faults = Some (Inr d0)"
    and "session_reach sha net U d0 d g" "session_room sha U d" "call_in U g call"
  shows "\<exists>res d'. session_do sha net d call = Some (res, d') \<and>
    (\<forall>a. res = Inr a \<longrightarrow> answer_right net g call a) \<and>
    (\<forall>e i. res = Inl e \<longrightarrow> i \<notin> call_sequences call \<longrightarrow>
       (m_sequences (pg_blocks d') i = None \<longleftrightarrow> m_sequences (pg_blocks d) i = None))"
proof -
  have r: "running net sha U d g"
    by (rule session_reach_running [OF assms(3) session_new_running [OF assms(1,2)]])
  obtain res d' where "session_do sha net d call = Some (res, d')" "\<And>a. res = Inr a \<Longrightarrow> answer_right net g call a"
    "\<And>e. res = Inl e \<Longrightarrow> at_most_lost net sha U d' g (call_sequences call)"
    using session_do_result [OF r assms(4,5)] unfolding answers_def by blast
  then show ?thesis using lost_others [OF r] by blast
qed

lemma paged_calls_compute_from_own_tokens_witness:
  "\<exists>d'. session_do demo_sha demo_net demo_forked (Batch_call demo_batch_rows Logits_readback) =
      Some (Inr (Batch_answer (Logit_rows [[7, 8, 9, 10], [7, 8, 9, 10]])), d') \<and>
    own_logits demo_net (\<lambda>i. Some (new_keys, [7, 8, 9])) demo_batch_rows [[7, 8, 9, 10], [7, 8, 9, 10]] \<and>
    \<not> logits_of demo_net [7, 8, 10] [7, 8, 9, 10]"
proof -
  obtain g where g: "session_reach demo_sha demo_net demo_contexts demo_opened demo_forked g"
    "g 1 = Some (new_keys, [7, 8, 9])" "g 2 = Some (new_keys, [7, 8, 9])"
    by (rule demo_reached)
  have "call_in demo_contexts g (Batch_call demo_batch_rows Logits_readback)"
    using g(2,3) demo_known by (simp add: demo_batch_rows_def)
  from paged_calls_compute_from_own_tokens [OF demo_config_ok demo_session_open g(1) demo_rooms(3) this]
  obtain res d' where r: "session_do demo_sha demo_net demo_forked (Batch_call demo_batch_rows Logits_readback) = Some (res, d')"
    "\<And>a. res = Inr a \<Longrightarrow> answer_right demo_net g (Batch_call demo_batch_rows Logits_readback) a"
    by blast
  obtain d2 where d2: "session_do demo_sha demo_net demo_forked (Batch_call demo_batch_rows Logits_readback) =
      Some (Inr (Batch_answer (Logit_rows [[7, 8, 9, 10], [7, 8, 9, 10]])), d2)"
    using demo_batch by blast
  then obtain ls where "own_logits demo_net g demo_batch_rows ls"
    "read_rows demo_net ls Logits_readback = Inr (Logit_rows [[7, 8, 9, 10], [7, 8, 9, 10]])" using r by fastforce
  then have "own_logits demo_net g demo_batch_rows [[7, 8, 9, 10], [7, 8, 9, 10]]" by (simp add: read_rows_def)
  then have "own_logits demo_net (\<lambda>i. Some (new_keys, [7, 8, 9])) demo_batch_rows [[7, 8, 9, 10], [7, 8, 9, 10]]"
    using g(2,3) by (simp add: own_logits_def demo_batch_rows_def)
  then show ?thesis using d2 exact_logits [OF _ demo_net_exact] by blast
qed

end
