(* ===== verification/Spec2Isabelle.thy ===== *)
theory Spec2Isabelle
  imports BlockTheorems Admission AdmissionQueue PrefixProperties PrefixCacheProperties SpeculativeTheorems GgufTheorems EngineTheorems PagedTheorems
begin

text \<open>
  Verification of the serving core of metallix, a Rust inference engine for Apple GPUs: the code
  that decides which request runs, where its K/V lives, which prefixes are reused and which tokens
  are emitted, and the reader of the files its models come from.

  \<^bold>\<open>The program.\<close> A request passes an admission queue in front of its model
  (\<open>app/cli/src/admission_queue.rs\<close>), whose model must be loaded and warmed (\<open>core/engine/src/lifecycle.rs\<close>),
  and becomes a submission to the batching engine (\<open>app/cli/src/engine_loop.rs\<close>). The engine prefills its
  prompt in chunks, decodes it with the others in one batch, one device step ahead of the host where
  every turn allows it, preempts it when the pool is full, and sends its events to its writer. Its K/V lives in
  the blocks of a shared pool (\<open>core/engine/src/blocks\<close>), which finds common prefixes by content keys; the engine's decoder
  is the paged session (\<open>models/qwen/src/forward/paged.rs\<close>), which turns the tables of the pool into slots of the device. Turns that
  run alone use an in-memory prefix cache (\<open>app/cli/src/qwen_prefix_cache.rs\<close>), a store on disk
  (\<open>app/cli/src/prefix_store.rs\<close>) and speculative decoding (\<open>core/engine/src/speculative.rs\<close>). Tokens are picked,
  classified and counted by \<open>app/cli/src/chat_turn.rs\<close>. (All paths are under \<open>src/crates\<close>.)

  \<^bold>\<open>Conventions.\<close> A panic (an \<open>expect\<close>, an index out of range, a checked overflow) is an outer \<open>None\<close>; a \<open>Result\<close> is
  a sum with the error on the left; a call that changes its receiver returns the result with the
  new state. \<open>usize\<close>, \<open>u64\<close> and \<open>u32\<close> counters are naturals with every check, saturation and wrap of the code written
  out, and a plain addition that could overflow, as of what a decoder reports, is one that panics, as in a
  build with overflow checks; token IDs are 32-bit words; bytes are 8-bit words. Loops are recursive functions with proved
  termination, or partial functions where the list they walk might be cyclic (\<open>fq_walk\<close>): no fuel is used anywhere. What the code calls and this repository does not contain, or what
  computes in floating point, is an argument: SHA-256, \<open>f32\<close> and \<open>f64\<close> arithmetic, samplers, grammar masks, the
  decoder under the engine, the network of the paged session, the draft and target models. What arrives from outside during a run (the clock, cancelled clients,
  full channels, device failures) is read from streams over which the theorems quantify. Interfaces
  between parts are locales, each interpreted on the model of the code that provides it.

  \<^bold>\<open>The theories.\<close>
  \<^item> \<open>Prelude\<close>, \<open>Bytes\<close>: checked arithmetic, indexed lists, little-endian fields.
  \<^item> \<open>FreeQueue\<close> (\<open>blocks/free_queue.rs\<close>): the intrusive free list; it implements a list of distinct blocks.
  \<^item> \<open>BlockHash\<close> (\<open>blocks/hash.rs\<close>): the bytes hashed into a block's key determine the block and its history.
  \<^item> \<open>BlockConfig\<close> (\<open>blocks.rs\<close>), \<open>BlockPool\<close>, \<open>BlockManager\<close> (\<open>blocks/manager.rs\<close>): every method; reference counts and tables
    agree, no method panics or changes anything when it refuses.
  \<^item> \<open>BlockDevice\<close>, \<open>BlockDemo\<close>, \<open>BlockTheorems\<close>: the manager with the memory of the device: over any calls each sequence
    reads back its own tokens; a pool of 32 blocks with a published and a shared block.
  \<^item> \<open>Admission\<close> (\<open>lib.rs\<close>, \<open>kv.rs\<close>, \<open>admission.rs\<close>, \<open>lifecycle.rs\<close>), \<open>AdmissionQueue\<close>: limits, pages, reservations, phases; the
    first-come-first-served queue as steps over one scheduler.
  \<^item> \<open>PrefixFormat\<close>, \<open>PrefixStore\<close>, \<open>PrefixTheorems\<close>, \<open>PrefixProperties\<close> (\<open>prefix_store.rs\<close>): the file format and its round
    trip, the index and its budget, lookups, the writer with crashes.
  \<^item> \<open>PrefixCache\<close>, \<open>PrefixCacheLemmas\<close>, \<open>PrefixCacheLookup\<close>, \<open>PrefixCacheProperties\<close> (\<open>qwen_prefix_cache.rs\<close>): a cache of chained
    entries that refines a map, with eviction and superseding.
  \<^item> \<open>Speculative\<close>, \<open>SpeculativeLemmas\<close>, \<open>SpeculativeTheorems\<close> (\<open>speculative.rs\<close>): draft and verify emits what plain greedy
    decoding emits.
  \<^item> \<open>Checkpoint\<close>, \<open>Gguf\<close>, \<open>GgufFormat\<close>, \<open>GgufTable\<close>, \<open>GgufTheorems\<close> (\<open>core/checkpoint/src/lib.rs\<close>, \<open>gguf.rs\<close>): the reader accepts
    exactly the encodings of its layout, tensors are disjoint slices of the file.
  \<^item> \<open>Turn\<close> (\<open>chat_turn.rs\<close>, parts of \<open>chat_generation.rs\<close> and \<open>core/chat-format/src/lib.rs\<close>): picking, classifying, recording
    and ending the tokens of a turn.
  \<^item> \<open>Engine\<close> (\<open>engine_loop.rs\<close>): the engine, one definition per function. \<open>EngineSteps\<close> splits an iteration into twenty
    small steps and proves that every iteration is a sequence of them; the invariants of \<open>EngineIds\<close> (who is
    where), \<open>EngineTrace\<close> (the contract with the decoder), \<open>EngineEvents\<close> (what writers hear) and \<open>EngineSerial\<close> (batched is
    serial) are proved step by step. \<open>EngineTotal\<close> shows that an iteration returns, with a decoder that counts the tokens
    it holds so that the engine's sums fit, \<open>EngineDemo\<close> runs one concrete engine, \<open>EngineTheorems\<close> states the results.
  \<^item> \<open>PagedSession\<close> (\<open>models/qwen/src/forward/paged.rs\<close>): the paged Qwen session, one definition per function, over a device
    of one K/V cell per pool slot and a stream of failing device calls. The network is a record of functions:
    the K/V of a new position from the cells before it and the tokens of the call up to it (causal attention is built in),
    and the logits of the last position from all cells it attends to, by other functions for each shape of a batch than for
    one sequence, since the kernels differ and agree only to rounding. \<open>PagedMemory\<close> says what it is for a cell or logits to be computed from
    a sequence's own tokens (\<open>cell_of\<close>, \<open>logits_of\<close>), and relates cells to tokens; \<open>PagedCalls\<close> treats plans, forwards and
    the calls of the manager, \<open>PagedSerial\<close> the calls on one sequence, \<open>PagedBatch\<close> the batch, \<open>PagedRuns\<close> runs of calls; \<open>PagedDemo\<close>
    runs one concrete session with a fork and a copy on write, and \<open>PagedTheorems\<close> states that every call returns and
    its logits come from the sequence's own tokens. Nothing is said of how far two ways of computing them round apart.

  \<^bold>\<open>Not modelled.\<close> Model forwards, Metal kernels, block-float codecs and samplers compute in floating point, for
  which there is no faithful model here; where the serving core calls them they are arguments. The queued steps of the
  paged session (\<open>queue_decode\<close>, \<open>finish_decode\<close>) are modelled, but \<open>PagedTheorems\<close> speaks of runs of its other calls: a queued
  step writes cells after the manager has moved on, and needs the engine's order of calls. Of its errors those of
  device and weights are one, \<open>Mlx_failed\<close>, and may occur at any device call. The files of the prefix store can be missing, damaged or
  half written at any time, but a removal whose result the code ignores (\<open>fs::remove_file\<close> in \<open>make_room\<close>, \<open>forget\<close> and \<open>open_scan\<close>) is
  modelled as one that succeeds, so that what is said of the bytes on disk holds for removals that do. HTTP,
  JSON, templates, tokenizers, the command line and web search are glue around libraries that are not part of the
  repository. The float parts of \<open>speculative.rs\<close> choose draft lengths; the theorems hold for every choice.
\<close>

end
